(* ===== verification/Prelude.thy ===== *)
theory Prelude
  imports Main "HOL-Library.Word" "HOL-Library.Signed_Division" "HOL-Library.Monad_Syntax"
    "HOL-Library.Product_Lexorder"
begin

unbundle bit_operations_syntax

text \<open>
  Shared vocabulary of the development: the C integer types, flag words, the loops over the
  prefix of a fixed array, and the generic facts about them that the component theories use.

  Unsigned C integers are words of their width, so that addition, subtraction and
  multiplication wrap as in C.  Signed C integers are values of type \<open>int\<close> that are brought
  back into range by \<open>s32\<close> and \<open>s64\<close> (the kernel is built with wrapping signed arithmetic);
  signed division truncates towards zero and is written \<open>sdiv\<close>.
  A result \<open>None\<close> of an operation of type \<open>'a option\<close> stands for a kernel fault (a write
  behind the end of an array or a division by zero), unless a text says that it is NULL.
\<close>

named_theorems flag_simps \<open>setting, clearing and testing flags\<close>
named_theorems loop_simps \<open>loops over the prefix of an array\<close>

section \<open>C integers\<close>

type_synonym u8 = "8 word"
type_synonym u16 = "16 word"
type_synonym u32 = "32 word"
type_synonym u64 = "64 word"

definition s32 :: "int \<Rightarrow> int" where
  "s32 x = signed_take_bit 31 x"

definition s64 :: "int \<Rightarrow> int" where
  "s64 x = signed_take_bit 63 x"

lemma s32_id [simp]: "- (2 ^ 31) \<le> x \<Longrightarrow> x < 2 ^ 31 \<Longrightarrow> s32 x = x"
  by (simp add: s32_def signed_take_bit_int_eq_self)

lemma s64_id [simp]: "- (2 ^ 63) \<le> x \<Longrightarrow> x < 2 ^ 63 \<Longrightarrow> s64 x = x"
  by (simp add: s64_def signed_take_bit_int_eq_self)

lemma s64_range: "- (2 ^ 63) \<le> s64 x \<and> s64 x < 2 ^ 63"
  unfolding s64_def
  using signed_take_bit_int_greater_eq_minus_exp [of 63 x] signed_take_bit_int_less_exp [of 63 x]
  by simp

lemma s32_range: "- (2 ^ 31) \<le> s32 x \<and> s32 x < 2 ^ 31"
  unfolding s32_def
  using signed_take_bit_int_greater_eq_minus_exp [of 31 x] signed_take_bit_int_less_exp [of 31 x]
  by simp

lemma sint_less64: "sint (w :: u64) < 2 ^ 63"
  using sint_lt [of w] by simp

lemma sint_ge64: "- (2 ^ 63) \<le> sint (w :: u64)"
  using sint_ge [of w] by simp

lemma unat_less_iff_uint: "unat w < n \<longleftrightarrow> uint w < int n"
  by (simp only: unat_eq_nat_uint nat_less_iff [OF uint_ge_0])

lemma unat_le_iff_uint: "unat w \<le> n \<longleftrightarrow> uint w \<le> int n"
  by (simp only: unat_eq_nat_uint nat_le_iff)

lemma unat_less_unat_iff: "unat v < unat w \<longleftrightarrow> uint v < uint w"
  by (simp only: unat_less_iff_uint uint_nat)

lemma uint_less31: "unat (w::u32) < 2 ^ 31 \<Longrightarrow> uint w < 2 ^ 31"
  by (simp only: unat_less_iff_uint of_nat_power of_nat_numeral)

lemma uint_pos: "w \<noteq> 0 \<Longrightarrow> 0 < uint w"
  by (metis uint_0_iff uint_ge_0 order_le_less)

lemma unat_of_nat32: "n < 2 ^ 32 \<Longrightarrow> unat (of_nat n :: u32) = n"
  by (simp add: unat_of_nat take_bit_nat_eq_self)

lemma unat_of_nat64: "n < 2 ^ 64 \<Longrightarrow> unat (of_nat n :: u64) = n"
  by (simp add: unat_of_nat take_bit_nat_eq_self)

lemma ucast_back: "unat (x::u64) < 2 ^ 32 \<Longrightarrow> ucast (ucast x :: u32) = x"
  by (simp add: word_unat_eq_iff unsigned_ucast_eq unsigned_take_bit_eq take_bit_nat_eq_self)

lemma unat_bound: "unat (w :: 'a::len word) < 2 ^ LENGTH('a)"
  by (rule unsigned_less)

lemma unat_ucast_32_64 [simp]: "unat (ucast (x::u32) :: u64) = unat x"
  using unat_bound [of x] by (simp add: unsigned_ucast_eq take_bit_nat_eq_self)

text \<open>Below \<open>2^31\<close> the signed reading of a 32-bit word is the unsigned one.\<close>

lemma sint_small32:
  assumes "unat (q::u32) < 2 ^ 31"
  shows "sint q = int (unat q)"
proof -
  have "uint q < 2 ^ 31" using assms by (simp only: unat_less_iff_uint of_nat_power of_nat_numeral)
  then have "signed_take_bit 31 (uint q) = uint q"
    using uint_ge_0 [of q] by (intro signed_take_bit_int_eq_self) linarith+
  then show ?thesis by (simp add: sint_uint)
qed

text \<open>Truncating division moves a value towards zero.\<close>

lemma sdiv_pos_nonneg: "0 \<le> (a::int) \<Longrightarrow> 0 < n \<Longrightarrow> a sdiv n = a div n"
  by (cases "a = 0") (simp_all add: signed_divide_int_def)

lemma sdiv_pos_neg: "(a::int) < 0 \<Longrightarrow> 0 < n \<Longrightarrow> a sdiv n = - ((- a) div n)"
  by (simp add: signed_divide_int_def)

lemma sdiv_bounds_nonneg: "0 \<le> (a::int) \<Longrightarrow> 0 < n \<Longrightarrow> 0 \<le> a sdiv n \<and> a sdiv n \<le> a"
  by (simp add: sdiv_pos_nonneg int_div_less_self pos_imp_zdiv_nonneg_iff)
     (metis div_by_1 int_one_le_iff_zero_less zdiv_mono2 zero_less_one)

lemma sdiv_bounds_neg:
  assumes "(a::int) < 0" and "0 < n"
  shows "a \<le> a sdiv n \<and> a sdiv n \<le> 0"
  using sdiv_bounds_nonneg [of "- a" n] assms by (simp add: sdiv_pos_neg sdiv_pos_nonneg)

text \<open>
  The exponential averages of the code all have the shape \<open>m + (x - m) / n\<close>: the new average
  lies between the old one and the sample.
\<close>

definition avg_step :: "int \<Rightarrow> int \<Rightarrow> int \<Rightarrow> int" where
  "avg_step n m x = m + (x - m) sdiv n"

lemma avg_step_between:
  assumes "0 < n"
  shows "min m x \<le> avg_step n m x \<and> avg_step n m x \<le> max m x"
proof (cases "m \<le> x")
  case True
  with sdiv_bounds_nonneg [of "x - m" n] assms show ?thesis
    by (simp add: avg_step_def)
next
  case False
  with sdiv_bounds_neg [of "x - m" n] assms show ?thesis
    by (simp add: avg_step_def)
qed

lemma avg_step_fixpoint: "0 < n \<Longrightarrow> avg_step n m m = m"
  by (simp add: avg_step_def signed_divide_int_def)

section \<open>Flags\<close>

text \<open>\<open>has w f\<close> is the C test \<open>w & f\<close>; \<open>w OR f\<close> sets and \<open>w AND NOT f\<close> clears flags.\<close>

definition has :: "'a::len word \<Rightarrow> 'a word \<Rightarrow> bool" where
  "has w f \<longleftrightarrow> w AND f \<noteq> 0"

definition setf :: "'a::len word \<Rightarrow> 'a word \<Rightarrow> 'a word" where
  "setf w f = w OR f"

definition clrf :: "'a::len word \<Rightarrow> 'a word \<Rightarrow> 'a word" where
  "clrf w f = w AND NOT f"

lemma has_setf [flag_simps]: "has (setf w f) g \<longleftrightarrow> has w g \<or> has f g"
  by (simp add: has_def setf_def bit.conj_disj_distrib2 or_eq_0_iff)

lemma has_or_left [flag_simps]: "has (f OR g) h \<longleftrightarrow> has f h \<or> has g h"
  by (simp add: has_def bit.conj_disj_distrib2 or_eq_0_iff)

lemma has_or [flag_simps]: "has w (f OR g) \<longleftrightarrow> has w f \<or> has w g"
  by (simp add: has_def bit.conj_disj_distrib or_eq_0_iff)

text \<open>A flag that is a single bit.\<close>

definition single :: "'a::len word \<Rightarrow> bool" where
  "single g \<longleftrightarrow> g \<noteq> 0 \<and> (\<exists>n. g = 2 ^ n)"

lemma singleI: "2 ^ n = g \<Longrightarrow> g \<noteq> 0 \<Longrightarrow> single g"
  by (auto simp: single_def)

lemma has_exp: "has w (2 ^ n) \<longleftrightarrow> bit w n"
  by (simp add: has_def and_exp_eq_0_iff_not_bit)

lemma has_clrf [flag_simps]: "single g \<Longrightarrow> has (clrf w f) g \<longleftrightarrow> has w g \<and> \<not> has f g"
  by (auto simp: single_def has_exp clrf_def bit_simps dest: bit_imp_le_length)

lemma has_single [flag_simps]: "single f \<Longrightarrow> single g \<Longrightarrow> has f g \<longleftrightarrow> f = g"
  by (auto simp: single_def has_exp bit_simps)

lemma and_or_single:
  assumes "single f" and "single g"
  shows "w AND (f OR g) = f OR g \<longleftrightarrow> has w f \<and> has w g"
proof -
  obtain m n where fg: "f = 2 ^ m" "g = 2 ^ n" "f \<noteq> 0" "g \<noteq> 0" using assms by (auto simp: single_def)
  have bits: "bit f i \<longleftrightarrow> i = m" "bit g i \<longleftrightarrow> i = n" for i
    using fg by (auto simp: bit_exp_iff possible_bit_def exp_eq_zero_iff)
  have "w AND (f OR g) = f OR g \<longleftrightarrow> (\<forall>i. bit (f OR g) i \<longrightarrow> bit w i)"
    by (simp only: bit_eq_iff [of "w AND (f OR g)"] bit_and_iff) (blast dest: bit_imp_possible_bit)
  then show ?thesis by (simp only: bit_or_iff bits) (auto simp: fg(1,2) has_exp)
qed

lemma clrf_clrf [simp]: "clrf (clrf w f) f = clrf w f"
  by (simp add: clrf_def and.assoc)

section \<open>Loops over a fixed array\<close>

text \<open>
  \<open>for (i = 0; i < n; i++) a[i] = f(i, a[i])\<close>: the body reads and writes only its own entry.
\<close>

definition upd_upto :: "nat \<Rightarrow> (nat \<Rightarrow> 'a \<Rightarrow> 'a) \<Rightarrow> 'a list \<Rightarrow> 'a list" where
  "upd_upto n f xs = fold (\<lambda>i ys. ys[i := f i (ys ! i)]) [0..<n] xs"

lemma upd_upto_0 [simp]: "upd_upto 0 f xs = xs"
  by (simp add: upd_upto_def)

lemma upd_upto_Suc: "upd_upto (Suc n) f xs = (upd_upto n f xs)[n := f n (upd_upto n f xs ! n)]"
  by (simp add: upd_upto_def)

lemma length_upd_upto [simp]: "length (upd_upto n f xs) = length xs"
  by (induction n) (simp_all add: upd_upto_Suc)

lemma nth_upd_upto [loop_simps]:
  "j < length xs \<Longrightarrow> upd_upto n f xs ! j = (if j < n then f j (xs ! j) else xs ! j)"
proof (induction n)
  case (Suc n)
  then show ?case by (cases "j = n") (simp_all add: upd_upto_Suc nth_list_update)
qed simp

lemma upd_upto_cong:
  "n \<le> length xs \<Longrightarrow> (\<And>i. i < n \<Longrightarrow> f i (xs ! i) = g i (xs ! i)) \<Longrightarrow> upd_upto n f xs = upd_upto n g xs"
  by (rule nth_equalityI) (auto simp: loop_simps)

text \<open>\<open>for (j = n; j > i; j--) a[j] = a[j-1]\<close>: making room at index \<open>i\<close>.\<close>

definition shift_up :: "nat \<Rightarrow> nat \<Rightarrow> 'a list \<Rightarrow> 'a list" where
  "shift_up i n xs = fold (\<lambda>j ys. ys[j := ys ! (j - 1)]) (rev [Suc i..<Suc n]) xs"

lemma shift_up_Suc:
  "i \<le> n \<Longrightarrow> shift_up i (Suc n) xs = shift_up i n (xs[Suc n := xs ! n])"
  by (simp add: shift_up_def)

lemma length_shift_up [simp]: "length (shift_up i n xs) = length xs"
  unfolding shift_up_def by (rule fold_invariant [where Q = "\<lambda>_. True"]) auto

lemma nth_shift_up [loop_simps]:
  assumes "i \<le> n" and "n < length xs" and "k < length xs"
  shows "shift_up i n xs ! k = (if i < k \<and> k \<le> n then xs ! (k - 1) else xs ! k)"
  using assms
proof (induction n arbitrary: xs)
  case 0
  then show ?case by (simp add: shift_up_def)
next
  case (Suc n)
  show ?case
  proof (cases "i = Suc n")
    case True
    then show ?thesis using Suc.prems by (auto simp: shift_up_def)
  next
    case False
    then have i: "i \<le> n" using Suc.prems by simp
    then show ?thesis
      using Suc.prems Suc.IH [OF i, of "xs[Suc n := xs ! n]"]
      by (auto simp: shift_up_Suc nth_list_update le_Suc_eq)
  qed
qed

lemma take_shift_up:
  assumes "i \<le> n" and "n < length xs"
  shows "take (Suc n) ((shift_up i n xs)[i := x]) = take i xs @ x # drop i (take n xs)"
proof (rule nth_equalityI)
  fix k assume "k < length (take (Suc n) ((shift_up i n xs)[i := x]))"
  then have "k < Suc n" and "k < length xs" by simp_all
  then show "take (Suc n) ((shift_up i n xs)[i := x]) ! k = (take i xs @ x # drop i (take n xs)) ! k"
    using assms by (auto simp: loop_simps nth_append nth_list_update nth_Cons' not_less)
qed (use assms in simp)

text \<open>\<open>for (j = i; j < n-1; j++) a[j] = a[j+1]\<close>: closing the gap at index \<open>i\<close>.\<close>

definition shift_down :: "nat \<Rightarrow> nat \<Rightarrow> 'a list \<Rightarrow> 'a list" where
  "shift_down i n xs = fold (\<lambda>j ys. ys[j := ys ! Suc j]) [i..<n - 1] xs"

lemma length_shift_down [simp]: "length (shift_down i n xs) = length xs"
  unfolding shift_down_def by (rule fold_invariant [where Q = "\<lambda>_. True"]) auto

lemma nth_shift_down [loop_simps]:
  assumes "n \<le> length xs" and "k < length xs"
  shows "shift_down i n xs ! k = (if i \<le> k \<and> Suc k < n then xs ! Suc k else xs ! k)"
  using assms
proof (induction n arbitrary: k)
  case 0
  then show ?case by (simp add: shift_down_def)
next
  case (Suc n)
  show ?case
  proof (cases "i < n")
    case True
    then obtain m where m: "n = Suc m" by (cases n) auto
    with True have "shift_down i (Suc n) xs = (shift_down i n xs)[m := shift_down i n xs ! Suc m]"
      by (simp add: shift_down_def)
    then show ?thesis using Suc m True by (auto simp: nth_list_update less_Suc_eq)
  next
    case False
    then show ?thesis using Suc.prems by (auto simp: shift_down_def)
  qed
qed

lemma take_shift_down:
  assumes "i < n" and "n \<le> length xs"
  shows "take (n - 1) (shift_down i n xs) = take i xs @ drop (Suc i) (take n xs)"
proof (rule nth_equalityI)
  fix k assume "k < length (take (n - 1) (shift_down i n xs))"
  then have "k < n - 1" and "k < length xs" by simp_all
  then show "take (n - 1) (shift_down i n xs) ! k = (take i xs @ drop (Suc i) (take n xs)) ! k"
    using assms by (auto simp: loop_simps nth_append not_less)
qed (use assms in simp)

text \<open>The first index below \<open>n\<close> with a property: a loop that breaks at its first hit.\<close>

definition first_idx :: "nat \<Rightarrow> (nat \<Rightarrow> bool) \<Rightarrow> nat option" where
  "first_idx n p = find p [0..<n]"

lemma first_idx_Some: "first_idx n p = Some i \<Longrightarrow> i < n \<and> p i \<and> (\<forall>j<i. \<not> p j)"
  by (auto simp: first_idx_def find_Some_iff)

lemma first_idx_None: "first_idx n p = None \<longleftrightarrow> (\<forall>i<n. \<not> p i)"
  by (auto simp: first_idx_def find_None_iff)

text \<open>The last index with a property: the same loop run backwards.\<close>

lemma find_rev_Some:
  assumes "find P (rev [0..<n]) = Some i"
  shows "i < n \<and> P i \<and> (\<forall>j. i < j \<and> j < n \<longrightarrow> \<not> P j)"
  using assms
proof (induction n)
  case (Suc n)
  then show ?case by (cases "P n") (auto simp: less_Suc_eq)
qed simp

lemma find_rev_None: "find P (rev [0..<n]) = None \<longleftrightarrow> (\<forall>i<n. \<not> P i)"
  by (auto simp: find_None_iff)

text \<open>Counting loops.\<close>

definition count_upto :: "nat \<Rightarrow> (nat \<Rightarrow> bool) \<Rightarrow> nat" where
  "count_upto n p = length (filter p [0..<n])"

lemma count_upto_le: "count_upto n p \<le> n"
  unfolding count_upto_def by (metis diff_zero length_filter_le length_upt)

lemma count_upto_Suc: "count_upto (Suc n) p = count_upto n p + (if p n then 1 else 0)"
  by (simp add: count_upto_def)

lemma count_upto_0: "count_upto n p = 0 \<longleftrightarrow> (\<forall>i<n. \<not> p i)"
  by (auto simp: count_upto_def filter_empty_conv)

lemma count_upto_pos: "0 < count_upto n p \<longleftrightarrow> (\<exists>i<n. p i)"
  using count_upto_0 [of n p] by auto

lemma count_upto_cong: "(\<And>i. i < n \<Longrightarrow> p i = q i) \<Longrightarrow> count_upto n p = count_upto n q"
  unfolding count_upto_def by (rule arg_cong [where f = length], rule filter_cong) auto

lemma fold_invariant_upt:
  assumes "P s" and "\<And>i t. i < n \<Longrightarrow> P t \<Longrightarrow> P (f i t)"
  shows "P (fold f [0..<n] s)"
  by (rule fold_invariant [where Q = "\<lambda>i. i < n"]) (auto intro: assms)

lemma count_upto_card: "count_upto n p = card {i. i < n \<and> p i}"
proof -
  have "count_upto n p = card (set (filter p [0..<n]))"
    unfolding count_upto_def by (rule distinct_card [symmetric]) simp
  also have "set (filter p [0..<n]) = {i. i < n \<and> p i}" by auto
  finally show ?thesis .
qed

lemma count_upto_remove:
  assumes "k < n" and "p k" and "\<And>i. i < n \<Longrightarrow> q i \<longleftrightarrow> p i \<and> i \<noteq> k"
  shows "count_upto n q = count_upto n p - 1"
proof -
  have "{i. i < n \<and> q i} = {i. i < n \<and> p i} - {k}" using assms by auto
  then show ?thesis using assms(1,2) by (simp add: count_upto_card)
qed

lemma count_upto_filter:
  assumes "n = length xs" and "\<And>i. i < n \<Longrightarrow> p i = q (xs ! i)"
  shows "count_upto n p = length (filter q xs)"
proof -
  have "length (filter q xs) = card {i. i < length xs \<and> q (xs ! i)}" by (rule length_filter_conv_card)
  also have "{i. i < length xs \<and> q (xs ! i)} = {i. i < n \<and> p i}" using assms by auto
  finally show ?thesis by (simp add: count_upto_card)
qed

end
