(* ===== verification/Kernel_Env.thy ===== *)
theory Kernel_Env
  imports Prelude
begin

text \<open>
  The kernel objects the modelled code works on: subflow sockets, socket buffers, the
  multipath control block, clock values and TCP sequence numbers.

  A pointer to a socket or a buffer is a number; the memory it points into is a total
  function, so that the lifetime of the pointed-to objects is outside the model.  A record
  has the fields the modelled functions read or write.  Where the code calls a function
  of the surrounding kernel that only computes a value from a socket
  (\<open>tcp_packets_in_flight\<close>, \<open>tcp_current_mss\<close>, \<open>tcp_wnd_end\<close>, \<open>tcp_is_reno\<close>,
  \<open>tcp_passive_fastopen\<close>, ...), the record has a field of the same name with that value: an
  arbitrary input of the model.
\<close>

section \<open>Sequence numbers and time\<close>

text \<open>TCP's comparison of sequence numbers: the sign of the 32-bit difference.\<close>

definition before :: "u32 \<Rightarrow> u32 \<Rightarrow> bool" where
  "before a b \<longleftrightarrow> sint (a - b) < 0"

definition after :: "u32 \<Rightarrow> u32 \<Rightarrow> bool" where
  "after a b \<longleftrightarrow> before b a"

text \<open>\<open>ktime_t\<close> is a signed 64-bit number of nanoseconds.\<close>

type_synonym ktime = int

definition ktime_before :: "ktime \<Rightarrow> ktime \<Rightarrow> bool" where
  "ktime_before a b \<longleftrightarrow> a < b"

definition ktime_add_ms :: "ktime \<Rightarrow> u64 \<Rightarrow> ktime" where
  "ktime_add_ms t ms = s64 (t + uint (ms * 1000000))"

definition ktime_to_us :: "ktime \<Rightarrow> int" where
  "ktime_to_us t = t sdiv 1000"

definition ktime_us_delta :: "ktime \<Rightarrow> ktime \<Rightarrow> int" where
  "ktime_us_delta later earlier = ktime_to_us (s64 (later - earlier))"

section \<open>Sockets\<close>

type_synonym sk_ptr = nat
type_synonym skb_ptr = nat

datatype tcp_state =
    TCP_ESTABLISHED | TCP_SYN_SENT | TCP_SYN_RECV | TCP_FIN_WAIT1 | TCP_FIN_WAIT2
  | TCP_TIME_WAIT | TCP_CLOSE | TCP_CLOSE_WAIT | TCP_LAST_ACK | TCP_LISTEN | TCP_CLOSING

text \<open>The congestion state of a socket, in the order of the kernel's enumeration.\<close>

datatype ca_state = TCP_CA_Open | TCP_CA_Disorder | TCP_CA_CWR | TCP_CA_Recovery | TCP_CA_Loss

fun ca_rank :: "ca_state \<Rightarrow> nat" where
  "ca_rank TCP_CA_Open = 0"
| "ca_rank TCP_CA_Disorder = 1"
| "ca_rank TCP_CA_CWR = 2"
| "ca_rank TCP_CA_Recovery = 3"
| "ca_rank TCP_CA_Loss = 4"

lemma ca_rank_inj: "ca_rank a = ca_rank b \<Longrightarrow> a = b"
  by (cases a; cases b) simp_all

instantiation ca_state :: linorder
begin

definition less_eq_ca_state :: "ca_state \<Rightarrow> ca_state \<Rightarrow> bool" where
  "less_eq_ca_state a b \<longleftrightarrow> ca_rank a \<le> ca_rank b"

definition less_ca_state :: "ca_state \<Rightarrow> ca_state \<Rightarrow> bool" where
  "less_ca_state a b \<longleftrightarrow> ca_rank a < ca_rank b"

instance
  by standard (auto simp: less_eq_ca_state_def less_ca_state_def ca_rank_inj)

end

lemmas ca_order = less_eq_ca_state_def less_ca_state_def

record tcp_sock =
  sk_state :: tcp_state
  tcp_passive_fastopen :: bool
  icsk_ca_state :: ca_state
  tcp_is_reno :: bool
  tcp_is_cwnd_limited :: bool
  pf :: bool
  rcv_saddr :: u32
  daddr :: u32
  snd_una :: u32
  snd_nxt :: u32
  write_seq :: u32
  high_seq :: u32
  tcp_wnd_end :: u32
  rcv_nxt :: u32
  snd_cwnd :: u32
  snd_cwnd_cnt :: u32
  snd_cwnd_clamp :: u32
  snd_ssthresh :: u32
  mss_cache :: u32
  tcp_current_mss :: u32
  tcp_packets_in_flight :: u32
  packets_out :: u32
  lost_out :: u32
  srtt_us :: u32
  tsq_throttled :: bool
  sk_gso_max_segs :: u16
  tcp_cwnd_test :: u32
  pre_established :: bool
  fully_established :: bool
  second_packet :: bool
  last_end_data_seq :: u32
  path_index :: u8
  low_prio :: bool
  rcv_low_prio :: bool
  slave_sk :: bool
  snt_isn :: u32
  infinite_cutoff_seq :: u32
  send_shutdown :: bool
  icsk_rto :: u32
  icsk_retransmits :: u8
  icsk_backoff :: u8
  sk_can_gso :: bool
  netif_f_sg :: bool
  netif_f_all_csum :: bool

section \<open>Socket buffers\<close>

text \<open>The fixed part of a DSS option, \<open>struct mp_dss\<close>.\<close>

record mp_dss =
  dss_len :: u8
  dss_A :: bool
  dss_a :: bool
  dss_M :: bool
  dss_m :: bool
  dss_F :: bool

text \<open>A buffer with its control block; the DSS option saved in it is the fixed part and the 32-bit
  words after it, in host order.\<close>

record sk_buff =
  skb_seq :: u32
  skb_end_seq :: u32
  skb_len :: u32
  path_mask :: u32
  mptcp_flags :: u8
  tcp_flags :: u8
  dss_hdr :: mp_dss
  dss_words :: "u32 list"

definition no_dss :: mp_dss where
  "no_dss = \<lparr>dss_len = 0, dss_A = False, dss_a = False, dss_M = False, dss_m = False, dss_F = False\<rparr>"

definition MPTCPHDR_SEQ :: u8 where "MPTCPHDR_SEQ = 0x01"
definition MPTCPHDR_FIN :: u8 where "MPTCPHDR_FIN = 0x02"
definition MPTCPHDR_SEQ64_INDEX :: u8 where "MPTCPHDR_SEQ64_INDEX = 0x04"
definition MPTCPHDR_INF :: u8 where "MPTCPHDR_INF = 0x08"
definition MPTCP_REINJECT :: u8 where "MPTCP_REINJECT = 0x10"
definition MPTCPHDR_SEQ64_OFO :: u8 where "MPTCPHDR_SEQ64_OFO = 0x20"
definition TCPHDR_FIN :: u8 where "TCPHDR_FIN = 0x01"
definition TCPHDR_SYN :: u8 where "TCPHDR_SYN = 0x02"

lemma hdr_flags_single [flag_simps]:
  "single MPTCPHDR_SEQ" "single MPTCPHDR_FIN" "single MPTCPHDR_SEQ64_INDEX" "single MPTCPHDR_INF"
  "single MPTCP_REINJECT" "single MPTCPHDR_SEQ64_OFO" "single TCPHDR_FIN" "single TCPHDR_SYN"
  unfolding MPTCPHDR_SEQ_def MPTCPHDR_FIN_def MPTCPHDR_SEQ64_INDEX_def MPTCPHDR_INF_def
    MPTCP_REINJECT_def MPTCPHDR_SEQ64_OFO_def TCPHDR_FIN_def TCPHDR_SYN_def
  by (rule singleI [where n = 0], simp, simp, rule singleI [where n = 1], simp, simp,
      rule singleI [where n = 2], simp, simp, rule singleI [where n = 3], simp, simp,
      rule singleI [where n = 4], simp, simp, rule singleI [where n = 5], simp, simp,
      rule singleI [where n = 0], simp, simp, rule singleI [where n = 1], simp, simp)

lemma hdr_flags_neq [flag_simps]:
  "MPTCPHDR_SEQ \<noteq> MPTCPHDR_FIN" "MPTCPHDR_SEQ \<noteq> MPTCPHDR_SEQ64_INDEX"
  "MPTCPHDR_SEQ \<noteq> MPTCPHDR_INF" "MPTCPHDR_SEQ \<noteq> MPTCP_REINJECT"
  "MPTCPHDR_FIN \<noteq> MPTCPHDR_SEQ" "MPTCPHDR_FIN \<noteq> MPTCPHDR_SEQ64_INDEX"
  "MPTCPHDR_FIN \<noteq> MPTCPHDR_INF" "MPTCPHDR_FIN \<noteq> MPTCP_REINJECT"
  "MPTCPHDR_SEQ64_INDEX \<noteq> MPTCPHDR_SEQ" "MPTCPHDR_SEQ64_INDEX \<noteq> MPTCPHDR_FIN"
  "MPTCPHDR_SEQ64_INDEX \<noteq> MPTCPHDR_INF" "MPTCPHDR_SEQ64_INDEX \<noteq> MPTCP_REINJECT"
  "MPTCPHDR_INF \<noteq> MPTCPHDR_SEQ" "MPTCPHDR_INF \<noteq> MPTCPHDR_FIN"
  "MPTCPHDR_INF \<noteq> MPTCPHDR_SEQ64_INDEX" "MPTCPHDR_INF \<noteq> MPTCP_REINJECT"
  "MPTCP_REINJECT \<noteq> MPTCPHDR_SEQ" "MPTCP_REINJECT \<noteq> MPTCPHDR_FIN"
  "MPTCP_REINJECT \<noteq> MPTCPHDR_SEQ64_INDEX" "MPTCP_REINJECT \<noteq> MPTCPHDR_INF"
  "TCPHDR_FIN \<noteq> TCPHDR_SYN" "TCPHDR_SYN \<noteq> TCPHDR_FIN"
  by (simp_all add: MPTCPHDR_SEQ_def MPTCPHDR_FIN_def MPTCPHDR_SEQ64_INDEX_def MPTCPHDR_INF_def
      MPTCP_REINJECT_def TCPHDR_FIN_def TCPHDR_SYN_def)

definition mptcp_is_data_seq :: "sk_buff \<Rightarrow> bool" where
  "mptcp_is_data_seq skb = has (mptcp_flags skb) MPTCPHDR_SEQ"

definition mptcp_is_data_fin :: "sk_buff \<Rightarrow> bool" where
  "mptcp_is_data_fin skb = has (mptcp_flags skb) MPTCPHDR_FIN"

text \<open>\<open>1 << (pi - 1)\<close>: the bit of a path in a path mask.\<close>

definition mptcp_pi_to_flag :: "u8 \<Rightarrow> u32" where
  "mptcp_pi_to_flag pi = push_bit (unat pi - 1) 1"

section \<open>States in which a subflow may send or receive\<close>

definition mptcp_sk_can_send :: "tcp_sock \<Rightarrow> bool" where
  "mptcp_sk_can_send sk \<longleftrightarrow> tcp_passive_fastopen sk \<or>
     (sk_state sk \<in> {TCP_ESTABLISHED, TCP_CLOSE_WAIT} \<and> \<not> pre_established sk)"

definition mptcp_sk_can_recv :: "tcp_sock \<Rightarrow> bool" where
  "mptcp_sk_can_recv sk \<longleftrightarrow> sk_state sk \<in> {TCP_ESTABLISHED, TCP_FIN_WAIT1, TCP_FIN_WAIT2}"

definition mptcp_sk_can_send_ack :: "tcp_sock \<Rightarrow> bool" where
  "mptcp_sk_can_send_ack sk \<longleftrightarrow>
     sk_state sk \<notin> {TCP_SYN_SENT, TCP_SYN_RECV, TCP_CLOSE, TCP_LISTEN} \<and> \<not> pre_established sk"

section \<open>Facts about sequence numbers\<close>

lemma before_irrefl [simp]: "\<not> before a a"
  by (simp add: before_def)

lemma after_irrefl [simp]: "\<not> after a a"
  by (simp add: after_def)

text \<open>
  Inside a window of less than \<open>2^31\<close> numbers above a base, the circular comparison is the
  comparison of the distances from the base.
\<close>

lemma before_window:
  assumes "unat (a - base) < 2 ^ 31" and "unat (b - base) < 2 ^ 31"
  shows "before a b \<longleftrightarrow> unat (a - base) < unat (b - base)"
proof -
  define x y where "x = a - base" and "y = b - base"
  have xy: "a - b = x - y" by (simp add: x_def y_def)
  have x: "uint x < 2 ^ 31" and y: "uint y < 2 ^ 31"
    using assms by (simp_all only: x_def y_def unat_less_iff_uint of_nat_power of_nat_numeral)
  have "x - y = word_of_int (uint x - uint y)" by simp
  then have "sint (x - y) = signed_take_bit 31 (uint x - uint y)"
    by (simp only: sint_sbintrunc') simp
  also have "\<dots> = uint x - uint y"
  proof (rule signed_take_bit_int_eq_self)
    show "- (2 ^ 31) \<le> uint x - uint y" using y uint_ge_0 [of x] by linarith
    show "uint x - uint y < 2 ^ 31" using x uint_ge_0 [of y] by linarith
  qed
  finally have "before a b \<longleftrightarrow> uint x < uint y"
    by (simp add: before_def xy)
  then show ?thesis by (simp only: x_def y_def unat_less_unat_iff)
qed

lemma after_window:
  "unat (a - base) < 2 ^ 31 \<Longrightarrow> unat (b - base) < 2 ^ 31 \<Longrightarrow>
   after a b \<longleftrightarrow> unat (b - base) < unat (a - base)"
  by (simp add: after_def before_window)

lemma window_inj: "unat (a - base) = unat (b - (base::u32)) \<longleftrightarrow> a = b"
  by (simp flip: word_unat_eq_iff)

text \<open>The place of a number above a base.\<close>

definition pos :: "u32 \<Rightarrow> u32 \<Rightarrow> nat" where
  "pos base s = unat (s - base)"

lemma pos_before: "pos base a < 2 ^ 31 \<Longrightarrow> pos base b < 2 ^ 31 \<Longrightarrow> before a b \<longleftrightarrow> pos base a < pos base b"
  unfolding pos_def by (rule before_window)

lemma pos_after: "pos base a < 2 ^ 31 \<Longrightarrow> pos base b < 2 ^ 31 \<Longrightarrow> after a b \<longleftrightarrow> pos base b < pos base a"
  unfolding pos_def by (rule after_window)

lemma pos_inj: "pos base a = pos base b \<longleftrightarrow> a = b"
  unfolding pos_def by (rule window_inj)

section \<open>Sample objects for closed instances of the properties\<close>

definition sample_sock :: tcp_sock where
  "sample_sock = \<lparr>sk_state = TCP_ESTABLISHED, tcp_passive_fastopen = False,
     icsk_ca_state = TCP_CA_Open, tcp_is_reno = False, tcp_is_cwnd_limited = True, pf = False,
     rcv_saddr = 1, daddr = 1, snd_una = 0, snd_nxt = 0, write_seq = 0, high_seq = 0,
     tcp_wnd_end = 1000, rcv_nxt = 0, snd_cwnd = 10, snd_cwnd_cnt = 0, snd_cwnd_clamp = 100,
     snd_ssthresh = 5, mss_cache = 100, tcp_current_mss = 100, tcp_packets_in_flight = 0,
     packets_out = 0, lost_out = 0, srtt_us = 80, tsq_throttled = False, sk_gso_max_segs = 4,
     tcp_cwnd_test = 10, pre_established = False, fully_established = True,
     second_packet = False, last_end_data_seq = 0, path_index = 1, low_prio = False,
     rcv_low_prio = False, slave_sk = False, snt_isn = 0, infinite_cutoff_seq = 0,
     send_shutdown = False, icsk_rto = 200, icsk_retransmits = 0, icsk_backoff = 0,
     sk_can_gso = True, netif_f_sg = True, netif_f_all_csum = True\<rparr>"

definition sample_skb :: sk_buff where
  "sample_skb = \<lparr>skb_seq = 0, skb_end_seq = 100, skb_len = 100, path_mask = 0,
     mptcp_flags = 0, tcp_flags = 0, dss_hdr = no_dss, dss_words = replicate 4 0\<rparr>"

end
