(* ===== verification/Red_Register.thy ===== *)
theory Red_Register
  imports Kernel_Env
begin

text \<open>
  The redundant socket register of rMPTCP (\<open>include/net/rmptcp.h\<close>) and the functions of
  \<open>net/mptcp/rmptcp.c\<close> that maintain its list of subflows: availability of a subflow, sorted
  insertion, the enable flag and the main flag.

  \<open>sk_list\<close> is the C array of \<open>MAX_NUM_RED_SK\<close> entries, of which the first
  \<open>sk_list_size\<close> are in use; entries behind them keep stale data.
\<close>

section \<open>Data\<close>

definition MAX_NUM_RED_SK :: nat where "MAX_NUM_RED_SK = 24"

type_synonym sk_flags = "6 word"
type_synonym red_flags = "4 word"

definition REDF_SK_Active :: sk_flags where "REDF_SK_Active = 1"
definition REDF_SK_Available :: sk_flags where "REDF_SK_Available = 2"
definition REDF_SK_Enabled :: sk_flags where "REDF_SK_Enabled = 4"
definition REDF_SK_Main :: sk_flags where "REDF_SK_Main = 8"
definition REDF_SK_Cong :: sk_flags where "REDF_SK_Cong = 16"
definition REDF_SK_Sub :: sk_flags where "REDF_SK_Sub = 32"

definition REDF_Open :: red_flags where "REDF_Open = 1"
definition REDF_Recovery :: red_flags where "REDF_Recovery = 2"
definition REDF_Timeout :: red_flags where "REDF_Timeout = 4"
definition REDF_Cong :: red_flags where "REDF_Cong = 8"

lemmas sk_flag_defs = REDF_SK_Active_def REDF_SK_Available_def REDF_SK_Enabled_def
  REDF_SK_Main_def REDF_SK_Cong_def REDF_SK_Sub_def

lemmas red_state_defs = REDF_Open_def REDF_Recovery_def REDF_Timeout_def REDF_Cong_def

lemma sk_flags_single [flag_simps]:
  "single REDF_SK_Active" "single REDF_SK_Available" "single REDF_SK_Enabled"
  "single REDF_SK_Main" "single REDF_SK_Cong" "single REDF_SK_Sub"
  unfolding sk_flag_defs
  by (rule singleI [where n = 0], simp, simp, rule singleI [where n = 1], simp, simp,
      rule singleI [where n = 2], simp, simp, rule singleI [where n = 3], simp, simp,
      rule singleI [where n = 4], simp, simp, rule singleI [where n = 5], simp, simp)

lemma red_flags_single [flag_simps]:
  "single REDF_Open" "single REDF_Recovery" "single REDF_Timeout" "single REDF_Cong"
  unfolding red_state_defs
  by (rule singleI [where n = 0], simp, simp, rule singleI [where n = 1], simp, simp,
      rule singleI [where n = 2], simp, simp, rule singleI [where n = 3], simp, simp)

lemma sk_flags_neq [flag_simps]:
  "REDF_SK_Active \<noteq> REDF_SK_Available" "REDF_SK_Active \<noteq> REDF_SK_Enabled"
  "REDF_SK_Active \<noteq> REDF_SK_Main" "REDF_SK_Active \<noteq> REDF_SK_Cong"
  "REDF_SK_Active \<noteq> REDF_SK_Sub" "REDF_SK_Available \<noteq> REDF_SK_Active"
  "REDF_SK_Available \<noteq> REDF_SK_Enabled" "REDF_SK_Available \<noteq> REDF_SK_Main"
  "REDF_SK_Available \<noteq> REDF_SK_Cong" "REDF_SK_Available \<noteq> REDF_SK_Sub"
  "REDF_SK_Enabled \<noteq> REDF_SK_Active" "REDF_SK_Enabled \<noteq> REDF_SK_Available"
  "REDF_SK_Enabled \<noteq> REDF_SK_Main" "REDF_SK_Enabled \<noteq> REDF_SK_Cong"
  "REDF_SK_Enabled \<noteq> REDF_SK_Sub" "REDF_SK_Main \<noteq> REDF_SK_Active"
  "REDF_SK_Main \<noteq> REDF_SK_Available" "REDF_SK_Main \<noteq> REDF_SK_Enabled"
  "REDF_SK_Main \<noteq> REDF_SK_Cong" "REDF_SK_Main \<noteq> REDF_SK_Sub"
  "REDF_SK_Cong \<noteq> REDF_SK_Active" "REDF_SK_Cong \<noteq> REDF_SK_Available"
  "REDF_SK_Cong \<noteq> REDF_SK_Enabled" "REDF_SK_Cong \<noteq> REDF_SK_Main"
  "REDF_SK_Cong \<noteq> REDF_SK_Sub" "REDF_SK_Sub \<noteq> REDF_SK_Active"
  "REDF_SK_Sub \<noteq> REDF_SK_Available" "REDF_SK_Sub \<noteq> REDF_SK_Enabled"
  "REDF_SK_Sub \<noteq> REDF_SK_Main" "REDF_SK_Sub \<noteq> REDF_SK_Cong"
  by (simp_all add: sk_flag_defs)

lemma red_flags_neq [flag_simps]:
  "REDF_Open \<noteq> REDF_Recovery" "REDF_Open \<noteq> REDF_Timeout"
  "REDF_Open \<noteq> REDF_Cong" "REDF_Recovery \<noteq> REDF_Open"
  "REDF_Recovery \<noteq> REDF_Timeout" "REDF_Recovery \<noteq> REDF_Cong"
  "REDF_Timeout \<noteq> REDF_Open" "REDF_Timeout \<noteq> REDF_Recovery"
  "REDF_Timeout \<noteq> REDF_Cong" "REDF_Cong \<noteq> REDF_Open"
  "REDF_Cong \<noteq> REDF_Recovery" "REDF_Cong \<noteq> REDF_Timeout"
  by (simp_all add: red_state_defs)

record red_sk =
  rs_sk :: sk_ptr
  rs_state :: sk_flags
  rs_last_used :: ktime
  rs_last_cong :: ktime
  rs_seg_count :: u64
  rs_byte_count :: u64
  rs_byte_count_old :: u64
  rs_bandwidth :: u64
  rs_bandwidth_mean :: u64
  rs_send_period :: int
  rs_send_period_mean :: int
  rs_send_period_var :: int
  rs_loss_ratio :: u32

record redundant_socket_register =
  meta_sk :: "sk_ptr option"
  reg_state :: red_flags
  cong_flag :: u32
  last_ca_state :: ktime
  last_update :: ktime
  last_inDecrease :: ktime
  start_Recovery :: ktime
  last_send :: ktime
  send_period :: int
  send_period_mean :: int
  send_period_var :: int
  send_period_max :: int
  send_period_max_before_cong :: int
  last_period_max :: ktime
  previous_skevent_i :: u32
  timeout :: u32
  inTime_cnt :: u32
  timeout_start :: ktime
  total_bw :: u64
  total_bw_mean :: u64
  effective_util :: u64
  effective_util_mean :: u64
  effective_util_mean_mean :: u64
  effective_util_var :: u64
  effective_util_mean_before_cong :: u64
  effective_byte_count :: u64
  effective_byte_count_old :: u64
  sk_reg_update_period :: int
  max_sk_noshow :: u64
  red_timeout :: int
  enable_mask :: u32
  collapse_th :: int
  q_control :: u32
  q_control_high :: u32
  q_control_low :: u32
  q_actual :: u32
  q_target :: u32
  q_target_user :: u32
  sk_list_size :: nat
  num_enabled :: u32
  sk_list :: "red_sk list"

text \<open>The sysctl variables of \<open>mptcp_ctrl.c\<close>, all of C type int.\<close>

record sysctls =
  sysctl_quota :: int
  sysctl_skreg_update :: int
  sysctl_maxnoshow :: int
  sysctl_timeout :: int
  sysctl_CS_hold :: int
  sysctl_adaptivR_enable :: int
  sysctl_adaptivPath_enable :: int
  sysctl_main_ratio :: int
  sysctl_varperiod_th :: int
  sysctl_numinTime :: int
  sysctl_runpathcheck :: int
  sysctl_runpathcheck_duration :: int
  sysctl_setPath :: int
  sysctl_collapse_th :: int
  sysctl_enable_kick :: int
  sysctl_minDeltaT :: int
  sysctl_enablemask :: u32

type_synonym socks = "sk_ptr \<Rightarrow> tcp_sock"

definition entries :: "redundant_socket_register \<Rightarrow> red_sk list" where
  "entries r = take (sk_list_size r) (sk_list r)"

definition reg_wf :: "redundant_socket_register \<Rightarrow> bool" where
  "reg_wf r \<longleftrightarrow> length (sk_list r) = MAX_NUM_RED_SK \<and> sk_list_size r \<le> MAX_NUM_RED_SK"

section \<open>Availability of a subflow\<close>

definition rmptcp_is_available ::
  "tcp_sock \<Rightarrow> sk_buff option \<Rightarrow> bool \<Rightarrow> bool \<Rightarrow> u32" where
  "rmptcp_is_available tp skb zero_wnd_test cwnd_test =
    (if \<not> mptcp_sk_can_send tp then 1
     else if pre_established tp then 2
     else if pf tp then 3
     else if icsk_ca_state tp = TCP_CA_Loss \<and> \<not> tcp_is_reno tp then 4
     else if icsk_ca_state tp = TCP_CA_Loss \<and> snd_una tp \<noteq> high_seq tp then 5
     else if \<not> fully_established tp \<and>
          (case skb of None \<Rightarrow> False
           | Some b \<Rightarrow> second_packet tp \<and> last_end_data_seq tp \<noteq> skb_seq b) then 6
     else if cwnd_test \<and> tcp_packets_in_flight tp \<ge> snd_cwnd tp then 7
     else if cwnd_test \<and>
          write_seq tp - snd_nxt tp > (snd_cwnd tp - tcp_packets_in_flight tp) * mss_cache tp then 8
     else if zero_wnd_test \<and> \<not> before (write_seq tp) (tcp_wnd_end tp) then 9
     else 0)"

section \<open>Sorted insertion\<close>

definition sk_key :: "tcp_sock \<Rightarrow> u32 \<times> u32" where
  "sk_key sk = (rcv_saddr sk, daddr sk)"

text \<open>The test under which the search for the insertion point goes on behind an entry.\<close>

definition sorts_behind :: "tcp_sock \<Rightarrow> tcp_sock \<Rightarrow> bool" where
  "sorts_behind new e \<longleftrightarrow>
     rcv_saddr new > rcv_saddr e \<or> (rcv_saddr new = rcv_saddr e \<and> daddr new > daddr e)"

definition insert_pos :: "socks \<Rightarrow> sk_ptr \<Rightarrow> redundant_socket_register \<Rightarrow> nat" where
  "insert_pos socks red_sk r =
     (if sk_list_size r = 0 then 0
      else case first_idx (sk_list_size r)
              (\<lambda>i. \<not> sorts_behind (socks red_sk) (socks (rs_sk (sk_list r ! i)))) of
             Some i \<Rightarrow> i | None \<Rightarrow> sk_list_size r)"

definition rmptcp_insert_sk ::
  "socks \<Rightarrow> ktime \<Rightarrow> sk_ptr \<Rightarrow> redundant_socket_register \<Rightarrow> redundant_socket_register option" where
  "rmptcp_insert_sk socks run_start red_sk r =
    (if MAX_NUM_RED_SK \<le> sk_list_size r then None
     else
       let i = insert_pos socks red_sk r;
           xs = shift_up i (sk_list_size r) (sk_list r)
       in Some (r\<lparr>sk_list_size := Suc (sk_list_size r),
                  sk_list := xs[i := (xs ! i)\<lparr>rs_sk := red_sk, rs_last_used := run_start,
                     rs_seg_count := 0, rs_byte_count := 0, rs_byte_count_old := 0,
                     rs_state := REDF_SK_Main OR REDF_SK_Active\<rparr>]\<rparr>))"

section \<open>The enable flag\<close>

definition enable_entry :: "u32 \<Rightarrow> nat \<Rightarrow> red_sk \<Rightarrow> red_sk" where
  "enable_entry emask i e =
     (if bit emask i then e\<lparr>rs_state := setf (rs_state e) REDF_SK_Enabled\<rparr>
      else e\<lparr>rs_state := clrf (rs_state e) (REDF_SK_Enabled OR REDF_SK_Main)\<rparr>)"

definition rmptcp_set_enable_flag ::
  "redundant_socket_register \<Rightarrow> redundant_socket_register" where
  "rmptcp_set_enable_flag r =
     (let n = sk_list_size r;
          num_disabled = count_upto n (\<lambda>i. \<not> bit (enable_mask r) i)
      in r\<lparr>sk_list := upd_upto n (enable_entry (enable_mask r)) (sk_list r),
           num_enabled := of_nat n - of_nat num_disabled\<rparr>)"

section \<open>Search for new sockets\<close>

definition sk_is_known :: "redundant_socket_register \<Rightarrow> sk_ptr \<Rightarrow> bool" where
  "sk_is_known r sk \<longleftrightarrow> first_idx (sk_list_size r) (\<lambda>i. rs_sk (sk_list r ! i) = sk) \<noteq> None"

fun add_new_sks ::
  "socks \<Rightarrow> ktime \<Rightarrow> sk_buff \<Rightarrow> sk_ptr list \<Rightarrow> redundant_socket_register
     \<Rightarrow> redundant_socket_register option" where
  "add_new_sks socks run_start skb [] r = Some r"
| "add_new_sks socks run_start skb (sk # sks) r =
     (if rmptcp_is_available (socks sk) (Some skb) False True \<noteq> 0
      then add_new_sks socks run_start skb sks r
      else if sk_is_known r sk then add_new_sks socks run_start skb sks r
      else do { r' \<leftarrow> rmptcp_insert_sk socks run_start sk r;
                add_new_sks socks run_start skb sks r' })"

definition rmptcp_update_sk_list ::
  "socks \<Rightarrow> sk_ptr list \<Rightarrow> ktime \<Rightarrow> sk_buff \<Rightarrow> redundant_socket_register
     \<Rightarrow> redundant_socket_register option" where
  "rmptcp_update_sk_list socks connection_list run_start skb r =
     (if has (reg_state r) REDF_Cong then Some r
      else do { r' \<leftarrow> add_new_sks socks run_start skb connection_list r;
                Some (rmptcp_set_enable_flag r') })"

section \<open>Main subflows\<close>

definition rmptcp_set_all_main :: "redundant_socket_register \<Rightarrow> redundant_socket_register" where
  "rmptcp_set_all_main r = r\<lparr>sk_list := upd_upto (sk_list_size r)
     (\<lambda>_ e. if has (rs_state e) (REDF_SK_Enabled OR REDF_SK_Sub)
            then e\<lparr>rs_state := setf (rs_state e) REDF_SK_Main\<rparr>
            else e\<lparr>rs_state := clrf (rs_state e) REDF_SK_Main\<rparr>) (sk_list r)\<rparr>"

definition uncong_usable :: "red_sk \<Rightarrow> bool" where
  "uncong_usable e \<longleftrightarrow> has (rs_state e) (REDF_SK_Enabled OR REDF_SK_Sub) \<and>
     \<not> has (rs_state e) REDF_SK_Cong"

definition rmptcp_set_all_uncong_main ::
  "redundant_socket_register \<Rightarrow> redundant_socket_register" where
  "rmptcp_set_all_uncong_main r =
     (let c = count_upto (sk_list_size r) (\<lambda>i. uncong_usable (sk_list r ! i));
          r' = r\<lparr>sk_list := upd_upto (sk_list_size r)
             (\<lambda>_ e. if uncong_usable e
                    then e\<lparr>rs_state := setf (rs_state e) REDF_SK_Main\<rparr>
                    else e\<lparr>rs_state := clrf (rs_state e) REDF_SK_Main\<rparr>) (sk_list r)\<rparr>
      in if c = 0 then rmptcp_set_all_main r' else r')"

text \<open>The first loop: lowest RTT and highest mean bandwidth of the usable, uncongested subflows.\<close>

definition best_rtt_bw :: "socks \<Rightarrow> redundant_socket_register \<Rightarrow> u32 \<times> u32" where
  "best_rtt_bw socks r =
     fold (\<lambda>i (lowest_RTT, highest_bw).
        let e = sk_list r ! i; sub_tp = socks (rs_sk e)
        in if uncong_usable e
           then (if srtt_us sub_tp < lowest_RTT then srtt_us sub_tp else lowest_RTT,
                 if rs_bandwidth_mean e > ucast highest_bw then ucast (rs_bandwidth_mean e)
                 else highest_bw)
           else (lowest_RTT, highest_bw))
       [0..<sk_list_size r] (0xFFFFFFFF, 0)"

text \<open>
  What the second loop decides for a usable subflow; \<open>None\<close> is a division by zero, which the
  ratio \<open>-1\<close> can cause.
\<close>

datatype main_mark = Unmark | Mark | Keep

definition decide_main :: "int \<Rightarrow> u32 \<Rightarrow> u32 \<Rightarrow> tcp_sock \<Rightarrow> red_sk \<Rightarrow> main_mark option" where
  "decide_main ratio lowest_RTT highest_bw sub_tp e =
     (let r1 = word_of_int (s32 (ratio + 1)) :: u32; r0 = word_of_int ratio :: u32
      in if srtt_us sub_tp > r1 * lowest_RTT then Some Unmark
         else if r1 = 0 then None
         else if rs_bandwidth_mean e < ucast (highest_bw div r1) \<or> has (rs_state e) REDF_SK_Cong
         then Some Unmark
         else if srtt_us sub_tp < r0 * lowest_RTT
         then (if r0 = 0 then None
               else if rs_bandwidth_mean e > ucast (highest_bw div r0) then Some Mark
               else Some Keep)
         else Some Keep)"

definition mark_entry :: "int \<Rightarrow> u32 \<Rightarrow> u32 \<Rightarrow> tcp_sock \<Rightarrow> red_sk \<Rightarrow> red_sk" where
  "mark_entry ratio lowest_RTT highest_bw sub_tp e =
     (if has (rs_state e) (REDF_SK_Enabled OR REDF_SK_Sub)
      then (case decide_main ratio lowest_RTT highest_bw sub_tp e of
              Some Unmark \<Rightarrow> e\<lparr>rs_state := clrf (rs_state e) REDF_SK_Main\<rparr>
            | Some Mark \<Rightarrow> e\<lparr>rs_state := setf (rs_state e) REDF_SK_Main\<rparr>
            | _ \<Rightarrow> e)
      else e)"

text \<open>The decision for entry \<open>i\<close>, the register after the loop, and the counter of main subflows.\<close>

definition main_decision ::
  "sysctls \<Rightarrow> socks \<Rightarrow> redundant_socket_register \<Rightarrow> nat \<Rightarrow> main_mark option" where
  "main_decision sc socks r i =
     (let (lowest_RTT, highest_bw) = best_rtt_bw socks r; e = sk_list r ! i
      in decide_main (sysctl_main_ratio sc) lowest_RTT highest_bw (socks (rs_sk e)) e)"

definition marked :: "sysctls \<Rightarrow> socks \<Rightarrow> redundant_socket_register \<Rightarrow> redundant_socket_register" where
  "marked sc socks r =
     (let (lowest_RTT, highest_bw) = best_rtt_bw socks r
      in r\<lparr>sk_list := upd_upto (sk_list_size r)
            (\<lambda>_ e. mark_entry (sysctl_main_ratio sc) lowest_RTT highest_bw (socks (rs_sk e)) e)
            (sk_list r)\<rparr>)"

definition num_main :: "sysctls \<Rightarrow> socks \<Rightarrow> redundant_socket_register \<Rightarrow> nat" where
  "num_main sc socks r = count_upto (sk_list_size r)
     (\<lambda>i. has (rs_state (sk_list r ! i)) (REDF_SK_Enabled OR REDF_SK_Sub) \<and>
        (main_decision sc socks r i = Some Mark \<or>
         (main_decision sc socks r i = Some Keep \<and> has (rs_state (sk_list r ! i)) REDF_SK_Main)))"

definition rmptcp_update_main_sk ::
  "sysctls \<Rightarrow> socks \<Rightarrow> redundant_socket_register \<Rightarrow> redundant_socket_register option" where
  "rmptcp_update_main_sk sc socks r =
    (if has (reg_state r) REDF_Recovery then Some (rmptcp_set_all_main r)
     else if has (reg_state r) REDF_Cong then Some (rmptcp_set_all_uncong_main r)
     else if first_idx (sk_list_size r)
               (\<lambda>i. has (rs_state (sk_list r ! i)) (REDF_SK_Enabled OR REDF_SK_Sub) \<and>
                    main_decision sc socks r i = None) \<noteq> None then None
     else if num_main sc socks r = 0 then Some (rmptcp_set_all_uncong_main (marked sc socks r))
     else Some (marked sc socks r))"

section \<open>The list of entries\<close>

lemma length_entries [simp]: "reg_wf r \<Longrightarrow> length (entries r) = sk_list_size r"
  by (simp add: entries_def reg_wf_def)

lemma nth_entries: "reg_wf r \<Longrightarrow> i < sk_list_size r \<Longrightarrow> entries r ! i = sk_list r ! i"
  by (simp add: entries_def)

lemma entries_upd_upto [simp]:
  assumes "reg_wf r"
  shows "entries (r\<lparr>sk_list := upd_upto (sk_list_size r) f (sk_list r)\<rparr>)
       = map2 f [0..<sk_list_size r] (entries r)"
  using assms
  by (intro nth_equalityI) (auto simp: entries_def reg_wf_def loop_simps)

lemma in_set_entries:
  "reg_wf r \<Longrightarrow> e \<in> set (entries r) \<longleftrightarrow> (\<exists>i < sk_list_size r. e = sk_list r ! i)"
  by (auto simp: entries_def reg_wf_def in_set_conv_nth)

lemma reg_wf_update_list:
  "reg_wf r \<Longrightarrow> length xs = length (sk_list r) \<Longrightarrow> reg_wf (r\<lparr>sk_list := xs\<rparr>)"
  by (simp add: reg_wf_def)

lemma sorts_behind_key: "sorts_behind a b \<longleftrightarrow> sk_key b < sk_key a"
  by (auto simp: sorts_behind_def sk_key_def less_prod_def)

section \<open>Insertion keeps the register sorted\<close>

definition reg_sks :: "redundant_socket_register \<Rightarrow> sk_ptr list" where
  "reg_sks r = map rs_sk (entries r)"

definition reg_sorted :: "socks \<Rightarrow> redundant_socket_register \<Rightarrow> bool" where
  "reg_sorted socks r \<longleftrightarrow> sorted (map (\<lambda>p. sk_key (socks p)) (reg_sks r))"

text \<open>Inserting before the first element that is not smaller is the library's \<open>insort_key\<close>.\<close>

lemma insort_key_at:
  assumes "i \<le> length xs" and "\<forall>j<i. f (xs ! j) < f x" and "i < length xs \<longrightarrow> f x \<le> f (xs ! i)"
  shows "insort_key f x xs = take i xs @ x # drop i xs"
  using assms
proof (induction xs arbitrary: i)
  case (Cons y ys)
  show ?case
  proof (cases i)
    case 0
    with Cons.prems show ?thesis by simp
  next
    case (Suc k)
    with Cons.prems(2) have "\<not> f x \<le> f y" by (auto simp: not_le)
    moreover from Suc Cons.prems have "insort_key f x ys = take k ys @ x # drop k ys"
      by (intro Cons.IH) auto
    ultimately show ?thesis using Suc by simp
  qed
qed simp

lemma insert_pos_first:
  defines "P \<equiv> \<lambda>socks sk r i. \<not> sorts_behind (socks sk) (socks (rs_sk (sk_list r ! i)))"
  shows "insert_pos socks sk r \<le> sk_list_size r \<and>
    (\<forall>j < insert_pos socks sk r. \<not> P socks sk r j) \<and>
    (insert_pos socks sk r < sk_list_size r \<longrightarrow> P socks sk r (insert_pos socks sk r))"
proof (cases "first_idx (sk_list_size r) (P socks sk r)")
  case None
  then show ?thesis using first_idx_None [of "sk_list_size r" "P socks sk r"]
    by (simp add: insert_pos_def P_def)
next
  case (Some i)
  then show ?thesis using first_idx_Some [OF Some] by (auto simp: insert_pos_def P_def)
qed

lemmas insert_pos_le = insert_pos_first [THEN conjunct1]

lemma nth_reg_sks: "reg_wf r \<Longrightarrow> j < sk_list_size r \<Longrightarrow> reg_sks r ! j = rs_sk (sk_list r ! j)"
  by (simp add: reg_sks_def nth_entries)

lemma length_reg_sks [simp]: "reg_wf r \<Longrightarrow> length (reg_sks r) = sk_list_size r"
  by (simp add: reg_sks_def)

lemma insert_pos_spec:
  assumes "reg_wf r"
  shows "insort_key (\<lambda>p. sk_key (socks p)) sk (reg_sks r)
       = take (insert_pos socks sk r) (reg_sks r) @ sk # drop (insert_pos socks sk r) (reg_sks r)"
proof (rule insort_key_at)
  note first = insert_pos_first [of socks sk r, unfolded sorts_behind_key not_not not_less]
  show "insert_pos socks sk r \<le> length (reg_sks r)" using first assms by simp
  show "\<forall>j < insert_pos socks sk r. sk_key (socks (reg_sks r ! j)) < sk_key (socks sk)"
    using first assms by (simp add: nth_reg_sks not_le)
  show "insert_pos socks sk r < length (reg_sks r) \<longrightarrow>
      sk_key (socks sk) \<le> sk_key (socks (reg_sks r ! insert_pos socks sk r))"
    using first assms by (simp add: nth_reg_sks)
qed

lemma rmptcp_insert_sk_entries:
  assumes "reg_wf r" and "rmptcp_insert_sk socks t sk r = Some r'"
  defines "i \<equiv> insert_pos socks sk r"
  shows "\<exists>e. entries r' = take i (entries r) @ e # drop i (entries r) \<and> rs_sk e = sk \<and>
           rs_state e = REDF_SK_Main OR REDF_SK_Active \<and>
           rs_bandwidth_mean e = rs_bandwidth_mean (sk_list r ! i)"
proof -
  have n: "sk_list_size r < length (sk_list r)" and i: "i \<le> sk_list_size r"
    using assms insert_pos_le [of socks sk r] by (auto simp: rmptcp_insert_sk_def reg_wf_def split: if_splits)
  then have nth: "shift_up i (sk_list_size r) (sk_list r) ! i = sk_list r ! i"
    by (simp add: loop_simps)
  let ?e = "(sk_list r ! i)\<lparr>rs_sk := sk, rs_last_used := t, rs_seg_count := 0, rs_byte_count := 0,
    rs_byte_count_old := 0, rs_state := REDF_SK_Main OR REDF_SK_Active\<rparr>"
  have "entries r' = take i (entries r) @ ?e # drop i (entries r)"
    using assms(2) i n take_shift_up [OF i n, of ?e]
    by (auto simp: rmptcp_insert_sk_def entries_def Let_def nth take_take min_absorb1
        simp flip: i_def split: if_splits)
  then show ?thesis by auto
qed

lemma rmptcp_insert_sk_wf:
  "reg_wf r \<Longrightarrow> rmptcp_insert_sk socks t sk r = Some r' \<Longrightarrow> reg_wf r'"
  by (auto simp: rmptcp_insert_sk_def reg_wf_def Let_def split: if_splits)

lemma rmptcp_insert_sk_sks:
  assumes "reg_wf r" and "rmptcp_insert_sk socks t sk r = Some r'"
  shows "reg_sks r' = insort_key (\<lambda>p. sk_key (socks p)) sk (reg_sks r)"
  unfolding insert_pos_spec [OF assms(1)]
  using rmptcp_insert_sk_entries [OF assms] by (auto simp: reg_sks_def take_map drop_map)

section \<open>Invariant of the register\<close>

definition reg_inv :: "socks \<Rightarrow> redundant_socket_register \<Rightarrow> bool" where
  "reg_inv socks r \<longleftrightarrow> reg_wf r \<and> reg_sorted socks r \<and> distinct (reg_sks r)"

lemma reg_inv_wf: "reg_inv socks r \<Longrightarrow> reg_wf r"
  by (simp add: reg_inv_def)

text \<open>A function that keeps the pointers of the entries keeps the invariant.\<close>

lemma reg_sks_upd_upto:
  assumes "reg_wf r" and "\<And>i e. rs_sk (f i e) = rs_sk e"
  shows "reg_sks (r\<lparr>sk_list := upd_upto (sk_list_size r) f (sk_list r)\<rparr>) = reg_sks r"
  using assms by (intro nth_equalityI) (auto simp: reg_sks_def)

lemma reg_inv_same_sks:
  "reg_inv socks r \<Longrightarrow> reg_wf r' \<Longrightarrow> reg_sks r' = reg_sks r \<Longrightarrow> reg_inv socks r'"
  by (simp add: reg_inv_def reg_sorted_def)

lemma sk_is_known_iff: "reg_wf r \<Longrightarrow> sk_is_known r sk \<longleftrightarrow> sk \<in> set (reg_sks r)"
  by (auto simp: sk_is_known_def first_idx_None in_set_conv_nth nth_reg_sks)

lemma rmptcp_insert_sk_inv:
  assumes "reg_inv socks r" and "sk \<notin> set (reg_sks r)" and "rmptcp_insert_sk socks t sk r = Some r'"
  shows "reg_inv socks r' \<and> set (reg_sks r') = insert sk (set (reg_sks r))"
proof -
  note sks = rmptcp_insert_sk_sks [OF reg_inv_wf [OF assms(1)] assms(3)]
  then show ?thesis
    using assms rmptcp_insert_sk_wf [OF _ assms(3)]
    by (simp add: reg_inv_def reg_sorted_def sorted_insort_key distinct_insort set_insort_key)
qed

definition usable_now :: "socks \<Rightarrow> sk_buff \<Rightarrow> sk_ptr \<Rightarrow> bool" where
  "usable_now socks skb sk \<longleftrightarrow> rmptcp_is_available (socks sk) (Some skb) False True = 0"

lemma add_new_sks_inv:
  "reg_inv socks r \<Longrightarrow> add_new_sks socks t skb sks r = Some r' \<Longrightarrow>
   reg_inv socks r' \<and> set (reg_sks r') = set (reg_sks r) \<union> {sk \<in> set sks. usable_now socks skb sk}"
proof (induction socks t skb sks r rule: add_new_sks.induct)
  case (2 socks t skb sk sks r)
  consider "\<not> usable_now socks skb sk" | "usable_now socks skb sk" "sk \<in> set (reg_sks r)"
    | r1 where "usable_now socks skb sk" "sk \<notin> set (reg_sks r)"
        "rmptcp_insert_sk socks t sk r = Some r1" "add_new_sks socks t skb sks r1 = Some r'"
    using 2 by (auto simp: usable_now_def sk_is_known_iff reg_inv_wf split: if_splits Option.bind_splits)
  then show ?case
  proof cases
    case 3
    with 2 rmptcp_insert_sk_inv [OF 2(4) 3(2,3)] show ?thesis
      by (auto simp: usable_now_def sk_is_known_iff reg_inv_wf)
  qed (use 2 in \<open>auto simp: usable_now_def sk_is_known_iff reg_inv_wf\<close>)
qed simp

lemma size_card_sks: "reg_inv socks r \<Longrightarrow> sk_list_size r = card (set (reg_sks r))"
  by (simp add: reg_inv_def distinct_card)

lemma add_new_sks_fault:
  "reg_inv socks r \<Longrightarrow> add_new_sks socks t skb sks r = None \<longleftrightarrow>
   MAX_NUM_RED_SK < card (set (reg_sks r) \<union> {sk \<in> set sks. usable_now socks skb sk})"
proof (induction socks t skb sks r rule: add_new_sks.induct)
  case (1 socks t skb r)
  then show ?case using size_card_sks [of socks r] by (simp add: reg_inv_def reg_wf_def)
next
  case (2 socks t skb sk sks r)
  show ?case
  proof (cases "usable_now socks skb sk \<and> sk \<notin> set (reg_sks r)")
    case False
    then have "add_new_sks socks t skb (sk # sks) r = add_new_sks socks t skb sks r"
      and "set (reg_sks r) \<union> {x \<in> set (sk # sks). usable_now socks skb x}
         = set (reg_sks r) \<union> {x \<in> set sks. usable_now socks skb x}"
      using 2 by (auto simp: usable_now_def sk_is_known_iff reg_inv_wf)
    then show ?thesis using False 2 by (auto simp: usable_now_def sk_is_known_iff reg_inv_wf)
  next
    case new: True
    let ?S = "set (reg_sks r) \<union> {x \<in> set (sk # sks). usable_now socks skb x}"
    have step: "add_new_sks socks t skb (sk # sks) r =
        (rmptcp_insert_sk socks t sk r \<bind> add_new_sks socks t skb sks)"
      using new 2 by (simp add: usable_now_def sk_is_known_iff reg_inv_wf)
    show ?thesis
    proof (cases "rmptcp_insert_sk socks t sk r")
      case None
      then have "MAX_NUM_RED_SK \<le> card (set (reg_sks r))"
        using size_card_sks [OF 2(4)] by (auto simp: rmptcp_insert_sk_def Let_def split: if_splits)
      also have "\<dots> < card (insert sk (set (reg_sks r)))" using new by simp
      also have "\<dots> \<le> card ?S" using new by (intro card_mono) auto
      finally show ?thesis using None step by simp
    next
      case (Some r1)
      then have "reg_inv socks r1" and "set (reg_sks r1) = insert sk (set (reg_sks r))"
        using rmptcp_insert_sk_inv [OF 2(4) _ Some] new by auto
      moreover from this have "set (reg_sks r1) \<union> {x \<in> set sks. usable_now socks skb x} = ?S"
        using new by auto
      ultimately show ?thesis using 2(3) [OF _ _ Some \<open>reg_inv socks r1\<close>] new Some step 2(4)
        by (simp add: usable_now_def sk_is_known_iff reg_inv_wf)
    qed
  qed
qed

section \<open>Effect of the flag updates\<close>

text \<open>\<open>st r i\<close> is the flag word of entry \<open>i\<close>.\<close>

abbreviation st :: "redundant_socket_register \<Rightarrow> nat \<Rightarrow> sk_flags" where
  "st r i \<equiv> rs_state (sk_list r ! i)"

abbreviation in_use :: "sk_flags \<Rightarrow> bool" where
  "in_use w \<equiv> has w (REDF_SK_Enabled OR REDF_SK_Sub)"

lemma reg_wf_size: "reg_wf r \<Longrightarrow> i < sk_list_size r \<Longrightarrow> i < length (sk_list r)"
  by (simp add: reg_wf_def)

lemma rs_sk_enable_entry [simp]: "rs_sk (enable_entry m i e) = rs_sk e"
  by (simp add: enable_entry_def)

lemma rs_sk_mark_entry [simp]: "rs_sk (mark_entry ratio lo hi tp e) = rs_sk e"
  by (simp add: mark_entry_def split: option.splits main_mark.splits)

lemma sk_list_size_set [simp]:
  "sk_list_size (rmptcp_set_enable_flag r) = sk_list_size r"
  "sk_list_size (rmptcp_set_all_main r) = sk_list_size r"
  "sk_list_size (rmptcp_set_all_uncong_main r) = sk_list_size r"
  by (simp_all add: rmptcp_set_enable_flag_def rmptcp_set_all_main_def
      rmptcp_set_all_uncong_main_def Let_def)

lemma reg_wf_set:
  "reg_wf r \<Longrightarrow> reg_wf (rmptcp_set_enable_flag r)"
  "reg_wf r \<Longrightarrow> reg_wf (rmptcp_set_all_main r)"
  "reg_wf r \<Longrightarrow> reg_wf (rmptcp_set_all_uncong_main r)"
  by (simp_all add: reg_wf_def rmptcp_set_enable_flag_def rmptcp_set_all_main_def
      rmptcp_set_all_uncong_main_def Let_def)

lemma st_set_enable_flag [loop_simps]:
  "reg_wf r \<Longrightarrow> i < sk_list_size r \<Longrightarrow> st (rmptcp_set_enable_flag r) i =
     (if bit (enable_mask r) i then setf (st r i) REDF_SK_Enabled
      else clrf (st r i) (REDF_SK_Enabled OR REDF_SK_Main))"
  by (simp add: rmptcp_set_enable_flag_def Let_def loop_simps reg_wf_size enable_entry_def)

lemma st_set_all_main [loop_simps]:
  "reg_wf r \<Longrightarrow> i < sk_list_size r \<Longrightarrow> st (rmptcp_set_all_main r) i =
     (if in_use (st r i) then setf (st r i) REDF_SK_Main else clrf (st r i) REDF_SK_Main)"
  by (simp add: rmptcp_set_all_main_def loop_simps reg_wf_size)

lemma st_set_all_uncong_main:
  assumes "reg_wf r" and "i < sk_list_size r"
  shows "st (rmptcp_set_all_uncong_main r) i =
     (if \<exists>j < sk_list_size r. uncong_usable (sk_list r ! j)
      then (if uncong_usable (sk_list r ! i) then setf (st r i) REDF_SK_Main
            else clrf (st r i) REDF_SK_Main)
      else if in_use (st r i) then setf (clrf (st r i) REDF_SK_Main) REDF_SK_Main
      else clrf (st r i) REDF_SK_Main)"
proof -
  let ?r = "r\<lparr>sk_list := upd_upto (sk_list_size r)
             (\<lambda>_ e. if uncong_usable e
                    then e\<lparr>rs_state := setf (rs_state e) REDF_SK_Main\<rparr>
                    else e\<lparr>rs_state := clrf (rs_state e) REDF_SK_Main\<rparr>) (sk_list r)\<rparr>"
  have nth: "sk_list ?r ! i = (if uncong_usable (sk_list r ! i)
      then (sk_list r ! i)\<lparr>rs_state := setf (st r i) REDF_SK_Main\<rparr>
      else (sk_list r ! i)\<lparr>rs_state := clrf (st r i) REDF_SK_Main\<rparr>)"
    using assms by (simp add: loop_simps reg_wf_size)
  have wf: "reg_wf ?r" using assms by (simp add: reg_wf_update_list)
  show ?thesis
  proof (cases "\<exists>j < sk_list_size r. uncong_usable (sk_list r ! j)")
    case True
    then show ?thesis using nth
      by (auto simp: rmptcp_set_all_uncong_main_def Let_def count_upto_0)
  next
    case False
    then show ?thesis using nth assms st_set_all_main [OF wf, of i]
      by (auto simp: rmptcp_set_all_uncong_main_def Let_def count_upto_0 flag_simps)
  qed
qed

lemma num_enabled_set_enable_flag:
  "num_enabled (rmptcp_set_enable_flag r) = of_nat (count_upto (sk_list_size r) (bit (enable_mask r)))"
proof -
  have "count_upto n (\<lambda>i. \<not> bit m i) + count_upto n (bit m) = n" for n and m :: u32
    by (induction n) (auto simp: count_upto_Suc, simp_all add: count_upto_def)
  then have "of_nat (sk_list_size r) = (of_nat (count_upto (sk_list_size r) (\<lambda>i. \<not> bit (enable_mask r) i))
      + of_nat (count_upto (sk_list_size r) (bit (enable_mask r))) :: u32)"
    by (metis of_nat_add)
  then show ?thesis by (simp add: rmptcp_set_enable_flag_def Let_def)
qed

lemma reg_sks_eqI:
  assumes "reg_wf r" and "reg_wf r1" and "sk_list_size r1 = sk_list_size r"
    and "\<And>i. i < sk_list_size r \<Longrightarrow> rs_sk (sk_list r1 ! i) = rs_sk (sk_list r ! i)"
  shows "reg_sks r1 = reg_sks r"
  using assms by (intro nth_equalityI) (auto simp: nth_reg_sks)

lemma reg_sks_set_all_main [simp]: "reg_wf r \<Longrightarrow> reg_sks (rmptcp_set_all_main r) = reg_sks r"
  by (rule reg_sks_eqI)
     (use reg_wf_set in \<open>auto simp: rmptcp_set_all_main_def loop_simps reg_wf_size\<close>)

lemma reg_sks_set_enable_flag [simp]: "reg_wf r \<Longrightarrow> reg_sks (rmptcp_set_enable_flag r) = reg_sks r"
  by (rule reg_sks_eqI)
     (use reg_wf_set in \<open>auto simp: rmptcp_set_enable_flag_def Let_def loop_simps reg_wf_size\<close>)

lemma reg_sks_set_all_uncong_main [simp]:
  "reg_wf r \<Longrightarrow> reg_sks (rmptcp_set_all_uncong_main r) = reg_sks r"
  by (auto simp: rmptcp_set_all_uncong_main_def Let_def reg_wf_update_list intro!: reg_sks_upd_upto)

section \<open>The choice of main subflows\<close>

lemma rmptcp_update_main_sk_cases:
  assumes "rmptcp_update_main_sk sc socks r = Some r'"
  obtains (recovery) "has (reg_state r) REDF_Recovery" "r' = rmptcp_set_all_main r"
  | (cong) "\<not> has (reg_state r) REDF_Recovery" "has (reg_state r) REDF_Cong"
      "r' = rmptcp_set_all_uncong_main r"
  | (fallback) "\<not> has (reg_state r) REDF_Recovery" "\<not> has (reg_state r) REDF_Cong"
      "r' = rmptcp_set_all_uncong_main (marked sc socks r)"
  | (marking) i where "\<not> has (reg_state r) REDF_Recovery" "\<not> has (reg_state r) REDF_Cong"
      "r' = marked sc socks r" "i < sk_list_size r" "in_use (st r i)"
      "main_decision sc socks r i = Some Mark \<or>
       main_decision sc socks r i = Some Keep \<and> has (st r i) REDF_SK_Main"
proof (cases "num_main sc socks r = 0")
  case False
  then obtain i where "i < sk_list_size r \<and> in_use (st r i) \<and>
      (main_decision sc socks r i = Some Mark \<or>
       main_decision sc socks r i = Some Keep \<and> has (st r i) REDF_SK_Main)"
    by (auto simp: num_main_def count_upto_0)
  then show ?thesis using assms False that
    by (auto simp: rmptcp_update_main_sk_def split: if_splits)
qed (use assms that in \<open>auto simp: rmptcp_update_main_sk_def split: if_splits\<close>)

lemma update_main_no_fault:
  assumes "rmptcp_update_main_sk sc socks r = Some r'"
    and "\<not> has (reg_state r) REDF_Recovery" and "\<not> has (reg_state r) REDF_Cong"
    and "i < sk_list_size r"
  shows "\<not> (in_use (st r i) \<and> main_decision sc socks r i = None)"
proof
  assume "in_use (st r i) \<and> main_decision sc socks r i = None"
  then have "first_idx (sk_list_size r)
      (\<lambda>i. in_use (st r i) \<and> main_decision sc socks r i = None) \<noteq> None"
    using assms(4) by (subst first_idx_None) blast
  then show False using assms(1-3) by (simp only: rmptcp_update_main_sk_def if_False if_True) simp
qed

lemma marked_simps [simp]:
  "sk_list_size (marked sc socks r) = sk_list_size r"
  "reg_state (marked sc socks r) = reg_state r"
  "enable_mask (marked sc socks r) = enable_mask r"
  by (simp_all add: marked_def case_prod_beta Let_def)

lemma nth_marked:
  assumes "reg_wf r" and "i < sk_list_size r"
  shows "sk_list (marked sc socks r) ! i =
    mark_entry (sysctl_main_ratio sc) (fst (best_rtt_bw socks r)) (snd (best_rtt_bw socks r))
      (socks (rs_sk (sk_list r ! i))) (sk_list r ! i)"
  using assms by (simp add: marked_def case_prod_beta Let_def loop_simps reg_wf_size)

lemma reg_wf_marked: "reg_wf r \<Longrightarrow> reg_wf (marked sc socks r)"
  by (simp add: marked_def case_prod_beta Let_def reg_wf_def)

lemma reg_sks_marked [simp]: "reg_wf r \<Longrightarrow> reg_sks (marked sc socks r) = reg_sks r"
  by (rule reg_sks_eqI) (simp_all add: reg_wf_marked nth_marked)

lemma mark_entry_flags:
  "single f \<Longrightarrow> f \<noteq> REDF_SK_Main \<Longrightarrow>
   has (rs_state (mark_entry ratio lo hi tp e)) f \<longleftrightarrow> has (rs_state e) f"
  by (auto simp: mark_entry_def flag_simps split: option.splits main_mark.splits)

lemma decide_main_cong:
  "has (rs_state e) REDF_SK_Cong \<Longrightarrow> decide_main ratio lo hi tp e \<in> {None, Some Unmark}"
  by (simp add: decide_main_def Let_def)

lemma decide_main_total:
  assumes "ratio \<noteq> -1" and "- (2 ^ 31) \<le> ratio" and "ratio < 2 ^ 31"
  shows "decide_main ratio lo hi tp e \<noteq> None"
proof -
  have "word_of_int (s32 (ratio + 1)) \<noteq> (0 :: u32)"
  proof (cases "ratio = 2 ^ 31 - 1")
    case True
    then show ?thesis by (simp add: s32_def)
  next
    case False
    with assms have "s32 (ratio + 1) = ratio + 1" by simp
    moreover have "(word_of_int (ratio + 1) :: u32) \<noteq> 0"
    proof
      assume "(word_of_int (ratio + 1) :: u32) = 0"
      then have "sint (word_of_int (ratio + 1) :: u32) = 0" by simp
      then have "s32 (ratio + 1) = 0" by (simp only: sint_sbintrunc' s32_def) simp
      then show False using \<open>s32 (ratio + 1) = ratio + 1\<close> assms by simp
    qed
    ultimately show ?thesis by simp
  qed
  then show ?thesis by (auto simp: decide_main_def Let_def)
qed

lemma set_all_uncong_main_nonempty:
  assumes "reg_wf r" and "i < sk_list_size r" and "in_use (st r i)"
  shows "\<exists>j < sk_list_size r. in_use (st (rmptcp_set_all_uncong_main r) j) \<and>
           has (st (rmptcp_set_all_uncong_main r) j) REDF_SK_Main"
proof (cases "\<exists>j < sk_list_size r. uncong_usable (sk_list r ! j)")
  case True
  then obtain j where j: "j < sk_list_size r" "uncong_usable (sk_list r ! j)" by blast
  then have "st (rmptcp_set_all_uncong_main r) j = setf (st r j) REDF_SK_Main"
    using assms(1) True by (simp add: st_set_all_uncong_main)
  then show ?thesis using j
    by (intro exI [of _ j]) (auto simp: flag_simps uncong_usable_def)
next
  case False
  then have "st (rmptcp_set_all_uncong_main r) i = setf (clrf (st r i) REDF_SK_Main) REDF_SK_Main"
    using assms st_set_all_uncong_main [OF assms(1,2)] by (simp only: if_False if_True)
  then show ?thesis using assms by (intro exI [of _ i]) (auto simp: flag_simps)
qed

lemma set_all_uncong_main_cong:
  assumes "reg_wf r" and "i < sk_list_size r" and "has (st r i) REDF_SK_Cong"
    and "\<exists>j < sk_list_size r. uncong_usable (sk_list r ! j)"
  shows "\<not> has (st (rmptcp_set_all_uncong_main r) i) REDF_SK_Main"
proof -
  have "\<not> uncong_usable (sk_list r ! i)" using assms(3) by (simp add: uncong_usable_def)
  then have "st (rmptcp_set_all_uncong_main r) i = clrf (st r i) REDF_SK_Main"
    using assms(4) st_set_all_uncong_main [OF assms(1,2)] by (simp only: if_False if_True)
  then show ?thesis by (simp add: flag_simps)
qed

lemma in_use_marked: "in_use (rs_state (mark_entry ratio lo hi tp e)) \<longleftrightarrow> in_use (rs_state e)"
  by (simp add: flag_simps mark_entry_flags)

lemma st_marked_main:
  assumes "reg_wf r" and "i < sk_list_size r"
    and "main_decision sc socks r i = Some Mark \<or>
         main_decision sc socks r i = Some Keep \<and> has (st r i) REDF_SK_Main"
    and "in_use (st r i)"
  shows "has (st (marked sc socks r) i) REDF_SK_Main"
  using assms by (auto simp: nth_marked mark_entry_def main_decision_def case_prod_beta Let_def flag_simps)

lemma st_marked_not_main:
  assumes "reg_wf r" and "i < sk_list_size r" and "main_decision sc socks r i = Some Unmark"
    and "in_use (st r i)"
  shows "\<not> has (st (marked sc socks r) i) REDF_SK_Main"
  using assms by (auto simp: nth_marked mark_entry_def main_decision_def case_prod_beta Let_def flag_simps)

lemma update_main_size:
  "rmptcp_update_main_sk sc socks r = Some r' \<Longrightarrow> sk_list_size r' = sk_list_size r"
  by (erule rmptcp_update_main_sk_cases) simp_all

lemma update_main_inv:
  assumes "reg_inv socks r" and "rmptcp_update_main_sk sc socks r = Some r'"
  shows "reg_inv socks r'"
  using assms(2)
  by (cases rule: rmptcp_update_main_sk_cases)
     (use reg_inv_wf [OF assms(1)] in
       \<open>auto intro!: reg_inv_same_sks [OF assms(1)] simp: reg_wf_set reg_wf_marked\<close>)

section \<open>Properties\<close>

text \<open>C30. Inserting a new subflow whose addresses are not in the register puts it before the first
  entry with a larger address pair: the list of subflows becomes the sorted insertion of the new
  one, so that it stays sorted by (source, destination) and free of duplicates.  The insertion
  faults (writes behind the array) exactly when the register is full.\<close>

theorem rmptcp_insert_sk_sorts:
  assumes "reg_inv socks r" and "sk \<notin> set (reg_sks r)"
  shows "case rmptcp_insert_sk socks t sk r of
      None \<Rightarrow> sk_list_size r = MAX_NUM_RED_SK
    | Some r' \<Rightarrow> reg_sks r' = insort_key (\<lambda>p. sk_key (socks p)) sk (reg_sks r) \<and> reg_inv socks r'"
proof (cases "rmptcp_insert_sk socks t sk r")
  case None
  then show ?thesis using reg_inv_wf [OF assms(1)]
    by (auto simp: rmptcp_insert_sk_def reg_wf_def Let_def split: if_splits)
next
  case (Some r')
  then show ?thesis
    using rmptcp_insert_sk_sks [OF reg_inv_wf [OF assms(1)] Some] rmptcp_insert_sk_inv [OF assms Some]
    by simp
qed

text \<open>C31. Outside the congestion state the periodic update adds every subflow of the connection that
  can take the segment and forgets none; it faults exactly when the register would have to
  hold more than \<open>MAX_NUM_RED_SK\<close> subflows, since nothing in the code guards the array.\<close>

theorem rmptcp_update_sk_list_complete:
  fixes connection_list :: "sk_ptr list" and skb :: sk_buff
  assumes "reg_inv socks r" and "\<not> has (reg_state r) REDF_Cong"
  defines "known \<equiv> set (reg_sks r) \<union> {sk \<in> set connection_list. usable_now socks skb sk}"
  shows "case rmptcp_update_sk_list socks connection_list t skb r of
      None \<Rightarrow> MAX_NUM_RED_SK < card known
    | Some r' \<Rightarrow> card known \<le> MAX_NUM_RED_SK \<and> set (reg_sks r') = known \<and> reg_inv socks r'"
proof (cases "add_new_sks socks t skb connection_list r")
  case None
  then show ?thesis using assms add_new_sks_fault [OF assms(1), of t skb connection_list]
    by (simp add: rmptcp_update_sk_list_def)
next
  case (Some r')
  note inv = add_new_sks_inv [OF assms(1) Some]
  then have wf: "reg_wf r'" using reg_inv_wf by blast
  have "reg_inv socks (rmptcp_set_enable_flag r')"
    by (rule reg_inv_same_sks [OF conjunct1 [OF inv]]) (simp_all add: reg_wf_set wf)
  then show ?thesis using assms inv wf Some add_new_sks_fault [OF assms(1), of t skb connection_list]
    by (simp add: rmptcp_update_sk_list_def not_less)
qed

text \<open>After setting the enable flags an entry is enabled exactly when its bit is in the mask, an
  entry that is not enabled is not a main subflow, and \<open>num_enabled\<close> counts the enabled entries.\<close>

lemma rmptcp_set_enable_flag_mask:
  assumes "reg_wf r" and "i < sk_list_size r"
  shows "(has (st (rmptcp_set_enable_flag r) i) REDF_SK_Enabled \<longleftrightarrow> bit (enable_mask r) i) \<and>
    (has (st (rmptcp_set_enable_flag r) i) REDF_SK_Main \<longrightarrow>
       has (st (rmptcp_set_enable_flag r) i) REDF_SK_Enabled) \<and>
    num_enabled (rmptcp_set_enable_flag r) = of_nat (count_upto (sk_list_size r)
       (\<lambda>j. has (st (rmptcp_set_enable_flag r) j) REDF_SK_Enabled))"
proof -
  have st: "has (st (rmptcp_set_enable_flag r) j) REDF_SK_Enabled \<longleftrightarrow> bit (enable_mask r) j"
    if "j < sk_list_size r" for j using assms that by (simp add: loop_simps flag_simps)
  then have "count_upto (sk_list_size r) (\<lambda>j. has (st (rmptcp_set_enable_flag r) j) REDF_SK_Enabled)
      = count_upto (sk_list_size r) (bit (enable_mask r))"
    by (intro count_upto_cong) auto
  then show ?thesis using assms st
    by (simp add: num_enabled_set_enable_flag) (simp add: loop_simps flag_simps)
qed

text \<open>Whenever some entry is enabled or a substitute, the main-flag update leaves at least one such
  entry marked as main, whatever the state, the round trip times and the bandwidths; and
  outside the recovery state no congested entry is main while an uncongested one is usable.\<close>

lemma rmptcp_update_main_sk_some_main:
  assumes "reg_wf r" and "rmptcp_update_main_sk sc socks r = Some r'"
    and "i < sk_list_size r" and "in_use (st r i)"
  shows "(\<exists>j < sk_list_size r'. in_use (st r' j) \<and> has (st r' j) REDF_SK_Main) \<and>
    (\<not> has (reg_state r) REDF_Recovery \<and> has (st r i) REDF_SK_Cong \<and>
       (\<exists>j < sk_list_size r. uncong_usable (sk_list r ! j)) \<longrightarrow> \<not> has (st r' i) REDF_SK_Main)"
  using assms(2)
proof (cases rule: rmptcp_update_main_sk_cases)
  case recovery
  then show ?thesis using assms by (auto simp: loop_simps flag_simps intro!: exI [of _ i])
next
  case cong
  then show ?thesis
    using set_all_uncong_main_nonempty [OF assms(1,3,4)] set_all_uncong_main_cong [OF assms(1,3)]
    by simp
next
  case fallback
  have same: "has (st (marked sc socks r) j) f \<longleftrightarrow> has (st r j) f"
    if "j < sk_list_size r" "single f" "f \<noteq> REDF_SK_Main" for j f
    using assms(1) that by (simp add: nth_marked mark_entry_flags)
  then have usable: "uncong_usable (sk_list (marked sc socks r) ! j) \<longleftrightarrow> uncong_usable (sk_list r ! j)"
    if "j < sk_list_size r" for j
    using that by (simp add: uncong_usable_def flag_simps)
  have wf: "reg_wf (marked sc socks r)" using assms(1) by (rule reg_wf_marked)
  have use: "in_use (st (marked sc socks r) i)"
    using assms by (simp add: nth_marked in_use_marked)
  have "\<not> has (st r' i) REDF_SK_Main"
    if "has (st r i) REDF_SK_Cong" and j: "j < sk_list_size r" "uncong_usable (sk_list r ! j)" for j
    unfolding fallback(3)
  proof (rule set_all_uncong_main_cong [OF wf])
    show "has (st (marked sc socks r) i) REDF_SK_Cong"
      using same [OF assms(3) sk_flags_single(5)] that(1) by (simp add: sk_flags_neq)
    show "\<exists>j < sk_list_size (marked sc socks r). uncong_usable (sk_list (marked sc socks r) ! j)"
      using j usable by auto
  qed (use assms in simp)
  then show ?thesis
    using fallback(3) set_all_uncong_main_nonempty [OF wf _ use] assms(3) by auto
next
  case (marking k)
  then have "has (st r' k) REDF_SK_Main" and "in_use (st r' k)"
    using assms(1) st_marked_main [OF assms(1) marking(4,6,5)]
    by (simp_all add: nth_marked in_use_marked)
  moreover have "\<not> has (st r' i) REDF_SK_Main" if cong: "has (st r i) REDF_SK_Cong"
  proof -
    have "\<not> (in_use (st r i) \<and> main_decision sc socks r i = None)"
      by (rule update_main_no_fault [OF assms(2) marking(1,2) assms(3)])
    moreover have "main_decision sc socks r i \<in> {None, Some Unmark}"
      unfolding main_decision_def Let_def case_prod_beta using cong by (rule decide_main_cong)
    ultimately have "main_decision sc socks r i = Some Unmark" using assms(4) by blast
    then show ?thesis using marking(3) st_marked_not_main [OF assms(1,3) _ assms(4)] by simp
  qed
  ultimately show ?thesis using marking(3,4) by auto
qed

section \<open>Closed instances\<close>

definition sample_entry :: red_sk where
  "sample_entry = \<lparr>rs_sk = 3, rs_state = 12, rs_last_used = 0, rs_last_cong = 0,
     rs_seg_count = 0, rs_byte_count = 0, rs_byte_count_old = 0, rs_bandwidth = 0,
     rs_bandwidth_mean = 0, rs_send_period = 0, rs_send_period_mean = 0,
     rs_send_period_var = 0, rs_loss_ratio = 0\<rparr>"

definition sample_reg :: redundant_socket_register where
  "sample_reg = \<lparr>meta_sk = None, reg_state = REDF_Open, cong_flag = 0, last_ca_state = 0,
     last_update = 0, last_inDecrease = 0, start_Recovery = 0, last_send = 0, send_period = 0,
     send_period_mean = 0, send_period_var = 0, send_period_max = 0,
     send_period_max_before_cong = 0, last_period_max = 0, previous_skevent_i = 0, timeout = 0,
     inTime_cnt = 0, timeout_start = 0, total_bw = 0, total_bw_mean = 0, effective_util = 0,
     effective_util_mean = 0, effective_util_mean_mean = 0, effective_util_var = 0,
     effective_util_mean_before_cong = 0, effective_byte_count = 0,
     effective_byte_count_old = 0, sk_reg_update_period = 20000000, max_sk_noshow = 20000,
     red_timeout = 50, enable_mask = 0xFFFF, collapse_th = 90, q_control = 1,
     q_control_high = 1, q_control_low = 1, q_actual = 100, q_target = 100,
     q_target_user = 100, sk_list_size = 1, num_enabled = 1,
     sk_list = replicate MAX_NUM_RED_SK sample_entry\<rparr>"

definition sample_sysctls :: sysctls where
  "sample_sysctls = \<lparr>sysctl_quota = 100, sysctl_skreg_update = 20, sysctl_maxnoshow = 20000,
     sysctl_timeout = 50, sysctl_CS_hold = 2000, sysctl_adaptivR_enable = 0,
     sysctl_adaptivPath_enable = 1, sysctl_main_ratio = 2, sysctl_varperiod_th = 30,
     sysctl_numinTime = 20, sysctl_runpathcheck = 0, sysctl_runpathcheck_duration = 5,
     sysctl_setPath = 0, sysctl_collapse_th = 90, sysctl_enable_kick = 1,
     sysctl_minDeltaT = 20000, sysctl_enablemask = 0xFFFF\<rparr>"

lemma sample_reg_inv: "reg_inv socks sample_reg"
  by (simp add: reg_inv_def reg_wf_def reg_sorted_def reg_sks_def entries_def sample_reg_def
      MAX_NUM_RED_SK_def take_Suc numeral_nat)

lemma sample_reg_sks: "reg_sks sample_reg = [3]"
  by (simp add: reg_sks_def entries_def sample_reg_def sample_entry_def MAX_NUM_RED_SK_def)

lemma sample_in_use: "in_use (st sample_reg 0)"
  by (simp add: sample_reg_def sample_entry_def MAX_NUM_RED_SK_def sk_flag_defs has_def)

theorem rmptcp_insert_sk_sorts_witness:
  "case rmptcp_insert_sk (\<lambda>_. sample_sock) 5 9 sample_reg of
      None \<Rightarrow> sk_list_size sample_reg = MAX_NUM_RED_SK
    | Some r' \<Rightarrow> reg_sks r' = insort_key (\<lambda>_. sk_key sample_sock) 9 [3] \<and> reg_inv (\<lambda>_. sample_sock) r'"
proof -
  have "9 \<notin> set (reg_sks sample_reg)" by (simp add: sample_reg_sks)
  from rmptcp_insert_sk_sorts [OF sample_reg_inv [of "\<lambda>_. sample_sock"] this, of 5]
  show ?thesis by (simp add: sample_reg_sks split: option.splits)
qed

theorem rmptcp_update_sk_list_complete_witness:
  "case rmptcp_update_sk_list (\<lambda>_. sample_sock) [3, 4] 5 sample_skb sample_reg of
      None \<Rightarrow> False
    | Some r' \<Rightarrow> set (reg_sks r') = {3, 4}"
proof -
  have opn: "\<not> has (reg_state sample_reg) REDF_Cong"
    by (simp add: sample_reg_def flag_simps)
  have "usable_now (\<lambda>_. sample_sock) sample_skb sk" for sk
    by (simp add: usable_now_def rmptcp_is_available_def sample_sock_def mptcp_sk_can_send_def)
  then have "set (reg_sks sample_reg) \<union> {sk \<in> set [3, 4]. usable_now (\<lambda>_. sample_sock) sample_skb sk} = {3, 4}"
    by (auto simp: sample_reg_sks)
  with rmptcp_update_sk_list_complete [OF sample_reg_inv [of "\<lambda>_. sample_sock"] opn, of "[3, 4]" sample_skb 5]
  show ?thesis by (simp add: MAX_NUM_RED_SK_def split: option.splits)
qed

lemma rmptcp_set_enable_flag_mask_witness:
  "has (st (rmptcp_set_enable_flag sample_reg) 0) REDF_SK_Enabled"
  using rmptcp_set_enable_flag_mask [OF reg_inv_wf [OF sample_reg_inv], of 0]
  by (simp add: sample_reg_def)

lemma rmptcp_update_main_sk_some_main_witness:
  "case rmptcp_update_main_sk sample_sysctls (\<lambda>_. sample_sock) sample_reg of
      None \<Rightarrow> False
    | Some r' \<Rightarrow> \<exists>j < sk_list_size r'. has (st r' j) REDF_SK_Main"
proof -
  have "main_decision sample_sysctls (\<lambda>_. sample_sock) sample_reg i \<noteq> None" for i
    unfolding main_decision_def Let_def case_prod_beta
    by (rule decide_main_total) (simp_all add: sample_sysctls_def)
  then have "first_idx (sk_list_size sample_reg)
      (\<lambda>i. in_use (st sample_reg i) \<and>
           main_decision sample_sysctls (\<lambda>_. sample_sock) sample_reg i = None) = None"
    by (simp add: first_idx_None)
  then have "rmptcp_update_main_sk sample_sysctls (\<lambda>_. sample_sock) sample_reg \<noteq> None"
    by (simp add: rmptcp_update_main_sk_def)
  then obtain r' where r': "rmptcp_update_main_sk sample_sysctls (\<lambda>_. sample_sock) sample_reg = Some r'"
    by blast
  have "0 < sk_list_size sample_reg" by (simp add: sample_reg_def)
  from rmptcp_update_main_sk_some_main [OF reg_inv_wf [OF sample_reg_inv] r' this sample_in_use] r'
  show ?thesis by auto
qed

end
