(* ===== verification/Red_Quota.thy ===== *)
theory Red_Quota
  imports Red_Register
begin

text \<open>
  The redundancy control of rMPTCP (\<open>net/mptcp/rmptcp.c\<close>): regulation of the target
  redundancy \<open>q_target\<close> (in percent: 100 is one copy of each segment), the control values, the
  measured redundancy \<open>q_actual\<close>, and the adaptive path algorithm that activates substitute
  subflows.
\<close>

section \<open>Regulating the target\<close>

definition rmptcp_regulateQ ::
  "sysctls \<Rightarrow> ktime \<Rightarrow> redundant_socket_register \<Rightarrow> redundant_socket_register" where
  "rmptcp_regulateQ sc run_start r =
    (if \<not> ktime_before (ktime_add_ms (last_inDecrease r) 20) run_start then r
     else
       let threshold = (effective_util_mean_before_cong r * 21) div 20;
           q = q_target r;
           q1 = (if has (reg_state r) REDF_Recovery then q + 1
                 else if effective_util_mean r > threshold \<and> effective_util r > threshold
                 then (if q_actual r > q then (q + 1) + drop_bit 4 (q_actual r - (q + 1)) else q + 1)
                 else if effective_util_mean r < effective_util_mean_before_cong r then q - 1
                 else q);
           limit = (if sysctl_adaptivPath_enable sc \<noteq> 0 then num_enabled r * 100
                    else (num_enabled r - 1) * 100);
           q2 = (if has (reg_state r) REDF_Cong \<and> q1 > limit then limit else q1)
       in r\<lparr>last_inDecrease := run_start, q_target := q2\<rparr>)"

section \<open>Control values\<close>

text \<open>\<open>(int) q_target/100\<close> and \<open>((int) (q_target - 1)/100) + 1\<close>\<close>

definition control_low :: "u32 \<Rightarrow> u32" where
  "control_low q = word_of_int (sint q sdiv 100)"

definition control_high :: "u32 \<Rightarrow> u32" where
  "control_high q = word_of_int (s32 (sint (q - 1) sdiv 100 + 1))"

definition rmptcp_setQ :: "redundant_socket_register \<Rightarrow> redundant_socket_register" where
  "rmptcp_setQ r = r\<lparr>q_target := q_target_user r,
     q_control_low := control_low (q_target_user r),
     q_control_high := control_high (q_target_user r)\<rparr>"

definition rmptcp_calc_controlQ :: "redundant_socket_register \<Rightarrow> redundant_socket_register" where
  "rmptcp_calc_controlQ r =
     (let q = (if q_actual r \<ge> q_target r then q_control_low r else q_control_high r)
      in r\<lparr>q_control := (if q < 1 then 1 else q)\<rparr>)"

section \<open>The measured redundancy\<close>

definition rmptcp_setQActual :: "int \<Rightarrow> redundant_socket_register \<Rightarrow> redundant_socket_register" where
  "rmptcp_setQActual num_available_sk r =
     (if q_actual r \<noteq> 0
      then let err = sint (word_of_int (s32 (num_available_sk * 100)) - q_actual r)
           in if err < 16 \<and> err > 0 then r\<lparr>q_actual := q_actual r + 1\<rparr>
              else if err > -16 \<and> err < 0 then r\<lparr>q_actual := q_actual r - 1\<rparr>
              else r\<lparr>q_actual := q_actual r + word_of_int (err sdiv 16)\<rparr>
      else r\<lparr>q_actual := word_of_int (num_available_sk * 100)\<rparr>)"

section \<open>Adaptive redundancy\<close>

text \<open>The first congested entry, or 0 when there is none.\<close>

definition first_cong :: "redundant_socket_register \<Rightarrow> nat" where
  "first_cong r = (case first_idx (sk_list_size r) (\<lambda>i. has (rs_state (sk_list r ! i)) REDF_SK_Cong)
                   of Some i \<Rightarrow> i | None \<Rightarrow> 0)"

definition adaptR_target ::
  "sysctls \<Rightarrow> ktime \<Rightarrow> redundant_socket_register \<Rightarrow> redundant_socket_register" where
  "adaptR_target sc run_start r =
     (if cong_flag r \<noteq> 0 \<and> has (reg_state r) REDF_Cong
      then let before_cong = (if effective_util_mean_before_cong r < 1 then 1
                              else effective_util_mean_before_cong r);
               q = ucast (((total_bw_mean r - rs_bandwidth_mean (sk_list r ! first_cong r)) * 100)
                          div before_cong) :: u32;
               limit = (num_enabled r - 1) * 100
           in r\<lparr>last_inDecrease := run_start, effective_util_mean_before_cong := before_cong,
                q_target := (if q > limit then limit else q)\<rparr>
      else if cong_flag r \<noteq> 0 \<and> has (reg_state r) REDF_Open then rmptcp_setQ r
      else if has (reg_state r) REDF_Cong \<or> has (reg_state r) REDF_Recovery
      then rmptcp_regulateQ sc run_start r
      else r\<lparr>q_target := q_target_user r\<rparr>)"

definition rmptcp_adaptR ::
  "sysctls \<Rightarrow> ktime \<Rightarrow> redundant_socket_register \<Rightarrow> redundant_socket_register" where
  "rmptcp_adaptR sc run_start r =
     (let r1 = adaptR_target sc run_start r;
          q = (if q_target r1 < 100 then 100
               else if q_target r1 > q_target_user r1 then q_target_user r1 else q_target r1)
      in r1\<lparr>q_target := q, q_control_low := control_low q, q_control_high := control_high q\<rparr>)"

section \<open>Adaptive paths\<close>

text \<open>The enabled, uncongested entry with the highest mean bandwidth, or 0; the maximum is kept
  in 32 bits.\<close>

definition highest_bw_idx :: "redundant_socket_register \<Rightarrow> nat" where
  "highest_bw_idx r = snd (fold (\<lambda>i (highest_bw, highest_bw_i).
      let e = sk_list r ! i
      in if rs_state e AND (REDF_SK_Enabled OR REDF_SK_Cong) = REDF_SK_Enabled AND NOT REDF_SK_Cong \<and>
            rs_bandwidth_mean e > ucast highest_bw
         then (ucast (rs_bandwidth_mean e), i)
         else (highest_bw, highest_bw_i))
    [0..<sk_list_size r] (0 :: u32, 0))"

definition substitute_for ::
  "socks \<Rightarrow> redundant_socket_register \<Rightarrow> nat \<Rightarrow> nat \<Rightarrow> red_sk \<Rightarrow> bool" where
  "substitute_for socks r sk_cong_i highest_bw_i e \<longleftrightarrow>
     (let cong = socks (rs_sk (sk_list r ! sk_cong_i));
          new = socks (rs_sk (sk_list r ! highest_bw_i)); sk = socks (rs_sk e)
      in \<not> has (rs_state e) REDF_SK_Cong \<and>
         (rcv_saddr sk = rcv_saddr cong \<and> daddr sk = daddr new \<or>
          daddr sk = daddr cong \<and> rcv_saddr sk = rcv_saddr new))"

definition rmptcp_adaptPath :: "socks \<Rightarrow> redundant_socket_register \<Rightarrow> redundant_socket_register" where
  "rmptcp_adaptPath socks r =
     (if cong_flag r \<noteq> 0 \<and> has (reg_state r) REDF_Cong
      then r\<lparr>sk_list := upd_upto (sk_list_size r)
             (\<lambda>_ e. if substitute_for socks r (first_cong r) (highest_bw_idx r) e
                    then e\<lparr>rs_state := setf (rs_state e) REDF_SK_Sub\<rparr> else e) (sk_list r)\<rparr>
      else if cong_flag r \<noteq> 0 \<and> has (reg_state r) REDF_Recovery
      then r\<lparr>sk_list := upd_upto (sk_list_size r)
             (\<lambda>_ e. e\<lparr>rs_state := clrf (rs_state e) REDF_SK_Sub\<rparr>) (sk_list r)\<rparr>
      else r)"

section \<open>Lemmas\<close>

lemma regulateQ_simps [simp]:
  "q_target_user (rmptcp_regulateQ sc t r) = q_target_user r"
  "sk_list (rmptcp_regulateQ sc t r) = sk_list r"
  "sk_list_size (rmptcp_regulateQ sc t r) = sk_list_size r"
  "reg_state (rmptcp_regulateQ sc t r) = reg_state r"
  by (simp_all add: rmptcp_regulateQ_def Let_def)

lemma setQ_simps [simp]:
  "sk_list (rmptcp_setQ r) = sk_list r" "sk_list_size (rmptcp_setQ r) = sk_list_size r"
  "reg_state (rmptcp_setQ r) = reg_state r" "q_target_user (rmptcp_setQ r) = q_target_user r"
  by (simp_all add: rmptcp_setQ_def)

lemma adaptR_target_simps [simp]:
  "q_target_user (adaptR_target sc t r) = q_target_user r"
  "sk_list (adaptR_target sc t r) = sk_list r"
  "sk_list_size (adaptR_target sc t r) = sk_list_size r"
  "reg_state (adaptR_target sc t r) = reg_state r"
  by (simp_all add: adaptR_target_def Let_def)

lemma adaptR_simps [simp]:
  "q_target_user (rmptcp_adaptR sc t r) = q_target_user r"
  "sk_list (rmptcp_adaptR sc t r) = sk_list r"
  "sk_list_size (rmptcp_adaptR sc t r) = sk_list_size r"
  "reg_state (rmptcp_adaptR sc t r) = reg_state r"
  by (simp_all add: rmptcp_adaptR_def Let_def)

lemma calc_controlQ_simps [simp]:
  "sk_list (rmptcp_calc_controlQ r) = sk_list r"
  "sk_list_size (rmptcp_calc_controlQ r) = sk_list_size r"
  "reg_state (rmptcp_calc_controlQ r) = reg_state r"
  by (simp_all add: rmptcp_calc_controlQ_def Let_def)

lemma setQActual_simps [simp]:
  "sk_list (rmptcp_setQActual n r) = sk_list r"
  "sk_list_size (rmptcp_setQActual n r) = sk_list_size r"
  "reg_state (rmptcp_setQActual n r) = reg_state r"
  by (simp_all add: rmptcp_setQActual_def Let_def)

lemma adaptPath_simps [simp]:
  "sk_list_size (rmptcp_adaptPath socks r) = sk_list_size r"
  "length (sk_list (rmptcp_adaptPath socks r)) = length (sk_list r)"
  "reg_state (rmptcp_adaptPath socks r) = reg_state r"
  "cong_flag (rmptcp_adaptPath socks r) = cong_flag r"
  by (simp_all add: rmptcp_adaptPath_def)

text \<open>Below \<open>2^31\<close> the signed divisions are the natural ones.\<close>

lemma control_low_nat:
  assumes "unat q < 2 ^ 31"
  shows "unat (control_low q) = unat q div 100"
proof -
  have "sint q sdiv 100 = int (unat q div 100)"
    by (simp add: sint_small32 [OF assms] sdiv_pos_nonneg zdiv_int)
  then have "control_low q = of_nat (unat q div 100)" by (simp add: control_low_def)
  moreover have "unat q div 100 < 2 ^ 32" using assms by simp
  ultimately show ?thesis by (simp only: unat_of_nat32)
qed

lemma control_high_nat:
  assumes "unat q < 2 ^ 31" and "0 < unat q"
  shows "unat (control_high q) = (unat q - 1) div 100 + 1"
proof -
  have m1: "unat (q - 1) = unat q - 1"
    using assms(2) by (metis unat_minus_one unat_0 less_irrefl)
  with assms have "unat (q - 1) < 2 ^ 31" by simp
  then have div: "sint (q - 1) sdiv 100 + 1 = int ((unat q - 1) div 100 + 1)"
    by (simp add: sint_small32 sdiv_pos_nonneg m1 zdiv_int)
  have small: "(unat q - 1) div 100 + 1 < 2 ^ 31" using assms by simp
  then have "int ((unat q - 1) div 100 + 1) < 2 ^ 31"
    by (metis of_nat_less_iff of_nat_numeral of_nat_power)
  then have "s32 (int ((unat q - 1) div 100 + 1)) = int ((unat q - 1) div 100 + 1)"
    by (intro s32_id) linarith+
  then have "control_high q = of_nat ((unat q - 1) div 100 + 1)"
    unfolding control_high_def div by simp
  moreover have "(unat q - 1) div 100 + 1 < 2 ^ 32" using small by simp
  ultimately show ?thesis by (simp only: unat_of_nat32)
qed

text \<open>The measured redundancy as an integer step towards the number of used subflows.\<close>

definition qstep :: "int \<Rightarrow> int \<Rightarrow> int" where
  "qstep target q =
     (if 0 < target - q \<and> target - q < 16 then q + 1
      else if -16 < target - q \<and> target - q < 0 then q - 1
      else q + (target - q) sdiv 16)"

lemma qstep_fixpoint [simp]: "qstep t t = t"
  by (simp add: qstep_def signed_divide_int_def)

lemma qstep_up: "q < t \<Longrightarrow> q < qstep t q \<and> qstep t q \<le> t"
  by (auto simp: qstep_def sdiv_pos_nonneg)

lemma qstep_down: "t < q \<Longrightarrow> t \<le> qstep t q \<and> qstep t q < q"
  by (auto simp: qstep_def sdiv_pos_neg)

lemma qstep_closer: "q \<noteq> t \<Longrightarrow> nat \<bar>t - qstep t q\<bar> < nat \<bar>t - q\<bar>"
  using qstep_up [of q t] qstep_down [of t q] by linarith

lemma qstep_range: "min q t \<le> qstep t q \<and> qstep t q \<le> max q t"
  by (cases "q = t") (use qstep_up [of q t] qstep_down [of t q] in \<open>auto simp: min_def max_def\<close>)

lemma iterate_closer:
  assumes "\<And>m. q (Suc m) = qstep t (q m)"
  shows "\<exists>k \<le> nat \<bar>t - q 0\<bar>. \<forall>m \<ge> k. q m = t"
  using assms
proof (induction "nat \<bar>t - q 0\<bar>" arbitrary: q rule: less_induct)
  case less
  show ?case
  proof (cases "q 0 = t")
    case True
    have "q m = t" for m by (induction m) (simp_all add: True less.prems)
    then show ?thesis by blast
  next
    case False
    then have closer: "nat \<bar>t - q (Suc 0)\<bar> < nat \<bar>t - q 0\<bar>"
      using qstep_closer less.prems by simp
    obtain k where k: "k \<le> nat \<bar>t - q (Suc 0)\<bar>" "\<forall>m \<ge> k. q (Suc m) = t"
      using less.hyps [of "\<lambda>m. q (Suc m)"] closer less.prems by blast
    have "q m = t" if "Suc k \<le> m" for m
      using that k(2) by (cases m) auto
    then show ?thesis using k(1) closer by (intro exI [of _ "Suc k"]) auto
  qed
qed

definition q_sane :: "redundant_socket_register \<Rightarrow> bool" where
  "q_sane r \<longleftrightarrow> 0 < uint (q_actual r) \<and> uint (q_actual r) < 2 ^ 31"

lemma setQActual_qstep:
  assumes "q_sane r" and "0 < n" and "n \<le> 24"
  shows "uint (q_actual (rmptcp_setQActual (int n) r)) = qstep (int n * 100) (uint (q_actual r))
    \<and> q_sane (rmptcp_setQActual (int n) r)"
proof -
  let ?q = "q_actual r" and ?t = "int n * 100"
  have b: "0 < uint ?q" "uint ?q < 2 ^ 31" using assms(1) by (simp_all add: q_sane_def)
  have t: "100 \<le> ?t" "?t \<le> 2400" using assms(2,3) by simp_all
  then have s: "s32 ?t = ?t" by (intro s32_id) simp_all
  have "(word_of_int ?t :: u32) - ?q = word_of_int (?t - uint ?q)" by simp
  then have "sint ((word_of_int ?t :: u32) - ?q) = signed_take_bit 31 (?t - uint ?q)"
    by (simp only: sint_sbintrunc') simp
  also have "\<dots> = ?t - uint ?q"
    using b t by (intro signed_take_bit_int_eq_self) simp_all
  finally have err: "sint ((word_of_int ?t :: u32) - ?q) = ?t - uint ?q" .
  have ne: "?q \<noteq> 0" using b(1) by auto
  have w: "q_actual (rmptcp_setQActual (int n) r) = word_of_int (qstep ?t (uint ?q))"
    unfolding rmptcp_setQActual_def Let_def s err using ne
    by (simp add: qstep_def)
  have range: "0 < qstep ?t (uint ?q)" "qstep ?t (uint ?q) < 2 ^ 31"
    using qstep_range [of "uint ?q" ?t] b t by (simp_all add: min_def max_def split: if_splits)
  then have "uint (word_of_int (qstep ?t (uint ?q)) :: u32) = qstep ?t (uint ?q)"
    by (simp add: uint_word_of_int_eq take_bit_int_eq_self)
  with w range show ?thesis by (simp add: q_sane_def)
qed

text \<open>The loop that looks for the highest bandwidth.\<close>

abbreviation path_candidate :: "red_sk \<Rightarrow> bool" where
  "path_candidate e \<equiv>
     rs_state e AND (REDF_SK_Enabled OR REDF_SK_Cong) = REDF_SK_Enabled AND NOT REDF_SK_Cong"

lemma highest_bw_idx_max:
  assumes "\<And>j. j < sk_list_size r \<Longrightarrow> unat (rs_bandwidth_mean (sk_list r ! j)) < 2 ^ 32"
    and "i < sk_list_size r" and "path_candidate (sk_list r ! i)"
  shows "rs_bandwidth_mean (sk_list r ! i) \<le> rs_bandwidth_mean (sk_list r ! highest_bw_idx r)"
proof -
  define f where "f = (\<lambda>i (highest_bw :: u32, highest_bw_i :: nat).
      let e = sk_list r ! i
      in if path_candidate e \<and> rs_bandwidth_mean e > ucast highest_bw
         then (ucast (rs_bandwidth_mean e), i) else (highest_bw, highest_bw_i))"
  let ?bw = "\<lambda>i. rs_bandwidth_mean (sk_list r ! i)"
  have ucast_bw: "ucast (ucast (?bw j) :: u32) = ?bw j" if "j < sk_list_size r" for j
    by (rule ucast_back [OF assms(1) [OF that]])
  have inv: "n \<le> sk_list_size r \<Longrightarrow> ucast (fst (fold f [0..<n] (0, 0))) \<le> ?bw (snd (fold f [0..<n] (0, 0))) \<and>
      (\<forall>j<n. path_candidate (sk_list r ! j) \<longrightarrow> ?bw j \<le> ucast (fst (fold f [0..<n] (0, 0))))" for n
  proof (induction n)
    case (Suc n)
    then have n: "n < sk_list_size r" by simp
    show ?case using Suc.IH n ucast_bw [OF n]
      by (cases "fold f [0..<n] (0, 0)") (auto simp: f_def Let_def less_Suc_eq not_less)
  qed simp
  from inv [of "sk_list_size r"] assms(2,3) show ?thesis
    unfolding highest_bw_idx_def f_def by fastforce
qed

section \<open>Properties\<close>

text \<open>C32. Whatever the state and the measurements, the adaptive redundancy algorithm ends with a target
  between 100 percent and the user's quota, a low control value that is the whole number of
  copies in the target and a high one that is the next whole number: the two bracket the target,
  differ by at most one, and there is always at least one copy.\<close>

theorem rmptcp_adaptR_bounds:
  fixes sc :: sysctls and t :: ktime
  assumes "100 \<le> unat (q_target_user r)" and "unat (q_target_user r) < 2 ^ 31"
  defines "r' \<equiv> rmptcp_adaptR sc t r"
  shows "100 \<le> unat (q_target r') \<and> unat (q_target r') \<le> unat (q_target_user r) \<and>
    unat (q_control_low r') * 100 \<le> unat (q_target r') \<and>
    unat (q_target r') \<le> unat (q_control_high r') * 100 \<and>
    1 \<le> unat (q_control_low r') \<and> unat (q_control_high r') \<le> unat (q_control_low r') + 1"
proof -
  have q: "100 \<le> unat (q_target r')" "unat (q_target r') \<le> unat (q_target_user r)"
    using assms(1) by (auto simp: r'_def rmptcp_adaptR_def Let_def word_less_nat_alt not_less)
  have low: "q_control_low r' = control_low (q_target r')"
    and high: "q_control_high r' = control_high (q_target r')"
    by (simp_all add: r'_def rmptcp_adaptR_def Let_def)
  have "unat (q_control_low r') = unat (q_target r') div 100"
    using q assms(2) by (simp add: low control_low_nat)
  moreover have "unat (q_control_high r') = (unat (q_target r') - 1) div 100 + 1"
    using q assms(2) unfolding high by (intro control_high_nat) simp_all
  ultimately show ?thesis using q by auto
qed

text \<open>C33. With a constant number of subflows per segment, the measured redundancy reaches exactly one
  hundred times that number after finitely many segments, and stays there: the special steps of
  one unit make up for the truncation of the average.\<close>

theorem rmptcp_setQActual_converges:
  assumes "0 < n" and "n \<le> 24" and "0 < uint (q_actual r)" and "uint (q_actual r) < 2 ^ 31"
  shows "\<exists>k \<le> nat \<bar>int n * 100 - uint (q_actual r)\<bar>.
           \<forall>m \<ge> k. uint (q_actual ((rmptcp_setQActual (int n) ^^ m) r)) = int n * 100"
proof -
  let ?f = "rmptcp_setQActual (int n)" and ?t = "int n * 100"
  have sane: "q_sane ((?f ^^ m) r)" for m
  proof (induction m)
    case (Suc m)
    then show ?case using setQActual_qstep [OF Suc assms(1,2)] by simp
  qed (use assms in \<open>simp add: q_sane_def\<close>)
  have iter: "uint (q_actual ((?f ^^ Suc m) r)) = qstep ?t (uint (q_actual ((?f ^^ m) r)))" for m
    using setQActual_qstep [OF sane assms(1,2)] by simp
  show ?thesis
    using iterate_closer [where q = "\<lambda>m. uint (q_actual ((?f ^^ m) r))" and t = ?t, OF iter]
    by simp
qed

text \<open>With the control values that \<open>rmptcp_setQ\<close> and \<open>rmptcp_adaptR\<close> compute for the target, the
  number of subflows a segment waits for is never zero; while the measured redundancy is below
  the target it is enough copies to reach the target, otherwise no more than the target allows.\<close>

lemma rmptcp_calc_controlQ_brackets:
  assumes "0 < unat (q_target r)" and "unat (q_target r) < 2 ^ 31"
    and "q_control_low r = control_low (q_target r)" and "q_control_high r = control_high (q_target r)"
  defines "n \<equiv> unat (q_control (rmptcp_calc_controlQ r))"
  shows "1 \<le> n \<and> (q_actual r < q_target r \<longrightarrow> unat (q_target r) \<le> n * 100) \<and>
    (q_target r \<le> q_actual r \<longrightarrow> n * 100 \<le> max 100 (unat (q_target r)))"
proof -
  have low: "unat (q_control_low r) = unat (q_target r) div 100"
    using assms(2,3) by (simp add: control_low_nat)
  have high: "unat (q_control_high r) = (unat (q_target r) - 1) div 100 + 1"
    unfolding assms(4) by (rule control_high_nat [OF assms(2,1)])
  have n: "n = max 1 (if q_target r \<le> q_actual r then unat (q_control_low r) else unat (q_control_high r))"
    by (auto simp: n_def rmptcp_calc_controlQ_def Let_def word_less_nat_alt max_def)
  show ?thesis using assms(1) by (auto simp: n low high max_def not_le)
qed

text \<open>On entering the congestion state the adaptive path algorithm turns an entry into a substitute
  exactly when it is uncongested and joins an end point of the congested subflow to the other end
  point of the enabled uncongested subflow with the highest mean bandwidth; no other flag and no
  other entry changes, and on leaving to recovery every substitute flag is cleared.\<close>

lemma rmptcp_adaptPath_substitutes:
  fixes socks :: socks
  assumes "reg_wf r" and "i < sk_list_size r" and "cong_flag r \<noteq> 0"
  defines "r' \<equiv> rmptcp_adaptPath socks r"
  shows "(has (reg_state r) REDF_Cong \<longrightarrow>
      (has (st r' i) REDF_SK_Sub \<longleftrightarrow> has (st r i) REDF_SK_Sub \<or>
         substitute_for socks r (first_cong r) (highest_bw_idx r) (sk_list r ! i)) \<and>
      (has (st r i) REDF_SK_Cong \<longrightarrow> st r' i = st r i) \<and>
      ((\<forall>j < sk_list_size r. unat (rs_bandwidth_mean (sk_list r ! j)) < 2 ^ 32) \<longrightarrow>
        (\<forall>j < sk_list_size r. path_candidate (sk_list r ! j) \<longrightarrow>
           rs_bandwidth_mean (sk_list r ! j) \<le> rs_bandwidth_mean (sk_list r ! highest_bw_idx r)))) \<and>
    (has (reg_state r) REDF_Recovery \<and> \<not> has (reg_state r) REDF_Cong \<longrightarrow>
       \<not> has (st r' i) REDF_SK_Sub) \<and>
    (\<forall>f. single f \<and> f \<noteq> REDF_SK_Sub \<longrightarrow> (has (st r' i) f \<longleftrightarrow> has (st r i) f))"
proof -
  have cong: "has (reg_state r) REDF_Cong \<Longrightarrow> sk_list r' ! i =
      (if substitute_for socks r (first_cong r) (highest_bw_idx r) (sk_list r ! i)
       then (sk_list r ! i)\<lparr>rs_state := setf (st r i) REDF_SK_Sub\<rparr> else sk_list r ! i)"
    using assms by (simp add: rmptcp_adaptPath_def loop_simps reg_wf_size)
  have recovery: "has (reg_state r) REDF_Recovery \<Longrightarrow> \<not> has (reg_state r) REDF_Cong \<Longrightarrow>
      st r' i = clrf (st r i) REDF_SK_Sub"
    using assms by (simp add: rmptcp_adaptPath_def loop_simps reg_wf_size)
  have other: "\<not> has (reg_state r) REDF_Recovery \<Longrightarrow> \<not> has (reg_state r) REDF_Cong \<Longrightarrow> r' = r"
    by (simp add: r'_def rmptcp_adaptPath_def)
  have not_cong: "has (st r i) REDF_SK_Cong \<Longrightarrow>
      \<not> substitute_for socks r (first_cong r) (highest_bw_idx r) (sk_list r ! i)"
    by (simp add: substitute_for_def Let_def)
  show ?thesis
    using cong recovery other not_cong highest_bw_idx_max [of r]
    by (cases "has (reg_state r) REDF_Cong"; cases "has (reg_state r) REDF_Recovery")
       (auto simp: flag_simps)
qed

section \<open>Closed instances\<close>

theorem rmptcp_adaptR_bounds_witness:
  "100 \<le> unat (q_target (rmptcp_adaptR sample_sysctls 7 sample_reg)) \<and>
   unat (q_target (rmptcp_adaptR sample_sysctls 7 sample_reg)) \<le> 100"
  using rmptcp_adaptR_bounds [of sample_reg sample_sysctls 7] by (simp add: sample_reg_def)

theorem rmptcp_setQActual_converges_witness:
  "\<exists>k \<le> 100. \<forall>m \<ge> k. uint (q_actual ((rmptcp_setQActual 2 ^^ m) sample_reg)) = 200"
  using rmptcp_setQActual_converges [of 2 sample_reg] by (simp add: sample_reg_def)

lemma rmptcp_calc_controlQ_brackets_witness:
  "1 \<le> unat (q_control (rmptcp_calc_controlQ (rmptcp_setQ sample_reg)))"
  using rmptcp_calc_controlQ_brackets [of "rmptcp_setQ sample_reg"]
  by (simp add: rmptcp_setQ_def sample_reg_def)

lemma rmptcp_adaptPath_substitutes_witness:
  "\<not> has (st (rmptcp_adaptPath (\<lambda>_. sample_sock)
      (sample_reg\<lparr>cong_flag := 1, reg_state := REDF_Recovery\<rparr>)) 0) REDF_SK_Sub"
proof -
  let ?r = "sample_reg\<lparr>cong_flag := 1, reg_state := REDF_Recovery\<rparr>"
  have wf: "reg_wf ?r" by (simp add: reg_wf_def sample_reg_def MAX_NUM_RED_SK_def)
  have "0 < sk_list_size ?r" "cong_flag ?r \<noteq> 0" by (simp_all add: sample_reg_def)
  from rmptcp_adaptPath_substitutes [OF wf this, of "\<lambda>_. sample_sock"]
  show ?thesis by (simp add: flag_simps)
qed

end
