(* ===== verification/Red_Avail.thy ===== *)
theory Red_Avail
  imports Red_Quota
begin

text \<open>
  The choice of the subflows for one segment (\<open>rmptcp_check_avail_sk\<close> in \<open>net/mptcp/rmptcp.c\<close>)
  and the measurement of the sending period (\<open>rmptcp_calc_sendPeriod\<close>).

  The first loop removes entries while it runs over the list; its specification is a filter
  followed by a map on the list of entries in use.
\<close>

section \<open>Known sockets\<close>

text \<open>An available socket is used when it is enabled or a substitute, but a congested substitute
  only when nothing is outstanding on it.\<close>

definition may_use :: "tcp_sock \<Rightarrow> red_sk \<Rightarrow> bool" where
  "may_use sub_tp e \<longleftrightarrow> has (rs_state e) (REDF_SK_Enabled OR REDF_SK_Sub) \<and>
     \<not> (has (rs_state e) REDF_SK_Cong \<and> has (rs_state e) REDF_SK_Sub \<and> packets_out sub_tp > 0)"

definition set_available :: "bool \<Rightarrow> red_sk \<Rightarrow> red_sk" where
  "set_available b e = e\<lparr>rs_state := (if b then setf (rs_state e) REDF_SK_Available
                                      else clrf (rs_state e) REDF_SK_Available)\<rparr>"

definition not_seen :: "u64 \<Rightarrow> ktime \<Rightarrow> red_sk \<Rightarrow> bool" where
  "not_seen noshow run_start e \<longleftrightarrow> ktime_before (ktime_add_ms (rs_last_used e) noshow) run_start"

text \<open>The loop from index \<open>i\<close> on, with the counters of available and of available main subflows.\<close>

function avail_loop ::
  "socks \<Rightarrow> sk_buff \<Rightarrow> ktime \<Rightarrow> nat \<Rightarrow> redundant_socket_register \<Rightarrow> nat \<Rightarrow> nat
     \<Rightarrow> redundant_socket_register \<times> nat \<times> nat" where
  "avail_loop socks skb run_start i r num_available_sk main_available =
    (if i < sk_list_size r
     then
       let e = sk_list r ! i; sub_tp = socks (rs_sk e)
       in if rmptcp_is_available sub_tp (Some skb) False True \<noteq> 0
          then
            let r1 = r\<lparr>sk_list := (sk_list r)[i := set_available False e]\<rparr>
            in if not_seen (max_sk_noshow r) run_start e
               then avail_loop socks skb run_start i
                      (r1\<lparr>sk_list := shift_down i (sk_list_size r) (sk_list r1),
                          sk_list_size := sk_list_size r - 1\<rparr>)
                      num_available_sk main_available
               else avail_loop socks skb run_start (Suc i) r1 num_available_sk main_available
          else if may_use sub_tp e
          then avail_loop socks skb run_start (Suc i)
                 (r\<lparr>sk_list := (sk_list r)[i := set_available True e]\<rparr>)
                 (Suc num_available_sk)
                 (if has (rs_state e) REDF_SK_Main then Suc main_available else main_available)
          else avail_loop socks skb run_start (Suc i)
                 (r\<lparr>sk_list := (sk_list r)[i := set_available False e]\<rparr>)
                 num_available_sk main_available
     else (r, num_available_sk, main_available))"
  by pat_completeness auto

termination
  by (relation "measure (\<lambda>(_, _, _, i, r, _, _). sk_list_size r - i)") auto

declare avail_loop.simps [simp del]

section \<open>Removing extra subflows\<close>

definition avail_main :: "redundant_socket_register \<Rightarrow> nat \<Rightarrow> bool" where
  "avail_main r i \<longleftrightarrow>
     rs_state (sk_list r ! i) AND (REDF_SK_Available OR REDF_SK_Main) = REDF_SK_Available OR REDF_SK_Main"

text \<open>The available main subflow that was used last; without one, the previous choice.\<close>

definition latest_main :: "redundant_socket_register \<Rightarrow> nat option \<Rightarrow> nat option" where
  "latest_main r latest_i =
     (case first_idx (sk_list_size r) (avail_main r) of
        None \<Rightarrow> latest_i
      | Some k \<Rightarrow> Some (fold (\<lambda>i l. if avail_main r i \<and>
             ktime_before (rs_last_used (sk_list r ! l)) (rs_last_used (sk_list r ! i)) then i else l)
           [Suc k..<sk_list_size r] k))"

function kick ::
  "nat \<Rightarrow> redundant_socket_register \<Rightarrow> nat \<Rightarrow> nat \<Rightarrow> nat option
     \<Rightarrow> redundant_socket_register \<times> nat \<times> nat" where
  "kick q r num_available_sk main_available latest_i =
    (if num_available_sk > q \<and> main_available > 1
     then (case latest_main r latest_i of
             None \<Rightarrow> (r, num_available_sk, main_available)
           | Some k \<Rightarrow> kick q (r\<lparr>sk_list := (sk_list r)[k := set_available False (sk_list r ! k)]\<rparr>)
                        (num_available_sk - 1) (main_available - 1) (Some k))
     else (r, num_available_sk, main_available))"
  by pat_completeness auto

termination
  by (relation "measure (\<lambda>(_, _, n, _, _). n)") auto

declare kick.simps [simp del]

section \<open>The decision\<close>

definition delta_send :: "ktime \<Rightarrow> redundant_socket_register \<Rightarrow> int" where
  "delta_send run_start r =
     (if timeout_start r \<noteq> 0 then ktime_us_delta run_start (timeout_start r) else 0)"

definition clamp_q_control :: "redundant_socket_register \<Rightarrow> redundant_socket_register" where
  "clamp_q_control r =
     (let q = (if q_control r > num_enabled r then num_enabled r else q_control r)
      in r\<lparr>q_control := (if q < 1 then 1 else q)\<rparr>)"

text \<open>The two time-outs, in 64-bit arithmetic.\<close>

definition cong_timeout :: "sysctls \<Rightarrow> redundant_socket_register \<Rightarrow> int" where
  "cong_timeout sc r = s64 (s32 (s32 (100 + sysctl_varperiod_th sc) * 2) * send_period_max r) sdiv 100"

definition normal_timeout :: "sysctls \<Rightarrow> redundant_socket_register \<Rightarrow> int" where
  "normal_timeout sc r = s64 (s32 (100 + sysctl_varperiod_th sc) * send_period_max r) sdiv 100"

text \<open>The decision on the register after the loop: whether to send, the register, and the number of
  available subflows.\<close>

definition avail_decide ::
  "sysctls \<Rightarrow> ktime \<Rightarrow> int \<Rightarrow> redundant_socket_register \<Rightarrow> nat \<Rightarrow> nat
     \<Rightarrow> bool \<times> redundant_socket_register \<times> nat" where
  "avail_decide sc run_start delta r num_available_sk main_available =
    (if num_available_sk \<ge> unat (q_control r) \<and> main_available > 0
     then (if sysctl_enable_kick sc \<noteq> 0
           then (case kick (unat (q_control r)) r num_available_sk main_available None of
                   (r', n', _) \<Rightarrow> (True, r', n'))
           else (True, r, num_available_sk))
     else if has (reg_state r) REDF_Cong \<and> delta > cong_timeout sc r \<and> num_available_sk > 0
     then (True, r, num_available_sk)
     else if \<not> has (reg_state r) REDF_Cong \<and> delta > normal_timeout sc r
     then (num_available_sk > 0, r\<lparr>timeout := word_of_int delta\<rparr>, num_available_sk)
     else (False, if timeout_start r = 0 then r\<lparr>timeout_start := run_start\<rparr> else r, num_available_sk))"

definition rmptcp_check_avail_sk ::
  "sysctls \<Rightarrow> socks \<Rightarrow> sk_buff \<Rightarrow> ktime \<Rightarrow> redundant_socket_register
     \<Rightarrow> bool \<times> redundant_socket_register" where
  "rmptcp_check_avail_sk sc socks skb run_start r =
     (let delta = delta_send run_start r;
          (r1, num_available_sk, main_available) = avail_loop socks skb run_start 0 r 0 0;
          (go0, r2, n) = avail_decide sc run_start delta (clamp_q_control r1) num_available_sk main_available;
          go = (if n = 0 then False else go0)
      in (go, if go then (rmptcp_setQActual (int n) r2)\<lparr>timeout_start := 0\<rparr> else r2))"

section \<open>The sending period\<close>

text \<open>One step of mean and deviation, with the divisors of the code.\<close>

definition period_upd :: "int \<Rightarrow> int \<Rightarrow> int \<Rightarrow> int \<Rightarrow> int \<Rightarrow> int \<times> int" where
  "period_upd md vd x mean var =
     (let err = s64 (x - mean);
          abs_err = (if err < 0 then s64 (- err) else err);
          err2 = s64 (abs_err - var)
      in (s64 (mean + err sdiv md), s64 (var + err2 sdiv vd)))"

text \<open>The largest normal period.\<close>

definition period_max_upd :: "sysctls \<Rightarrow> ktime \<Rightarrow> redundant_socket_register \<Rightarrow> redundant_socket_register" where
  "period_max_upd sc run_start r =
     (if \<not> has (reg_state r) REDF_Timeout \<and> timeout r = 0
      then (if send_period r > s64 (send_period_max r * 90) sdiv 100 \<and>
               send_period r < s64 (send_period_max r * s32 (100 + sysctl_varperiod_th sc)) sdiv 100
            then let err = s64 (send_period r - send_period_max r)
                 in r\<lparr>send_period_max := s64 (send_period_max r +
                        err sdiv (if effective_byte_count r < 1000000 then 8 else 64)),
                      last_period_max := run_start\<rparr>
            else if ktime_before (ktime_add_ms (last_period_max r) 1000) run_start
            then r\<lparr>send_period_max := s64 (send_period_max r - send_period_max r sdiv 4),
                   last_period_max := run_start\<rparr>
            else r)
      else r)"

definition period_max_limit :: "redundant_socket_register \<Rightarrow> redundant_socket_register" where
  "period_max_limit r =
     (let low = s64 (send_period_mean r + send_period_var r); high = s32 (red_timeout r * 1000);
          m1 = (if send_period_max r < low then low else send_period_max r);
          m2 = (if m1 > high then high else m1);
          m3 = (if m2 < 0 then 1 else m2)
      in r\<lparr>send_period_max := m3\<rparr>)"

definition period_entry :: "redundant_socket_register \<Rightarrow> ktime \<Rightarrow> red_sk \<Rightarrow> red_sk" where
  "period_entry r run_start e =
     (if \<not> has (rs_state e) REDF_SK_Available then e
      else if timeout r = 0 \<or> \<not> has (reg_state r) REDF_Timeout
      then let p = ktime_us_delta run_start (rs_last_used e); e1 = e\<lparr>rs_send_period := p\<rparr>
           in if timeout r = 0
              then (case period_upd 64 64 p (rs_send_period_mean e) (rs_send_period_var e) of
                      (mean, var) \<Rightarrow> e1\<lparr>rs_send_period_mean := mean, rs_send_period_var := var\<rparr>)
              else e1
      else e)"

definition period_measure :: "ktime \<Rightarrow> redundant_socket_register \<Rightarrow> redundant_socket_register" where
  "period_measure run_start r =
     (let p = ktime_us_delta run_start (last_send r);
          (mean, var) = period_upd 32 64 p (send_period_mean r) (send_period_var r);
          r1 = r\<lparr>send_period := p, last_send := run_start, timeout_start := 0,
                 send_period_mean := mean, send_period_var := var\<rparr>
      in if timeout r1 = 0 \<and> has (reg_state r1) REDF_Timeout
         then r1\<lparr>inTime_cnt := inTime_cnt r1 + 1\<rparr> else r1)"

definition rmptcp_calc_sendPeriod ::
  "sysctls \<Rightarrow> ktime \<Rightarrow> redundant_socket_register \<Rightarrow> redundant_socket_register" where
  "rmptcp_calc_sendPeriod sc run_start r =
     (let r1 = period_max_limit (period_max_upd sc run_start (period_measure run_start r))
      in r1\<lparr>sk_list := upd_upto (sk_list_size r1) (\<lambda>_. period_entry r1 run_start) (sk_list r1)\<rparr>)"

section \<open>The loop as filter and map\<close>

definition usable :: "socks \<Rightarrow> sk_buff \<Rightarrow> red_sk \<Rightarrow> bool" where
  "usable socks skb e \<longleftrightarrow>
     rmptcp_is_available (socks (rs_sk e)) (Some skb) False True = 0 \<and> may_use (socks (rs_sk e)) e"

definition avail_keep :: "socks \<Rightarrow> sk_buff \<Rightarrow> u64 \<Rightarrow> ktime \<Rightarrow> red_sk \<Rightarrow> bool" where
  "avail_keep socks skb noshow t e \<longleftrightarrow>
     rmptcp_is_available (socks (rs_sk e)) (Some skb) False True = 0 \<or> \<not> not_seen noshow t e"

definition avail_mark :: "socks \<Rightarrow> sk_buff \<Rightarrow> red_sk \<Rightarrow> red_sk" where
  "avail_mark socks skb e = set_available (usable socks skb e) e"

lemma entries_update:
  "entries (r\<lparr>sk_list := (sk_list r)[i := x]\<rparr>) = (entries r)[i := x]"
  by (simp add: entries_def take_update_swap)

lemma entries_remove:
  assumes "reg_wf r" and "i < sk_list_size r"
  shows "entries (r\<lparr>sk_list := shift_down i (sk_list_size r) ((sk_list r)[i := x]),
      sk_list_size := sk_list_size r - Suc 0\<rparr>) = take i (entries r) @ drop (Suc i) (entries r)"
proof -
  have "sk_list_size r \<le> length ((sk_list r)[i := x])" using assms(1) by (simp add: reg_wf_def)
  from take_shift_down [OF assms(2) this] show ?thesis
    using assms by (simp add: entries_def take_update_swap drop_take min_def list_update_beyond)
qed

lemma drop_entries:
  assumes "reg_wf r" and "i < sk_list_size r"
  shows "drop i (entries r) = sk_list r ! i # drop (Suc i) (entries r)"
  using assms by (simp add: Cons_nth_drop_Suc [symmetric] nth_entries)

lemma take_Suc_update:
  "i < length xs \<Longrightarrow> take (Suc i) (xs[i := x]) = take i xs @ [x]"
  by (simp add: take_Suc_conv_app_nth)

text \<open>What the loop computes from index \<open>i\<close> on, and the one step of it.\<close>

definition avail_spec where
  "avail_spec socks skb t i r n m res \<longleftrightarrow> (case res of (r', n', m') \<Rightarrow>
     reg_wf r' \<and>
     entries r' = take i (entries r) @
       map (avail_mark socks skb) (filter (avail_keep socks skb (max_sk_noshow r) t) (drop i (entries r))) \<and>
     n' = n + length (filter (usable socks skb) (drop i (entries r))) \<and>
     m' = m + length (filter (\<lambda>e. usable socks skb e \<and> has (rs_state e) REDF_SK_Main) (drop i (entries r))) \<and>
     r' = r\<lparr>sk_list := sk_list r', sk_list_size := sk_list_size r'\<rparr>)"

lemma usable_keep: "usable socks skb e \<Longrightarrow> avail_keep socks skb noshow t e"
  by (simp add: usable_def avail_keep_def)

lemma avail_spec_keep:
  assumes wf: "reg_wf r" and i: "i < sk_list_size r"
    and keep: "avail_keep socks skb (max_sk_noshow r) t (sk_list r ! i)"
    and u: "b = usable socks skb (sk_list r ! i)"
    and rec: "avail_spec socks skb t (Suc i)
      (r\<lparr>sk_list := (sk_list r)[i := set_available b (sk_list r ! i)]\<rparr>)
      (if b then Suc n else n)
      (if b \<and> has (rs_state (sk_list r ! i)) REDF_SK_Main then Suc m else m) res"
  shows "avail_spec socks skb t i r n m res"
proof -
  obtain r' n' m' where res: "res = (r', n', m')" by (cases res)
  have len: "i < length (entries r)" using wf i by simp
  show ?thesis
    using rec keep u len unfolding res
    by (auto simp: avail_spec_def entries_update take_Suc_update drop_entries [OF wf i] avail_mark_def)
qed

lemma avail_spec_remove:
  assumes wf: "reg_wf r" and i: "i < sk_list_size r"
    and keep: "\<not> avail_keep socks skb (max_sk_noshow r) t (sk_list r ! i)"
    and rec: "avail_spec socks skb t i
      (r\<lparr>sk_list := shift_down i (sk_list_size r) ((sk_list r)[i := x]),
          sk_list_size := sk_list_size r - Suc 0\<rparr>) n m res"
  shows "avail_spec socks skb t i r n m res"
proof -
  obtain r' n' m' where res: "res = (r', n', m')" by (cases res)
  have "\<not> usable socks skb (sk_list r ! i)" using keep usable_keep by blast
  then show ?thesis
    using rec keep i wf unfolding res
    by (auto simp: avail_spec_def entries_remove [OF wf i] drop_entries [OF wf i])
qed

lemma avail_loop_spec:
  "reg_wf r \<Longrightarrow> i \<le> sk_list_size r \<Longrightarrow> avail_spec socks skb t i r n m (avail_loop socks skb t i r n m)"
proof (induction socks skb t i r n m rule: avail_loop.induct)
  case (1 socks skb t i r n m)
  let ?e = "sk_list r ! i"
  show ?case
  proof (cases "i < sk_list_size r")
    case False
    then show ?thesis using "1.prems" by (simp add: avail_loop.simps avail_spec_def)
  next
    case True
    consider (gone) "rmptcp_is_available (socks (rs_sk ?e)) (Some skb) False True \<noteq> 0" "not_seen (max_sk_noshow r) t ?e"
      | (out) "rmptcp_is_available (socks (rs_sk ?e)) (Some skb) False True \<noteq> 0" "\<not> not_seen (max_sk_noshow r) t ?e"
      | (use) "rmptcp_is_available (socks (rs_sk ?e)) (Some skb) False True = 0" "may_use (socks (rs_sk ?e)) ?e"
      | (no) "rmptcp_is_available (socks (rs_sk ?e)) (Some skb) False True = 0" "\<not> may_use (socks (rs_sk ?e)) ?e"
      by blast
    then show ?thesis
    proof cases
      case gone
      then have "avail_loop socks skb t i r n m = avail_loop socks skb t i
          (r\<lparr>sk_list := shift_down i (sk_list_size r) ((sk_list r)[i := set_available False ?e]),
             sk_list_size := sk_list_size r - Suc 0\<rparr>) n m"
        using True by (simp add: avail_loop.simps [of _ _ _ i r] Let_def)
      then show ?thesis
        using gone True "1.prems" "1.IH"(1) [OF True refl refl gone(1) refl gone(2)]
        by (auto intro!: avail_spec_remove [OF "1.prems"(1) True, where x = "set_available False ?e"] simp: avail_keep_def reg_wf_def)
    next
      case out
      then have "avail_loop socks skb t i r n m = avail_loop socks skb t (Suc i)
          (r\<lparr>sk_list := (sk_list r)[i := set_available False ?e]\<rparr>) n m"
        using True by (simp add: avail_loop.simps [of _ _ _ i r] Let_def)
      then show ?thesis
        using out True "1.prems" "1.IH"(2) [OF True refl refl out(1) refl out(2)]
        by (auto intro!: avail_spec_keep [OF "1.prems"(1) True, where b = False]
            simp: avail_keep_def usable_def reg_wf_def)
    next
      case use
      then have "avail_loop socks skb t i r n m = avail_loop socks skb t (Suc i)
          (r\<lparr>sk_list := (sk_list r)[i := set_available True ?e]\<rparr>) (Suc n)
          (if has (rs_state ?e) REDF_SK_Main then Suc m else m)"
        using True by (simp add: avail_loop.simps [of _ _ _ i r] Let_def)
      then show ?thesis
        using use True "1.prems" "1.IH"(3) [OF True refl refl _ use(2)]
        by (auto intro!: avail_spec_keep [OF "1.prems"(1) True, where b = True]
            simp: avail_keep_def usable_def reg_wf_def)
    next
      case no
      then have "avail_loop socks skb t i r n m = avail_loop socks skb t (Suc i)
          (r\<lparr>sk_list := (sk_list r)[i := set_available False ?e]\<rparr>) n m"
        using True by (simp add: avail_loop.simps [of _ _ _ i r] Let_def)
      then show ?thesis
        using no True "1.prems" "1.IH"(4) [OF True refl refl _ no(2)]
        by (auto intro!: avail_spec_keep [OF "1.prems"(1) True, where b = False]
            simp: avail_keep_def usable_def reg_wf_def)
    qed
  qed
qed

section \<open>Removal of extra subflows\<close>

definition available :: "redundant_socket_register \<Rightarrow> nat \<Rightarrow> bool" where
  "available r i \<longleftrightarrow> has (st r i) REDF_SK_Available"

definition num_available :: "redundant_socket_register \<Rightarrow> nat" where
  "num_available r = count_upto (sk_list_size r) (available r)"

definition num_avail_main :: "redundant_socket_register \<Rightarrow> nat" where
  "num_avail_main r = count_upto (sk_list_size r) (avail_main r)"

lemma avail_main_iff: "avail_main r i \<longleftrightarrow> available r i \<and> has (st r i) REDF_SK_Main"
  unfolding avail_main_def available_def by (rule and_or_single) (simp_all add: flag_simps)

lemma set_available_state: "has (rs_state (set_available b e)) REDF_SK_Available \<longleftrightarrow> b"
  "rs_sk (set_available b e) = rs_sk e"
  "single f \<Longrightarrow> f \<noteq> REDF_SK_Available \<Longrightarrow> has (rs_state (set_available b e)) f \<longleftrightarrow> has (rs_state e) f"
  by (auto simp: set_available_def flag_simps)

text \<open>What the removal may do: withdraw available main subflows, nothing else.\<close>

definition withdraw :: "nat set \<Rightarrow> redundant_socket_register \<Rightarrow> redundant_socket_register" where
  "withdraw S r = r\<lparr>sk_list := upd_upto (sk_list_size r)
     (\<lambda>i e. if i \<in> S then set_available False e else e) (sk_list r)\<rparr>"

lemma withdraw_simps [simp]:
  "sk_list_size (withdraw S r) = sk_list_size r" "reg_wf (withdraw S r) = reg_wf r"
  by (simp_all add: withdraw_def reg_wf_def)

lemma nth_withdraw:
  "reg_wf r \<Longrightarrow> i < sk_list_size r \<Longrightarrow>
   sk_list (withdraw S r) ! i = (if i \<in> S then set_available False (sk_list r ! i) else sk_list r ! i)"
  by (simp add: withdraw_def loop_simps reg_wf_size)

lemma set_available_twice: "set_available False (set_available False e) = set_available False e"
  by (simp add: set_available_def)

lemma withdraw_withdraw: "withdraw S (withdraw T r) = withdraw (S \<union> T) r"
proof -
  have "sk_list (withdraw S (withdraw T r)) = sk_list (withdraw (S \<union> T) r)"
    by (rule nth_equalityI) (auto simp: withdraw_def loop_simps set_available_twice)
  then show ?thesis by (simp add: withdraw_def)
qed

lemma withdraw_empty: "withdraw {} r = r"
proof -
  have "sk_list (withdraw {} r) = sk_list r" by (rule nth_equalityI) (auto simp: withdraw_def loop_simps)
  then show ?thesis by (simp add: withdraw_def)
qed

lemma withdraw_one:
  assumes "reg_wf r" and "k < sk_list_size r"
  shows "r\<lparr>sk_list := (sk_list r)[k := set_available False (sk_list r ! k)]\<rparr> = withdraw {k} r"
proof -
  have "(sk_list r)[k := set_available False (sk_list r ! k)] = sk_list (withdraw {k} r)"
    using assms by (intro nth_equalityI) (auto simp: withdraw_def loop_simps nth_list_update)
  then show ?thesis by (simp add: withdraw_def)
qed

lemma withdraw_available:
  "reg_wf r \<Longrightarrow> i < sk_list_size r \<Longrightarrow> available (withdraw S r) i \<longleftrightarrow> available r i \<and> i \<notin> S"
  by (simp add: available_def nth_withdraw set_available_state)

lemma withdraw_flag:
  "reg_wf r \<Longrightarrow> i < sk_list_size r \<Longrightarrow> single f \<Longrightarrow> f \<noteq> REDF_SK_Available \<Longrightarrow>
   has (st (withdraw S r) i) f \<longleftrightarrow> has (st r i) f"
  by (simp add: nth_withdraw set_available_state)

lemma withdraw_avail_main:
  "reg_wf r \<Longrightarrow> i < sk_list_size r \<Longrightarrow> avail_main (withdraw S r) i \<longleftrightarrow> avail_main r i \<and> i \<notin> S"
  by (auto simp: avail_main_iff withdraw_available withdraw_flag flag_simps)

lemma latest_main_ok:
  assumes "num_avail_main r > 0"
  shows "\<exists>k. latest_main r l = Some k \<and> k < sk_list_size r \<and> avail_main r k"
proof -
  obtain k where k: "first_idx (sk_list_size r) (avail_main r) = Some k"
    using assms first_idx_None [of "sk_list_size r" "avail_main r"]
    by (auto simp: num_avail_main_def count_upto_pos)
  have start: "k < sk_list_size r \<and> avail_main r k" using first_idx_Some [OF k] by blast
  let ?f = "\<lambda>i l. if avail_main r i \<and>
         ktime_before (rs_last_used (sk_list r ! l)) (rs_last_used (sk_list r ! i)) then i else l"
  have "fold ?f [Suc k..<sk_list_size r] k < sk_list_size r \<and>
      avail_main r (fold ?f [Suc k..<sk_list_size r] k)"
    by (rule fold_invariant [where Q = "\<lambda>i. i < sk_list_size r" and
          P = "\<lambda>l. l < sk_list_size r \<and> avail_main r l"]) (use start in auto)
  then show ?thesis by (simp add: latest_main_def k)
qed

text \<open>The loop withdraws main subflows until the number fits, and leaves at least one.\<close>

definition kick_spec where
  "kick_spec q r n m res \<longleftrightarrow> (case res of (r', n', m') \<Rightarrow>
     (\<exists>S. S \<subseteq> {i. i < sk_list_size r \<and> avail_main r i} \<and> r' = withdraw S r) \<and>
     n' = num_available r' \<and> m' = num_avail_main r' \<and> n' \<le> n \<and>
     (min q n \<le> n') \<and> (n' \<le> q \<or> m' \<le> 1) \<and> (0 < m \<longrightarrow> 0 < m'))"

lemma kick_spec_step:
  assumes wf: "reg_wf r" and k: "k < sk_list_size r" "avail_main r k" and n: "q < n" "1 < m"
    and cnt: "n = num_available r" "m = num_avail_main r"
    and rec: "kick_spec q (withdraw {k} r) (n - 1) (m - 1) res"
  shows "kick_spec q r n m res"
proof -
  obtain r' n' m' where res: "res = (r', n', m')" by (cases res)
  note spec = rec [unfolded kick_spec_def res prod.case withdraw_simps]
  from spec obtain S where S: "S \<subseteq> {i. i < sk_list_size r \<and> avail_main (withdraw {k} r) i}"
    "r' = withdraw S (withdraw {k} r)" by blast
  have "S \<subseteq> {i. i < sk_list_size r \<and> avail_main r i}" using S(1) wf by (auto simp: withdraw_avail_main)
  then have "S \<union> {k} \<subseteq> {i. i < sk_list_size r \<and> avail_main r i}" using k by auto
  moreover have "r' = withdraw (S \<union> {k}) r" by (simp only: S(2) withdraw_withdraw)
  ultimately have "\<exists>S. S \<subseteq> {i. i < sk_list_size r \<and> avail_main r i} \<and> r' = withdraw S r" by blast
  moreover have "n' = num_available r'" "m' = num_avail_main r'" "n' \<le> n" "min q n \<le> n'"
    "n' \<le> q \<or> m' \<le> 1" "0 < m'"
    using spec n by linarith+
  ultimately show ?thesis unfolding kick_spec_def res prod.case by blast
qed

lemma withdraw_counts:
  assumes "reg_wf r" and "k < sk_list_size r" and "avail_main r k"
  shows "num_available (withdraw {k} r) = num_available r - 1"
    and "num_avail_main (withdraw {k} r) = num_avail_main r - 1"
  unfolding num_available_def num_avail_main_def withdraw_simps
  using assms(3) withdraw_available [OF assms(1)] withdraw_avail_main [OF assms(1)]
  by (auto intro!: count_upto_remove [OF assms(2)] simp: avail_main_iff [of r k] simp del: One_nat_def)

lemma kick_ok:
  "reg_wf r \<Longrightarrow> n = num_available r \<Longrightarrow> m = num_avail_main r \<Longrightarrow> kick_spec q r n m (kick q r n m l)"
proof (induction q r n m l rule: kick.induct)
  case (1 q r n m l)
  show ?case
  proof (cases "q < n \<and> 1 < m")
    case False
    then have "kick q r n m l = (r, n, m)" by (subst kick.simps) auto
    moreover have "\<exists>S. S \<subseteq> {i. i < sk_list_size r \<and> avail_main r i} \<and> r = withdraw S r"
      by (rule exI [of _ "{}"]) (simp add: withdraw_empty)
    moreover have "n \<le> q \<or> m \<le> 1" using False by linarith
    ultimately show ?thesis using "1.prems" by (simp add: kick_spec_def)
  next
    case True
    then obtain k where k: "latest_main r l = Some k" "k < sk_list_size r" "avail_main r k"
      using latest_main_ok "1.prems"(3) by (metis less_trans zero_less_one)
    have r1: "r\<lparr>sk_list := (sk_list r)[k := set_available False (sk_list r ! k)]\<rparr> = withdraw {k} r"
      by (rule withdraw_one [OF "1.prems"(1) k(2)])
    have cnt: "n - 1 = num_available (withdraw {k} r)" "m - 1 = num_avail_main (withdraw {k} r)"
      using withdraw_counts [OF "1.prems"(1) k(2,3)] "1.prems"(2,3) by simp_all
    have "kick q r n m l = kick q (withdraw {k} r) (n - 1) (m - 1) (Some k)"
      using True k(1) r1 by (subst kick.simps) simp
    moreover have "kick_spec q (withdraw {k} r) (n - 1) (m - 1) (kick q (withdraw {k} r) (n - 1) (m - 1) (Some k))"
      using "1.IH" [OF True k(1)] "1.prems"(1) cnt unfolding r1 by simp
    ultimately show ?thesis
      using kick_spec_step [OF "1.prems"(1) k(2,3) _ _ "1.prems"(2,3)] True by simp
  qed
qed

section \<open>The register after the loop\<close>

lemma avail_mark_state:
  "has (rs_state (avail_mark socks skb e)) REDF_SK_Available \<longleftrightarrow> usable socks skb e"
  "rs_sk (avail_mark socks skb e) = rs_sk e"
  "single f \<Longrightarrow> f \<noteq> REDF_SK_Available \<Longrightarrow> has (rs_state (avail_mark socks skb e)) f \<longleftrightarrow> has (rs_state e) f"
  by (simp_all add: avail_mark_def set_available_state)

lemma usable_mark: "usable socks skb (avail_mark socks skb e) \<longleftrightarrow> usable socks skb e"
  by (simp add: usable_def may_use_def avail_mark_state flag_simps)

lemma keep_usable [simp]:
  "avail_keep socks skb ns t e \<and> usable socks skb e \<longleftrightarrow> usable socks skb e"
  "avail_keep socks skb ns t e \<and> usable socks skb e \<and> P \<longleftrightarrow> usable socks skb e \<and> P"
  using usable_keep by blast+

lemma avail_loop_result:
  assumes wf: "reg_wf r" and res: "avail_loop socks skb t 0 r 0 0 = (r1, n, m)"
  shows "reg_wf r1"
    and "entries r1 = map (avail_mark socks skb) (filter (avail_keep socks skb (max_sk_noshow r) t) (entries r))"
    and "r1 = r\<lparr>sk_list := sk_list r1, sk_list_size := sk_list_size r1\<rparr>"
    and "n = num_available r1" and "m = num_avail_main r1"
    and "i < sk_list_size r1 \<Longrightarrow> available r1 i \<longleftrightarrow> usable socks skb (sk_list r1 ! i)"
proof -
  let ?u = "usable socks skb"
  note spec = avail_loop_spec [OF wf le0, of socks skb t 0 0, unfolded res avail_spec_def prod.case, simplified]
  show wf1: "reg_wf r1" and ent: "entries r1 = map (avail_mark socks skb)
      (filter (avail_keep socks skb (max_sk_noshow r) t) (entries r))"
    and "r1 = r\<lparr>sk_list := sk_list r1, sk_list_size := sk_list_size r1\<rparr>"
    using spec by simp_all
  have mem: "\<exists>e. sk_list r1 ! i = avail_mark socks skb e" if "i < sk_list_size r1" for i
  proof -
    have "sk_list r1 ! i \<in> set (entries r1)" using in_set_entries [OF wf1] that by blast
    then show ?thesis unfolding ent by auto
  qed
  show av: "available r1 i \<longleftrightarrow> ?u (sk_list r1 ! i)" if "i < sk_list_size r1" for i
    using mem [OF that] by (auto simp: available_def avail_mark_state usable_mark)
  have len: "sk_list_size r1 = length (entries r1)" using wf1 by simp
  have "num_available r1 = length (filter ?u (entries r1))"
    unfolding num_available_def by (rule count_upto_filter [OF len]) (simp add: av nth_entries wf1)
  then show "n = num_available r1"
    using spec by (simp add: ent filter_map comp_def usable_mark)
  have "num_avail_main r1 = length (filter (\<lambda>e. ?u e \<and> has (rs_state e) REDF_SK_Main) (entries r1))"
    unfolding num_avail_main_def
    by (rule count_upto_filter [OF len]) (simp add: av avail_main_iff nth_entries wf1)
  then show "m = num_avail_main r1"
    using spec by (simp add: ent filter_map comp_def usable_mark avail_mark_state flag_simps)
qed

lemma available_q_control [simp]:
  "available (r\<lparr>q_control := q\<rparr>) = available r" "avail_main (r\<lparr>q_control := q\<rparr>) = avail_main r"
  by (simp_all add: fun_eq_iff available_def avail_main_def)

lemma clamp_simps [simp]:
  "sk_list (clamp_q_control r) = sk_list r" "sk_list_size (clamp_q_control r) = sk_list_size r"
  "entries (clamp_q_control r) = entries r" "reg_wf (clamp_q_control r) = reg_wf r"
  "num_available (clamp_q_control r) = num_available r"
  "num_avail_main (clamp_q_control r) = num_avail_main r"
  "reg_state (clamp_q_control r) = reg_state r"
  by (simp_all add: clamp_q_control_def Let_def entries_def reg_wf_def num_available_def num_avail_main_def)

lemma usable_set_available [simp]: "usable socks skb (set_available b e) \<longleftrightarrow> usable socks skb e"
  by (simp add: usable_def may_use_def set_available_state flag_simps)

lemma same_list:
  assumes "sk_list r' = sk_list r" and "sk_list_size r' = sk_list_size r"
  shows "num_available r' = num_available r" "num_avail_main r' = num_avail_main r"
    "available r' = available r" "entries r' = entries r" "reg_wf r' = reg_wf r"
proof -
  show a: "available r' = available r" using assms by (simp add: fun_eq_iff available_def)
  have m: "avail_main r' = avail_main r" using assms by (simp add: fun_eq_iff avail_main_def)
  show "num_available r' = num_available r" "num_avail_main r' = num_avail_main r"
    using assms a m by (simp_all add: num_available_def num_avail_main_def)
qed (use assms in \<open>simp_all add: entries_def reg_wf_def\<close>)

text \<open>What the decision does with the entries: it withdraws some available main subflows.  And what it decides: to send
  when enough subflows are available, one of them a main one, or when the time-out of the present state has passed.\<close>

definition time_out_passed :: "sysctls \<Rightarrow> ktime \<Rightarrow> redundant_socket_register \<Rightarrow> bool" where
  "time_out_passed sc t r \<longleftrightarrow>
     (if has (reg_state r) REDF_Cong then delta_send t r > cong_timeout sc r else delta_send t r > normal_timeout sc r)"

lemma decide_ok:
  assumes wf: "reg_wf r" and n: "n = num_available r" and m: "m = num_avail_main r"
    and res: "avail_decide sc t d r n m = (go, r', n')"
  shows "\<exists>S. sk_list r' = sk_list (withdraw S r) \<and> sk_list_size r' = sk_list_size r \<and>
      q_control r' = q_control r \<and> n' = num_available r' \<and> (sysctl_enable_kick sc = 0 \<longrightarrow> S = {}) \<and>
      S \<subseteq> {i. i < sk_list_size r \<and> avail_main r i} \<and>
      (unat (q_control r) \<le> n \<and> 0 < m \<longrightarrow> go \<and> unat (q_control r) \<le> n' \<and> 0 < num_avail_main r' \<and>
         (sysctl_enable_kick sc \<noteq> 0 \<longrightarrow> n' = unat (q_control r) \<or> num_avail_main r' = 1))"
proof (cases "unat (q_control r) \<le> n \<and> 0 < m")
  case enough: True
  show ?thesis
  proof (cases "sysctl_enable_kick sc = 0")
    case True
    then show ?thesis using res enough n m
      by (intro exI [of _ "{}"]) (auto simp: avail_decide_def withdraw_empty)
  next
    case False
    obtain r2 n2 m2 where k: "kick (unat (q_control r)) r n m None = (r2, n2, m2)"
      by (cases "kick (unat (q_control r)) r n m None")
    then have eq: "go" "r' = r2" "n' = n2" using res enough False by (simp_all add: avail_decide_def)
    note spec = kick_ok [OF wf n m, of "unat (q_control r)" None, unfolded k kick_spec_def prod.case]
    from spec obtain S where S: "S \<subseteq> {i. i < sk_list_size r \<and> avail_main r i}" "r' = withdraw S r" unfolding eq by blast
    have "unat (q_control r) \<le> n'" "n' = num_available r'" "0 < num_avail_main r'"
      "n' = unat (q_control r) \<or> num_avail_main r' = 1"
      using spec enough unfolding eq by linarith+
    moreover have "sk_list r' = sk_list (withdraw S r)" "sk_list_size r' = sk_list_size r"
      "q_control r' = q_control r" by (simp_all add: S(2) withdraw_def)
    ultimately show ?thesis using False eq(1) S(1) by (intro exI [of _ S]) simp
  qed
next
  case False
  have "sk_list r' = sk_list r" "sk_list_size r' = sk_list_size r" "q_control r' = q_control r" "n' = n"
    using res False by (auto simp: avail_decide_def split: if_splits)
  moreover from this have "num_available r' = num_available r"
    by (intro same_list(1))
  ultimately show ?thesis using False n by (intro exI [of _ "{}"]) (auto simp: withdraw_empty)
qed

lemma decide_when:
  assumes res: "avail_decide sc t (delta_send t r) r n m = (go, r', n')" and n': "n' = 0 \<longleftrightarrow> n = 0"
  shows "go \<and> n' \<noteq> 0 \<longleftrightarrow> 0 < n \<and> (unat (q_control r) \<le> n \<and> 0 < m \<or> time_out_passed sc t r)"
  using assms by (auto simp: avail_decide_def time_out_passed_def split: if_splits prod.splits)

lemma decide_clock:
  assumes res: "avail_decide sc t d r n m = (go, r', n')" and "\<not> (unat (q_control r) \<le> n \<and> 0 < m)"
  shows "timeout_start r' = (if timeout_start r = 0 \<and> \<not> (if has (reg_state r) REDF_Cong then d > cong_timeout sc r \<and> 0 < n else d > normal_timeout sc r)
      then t else timeout_start r)"
    and "timeout r' = (if \<not> has (reg_state r) REDF_Cong \<and> d > normal_timeout sc r then word_of_int d else timeout r)"
  using assms by (auto simp: avail_decide_def split: if_splits)

lemma entries_withdraw_sks: "reg_wf r \<Longrightarrow> reg_sks (withdraw S r) = reg_sks r"
  unfolding withdraw_def by (rule reg_sks_upd_upto) (simp_all add: set_available_state)

section \<open>Properties\<close>

text \<open>C4. The choice of subflows for a segment.  Only entries that are unavailable and were not used
  for a long time leave the list, the others keep their order; only usable subflows are marked
  available, all of them when no extra subflow is removed, and otherwise all but some main ones.  The control
  value is limited to the number of enabled subflows and is at least 1.  The segment is sent exactly when some subflow is usable and
  either the number of usable subflows reaches the control value with a main subflow among them, or
  the time since the segment was first held back is above the time-out, that of the congested state when the
  register is congested and the normal one otherwise.  In the first case it is sent on at least as many subflows as the control value and on a main
  subflow; with removal enabled on exactly that number, unless only one main subflow is left.  When the segment is sent the
  clock of the time-out stops; when it is not, the clock starts, unless it runs or a normal time-out has passed without any usable subflow.\<close>

theorem rmptcp_check_avail_sk_selects:
  assumes wf: "reg_wf r" and res: "rmptcp_check_avail_sk sc socks skb t r = (go, r')"
    and n: "n = length (filter (usable socks skb) (entries r))"
    and enough: "enough \<longleftrightarrow> unat (q_control r') \<le> n \<and> (\<exists>e \<in> set (entries r). usable socks skb e \<and> has (rs_state e) REDF_SK_Main)"
  shows "reg_wf r' \<and>
    reg_sks r' = map rs_sk (filter (avail_keep socks skb (max_sk_noshow r) t) (entries r)) \<and>
    (\<forall>i < sk_list_size r'. available r' i \<longrightarrow> usable socks skb (sk_list r' ! i)) \<and>
    (\<forall>i < sk_list_size r'. usable socks skb (sk_list r' ! i) \<and> (sysctl_enable_kick sc = 0 \<or> \<not> has (st r' i) REDF_SK_Main) \<longrightarrow> available r' i) \<and>
    q_control r' = max 1 (min (q_control r) (num_enabled r)) \<and>
    (go \<longleftrightarrow> 0 < n \<and> (enough \<or> (if has (reg_state r) REDF_Cong then delta_send t r > cong_timeout sc r else delta_send t r > normal_timeout sc r))) \<and>
    (go \<longrightarrow> 0 < num_available r') \<and>
    (enough \<longrightarrow> go \<and> unat (q_control r') \<le> num_available r' \<and> 0 < num_avail_main r' \<and>
       (sysctl_enable_kick sc \<noteq> 0 \<longrightarrow>
          num_available r' = unat (q_control r') \<or> num_avail_main r' = 1)) \<and>
    timeout_start r' = (if go then 0
      else if timeout_start r = 0 \<and> \<not> (\<not> has (reg_state r) REDF_Cong \<and> delta_send t r > normal_timeout sc r) then t else timeout_start r)"
proof -
  obtain r1 n1 m where loop: "avail_loop socks skb t 0 r 0 0 = (r1, n1, m)"
    by (cases "avail_loop socks skb t 0 r 0 0")
  note l = avail_loop_result [OF wf loop]
  let ?r1 = "clamp_q_control r1"
  obtain go0 r2 n2 where dec: "avail_decide sc t (delta_send t r) ?r1 n1 m = (go0, r2, n2)"
    by (cases "avail_decide sc t (delta_send t r) ?r1 n1 m")
  have wf1: "reg_wf ?r1" using l(1) by simp
  have av1: "num_available ?r1 = n1" "num_avail_main ?r1 = m" using l(4,5) by simp_all
  obtain S where S: "sk_list r2 = sk_list (withdraw S ?r1)" "sk_list_size r2 = sk_list_size ?r1"
      "q_control r2 = q_control ?r1" "n2 = num_available r2" "sysctl_enable_kick sc = 0 \<longrightarrow> S = {}"
      "S \<subseteq> {i. i < sk_list_size ?r1 \<and> avail_main ?r1 i}"
    and sent: "unat (q_control ?r1) \<le> n1 \<and> 0 < m \<longrightarrow> go0 \<and> unat (q_control ?r1) \<le> n2 \<and>
      0 < num_avail_main r2 \<and>
      (sysctl_enable_kick sc \<noteq> 0 \<longrightarrow> n2 = unat (q_control ?r1) \<or> num_avail_main r2 = 1)"
    using decide_ok [OF wf1 _ _ dec] av1 by auto
  have r1: "reg_state r1 = reg_state r" "timeout_start r1 = timeout_start r" "send_period_max r1 = send_period_max r"
    "q_control r1 = q_control r" "num_enabled r1 = num_enabled r"
    by (subst l(3); simp)+
  have one: "1 \<le> w \<longleftrightarrow> w \<noteq> 0" "0 < w \<longleftrightarrow> w \<noteq> 0" for w :: u32
    by (simp_all add: word_le_nat_alt Suc_le_eq unat_gt_0 word_gt_0)
  have cl: "delta_send t ?r1 = delta_send t r" "timeout_start ?r1 = timeout_start r"
    "cong_timeout sc ?r1 = cong_timeout sc r" "normal_timeout sc ?r1 = normal_timeout sc r" "reg_state ?r1 = reg_state r"
    "q_control ?r1 = max 1 (min (q_control r) (num_enabled r))"
    using r1 by (auto simp: delta_send_def clamp_q_control_def cong_timeout_def normal_timeout_def Let_def max_def min_def one)
  have fin: "sk_list r' = sk_list r2" "sk_list_size r' = sk_list_size r2" "q_control r' = q_control r2"
    "go \<longleftrightarrow> n2 \<noteq> 0 \<and> go0" "timeout_start r' = (if go then 0 else timeout_start r2)"
    using res loop dec by (auto simp: rmptcp_check_avail_sk_def rmptcp_setQActual_def Let_def split: if_splits)
  have w: "sk_list r' = sk_list (withdraw S ?r1)" "sk_list_size r' = sk_list_size (withdraw S ?r1)"
    using S fin by simp_all
  note same = same_list [OF w] and same2 = same_list [OF fin(1,2)]
  have n1: "n1 = n" using avail_loop_spec [OF wf le0, of socks skb t 0 0] by (simp add: loop avail_spec_def n)
  have m: "0 < m \<longleftrightarrow> (\<exists>e \<in> set (entries r). usable socks skb e \<and> has (rs_state e) REDF_SK_Main)"
    using avail_loop_spec [OF wf le0, of socks skb t 0 0] by (auto simp: loop avail_spec_def filter_empty_conv)
  have en: "enough \<longleftrightarrow> unat (q_control ?r1) \<le> n1 \<and> 0 < m" using enough n1 m fin(3) S(3) by simp
  have q0: "q_control ?r1 \<noteq> 0" "unat (q_control ?r1) \<noteq> 0" by (simp_all add: clamp_q_control_def Let_def unat_eq_zero)
  have pos: "n2 = 0 \<longleftrightarrow> n1 = 0"
  proof (cases enough)
    case True
    then show ?thesis using sent en q0 by (metis le_zero_eq unsigned_eq_0_iff)
  next
    case False
    then show ?thesis using dec en by (auto simp: avail_decide_def split: if_splits)
  qed
  have go: "go \<longleftrightarrow> 0 < n \<and> (enough \<or> time_out_passed sc t ?r1)"
    using decide_when [of sc t ?r1 n1 m go0 r2 n2] dec pos fin(4) en n1 cl(1) by auto
  have tp: "time_out_passed sc t ?r1 \<longleftrightarrow>
      (if has (reg_state r) REDF_Cong then delta_send t r > cong_timeout sc r else delta_send t r > normal_timeout sc r)"
    by (simp only: time_out_passed_def cl)
  have clock: "timeout_start r2 = (if timeout_start r = 0 \<and> \<not> (\<not> has (reg_state r) REDF_Cong \<and> delta_send t r > normal_timeout sc r)
      then t else timeout_start r)" if "\<not> go"
  proof -
    have ne: "\<not> enough" using that sent en pos q0 fin(4) by (metis le_zero_eq unsigned_eq_0_iff)
    have "\<not> (delta_send t r > cong_timeout sc r \<and> 0 < n1 \<and> has (reg_state r) REDF_Cong)"
      using that go tp n1 by auto
    then show ?thesis using decide_clock(1) [OF dec] ne en unfolding cl by auto
  qed
  have av: "available r' i \<longleftrightarrow> usable socks skb (sk_list r' ! i) \<and> i \<notin> S"
    if "i < sk_list_size r'" for i
  proof -
    have i: "i < sk_list_size r1" using that w by simp
    have "available ?r1 = available r1" by (rule same_list(3)) simp_all
    then show ?thesis using withdraw_available [OF wf1, of i S] nth_withdraw [OF wf1, of i S] i l(6) [OF i]
      by (auto simp: same(3) w(1))
  qed
  have main: "has (st r' i) REDF_SK_Main" if "i < sk_list_size r'" "i \<in> S" for i
    using S(6) that nth_withdraw [OF wf1, of i S] w by (auto simp: avail_main_iff set_available_state flag_simps)
  have "reg_wf r'" using wf1 by (simp add: same)
  moreover have "reg_sks r' = map rs_sk (filter (avail_keep socks skb (max_sk_noshow r) t) (entries r))"
    using entries_withdraw_sks [OF wf1, of S] l(2)
    by (simp add: reg_sks_def same comp_def avail_mark_state)
  moreover have "0 < num_available r'" if go
    using fin(4) S(4) that by (simp add: same2(1))
  moreover have "\<forall>i < sk_list_size r'. usable socks skb (sk_list r' ! i) \<and> (sysctl_enable_kick sc = 0 \<or> \<not> has (st r' i) REDF_SK_Main) \<longrightarrow> available r' i"
    using av main S(5) by blast
  moreover have "enough \<longrightarrow> go \<and> unat (q_control r') \<le> num_available r' \<and> 0 < num_avail_main r' \<and>
       (sysctl_enable_kick sc \<noteq> 0 \<longrightarrow> num_available r' = unat (q_control r') \<or> num_avail_main r' = 1)"
    using sent en S(3,4) fin(3,4) pos q0 by (auto simp: same2)
  moreover have "q_control r' = max 1 (min (q_control r) (num_enabled r))" using S(3) fin(3) cl(6) by simp
  ultimately show ?thesis using av go clock fin(5) unfolding tp by auto
qed

text \<open>The largest normal sending period, from which both time-outs are derived, is between 0 and the
  user's limit in microseconds after every update (at least 1 when the limit overflows), and is at
  least the mean plus the deviation of the period whenever these are within the limit.\<close>

lemma rmptcp_calc_sendPeriod_bounds:
  "let r' = rmptcp_calc_sendPeriod sc t r; high = s32 (red_timeout r * 1000);
       low = s64 (send_period_mean r' + send_period_var r')
   in 0 \<le> send_period_max r' \<and> send_period_max r' \<le> max 1 high \<and>
      (low \<le> high \<longrightarrow> low \<le> send_period_max r')"
proof -
  have mid: "let r' = period_max_limit r2
    in 0 \<le> send_period_max r' \<and> send_period_max r' \<le> max 1 (s32 (red_timeout r' * 1000)) \<and>
      (s64 (send_period_mean r' + send_period_var r') \<le> s32 (red_timeout r' * 1000) \<longrightarrow>
       s64 (send_period_mean r' + send_period_var r') \<le> send_period_max r')" for r2
    by (simp add: period_max_limit_def Let_def max_def)
  have "red_timeout (period_max_limit (period_max_upd sc t (period_measure t r))) = red_timeout r"
    by (simp add: period_max_limit_def period_max_upd_def period_measure_def Let_def split_beta)
  then show ?thesis using mid [of "period_max_upd sc t (period_measure t r)"]
    by (simp add: rmptcp_calc_sendPeriod_def Let_def)
qed

section \<open>Closed instances\<close>

theorem rmptcp_check_avail_sk_selects_witness:
  "\<exists>go r'. rmptcp_check_avail_sk sample_sysctls (\<lambda>_. sample_sock) sample_skb 7 sample_reg = (go, r') \<and>
     reg_wf r' \<and> (go \<longrightarrow> 0 < num_available r')"
proof -
  obtain go r' where res: "rmptcp_check_avail_sk sample_sysctls (\<lambda>_. sample_sock) sample_skb 7 sample_reg = (go, r')"
    by (cases "rmptcp_check_avail_sk sample_sysctls (\<lambda>_. sample_sock) sample_skb 7 sample_reg")
  have "reg_wf sample_reg" using sample_reg_inv by (rule reg_inv_wf)
  from rmptcp_check_avail_sk_selects [OF this res refl refl] res show ?thesis by blast
qed

lemma rmptcp_calc_sendPeriod_bounds_witness:
  "0 \<le> send_period_max (rmptcp_calc_sendPeriod sample_sysctls 7 sample_reg)"
  using rmptcp_calc_sendPeriod_bounds [of sample_sysctls 7 sample_reg] by (simp add: Let_def)

end
