(* ===== verification/Red_Failure.thy ===== *)
theory Red_Failure
  imports Red_Register
begin

text \<open>
  Failure detection of rMPTCP (\<open>rmptcp_check_failure\<close> and the state changes it uses, in
  \<open>net/mptcp/rmptcp.c\<close>): the state machine of the connection over the states open, timeout,
  congestion and recovery.  The abstract machine is the relation \<open>red_step\<close>; the code is
  shown to refine it.
\<close>

section \<open>Changes to the congestion state\<close>

definition rmptcp_statechange_cong ::
  "nat \<Rightarrow> ktime \<Rightarrow> redundant_socket_register \<Rightarrow> redundant_socket_register option" where
  "rmptcp_statechange_cong subflow run_start r =
     (if MAX_NUM_RED_SK \<le> subflow then None
      else Some (r\<lparr>reg_state := REDF_Cong, cong_flag := 1, last_ca_state := run_start,
             sk_list := (sk_list r)[subflow :=
               (sk_list r ! subflow)\<lparr>rs_state := setf (rs_state (sk_list r ! subflow)) REDF_SK_Cong\<rparr>]\<rparr>))"

definition S64_MAX :: int where "S64_MAX = 2 ^ 63 - 1"

text \<open>When an entry that is enabled but not available should have been available again.\<close>

definition sk_next_use :: "sysctls \<Rightarrow> red_sk \<Rightarrow> int" where
  "sk_next_use sc e = s64 (ktime_to_us (rs_last_used e) + rs_send_period_mean e +
     s64 (s32 (100 + sysctl_varperiod_th sc) * rs_send_period_var e) sdiv 100)"

definition unavailable_enabled :: "red_sk \<Rightarrow> bool" where
  "unavailable_enabled e \<longleftrightarrow>
     has (rs_state e) REDF_SK_Enabled \<and> \<not> has (rs_state e) REDF_SK_Available"

text \<open>The index of the first minimum of a measure over the unavailable enabled entries.\<close>

definition earliest ::
  "(red_sk \<Rightarrow> int) \<Rightarrow> redundant_socket_register \<Rightarrow> int \<times> nat \<Rightarrow> int \<times> nat" where
  "earliest f r start = fold (\<lambda>i (sk_timeout, sk_event_i).
      let e = sk_list r ! i
      in if unavailable_enabled e \<and> sk_timeout > f e then (f e, i) else (sk_timeout, sk_event_i))
    [0..<sk_list_size r] start"

definition rmptcp_statechange_timeout2cong ::
  "sysctls \<Rightarrow> ktime \<Rightarrow> redundant_socket_register \<Rightarrow> redundant_socket_register option" where
  "rmptcp_statechange_timeout2cong sc run_start r =
     (let first = earliest (sk_next_use sc) r (S64_MAX, 0);
          found = (if fst first = S64_MAX then earliest (\<lambda>e. ktime_to_us (rs_last_used e)) r first
                   else first)
      in rmptcp_statechange_cong (snd found) run_start r)"

definition rmptcp_statechange_event2cong ::
  "nat \<Rightarrow> ktime \<Rightarrow> redundant_socket_register \<Rightarrow> redundant_socket_register option" where
  "rmptcp_statechange_event2cong sk_event_i run_start r =
     rmptcp_statechange_cong sk_event_i run_start r"

section \<open>The scan for congestion events\<close>

text \<open>The enabled subflow with the highest congestion state from recovery upwards, first one wins;
  \<open>TCP_CA_Open\<close> (0) when there is none.\<close>

definition scan_event :: "socks \<Rightarrow> redundant_socket_register \<Rightarrow> ca_state \<times> nat" where
  "scan_event socks r = fold (\<lambda>i (sk_event, sk_event_i).
      let e = sk_list r ! i; ca = icsk_ca_state (socks (rs_sk e))
      in if ca \<ge> TCP_CA_Recovery \<and> ca > sk_event \<and> has (rs_state e) REDF_SK_Enabled
         then (ca, i) else (sk_event, sk_event_i))
    [0..<sk_list_size r] (TCP_CA_Open, 0)"

text \<open>The update of a substitute's congestion flag while the connection is congested.\<close>

definition scan_entry :: "sysctls \<Rightarrow> socks \<Rightarrow> red_flags \<Rightarrow> ktime \<Rightarrow> red_sk \<Rightarrow> red_sk" where
  "scan_entry sc socks state run_start e =
     (let ca = icsk_ca_state (socks (rs_sk e))
      in if ca \<ge> TCP_CA_Recovery
         then (if state = REDF_Cong \<and> has (rs_state e) REDF_SK_Sub \<and> ca > TCP_CA_Recovery
               then e\<lparr>rs_state := setf (rs_state e) REDF_SK_Cong, rs_last_cong := run_start\<rparr> else e)
         else (if state = REDF_Cong \<and> has (rs_state e) REDF_SK_Sub \<and>
                  ktime_before (ktime_add_ms (rs_last_cong e) (word_of_int (sysctl_CS_hold sc))) run_start
               then e\<lparr>rs_state := clrf (rs_state e) REDF_SK_Cong\<rparr> else e))"

definition scan ::
  "sysctls \<Rightarrow> socks \<Rightarrow> ktime \<Rightarrow> redundant_socket_register \<Rightarrow> redundant_socket_register" where
  "scan sc socks run_start r = r\<lparr>sk_list := upd_upto (sk_list_size r)
     (\<lambda>_ e. scan_entry sc socks (reg_state r) run_start e) (sk_list r)\<rparr>"

section \<open>The state machine\<close>

text \<open>\<open>effective_util_mean < (effective_util_mean_before_cong * collapse_th) / 100\<close>, unsigned.\<close>

definition util_collapsed :: "redundant_socket_register \<Rightarrow> bool" where
  "util_collapsed r \<longleftrightarrow>
     effective_util_mean r < (effective_util_mean_before_cong r * word_of_int (collapse_th r)) div 100"

text \<open>\<open>timeout > 2 * send_period_max\<close>, in 64-bit signed arithmetic.\<close>

definition timeout_is_high :: "redundant_socket_register \<Rightarrow> bool" where
  "timeout_is_high r \<longleftrightarrow> uint (timeout r) > s64 (2 * send_period_max r)"

definition clear_cong :: "redundant_socket_register \<Rightarrow> redundant_socket_register" where
  "clear_cong r = r\<lparr>sk_list := upd_upto (sk_list_size r)
     (\<lambda>_ e. e\<lparr>rs_state := clrf (rs_state e) REDF_SK_Cong\<rparr>) (sk_list r)\<rparr>"

text \<open>The branch on a timeout, the same in the open and the recovery state.\<close>

definition on_timeout ::
  "sysctls \<Rightarrow> ktime \<Rightarrow> redundant_socket_register \<Rightarrow> redundant_socket_register option" where
  "on_timeout sc run_start r =
     (if timeout_is_high r then rmptcp_statechange_timeout2cong sc run_start r
      else Some (r\<lparr>reg_state := REDF_Timeout, send_period_max_before_cong := send_period_max r\<rparr>))"

text \<open>The branch on a collapse with a socket event, in three states.\<close>

definition on_collapse ::
  "nat \<Rightarrow> ktime \<Rightarrow> redundant_socket_register \<Rightarrow> redundant_socket_register option" where
  "on_collapse sk_event_i run_start r =
     do { r' \<leftarrow> rmptcp_statechange_event2cong sk_event_i run_start r;
          Some (r'\<lparr>previous_skevent_i := of_nat sk_event_i\<rparr>) }"

definition step_open ::
  "sysctls \<Rightarrow> ktime \<Rightarrow> ca_state \<Rightarrow> nat \<Rightarrow> redundant_socket_register
     \<Rightarrow> redundant_socket_register option" where
  "step_open sc run_start sk_event sk_event_i r =
     (if timeout r \<noteq> 0 then on_timeout sc run_start r
      else if sk_event \<ge> TCP_CA_Recovery \<and> util_collapsed r then on_collapse sk_event_i run_start r
      else Some (r\<lparr>effective_util_mean_before_cong := effective_util_mean_mean r\<rparr>))"

definition step_recovery ::
  "sysctls \<Rightarrow> ktime \<Rightarrow> ca_state \<Rightarrow> nat \<Rightarrow> redundant_socket_register
     \<Rightarrow> redundant_socket_register option" where
  "step_recovery sc run_start sk_event sk_event_i r =
     (if timeout r \<noteq> 0 then on_timeout sc run_start r
      else if sk_event \<ge> TCP_CA_Recovery \<and> util_collapsed r then on_collapse sk_event_i run_start r
      else if util_collapsed r
      then rmptcp_statechange_event2cong (unat (previous_skevent_i r)) run_start r
      else if sk_event = TCP_CA_Loss
      then Some (r\<lparr>reg_state := REDF_Recovery, start_Recovery := run_start\<rparr>)
      else if ktime_before (ktime_add_ms (start_Recovery r)
                (word_of_int (s32 (sysctl_CS_hold sc * 2)))) run_start
      then Some (clear_cong (r\<lparr>reg_state := REDF_Open, cong_flag := 1\<rparr>))
      else if sk_event = TCP_CA_Open \<and>
              ktime_before (ktime_add_ms (start_Recovery r) (word_of_int (sysctl_CS_hold sc))) run_start
      then Some (r\<lparr>effective_util_mean_before_cong := effective_util_mean_mean r\<rparr>)
      else Some r)"

definition step_timeout ::
  "sysctls \<Rightarrow> ktime \<Rightarrow> ca_state \<Rightarrow> nat \<Rightarrow> redundant_socket_register
     \<Rightarrow> redundant_socket_register option" where
  "step_timeout sc run_start sk_event sk_event_i r =
     (if timeout r \<noteq> 0 then rmptcp_statechange_timeout2cong sc run_start r
      else if inTime_cnt r \<ge> word_of_int (sysctl_numinTime sc)
      then Some (r\<lparr>inTime_cnt := 0, reg_state := REDF_Recovery, start_Recovery := run_start,
                   last_period_max := run_start,
                   send_period_max := send_period_max_before_cong r\<rparr>)
      else if sk_event \<ge> TCP_CA_Recovery \<and> util_collapsed r then on_collapse sk_event_i run_start r
      else Some r)"

definition step_cong ::
  "sysctls \<Rightarrow> ktime \<Rightarrow> ca_state \<Rightarrow> redundant_socket_register \<Rightarrow> redundant_socket_register option" where
  "step_cong sc run_start sk_event r =
     (if ktime_before (ktime_add_ms (last_ca_state r) (word_of_int (sysctl_CS_hold sc))) run_start
      then let r1 = r\<lparr>reg_state := REDF_Recovery,
                      send_period_max := send_period_max_before_cong r,
                      start_Recovery := run_start, last_period_max := run_start, cong_flag := 1\<rparr>;
               r2 = (if effective_util_mean r1 < effective_util_mean_mean r1 \<and> effective_util_mean r1 > 0
                     then r1\<lparr>effective_util_mean_mean := effective_util_mean r1\<rparr> else r1)
           in Some (clear_cong r2)
      else if sk_event = TCP_CA_Loss then Some (r\<lparr>last_ca_state := run_start\<rparr>)
      else Some r)"

definition rmptcp_check_failure ::
  "sysctls \<Rightarrow> socks \<Rightarrow> ktime \<Rightarrow> redundant_socket_register \<Rightarrow> redundant_socket_register option" where
  "rmptcp_check_failure sc socks run_start r0 =
     (let (sk_event, sk_event_i) = scan_event socks r0; r = scan sc socks run_start r0
      in if reg_state r = REDF_Open then step_open sc run_start sk_event sk_event_i r
         else if reg_state r = REDF_Recovery then step_recovery sc run_start sk_event sk_event_i r
         else if reg_state r = REDF_Timeout then step_timeout sc run_start sk_event sk_event_i r
         else if reg_state r = REDF_Cong then step_cong sc run_start sk_event r
         else Some (r\<lparr>reg_state := REDF_Open\<rparr>))"

section \<open>The abstract state machine\<close>

datatype red_phase = Open | Recovery | Timeout | Cong

definition phase_flag :: "red_phase \<Rightarrow> red_flags" where
  "phase_flag p = (case p of Open \<Rightarrow> REDF_Open | Recovery \<Rightarrow> REDF_Recovery
                   | Timeout \<Rightarrow> REDF_Timeout | Cong \<Rightarrow> REDF_Cong)"

definition phase_of :: "redundant_socket_register \<Rightarrow> red_phase" where
  "phase_of r = (if reg_state r = REDF_Recovery then Recovery
                 else if reg_state r = REDF_Timeout then Timeout
                 else if reg_state r = REDF_Cong then Cong else Open)"

text \<open>What the machine sees of one segment: whether it was late (and how late), whether the
  utilisation collapsed, whether the hold time of the state is over.\<close>

datatype red_event = In_Time | Late | Very_Late | Collapse | Hold_Over | Enough_In_Time

inductive red_step :: "red_phase \<Rightarrow> red_event \<Rightarrow> red_phase \<Rightarrow> bool" where
  stay: "red_step p In_Time p"
| late_open: "red_step Open Late Timeout"
| late_recovery: "red_step Recovery Late Timeout"
| very_late_open: "red_step Open Very_Late Cong"
| very_late_recovery: "red_step Recovery Very_Late Cong"
| late_again: "red_step Timeout Late Cong"
| very_late_again: "red_step Timeout Very_Late Cong"
| collapse: "p \<noteq> Cong \<Longrightarrow> red_step p Collapse Cong"
| hold_cong: "red_step Cong Hold_Over Recovery"
| hold_recovery: "red_step Recovery Hold_Over Open"
| in_time: "red_step Timeout Enough_In_Time Recovery"

inductive_cases red_stepE: "red_step p e q"

inductive_simps red_step_from [simp]:
  "red_step Cong e q" "red_step Timeout e q" "red_step Open e q" "red_step Recovery e q"

lemma phase_of_flag: "reg_state r = phase_flag p \<Longrightarrow> phase_of r = p"
  by (cases p) (simp_all add: phase_of_def phase_flag_def flag_simps)

lemma phase_of_simps:
  "reg_state r = REDF_Open \<Longrightarrow> phase_of r = Open"
  "reg_state r = REDF_Recovery \<Longrightarrow> phase_of r = Recovery"
  "reg_state r = REDF_Timeout \<Longrightarrow> phase_of r = Timeout"
  "reg_state r = REDF_Cong \<Longrightarrow> phase_of r = Cong"
  by (simp_all add: phase_of_def flag_simps)

section \<open>Lemmas\<close>

lemma scan_simps [simp]:
  "reg_state (scan sc socks t r) = reg_state r" "timeout (scan sc socks t r) = timeout r"
  "sk_list_size (scan sc socks t r) = sk_list_size r"
  "length (sk_list (scan sc socks t r)) = length (sk_list r)"
  "inTime_cnt (scan sc socks t r) = inTime_cnt r"
  "previous_skevent_i (scan sc socks t r) = previous_skevent_i r"
  "effective_util_mean (scan sc socks t r) = effective_util_mean r"
  "last_ca_state (scan sc socks t r) = last_ca_state r"
  "start_Recovery (scan sc socks t r) = start_Recovery r"
  by (simp_all add: scan_def)

lemma clear_cong_simps [simp]:
  "reg_state (clear_cong r) = reg_state r" "sk_list_size (clear_cong r) = sk_list_size r"
  "length (sk_list (clear_cong r)) = length (sk_list r)"
  "inTime_cnt (clear_cong r) = inTime_cnt r" "cong_flag (clear_cong r) = cong_flag r"
  "previous_skevent_i (clear_cong r) = previous_skevent_i r"
  by (simp_all add: clear_cong_def)

lemma clear_cong_clears:
  "reg_wf r \<Longrightarrow> i < sk_list_size r \<Longrightarrow> \<not> has (st (clear_cong r) i) REDF_SK_Cong"
  by (simp add: clear_cong_def loop_simps reg_wf_size flag_simps)

text \<open>The register invariant of the state machine: the index of the last event is an array index.\<close>

definition fail_inv :: "redundant_socket_register \<Rightarrow> bool" where
  "fail_inv r \<longleftrightarrow> reg_wf r \<and> unat (previous_skevent_i r) < MAX_NUM_RED_SK"

lemma fold_index_bound:
  assumes "\<And>i a k. snd (f i (a, k)) = k \<or> snd (f i (a, k)) = i"
  shows "snd (fold f [0..<n] s) < n \<or> snd (fold f [0..<n] s) = snd s"
proof (induction n)
  case (Suc n)
  show ?case using Suc assms [of n "fst (fold f [0..<n] s)" "snd (fold f [0..<n] s)"] by auto
qed simp

lemma earliest_bound: "snd (earliest f r s) < sk_list_size r \<or> snd (earliest f r s) = snd s"
  unfolding earliest_def by (rule fold_index_bound) (simp add: Let_def)

text \<open>The loop finds the first minimum.\<close>

lemma fold_min:
  fixes f :: "nat \<Rightarrow> int" and u :: "nat \<Rightarrow> bool"
  defines "F \<equiv> \<lambda>n. fold (\<lambda>i (v, k). if u i \<and> v > f i then (f i, i) else (v, k)) [0..<n]"
  shows "fst (F n (v0, k0)) \<le> v0" and "i < n \<Longrightarrow> u i \<Longrightarrow> fst (F n (v0, k0)) \<le> f i"
    and "fst (F n (v0, k0)) < v0 \<Longrightarrow> snd (F n (v0, k0)) < n \<and> u (snd (F n (v0, k0))) \<and>
      fst (F n (v0, k0)) = f (snd (F n (v0, k0)))"
proof -
  have *: "fst (F n (v0, k0)) \<le> v0 \<and> (\<forall>i<n. u i \<longrightarrow> fst (F n (v0, k0)) \<le> f i) \<and>
    (fst (F n (v0, k0)) < v0 \<longrightarrow> snd (F n (v0, k0)) < n \<and> u (snd (F n (v0, k0))) \<and>
      fst (F n (v0, k0)) = f (snd (F n (v0, k0))))"
  proof (induction n)
    case (Suc n)
    have F: "F (Suc n) (v0, k0) = (if u n \<and> fst (F n (v0, k0)) > f n then (f n, n) else F n (v0, k0))"
      by (simp add: F_def split_beta)
    show ?case using Suc unfolding F by (auto simp: less_Suc_eq)
  qed (simp add: F_def)
  show "fst (F n (v0, k0)) \<le> v0" using * by blast
  show "i < n \<Longrightarrow> u i \<Longrightarrow> fst (F n (v0, k0)) \<le> f i" using * by blast
  show "fst (F n (v0, k0)) < v0 \<Longrightarrow> snd (F n (v0, k0)) < n \<and> u (snd (F n (v0, k0))) \<and>
      fst (F n (v0, k0)) = f (snd (F n (v0, k0)))" using * by blast
qed

lemma earliest_min:
  fixes f :: "red_sk \<Rightarrow> int"
  defines "m \<equiv> \<lambda>r v. earliest f r (v, 0)"
  shows "fst (m r v) \<le> v"
    and "i < sk_list_size r \<Longrightarrow> unavailable_enabled (sk_list r ! i) \<Longrightarrow> fst (m r v) \<le> f (sk_list r ! i)"
    and "fst (m r v) < v \<Longrightarrow> snd (m r v) < sk_list_size r \<and>
      unavailable_enabled (sk_list r ! snd (m r v)) \<and> fst (m r v) = f (sk_list r ! snd (m r v))"
  using fold_min [where f = "\<lambda>i. f (sk_list r ! i)" and u = "\<lambda>i. unavailable_enabled (sk_list r ! i)"
      and n = "sk_list_size r" and ?v0.0 = v and ?k0.0 = 0]
  by (simp_all add: m_def earliest_def Let_def)

lemma scan_event_bound: "snd (scan_event socks r) < sk_list_size r \<or> snd (scan_event socks r) = 0"
proof -
  have "snd (scan_event socks r) < sk_list_size r \<or> snd (scan_event socks r) = snd (TCP_CA_Open, 0::nat)"
    unfolding scan_event_def by (rule fold_index_bound) (simp add: Let_def)
  then show ?thesis by simp
qed

lemma index_ok:
  assumes "reg_wf r" and "k < sk_list_size r \<or> k = 0"
  shows "k < MAX_NUM_RED_SK"
  using assms by (auto simp: reg_wf_def MAX_NUM_RED_SK_def)

lemma statechange_cong_ok:
  assumes "fail_inv r" and "k < MAX_NUM_RED_SK"
  shows "\<exists>r'. rmptcp_statechange_cong k t r = Some r' \<and> fail_inv r' \<and> reg_state r' = REDF_Cong \<and>
    cong_flag r' = 1 \<and> inTime_cnt r' = inTime_cnt r \<and> has (st r' k) REDF_SK_Cong"
  using assms
  by (auto simp: rmptcp_statechange_cong_def fail_inv_def reg_wf_def flag_simps)

lemma timeout2cong_ok:
  assumes "fail_inv r"
  shows "\<exists>r'. rmptcp_statechange_timeout2cong sc t r = Some r' \<and> fail_inv r' \<and>
    reg_state r' = REDF_Cong \<and> inTime_cnt r' = inTime_cnt r"
proof -
  define first where "first = earliest (sk_next_use sc) r (S64_MAX, 0)"
  define found where "found = (if fst first = S64_MAX
    then earliest (\<lambda>e. ktime_to_us (rs_last_used e)) r first else first)"
  have "snd first < sk_list_size r \<or> snd first = 0"
    using earliest_bound [of "sk_next_use sc" r "(S64_MAX, 0)"] by (simp add: first_def)
  then have "snd found < sk_list_size r \<or> snd found = 0"
    using earliest_bound [of "\<lambda>e. ktime_to_us (rs_last_used e)" r first] by (auto simp: found_def)
  then have "snd found < MAX_NUM_RED_SK" using assms by (intro index_ok) (simp_all add: fail_inv_def)
  moreover have "rmptcp_statechange_timeout2cong sc t r = rmptcp_statechange_cong (snd found) t r"
    by (simp add: rmptcp_statechange_timeout2cong_def Let_def first_def found_def)
  ultimately show ?thesis using statechange_cong_ok [OF assms] by metis
qed

lemma on_timeout_ok:
  assumes "fail_inv r"
  shows "\<exists>r'. on_timeout sc t r = Some r' \<and> fail_inv r' \<and> inTime_cnt r' = inTime_cnt r \<and>
    (timeout_is_high r \<longrightarrow> reg_state r' = REDF_Cong) \<and>
    (\<not> timeout_is_high r \<longrightarrow> reg_state r' = REDF_Timeout)"
  using assms timeout2cong_ok [OF assms, of sc t]
  by (auto simp: on_timeout_def fail_inv_def reg_wf_def)

lemma on_collapse_ok:
  assumes "fail_inv r" and "k < MAX_NUM_RED_SK"
  shows "\<exists>r'. on_collapse k t r = Some r' \<and> fail_inv r' \<and> reg_state r' = REDF_Cong \<and>
    inTime_cnt r' = inTime_cnt r"
proof -
  obtain r1 where r1: "rmptcp_statechange_cong k t r = Some r1" "fail_inv r1"
    "reg_state r1 = REDF_Cong" "inTime_cnt r1 = inTime_cnt r"
    using statechange_cong_ok [OF assms] by blast
  have "unat (of_nat k :: u32) = k"
    using assms(2) by (intro unat_of_nat32) (simp add: MAX_NUM_RED_SK_def)
  with r1 assms(2) show ?thesis
    by (simp add: on_collapse_def rmptcp_statechange_event2cong_def fail_inv_def reg_wf_def)
qed

lemma guards_scan [simp]:
  "util_collapsed (scan sc socks t r) = util_collapsed r"
  "timeout_is_high (scan sc socks t r) = timeout_is_high r"
  by (simp_all add: scan_def util_collapsed_def timeout_is_high_def)

lemma fail_inv_scan: "fail_inv r \<Longrightarrow> fail_inv (scan sc socks t r)"
  by (simp add: fail_inv_def reg_wf_def)

text \<open>The code's guard of each event of the abstract machine.\<close>

definition event_guard :: "sysctls \<Rightarrow> ktime \<Rightarrow> redundant_socket_register \<Rightarrow> red_event \<Rightarrow> bool" where
  "event_guard sc t r ev = (case ev of
       In_Time \<Rightarrow> phase_of r \<noteq> Cong \<longrightarrow> timeout r = 0
     | Late \<Rightarrow> timeout r \<noteq> 0 \<and> (phase_of r \<noteq> Timeout \<longrightarrow> \<not> timeout_is_high r)
     | Very_Late \<Rightarrow> timeout r \<noteq> 0 \<and> timeout_is_high r
     | Collapse \<Rightarrow> timeout r = 0 \<and> util_collapsed r
     | Enough_In_Time \<Rightarrow> timeout r = 0 \<and> inTime_cnt r \<ge> word_of_int (sysctl_numinTime sc)
     | Hold_Over \<Rightarrow>
         (if phase_of r = Cong
          then ktime_before (ktime_add_ms (last_ca_state r) (word_of_int (sysctl_CS_hold sc))) t
          else timeout r = 0 \<and> \<not> util_collapsed r \<and>
            ktime_before (ktime_add_ms (start_Recovery r) (word_of_int (s32 (sysctl_CS_hold sc * 2)))) t))"

text \<open>What every branch of the code guarantees: the result, its invariant and the abstract step.\<close>

definition step_ok ::
  "sysctls \<Rightarrow> ktime \<Rightarrow> redundant_socket_register \<Rightarrow> redundant_socket_register option \<Rightarrow> bool" where
  "step_ok sc t r res \<longleftrightarrow> (\<exists>r' ev p. res = Some r' \<and> fail_inv r' \<and> reg_state r' = phase_flag p \<and>
     red_step (phase_of r) ev p \<and> event_guard sc t r ev \<and>
     inTime_cnt r' = (if ev = Enough_In_Time then 0 else inTime_cnt r))"

lemma step_okI:
  assumes "res = Some r'" and "fail_inv r'" and "reg_state r' = phase_flag p"
    and "red_step (phase_of r) ev p" and "event_guard sc t r ev"
    and "inTime_cnt r' = (if ev = Enough_In_Time then 0 else inTime_cnt r)"
  shows "step_ok sc t r res"
  using assms unfolding step_ok_def by blast

lemma on_timeout_step:
  assumes "fail_inv r" and "timeout r \<noteq> 0" and "phase_of r \<in> {Open, Recovery}"
  shows "step_ok sc t r (on_timeout sc t r)"
proof -
  obtain r' where r': "on_timeout sc t r = Some r'" "fail_inv r'" "inTime_cnt r' = inTime_cnt r"
    "timeout_is_high r \<longrightarrow> reg_state r' = REDF_Cong" "\<not> timeout_is_high r \<longrightarrow> reg_state r' = REDF_Timeout"
    using on_timeout_ok [OF assms(1)] by blast
  show ?thesis
  proof (cases "timeout_is_high r")
    case True
    then show ?thesis using r' assms(2,3)
      by (intro step_okI [where ev = Very_Late and p = Cong, OF r'(1,2)])
         (auto simp: event_guard_def phase_flag_def intro: red_step.intros)
  next
    case False
    then show ?thesis using r' assms(2,3)
      by (intro step_okI [where ev = Late and p = Timeout, OF r'(1,2)])
         (auto simp: event_guard_def phase_flag_def intro: red_step.intros)
  qed
qed

lemma on_collapse_step:
  assumes "fail_inv r" and "k < MAX_NUM_RED_SK" and "timeout r = 0" and "util_collapsed r"
    and "phase_of r \<noteq> Cong"
  shows "step_ok sc t r (on_collapse k t r)" "step_ok sc t r (rmptcp_statechange_event2cong k t r)"
proof -
  obtain r1 where r1: "on_collapse k t r = Some r1" "fail_inv r1" "reg_state r1 = REDF_Cong"
    "inTime_cnt r1 = inTime_cnt r" using on_collapse_ok [OF assms(1,2)] by blast
  show "step_ok sc t r (on_collapse k t r)"
    by (rule step_okI [where ev = Collapse and p = Cong, OF r1(1,2)])
       (use r1 assms in \<open>auto simp: event_guard_def phase_flag_def intro: red_step.intros\<close>)
  obtain r2 where r2: "rmptcp_statechange_event2cong k t r = Some r2" "fail_inv r2"
    "reg_state r2 = REDF_Cong" "inTime_cnt r2 = inTime_cnt r"
    using statechange_cong_ok [OF assms(1,2)] unfolding rmptcp_statechange_event2cong_def by blast
  show "step_ok sc t r (rmptcp_statechange_event2cong k t r)"
    by (rule step_okI [where ev = Collapse and p = Cong, OF r2(1,2)])
       (use r2 assms in \<open>auto simp: event_guard_def phase_flag_def intro: red_step.intros\<close>)
qed

text \<open>A branch that stays in the state and changes neither list nor counters.\<close>

lemma stay_step:
  assumes "fail_inv r" and "res = Some r'" and "reg_state r = phase_flag (phase_of r)"
    and "reg_state r' = reg_state r" and "phase_of r \<noteq> Cong \<Longrightarrow> timeout r = 0"
    and "sk_list r' = sk_list r" and "sk_list_size r' = sk_list_size r"
    and "previous_skevent_i r' = previous_skevent_i r" and "inTime_cnt r' = inTime_cnt r"
  shows "step_ok sc t r res"
  by (rule step_okI [where ev = In_Time and p = "phase_of r", OF assms(2)])
     (use assms in \<open>auto simp: event_guard_def fail_inv_def reg_wf_def intro: red_step.intros\<close>)

lemma step_open_ok:
  assumes "fail_inv r" and "k < MAX_NUM_RED_SK" and "reg_state r = REDF_Open"
  shows "step_ok sc t r (step_open sc t ev k r)"
proof -
  have p: "phase_of r = Open" using assms(3) by (rule phase_of_simps)
  have flag: "reg_state r = phase_flag (phase_of r)" using assms(3) p by (simp add: phase_flag_def)
  consider (late) "timeout r \<noteq> 0"
    | (coll) "timeout r = 0" "ev \<ge> TCP_CA_Recovery" "util_collapsed r"
    | (stay) "timeout r = 0" "\<not> (ev \<ge> TCP_CA_Recovery \<and> util_collapsed r)" by blast
  then show ?thesis
  proof cases
    case late
    then show ?thesis using on_timeout_step [OF assms(1) late, of sc t] p by (simp add: step_open_def)
  next
    case coll
    then show ?thesis using on_collapse_step(1) [OF assms(1,2) coll(1,3), of sc t] p
      by (simp add: step_open_def)
  next
    case stay
    let ?r' = "r\<lparr>effective_util_mean_before_cong := effective_util_mean_mean r\<rparr>"
    have "step_open sc t ev k r = Some ?r'" using stay by (auto simp: step_open_def)
    then show ?thesis by (rule stay_step [OF assms(1) _ flag]) (use stay in simp_all)
  qed
qed

lemma step_timeout_ok:
  assumes "fail_inv r" and "k < MAX_NUM_RED_SK" and "reg_state r = REDF_Timeout"
  shows "step_ok sc t r (step_timeout sc t ev k r)"
proof -
  have p: "phase_of r = Timeout" using assms(3) by (rule phase_of_simps)
  have flag: "reg_state r = phase_flag (phase_of r)" using assms(3) p by (simp add: phase_flag_def)
  consider (late) "timeout r \<noteq> 0"
    | (enough) "timeout r = 0" "inTime_cnt r \<ge> word_of_int (sysctl_numinTime sc)"
    | (coll) "timeout r = 0" "\<not> inTime_cnt r \<ge> word_of_int (sysctl_numinTime sc)"
        "ev \<ge> TCP_CA_Recovery" "util_collapsed r"
    | (stay) "timeout r = 0" "\<not> inTime_cnt r \<ge> word_of_int (sysctl_numinTime sc)"
        "\<not> (ev \<ge> TCP_CA_Recovery \<and> util_collapsed r)" by blast
  then show ?thesis
  proof cases
    case late
    obtain r1 where r1: "rmptcp_statechange_timeout2cong sc t r = Some r1" "fail_inv r1"
      "reg_state r1 = REDF_Cong" "inTime_cnt r1 = inTime_cnt r" using timeout2cong_ok [OF assms(1)] by blast
    have "step_timeout sc t ev k r = Some r1" using late r1(1) by (simp add: step_timeout_def)
    then show ?thesis
      by (rule step_okI [where ev = Late and p = Cong, OF _ r1(2)])
         (simp_all add: r1 p late event_guard_def phase_flag_def)
  next
    case enough
    let ?r' = "r\<lparr>inTime_cnt := 0, reg_state := REDF_Recovery, start_Recovery := t,
                  last_period_max := t, send_period_max := send_period_max_before_cong r\<rparr>"
    have "step_timeout sc t ev k r = Some ?r'" using enough by (simp add: step_timeout_def)
    then show ?thesis
      by (rule step_okI [where ev = Enough_In_Time and p = Recovery])
         (use assms(1) enough in \<open>simp_all add: p event_guard_def phase_flag_def fail_inv_def reg_wf_def\<close>)
  next
    case coll
    then show ?thesis using on_collapse_step(1) [OF assms(1,2) coll(1,4), of sc t] p
      by (simp add: step_timeout_def)
  next
    case stay
    then have "step_timeout sc t ev k r = Some r" by (auto simp: step_timeout_def)
    then show ?thesis by (rule stay_step [OF assms(1) _ flag]) (use stay in simp_all)
  qed
qed

lemma step_recovery_ok:
  assumes "fail_inv r" and "k < MAX_NUM_RED_SK" and "reg_state r = REDF_Recovery"
  shows "step_ok sc t r (step_recovery sc t ev k r)"
proof -
  have p: "phase_of r = Recovery" using assms(3) by (rule phase_of_simps)
  have flag: "reg_state r = phase_flag (phase_of r)" using assms(3) p by (simp add: phase_flag_def)
  have prev: "unat (previous_skevent_i r) < MAX_NUM_RED_SK" using assms(1) by (simp add: fail_inv_def)
  have stay: "step_ok sc t r (step_recovery sc t ev k r)"
    if "timeout r = 0" "step_recovery sc t ev k r = Some r'" "reg_state r' = reg_state r"
      "sk_list r' = sk_list r" "sk_list_size r' = sk_list_size r"
      "previous_skevent_i r' = previous_skevent_i r" "inTime_cnt r' = inTime_cnt r" for r'
    by (rule stay_step [OF assms(1) that(2) flag that(3)]) (use that in simp_all)
  consider (late) "timeout r \<noteq> 0" | (coll) "timeout r = 0" "util_collapsed r"
    | (loss) "timeout r = 0" "\<not> util_collapsed r" "ev = TCP_CA_Loss"
    | (over) "timeout r = 0" "\<not> util_collapsed r" "ev \<noteq> TCP_CA_Loss"
       "ktime_before (ktime_add_ms (start_Recovery r) (word_of_int (s32 (sysctl_CS_hold sc * 2)))) t"
    | (hold) "timeout r = 0" "\<not> util_collapsed r" "ev \<noteq> TCP_CA_Loss"
       "\<not> ktime_before (ktime_add_ms (start_Recovery r) (word_of_int (s32 (sysctl_CS_hold sc * 2)))) t"
    by blast
  then show ?thesis
  proof cases
    case late
    then show ?thesis using on_timeout_step [OF assms(1) late, of sc t] p by (simp add: step_recovery_def)
  next
    case coll
    then show ?thesis using on_collapse_step(1) [OF assms(1,2) coll, of sc t]
      on_collapse_step(2) [OF assms(1) prev coll, of sc t] p
      by (simp add: step_recovery_def)
  next
    case loss
    then show ?thesis
      by (intro stay [of "r\<lparr>reg_state := REDF_Recovery, start_Recovery := t\<rparr>"])
         (simp_all add: step_recovery_def assms(3))
  next
    case over
    let ?r' = "clear_cong (r\<lparr>reg_state := REDF_Open, cong_flag := 1\<rparr>)"
    have "step_recovery sc t ev k r = Some ?r'" using over by (simp add: step_recovery_def)
    then show ?thesis
      by (rule step_okI [where ev = Hold_Over and p = Open])
         (use assms(1) over in \<open>simp_all add: p event_guard_def phase_flag_def fail_inv_def reg_wf_def\<close>)
  next
    case hold
    define r' where "r' = (if ev = TCP_CA_Open \<and>
        ktime_before (ktime_add_ms (start_Recovery r) (word_of_int (sysctl_CS_hold sc))) t
      then r\<lparr>effective_util_mean_before_cong := effective_util_mean_mean r\<rparr> else r)"
    have "step_recovery sc t ev k r = Some r'" using hold by (auto simp: step_recovery_def r'_def)
    with hold show ?thesis by (intro stay [of r']) (simp_all add: r'_def)
  qed
qed

lemma step_cong_ok:
  assumes "fail_inv r" and "reg_state r = REDF_Cong"
  shows "step_ok sc t r (step_cong sc t ev r)"
proof -
  have p: "phase_of r = Cong" using assms(2) by (rule phase_of_simps)
  have flag: "reg_state r = phase_flag (phase_of r)" using assms(2) p by (simp add: phase_flag_def)
  show ?thesis
  proof (cases "ktime_before (ktime_add_ms (last_ca_state r) (word_of_int (sysctl_CS_hold sc))) t")
    case True
    then obtain r2 where r2: "step_cong sc t ev r = Some (clear_cong r2)" "reg_state r2 = REDF_Recovery"
      "sk_list r2 = sk_list r" "sk_list_size r2 = sk_list_size r"
      "previous_skevent_i r2 = previous_skevent_i r" "inTime_cnt r2 = inTime_cnt r"
      by (auto simp: step_cong_def Let_def)
    show ?thesis
      by (rule step_okI [where ev = Hold_Over and p = Recovery, OF r2(1)])
         (use assms(1) True r2 in \<open>simp_all add: p event_guard_def phase_flag_def fail_inv_def reg_wf_def\<close>)
  next
    case False
    define r' where "r' = (if ev = TCP_CA_Loss then r\<lparr>last_ca_state := t\<rparr> else r)"
    have "step_cong sc t ev r = Some r'" using False by (simp add: step_cong_def r'_def)
    then show ?thesis by (rule stay_step [OF assms(1) _ flag]) (simp_all add: r'_def p)
  qed
qed

section \<open>Time in the states\<close>

definition hold_over :: "ktime \<Rightarrow> int \<Rightarrow> ktime \<Rightarrow> bool" where
  "hold_over start ms t \<longleftrightarrow> ktime_before (ktime_add_ms start (word_of_int ms)) t"

text \<open>The states before and after a check, with the time stamp each state keeps.\<close>

definition timed_step ::
  "sysctls \<Rightarrow> ktime \<Rightarrow> redundant_socket_register \<Rightarrow> redundant_socket_register \<Rightarrow> bool" where
  "timed_step sc t r r' \<longleftrightarrow>
     (reg_state r' = REDF_Cong \<and> last_ca_state r' = t) \<or>
     (reg_state r = REDF_Cong \<and> reg_state r' = REDF_Cong \<and> last_ca_state r' = last_ca_state r) \<or>
     (reg_state r' = REDF_Recovery \<and> start_Recovery r' = t \<and>
        (reg_state r = REDF_Cong \<longrightarrow> hold_over (last_ca_state r) (sysctl_CS_hold sc) t) \<and>
        reg_state r \<noteq> REDF_Open) \<or>
     (reg_state r = REDF_Recovery \<and> reg_state r' = REDF_Recovery \<and>
        start_Recovery r' = start_Recovery r) \<or>
     (reg_state r' = REDF_Timeout \<and> reg_state r \<noteq> REDF_Cong) \<or>
     (reg_state r = REDF_Open \<and> reg_state r' = REDF_Open) \<or>
     (reg_state r = REDF_Recovery \<and> reg_state r' = REDF_Open \<and>
        hold_over (start_Recovery r) (s32 (sysctl_CS_hold sc * 2)) t)"

lemma statechange_time:
  "rmptcp_statechange_cong k t r = Some r' \<Longrightarrow> reg_state r' = REDF_Cong \<and> last_ca_state r' = t"
  by (auto simp: rmptcp_statechange_cong_def split: if_splits)

lemma timeout2cong_time:
  "rmptcp_statechange_timeout2cong sc t r = Some r' \<Longrightarrow> reg_state r' = REDF_Cong \<and> last_ca_state r' = t"
  by (auto simp: rmptcp_statechange_timeout2cong_def Let_def dest!: statechange_time split: if_splits)

lemma on_collapse_time:
  "on_collapse k t r = Some r' \<Longrightarrow> reg_state r' = REDF_Cong \<and> last_ca_state r' = t"
  by (auto simp: on_collapse_def rmptcp_statechange_event2cong_def bind_eq_Some_conv
      dest: statechange_time)

lemma on_timeout_time:
  "on_timeout sc t r = Some r' \<Longrightarrow>
     (reg_state r' = REDF_Cong \<and> last_ca_state r' = t) \<or> reg_state r' = REDF_Timeout"
  by (auto simp: on_timeout_def dest: timeout2cong_time split: if_splits)

lemma step_open_time:
  assumes "step_open sc t ev k r = Some r'" and "reg_state r = REDF_Open"
  shows "timed_step sc t r r'"
  using assms unfolding step_open_def timed_step_def
  by (auto simp: flag_simps dest!: on_timeout_time on_collapse_time split: if_splits)

lemma step_timeout_time:
  assumes "step_timeout sc t ev k r = Some r'" and "reg_state r = REDF_Timeout"
  shows "timed_step sc t r r'"
  using assms unfolding step_timeout_def timed_step_def
  by (auto simp: flag_simps dest!: timeout2cong_time on_collapse_time split: if_splits)

lemma clear_cong_times [simp]:
  "start_Recovery (clear_cong r) = start_Recovery r" "last_ca_state (clear_cong r) = last_ca_state r"
  by (simp_all add: clear_cong_def)

lemma step_recovery_time:
  assumes "step_recovery sc t ev k r = Some r'" and "reg_state r = REDF_Recovery"
  shows "timed_step sc t r r'"
  using assms unfolding step_recovery_def timed_step_def rmptcp_statechange_event2cong_def hold_over_def
  by (auto simp: flag_simps dest!: on_timeout_time on_collapse_time statechange_time split: if_splits)

lemma step_cong_time:
  assumes "step_cong sc t ev r = Some r'" and "reg_state r = REDF_Cong"
  shows "timed_step sc t r r'"
  using assms unfolding step_cong_def timed_step_def hold_over_def
  by (auto simp: flag_simps Let_def split: if_splits)

lemma scan_times [simp]:
  "hold_over (last_ca_state (scan sc socks t r)) ms u = hold_over (last_ca_state r) ms u"
  "timed_step sc' u (scan sc socks t r) r' = timed_step sc' u r r'"
  by (simp_all add: timed_step_def)

lemma phase_flag_cases:
  "reg_state r = phase_flag p \<Longrightarrow>
   reg_state r = REDF_Open \<or> reg_state r = REDF_Recovery \<or> reg_state r = REDF_Timeout \<or>
   reg_state r = REDF_Cong"
  by (cases p) (simp_all add: phase_flag_def)

lemma check_failure_cases:
  "rmptcp_check_failure sc socks t r =
    (let ev = fst (scan_event socks r); k = snd (scan_event socks r); r1 = scan sc socks t r
     in if reg_state r = REDF_Open then step_open sc t ev k r1
        else if reg_state r = REDF_Recovery then step_recovery sc t ev k r1
        else if reg_state r = REDF_Timeout then step_timeout sc t ev k r1
        else if reg_state r = REDF_Cong then step_cong sc t ev r1
        else Some (r1\<lparr>reg_state := REDF_Open\<rparr>))"
  by (simp add: rmptcp_check_failure_def Let_def split_beta)

lemma check_failure_time:
  assumes "rmptcp_check_failure sc socks t r = Some r'" and "reg_state r = phase_flag p"
  shows "timed_step sc t r r'"
proof -
  have "timed_step sc t (scan sc socks t r) r'"
    using assms(1) phase_flag_cases [OF assms(2)] unfolding check_failure_cases Let_def
    by (auto simp del: scan_times simp: flag_simps
        intro: step_open_time step_recovery_time step_timeout_time step_cong_time)
  then show ?thesis by simp
qed

lemma step_ok_scan: "step_ok sc t (scan sc socks u r) res = step_ok sc t r res"
  by (simp add: step_ok_def event_guard_def phase_of_def cong: red_event.case_cong)

lemma check_failure_ok:
  assumes inv: "fail_inv r" and state: "reg_state r = phase_flag p"
  shows "step_ok sc t r (rmptcp_check_failure sc socks t r)"
proof -
  have k: "snd (scan_event socks r) < MAX_NUM_RED_SK"
    using inv scan_event_bound [of socks r] by (intro index_ok) (auto simp: fail_inv_def)
  let ?r = "scan sc socks t r"
  have i: "fail_inv ?r" by (rule fail_inv_scan [OF inv])
  have "step_ok sc t ?r (rmptcp_check_failure sc socks t r)"
    using phase_flag_cases [OF state]
  proof (elim disjE)
    assume s: "reg_state r = REDF_Open"
    show ?thesis using step_open_ok [OF i k] s by (simp add: check_failure_cases Let_def)
  next
    assume s: "reg_state r = REDF_Recovery"
    show ?thesis using step_recovery_ok [OF i k] s by (simp add: check_failure_cases Let_def flag_simps)
  next
    assume s: "reg_state r = REDF_Timeout"
    show ?thesis using step_timeout_ok [OF i k] s by (simp add: check_failure_cases Let_def flag_simps)
  next
    assume s: "reg_state r = REDF_Cong"
    show ?thesis using step_cong_ok [OF i] s by (simp add: check_failure_cases Let_def flag_simps)
  qed
  then show ?thesis by (simp only: step_ok_scan)
qed

text \<open>
  Runs of the check: before every check the rest of the segment handler may change the register
  in any way but for the fields only the check writes; the clock does not run backwards.
\<close>

definition env_step :: "redundant_socket_register \<Rightarrow> redundant_socket_register \<Rightarrow> bool" where
  "env_step r r1 \<longleftrightarrow> reg_state r1 = reg_state r \<and> last_ca_state r1 = last_ca_state r \<and>
     start_Recovery r1 = start_Recovery r"

inductive seg_run ::
  "sysctls \<Rightarrow> redundant_socket_register \<Rightarrow> ktime \<Rightarrow> redundant_socket_register \<Rightarrow> ktime \<Rightarrow> bool"
  for sc :: sysctls and r0 :: redundant_socket_register and t0 :: ktime where
  start: "seg_run sc r0 t0 r0 t0"
| check: "seg_run sc r0 t0 r t \<Longrightarrow> env_step r r1 \<Longrightarrow> t \<le> t' \<Longrightarrow>
    rmptcp_check_failure sc socks t' r1 = Some r' \<Longrightarrow> seg_run sc r0 t0 r' t'"

lemma hold_over_small:
  assumes "0 \<le> start" and "start < 2 ^ 62" and "0 \<le> ms" and "ms < 2 ^ 31"
  shows "hold_over start ms t \<longleftrightarrow> start + ms * 1000000 < t"
proof -
  have "uint (word_of_int ms * 1000000 :: u64) = ms * 1000000"
  proof -
    have "(word_of_int ms * 1000000 :: u64) = word_of_int (ms * 1000000)" by simp
    then show ?thesis
      by (simp only: uint_word_of_int_eq) (rule take_bit_int_eq_self; use assms in simp)
  qed
  then have "ktime_add_ms start (word_of_int ms) = start + ms * 1000000"
    using assms by (simp add: ktime_add_ms_def)
  then show ?thesis by (simp add: hold_over_def ktime_before_def)
qed

text \<open>What holds along a run that starts with the entry into congestion at \<open>t0\<close>.\<close>

definition since_cong :: "int \<Rightarrow> ktime \<Rightarrow> redundant_socket_register \<Rightarrow> ktime \<Rightarrow> bool" where
  "since_cong ms t0 r t \<longleftrightarrow> t0 \<le> t \<and>
     (reg_state r = REDF_Cong \<and> t0 \<le> last_ca_state r \<and> last_ca_state r \<le> t \<or>
      reg_state r = REDF_Recovery \<and> t0 + ms * 1000000 < start_Recovery r \<and> start_Recovery r \<le> t \<or>
      reg_state r = REDF_Timeout \<and> t0 + ms * 1000000 < t \<or>
      reg_state r = REDF_Open \<and> t0 + 3 * ms * 1000000 < t)"

lemma since_cong_env: "since_cong ms t0 r t \<Longrightarrow> env_step r r1 \<Longrightarrow> since_cong ms t0 r1 t"
  by (simp add: since_cong_def env_step_def)

lemma since_cong_check:
  assumes inv: "since_cong ms t0 r t" and t: "t \<le> t'" "t' < 2 ^ 62" and t0: "0 \<le> t0"
    and ms: "sysctl_CS_hold sc = ms" "0 \<le> ms" "ms < 2 ^ 30" and step: "timed_step sc t' r r'"
  shows "since_cong ms t0 r' t'"
proof -
  have over: "hold_over (last_ca_state r) ms t' \<longleftrightarrow> last_ca_state r + ms * 1000000 < t'"
    if "t0 \<le> last_ca_state r" "last_ca_state r \<le> t"
    using that t t0 ms by (intro hold_over_small) simp_all
  have "s32 (ms * 2) = ms * 2" using ms by simp
  then have over2: "hold_over (start_Recovery r) (s32 (ms * 2)) t' \<longleftrightarrow>
      start_Recovery r + (ms * 2) * 1000000 < t'"
    if "t0 + ms * 1000000 < start_Recovery r" "start_Recovery r \<le> t"
    using that t t0 ms hold_over_small [of "start_Recovery r" "ms * 2" t'] by simp
  show ?thesis
    using inv step t t0 ms(1,2) over over2 unfolding since_cong_def timed_step_def
    by (elim disjE conjE) (simp_all add: flag_simps)
qed

lemma since_cong_run:
  assumes "seg_run sc r0 t0 r t" and "reg_state r0 = REDF_Cong" and "last_ca_state r0 = t0"
    and "0 \<le> t0" and "0 \<le> sysctl_CS_hold sc" and "sysctl_CS_hold sc < 2 ^ 30" and "t < 2 ^ 62"
  shows "since_cong (sysctl_CS_hold sc) t0 r t"
  using assms
proof (induction rule: seg_run.induct)
  case start
  then show ?case by (simp add: since_cong_def)
next
  case (check r t r1 t' socks r')
  have inv: "since_cong (sysctl_CS_hold sc) t0 r t" using check by simp
  then have inv1: "since_cong (sysctl_CS_hold sc) t0 r1 t" by (rule since_cong_env) (rule check.hyps)
  have "\<exists>p. reg_state r1 = phase_flag p"
    using inv1 unfolding since_cong_def
    by (auto intro: exI [where x = Open] exI [where x = Recovery] exI [where x = Timeout]
        exI [where x = Cong] simp: phase_flag_def)
  then obtain p where "reg_state r1 = phase_flag p" ..
  with check.hyps(4) have step: "timed_step sc t' r1 r'" by (rule check_failure_time)
  show ?case by (rule since_cong_check [OF inv1 _ _ _ refl _ _ step]) (use check in simp_all)
qed

section \<open>Properties\<close>

text \<open>C3. In each of its four states the failure check never faults, keeps the register invariant
  (array bounds, the remembered event index), and makes exactly one step of the abstract state
  machine \<open>red_step\<close>, under the guard of that step; the in-time counter is reset only on the way
  from timeout to recovery.  From a state word outside the four states it returns to open.\<close>

theorem rmptcp_check_failure_refines:
  assumes "fail_inv r"
  shows "if \<exists>p. reg_state r = phase_flag p
    then \<exists>r' ev. rmptcp_check_failure sc socks t r = Some r' \<and> fail_inv r' \<and>
       reg_state r' = phase_flag (phase_of r') \<and>
       red_step (phase_of r) ev (phase_of r') \<and> event_guard sc t r ev \<and>
       inTime_cnt r' = (if ev = Enough_In_Time then 0 else inTime_cnt r)
    else \<exists>r'. rmptcp_check_failure sc socks t r = Some r' \<and> fail_inv r' \<and>
       reg_state r' = REDF_Open"
proof (cases "\<exists>p. reg_state r = phase_flag p")
  case True
  then obtain p where "reg_state r = phase_flag p" ..
  from check_failure_ok [OF assms this, of sc t socks] obtain r' ev q
    where r': "rmptcp_check_failure sc socks t r = Some r'" "fail_inv r'" "reg_state r' = phase_flag q"
      "red_step (phase_of r) ev q" "event_guard sc t r ev"
      "inTime_cnt r' = (if ev = Enough_In_Time then 0 else inTime_cnt r)"
    unfolding step_ok_def by blast
  have "phase_of r' = q" by (rule phase_of_flag [OF r'(3)])
  with r' True show ?thesis by (simp del: split_paired_Ex) blast
next
  case False
  have "reg_state r \<noteq> REDF_Open" "reg_state r \<noteq> REDF_Recovery" "reg_state r \<noteq> REDF_Timeout"
    "reg_state r \<noteq> REDF_Cong"
    using False by (metis phase_flag_def red_phase.case)+
  with False show ?thesis
    using fail_inv_scan [OF assms, of sc socks t]
    by (simp add: check_failure_cases Let_def fail_inv_def reg_wf_def)
qed

text \<open>Hold times: on every run of checks that starts with the entry into congestion at \<open>t0\<close>,
  whatever the rest of the handler does in between, the connection is in congestion until
  \<open>t0 + CS_hold\<close> and is not open again before \<open>t0 + 3 CS_hold\<close>.\<close>

lemma rmptcp_check_failure_hold_times:
  assumes "seg_run sc r t0 r' t" and "reg_state r = REDF_Cong" and "last_ca_state r = t0"
    and "0 \<le> t0" and "t < 2 ^ 62" and "0 \<le> sysctl_CS_hold sc" and "sysctl_CS_hold sc < 2 ^ 30"
  shows "(t \<le> t0 + sysctl_CS_hold sc * 1000000 \<longrightarrow> reg_state r' = REDF_Cong) \<and>
    (reg_state r' = REDF_Open \<longrightarrow> t0 + 3 * sysctl_CS_hold sc * 1000000 < t)"
  using since_cong_run [OF assms(1,2,3,4,6,7,5)] assms(6) unfolding since_cong_def
  by (elim conjE disjE) (simp_all add: flag_simps)

text \<open>A timeout is attributed to a subflow: the flag is set on an enabled, unavailable
  subflow whose expected next use (last use, mean period and the tolerated deviation) is the
  earliest of all such subflows; nothing else in the list changes.\<close>

lemma rmptcp_statechange_timeout2cong_earliest:
  assumes "reg_wf r" and "i < sk_list_size r" and "unavailable_enabled (sk_list r ! i)"
    and "sk_next_use sc (sk_list r ! i) < S64_MAX"
  shows "\<exists>k r'. k < sk_list_size r \<and> unavailable_enabled (sk_list r ! k) \<and>
     (\<forall>j < sk_list_size r. unavailable_enabled (sk_list r ! j) \<longrightarrow>
        sk_next_use sc (sk_list r ! k) \<le> sk_next_use sc (sk_list r ! j)) \<and>
     rmptcp_statechange_timeout2cong sc t r = Some r' \<and> reg_state r' = REDF_Cong \<and>
     cong_flag r' = 1 \<and> last_ca_state r' = t \<and> sk_list_size r' = sk_list_size r \<and>
     sk_list r' = (sk_list r)[k := (sk_list r ! k)\<lparr>rs_state := setf (st r k) REDF_SK_Cong\<rparr>]"
proof -
  let ?m = "earliest (sk_next_use sc) r (S64_MAX, 0)"
  note m = earliest_min(2,3) [where f = "sk_next_use sc" and r = r and v = S64_MAX]
  have lt: "fst ?m < S64_MAX" using m(1) [OF assms(2,3)] assms(4) by linarith
  have k: "snd ?m < sk_list_size r" using m(2) [OF lt] by blast
  then have "snd ?m < MAX_NUM_RED_SK" using assms(1) by (simp add: reg_wf_def)
  then obtain r' where "rmptcp_statechange_timeout2cong sc t r = Some r'" "reg_state r' = REDF_Cong"
     "cong_flag r' = 1" "last_ca_state r' = t" "sk_list_size r' = sk_list_size r"
     "sk_list r' = (sk_list r)[snd ?m := (sk_list r ! snd ?m)\<lparr>rs_state := setf (st r (snd ?m)) REDF_SK_Cong\<rparr>]"
    using lt by (simp add: rmptcp_statechange_timeout2cong_def Let_def rmptcp_statechange_cong_def)
  then show ?thesis using m(1) m(2) [OF lt]
    by (intro exI [of _ "snd ?m"] exI [of _ r']) simp
qed

section \<open>Closed instances\<close>

theorem rmptcp_check_failure_refines_witness:
  "\<exists>r'. rmptcp_check_failure sample_sysctls (\<lambda>_. sample_sock) 7 sample_reg = Some r' \<and> fail_inv r'"
proof -
  have "fail_inv sample_reg" by (simp add: fail_inv_def reg_wf_def sample_reg_def MAX_NUM_RED_SK_def)
  from rmptcp_check_failure_refines [OF this, of sample_sysctls "\<lambda>_. sample_sock" 7]
  show ?thesis by (simp split: if_splits) blast+
qed

text \<open>A register in congestion since time 5, with a hold time of 100 ms.\<close>

definition cong_reg :: redundant_socket_register where
  "cong_reg = sample_reg\<lparr>reg_state := REDF_Cong, last_ca_state := 5\<rparr>"

lemma rmptcp_check_failure_hold_times_witness:
  "\<exists>r'. rmptcp_check_failure (sample_sysctls\<lparr>sysctl_CS_hold := 100\<rparr>) (\<lambda>_. sample_sock) 9 cong_reg
     = Some r' \<and> reg_state r' = REDF_Cong"
proof -
  let ?sc = "sample_sysctls\<lparr>sysctl_CS_hold := 100\<rparr>"
  have "fail_inv cong_reg"
    by (simp add: cong_reg_def fail_inv_def reg_wf_def sample_reg_def MAX_NUM_RED_SK_def)
  moreover have flag: "reg_state cong_reg = phase_flag Cong" by (simp add: cong_reg_def phase_flag_def)
  ultimately obtain r' where r': "rmptcp_check_failure ?sc (\<lambda>_. sample_sock) 9 cong_reg = Some r'"
    using check_failure_ok unfolding step_ok_def by blast
  have "seg_run ?sc cong_reg 5 r' 9"
    by (rule seg_run.check [OF seg_run.start _ _ r']) (simp_all add: env_step_def)
  from rmptcp_check_failure_hold_times [OF this] r' show ?thesis by (simp add: cong_reg_def)
qed

lemma rmptcp_statechange_timeout2cong_earliest_witness:
  "\<exists>r'. rmptcp_statechange_timeout2cong sample_sysctls 7
     (sample_reg\<lparr>sk_list_size := 1, sk_list := replicate 24 (sample_entry\<lparr>rs_state := REDF_SK_Enabled,
        rs_last_used := 0, rs_send_period_mean := 0, rs_send_period_var := 0\<rparr>)\<rparr>) = Some r' \<and>
     has (rs_state (sk_list r' ! 0)) REDF_SK_Cong"
proof -
  let ?e = "sample_entry\<lparr>rs_state := REDF_SK_Enabled, rs_last_used := 0, rs_send_period_mean := 0,
     rs_send_period_var := 0\<rparr>"
  let ?r = "sample_reg\<lparr>sk_list_size := 1, sk_list := replicate 24 ?e\<rparr>"
  have "reg_wf ?r" by (simp add: reg_wf_def MAX_NUM_RED_SK_def)
  moreover have "unavailable_enabled (sk_list ?r ! 0)"
    by (simp add: unavailable_enabled_def flag_simps)
  moreover have "sk_next_use sample_sysctls (sk_list ?r ! 0) < S64_MAX"
    by (simp add: sk_next_use_def S64_MAX_def ktime_to_us_def)
  ultimately show ?thesis
    using rmptcp_statechange_timeout2cong_earliest [of ?r 0 sample_sysctls 7]
    by (auto simp: flag_simps)
qed

end
