(* ===== verification/Red_Bandwidth.thy ===== *)
theory Red_Bandwidth
  imports Red_Register
begin

text \<open>
  The bandwidth measurement of rMPTCP (\<open>rmptcp_update_bw\<close> in \<open>net/mptcp/rmptcp.c\<close>):
  per-subflow and total bandwidth, loss ratio, effective utilisation and their running means.
  Signed differences are taken modulo \<open>2^64\<close> as in the code, and every mean is updated by a
  truncated fraction of the difference.
\<close>

section \<open>Running means\<close>

text \<open>\<open>err = (s64) x; err -= mean; mean = mean + err / n\<close> on unsigned 64-bit values.\<close>

definition mean_upd :: "int \<Rightarrow> u64 \<Rightarrow> u64 \<Rightarrow> u64" where
  "mean_upd n m x = m + word_of_int (sint (x - m) sdiv n)"

text \<open>\<open>if (err < 0) err = -err; err -= var; var += err / n\<close>, \<open>err\<close> being the last difference.\<close>

definition var_upd :: "int \<Rightarrow> u64 \<Rightarrow> int \<Rightarrow> u64" where
  "var_upd n v err =
     v + word_of_int (sint (word_of_int (if err < 0 then s64 (- err) else err) - v) sdiv n)"

section \<open>One entry\<close>

text \<open>\<open>(bytes - bytes_old) * 8 * 1000 / delta_T\<close>, an unsigned division.\<close>

definition rate_kbit :: "u64 \<Rightarrow> u64 \<Rightarrow> int \<Rightarrow> u64" where
  "rate_kbit bytes bytes_old delta_T = ((bytes - bytes_old) * 8 * 1000) div word_of_int delta_T"

definition loss_permille :: "tcp_sock \<Rightarrow> int" where
  "loss_permille sub_tp = s64 (uint (lost_out sub_tp) * 1000) sdiv uint (packets_out sub_tp)"

text \<open>The loss ratio of a subflow; the two branches of the code divide by different constants.\<close>

definition loss_upd :: "bool \<Rightarrow> tcp_sock \<Rightarrow> red_sk \<Rightarrow> u32" where
  "loss_upd calc_subflows sub_tp e =
     (if packets_out sub_tp > 0
      then let err = s64 (loss_permille sub_tp - uint (rs_loss_ratio e))
           in if calc_subflows
              then (if err > -8 \<and> err < 0 then rs_loss_ratio e - 1
                    else word_of_int (uint (rs_loss_ratio e) + err sdiv 8))
              else word_of_int (uint (rs_loss_ratio e) + err sdiv 16)
      else if \<not> has (rs_state e) REDF_SK_Enabled then 0
      else rs_loss_ratio e)"

definition bw_entry :: "int \<Rightarrow> tcp_sock \<Rightarrow> red_sk \<Rightarrow> red_sk" where
  "bw_entry delta_T sub_tp e =
     (let bw = rate_kbit (rs_byte_count e) (rs_byte_count_old e) delta_T
      in e\<lparr>rs_bandwidth := bw,
           rs_byte_count_old := rs_byte_count e,
           rs_bandwidth_mean := mean_upd 16 (rs_bandwidth_mean e) bw,
           rs_loss_ratio := loss_upd True sub_tp e\<rparr>)"

definition skip_entry :: "tcp_sock \<Rightarrow> red_sk \<Rightarrow> red_sk" where
  "skip_entry sub_tp e =
     e\<lparr>rs_byte_count_old := rs_byte_count e, rs_loss_ratio := loss_upd False sub_tp e\<rparr>"

section \<open>The whole measurement\<close>

text \<open>The loop over the subflows: with \<open>calc_subflows\<close> the bandwidths and their sum are computed.\<close>

definition bw_subflows ::
  "socks \<Rightarrow> int \<Rightarrow> bool \<Rightarrow> redundant_socket_register \<Rightarrow> redundant_socket_register" where
  "bw_subflows socks delta_T calc_subflows r =
     (if calc_subflows
      then let xs = upd_upto (sk_list_size r) (\<lambda>_ e. bw_entry delta_T (socks (rs_sk e)) e) (sk_list r);
               total = fold (\<lambda>i t. t + rs_bandwidth (xs ! i)) [0..<sk_list_size r] 0
           in r\<lparr>sk_list := xs, total_bw := total,
                total_bw_mean := mean_upd 16 (total_bw_mean r) total\<rparr>
      else r\<lparr>sk_list := upd_upto (sk_list_size r) (\<lambda>_ e. skip_entry (socks (rs_sk e)) e) (sk_list r)\<rparr>)"

text \<open>The effective utilisation and its mean.\<close>

definition bw_effective ::
  "ktime \<Rightarrow> int \<Rightarrow> redundant_socket_register \<Rightarrow> redundant_socket_register" where
  "bw_effective run_start delta_T r =
     (let util = rate_kbit (effective_byte_count r) (effective_byte_count_old r) delta_T
      in r\<lparr>effective_util := util,
           effective_byte_count_old := effective_byte_count r,
           last_update := run_start,
           effective_util_mean := mean_upd 16 (effective_util_mean r) util\<rparr>)"

text \<open>The mean of the mean and its variance, only in the open state, or in recovery without
  adaptive paths.\<close>

definition bw_mean_mean :: "sysctls \<Rightarrow> redundant_socket_register \<Rightarrow> redundant_socket_register" where
  "bw_mean_mean sc r =
     (let err = sint (effective_util_mean r - effective_util_mean_mean r)
      in if has (reg_state r) REDF_Open
         then r\<lparr>effective_util_mean_mean := mean_upd 32 (effective_util_mean_mean r) (effective_util_mean r),
                effective_util_var := var_upd 32 (effective_util_var r) err\<rparr>
         else if has (reg_state r) REDF_Recovery \<and> sysctl_adaptivPath_enable sc = 0
         then r\<lparr>effective_util_mean_mean := mean_upd 16 (effective_util_mean_mean r) (effective_util_mean r),
                effective_util_var := var_upd 32 (effective_util_var r) err\<rparr>
         else r)"

text \<open>\<open>None\<close> is the division by a zero \<open>delta_T\<close>.\<close>

definition rmptcp_update_bw ::
  "sysctls \<Rightarrow> socks \<Rightarrow> ktime \<Rightarrow> bool \<Rightarrow> redundant_socket_register
     \<Rightarrow> redundant_socket_register option" where
  "rmptcp_update_bw sc socks run_start calc_subflows r =
     (let delta_T = ktime_us_delta run_start (last_update r)
      in if delta_T < sysctl_minDeltaT sc then Some r
         else if delta_T = 0 then None
         else Some (bw_mean_mean sc (bw_effective run_start delta_T
                      (bw_subflows socks delta_T calc_subflows r))))"

section \<open>Lemmas\<close>

text \<open>
  As long as the sample and the mean are within \<open>2^63\<close> of each other, the update on machine
  words is the integer average, so it moves the mean towards the sample and never past it.
\<close>

lemma sint_diff64:
  assumes "uint x - uint (m::u64) < 2 ^ 63" and "- (2 ^ 63) \<le> uint x - uint m"
  shows "sint (x - m) = uint x - uint m"
proof -
  have "x - m = word_of_int (uint x - uint m)" by simp
  then have "sint (x - m) = signed_take_bit 63 (uint x - uint m)"
    by (simp only: sint_sbintrunc') simp
  also have "\<dots> = uint x - uint m"
    using assms by (intro signed_take_bit_int_eq_self) simp_all
  finally show ?thesis .
qed

lemma mean_upd_avg:
  assumes "0 < n" and "uint x - uint m < 2 ^ 63" and "uint m - uint x \<le> 2 ^ 63"
  shows "uint (mean_upd n m x) = avg_step n (uint m) (uint x)"
proof -
  have s: "sint (x - m) = uint x - uint m" using assms by (intro sint_diff64) auto
  have bounds: "min (uint m) (uint x) \<le> avg_step n (uint m) (uint x)"
    "avg_step n (uint m) (uint x) \<le> max (uint m) (uint x)"
    using avg_step_between [OF assms(1), of "uint m" "uint x"] by simp_all
  have lo: "0 \<le> avg_step n (uint m) (uint x)"
    using bounds(1) uint_ge_0 [of m] uint_ge_0 [of x] by linarith
  have hi: "avg_step n (uint m) (uint x) < 2 ^ 64"
    using bounds(2) uint_lt2p [of m] uint_lt2p [of x] by (simp add: max_def split: if_splits)
  have "mean_upd n m x = word_of_int (avg_step n (uint m) (uint x))"
    by (simp add: mean_upd_def avg_step_def s)
  then show ?thesis using lo hi by (simp add: uint_word_of_int_eq take_bit_int_eq_self)
qed

lemma mean_upd_between:
  assumes "0 < n" and "uint x - uint m < 2 ^ 63" and "uint m - uint x \<le> 2 ^ 63"
  shows "min m x \<le> mean_upd n m x \<and> mean_upd n m x \<le> max m x"
  using mean_upd_avg [OF assms] avg_step_between [OF assms(1), of "uint m" "uint x"]
  by (auto simp: word_le_def min_def max_def)

lemma bw_subflows_simps [simp]:
  "sk_list_size (bw_subflows socks d c r) = sk_list_size r"
  "reg_state (bw_subflows socks d c r) = reg_state r"
  "effective_util_mean (bw_subflows socks d c r) = effective_util_mean r"
  "effective_util_mean_mean (bw_subflows socks d c r) = effective_util_mean_mean r"
  "effective_byte_count (bw_subflows socks d c r) = effective_byte_count r"
  "effective_byte_count_old (bw_subflows socks d c r) = effective_byte_count_old r"
  by (simp_all add: bw_subflows_def Let_def)

lemma bw_effective_simps [simp]:
  "sk_list_size (bw_effective t d r) = sk_list_size r"
  "sk_list (bw_effective t d r) = sk_list r"
  "reg_state (bw_effective t d r) = reg_state r"
  "total_bw_mean (bw_effective t d r) = total_bw_mean r"
  by (simp_all add: bw_effective_def Let_def)

lemma bw_mean_mean_simps [simp]:
  "sk_list_size (bw_mean_mean sc r) = sk_list_size r"
  "sk_list (bw_mean_mean sc r) = sk_list r"
  "reg_state (bw_mean_mean sc r) = reg_state r"
  "effective_util_mean (bw_mean_mean sc r) = effective_util_mean r"
  "last_update (bw_mean_mean sc r) = last_update r"
  by (simp_all add: bw_mean_mean_def Let_def)

lemma rs_sk_bw [simp]: "rs_sk (bw_entry d tp e) = rs_sk e" "rs_sk (skip_entry tp e) = rs_sk e"
  "rs_state (bw_entry d tp e) = rs_state e" "rs_state (skip_entry tp e) = rs_state e"
  by (simp_all add: bw_entry_def skip_entry_def Let_def)

lemma update_bw_inv:
  assumes "reg_inv socks r" and "rmptcp_update_bw sc socks' t c r = Some r'"
  shows "reg_inv socks r'"
proof (cases "r' = r")
  case False
  then have r': "sk_list r' = sk_list (bw_subflows socks' (ktime_us_delta t (last_update r)) c r)"
    "sk_list_size r' = sk_list_size r"
    using assms(2) by (auto simp: rmptcp_update_bw_def Let_def split: if_splits)
  have wf: "reg_wf r" using assms(1) by (rule reg_inv_wf)
  then have wf': "reg_wf r'" by (simp add: reg_wf_def r' bw_subflows_def Let_def)
  have "reg_sks r' = reg_sks r"
    by (rule reg_sks_eqI [OF wf wf' r'(2)])
       (simp add: r'(1) bw_subflows_def Let_def loop_simps reg_wf_size wf)
  then show ?thesis using reg_inv_same_sks [OF assms(1) wf'] by simp
qed (use assms in simp)

section \<open>Properties\<close>

text \<open>A bandwidth measurement that is not suppressed leaves every mean bandwidth between its old
  value and the new sample, the sample being the bytes sent since the last measurement times 8000
  over the elapsed microseconds, provided sample and mean are less than \<open>2^63\<close> apart.\<close>

lemma rmptcp_update_bw_mean_between:
  assumes "reg_wf r" and "i < sk_list_size r"
    and "rmptcp_update_bw sc socks t True r = Some r'"
    and "delta_T = ktime_us_delta t (last_update r)" and "sysctl_minDeltaT sc \<le> delta_T"
    and "e = sk_list r ! i" and "e' = sk_list r' ! i"
    and "uint (rs_bandwidth e') - uint (rs_bandwidth_mean e) < 2 ^ 63"
    and "uint (rs_bandwidth_mean e) - uint (rs_bandwidth e') \<le> 2 ^ 63"
  shows "rs_bandwidth e' = (rs_byte_count e - rs_byte_count_old e) * 8 * 1000 div word_of_int delta_T
    \<and> rs_byte_count_old e' = rs_byte_count e
    \<and> min (rs_bandwidth_mean e) (rs_bandwidth e') \<le> rs_bandwidth_mean e'
    \<and> rs_bandwidth_mean e' \<le> max (rs_bandwidth_mean e) (rs_bandwidth e')"
proof -
  have "sk_list r' = sk_list (bw_subflows socks delta_T True r)"
    using assms(3,4,5) by (auto simp: rmptcp_update_bw_def Let_def split: if_splits)
  then have e': "e' = bw_entry delta_T (socks (rs_sk e)) e"
    using assms(1,2,6,7) by (simp add: bw_subflows_def Let_def loop_simps reg_wf_size)
  then have "rs_bandwidth_mean e' = mean_upd 16 (rs_bandwidth_mean e) (rs_bandwidth e')"
    by (simp add: bw_entry_def Let_def)
  with mean_upd_between [of 16 "rs_bandwidth e'" "rs_bandwidth_mean e"] assms(8,9)
  show ?thesis by (simp add: e') (simp add: bw_entry_def Let_def rate_kbit_def)
qed

text \<open>The measurement divides by zero only when the user lowers the minimal interval to zero or
  below; with a positive minimal interval it always returns, and a call before the interval has
  passed changes nothing.\<close>

lemma rmptcp_update_bw_total:
  assumes "0 < sysctl_minDeltaT sc"
  shows "\<exists>r'. rmptcp_update_bw sc socks t c r = Some r' \<and>
     (ktime_us_delta t (last_update r) < sysctl_minDeltaT sc \<longrightarrow> r' = r) \<and>
     (sysctl_minDeltaT sc \<le> ktime_us_delta t (last_update r) \<longrightarrow> last_update r' = t)"
  using assms by (auto simp: rmptcp_update_bw_def Let_def bw_effective_def)

lemma rmptcp_update_bw_total_witness:
  "\<exists>r'. rmptcp_update_bw sample_sysctls (\<lambda>_. sample_sock) 50000000 True sample_reg = Some r' \<and>
     last_update r' = 50000000"
  using rmptcp_update_bw_total [of sample_sysctls "\<lambda>_. sample_sock" 50000000 True sample_reg]
  by (simp add: sample_sysctls_def sample_reg_def ktime_us_delta_def ktime_to_us_def
      signed_divide_int_def)

lemma sample_update_bw:
  "\<exists>r'. rmptcp_update_bw sample_sysctls (\<lambda>_. sample_sock) 50000000 True sample_reg = Some r' \<and>
     sk_list r' ! 0 = bw_entry 50000 sample_sock (sk_list sample_reg ! 0)"
  by (simp add: rmptcp_update_bw_def sample_sysctls_def sample_reg_def ktime_us_delta_def
      ktime_to_us_def signed_divide_int_def bw_subflows_def Let_def loop_simps MAX_NUM_RED_SK_def)

lemma rmptcp_update_bw_mean_between_witness:
  "\<exists>r'. rmptcp_update_bw sample_sysctls (\<lambda>_. sample_sock) 50000000 True sample_reg = Some r' \<and>
     rs_bandwidth_mean (sk_list r' ! 0) \<le> max (rs_bandwidth_mean (sk_list sample_reg ! 0))
        (rs_bandwidth (sk_list r' ! 0))"
proof -
  obtain r' where r': "rmptcp_update_bw sample_sysctls (\<lambda>_. sample_sock) 50000000 True sample_reg = Some r'"
    and e': "sk_list r' ! 0 = bw_entry 50000 sample_sock (sk_list sample_reg ! 0)"
    using sample_update_bw by blast
  have zero: "rs_bandwidth (sk_list r' ! 0) = 0" "rs_bandwidth_mean (sk_list sample_reg ! 0) = 0"
    by (simp_all add: e' bw_entry_def Let_def rate_kbit_def sample_reg_def sample_entry_def
        MAX_NUM_RED_SK_def)
  have "0 < sk_list_size sample_reg" by (simp add: sample_reg_def)
  from rmptcp_update_bw_mean_between [OF reg_inv_wf [OF sample_reg_inv] this r' refl _ refl refl]
  show ?thesis using zero r'
    by (simp add: sample_sysctls_def sample_reg_def ktime_us_delta_def ktime_to_us_def
        signed_divide_int_def)
qed

end
