(* ===== verification/Path_Check.thy ===== *)
theory Path_Check
  imports Red_Register
begin

text \<open>
  The path checker of rMPTCP (\<open>net/mptcp/rmptcp_pathcheck.c\<close>): it enumerates the combinations of
  subflows that use no address twice, tests one after the other and records measurements.

  Address arrays are lists of their used prefix; the array \<open>pM\<close> of measurements has all its
  \<open>MAX_NUM_RED_SK\<close> elements, because the code may read one that was never written.
\<close>

section \<open>Data\<close>

definition MAX_NUM_SRC_SK :: nat where "MAX_NUM_SRC_SK = 4"
definition MAX_NUM_DST_SK :: nat where "MAX_NUM_DST_SK = 4"

record pathMeasurements =
  pm_mask :: u32
  pm_lowest_RTT :: u32
  pm_RTT_sum :: u32
  pm_total_bw :: u32
  pm_min_subflow_bw :: u32

record pathIndex =
  num_pathCombinations :: nat
  max_num_parallelPaths :: nat
  pi_active :: int
  src_addr :: "u32 list"
  dst_addr :: "u32 list"
  pM :: "pathMeasurements list"

text \<open>The static variables of \<open>pathChecker\<close>.\<close>

record path_checker =
  start_last_combination :: ktime
  running :: bool
  test_index :: nat

definition pi_wf :: "pathIndex \<Rightarrow> bool" where
  "pi_wf pI \<longleftrightarrow> length (pM pI) = MAX_NUM_RED_SK"

section \<open>Addresses\<close>

text \<open>One loop of \<open>getAddresses\<close>: the addresses found, and whether it returned because the array is
  full.\<close>

fun collect_addrs :: "nat \<Rightarrow> u32 list \<Rightarrow> u32 list \<Rightarrow> u32 list \<times> bool" where
  "collect_addrs limit [] acc = (acc, False)"
| "collect_addrs limit (a # as) acc =
     (if a \<in> set acc then collect_addrs limit as acc
      else let acc' = acc @ [a]
           in if length acc' \<ge> limit then (acc', True) else collect_addrs limit as acc')"

definition getAddresses :: "socks \<Rightarrow> redundant_socket_register \<Rightarrow> pathIndex \<Rightarrow> pathIndex" where
  "getAddresses socks r pI =
     (let sks = map (\<lambda>e. socks (rs_sk e)) (entries r);
          (srcs, full) = collect_addrs MAX_NUM_SRC_SK (map rcv_saddr sks) [];
          dsts = (if full then [] else fst (collect_addrs MAX_NUM_DST_SK (map daddr sks) []))
      in pI\<lparr>src_addr := srcs, dst_addr := dsts\<rparr>)"

section \<open>Combinations\<close>

text \<open>The check of one mask: an address is used twice, or the combination is free of overlaps, or the
  function returns because a temporary array is full.\<close>

datatype mask_result = Overlap | Overlap_Free | Abort

fun test_mask :: "(u32 \<times> u32) list \<Rightarrow> nat \<Rightarrow> u32 list \<Rightarrow> u32 list \<Rightarrow> nat list \<Rightarrow> mask_result" where
  "test_mask keys m srcs dsts [] = Overlap_Free"
| "test_mask keys m srcs dsts (i # is) =
     (if \<not> bit m i then test_mask keys m srcs dsts is
      else if fst (keys ! i) \<notin> set srcs \<and> snd (keys ! i) \<notin> set dsts
      then let srcs' = srcs @ [fst (keys ! i)]; dsts' = dsts @ [snd (keys ! i)]
           in if length srcs' \<ge> MAX_NUM_SRC_SK \<or> length dsts' \<ge> MAX_NUM_DST_SK then Abort
              else test_mask keys m srcs' dsts' is
      else Overlap)"

definition num_paths :: "nat \<Rightarrow> nat \<Rightarrow> nat" where
  "num_paths n m = count_upto n (bit m)"

definition add_combination :: "nat \<Rightarrow> pathIndex \<Rightarrow> pathIndex option" where
  "add_combination m pI =
     (if num_pathCombinations pI < MAX_NUM_RED_SK
      then Some (pI\<lparr>pM := (pM pI)[num_pathCombinations pI :=
                     \<lparr>pm_mask = of_nat m, pm_lowest_RTT = 0, pm_RTT_sum = 0, pm_total_bw = 0,
                      pm_min_subflow_bw = 0\<rparr>],
                    num_pathCombinations := Suc (num_pathCombinations pI)\<rparr>)
      else None)"

fun try_masks :: "(u32 \<times> u32) list \<Rightarrow> nat list \<Rightarrow> pathIndex \<Rightarrow> pathIndex option" where
  "try_masks keys [] pI = Some pI"
| "try_masks keys (m # ms) pI =
     (if num_paths (length keys) m \<noteq> max_num_parallelPaths pI then try_masks keys ms pI
      else (case test_mask keys m [] [] [0..<length keys] of
              Overlap \<Rightarrow> try_masks keys ms pI
            | Abort \<Rightarrow> Some pI
            | Overlap_Free \<Rightarrow> do { pI' \<leftarrow> add_combination m pI; try_masks keys ms pI' }))"

definition entry_keys :: "socks \<Rightarrow> redundant_socket_register \<Rightarrow> (u32 \<times> u32) list" where
  "entry_keys socks r = map (\<lambda>e. sk_key (socks (rs_sk e))) (entries r)"

definition getPathCombinations ::
  "socks \<Rightarrow> redundant_socket_register \<Rightarrow> pathIndex \<Rightarrow> pathIndex option" where
  "getPathCombinations socks r pI =
     (let pI1 = getAddresses socks r pI;
          pI2 = pI1\<lparr>max_num_parallelPaths := min (length (src_addr pI1)) (length (dst_addr pI1)),
                    num_pathCombinations := 0\<rparr>
      in try_masks (entry_keys socks r) [0..<2 ^ sk_list_size r] pI2)"

section \<open>Measurements\<close>

definition UINT_MAX :: u32 where "UINT_MAX = 0xFFFFFFFF"

definition measure_entry :: "socks \<Rightarrow> red_sk \<Rightarrow> pathMeasurements \<Rightarrow> pathMeasurements" where
  "measure_entry socks e p =
     (if has (rs_state e) REDF_SK_Enabled
      then let rtt = drop_bit 3 (srtt_us (socks (rs_sk e)))
           in p\<lparr>pm_RTT_sum := pm_RTT_sum p + rtt,
                pm_lowest_RTT := (if rtt < pm_lowest_RTT p then rtt else pm_lowest_RTT p),
                pm_min_subflow_bw := (if rs_bandwidth_mean e < ucast (pm_min_subflow_bw p)
                                      then ucast (rs_bandwidth_mean e) else pm_min_subflow_bw p)\<rparr>
      else p)"

definition getMeasurements ::
  "socks \<Rightarrow> redundant_socket_register \<Rightarrow> nat \<Rightarrow> pathIndex \<Rightarrow> pathIndex option" where
  "getMeasurements socks r index pI =
     (if MAX_NUM_RED_SK \<le> index then None
      else let p0 = (pM pI ! index)\<lparr>pm_total_bw := ucast (total_bw_mean r), pm_lowest_RTT := UINT_MAX,
                       pm_RTT_sum := 0, pm_min_subflow_bw := UINT_MAX\<rparr>
           in Some (pI\<lparr>pM := (pM pI)[index := fold (measure_entry socks) (entries r) p0]\<rparr>))"

section \<open>The checker\<close>

text \<open>Select the combination under test.\<close>

definition activate_mask ::
  "nat \<Rightarrow> pathIndex \<Rightarrow> redundant_socket_register \<Rightarrow> redundant_socket_register" where
  "activate_mask i pI r =
     rmptcp_set_all_main (rmptcp_set_enable_flag (r\<lparr>enable_mask := pm_mask (pM pI ! i)\<rparr>))"

text \<open>One call of \<open>pathChecker\<close>; the last component is \<open>sysctl_rmptcp_runpathcheck\<close> afterwards.\<close>

definition pathChecker ::
  "sysctls \<Rightarrow> socks \<Rightarrow> ktime \<Rightarrow> redundant_socket_register \<Rightarrow> pathIndex \<Rightarrow> path_checker
     \<Rightarrow> (redundant_socket_register \<times> pathIndex \<times> path_checker \<times> int) option" where
  "pathChecker sc socks run_start r pI pc =
    (if \<not> running pc
     then do { pI' \<leftarrow> getPathCombinations socks r pI;
               Some (activate_mask 0 pI' r, pI'\<lparr>pi_active := -1\<rparr>,
                     pc\<lparr>running := True, test_index := 0, start_last_combination := run_start\<rparr>,
                     sysctl_runpathcheck sc) }
     else if ktime_before (ktime_add_ms (start_last_combination pc)
               (word_of_int (s32 (sysctl_runpathcheck_duration sc * 1000)))) run_start
     then do { pI' \<leftarrow> getMeasurements socks r (test_index pc) pI;
               let k = Suc (test_index pc) in
               if num_pathCombinations pI' \<le> k
               then Some (r, pI', pc\<lparr>running := False, test_index := k\<rparr>, 0)
               else if MAX_NUM_RED_SK \<le> k then None
               else Some (activate_mask k pI' r, pI',
                          pc\<lparr>test_index := k, start_last_combination := run_start\<rparr>,
                          sysctl_runpathcheck sc) }
     else Some (r, pI, pc, sysctl_runpathcheck sc))"

section \<open>Collecting addresses\<close>

lemma collect_addrs_spec:
  assumes "distinct acc" and "collect_addrs limit as acc = (res, full)" and "length acc < limit"
  shows "distinct res \<and> set acc \<subseteq> set res \<and> set res \<subseteq> set acc \<union> set as \<and>
    (if full then length res = limit else length res < limit \<and> set res = set acc \<union> set as)"
  using assms
proof (induction as arbitrary: acc)
  case (Cons a as)
  show ?case
  proof (cases "a \<in> set acc")
    case True
    then show ?thesis using Cons by (auto split: if_splits)
  next
    case False
    show ?thesis
    proof (cases "limit \<le> Suc (length acc)")
      case True
      then show ?thesis using Cons.prems False by auto
    next
      case not_full: False
      have "collect_addrs limit as (acc @ [a]) = (res, full)" using Cons.prems False not_full by simp
      from Cons.IH [OF _ this] show ?thesis using Cons.prems False not_full by (auto split: if_splits)
    qed
  qed
qed auto

lemma collect_addrs_few:
  assumes "card (set as) < limit"
  shows "\<exists>res. collect_addrs limit as [] = (res, False) \<and> distinct res \<and> set res = set as"
proof -
  obtain res full where res: "collect_addrs limit as [] = (res, full)" by (cases "collect_addrs limit as []")
  have spec: "distinct res \<and> set res \<subseteq> set as \<and> (if full then length res = limit else set res = set as)"
    using collect_addrs_spec [OF _ res] assms by (auto split: if_splits)
  have "length res = card (set res)" using spec distinct_card [of res] by simp
  also have "\<dots> \<le> card (set as)" using spec by (intro card_mono) auto
  finally have "\<not> full" using spec assms by auto
  then show ?thesis using res spec by auto
qed

section \<open>The enumeration\<close>

text \<open>The subflows of a mask share no address.\<close>

definition overlap_free :: "(u32 \<times> u32) list \<Rightarrow> nat \<Rightarrow> bool" where
  "overlap_free keys m \<longleftrightarrow> (\<forall>i < length keys. \<forall>j < length keys. bit m i \<and> bit m j \<and> i \<noteq> j \<longrightarrow>
     fst (keys ! i) \<noteq> fst (keys ! j) \<and> snd (keys ! i) \<noteq> snd (keys ! j))"

lemma test_mask_spec:
  assumes "length srcs = length dsts" and "length srcs + length (filter (bit m) is) < 4"
    and "distinct srcs" and "distinct dsts"
  shows "test_mask keys m srcs dsts is =
    (if distinct (srcs @ map (\<lambda>i. fst (keys ! i)) (filter (bit m) is)) \<and>
        distinct (dsts @ map (\<lambda>i. snd (keys ! i)) (filter (bit m) is))
     then Overlap_Free else Overlap)"
  using assms
proof (induction "is" arbitrary: srcs dsts)
  case (Cons i "is")
  show ?case
  proof (cases "bit m i")
    case True
    show ?thesis
    proof (cases "fst (keys ! i) \<notin> set srcs \<and> snd (keys ! i) \<notin> set dsts")
      case new: True
      have "test_mask keys m srcs dsts (i # is) =
          test_mask keys m (srcs @ [fst (keys ! i)]) (dsts @ [snd (keys ! i)]) is"
        using new True Cons.prems by (simp add: MAX_NUM_SRC_SK_def MAX_NUM_DST_SK_def)
      also have "\<dots> = (if distinct ((srcs @ [fst (keys ! i)]) @ map (\<lambda>i. fst (keys ! i)) (filter (bit m) is)) \<and>
          distinct ((dsts @ [snd (keys ! i)]) @ map (\<lambda>i. snd (keys ! i)) (filter (bit m) is))
        then Overlap_Free else Overlap)"
        by (rule Cons.IH) (use Cons.prems True new in auto)
      finally show ?thesis using True by simp
    next
      case False
      then show ?thesis using True by auto
    qed
  qed (use Cons in simp)
qed simp

lemma test_mask_overlap_free:
  assumes "num_paths (length keys) m < 4"
  shows "test_mask keys m [] [] [0..<length keys] =
    (if overlap_free keys m then Overlap_Free else Overlap)"
proof -
  have d: "distinct (map (\<lambda>i. f (keys ! i)) (filter (bit m) [0..<length keys])) \<longleftrightarrow>
      (\<forall>i < length keys. \<forall>j < length keys. bit m i \<and> bit m j \<and> i \<noteq> j \<longrightarrow> f (keys ! i) \<noteq> f (keys ! j))"
    for f :: "u32 \<times> u32 \<Rightarrow> u32"
    by (auto simp: distinct_map inj_on_def)
  have "length (filter (bit m) [0..<length keys]) < 4" using assms by (simp add: num_paths_def count_upto_def)
  then show ?thesis
    by (subst test_mask_spec) (auto simp: d overlap_free_def)
qed

definition good_mask :: "(u32 \<times> u32) list \<Rightarrow> nat \<Rightarrow> nat \<Rightarrow> bool" where
  "good_mask keys k m \<longleftrightarrow> num_paths (length keys) m = k \<and> overlap_free keys m"

definition found_masks :: "pathIndex \<Rightarrow> u32 list" where
  "found_masks pI = map pm_mask (take (num_pathCombinations pI) (pM pI))"

lemma add_combination_spec:
  assumes "pi_wf pI" and "num_pathCombinations pI < MAX_NUM_RED_SK"
  shows "\<exists>pI'. add_combination m pI = Some pI' \<and> pi_wf pI' \<and>
    num_pathCombinations pI' = Suc (num_pathCombinations pI) \<and>
    found_masks pI' = found_masks pI @ [of_nat m] \<and>
    max_num_parallelPaths pI' = max_num_parallelPaths pI \<and> src_addr pI' = src_addr pI \<and>
    dst_addr pI' = dst_addr pI"
  using assms by (simp add: add_combination_def pi_wf_def found_masks_def take_Suc_conv_app_nth)

lemma try_masks_spec:
  fixes keys :: "(u32 \<times> u32) list"
  assumes "pi_wf pI" and "num_pathCombinations pI \<le> MAX_NUM_RED_SK" and "max_num_parallelPaths pI < 4"
  defines "good \<equiv> good_mask keys (max_num_parallelPaths pI)"
  shows "if num_pathCombinations pI + length (filter good ms) \<le> MAX_NUM_RED_SK
    then \<exists>pI'. try_masks keys ms pI = Some pI' \<and> pi_wf pI' \<and>
      num_pathCombinations pI' = num_pathCombinations pI + length (filter good ms) \<and>
      found_masks pI' = found_masks pI @ map of_nat (filter good ms) \<and>
      max_num_parallelPaths pI' = max_num_parallelPaths pI \<and> src_addr pI' = src_addr pI \<and>
      dst_addr pI' = dst_addr pI
    else try_masks keys ms pI = None"
  using assms(1-3) unfolding good_def
proof (induction ms arbitrary: pI)
  case (Cons m ms)
  let ?k = "max_num_parallelPaths pI"
  show ?case
  proof (cases "good_mask keys ?k m")
    case True
    then have step: "try_masks keys (m # ms) pI = do { pI' \<leftarrow> add_combination m pI; try_masks keys ms pI' }"
      using Cons.prems(3) by (simp add: good_mask_def test_mask_overlap_free)
    show ?thesis
    proof (cases "num_pathCombinations pI < MAX_NUM_RED_SK")
      case room: True
      obtain pI1 where pI1: "add_combination m pI = Some pI1" "pi_wf pI1"
        "num_pathCombinations pI1 = Suc (num_pathCombinations pI)"
        "found_masks pI1 = found_masks pI @ [of_nat m]" "max_num_parallelPaths pI1 = ?k"
        "src_addr pI1 = src_addr pI" "dst_addr pI1 = dst_addr pI"
        using add_combination_spec [OF Cons.prems(1) room, of m] by blast
      have "try_masks keys (m # ms) pI = try_masks keys ms pI1" by (simp only: step pI1(1) Option.bind.bind_lunit)
      then show ?thesis using Cons.IH [of pI1] pI1 room Cons.prems(3) True
        by (simp del: try_masks.simps split: if_splits)
    next
      case False
      then show ?thesis using step True by (simp add: add_combination_def)
    qed
  next
    case False
    then have "try_masks keys (m # ms) pI = try_masks keys ms pI"
      using Cons.prems(3) by (auto simp: good_mask_def test_mask_overlap_free)
    then show ?thesis using Cons.IH [OF Cons.prems] False by simp
  qed
qed (simp add: found_masks_def)

section \<open>The measurement loop\<close>

definition min_bw64 :: "pathMeasurements \<Rightarrow> u64" where
  "min_bw64 p = ucast (pm_min_subflow_bw p)"

lemma measure_entry_simps:
  assumes "has (rs_state e) REDF_SK_Enabled"
  shows "pm_mask (measure_entry socks e p) = pm_mask p"
    "pm_total_bw (measure_entry socks e p) = pm_total_bw p"
    "pm_RTT_sum (measure_entry socks e p) = pm_RTT_sum p + drop_bit 3 (srtt_us (socks (rs_sk e)))"
    "pm_lowest_RTT (measure_entry socks e p) =
       min (pm_lowest_RTT p) (drop_bit 3 (srtt_us (socks (rs_sk e))))"
    "min_bw64 (measure_entry socks e p) = min (min_bw64 p) (rs_bandwidth_mean e)"
proof -
  have "ucast (ucast (rs_bandwidth_mean e) :: u32) = rs_bandwidth_mean e"
    if "rs_bandwidth_mean e < ucast (pm_min_subflow_bw p)"
  proof (rule ucast_back)
    have "unat (rs_bandwidth_mean e) < unat (pm_min_subflow_bw p)"
      using that by (simp add: word_less_nat_alt)
    then show "unat (rs_bandwidth_mean e) < 2 ^ 32" using unat_bound [of "pm_min_subflow_bw p"] by simp
  qed
  then show "min_bw64 (measure_entry socks e p) = min (min_bw64 p) (rs_bandwidth_mean e)"
    using assms by (auto simp: measure_entry_def Let_def min_bw64_def min_def not_less)
qed (use assms in \<open>auto simp: measure_entry_def Let_def min_def\<close>)

lemma measure_entry_skip: "\<not> has (rs_state e) REDF_SK_Enabled \<Longrightarrow> measure_entry socks e p = p"
  by (simp add: measure_entry_def)

lemma measure_fold_same:
  "pm_mask (fold (measure_entry socks) es p) = pm_mask p"
  "pm_total_bw (fold (measure_entry socks) es p) = pm_total_bw p"
  by (induction es arbitrary: p) (simp_all add: measure_entry_def Let_def)

lemma measure_fold_sum:
  "pm_RTT_sum (fold (measure_entry socks) es p) = pm_RTT_sum p +
     sum_list (map (\<lambda>e. drop_bit 3 (srtt_us (socks (rs_sk e))))
       (filter (\<lambda>e. has (rs_state e) REDF_SK_Enabled) es))"
proof (induction es arbitrary: p)
  case (Cons e es)
  then show ?case
    by (cases "has (rs_state e) REDF_SK_Enabled")
       (simp_all add: measure_entry_simps measure_entry_skip add.assoc)
qed simp

text \<open>A fold that takes minima ends in a lower bound that is attained.\<close>

lemma fold_min_spec:
  fixes g :: "'p \<Rightarrow> 'o::linorder"
  assumes step: "\<And>e p. P e \<Longrightarrow> g (f e p) = min (g p) (v e)" and skip: "\<And>e p. \<not> P e \<Longrightarrow> g (f e p) = g p"
  shows "g (fold f es p) \<le> g p \<and> (\<forall>e \<in> set (filter P es). g (fold f es p) \<le> v e) \<and>
    (g (fold f es p) = g p \<or> (\<exists>e \<in> set (filter P es). g (fold f es p) = v e))"
proof (induction es arbitrary: p)
  case (Cons e es)
  note IH = Cons.IH [of "f e p"]
  show ?case
  proof (cases "P e")
    case True
    then show ?thesis using IH step [OF True, of p] by (auto simp: min_def split: if_splits)
  next
    case False
    then show ?thesis using IH skip [OF False, of p] by simp
  qed
qed simp

lemmas measure_fold_rtt = fold_min_spec [where g = pm_lowest_RTT and P = "\<lambda>e. has (rs_state e) REDF_SK_Enabled"
  and f = "measure_entry socks" and v = "\<lambda>e. drop_bit 3 (srtt_us (socks (rs_sk e)))" for socks,
  OF measure_entry_simps(4) arg_cong [OF measure_entry_skip]]

lemmas measure_fold_bw = fold_min_spec [where g = min_bw64 and P = "\<lambda>e. has (rs_state e) REDF_SK_Enabled"
  and f = "measure_entry socks" and v = rs_bandwidth_mean for socks,
  OF measure_entry_simps(5) arg_cong [OF measure_entry_skip]]

section \<open>Properties\<close>

text \<open>How large a combination can be: every source and every destination address is used once.\<close>

lemma num_paths_card: "num_paths n m = card {i. i < n \<and> bit m i}"
proof -
  have "{i. i < n \<and> bit m i} = set (filter (bit m) [0..<n])" by auto
  then show ?thesis by (simp add: num_paths_def count_upto_def distinct_card [symmetric] del: set_filter)
qed

lemma overlap_free_bound:
  assumes "overlap_free keys m"
  shows "num_paths (length keys) m \<le> min (card (fst ` set keys)) (card (snd ` set keys))"
proof -
  let ?I = "{i. i < length keys \<and> bit m i}"
  have "card ?I \<le> card (f ` set keys)" if "inj_on (\<lambda>i. f (keys ! i)) ?I" for f :: "u32 \<times> u32 \<Rightarrow> u32"
    by (rule card_inj_on_le [OF that]) auto
  moreover have "inj_on (\<lambda>i. fst (keys ! i)) ?I" "inj_on (\<lambda>i. snd (keys ! i)) ?I"
    using assms by (auto simp: inj_on_def overlap_free_def)
  ultimately show ?thesis by (simp add: num_paths_card)
qed

lemma nat_with_bits:
  assumes "A \<subseteq> {..<n}"
  shows "\<exists>m::nat. m < 2 ^ n \<and> (\<forall>i. bit m i \<longleftrightarrow> i \<in> A)"
proof -
  have "finite A" using assms finite_subset by blast
  then have "\<exists>m::nat. \<forall>i. bit m i \<longleftrightarrow> i \<in> A"
  proof (induction A)
    case (insert x A)
    then obtain m :: nat where "\<forall>i. bit m i \<longleftrightarrow> i \<in> A" by blast
    then show ?case by (intro exI [of _ "set_bit x m"]) (auto simp: bit_set_bit_iff possible_bit_def)
  qed (auto intro: exI [of _ 0])
  then obtain m :: nat where m: "\<forall>i. bit m i \<longleftrightarrow> i \<in> A" by blast
  have "take_bit n m = m" by (rule bit_eqI) (use m assms in \<open>auto simp: bit_take_bit_iff\<close>)
  then show ?thesis using m take_bit_nat_less_exp [of n m] by auto
qed

text \<open>In a full mesh of addresses the largest size is reached.\<close>

lemma full_mesh_mask:
  fixes keys :: "(u32 \<times> u32) list"
  assumes mesh: "set keys = S \<times> D" and k: "k = min (card (fst ` set keys)) (card (snd ` set keys))"
  shows "\<exists>m < 2 ^ length keys. good_mask keys k m"
proof -
  have kSD: "k \<le> card S" "k \<le> card D"
    using mesh k by (cases "S = {} \<or> D = {}"; auto)+
  obtain ss where ss: "k \<le> length ss" "distinct ss" "set ss \<subseteq> S"
    using kSD(1) obtain_subset_with_card_n [OF kSD(1)] finite_distinct_list by (metis distinct_card order_refl)
  obtain ds where ds: "k \<le> length ds" "distinct ds" "set ds \<subseteq> D"
    using kSD(2) obtain_subset_with_card_n [OF kSD(2)] finite_distinct_list by (metis distinct_card order_refl)
  have "\<exists>i < length keys. keys ! i = (ss ! j, ds ! j)" if "j < k" for j
  proof -
    have "(ss ! j, ds ! j) \<in> set keys" using mesh ss ds that by (auto dest!: subsetD intro!: nth_mem)
    then show ?thesis by (simp add: in_set_conv_nth)
  qed
  then obtain f where f: "\<And>j. j < k \<Longrightarrow> f j < length keys \<and> keys ! f j = (ss ! j, ds ! j)" by metis
  have inj: "inj_on f {..<k}"
    using f ss by (auto simp: inj_on_def) (metis Pair_inject less_le_trans nth_eq_iff_index_eq)
  obtain m :: nat where m: "m < 2 ^ length keys" "\<forall>i. bit m i \<longleftrightarrow> i \<in> f ` {..<k}"
    using nat_with_bits [of "f ` {..<k}" "length keys"] f by blast
  have "{i. i < length keys \<and> bit m i} = f ` {..<k}" using m f by auto
  then have "num_paths (length keys) m = k" using inj by (simp add: num_paths_card card_image)
  moreover have "overlap_free keys m"
    using m(2) f ss ds by (auto simp: overlap_free_def nth_eq_iff_index_eq)
  ultimately show ?thesis using m(1) by (auto simp: good_mask_def)
qed

text \<open>C34. With fewer than four source and fewer than four destination addresses, the path checker finds exactly the
  combinations of k subflows in which no address is used twice, in increasing order of their masks, where k is the
  smaller one of the numbers of source and of destination addresses; it fails exactly when there are more of them than the
  array of measurements can hold.  No combination in which no address is used twice has more than k subflows, so what is found is
  of the largest size; when the subflows are a full mesh of the addresses at least one is found.  (In other meshes there may be
  none with k subflows, and then none is found although smaller ones exist.)\<close>

theorem getPathCombinations_complete:
  fixes socks :: socks
  assumes wf: "reg_wf r" "pi_wf pI"
    and few: "card (fst ` set (entry_keys socks r)) < 4" "card (snd ` set (entry_keys socks r)) < 4"
  defines "k \<equiv> min (card (fst ` set (entry_keys socks r))) (card (snd ` set (entry_keys socks r)))"
  defines "masks \<equiv> filter (good_mask (entry_keys socks r) k) [0..<2 ^ sk_list_size r]"
  shows "if length masks \<le> MAX_NUM_RED_SK
    then \<exists>pI'. getPathCombinations socks r pI = Some pI' \<and> pi_wf pI' \<and>
       found_masks pI' = map of_nat masks \<and> num_pathCombinations pI' = length masks \<and>
       set (src_addr pI') = fst ` set (entry_keys socks r) \<and>
       set (dst_addr pI') = snd ` set (entry_keys socks r) \<and> max_num_parallelPaths pI' = k \<and>
       (\<forall>m. overlap_free (entry_keys socks r) m \<longrightarrow> num_paths (sk_list_size r) m \<le> k) \<and>
       (set (entry_keys socks r) = S \<times> D \<longrightarrow> masks \<noteq> [])
    else getPathCombinations socks r pI = None"
proof -
  let ?keys = "entry_keys socks r"
  have srcs: "map rcv_saddr (map (\<lambda>e. socks (rs_sk e)) (entries r)) = map fst ?keys"
    and dsts: "map daddr (map (\<lambda>e. socks (rs_sk e)) (entries r)) = map snd ?keys"
    by (simp_all add: entry_keys_def sk_key_def)
  obtain ss where ss: "collect_addrs MAX_NUM_SRC_SK (map fst ?keys) [] = (ss, False)"
    "distinct ss" "set ss = fst ` set ?keys"
    using collect_addrs_few [of "map fst ?keys" MAX_NUM_SRC_SK] few(1) by (auto simp: MAX_NUM_SRC_SK_def)
  obtain ds where ds: "collect_addrs MAX_NUM_DST_SK (map snd ?keys) [] = (ds, False)"
    "distinct ds" "set ds = snd ` set ?keys"
    using collect_addrs_few [of "map snd ?keys" MAX_NUM_DST_SK] few(2) by (auto simp: MAX_NUM_DST_SK_def)
  have len: "length ss = card (fst ` set ?keys)" "length ds = card (snd ` set ?keys)"
    using ss ds distinct_card by metis+
  let ?pI = "pI\<lparr>src_addr := ss, dst_addr := ds, max_num_parallelPaths := k, num_pathCombinations := 0\<rparr>"
  have "getPathCombinations socks r pI = try_masks ?keys [0..<2 ^ sk_list_size r] ?pI"
    unfolding getPathCombinations_def getAddresses_def Let_def srcs dsts ss(1) ds(1) prod.case
    by (simp add: len k_def ds(1))
  moreover have "k < 4" using few by (simp add: k_def min_def)
  moreover have size: "sk_list_size r = length ?keys" using wf(1) by (simp add: entry_keys_def)
  have "\<forall>m. overlap_free ?keys m \<longrightarrow> num_paths (sk_list_size r) m \<le> k"
    unfolding size k_def using overlap_free_bound by blast
  moreover have "set ?keys = S \<times> D \<longrightarrow> masks \<noteq> []"
  proof
    assume "set ?keys = S \<times> D"
    then obtain m where "m < 2 ^ length ?keys" "good_mask ?keys k m" using full_mesh_mask k_def by blast
    then have "m \<in> set masks" by (simp add: masks_def size)
    then show "masks \<noteq> []" by force
  qed
  ultimately show ?thesis
    using try_masks_spec [of ?pI ?keys "[0..<2 ^ sk_list_size r]"] wf ss ds
    by (auto simp: pi_wf_def found_masks_def masks_def split: if_splits)
qed

text \<open>Three sources and three destinations that are not a full mesh: no combination has three subflows without an overlap, so
  that nothing is found, although the second and the fourth subflow share no address.\<close>

definition star_keys :: "(u32 \<times> u32) list" where
  "star_keys = [(1, 1), (2, 1), (3, 1), (1, 2), (1, 3)]"

lemma num_paths_5: "num_paths 5 m = of_bool (bit m 0) + of_bool (bit m 1) + of_bool (bit m 2) + of_bool (bit m 3) + of_bool (bit m 4)"
  by (simp add: num_paths_def count_upto_def upt_rec numeral_2_eq_2 numeral_3_eq_3 eval_nat_numeral)

lemma star_finds_nothing:
  "filter (good_mask star_keys 3) [0..<32] = [] \<and> good_mask star_keys 2 10"
proof -
  have len: "length star_keys = 5" by (simp add: star_keys_def)
  have "\<not> good_mask star_keys 3 m" for m
  proof
    assume g: "good_mask star_keys 3 m"
    have ov: "\<not> (bit m i \<and> bit m j)" if "i < 5" "j < 5" "i \<noteq> j"
        "fst (star_keys ! i) = fst (star_keys ! j) \<or> snd (star_keys ! i) = snd (star_keys ! j)" for i j
      using g that by (auto simp: good_mask_def overlap_free_def len)
    have "num_paths 5 m = 3" using g by (simp add: good_mask_def len)
    then show False
      using ov [of 0 1] ov [of 0 2] ov [of 0 3] ov [of 0 4] ov [of 1 2] ov [of 3 4]
      by (auto simp: star_keys_def num_paths_5 of_bool_def split: if_splits)
  qed
  moreover have bits: "\<not> bit (10::nat) 0" "bit (10::nat) 1" "\<not> bit (10::nat) 2" "bit (10::nat) 3" "\<not> bit (10::nat) 4"
    by (simp_all add: bit_iff_odd)
  have five: "i < 5 \<Longrightarrow> i = 0 \<or> i = 1 \<or> i = 2 \<or> i = 3 \<or> i = 4" for i :: nat by arith
  have "overlap_free star_keys 10"
    unfolding overlap_free_def len using bits by (auto simp: star_keys_def dest!: five)
  moreover have "num_paths 5 10 = 2" using bits by (simp add: num_paths_5)
  ultimately show ?thesis by (simp add: filter_empty_conv good_mask_def len)
qed

text \<open>Two early returns lose combinations.  The fourth source address ends the search before any
  destination address is seen, so that the only combination is the empty one; and a combination of
  four subflows is never recorded.\<close>

lemma getAddresses_four_sources:
  assumes "collect_addrs MAX_NUM_SRC_SK (map (\<lambda>e. rcv_saddr (socks (rs_sk e))) (entries r)) [] = (srcs, True)"
  shows "dst_addr (getAddresses socks r pI) = []"
  using assms by (simp add: getAddresses_def comp_def)

lemma test_mask_four_subflows:
  "test_mask [(1, 1), (2, 2), (3, 3), (4, 4)] 15 [] [] [0..<4] = Abort"
  by code_simp

text \<open>The measurement of a combination: the sum of the smoothed round-trip times of its enabled
  subflows, and lower bounds for their round-trip times and mean bandwidths that are attained; all
  other combinations keep their measurements and every combination its mask.\<close>

lemma getMeasurements_summary:
  fixes socks :: socks and r :: redundant_socket_register
  assumes wf: "pi_wf pI" and idx: "index < MAX_NUM_RED_SK"
  defines "en \<equiv> filter (\<lambda>e. has (rs_state e) REDF_SK_Enabled) (entries r)"
  defines "rtt \<equiv> \<lambda>e. drop_bit 3 (srtt_us (socks (rs_sk e)))"
  shows "\<exists>pI' p. getMeasurements socks r index pI = Some pI' \<and> pM pI' = (pM pI)[index := p] \<and>
    pm_mask p = pm_mask (pM pI ! index) \<and> pm_total_bw p = ucast (total_bw_mean r) \<and>
    pm_RTT_sum p = sum_list (map rtt en) \<and>
    (\<forall>e \<in> set en. pm_lowest_RTT p \<le> rtt e \<and> ucast (pm_min_subflow_bw p) \<le> rs_bandwidth_mean e) \<and>
    (pm_lowest_RTT p = UINT_MAX \<or> (\<exists>e \<in> set en. pm_lowest_RTT p = rtt e)) \<and>
    (pm_min_subflow_bw p = UINT_MAX \<or> (\<exists>e \<in> set en. ucast (pm_min_subflow_bw p) = rs_bandwidth_mean e))"
proof -
  define p0 where "p0 = (pM pI ! index)\<lparr>pm_total_bw := ucast (total_bw_mean r), pm_lowest_RTT := UINT_MAX,
    pm_RTT_sum := 0, pm_min_subflow_bw := UINT_MAX\<rparr>"
  define p where "p = fold (measure_entry socks) (entries r) p0"
  have start: "pm_mask p0 = pm_mask (pM pI ! index)" "pm_total_bw p0 = ucast (total_bw_mean r)"
    "pm_RTT_sum p0 = 0" "pm_lowest_RTT p0 = UINT_MAX" "min_bw64 p0 = ucast UINT_MAX"
    by (simp_all add: p0_def min_bw64_def)
  have res: "getMeasurements socks r index pI = Some (pI\<lparr>pM := (pM pI)[index := p]\<rparr>)"
    using idx by (simp add: getMeasurements_def Let_def p_def p0_def)
  have p: "pm_mask p = pm_mask p0" "pm_total_bw p = pm_total_bw p0"
    "pm_RTT_sum p = pm_RTT_sum p0 + sum_list (map rtt en)"
    by (simp_all add: p_def measure_fold_same measure_fold_sum rtt_def en_def)
  have bw: "min_bw64 p = ucast UINT_MAX \<longleftrightarrow> pm_min_subflow_bw p = UINT_MAX"
    by (simp add: min_bw64_def word_unat_eq_iff)
  show ?thesis
    using measure_fold_rtt [of socks "entries r" p0] measure_fold_bw [of socks "entries r" p0]
    by (intro exI [of _ "pI\<lparr>pM := (pM pI)[index := p]\<rparr>"] exI [of _ p])
       (simp add: res start p bw flip: p_def min_bw64_def, simp add: en_def rtt_def)
qed

section \<open>One step of the checker\<close>

lemma st_activate:
  assumes "reg_wf r" and "i < sk_list_size r"
  shows "has (st (activate_mask k pI r) i) REDF_SK_Enabled \<longleftrightarrow> bit (pm_mask (pM pI ! k)) i"
proof -
  let ?r = "r\<lparr>enable_mask := pm_mask (pM pI ! k)\<rparr>"
  have wf: "reg_wf ?r" using assms(1) by (simp add: reg_wf_def)
  have size: "i < sk_list_size (rmptcp_set_enable_flag ?r)" using assms(2) by simp
  show ?thesis
    using assms(2)
    by (simp add: activate_mask_def st_set_all_main [OF reg_wf_set(1) [OF wf] size]
        st_set_enable_flag [OF wf] flag_simps)
qed

lemma activate_simps [simp]:
  "sk_list_size (activate_mask k pI r) = sk_list_size r"
  by (simp add: activate_mask_def)

lemma activate_sks: "reg_wf r \<Longrightarrow> reg_sks (activate_mask k pI r) = reg_sks r"
proof -
  assume "reg_wf r"
  moreover from this have wf: "reg_wf (r\<lparr>enable_mask := pm_mask (pM pI ! k)\<rparr>)" by (simp add: reg_wf_def)
  moreover have "reg_sks (r\<lparr>enable_mask := m\<rparr>) = reg_sks r" for m by (simp add: reg_sks_def entries_def)
  ultimately show ?thesis by (simp add: activate_mask_def reg_wf_set(1) [OF wf])
qed

lemma activate_wf: "reg_wf r \<Longrightarrow> reg_wf (activate_mask k pI r)"
  unfolding activate_mask_def by (intro reg_wf_set) (simp add: reg_wf_def)

text \<open>A step of a running check: before the duration is over nothing changes; afterwards the
  combination under test is measured and the next one is enabled, as exactly the subflows of its mask,
  or, after the last one, the check ends and clears its sysctl.  It never faults as long as the
  combinations fit the array.\<close>

lemma pathChecker_step:
  assumes wf: "reg_wf r" and run: "running pc" and idx: "test_index pc < num_pathCombinations pI"
    and fits: "num_pathCombinations pI \<le> MAX_NUM_RED_SK"
  shows "\<exists>r' pI' pc' flag. pathChecker sc socks t r pI pc = Some (r', pI', pc', flag) \<and>
    num_pathCombinations pI' = num_pathCombinations pI \<and> reg_wf r' \<and> reg_sks r' = reg_sks r \<and>
    (if \<not> ktime_before (ktime_add_ms (start_last_combination pc)
          (word_of_int (s32 (sysctl_runpathcheck_duration sc * 1000)))) t
     then r' = r \<and> pI' = pI \<and> pc' = pc \<and> flag = sysctl_runpathcheck sc
     else getMeasurements socks r (test_index pc) pI = Some pI' \<and> test_index pc' = Suc (test_index pc) \<and>
       (if Suc (test_index pc) = num_pathCombinations pI then \<not> running pc' \<and> flag = 0 \<and> r' = r
        else running pc' \<and> flag = sysctl_runpathcheck sc \<and> start_last_combination pc' = t \<and>
          (\<forall>i < sk_list_size r'. has (st r' i) REDF_SK_Enabled \<longleftrightarrow>
             bit (pm_mask (pM pI' ! test_index pc')) i)))"
proof (cases "ktime_before (ktime_add_ms (start_last_combination pc)
          (word_of_int (s32 (sysctl_runpathcheck_duration sc * 1000)))) t")
  case False
  then show ?thesis using run wf by (simp add: pathChecker_def)
next
  case True
  have "test_index pc < MAX_NUM_RED_SK" using idx fits by simp
  then obtain pI' where pI': "getMeasurements socks r (test_index pc) pI = Some pI'"
    "num_pathCombinations pI' = num_pathCombinations pI"
    by (auto simp: getMeasurements_def Let_def)
  show ?thesis
  proof (cases "Suc (test_index pc) = num_pathCombinations pI")
    case last: True
    then show ?thesis using True run pI' wf by (simp add: pathChecker_def)
  next
    case False
    then have "Suc (test_index pc) < num_pathCombinations pI" using idx by simp
    then show ?thesis
      using False True run pI' fits st_activate [OF wf] activate_sks [OF wf] activate_wf [OF wf]
      by (simp add: pathChecker_def Let_def)
  qed
qed

section \<open>Closed instances\<close>

definition sample_pI :: pathIndex where
  "sample_pI = \<lparr>num_pathCombinations = 1, max_num_parallelPaths = 1, pi_active = -1, src_addr = [1],
     dst_addr = [1], pM = replicate MAX_NUM_RED_SK \<lparr>pm_mask = 1, pm_lowest_RTT = 0, pm_RTT_sum = 0,
     pm_total_bw = 0, pm_min_subflow_bw = 0\<rparr>\<rparr>"

lemma sample_pI_wf: "pi_wf sample_pI"
  by (simp add: pi_wf_def sample_pI_def)

lemma sample_entry_keys: "entry_keys (\<lambda>_. sample_sock) sample_reg = [(1, 1)]"
  by (simp add: entry_keys_def entries_def sample_reg_def sample_sock_def sk_key_def MAX_NUM_RED_SK_def)

theorem getPathCombinations_complete_witness:
  "\<exists>pI'. getPathCombinations (\<lambda>_. sample_sock) sample_reg sample_pI = Some pI' \<and> found_masks pI' = [1]"
proof -
  have g: "filter (good_mask [(1, 1)] 1) [0..<2 ^ sk_list_size sample_reg] = [1]"
    by (simp add: sample_reg_def upt_rec good_mask_def num_paths_def count_upto_def
        overlap_free_def bit_0)
  have "card (fst ` set (entry_keys (\<lambda>_. sample_sock) sample_reg)) = 1"
    "card (snd ` set (entry_keys (\<lambda>_. sample_sock) sample_reg)) = 1"
    by (simp_all add: sample_entry_keys)
  then show ?thesis
    using getPathCombinations_complete [OF reg_inv_wf [OF sample_reg_inv] sample_pI_wf, of "\<lambda>_. sample_sock" "{}" "{}"]
    by (auto simp: sample_entry_keys g [unfolded One_nat_def] MAX_NUM_RED_SK_def)
qed

lemma getMeasurements_summary_witness:
  "\<exists>pI'. getMeasurements (\<lambda>_. sample_sock) sample_reg 0 sample_pI = Some pI' \<and>
     pm_mask (pM pI' ! 0) = 1"
proof -
  have "(0::nat) < MAX_NUM_RED_SK" by (simp add: MAX_NUM_RED_SK_def)
  from getMeasurements_summary [OF sample_pI_wf this, of "\<lambda>_. sample_sock" sample_reg]
  obtain pI' p where "getMeasurements (\<lambda>_. sample_sock) sample_reg 0 sample_pI = Some pI'"
    "pM pI' = (pM sample_pI)[0 := p]" "pm_mask p = pm_mask (pM sample_pI ! 0)" by blast
  then show ?thesis by (simp add: sample_pI_def MAX_NUM_RED_SK_def)
qed

lemma pathChecker_step_witness:
  "\<exists>r' pI' pc'. pathChecker sample_sysctls (\<lambda>_. sample_sock) (6 * 10 ^ 9) sample_reg sample_pI
     \<lparr>start_last_combination = 0, running = True, test_index = 0\<rparr> = Some (r', pI', pc', 0) \<and> \<not> running pc'"
proof -
  let ?pc = "\<lparr>start_last_combination = 0, running = True, test_index = 0\<rparr>"
  have "running ?pc" "test_index ?pc < num_pathCombinations sample_pI"
    "num_pathCombinations sample_pI \<le> MAX_NUM_RED_SK"
    by (simp_all add: sample_pI_def MAX_NUM_RED_SK_def)
  note step = pathChecker_step [OF reg_inv_wf [OF sample_reg_inv] this, of sample_sysctls "\<lambda>_. sample_sock" "6 * 10 ^ 9"]
  have "ktime_before (ktime_add_ms (start_last_combination ?pc)
      (word_of_int (s32 (sysctl_runpathcheck_duration sample_sysctls * 1000)))) (6 * 10 ^ 9)"
    "Suc (test_index ?pc) = num_pathCombinations sample_pI"
    by (simp_all add: sample_sysctls_def ktime_add_ms_def ktime_before_def sample_pI_def)
  then show ?thesis using step by metis
qed

end
