(* ===== verification/Mpcb.thy ===== *)
theory Mpcb
  imports Kernel_Env
begin

text \<open>
  The control block of a multipath connection and the inline functions on it
  (\<open>include/net/mptcp.h\<close>): the 64-bit data sequence numbers kept as a 32-bit counter and two
  high-order words, the allocation of path indices, the retransmission time-out of the
  connection and the offload capabilities that all subflows must share.

  The one-bit index fields of the C structure are Booleans and the arrays they index, of two
  words, are functions of a Boolean.
\<close>

section \<open>Data\<close>

record mptcp_cb =
  connection_list :: "sk_ptr list"
  snd_high_order :: "bool \<Rightarrow> u32"
  rcv_high_order :: "bool \<Rightarrow> u32"
  send_infinite_mapping :: bool
  dss_csum :: bool
  server_side :: bool
  infinite_mapping_rcv :: bool
  infinite_mapping_snd :: bool
  dfin_combined :: bool
  passive_close :: bool
  snd_hiseq_index :: bool
  rcv_hiseq_index :: bool
  cnt_subflows :: u8
  cnt_established :: u8
  reinject_queue :: "sk_buff list"
  infinite_rcv_seq :: u64
  path_index_bits :: u32
  next_path_index :: u8

section \<open>Data sequence numbers of 64 bits\<close>

definition mptcp_get_64_bit :: "u64 \<Rightarrow> mptcp_cb \<Rightarrow> u8" where
  "mptcp_get_64_bit data_seq mpcb =
     (let data_seq_high = ucast (drop_bit 32 data_seq) :: u32
      in if rcv_high_order mpcb False = data_seq_high then 0
         else if rcv_high_order mpcb True = data_seq_high then MPTCPHDR_SEQ64_INDEX
         else MPTCPHDR_SEQ64_OFO)"

definition seq64 :: "u32 \<Rightarrow> u32 \<Rightarrow> u64" where
  "seq64 high low = push_bit 32 (ucast high) OR ucast low"

definition mptcp_get_data_seq_64 :: "mptcp_cb \<Rightarrow> bool \<Rightarrow> u32 \<Rightarrow> u64" where
  "mptcp_get_data_seq_64 mpcb index data_seq_32 = seq64 (rcv_high_order mpcb index) data_seq_32"

definition mptcp_get_rcv_nxt_64 :: "mptcp_cb \<Rightarrow> tcp_sock \<Rightarrow> u64" where
  "mptcp_get_rcv_nxt_64 mpcb meta_tp =
     mptcp_get_data_seq_64 mpcb (rcv_hiseq_index mpcb) (rcv_nxt meta_tp)"

definition mptcp_get_highorder_sndbits :: "sk_buff \<Rightarrow> mptcp_cb \<Rightarrow> u32" where
  "mptcp_get_highorder_sndbits skb mpcb =
     snd_high_order mpcb (has (mptcp_flags skb) MPTCPHDR_SEQ64_INDEX)"

text \<open>\<open>inc\<close> is a C int.\<close>

definition mptcp_check_sndseq_wrap :: "tcp_sock \<Rightarrow> int \<Rightarrow> mptcp_cb \<Rightarrow> mptcp_cb" where
  "mptcp_check_sndseq_wrap meta_tp inc mpcb =
     (if snd_nxt meta_tp > snd_nxt meta_tp + word_of_int inc
      then let i = (if snd_hiseq_index mpcb then False else True)
           in mpcb\<lparr>snd_hiseq_index := i,
                   snd_high_order := (snd_high_order mpcb)(i := snd_high_order mpcb i + 2)\<rparr>
      else mpcb)"

definition mptcp_check_rcvseq_wrap :: "tcp_sock \<Rightarrow> u32 \<Rightarrow> mptcp_cb \<Rightarrow> mptcp_cb" where
  "mptcp_check_rcvseq_wrap meta_tp old_rcv_nxt mpcb =
     (if old_rcv_nxt > rcv_nxt meta_tp
      then let i = rcv_hiseq_index mpcb
           in mpcb\<lparr>rcv_high_order := (rcv_high_order mpcb)(i := rcv_high_order mpcb i + 2),
                   rcv_hiseq_index := (if i then False else True)\<rparr>
      else mpcb)"

section \<open>Path indices\<close>

text \<open>
  The loops over the unset bits from \<open>base\<close> and from 0 on; index 0 is reserved for the meta
  socket and is also the result when no index is free.
\<close>

definition free_index :: "mptcp_cb \<Rightarrow> nat \<Rightarrow> bool" where
  "free_index mpcb i \<longleftrightarrow> 1 \<le> i \<and> \<not> bit (path_index_bits mpcb) i"

definition take_index :: "nat \<Rightarrow> mptcp_cb \<Rightarrow> nat \<times> mptcp_cb" where
  "take_index i mpcb =
     (i, mpcb\<lparr>path_index_bits := path_index_bits mpcb OR push_bit i 1, next_path_index := of_nat (i + 1)\<rparr>)"

definition mptcp_set_new_pathindex :: "mptcp_cb \<Rightarrow> nat \<times> mptcp_cb" where
  "mptcp_set_new_pathindex mpcb =
     (case find (free_index mpcb) [unat (next_path_index mpcb)..<32] of
        Some i \<Rightarrow> take_index i mpcb
      | None \<Rightarrow>
        (case find (free_index mpcb) [0..<32] of
           Some i \<Rightarrow> take_index i mpcb
         | None \<Rightarrow> (0, mpcb)))"

section \<open>Capabilities and the retransmission time-out\<close>

definition mptcp_sk_can_gso :: "(sk_ptr \<Rightarrow> tcp_sock) \<Rightarrow> mptcp_cb \<Rightarrow> bool" where
  "mptcp_sk_can_gso socks mpcb \<longleftrightarrow> \<not> dss_csum mpcb \<and>
     list_all (\<lambda>sk. mptcp_sk_can_send (socks sk) \<longrightarrow> sk_can_gso (socks sk)) (connection_list mpcb)"

definition mptcp_can_sg :: "(sk_ptr \<Rightarrow> tcp_sock) \<Rightarrow> mptcp_cb \<Rightarrow> bool" where
  "mptcp_can_sg socks mpcb \<longleftrightarrow> \<not> dss_csum mpcb \<and>
     list_all (\<lambda>sk. mptcp_sk_can_send (socks sk) \<longrightarrow> netif_f_sg (socks sk)) (connection_list mpcb)"

definition mptcp_can_sendpage :: "(sk_ptr \<Rightarrow> tcp_sock) \<Rightarrow> mptcp_cb \<Rightarrow> bool" where
  "mptcp_can_sendpage socks mpcb \<longleftrightarrow> \<not> dss_csum mpcb \<and>
     list_all (\<lambda>sk. netif_f_sg (socks sk) \<and> netif_f_all_csum (socks sk)) (connection_list mpcb)"

definition max_rto :: "(sk_ptr \<Rightarrow> tcp_sock) \<Rightarrow> sk_ptr list \<Rightarrow> u32" where
  "max_rto socks sks = fold (\<lambda>sk m. if mptcp_sk_can_send (socks sk) \<and> icsk_rto (socks sk) > m
     then icsk_rto (socks sk) else m) sks 0"

definition mptcp_set_rto :: "(sk_ptr \<Rightarrow> tcp_sock) \<Rightarrow> mptcp_cb \<Rightarrow> tcp_sock \<Rightarrow> tcp_sock" where
  "mptcp_set_rto socks mpcb meta =
     (if icsk_retransmits meta \<noteq> 0 then meta
      else let m = max_rto socks (connection_list mpcb)
           in if m \<noteq> 0 then meta\<lparr>icsk_rto := push_bit 1 m, icsk_backoff := 0\<rparr> else meta)"

text \<open>Fallback to an infinite mapping: the result of the function, the control block, the subflow,
  and the sockets that are reset and closed.\<close>

definition is_master_tp :: "tcp_sock \<Rightarrow> bool" where
  "is_master_tp tp \<longleftrightarrow> \<not> slave_sk tp"

definition mptcp_fallback_infinite ::
  "sk_ptr \<Rightarrow> tcp_sock \<Rightarrow> bool \<Rightarrow> tcp_sock \<Rightarrow> mptcp_cb \<Rightarrow> bool \<times> mptcp_cb \<times> tcp_sock \<times> sk_ptr list" where
  "mptcp_fallback_infinite sk tp data_acked meta_tp mpcb =
     (if fully_established tp then (False, mpcb, tp, [])
      else if \<not> data_acked then (False, mpcb, tp, [])
      else if infinite_mapping_snd mpcb then (False, mpcb, tp, [])
      else if \<not> is_master_tp tp then (True, mpcb, tp, [])
      else (False,
            mpcb\<lparr>infinite_mapping_snd := True, infinite_mapping_rcv := True,
                 infinite_rcv_seq := mptcp_get_rcv_nxt_64 mpcb meta_tp\<rparr>,
            tp\<lparr>fully_established := True\<rparr>,
            filter (\<lambda>it. it \<noteq> sk) (connection_list mpcb)))"

section \<open>Arithmetic of the 64-bit numbers\<close>

lemma unat_seq64: "unat (seq64 high low) = unat high * 2 ^ 32 + unat low"
proof -
  have "seq64 high low = push_bit 32 (ucast high) + ucast low"
    unfolding seq64_def
    by (rule disjunctive_add_eq_or [symmetric]) (auto simp: bit_eq_iff bit_simps dest: bit_imp_le_length)
  also have "unat \<dots> = unat high * 2 ^ 32 + unat low"
  proof -
    have h: "unat high < 2 ^ 32" and l: "unat low < 2 ^ 32" using unsigned_less [of high] unsigned_less [of low] by simp_all
    have "unat (push_bit 32 (ucast high :: u64)) = unat high * 2 ^ 32"
      using h by (simp add: push_bit_eq_mult unat_word_ariths)
    then show ?thesis using h l by (simp add: unat_word_ariths)
  qed
  finally show ?thesis .
qed

lemma seq64_high: "ucast (drop_bit 32 (seq64 high low)) = high"
proof (rule bit_word_eqI)
  fix n assume "n < LENGTH(32)"
  then show "bit (ucast (drop_bit 32 (seq64 high low)) :: u32) n = bit high n"
    by (auto simp: seq64_def bit_simps dest: bit_imp_le_length)
qed

lemma seq64_split: "seq64 (ucast (drop_bit 32 s)) (ucast s) = s"
proof (rule bit_word_eqI)
  fix n assume "n < LENGTH(64)"
  then show "bit (seq64 (ucast (drop_bit 32 s)) (ucast s)) n = bit s n"
    by (cases "n < 32") (auto simp: seq64_def bit_simps dest: bit_imp_le_length)
qed

lemma unat_plus_no_wrap:
  "\<not> (x::u32) > x + d \<Longrightarrow> unat (x + d) = unat x + unat d"
  by (metis not_less no_olen_add_nat no_plus_overflow_uint_size unat_plus_simple)

lemma unat_plus_wrap:
  assumes "(x::u32) > x + d"
  shows "unat (x + d) + 2 ^ 32 = unat x + unat d"
proof -
  have "\<not> unat x + unat d < 2 ^ 32"
    using assms unat_plus_simple [of x d] no_olen_add_nat [of x d] by (auto simp: not_less)
  then show ?thesis using unat_plus_if_size [of x d] by (simp add: word_size)
qed

lemma seq64_add:
  "seq64 high (low + d) + (if low > low + d then 2 ^ 32 else 0) = seq64 high low + ucast d"
proof (rule word_unat_eq_iff [THEN iffD2])
  show "unat (seq64 high (low + d) + (if low > low + d then 2 ^ 32 else 0)) =
      unat (seq64 high low + ucast d)"
  proof (cases "low > low + d")
    case True
    have "unat (seq64 high (low + d) + 2 ^ 32) =
        (unat high * 2 ^ 32 + (unat (low + d) + 2 ^ 32)) mod 2 ^ 64"
      by (simp add: unat_word_ariths(1) [where 'a = 64] unat_seq64 add.assoc)
    also have "\<dots> = (unat high * 2 ^ 32 + unat low + unat d) mod 2 ^ 64"
      by (simp only: unat_plus_wrap [OF True] add.assoc)
    also have "\<dots> = unat (seq64 high low + ucast d)"
      by (simp add: unat_word_ariths(1) [where 'a = 64] unat_seq64)
    finally show ?thesis using True by simp
  next
    case False
    have "unat (seq64 high (low + d)) = unat high * 2 ^ 32 + unat low + unat d"
      by (simp only: unat_seq64 unat_plus_no_wrap [OF False] add.assoc)
    moreover from this have "unat high * 2 ^ 32 + unat low + unat d < 2 ^ 64"
      using unat_bound [of "seq64 high (low + d)"] by simp
    ultimately show ?thesis using False
      by (simp add: unat_word_ariths(1) [where 'a = 64] unat_seq64)
  qed
qed

lemma seq64_next_high: "seq64 (high + 1) low = seq64 high low + 2 ^ 32"
proof (rule word_unat_eq_iff [THEN iffD2])
  show "unat (seq64 (high + 1) low) = unat (seq64 high low + 2 ^ 32)"
  proof (cases "unat high + 1 < 2 ^ 32")
    case True
    then have "unat (high + 1) = unat high + 1" by (simp add: unat_word_ariths(1) [where 'a = 32])
    moreover have "unat (seq64 high low) + 2 ^ 32 < 2 ^ 64"
      using True unat_bound [of low] by (simp add: unat_seq64)
    ultimately show ?thesis by (simp add: unat_word_ariths(1) [where 'a = 64] unat_seq64)
  next
    case False
    then have "unat high = 2 ^ 32 - 1" using unat_bound [of high] by simp
    then show ?thesis using unat_bound [of low]
      by (simp add: unat_word_ariths(1) unat_seq64)
  qed
qed

section \<open>The two high-order words\<close>

text \<open>
  The word that is not in use is the one of the previous \<open>2^32\<close> numbers on the sending side, and
  the one of the next on the receiving side.
\<close>

definition snd_high_inv :: "mptcp_cb \<Rightarrow> bool" where
  "snd_high_inv mpcb \<longleftrightarrow>
     snd_high_order mpcb (\<not> snd_hiseq_index mpcb) = snd_high_order mpcb (snd_hiseq_index mpcb) - 1"

definition rcv_high_inv :: "mptcp_cb \<Rightarrow> bool" where
  "rcv_high_inv mpcb \<longleftrightarrow>
     rcv_high_order mpcb (\<not> rcv_hiseq_index mpcb) = rcv_high_order mpcb (rcv_hiseq_index mpcb) + 1"

definition snd_nxt_64 :: "mptcp_cb \<Rightarrow> tcp_sock \<Rightarrow> u64" where
  "snd_nxt_64 mpcb meta_tp = seq64 (snd_high_order mpcb (snd_hiseq_index mpcb)) (snd_nxt meta_tp)"

lemma sndseq_wrap_step:
  fixes meta_tp :: tcp_sock
  assumes "snd_high_inv mpcb" and "0 \<le> inc" and "inc < 2 ^ 31"
  defines "mpcb' \<equiv> mptcp_check_sndseq_wrap meta_tp inc mpcb"
  shows "snd_nxt_64 mpcb' (meta_tp\<lparr>snd_nxt := snd_nxt meta_tp + word_of_int inc\<rparr>) =
      snd_nxt_64 mpcb meta_tp + word_of_int inc \<and>
    snd_high_inv mpcb' \<and>
    snd_high_order mpcb' (snd_hiseq_index mpcb) = snd_high_order mpcb (snd_hiseq_index mpcb)"
proof -
  let ?i = "snd_hiseq_index mpcb" and ?d = "word_of_int inc :: u32"
  have d: "ucast ?d = (word_of_int inc :: u64)"
    using assms by (simp add: word_uint_eq_iff unsigned_ucast_eq uint_word_of_int_eq take_bit_int_eq_self)
  have idx: "(if ?i then False else True) = (\<not> ?i)" by simp
  note add = seq64_add [of "snd_high_order mpcb ?i" "snd_nxt meta_tp" ?d, unfolded d]
  show ?thesis
  proof (cases "snd_nxt meta_tp > snd_nxt meta_tp + ?d")
    case True
    have h: "snd_high_order mpcb (\<not> ?i) + 2 = snd_high_order mpcb ?i + 1"
      using assms(1) by (simp add: snd_high_inv_def)
    have "mpcb' = mpcb\<lparr>snd_hiseq_index := \<not> ?i,
        snd_high_order := (snd_high_order mpcb)(\<not> ?i := snd_high_order mpcb ?i + 1)\<rparr>"
      using True h by (simp only: mpcb'_def mptcp_check_sndseq_wrap_def Let_def idx if_True)
    then show ?thesis using add True
      by (simp add: snd_nxt_64_def snd_high_inv_def seq64_next_high)
  next
    case False
    then have "mpcb' = mpcb" by (simp add: mpcb'_def mptcp_check_sndseq_wrap_def)
    then show ?thesis using add False assms(1) by (simp add: snd_nxt_64_def)
  qed
qed

text \<open>C7. The 32-bit send counter with its high-order word implements a 64-bit data sequence
  number: advancing \<open>snd_nxt\<close> by \<open>inc\<close> after the wrap check adds \<open>inc\<close> to the 64-bit number, keeps the
  relation between the two high-order words, and leaves the previous high-order word readable for
  segments sent before the wrap.\<close>

theorem mptcp_check_sndseq_wrap_refines:
  fixes meta_tp :: tcp_sock
  assumes "snd_high_inv mpcb" and "0 \<le> inc" and "inc < 2 ^ 31"
  defines "mpcb' \<equiv> mptcp_check_sndseq_wrap meta_tp inc mpcb"
  shows "snd_nxt_64 mpcb' (meta_tp\<lparr>snd_nxt := snd_nxt meta_tp + word_of_int inc\<rparr>) =
      snd_nxt_64 mpcb meta_tp + word_of_int inc \<and>
    snd_high_inv mpcb' \<and>
    snd_high_order mpcb' (snd_hiseq_index mpcb) = snd_high_order mpcb (snd_hiseq_index mpcb)"
  unfolding mpcb'_def by (rule sndseq_wrap_step [OF assms(1-3)])

lemma rcvseq_wrap_step:
  fixes meta_tp :: tcp_sock and inc :: u32
  assumes "rcv_high_inv mpcb"
    and "tp' = meta_tp\<lparr>rcv_nxt := rcv_nxt meta_tp + inc\<rparr>"
    and "mpcb' = mptcp_check_rcvseq_wrap tp' (rcv_nxt meta_tp) mpcb"
  shows "mptcp_get_rcv_nxt_64 mpcb' tp' = mptcp_get_rcv_nxt_64 mpcb meta_tp + ucast inc \<and>
    rcv_high_inv mpcb'"
proof -
  let ?i = "rcv_hiseq_index mpcb"
  have idx: "(if ?i then False else True) = (\<not> ?i)" by simp
  note add = seq64_add [of "rcv_high_order mpcb ?i" "rcv_nxt meta_tp" inc]
  show ?thesis
  proof (cases "rcv_nxt meta_tp > rcv_nxt meta_tp + inc")
    case True
    have h: "rcv_high_order mpcb (\<not> ?i) = rcv_high_order mpcb ?i + 1"
      using assms(1) by (simp add: rcv_high_inv_def)
    have "rcv_nxt tp' = rcv_nxt meta_tp + inc" by (simp add: assms(2))
    then have "mpcb' = mpcb\<lparr>rcv_high_order := (rcv_high_order mpcb)(?i := rcv_high_order mpcb ?i + 2),
        rcv_hiseq_index := \<not> ?i\<rparr>"
      using True by (simp only: assms(3) mptcp_check_rcvseq_wrap_def Let_def idx if_True)
    then show ?thesis using add True h
      by (simp add: mptcp_get_rcv_nxt_64_def mptcp_get_data_seq_64_def assms(2) rcv_high_inv_def
          seq64_next_high)
  next
    case False
    then have "mpcb' = mpcb" by (simp add: assms(2,3) mptcp_check_rcvseq_wrap_def)
    then show ?thesis using add False assms(1)
      by (simp add: mptcp_get_rcv_nxt_64_def mptcp_get_data_seq_64_def assms(2))
  qed
qed

text \<open>The receive side: when \<open>rcv_nxt\<close> has advanced by \<open>inc\<close>, the check adds \<open>inc\<close> to the 64-bit
  number and keeps the high-order word of the next wrap ready.\<close>

lemma mptcp_check_rcvseq_wrap_refines:
  fixes meta_tp :: tcp_sock and inc :: u32
  assumes "rcv_high_inv mpcb"
  defines "tp' \<equiv> meta_tp\<lparr>rcv_nxt := rcv_nxt meta_tp + inc\<rparr>"
  defines "mpcb' \<equiv> mptcp_check_rcvseq_wrap tp' (rcv_nxt meta_tp) mpcb"
  shows "mptcp_get_rcv_nxt_64 mpcb' tp' = mptcp_get_rcv_nxt_64 mpcb meta_tp + ucast inc \<and>
    rcv_high_inv mpcb'"
  using rcvseq_wrap_step [OF assms(1)] unfolding tp'_def mpcb'_def by blast

text \<open>A received 64-bit data sequence number is stored in a segment as an index bit and 32
  bits; unless it is marked as outside the two words, reading it back gives the number, and every
  number whose high half is one of the two words is not marked.\<close>

lemma mptcp_get_64_bit_roundtrip:
  "(if has (mptcp_get_64_bit data_seq mpcb) MPTCPHDR_SEQ64_OFO
    then \<forall>i. rcv_high_order mpcb i \<noteq> ucast (drop_bit 32 data_seq)
    else mptcp_get_data_seq_64 mpcb (has (mptcp_get_64_bit data_seq mpcb) MPTCPHDR_SEQ64_INDEX)
           (ucast data_seq) = data_seq)"
proof -
  have "\<not> has (0::u8) f" for f by (simp add: has_def)
  moreover have "has MPTCPHDR_SEQ64_INDEX MPTCPHDR_SEQ64_INDEX" "has MPTCPHDR_SEQ64_OFO MPTCPHDR_SEQ64_OFO"
    "\<not> has MPTCPHDR_SEQ64_INDEX MPTCPHDR_SEQ64_OFO"
    by (simp_all add: has_def MPTCPHDR_SEQ64_INDEX_def MPTCPHDR_SEQ64_OFO_def)
  ultimately show ?thesis using seq64_split [of data_seq]
    by (simp add: mptcp_get_64_bit_def Let_def mptcp_get_data_seq_64_def all_bool_eq)
qed

section \<open>Path indices and masks\<close>

lemma free_index_find:
  "find (free_index mpcb) [a..<32] = Some i \<Longrightarrow> a \<le> i \<and> i < 32 \<and> free_index mpcb i"
  by (auto simp: find_Some_iff)

lemma set_new_pathindex_cases:
  obtains (index) i where "mptcp_set_new_pathindex mpcb = take_index i mpcb" "i < 32" "free_index mpcb i"
  | (full) "mptcp_set_new_pathindex mpcb = (0, mpcb)" "\<forall>i<32. \<not> free_index mpcb i"
proof (cases "find (free_index mpcb) [unat (next_path_index mpcb)..<32]")
  case (Some i)
  then have "mptcp_set_new_pathindex mpcb = take_index i mpcb"
    by (simp add: mptcp_set_new_pathindex_def)
  with free_index_find [OF Some] show ?thesis by (auto intro: index)
next
  case None
  show ?thesis
  proof (cases "find (free_index mpcb) [0..<32]")
    case (Some i)
    with None have "mptcp_set_new_pathindex mpcb = take_index i mpcb"
      by (simp add: mptcp_set_new_pathindex_def)
    with free_index_find [OF Some] show ?thesis by (auto intro: index)
  next
    case n: None
    with None have "mptcp_set_new_pathindex mpcb = (0, mpcb)"
      by (simp add: mptcp_set_new_pathindex_def)
    then show ?thesis by (rule full) (use n in \<open>auto simp: find_None_iff\<close>)
  qed
qed

lemma unat_of_nat_u8: "n < 256 \<Longrightarrow> unat (of_nat n :: u8) = n"
  by (simp add: unat_of_nat take_bit_nat_eq_self)

lemma bit_pi_to_flag:
  "1 \<le> i \<Longrightarrow> i \<le> 32 \<Longrightarrow> bit (mptcp_pi_to_flag (of_nat i)) n \<longleftrightarrow> n = i - 1"
  by (auto simp: mptcp_pi_to_flag_def unat_of_nat_u8 bit_simps)

lemma pi_to_flag_disjoint:
  assumes "1 \<le> i" "i \<le> 32" "1 \<le> j" "j \<le> 32" "i \<noteq> j"
  shows "\<not> has (mptcp_pi_to_flag (of_nat i)) (mptcp_pi_to_flag (of_nat j))"
proof -
  have "mptcp_pi_to_flag (of_nat j) = 2 ^ (j - 1)"
    using assms by (simp add: mptcp_pi_to_flag_def unat_of_nat_u8)
  then show ?thesis using assms by (simp only: has_exp bit_pi_to_flag)
qed

text \<open>Path indices are allocated from 1 to 31: the new index was free, is the only one that is
  taken by the call, and its bit in path masks differs from the bit of every index in use; the call
  returns 0 and changes nothing exactly when all indices are in use.\<close>

lemma mptcp_set_new_pathindex_fresh:
  "case mptcp_set_new_pathindex mpcb of (i, mpcb') \<Rightarrow>
     (i = 0 \<longleftrightarrow> (\<forall>j. j = 0 \<or> 32 \<le> j \<or> bit (path_index_bits mpcb) j)) \<and>
     (if i = 0 then mpcb' = mpcb
      else i < 32 \<and> \<not> bit (path_index_bits mpcb) i \<and>
        (\<forall>j. bit (path_index_bits mpcb') j \<longleftrightarrow> bit (path_index_bits mpcb) j \<or> j = i) \<and>
        unat (next_path_index mpcb') = i + 1 \<and>
        (\<forall>j. 1 \<le> j \<and> j < 32 \<and> bit (path_index_bits mpcb) j \<longrightarrow>
           \<not> has (mptcp_pi_to_flag (of_nat i)) (mptcp_pi_to_flag (of_nat j))))"
proof (cases mpcb rule: set_new_pathindex_cases)
  case (index i)
  have "1 \<le> i" "\<not> bit (path_index_bits mpcb) i" using index(3) by (simp_all add: free_index_def)
  moreover have "\<not> has (mptcp_pi_to_flag (of_nat i)) (mptcp_pi_to_flag (of_nat j))"
    if "1 \<le> j" "j < 32" "bit (path_index_bits mpcb) j" for j
    using that calculation index(2) by (intro pi_to_flag_disjoint) auto
  moreover have "\<not> (\<forall>j. j = 0 \<or> 32 \<le> j \<or> bit (path_index_bits mpcb) j)"
    using index(2) \<open>1 \<le> i\<close> \<open>\<not> bit (path_index_bits mpcb) i\<close> by (intro notI) (drule spec [of _ i], simp)
  ultimately show ?thesis
    using index(1,2) unat_of_nat_u8 [of "i + 1"]
    by (auto simp: take_index_def bit_simps)
next
  case full
  then show ?thesis by (auto simp: free_index_def not_less)
qed

section \<open>Closed instances\<close>

definition sample_mpcb :: mptcp_cb where
  "sample_mpcb = \<lparr>connection_list = [1, 2], snd_high_order = (\<lambda>i. if i then 6 else 7),
     rcv_high_order = (\<lambda>i. if i then 8 else 7), send_infinite_mapping = False, dss_csum = False,
     server_side = False, infinite_mapping_rcv = False, infinite_mapping_snd = False,
     dfin_combined = False, passive_close = False, snd_hiseq_index = False, rcv_hiseq_index = False,
     cnt_subflows = 2, cnt_established = 2, reinject_queue = [], infinite_rcv_seq = 0,
     path_index_bits = 0, next_path_index = 1\<rparr>"

theorem mptcp_check_sndseq_wrap_refines_witness:
  "snd_nxt_64 (mptcp_check_sndseq_wrap (sample_sock\<lparr>snd_nxt := 0xFFFFFFFE\<rparr>) 5 sample_mpcb)
      (sample_sock\<lparr>snd_nxt := 0xFFFFFFFE + 5\<rparr>) =
     snd_nxt_64 sample_mpcb (sample_sock\<lparr>snd_nxt := 0xFFFFFFFE\<rparr>) + 5"
proof -
  have "snd_high_inv sample_mpcb" by (simp add: snd_high_inv_def sample_mpcb_def)
  from mptcp_check_sndseq_wrap_refines [OF this, of 5 "sample_sock\<lparr>snd_nxt := 0xFFFFFFFE\<rparr>"]
  show ?thesis by simp
qed

lemma mptcp_check_rcvseq_wrap_refines_witness:
  "mptcp_get_rcv_nxt_64
      (mptcp_check_rcvseq_wrap (sample_sock\<lparr>rcv_nxt := 0xFFFFFFFE + 5\<rparr>) 0xFFFFFFFE sample_mpcb)
      (sample_sock\<lparr>rcv_nxt := 0xFFFFFFFE + 5\<rparr>) =
     mptcp_get_rcv_nxt_64 sample_mpcb (sample_sock\<lparr>rcv_nxt := 0xFFFFFFFE\<rparr>) + 5"
proof -
  have "rcv_high_inv sample_mpcb" by (simp add: rcv_high_inv_def sample_mpcb_def)
  from mptcp_check_rcvseq_wrap_refines [OF this, of "sample_sock\<lparr>rcv_nxt := 0xFFFFFFFE\<rparr>" 5]
  show ?thesis by simp
qed

lemma mptcp_set_new_pathindex_fresh_witness:
  "fst (mptcp_set_new_pathindex sample_mpcb) = 1 \<and>
   \<not> bit (path_index_bits sample_mpcb) (fst (mptcp_set_new_pathindex sample_mpcb))"
  using mptcp_set_new_pathindex_fresh [of sample_mpcb]
  by (simp add: mptcp_set_new_pathindex_def sample_mpcb_def free_index_def take_index_def upt_rec)

end
