(* ===== verification/Data_Output.thy ===== *)
theory Data_Output
  imports Mpcb
begin

text \<open>
  Putting data on subflows (\<open>net/mptcp/mptcp_output.c\<close>): the DSS mapping that is saved with a
  segment and read back for a reinjection, \<open>mptcp_skb_entail\<close>, which appends a copy of a
  connection-level segment to the write queue of a subflow, and the reinjection of segments.

  The functions of the TCP stack that are called on the way are parameters: a record of functions.
\<close>

section \<open>Parameters and state\<close>

text \<open>
  \<open>k_copy\<close>: does the copy of the buffer succeed; \<open>k_close_state\<close>: \<open>tcp_close_state\<close>, with the state
  change of the socket; \<open>k_transmit\<close>: \<open>tcp_transmit_skb\<close>, true for an error; \<open>k_push\<close>:
  \<open>__tcp_push_pending_frames\<close>; \<open>k_csum\<close>: the folded checksum over the payload, three words of the
  mapping and the high-order word.
\<close>

record kernel_ops =
  k_copy :: "sk_ptr \<Rightarrow> sk_buff \<Rightarrow> bool"
  k_close_state :: "tcp_sock \<Rightarrow> bool \<times> tcp_sock"
  k_transmit :: "tcp_sock \<Rightarrow> sk_buff \<Rightarrow> bool \<times> tcp_sock"
  k_push :: "u32 \<Rightarrow> tcp_sock \<Rightarrow> tcp_sock"
  k_csum :: "sk_buff \<Rightarrow> u32 list \<Rightarrow> u32 \<Rightarrow> u16"

text \<open>The subflow sockets, the control block and the write queues.\<close>

record out_state =
  o_socks :: "sk_ptr \<Rightarrow> tcp_sock"
  o_mpcb :: mptcp_cb
  o_queue :: "sk_ptr \<Rightarrow> sk_buff list"

section \<open>The DSS mapping\<close>

definition TCPOPT_EOL :: u32 where "TCPOPT_EOL = 0"
definition TCPOPT_NOP :: u32 where "TCPOPT_NOP = 1"

definition mptcp_sub_len_dss :: "mp_dss \<Rightarrow> bool \<Rightarrow> u8" where
  "mptcp_sub_len_dss m csum =
     4 + of_bool (dss_A m) * (4 + of_bool (dss_a m) * 4) +
     of_bool (dss_M m) * (10 + of_bool (dss_m m) * 4 + of_bool csum * 2)"

definition mptcp_write_dss_mapping ::
  "kernel_ops \<Rightarrow> mptcp_cb \<Rightarrow> tcp_sock \<Rightarrow> sk_buff \<Rightarrow> u32 list" where
  "mptcp_write_dss_mapping ops mpcb tp skb =
     (let subseq = (if mptcp_is_data_fin skb \<and> skb_len skb = 0 then 0 else write_seq tp - snt_isn tp);
          data_len = (if has (mptcp_flags skb) MPTCPHDR_INF then 0
                      else ucast (skb_end_seq skb - skb_seq skb)) :: u16
      in if dss_csum mpcb \<and> data_len \<noteq> 0
         then let word = push_bit 16 (ucast data_len) OR push_bit 8 TCPOPT_EOL OR TCPOPT_EOL;
                  csum = k_csum ops skb [skb_seq skb, subseq, word] (mptcp_get_highorder_sndbits skb mpcb)
              in [skb_seq skb, subseq, push_bit 16 (ucast data_len) OR ucast csum]
         else [skb_seq skb, subseq, push_bit 16 (ucast data_len) OR push_bit 8 TCPOPT_NOP OR TCPOPT_NOP])"

definition mptcp_write_dss_data_ack ::
  "mptcp_cb \<Rightarrow> tcp_sock \<Rightarrow> sk_buff \<Rightarrow> mp_dss \<times> u32 list" where
  "mptcp_write_dss_data_ack mpcb meta_tp skb =
     (let m = \<lparr>dss_len = 0, dss_A = True, dss_a = False, dss_M = mptcp_is_data_seq skb,
               dss_m = False, dss_F = mptcp_is_data_fin skb\<rparr>
      in (m\<lparr>dss_len := mptcp_sub_len_dss m (dss_csum mpcb)\<rparr>, [rcv_nxt meta_tp]))"

definition mptcp_save_dss_data_seq ::
  "kernel_ops \<Rightarrow> mptcp_cb \<Rightarrow> tcp_sock \<Rightarrow> tcp_sock \<Rightarrow> sk_buff \<Rightarrow> sk_buff" where
  "mptcp_save_dss_data_seq ops mpcb meta_tp tp skb0 =
     (let skb = skb0\<lparr>mptcp_flags := setf (mptcp_flags skb0) MPTCPHDR_SEQ\<rparr>;
          (hdr, ack) = mptcp_write_dss_data_ack mpcb meta_tp skb
      in skb\<lparr>dss_hdr := hdr, dss_words := ack @ mptcp_write_dss_mapping ops mpcb tp skb\<rparr>)"

text \<open>Reading the mapping back into the control block; \<open>None\<close> is the result false.\<close>

definition mptcp_reconstruct_mapping :: "sk_buff \<Rightarrow> sk_buff option" where
  "mptcp_reconstruct_mapping skb =
     (if \<not> mptcp_is_data_seq skb then None
      else if \<not> dss_M (dss_hdr skb) then None
      else let p = (if dss_A (dss_hdr skb) then (if dss_a (dss_hdr skb) then 2 else 1) else 0);
               seq = dss_words skb ! p;
               len = drop_bit 16 (dss_words skb ! (p + 2))
           in Some (skb\<lparr>skb_seq := seq, skb_end_seq := len + seq\<rparr>))"

section \<open>Adding a segment to a subflow\<close>

definition mptcp_combine_dfin ::
  "kernel_ops \<Rightarrow> mptcp_cb \<Rightarrow> tcp_sock \<Rightarrow> sk_buff \<Rightarrow> tcp_sock \<Rightarrow> sk_buff \<times> tcp_sock" where
  "mptcp_combine_dfin ops mpcb meta skb subsk =
     (let combine = (case k_close_state ops subsk of (closed, sk1) \<Rightarrow>
            if closed then (skb\<lparr>tcp_flags := setf (tcp_flags skb) TCPHDR_FIN\<rparr>, sk1\<lparr>send_shutdown := True\<rparr>)
            else (skb, sk1))
      in if infinite_mapping_snd mpcb then combine
         else if \<not> mptcp_sk_can_recv meta \<and> \<not> dfin_combined mpcb then (skb, subsk)
         else if snd_una meta \<noteq> skb_seq skb then (skb, subsk)
         else combine)"

definition starts_infinite :: "mptcp_cb \<Rightarrow> tcp_sock \<Rightarrow> sk_buff \<Rightarrow> bool" where
  "starts_infinite mpcb meta_tp skb \<longleftrightarrow> send_infinite_mapping mpcb \<and> \<not> infinite_mapping_snd mpcb \<and>
     \<not> before (skb_seq skb) (snd_nxt meta_tp)"

text \<open>The copy with its place in the subflow's sequence space.\<close>

definition place_on_subflow :: "tcp_sock \<Rightarrow> sk_buff \<Rightarrow> sk_buff \<times> tcp_sock" where
  "place_on_subflow tp skb =
     (let end_seq = write_seq tp + (skb_len skb + (if has (tcp_flags skb) TCPHDR_FIN then 1 else 0))
      in (skb\<lparr>skb_seq := write_seq tp, skb_end_seq := end_seq\<rparr>, tp\<lparr>write_seq := end_seq\<rparr>))"

definition mark_second_packet :: "sk_buff \<Rightarrow> tcp_sock \<Rightarrow> tcp_sock" where
  "mark_second_packet skb tp =
     (if fully_established tp then tp
      else tp\<lparr>second_packet := True, last_end_data_seq := skb_end_seq skb\<rparr>)"

text \<open>\<open>mptcp_skb_entail\<close>: the result of the function, the connection-level segment and the state.  The
  part from the copy of the buffer on is a definition of its own.\<close>

definition entail_copy ::
  "kernel_ops \<Rightarrow> sk_ptr \<Rightarrow> sk_ptr \<Rightarrow> sk_buff \<Rightarrow> out_state \<Rightarrow> bool \<times> sk_buff \<times> out_state" where
  "entail_copy ops meta sk skb s =
    (if \<not> k_copy ops sk skb then (False, skb, s)
     else
       let tp0 = o_socks s sk; meta_tp = o_socks s meta; mpcb0 = o_mpcb s;
           skb1 = skb\<lparr>path_mask := path_mask skb OR mptcp_pi_to_flag (path_index tp0)\<rparr>;
           inf = starts_infinite mpcb0 meta_tp skb;
           tp1 = (if inf then tp0\<lparr>fully_established := True, infinite_cutoff_seq := write_seq tp0\<rparr> else tp0);
           mpcb = (if inf then mpcb0\<lparr>infinite_mapping_snd := True\<rparr> else mpcb0);
           sub1 = (if inf then skb\<lparr>mptcp_flags := setf (mptcp_flags skb) MPTCPHDR_INF\<rparr> else skb);
           (sub2, tp2) = (if mptcp_is_data_fin sub1 then mptcp_combine_dfin ops mpcb meta_tp sub1 tp1
                          else (sub1, tp1));
           sub3 = mptcp_save_dss_data_seq ops mpcb meta_tp tp2 sub2;
           (sub, tp3) = place_on_subflow tp2 sub3
       in if \<not> mptcp_is_data_fin sub \<or> skb_end_seq sub \<noteq> skb_seq sub
          then (True, skb1, s\<lparr>o_socks := (o_socks s)(sk := mark_second_packet skb1 tp3), o_mpcb := mpcb,
                             o_queue := (o_queue s)(sk := o_queue s sk @ [sub])\<rparr>)
          else (case k_transmit ops tp3 sub of (err, tp4) \<Rightarrow>
                  if err then (False, skb1, s\<lparr>o_socks := (o_socks s)(sk := tp4), o_mpcb := mpcb\<rparr>)
                  else (True, skb1,
                        s\<lparr>o_socks := (o_socks s)(sk := mark_second_packet skb1 tp4), o_mpcb := mpcb\<rparr>)))"

definition mptcp_skb_entail ::
  "kernel_ops \<Rightarrow> sk_ptr \<Rightarrow> sk_ptr \<Rightarrow> sk_buff \<Rightarrow> bool \<Rightarrow> out_state \<Rightarrow> bool \<times> sk_buff \<times> out_state" where
  "mptcp_skb_entail ops meta sk skb reinject s =
     entail_copy ops meta sk
       (if reinject then skb
        else skb\<lparr>mptcp_flags := setf (mptcp_flags skb)
                       (if snd_hiseq_index (o_mpcb s) then MPTCPHDR_SEQ64_INDEX else 0)\<rparr>) s"

section \<open>Reinjection\<close>

definition mptcp_is_reinjected :: "sk_buff \<Rightarrow> bool" where
  "mptcp_is_reinjected skb = has (mptcp_flags skb) MPTCP_REINJECT"

text \<open>The path mask of the connection-level segment with the same first number; \<open>sent\<close> is the write
  queue of the connection up to its send head.\<close>

definition mptcp_find_and_set_pathmask :: "sk_buff list \<Rightarrow> sk_buff \<Rightarrow> sk_buff" where
  "mptcp_find_and_set_pathmask sent skb =
     (case find (\<lambda>it. skb_seq it = skb_seq skb) sent of
        Some it \<Rightarrow> skb\<lparr>path_mask := path_mask it\<rparr> | None \<Rightarrow> skb)"

text \<open>
  The place for a segment in the reinject queue: the number of segments it goes behind, or
  \<open>None\<close> when all its data is already queued.
\<close>

definition reinject_behind :: "sk_buff list \<Rightarrow> sk_buff \<Rightarrow> nat option" where
  "reinject_behind q skb =
     (case find (\<lambda>i. \<not> after (skb_seq (q ! i)) (skb_seq skb)) (rev [0..<length q]) of
        None \<Rightarrow> Some 0
      | Some i \<Rightarrow>
         if before (skb_seq skb) (skb_end_seq (q ! i))
         then (if \<not> after (skb_end_seq skb) (skb_end_seq (q ! i)) then None
               else if skb_seq skb = skb_seq (q ! i) then Some i else Some (Suc i))
         else Some (Suc i))"

definition reinject_insert :: "sk_buff list \<Rightarrow> sk_buff \<Rightarrow> sk_buff list" where
  "reinject_insert q skb =
     (case reinject_behind q skb of
        None \<Rightarrow> q
      | Some k \<Rightarrow> take k q @ skb #
                  dropWhile (\<lambda>s. after (skb_end_seq skb) (skb_seq s)) (drop k q))"

text \<open>A segment whose data is exactly its mapping.\<close>

definition covers_mapping :: "sk_buff \<Rightarrow> bool" where
  "covers_mapping skb \<longleftrightarrow>
     skb_len skb + (if mptcp_is_data_fin skb then 1 else 0) = skb_end_seq skb - skb_seq skb"

definition mptcp_clear_dss :: "sk_buff \<Rightarrow> sk_buff" where
  "mptcp_clear_dss skb = skb\<lparr>dss_hdr := no_dss, dss_words := replicate 4 0\<rparr>"

text \<open>
  \<open>__mptcp_reinject_data\<close>.  A segment whose data is not its whole mapping is replaced by the segments
  of the connection's write queue inside the mapping, which go through the same function; the
  copy of a segment may fail, which \<open>copies\<close> tells; the depth of this recursion is bounded by \<open>fuel\<close>, and \<open>None\<close> means that it is exceeded.
\<close>

primrec walk_mapping ::
  "(sk_buff \<Rightarrow> bool) \<Rightarrow> (sk_buff \<Rightarrow> mptcp_cb \<Rightarrow> mptcp_cb option) \<Rightarrow> u32 \<Rightarrow> u32 \<Rightarrow> sk_buff list \<Rightarrow> mptcp_cb \<Rightarrow> mptcp_cb option" where
  "walk_mapping copies f seq end_seq [] mpcb = Some mpcb"
| "walk_mapping copies f seq end_seq (x # xs) mpcb =
     (if before (skb_seq x) seq then walk_mapping copies f seq end_seq xs mpcb
      else if after (skb_end_seq x) end_seq then Some mpcb
      else do { mpcb' \<leftarrow> (if copies x then f x mpcb else Some mpcb); walk_mapping copies f seq end_seq xs mpcb' })"

primrec mptcp_reinject_skb ::
  "(sk_buff \<Rightarrow> bool) \<Rightarrow> nat \<Rightarrow> tcp_sock \<Rightarrow> sk_buff list \<Rightarrow> sk_buff list \<Rightarrow> bool \<Rightarrow> sk_buff \<Rightarrow> mptcp_cb \<Rightarrow> mptcp_cb option" where
  "mptcp_reinject_skb copies 0 meta_tp queue sent from_sub skb0 mpcb = None"
| "mptcp_reinject_skb copies (Suc fuel) meta_tp queue sent from_sub skb0 mpcb =
     (case (if from_sub then mptcp_reconstruct_mapping skb0 else Some skb0) of
        None \<Rightarrow> Some mpcb
      | Some skb \<Rightarrow>
         if \<not> after (skb_end_seq skb) (snd_una meta_tp) then Some mpcb
         else if \<not> covers_mapping skb
         then walk_mapping copies (mptcp_reinject_skb copies fuel meta_tp queue sent False)
                (skb_seq skb) (skb_end_seq skb) queue mpcb
         else Some (mpcb\<lparr>reinject_queue := reinject_insert (reinject_queue mpcb)
                (mptcp_find_and_set_pathmask sent (mptcp_clear_dss skb))\<rparr>))"

text \<open>The segments of a subflow that are not reinjected: SYN, a FIN without data or data-FIN, an empty
  data-FIN with a FIN, and what was reinjected before.\<close>

definition not_reinjected :: "sk_buff \<Rightarrow> bool" where
  "not_reinjected skb \<longleftrightarrow> has (tcp_flags skb) TCPHDR_SYN \<or>
     (has (tcp_flags skb) TCPHDR_FIN \<and> \<not> mptcp_is_data_fin skb) \<or>
     (has (tcp_flags skb) TCPHDR_FIN \<and> mptcp_is_data_fin skb \<and> skb_len skb = 0) \<or>
     mptcp_is_reinjected skb"

text \<open>
  The walk over the write queue of the subflow: the queue that is left and the control block.  With
  \<open>clone_it\<close> the segments stay, and the copy may fail; without it they are unlinked.
\<close>

fun reinject_walk ::
  "kernel_ops \<Rightarrow> sk_ptr \<Rightarrow> nat \<Rightarrow> tcp_sock \<Rightarrow> sk_buff list \<Rightarrow> sk_buff list \<Rightarrow> sk_ptr \<Rightarrow> bool \<Rightarrow>
    sk_buff list \<Rightarrow> mptcp_cb \<Rightarrow> (sk_buff list \<times> mptcp_cb) option" where
  "reinject_walk ops meta fuel meta_tp queue sent sk clone_it [] mpcb = Some ([], mpcb)"
| "reinject_walk ops meta fuel meta_tp queue sent sk clone_it (x # xs) mpcb =
     (if not_reinjected x
      then do { (ys, m) \<leftarrow> reinject_walk ops meta fuel meta_tp queue sent sk clone_it xs mpcb;
                Some (x # ys, m) }
      else let x' = x\<lparr>mptcp_flags := setf (mptcp_flags x) MPTCP_REINJECT\<rparr>
           in do { m1 \<leftarrow> (if clone_it \<and> \<not> k_copy ops sk x' then Some mpcb
                          else mptcp_reinject_skb (k_copy ops meta) fuel meta_tp queue sent True x' mpcb);
                   (ys, m) \<leftarrow> reinject_walk ops meta fuel meta_tp queue sent sk clone_it xs m1;
                   Some (if clone_it then x' # ys else ys, m) })"

text \<open>\<open>mptcp_reinject_data\<close>, up to the push of the connection's pending frames at its end.\<close>

definition mptcp_reinject_data ::
  "kernel_ops \<Rightarrow> nat \<Rightarrow> sk_ptr \<Rightarrow> sk_buff list \<Rightarrow> sk_buff list \<Rightarrow> sk_ptr \<Rightarrow> bool \<Rightarrow> out_state \<Rightarrow>
     out_state option" where
  "mptcp_reinject_data ops fuel meta queue sent sk clone_it s =
     (if sk_state (o_socks s meta) = TCP_CLOSE then Some s
      else do {
        (q, m) \<leftarrow> reinject_walk ops meta fuel (o_socks s meta) queue sent sk clone_it (o_queue s sk) (o_mpcb s);
        m' \<leftarrow> (if queue \<noteq> [] \<and> mptcp_is_data_fin (last queue) \<and> skb_len (last queue) = 0 \<and>
                   has (path_mask (last queue)) (mptcp_pi_to_flag (path_index (o_socks s sk)))
                then (if k_copy ops meta (last queue)
                      then mptcp_reinject_skb (k_copy ops meta) fuel (o_socks s meta) queue sent False (last queue) m
                      else Some m)
                else Some m);
        Some (s\<lparr>o_queue := (o_queue s)(sk := q), o_mpcb := m',
                o_socks := (o_socks s)(sk := (o_socks s sk)\<lparr>pf := True\<rparr>)\<rparr>) })"

section \<open>The length word\<close>

lemma drop16 [simp]: "drop_bit 16 (push_bit 16 (ucast (d::u16)) :: u32) = ucast d"
proof (rule bit_word_eqI)
  fix n assume "n < LENGTH(32)"
  then show "bit (drop_bit 16 (push_bit 16 (ucast d)) :: u32) n = bit (ucast d :: u32) n"
    by (auto simp: bit_simps dest: bit_imp_le_length)
qed

lemma drop16_low [simp]:
  "drop_bit 16 (ucast (c::u16) :: u32) = 0" "drop_bit 16 (push_bit 8 TCPOPT_NOP) = 0"
  "drop_bit 16 TCPOPT_NOP = 0"
proof -
  show "drop_bit 16 (ucast c :: u32) = 0"
    by (rule bit_word_eqI) (auto simp: bit_simps dest: bit_imp_le_length)
qed (simp_all add: TCPOPT_NOP_def)

lemma ucast16_back:
  assumes "unat (x::u32) < 2 ^ 16"
  shows "ucast (ucast x :: u16) = x"
  using assms by (simp add: word_unat_eq_iff unsigned_ucast_eq unsigned_take_bit_eq take_bit_nat_eq_self)

lemma dss_length_word:
  "drop_bit 16 (mptcp_write_dss_mapping ops mpcb tp skb ! 2) =
     (if has (mptcp_flags skb) MPTCPHDR_INF then 0
      else ucast (ucast (skb_end_seq skb - skb_seq skb) :: u16))"
  by (simp add: mptcp_write_dss_mapping_def Let_def)

lemma dss_words_mapping [simp]:
  "mptcp_write_dss_mapping ops mpcb tp skb ! 0 = skb_seq skb"
  "length (mptcp_write_dss_mapping ops mpcb tp skb) = 3"
  by (simp_all add: mptcp_write_dss_mapping_def Let_def)

lemma save_dss_simps [simp]:
  "skb_seq (mptcp_save_dss_data_seq ops mpcb meta_tp tp skb) = skb_seq skb"
  "skb_end_seq (mptcp_save_dss_data_seq ops mpcb meta_tp tp skb) = skb_end_seq skb"
  "skb_len (mptcp_save_dss_data_seq ops mpcb meta_tp tp skb) = skb_len skb"
  "tcp_flags (mptcp_save_dss_data_seq ops mpcb meta_tp tp skb) = tcp_flags skb"
  "path_mask (mptcp_save_dss_data_seq ops mpcb meta_tp tp skb) = path_mask skb"
  "mptcp_flags (mptcp_save_dss_data_seq ops mpcb meta_tp tp skb) = setf (mptcp_flags skb) MPTCPHDR_SEQ"
  by (simp_all add: mptcp_save_dss_data_seq_def mptcp_write_dss_data_ack_def Let_def)

lemma saved_dss:
  assumes "dss_hdr b = dss_hdr (mptcp_save_dss_data_seq ops mpcb meta_tp tp skb)"
    and "dss_words b = dss_words (mptcp_save_dss_data_seq ops mpcb meta_tp tp skb)"
    and "mptcp_is_data_seq b"
    and "unat (skb_end_seq skb - skb_seq skb) < 2 ^ 16" and "\<not> has (mptcp_flags skb) MPTCPHDR_INF"
  shows "mptcp_reconstruct_mapping b = Some (b\<lparr>skb_seq := skb_seq skb, skb_end_seq := skb_end_seq skb\<rparr>)"
proof -
  let ?skb = "skb\<lparr>mptcp_flags := setf (mptcp_flags skb) MPTCPHDR_SEQ\<rparr>"
  have noinf: "\<not> has (mptcp_flags ?skb) MPTCPHDR_INF" using assms(5) by (simp add: flag_simps)
  have M: "mptcp_is_data_seq ?skb" by (simp add: mptcp_is_data_seq_def flag_simps)
  have hdr: "dss_M (dss_hdr b)" "dss_A (dss_hdr b)" "\<not> dss_a (dss_hdr b)"
    using M by (simp_all add: assms(1) mptcp_save_dss_data_seq_def mptcp_write_dss_data_ack_def Let_def)
  have words: "dss_words b = rcv_nxt meta_tp # mptcp_write_dss_mapping ops mpcb tp ?skb"
    by (simp add: assms(2) mptcp_save_dss_data_seq_def mptcp_write_dss_data_ack_def Let_def)
  have "dss_words b ! Suc 0 = skb_seq skb" by (simp add: words)
  moreover have "drop_bit 16 (dss_words b ! Suc (Suc (Suc 0))) = skb_end_seq skb - skb_seq skb"
    using dss_length_word [of ops mpcb tp ?skb] noinf ucast16_back [OF assms(4)]
    by (simp add: words numeral_2_eq_2)
  ultimately show ?thesis using hdr assms(3) by (simp add: mptcp_reconstruct_mapping_def Let_def)
qed

section \<open>The reinject queue\<close>

text \<open>The numbers of a segment above a base.\<close>

definition seg_ok :: "u32 \<Rightarrow> sk_buff \<Rightarrow> bool" where
  "seg_ok base s \<longleftrightarrow> pos base (skb_seq s) < pos base (skb_end_seq s) \<and> pos base (skb_end_seq s) < 2 ^ 31"

definition seg_bytes :: "u32 \<Rightarrow> sk_buff \<Rightarrow> nat set" where
  "seg_bytes base s = {pos base (skb_seq s)..<pos base (skb_end_seq s)}"

definition rq_ok :: "u32 \<Rightarrow> sk_buff list \<Rightarrow> bool" where
  "rq_ok base q \<longleftrightarrow> sorted_wrt (\<lambda>a b. pos base (skb_seq a) < pos base (skb_seq b)) q \<and>
     (\<forall>s \<in> set q. seg_ok base s)"

lemma seg_ok_bounds: "seg_ok base s \<Longrightarrow> pos base (skb_seq s) < 2 ^ 31 \<and> pos base (skb_end_seq s) < 2 ^ 31"
  by (auto simp: seg_ok_def)

text \<open>Where the new segment goes: behind the segments that start before it, and in front of those
  that do not; or its numbers are all in one segment.\<close>

lemma reinject_behind_spec:
  assumes q: "rq_ok base q" and s: "seg_ok base skb"
  shows "case reinject_behind q skb of
      None \<Rightarrow> \<exists>i < length q. seg_bytes base skb \<subseteq> seg_bytes base (q ! i)
    | Some k \<Rightarrow> k \<le> length q \<and> (\<forall>i < k. pos base (skb_seq (q ! i)) < pos base (skb_seq skb)) \<and>
        (\<forall>i < length q. k \<le> i \<longrightarrow> pos base (skb_seq skb) \<le> pos base (skb_seq (q ! i)))"
proof -
  have ok: "seg_ok base (q ! i)" if "i < length q" for i using q that by (auto simp: rq_ok_def)
  have after: "after (skb_seq (q ! i)) (skb_seq skb) \<longleftrightarrow> pos base (skb_seq skb) < pos base (skb_seq (q ! i))"
    if "i < length q" for i using seg_ok_bounds [OF ok [OF that]] seg_ok_bounds [OF s] by (simp add: pos_after)
  have less: "pos base (skb_seq (q ! i)) < pos base (skb_seq (q ! j))" if "i < j" "j < length q" for i j
    using q that by (auto simp: rq_ok_def sorted_wrt_iff_nth_less)
  show ?thesis
  proof (cases "find (\<lambda>i. \<not> after (skb_seq (q ! i)) (skb_seq skb)) (rev [0..<length q])")
    case None
    then have "reinject_behind q skb = Some 0" by (simp add: reinject_behind_def)
    moreover have "pos base (skb_seq skb) < pos base (skb_seq (q ! i))" if "i < length q" for i
      using None [unfolded find_rev_None] after that by blast
    ultimately show ?thesis by (simp add: less_imp_le)
  next
    case (Some i)
    note i = find_rev_Some [OF Some]
    have il: "i < length q" and le: "pos base (skb_seq (q ! i)) \<le> pos base (skb_seq skb)"
      using i after by (auto simp: not_less)
    have gt: "pos base (skb_seq skb) < pos base (skb_seq (q ! j))" if "i < j" "j < length q" for j
      using i after that by blast
    have lt: "pos base (skb_seq (q ! j)) < pos base (skb_seq skb)" if "j < i" for j
      using less [OF that il] le by linarith
    have bef: "before (skb_seq skb) (skb_end_seq (q ! i)) \<longleftrightarrow>
        pos base (skb_seq skb) < pos base (skb_end_seq (q ! i))"
      and aft: "after (skb_end_seq skb) (skb_end_seq (q ! i)) \<longleftrightarrow>
        pos base (skb_end_seq (q ! i)) < pos base (skb_end_seq skb)"
      using seg_ok_bounds [OF ok [OF il]] seg_ok_bounds [OF s] by (simp_all add: pos_before pos_after)
    have eq: "skb_seq skb = skb_seq (q ! i) \<longleftrightarrow> pos base (skb_seq skb) = pos base (skb_seq (q ! i))"
      by (simp add: pos_inj)
    have val: "reinject_behind q skb =
        (if pos base (skb_seq skb) < pos base (skb_end_seq (q ! i))
         then (if pos base (skb_end_seq skb) \<le> pos base (skb_end_seq (q ! i)) then None
               else if pos base (skb_seq skb) = pos base (skb_seq (q ! i)) then Some i else Some (Suc i))
         else Some (Suc i))"
      by (simp only: reinject_behind_def Some option.case bef aft eq not_less)
    show ?thesis
    proof (cases "pos base (skb_seq skb) < pos base (skb_end_seq (q ! i)) \<and>
        pos base (skb_end_seq skb) \<le> pos base (skb_end_seq (q ! i))")
      case True
      then have "reinject_behind q skb = None" by (simp add: val)
      moreover have "seg_bytes base skb \<subseteq> seg_bytes base (q ! i)"
        using True le by (auto simp: seg_bytes_def)
      ultimately show ?thesis using il by auto
    next
      case outside: False
      show ?thesis
      proof (cases "pos base (skb_seq skb) = pos base (skb_seq (q ! i))")
        case True
        then have "reinject_behind q skb = Some i" using outside ok [OF il] by (auto simp: val seg_ok_def)
        then show ?thesis using lt gt il True by (auto simp: le_less)
      next
        case False
        then have "reinject_behind q skb = Some (Suc i)" using outside by (auto simp: val)
        then show ?thesis using lt gt il le False by (auto simp: less_Suc_eq Suc_le_eq intro: less_imp_le)
      qed
    qed
  qed
qed

text \<open>A list that is split in front of the first element that does not start before a number.\<close>

lemma sorted_dropWhile_ge:
  assumes "sorted_wrt (\<lambda>a b. f a < (f b :: nat)) xs" and "x \<in> set (dropWhile (\<lambda>s. f s < e) xs)"
  shows "e \<le> f x"
  using assms
  by (induction xs) (auto split: if_splits dest: less_imp_le order_trans)

lemma reinject_insert_Some:
  assumes q: "rq_ok base q" and s: "seg_ok base skb" and k: "reinject_behind q skb = Some k"
  shows "reinject_insert q skb = take k q @ skb #
    dropWhile (\<lambda>x. pos base (skb_seq x) < pos base (skb_end_seq skb)) (drop k q)"
proof -
  have "after (skb_end_seq skb) (skb_seq x) \<longleftrightarrow> pos base (skb_seq x) < pos base (skb_end_seq skb)"
    if "x \<in> set (drop k q)" for x
  proof -
    have "seg_ok base x" using q in_set_dropD [OF that] by (auto simp: rq_ok_def)
    then show ?thesis using seg_ok_bounds s by (simp add: pos_after)
  qed
  then show ?thesis by (simp add: reinject_insert_def k cong: dropWhile_cong)
qed

lemma dropWhile_removes:
  "x \<in> set xs \<Longrightarrow> x \<notin> set (dropWhile P xs) \<Longrightarrow> P x"
  by (induction xs) (auto split: if_splits)

lemma reinject_insert_sorted:
  assumes q: "rq_ok base q" and s: "seg_ok base skb"
  shows "rq_ok base (reinject_insert q skb)"
proof (cases "reinject_behind q skb")
  case None
  then show ?thesis using q by (simp add: reinject_insert_def)
next
  case (Some k)
  let ?f = "\<lambda>x. pos base (skb_seq x)"
  let ?rest = "dropWhile (\<lambda>x. ?f x < pos base (skb_end_seq skb)) (drop k q)"
  note spec = reinject_behind_spec [OF q s, unfolded Some, simplified]
  have srt: "sorted_wrt (\<lambda>a b. ?f a < ?f b) q" using q by (simp add: rq_ok_def)
  have split: "sorted_wrt (\<lambda>a b. ?f a < ?f b) (take k q @ drop k q)" using srt by simp
  have pre: "?f x < ?f skb" if "x \<in> set (take k q)" for x
    using that spec by (auto simp: in_set_conv_nth)
  have "pos base (skb_end_seq skb) \<le> ?f x" if "x \<in> set ?rest" for x
    by (rule sorted_dropWhile_ge [OF _ that]) (use srt in \<open>rule sorted_wrt_drop\<close>)
  then have post: "?f skb < ?f x" if "x \<in> set ?rest" for x using that s by (fastforce simp: seg_ok_def)
  have "sorted_wrt (\<lambda>a b. ?f a < ?f b) (take k q @ ?rest)"
    using split unfolding sorted_wrt_append by (blast intro: sorted_wrt_dropWhile dest: set_dropWhileD)
  then have "sorted_wrt (\<lambda>a b. ?f a < ?f b) (take k q @ skb # ?rest)"
    using pre post by (auto simp: sorted_wrt_append)
  moreover have "\<forall>x \<in> set (take k q @ skb # ?rest). seg_ok base x"
    using q s by (auto simp: rq_ok_def dest: in_set_takeD set_dropWhileD in_set_dropD)
  ultimately show ?thesis unfolding reinject_insert_Some [OF q s Some] rq_ok_def by blast
qed

lemma reinject_insert_covers:
  assumes q: "rq_ok base q" and s: "seg_ok base skb"
  shows "seg_bytes base skb \<subseteq> \<Union> (seg_bytes base ` set (reinject_insert q skb))"
    and "x \<in> set q \<Longrightarrow> x \<in> set (reinject_insert q skb) \<or> pos base (skb_seq x) \<in> seg_bytes base skb"
proof -
  note spec = reinject_behind_spec [OF q s]
  show "seg_bytes base skb \<subseteq> \<Union> (seg_bytes base ` set (reinject_insert q skb))"
  proof (cases "reinject_behind q skb")
    case None
    then show ?thesis using spec by (force simp: reinject_insert_def)
  qed (auto simp: reinject_insert_def)
  assume x: "x \<in> set q"
  show "x \<in> set (reinject_insert q skb) \<or> pos base (skb_seq x) \<in> seg_bytes base skb"
  proof (cases "reinject_behind q skb")
    case None
    then show ?thesis using x by (simp add: reinject_insert_def)
  next
    case (Some k)
    let ?P = "\<lambda>x. pos base (skb_seq x) < pos base (skb_end_seq skb)"
    have "x \<in> set (take k q) \<or> x \<in> set (drop k q)" using x by (metis Un_iff append_take_drop_id set_append)
    then consider "x \<in> set (take k q)" | "x \<in> set (dropWhile ?P (drop k q))"
      | "x \<in> set (drop k q)" "?P x" using dropWhile_removes [of x "drop k q" ?P] by blast
    then show ?thesis
    proof cases
      case 3
      then have "pos base (skb_seq skb) \<le> pos base (skb_seq x)"
        using spec Some by (auto simp: in_set_conv_nth)
      then show ?thesis using 3 by (simp add: seg_bytes_def)
    qed (simp_all add: reinject_insert_Some [OF q s Some])
  qed
qed

section \<open>Adding a data segment\<close>

text \<open>The appended segment and the state after a successful copy.\<close>

definition placed :: "kernel_ops \<Rightarrow> sk_ptr \<Rightarrow> sk_ptr \<Rightarrow> sk_buff \<Rightarrow> out_state \<Rightarrow> sk_buff" where
  "placed ops meta sk skb s =
     fst (place_on_subflow (o_socks s sk)
       (mptcp_save_dss_data_seq ops (o_mpcb s) (o_socks s meta) (o_socks s sk) skb))"

lemma mark_second_packet_simps [simp]:
  "write_seq (mark_second_packet b tp) = write_seq tp" "path_index (mark_second_packet b tp) = path_index tp"
  by (simp_all add: mark_second_packet_def)

lemma entail_copy_data:
  assumes "\<not> mptcp_is_data_fin skb" and "\<not> send_infinite_mapping (o_mpcb s)" and "k_copy ops sk skb"
  defines "skb' \<equiv> skb\<lparr>path_mask := path_mask skb OR mptcp_pi_to_flag (path_index (o_socks s sk))\<rparr>"
  shows "entail_copy ops meta sk skb s = (True, skb',
    s\<lparr>o_socks := (o_socks s)(sk := mark_second_packet skb'
        ((o_socks s sk)\<lparr>write_seq := skb_end_seq (placed ops meta sk skb s)\<rparr>)),
      o_queue := (o_queue s)(sk := o_queue s sk @ [placed ops meta sk skb s])\<rparr>)"
proof -
  have "\<not> mptcp_is_data_fin (placed ops meta sk skb s)"
    using assms(1) by (simp add: placed_def place_on_subflow_def Let_def mptcp_is_data_fin_def flag_simps)
  then show ?thesis using assms
    by (simp add: entail_copy_def Let_def starts_infinite_def placed_def place_on_subflow_def)
qed

lemma placed_simps:
  "skb_len (placed ops meta sk skb s) = skb_len skb"
  "skb_seq (placed ops meta sk skb s) = write_seq (o_socks s sk)"
  "skb_end_seq (placed ops meta sk skb s) - write_seq (o_socks s sk) =
     skb_len skb + (if has (tcp_flags skb) TCPHDR_FIN then 1 else 0)"
  by (simp_all add: placed_def place_on_subflow_def Let_def)

lemma placed_mapping:
  assumes "unat (skb_end_seq skb - skb_seq skb) < 2 ^ 16" and "\<not> has (mptcp_flags skb) MPTCPHDR_INF"
  shows "mptcp_reconstruct_mapping (placed ops meta sk skb s) =
    Some ((placed ops meta sk skb s)\<lparr>skb_seq := skb_seq skb, skb_end_seq := skb_end_seq skb\<rparr>)"
  by (rule saved_dss [OF _ _ _ assms, where ops = ops and mpcb = "o_mpcb s" and
        meta_tp = "o_socks s meta" and tp = "o_socks s sk"])
     (simp_all add: placed_def place_on_subflow_def Let_def mptcp_is_data_seq_def flag_simps)

lemma entail_appends:
  fixes skb :: sk_buff
  assumes data: "\<not> mptcp_is_data_fin skb" and len: "unat (skb_end_seq skb - skb_seq skb) < 2 ^ 16"
    and inf: "\<not> has (mptcp_flags skb) MPTCPHDR_INF" "\<not> send_infinite_mapping (o_mpcb s)"
    and res: "mptcp_skb_entail ops meta sk skb reinject s = (ok, skb', s')"
  shows "skb_seq skb' = skb_seq skb \<and> skb_end_seq skb' = skb_end_seq skb \<and> skb_len skb' = skb_len skb \<and>
    (if ok
     then \<exists>seg. o_queue s' = (o_queue s)(sk := o_queue s sk @ [seg]) \<and> skb_len seg = skb_len skb \<and>
         skb_seq seg = write_seq (o_socks s sk) \<and> skb_end_seq seg = write_seq (o_socks s' sk) \<and>
         skb_end_seq seg - skb_seq seg =
           skb_len skb + (if has (tcp_flags skb) TCPHDR_FIN then 1 else 0) \<and>
         mptcp_reconstruct_mapping seg =
           Some (seg\<lparr>skb_seq := skb_seq skb, skb_end_seq := skb_end_seq skb\<rparr>) \<and>
         path_mask skb' = path_mask skb OR mptcp_pi_to_flag (path_index (o_socks s sk)) \<and>
         (\<forall>p. p \<noteq> sk \<longrightarrow> o_socks s' p = o_socks s p) \<and> o_mpcb s' = o_mpcb s
     else s' = s \<and> path_mask skb' = path_mask skb)"
proof -
  define b where "b = (if reinject then skb else skb\<lparr>mptcp_flags := setf (mptcp_flags skb)
     (if snd_hiseq_index (o_mpcb s) then MPTCPHDR_SEQ64_INDEX else 0)\<rparr>)"
  have zero: "\<not> has (0::u8) f" for f by (simp add: has_def)
  have flags: "\<not> mptcp_is_data_fin b" "\<not> has (mptcp_flags b) MPTCPHDR_INF"
    using data inf by (simp_all add: b_def mptcp_is_data_fin_def flag_simps zero)
  have same: "skb_seq b = skb_seq skb" "skb_end_seq b = skb_end_seq skb" "skb_len b = skb_len skb"
    "path_mask b = path_mask skb" "tcp_flags b = tcp_flags skb" by (simp_all add: b_def)
  have r: "entail_copy ops meta sk b s = (ok, skb', s')"
    using res by (simp only: mptcp_skb_entail_def b_def)
  show ?thesis
  proof (cases "k_copy ops sk b")
    case False
    then show ?thesis using r same by (auto simp: entail_copy_def)
  next
    case True
    let ?seg = "placed ops meta sk b s"
    have "mptcp_reconstruct_mapping ?seg =
        Some (?seg\<lparr>skb_seq := skb_seq skb, skb_end_seq := skb_end_seq skb\<rparr>)"
      using placed_mapping [of b ops meta sk s] len flags(2) by (simp add: same)
    then show ?thesis
      using r [unfolded entail_copy_data [OF flags(1) inf(2) True]] placed_simps [of ops meta sk b s]
      by (auto simp: same)
  qed
qed

section \<open>Properties\<close>

text \<open>C5. The mapping that is saved with a segment survives what happens to the segment on the
  subflow: as long as the saved option is untouched, reading it back restores the connection-level
  sequence numbers, for every segment shorter than 64 KiB, with or without a checksum.\<close>

theorem mptcp_save_dss_roundtrip:
  assumes "unat (skb_end_seq skb - skb_seq skb) < 2 ^ 16" and "\<not> has (mptcp_flags skb) MPTCPHDR_INF"
  shows "mptcp_reconstruct_mapping ((mptcp_save_dss_data_seq ops mpcb meta_tp tp skb)
      \<lparr>skb_seq := s, skb_end_seq := e, skb_len := l, path_mask := m, tcp_flags := f\<rparr>) =
    Some ((mptcp_save_dss_data_seq ops mpcb meta_tp tp skb)
      \<lparr>skb_seq := skb_seq skb, skb_end_seq := skb_end_seq skb, skb_len := l, path_mask := m, tcp_flags := f\<rparr>)"
  by (subst saved_dss [OF _ _ _ assms, of _ ops mpcb meta_tp tp])
     (simp_all add: mptcp_is_data_seq_def flag_simps)

text \<open>Adding a data segment to a subflow: when the copy fails, no state changes; when it succeeds,
  exactly one segment is appended to the subflow's write queue, with the length of the original, the
  next subflow sequence numbers and a saved mapping that restores the connection-level numbers; the
  original keeps its numbers and records the path, and no other subflow is touched.\<close>

lemma mptcp_skb_entail_appends:
  fixes skb :: sk_buff
  assumes data: "\<not> mptcp_is_data_fin skb" and len: "unat (skb_end_seq skb - skb_seq skb) < 2 ^ 16"
    and inf: "\<not> has (mptcp_flags skb) MPTCPHDR_INF" "\<not> send_infinite_mapping (o_mpcb s)"
    and res: "mptcp_skb_entail ops meta sk skb reinject s = (ok, skb', s')"
  shows "skb_seq skb' = skb_seq skb \<and> skb_end_seq skb' = skb_end_seq skb \<and> skb_len skb' = skb_len skb \<and>
    (if ok
     then \<exists>seg. o_queue s' = (o_queue s)(sk := o_queue s sk @ [seg]) \<and> skb_len seg = skb_len skb \<and>
         skb_seq seg = write_seq (o_socks s sk) \<and> skb_end_seq seg = write_seq (o_socks s' sk) \<and>
         skb_end_seq seg - skb_seq seg =
           skb_len skb + (if has (tcp_flags skb) TCPHDR_FIN then 1 else 0) \<and>
         mptcp_reconstruct_mapping seg =
           Some (seg\<lparr>skb_seq := skb_seq skb, skb_end_seq := skb_end_seq skb\<rparr>) \<and>
         path_mask skb' = path_mask skb OR mptcp_pi_to_flag (path_index (o_socks s sk)) \<and>
         (\<forall>p. p \<noteq> sk \<longrightarrow> o_socks s' p = o_socks s p) \<and> o_mpcb s' = o_mpcb s
     else s' = s \<and> path_mask skb' = path_mask skb)"
  by (rule entail_appends [OF assms])

text \<open>C6. Reinjection keeps the queue sorted by data sequence number; all data of the reinjected
  segment is in the queue afterwards, and a segment only leaves the queue when it starts inside the
  reinjected one.\<close>

theorem reinject_insert_keeps:
  assumes "rq_ok base q" and "seg_ok base skb"
  shows "rq_ok base (reinject_insert q skb) \<and>
    seg_bytes base skb \<subseteq> \<Union> (seg_bytes base ` set (reinject_insert q skb)) \<and>
    (\<forall>x. x \<in> set q \<longrightarrow> x \<in> set (reinject_insert q skb) \<or> pos base (skb_seq x) \<in> seg_bytes base skb)"
  using reinject_insert_sorted [OF assms] reinject_insert_covers [OF assms] by blast

text \<open>A segment that is only partly covered by the new one is removed all the same, and the rest of
  its data is no longer queued.\<close>

lemma reinject_insert_drops_partly_covered:
  "reinject_insert [sample_skb\<lparr>skb_seq := 50, skb_end_seq := 200\<rparr>] sample_skb = [sample_skb]"
  by (simp add: reinject_insert_def reinject_behind_def sample_skb_def after_def before_def)

section \<open>Closed instances\<close>

definition sample_ops :: kernel_ops where
  "sample_ops = \<lparr>k_copy = (\<lambda>_ _. True), k_close_state = (\<lambda>tp. (False, tp)),
     k_transmit = (\<lambda>tp _. (False, tp)), k_push = (\<lambda>_ tp. tp), k_csum = (\<lambda>_ _ _. 0)\<rparr>"

definition sample_out :: out_state where
  "sample_out = \<lparr>o_socks = (\<lambda>_. sample_sock), o_mpcb = sample_mpcb, o_queue = (\<lambda>_. [])\<rparr>"

theorem mptcp_save_dss_roundtrip_witness:
  "mptcp_reconstruct_mapping ((mptcp_save_dss_data_seq sample_ops sample_mpcb sample_sock sample_sock sample_skb)
      \<lparr>skb_seq := 7, skb_end_seq := 8, skb_len := 1, path_mask := 0, tcp_flags := 0\<rparr>) =
    Some ((mptcp_save_dss_data_seq sample_ops sample_mpcb sample_sock sample_sock sample_skb)
      \<lparr>skb_seq := 0, skb_end_seq := 100, skb_len := 1, path_mask := 0, tcp_flags := 0\<rparr>)"
  using mptcp_save_dss_roundtrip [of sample_skb, where ops = sample_ops and mpcb = sample_mpcb and
      meta_tp = sample_sock and tp = sample_sock and s = 7 and e = 8 and l = 1 and m = 0 and f = 0]
  by (simp add: sample_skb_def has_def)

lemma mptcp_skb_entail_appends_witness:
  "length (o_queue (snd (snd (mptcp_skb_entail sample_ops 0 1 sample_skb True sample_out))) 1) = 1"
proof -
  obtain ok skb' s' where res: "mptcp_skb_entail sample_ops 0 1 sample_skb True sample_out = (ok, skb', s')"
    by (cases "mptcp_skb_entail sample_ops 0 1 sample_skb True sample_out")
  have "\<not> mptcp_is_data_fin sample_skb" "\<not> has (mptcp_flags sample_skb) MPTCPHDR_INF"
    by (simp_all add: mptcp_is_data_fin_def sample_skb_def has_def)
  moreover have "unat (skb_end_seq sample_skb - skb_seq sample_skb) < 2 ^ 16" by (simp add: sample_skb_def)
  moreover have "\<not> send_infinite_mapping (o_mpcb sample_out)" by (simp add: sample_out_def sample_mpcb_def)
  moreover from calculation have "ok"
    using res by (simp add: mptcp_skb_entail_def entail_copy_data sample_ops_def)
  moreover have "o_queue sample_out 1 = []" by (simp add: sample_out_def)
  ultimately show ?thesis
    using mptcp_skb_entail_appends [OF _ _ _ _ res] unfolding res by auto
qed

theorem reinject_insert_keeps_witness:
  "rq_ok 0 (reinject_insert [sample_skb\<lparr>skb_seq := 50, skb_end_seq := 200\<rparr>] sample_skb)"
  using reinject_insert_keeps [of 0 "[sample_skb\<lparr>skb_seq := 50, skb_end_seq := 200\<rparr>]" sample_skb]
  by (simp add: rq_ok_def seg_ok_def pos_def sample_skb_def)

end
