(* ===== verification/Red_Send.thy ===== *)
theory Red_Send
  imports Red_Avail Red_Failure Red_Bandwidth Path_Check Data_Output
begin

text \<open>
  Sending one segment with rMPTCP (\<open>net/mptcp/rmptcp.c\<close>): the transmission on all chosen subflows,
  the synchronisation with the sysctl variables, the reset for a new connection and the entry point
  \<open>rmptcp_send_next_segment\<close>, which calls all other parts.
\<close>

section \<open>Transmission on the available subflows\<close>

record send_state =
  s_reg :: redundant_socket_register
  s_skb :: sk_buff
  s_out :: out_state

definition push_frames :: "kernel_ops \<Rightarrow> u32 \<Rightarrow> sk_ptr \<Rightarrow> out_state \<Rightarrow> out_state" where
  "push_frames ops mss_now sk out =
     out\<lparr>o_socks := (o_socks out)(sk := k_push ops mss_now (o_socks out sk))\<rparr>"

definition count_entry :: "ktime \<Rightarrow> u32 \<Rightarrow> red_sk \<Rightarrow> red_sk" where
  "count_entry run_start len e = e\<lparr>rs_state := clrf (rs_state e) REDF_SK_Available, rs_last_used := run_start,
     rs_seg_count := rs_seg_count e + 1, rs_byte_count := rs_byte_count e + ucast len\<rparr>"

fun send_loop ::
  "kernel_ops \<Rightarrow> sk_ptr \<Rightarrow> bool \<Rightarrow> u32 \<Rightarrow> ktime \<Rightarrow> nat list \<Rightarrow> send_state \<Rightarrow> bool \<times> send_state" where
  "send_loop ops meta reinject mss_now run_start [] s = (True, s)"
| "send_loop ops meta reinject mss_now run_start (i # is) s =
     (let e = sk_list (s_reg s) ! i
      in if \<not> has (rs_state e) REDF_SK_Available then send_loop ops meta reinject mss_now run_start is s
         else
           let r1 = (s_reg s)\<lparr>sk_list := (sk_list (s_reg s))[i := count_entry run_start (skb_len (s_skb s)) e]\<rparr>
           in case mptcp_skb_entail ops meta (rs_sk e) (s_skb s) reinject (s_out s) of
                (ok, skb', out') \<Rightarrow>
                  if \<not> ok then (False, \<lparr>s_reg = r1, s_skb = skb', s_out = out'\<rparr>)
                  else send_loop ops meta reinject mss_now run_start is
                         \<lparr>s_reg = r1, s_skb = skb', s_out = push_frames ops mss_now (rs_sk e) out'\<rparr>)"

definition rmptcp_send_skb ::
  "kernel_ops \<Rightarrow> sk_ptr \<Rightarrow> bool \<Rightarrow> u32 \<Rightarrow> ktime \<Rightarrow> send_state \<Rightarrow> bool \<times> send_state" where
  "rmptcp_send_skb ops meta reinject mss_now run_start s =
     (case send_loop ops meta reinject mss_now run_start [0..<sk_list_size (s_reg s)] s of
        (ok, s') \<Rightarrow>
          if \<not> ok then (False, s')
          else if reinject then (True, s')
          else (True, s'\<lparr>s_reg := (s_reg s')\<lparr>effective_byte_count :=
                      effective_byte_count (s_reg s') + ucast (skb_len (s_skb s'))\<rparr>\<rparr>))"

section \<open>Sysctl variables\<close>

text \<open>The user asked for the next combination: the index wraps around behind the last one.\<close>

definition next_path :: "sysctls \<Rightarrow> pathIndex \<Rightarrow> sysctls \<times> pathIndex" where
  "next_path sc pI =
     (if sysctl_setPath sc \<noteq> 0 \<and> num_pathCombinations pI > 0
      then let a = s32 (pi_active pI + 1);
               a' = (if a \<ge> int (num_pathCombinations pI) \<or> a < 0 then 0 else a)
           in (sc\<lparr>sysctl_enablemask := pm_mask (pM pI ! nat a'), sysctl_setPath := 0\<rparr>,
               pI\<lparr>pi_active := a'\<rparr>)
      else (sc, pI))"

definition rmptcp_update_sysctl ::
  "sysctls \<Rightarrow> pathIndex \<Rightarrow> redundant_socket_register
     \<Rightarrow> sysctls \<times> pathIndex \<times> redundant_socket_register" where
  "rmptcp_update_sysctl sc pI r =
     (let period = s32 (sysctl_skreg_update sc * 1000000);
          noshow = word_of_int (sysctl_maxnoshow sc) :: u64;
          sc1 = (if sysctl_quota sc < 100 then sc\<lparr>sysctl_quota := 100\<rparr> else sc);
          (sc2, pI') = next_path sc1 pI
      in (sc2, pI',
          r\<lparr>sk_reg_update_period := (if period \<le> 0 then 1 else period),
            max_sk_noshow := (if noshow \<le> 0 then 1 else noshow),
            red_timeout := (if sysctl_timeout sc \<le> 0 then 1 else sysctl_timeout sc),
            q_target_user := word_of_int (sysctl_quota sc1),
            enable_mask := sysctl_enablemask sc2,
            collapse_th := (if sysctl_collapse_th sc > 0 \<and> sysctl_collapse_th sc < 100
                            then sysctl_collapse_th sc else collapse_th r)\<rparr>))"

section \<open>A new connection\<close>

definition rmptcp_reset_meta ::
  "sysctls \<Rightarrow> pathIndex \<Rightarrow> redundant_socket_register
     \<Rightarrow> sysctls \<times> pathIndex \<times> redundant_socket_register" where
  "rmptcp_reset_meta sc pI r =
     (sc\<lparr>sysctl_runpathcheck := 0\<rparr>, pI\<lparr>num_pathCombinations := 0\<rparr>,
      r\<lparr>reg_state := REDF_Open, cong_flag := 0, send_period := 0, send_period_mean := 0,
        send_period_var := 0, send_period_max := 0, sk_list_size := 0, num_enabled := 0,
        total_bw := 0, total_bw_mean := 0, effective_util := 0, effective_util_mean := 0,
        effective_util_mean_mean := 0, effective_util_var := 0,
        effective_util_mean_before_cong := 0, effective_byte_count := 0,
        effective_byte_count_old := 0, q_control := 0, q_control_high := 0, q_control_low := 0,
        q_actual := 0, q_target := 0, q_target_user := 0, send_period_max_before_cong := 50000\<rparr>)"

section \<open>The entry point\<close>

record red_world =
  w_sc :: sysctls
  w_pI :: pathIndex
  w_pc :: path_checker
  w_send :: send_state

abbreviation w_reg :: "red_world \<Rightarrow> redundant_socket_register" where
  "w_reg w \<equiv> s_reg (w_send w)"

abbreviation w_socks :: "red_world \<Rightarrow> socks" where
  "w_socks w \<equiv> o_socks (s_out (w_send w))"

definition set_reg :: "redundant_socket_register \<Rightarrow> red_world \<Rightarrow> red_world" where
  "set_reg r w = w\<lparr>w_send := (w_send w)\<lparr>s_reg := r\<rparr>\<rparr>"

definition check_meta :: "sk_ptr \<Rightarrow> red_world \<Rightarrow> red_world" where
  "check_meta meta w =
     (if meta_sk (w_reg w) \<noteq> Some meta
      then (case rmptcp_reset_meta (w_sc w) (w_pI w) ((w_reg w)\<lparr>meta_sk := Some meta\<rparr>) of
              (sc, pI, r) \<Rightarrow> set_reg r (w\<lparr>w_sc := sc, w_pI := pI\<rparr>))
      else w)"

text \<open>The branch of the path checker.\<close>

definition run_path_check :: "ktime \<Rightarrow> red_world \<Rightarrow> red_world option" where
  "run_path_check run_start w =
     do { (r, pI, pc, flag) \<leftarrow> pathChecker (w_sc w) (w_socks w) run_start (w_reg w) (w_pI w) (w_pc w);
          r' \<leftarrow> rmptcp_update_bw (w_sc w) (w_socks w) run_start True r;
          Some (set_reg (rmptcp_calc_controlQ (rmptcp_setQ r'))
                 (w\<lparr>w_sc := (w_sc w)\<lparr>sysctl_runpathcheck := flag\<rparr>, w_pI := pI, w_pc := pc\<rparr>)) }"

text \<open>The periodic update in the branch of the normal scheduler.\<close>

definition periodic_update :: "ktime \<Rightarrow> red_world \<Rightarrow> red_world option" where
  "periodic_update run_start w =
     (if s64 (run_start - last_update (w_reg w)) > sk_reg_update_period (w_reg w)
      then (case rmptcp_update_sysctl (w_sc w) (w_pI w) (w_reg w) of (sc, pI, r) \<Rightarrow>
        do { r1 \<leftarrow> rmptcp_update_sk_list (w_socks w) (connection_list (o_mpcb (s_out (w_send w))))
                     run_start (s_skb (w_send w)) r;
             r2 \<leftarrow> rmptcp_update_bw sc (w_socks w) run_start True r1;
             r3 \<leftarrow> rmptcp_update_main_sk sc (w_socks w) r2;
             Some (set_reg r3 (w\<lparr>w_sc := sc, w_pI := pI\<rparr>)) })
      else Some w)"

definition run_scheduler :: "ktime \<Rightarrow> red_world \<Rightarrow> red_world option" where
  "run_scheduler run_start w0 =
     do { w \<leftarrow> periodic_update run_start w0;
          let r1 = (if sysctl_adaptivPath_enable (w_sc w) \<noteq> 0 then rmptcp_adaptPath (w_socks w) (w_reg w)
                    else w_reg w);
          r2 \<leftarrow> (if sysctl_adaptivR_enable (w_sc w) \<noteq> 0
                 then rmptcp_update_main_sk (w_sc w) (w_socks w) (rmptcp_adaptR (w_sc w) run_start r1)
                 else Some (rmptcp_setQ r1));
          Some (set_reg (rmptcp_calc_controlQ (r2\<lparr>cong_flag := 0\<rparr>)) w) }"

text \<open>The part from the choice of the subflows on: the result of the function and the state.\<close>

definition send_segment ::
  "kernel_ops \<Rightarrow> sk_ptr \<Rightarrow> bool \<Rightarrow> u32 \<Rightarrow> ktime \<Rightarrow> red_world \<Rightarrow> (bool \<times> red_world) option" where
  "send_segment ops meta reinject mss_now run_start w =
     (case rmptcp_check_avail_sk (w_sc w) (w_socks w) (s_skb (w_send w)) run_start (w_reg w) of
        (go, r1) \<Rightarrow>
          if \<not> go then Some (False, set_reg r1 w)
          else do { r2 \<leftarrow> rmptcp_check_failure (w_sc w) (w_socks w) run_start
                            (rmptcp_calc_sendPeriod (w_sc w) run_start r1);
                    let s = (w_send w)\<lparr>s_reg := r2\<lparr>timeout := 0\<rparr>\<rparr>;
                    let (ok, s') = rmptcp_send_skb ops meta reinject mss_now run_start s;
                    Some (ok, w\<lparr>w_send := s'\<rparr>) })"

text \<open>\<open>run_start\<close> is the value of \<open>ktime_get\<close>.\<close>

definition rmptcp_send_next_segment ::
  "kernel_ops \<Rightarrow> sk_ptr \<Rightarrow> bool \<Rightarrow> u32 \<Rightarrow> ktime \<Rightarrow> red_world \<Rightarrow> (bool \<times> red_world) option" where
  "rmptcp_send_next_segment ops meta reinject mss_now run_start w =
     do { let w1 = check_meta meta w;
          w2 \<leftarrow> (if sysctl_runpathcheck (w_sc w1) \<noteq> 0 then run_path_check run_start w1
                 else run_scheduler run_start w1);
          send_segment ops meta reinject mss_now run_start w2 }"

section \<open>The loop over the available subflows\<close>

text \<open>A data segment that keeps its 16-bit mapping, and a copy of it on a subflow.\<close>

definition sendable :: "sk_buff \<Rightarrow> bool" where
  "sendable skb \<longleftrightarrow> \<not> mptcp_is_data_fin skb \<and> unat (skb_end_seq skb - skb_seq skb) < 2 ^ 16 \<and>
     \<not> has (mptcp_flags skb) MPTCPHDR_INF"

definition copy_of :: "sk_buff \<Rightarrow> sk_buff \<Rightarrow> bool" where
  "copy_of skb seg \<longleftrightarrow> skb_len seg = skb_len skb \<and>
     mptcp_reconstruct_mapping seg = Some (seg\<lparr>skb_seq := skb_seq skb, skb_end_seq := skb_end_seq skb\<rparr>)"

definition same_data :: "sk_buff \<Rightarrow> sk_buff \<Rightarrow> bool" where
  "same_data a b \<longleftrightarrow> skb_seq a = skb_seq b \<and> skb_end_seq a = skb_end_seq b \<and> skb_len a = skb_len b"

lemma copy_of_same: "same_data a b \<Longrightarrow> copy_of a seg \<longleftrightarrow> copy_of b seg"
  by (simp add: copy_of_def same_data_def)

lemma entail_flags:
  assumes "mptcp_skb_entail ops meta sk skb reinject s = (ok, skb', s')"
  shows "mptcp_flags skb' = mptcp_flags skb \<or>
    mptcp_flags skb' = setf (mptcp_flags skb) MPTCPHDR_SEQ64_INDEX"
proof -
  have "mptcp_flags skb' = mptcp_flags b" if "entail_copy ops meta sk b s = (ok, skb', s')" for b
    using that by (auto simp: entail_copy_def Let_def split_beta split: if_splits)
  with assms show ?thesis unfolding mptcp_skb_entail_def
    by (cases reinject; cases "snd_hiseq_index (o_mpcb s)") (fastforce simp: setf_def)+
qed

lemma entail_sendable:
  assumes "mptcp_skb_entail ops meta sk skb reinject s = (ok, skb', s')" and "sendable skb"
    and "same_data skb' skb"
  shows "sendable skb'"
  using entail_flags [OF assms(1)] assms(2,3)
  by (auto simp: sendable_def same_data_def mptcp_is_data_fin_def flag_simps)

text \<open>One round of the loop that succeeds.\<close>

lemma entail_round:
  assumes "sendable skb" and "\<not> send_infinite_mapping (o_mpcb s)"
    and "mptcp_skb_entail ops meta sk skb reinject s = (True, skb', s')"
  shows "\<exists>seg. o_queue s' = (o_queue s)(sk := o_queue s sk @ [seg]) \<and> copy_of skb seg \<and>
    path_mask skb' = path_mask skb OR mptcp_pi_to_flag (path_index (o_socks s sk)) \<and>
    (\<forall>p. p \<noteq> sk \<longrightarrow> o_socks s' p = o_socks s p) \<and> o_mpcb s' = o_mpcb s \<and>
    same_data skb' skb \<and> sendable skb'"
proof -
  have s: "\<not> mptcp_is_data_fin skb" "unat (skb_end_seq skb - skb_seq skb) < 2 ^ 16"
    "\<not> has (mptcp_flags skb) MPTCPHDR_INF" using assms(1) by (simp_all add: sendable_def)
  note a = entail_appends [OF s assms(2,3)]
  then have same: "same_data skb' skb" by (simp add: same_data_def)
  then have "sendable skb'" by (rule entail_sendable [OF assms(3,1)])
  moreover obtain seg where "o_queue s' = (o_queue s)(sk := o_queue s sk @ [seg])" "skb_len seg = skb_len skb"
    "mptcp_reconstruct_mapping seg = Some (seg\<lparr>skb_seq := skb_seq skb, skb_end_seq := skb_end_seq skb\<rparr>)"
    "path_mask skb' = path_mask skb OR mptcp_pi_to_flag (path_index (o_socks s sk))"
    "\<forall>p. p \<noteq> sk \<longrightarrow> o_socks s' p = o_socks s p" "o_mpcb s' = o_mpcb s"
    using a by auto
  ultimately show ?thesis using same by (auto simp: copy_of_def)
qed

text \<open>The effect of the loop over the indices \<open>is\<close>: one copy for every index whose entry is available.\<close>

definition sends_copies ::
  "nat list \<Rightarrow> send_state \<Rightarrow> send_state \<Rightarrow> bool" where
  "sends_copies is s s' \<longleftrightarrow>
     (let chosen = {i \<in> set is. available (s_reg s) i}; sk = (\<lambda>i. rs_sk (sk_list (s_reg s) ! i)) in
      (\<forall>i \<in> chosen. \<exists>seg. o_queue (s_out s') (sk i) = o_queue (s_out s) (sk i) @ [seg] \<and> copy_of (s_skb s) seg) \<and>
      (\<forall>p. p \<notin> sk ` chosen \<longrightarrow> o_queue (s_out s') p = o_queue (s_out s) p \<and> o_socks (s_out s') p = o_socks (s_out s) p) \<and>
      (\<forall>n. bit (path_mask (s_skb s')) n \<longleftrightarrow> bit (path_mask (s_skb s)) n \<or>
         (\<exists>i \<in> chosen. bit (mptcp_pi_to_flag (path_index (o_socks (s_out s) (sk i)))) n)) \<and>
      same_data (s_skb s') (s_skb s) \<and> o_mpcb (s_out s') = o_mpcb (s_out s))"

lemma sends_copies_cons:
  fixes s :: send_state
  defines "e \<equiv> \<lambda>i. sk_list (s_reg s) ! i"
  assumes wf: "i < length (sk_list (s_reg s))" and av: "available (s_reg s) i"
    and dist: "\<forall>j \<in> set is. rs_sk (e j) \<noteq> rs_sk (e i) \<and> j \<noteq> i"
    and skb: "sendable (s_skb s)" "\<not> send_infinite_mapping (o_mpcb (s_out s))"
    and ent: "mptcp_skb_entail ops meta (rs_sk (e i)) (s_skb s) reinject (s_out s) = (True, skb', out')"
    and rec: "sends_copies is \<lparr>s_reg = (s_reg s)\<lparr>sk_list := (sk_list (s_reg s))[i := count_entry t l (e i)]\<rparr>,
       s_skb = skb', s_out = push_frames ops mss (rs_sk (e i)) out'\<rparr> s'"
  shows "sends_copies (i # is) s s'"
proof -
  obtain seg where seg: "o_queue out' = (o_queue (s_out s))(rs_sk (e i) := o_queue (s_out s) (rs_sk (e i)) @ [seg])"
    "copy_of (s_skb s) seg"
    "path_mask skb' = path_mask (s_skb s) OR mptcp_pi_to_flag (path_index (o_socks (s_out s) (rs_sk (e i))))"
    "\<forall>p. p \<noteq> rs_sk (e i) \<longrightarrow> o_socks out' p = o_socks (s_out s) p" "o_mpcb out' = o_mpcb (s_out s)"
    "same_data skb' (s_skb s)"
    using entail_round [OF skb ent] by blast
  let ?r1 = "(s_reg s)\<lparr>sk_list := (sk_list (s_reg s))[i := count_entry t l (e i)]\<rparr>"
  have nth: "sk_list ?r1 ! j = e j" if "j \<in> set is" for j using dist that by (auto simp: e_def)
  have avail: "available ?r1 j \<longleftrightarrow> available (s_reg s) j" if "j \<in> set is" for j
    using nth [OF that] by (simp add: available_def e_def)
  let ?ch = "{j \<in> set is. available (s_reg s) j}"
  have chosen: "{j \<in> set is. available ?r1 j} = ?ch" using avail by blast
  have chosen': "{j \<in> set (i # is). available (s_reg s) j} = insert i ?ch" using av by auto
  have skeq: "rs_sk (sk_list ?r1 ! j) = rs_sk (e j)" if "j \<in> ?ch" for j using nth that by simp
  have img: "(\<lambda>j. rs_sk (sk_list ?r1 ! j)) ` ?ch = (\<lambda>j. rs_sk (e j)) ` ?ch" using skeq by auto
  define out1 where "out1 = push_frames ops mss (rs_sk (e i)) out'"
  have out1: "o_queue out1 = o_queue out'" "o_mpcb out1 = o_mpcb out'"
    "p \<noteq> rs_sk (e i) \<Longrightarrow> o_socks out1 p = o_socks (s_out s) p" for p
    using seg(4) by (simp_all add: out1_def push_frames_def)
  note R = rec [folded out1_def, unfolded sends_copies_def Let_def send_state.select_convs chosen img out1(1,2)]
  have other: "rs_sk (e i) \<notin> (\<lambda>j. rs_sk (e j)) ` ?ch" using dist by auto
  have q1: "\<exists>sg. o_queue (s_out s') (rs_sk (e j)) = o_queue (s_out s) (rs_sk (e j)) @ [sg] \<and> copy_of (s_skb s) sg"
    if "j \<in> insert i ?ch" for j
  proof (cases "j = i")
    case True
    then show ?thesis using R other seg(1,2) by auto
  next
    case False
    with that have j: "j \<in> ?ch" by simp
    then obtain sg where "o_queue (s_out s') (rs_sk (e j)) = o_queue out' (rs_sk (e j)) @ [sg]" "copy_of skb' sg"
      using R skeq [OF j] by fastforce
    then show ?thesis using seg(1) copy_of_same [OF seg(6)] dist j by auto
  qed
  have q2: "o_queue (s_out s') p = o_queue (s_out s) p \<and> o_socks (s_out s') p = o_socks (s_out s) p"
    if "p \<notin> (\<lambda>j. rs_sk (e j)) ` insert i ?ch" for p
    using that R seg(1) out1(3) by auto
  have idx: "path_index (o_socks out1 (rs_sk (sk_list ?r1 ! j))) = path_index (o_socks (s_out s) (rs_sk (e j)))" if "j \<in> ?ch" for j
  proof -
    have "rs_sk (e j) \<in> (\<lambda>j. rs_sk (e j)) ` ?ch" using that by (rule imageI)
    with other have "rs_sk (e j) \<noteq> rs_sk (e i)" by metis
    then show ?thesis using out1(3) skeq [OF that] by simp
  qed
  have q3: "bit (path_mask (s_skb s')) n \<longleftrightarrow> bit (path_mask (s_skb s)) n \<or>
      (\<exists>j \<in> insert i ?ch. bit (mptcp_pi_to_flag (path_index (o_socks (s_out s) (rs_sk (e j))))) n)" for n
  proof -
    have "bit (path_mask (s_skb s')) n \<longleftrightarrow> bit (path_mask skb') n \<or>
      (\<exists>j \<in> ?ch. bit (mptcp_pi_to_flag (path_index (o_socks out1 (rs_sk (sk_list ?r1 ! j))))) n)"
      using R by blast
    also have "\<dots> \<longleftrightarrow> bit (path_mask skb') n \<or>
      (\<exists>j \<in> ?ch. bit (mptcp_pi_to_flag (path_index (o_socks (s_out s) (rs_sk (e j))))) n)"
      by (simp only: idx cong: bex_cong)
    finally show ?thesis by (auto simp: seg(3) bit_or_iff)
  qed
  have "same_data (s_skb s') (s_skb s)" "o_mpcb (s_out s') = o_mpcb (s_out s)"
    using R seg(5,6) by (auto simp: same_data_def)
  then show ?thesis unfolding sends_copies_def Let_def chosen' using q1 q2 q3 by (simp only: e_def) blast
qed

lemma send_loop_copies:
  "send_loop ops meta reinject mss t is s = (True, s') \<Longrightarrow> sendable (s_skb s) \<Longrightarrow>
   \<not> send_infinite_mapping (o_mpcb (s_out s)) \<Longrightarrow> distinct is \<Longrightarrow>
   set is \<subseteq> {..<length (sk_list (s_reg s))} \<Longrightarrow>
   inj_on (\<lambda>i. rs_sk (sk_list (s_reg s) ! i)) (set is) \<Longrightarrow> sends_copies is s s'"
proof (induction "is" arbitrary: s)
  case Nil
  then show ?case by (simp add: sends_copies_def same_data_def)
next
  case (Cons i "is")
  let ?e = "sk_list (s_reg s) ! i"
  show ?case
  proof (cases "has (rs_state ?e) REDF_SK_Available")
    case False
    then have "send_loop ops meta reinject mss t is s = (True, s')" using Cons.prems(1) by (simp add: Let_def)
    then have "sends_copies is s s'" using Cons by simp
    moreover have "{j \<in> set (i # is). available (s_reg s) j} = {j \<in> set is. available (s_reg s) j}"
      using False by (auto simp: available_def)
    ultimately show ?thesis by (simp only: sends_copies_def)
  next
    case True
    let ?r1 = "(s_reg s)\<lparr>sk_list := (sk_list (s_reg s))[i := count_entry t (skb_len (s_skb s)) ?e]\<rparr>"
    obtain ok skb' out' where ent:
      "mptcp_skb_entail ops meta (rs_sk ?e) (s_skb s) reinject (s_out s) = (ok, skb', out')"
      by (cases "mptcp_skb_entail ops meta (rs_sk ?e) (s_skb s) reinject (s_out s)")
    let ?s1 = "\<lparr>s_reg = ?r1, s_skb = skb', s_out = push_frames ops mss (rs_sk ?e) out'\<rparr>"
    have ok: "ok" and rest: "send_loop ops meta reinject mss t is ?s1 = (True, s')"
      using Cons.prems(1) True ent by (auto simp: Let_def split: if_splits)
    note ent1 = ent [unfolded ok [THEN eqTrueI]]
    note round = entail_round [OF Cons.prems(2,3) ent1]
    have dist: "\<forall>j \<in> set is. rs_sk (sk_list (s_reg s) ! j) \<noteq> rs_sk ?e \<and> j \<noteq> i"
      using Cons.prems(4,6) by (auto simp: inj_on_def)
    have il: "i < length (sk_list (s_reg s))" using Cons.prems(5) by simp
    have "sends_copies is ?s1 s'"
    proof (rule Cons.IH [OF rest])
      have nth: "sk_list (s_reg ?s1) ! j = sk_list (s_reg s) ! j" if "j \<in> set is" for j
        using dist that by auto
      show "inj_on (\<lambda>j. rs_sk (sk_list (s_reg ?s1) ! j)) (set is)"
        using inj_on_subset [OF Cons.prems(6), of "set is"] by (simp only: inj_on_def nth cong: ball_cong) auto
      show "\<not> send_infinite_mapping (o_mpcb (s_out ?s1))" "sendable (s_skb ?s1)"
        using round Cons.prems(3) by (auto simp: push_frames_def)
    qed (use Cons.prems in auto)
    moreover have "available (s_reg s) i" using True by (simp add: available_def)
    ultimately show ?thesis using sends_copies_cons [OF il _ dist Cons.prems(2,3) ent1] by blast
  qed
qed

lemma sk_list_upd_same: "r\<lparr>sk_list := sk_list r\<rparr> = r"
  by (cases r) simp

text \<open>What the loop does to the register, whether it succeeds or not.\<close>

lemma send_loop_reg:
  "send_loop ops meta reinject mss t is s = (ok, s') \<Longrightarrow> set is \<subseteq> {..<length (sk_list (s_reg s))} \<Longrightarrow>
   \<exists>xs. s_reg s' = (s_reg s)\<lparr>sk_list := xs\<rparr> \<and> length xs = length (sk_list (s_reg s)) \<and>
     (\<forall>i < length xs. rs_sk (xs ! i) = rs_sk (sk_list (s_reg s) ! i)) \<and>
     (ok \<longrightarrow> (\<forall>i \<in> set is. \<not> has (rs_state (xs ! i)) REDF_SK_Available)) \<and>
     (\<forall>i < length xs. has (rs_state (xs ! i)) REDF_SK_Available \<longrightarrow> available (s_reg s) i)"
proof (induction "is" arbitrary: s)
  case Nil
  then show ?case by (intro exI [of _ "sk_list (s_reg s)"]) (simp add: available_def sk_list_upd_same)
next
  case (Cons i "is")
  let ?e = "sk_list (s_reg s) ! i"
  have sub: "set is \<subseteq> {..<length (sk_list (s_reg s))}" using Cons.prems(2) by simp
  show ?case
  proof (cases "has (rs_state ?e) REDF_SK_Available")
    case False
    then have "send_loop ops meta reinject mss t is s = (ok, s')" using Cons.prems(1) by (simp add: Let_def)
    from Cons.IH [OF this sub] obtain xs where xs: "s_reg s' = (s_reg s)\<lparr>sk_list := xs\<rparr>"
      "length xs = length (sk_list (s_reg s))"
      "\<forall>i < length xs. rs_sk (xs ! i) = rs_sk (sk_list (s_reg s) ! i)"
      "ok \<longrightarrow> (\<forall>i \<in> set is. \<not> has (rs_state (xs ! i)) REDF_SK_Available)"
      "\<forall>i < length xs. has (rs_state (xs ! i)) REDF_SK_Available \<longrightarrow> available (s_reg s) i" by blast
    moreover have "\<not> has (rs_state (xs ! i)) REDF_SK_Available"
      using xs(2,5) False Cons.prems(2) by (auto simp: available_def)
    ultimately show ?thesis by (intro exI [of _ xs]) simp
  next
    case True
    let ?ys = "(sk_list (s_reg s))[i := count_entry t (skb_len (s_skb s)) ?e]"
    let ?r1 = "(s_reg s)\<lparr>sk_list := ?ys\<rparr>"
    have sk: "rs_sk (?ys ! j) = rs_sk (sk_list (s_reg s) ! j)" for j
      by (cases "i < length (sk_list (s_reg s))") (simp_all add: nth_list_update count_entry_def list_update_beyond)
    have clr: "\<not> has (rs_state (?ys ! i)) REDF_SK_Available"
      using Cons.prems(2) by (simp add: count_entry_def flag_simps)
    have av: "has (rs_state (?ys ! j)) REDF_SK_Available \<longrightarrow> available (s_reg s) j" for j
      using clr by (cases "j = i") (simp_all add: available_def)
    obtain k skb' out' where ent:
      "mptcp_skb_entail ops meta (rs_sk ?e) (s_skb s) reinject (s_out s) = (k, skb', out')"
      by (cases "mptcp_skb_entail ops meta (rs_sk ?e) (s_skb s) reinject (s_out s)")
    show ?thesis
    proof (cases k)
      case False
      then have "\<not> ok" "s_reg s' = ?r1" using Cons.prems(1) True ent by (auto simp: Let_def)
      then show ?thesis using sk av by (intro exI [of _ ?ys]) simp
    next
      case k: True
      let ?s1 = "\<lparr>s_reg = ?r1, s_skb = skb', s_out = push_frames ops mss (rs_sk ?e) out'\<rparr>"
      have "send_loop ops meta reinject mss t is ?s1 = (ok, s')"
        using Cons.prems(1) True ent k by (simp add: Let_def)
      note IH = Cons.IH [OF this, unfolded send_state.select_convs]
      have lenr: "length (sk_list ?r1) = length (sk_list (s_reg s))" by simp
      obtain xs where xs: "s_reg s' = ?r1\<lparr>sk_list := xs\<rparr>" "length xs = length (sk_list ?r1)"
        "\<forall>i < length xs. rs_sk (xs ! i) = rs_sk (sk_list ?r1 ! i)"
        "ok \<longrightarrow> (\<forall>i \<in> set is. \<not> has (rs_state (xs ! i)) REDF_SK_Available)"
        "\<forall>i < length xs. has (rs_state (xs ! i)) REDF_SK_Available \<longrightarrow> available ?r1 i"
        using IH [unfolded lenr, OF sub] unfolding lenr by blast
      have av1: "available ?r1 j \<longrightarrow> available (s_reg s) j" for j using av by (simp add: available_def)
      have "\<not> available ?r1 i" using clr by (simp add: available_def)
      then have "\<not> has (rs_state (xs ! i)) REDF_SK_Available"
        using xs(2,5) Cons.prems(2) by auto
      moreover have "s_reg s' = (s_reg s)\<lparr>sk_list := xs\<rparr>" by (simp add: xs(1))
      moreover have "\<forall>i < length xs. rs_sk (xs ! i) = rs_sk (sk_list (s_reg s) ! i)"
        using xs(3) sk by simp
      ultimately show ?thesis using xs(2,4,5) av1 lenr by (intro exI [of _ xs]) simp
    qed
  qed
qed

section \<open>The invariant of the register across the functions\<close>

text \<open>The fields that only the state machine writes.\<close>

definition ctl :: "redundant_socket_register \<Rightarrow> red_flags \<times> u32" where
  "ctl r = (reg_state r, previous_skevent_i r)"

definition keeps :: "socks \<Rightarrow> redundant_socket_register \<Rightarrow> redundant_socket_register \<Rightarrow> bool" where
  "keeps socks r r' \<longleftrightarrow> reg_inv socks r' \<and> ctl r' = ctl r \<and> set (reg_sks r') \<subseteq> set (reg_sks r)"

lemma keepsI:
  assumes "reg_inv socks r" and "reg_wf r'" and "reg_sks r' = reg_sks r" and "ctl r' = ctl r"
  shows "keeps socks r r'"
  using assms reg_inv_same_sks [OF assms(1,2,3)] by (simp add: keeps_def)

lemma keeps_list:
  assumes "reg_inv socks r" and "sk_list r' = sk_list r" and "sk_list_size r' = sk_list_size r" and "ctl r' = ctl r"
  shows "keeps socks r r'"
  using assms reg_inv_wf [OF assms(1)]
  by (intro keepsI) (simp_all add: reg_wf_def reg_sks_def entries_def)

lemma keeps_trans: "keeps socks r1 r2 \<Longrightarrow> keeps socks r2 r3 \<Longrightarrow> keeps socks r1 r3"
  by (auto simp: keeps_def)

lemma keeps_inv: "keeps socks r r' \<Longrightarrow> reg_inv socks r'"
  by (simp add: keeps_def)

lemma insert_sk_ctl: "rmptcp_insert_sk socks t sk r = Some r' \<Longrightarrow> ctl r' = ctl r"
  by (auto simp: rmptcp_insert_sk_def Let_def ctl_def split: if_splits)

lemma add_new_sks_ctl: "add_new_sks socks t skb sks r = Some r' \<Longrightarrow> ctl r' = ctl r"
proof (induction socks t skb sks r rule: add_new_sks.induct)
  case (2 socks t skb sk sks r)
  show ?case using "2.prems" "2.IH"
    by (simp split: if_splits) (auto simp: bind_eq_Some_conv dest: insert_sk_ctl)
qed simp

lemma update_sk_list_ok:
  assumes inv: "reg_inv socks r" and few: "card (set (reg_sks r) \<union> set conns) \<le> MAX_NUM_RED_SK"
  shows "\<exists>r'. rmptcp_update_sk_list socks conns t skb r = Some r' \<and> reg_inv socks r' \<and> ctl r' = ctl r"
proof (cases "has (reg_state r) REDF_Cong")
  case True
  then show ?thesis using inv by (simp add: rmptcp_update_sk_list_def)
next
  case False
  have "card (set (reg_sks r) \<union> {sk \<in> set conns. usable_now socks skb sk}) \<le> MAX_NUM_RED_SK"
    by (rule order_trans [OF card_mono few]) auto
  then obtain r1 where r1: "add_new_sks socks t skb conns r = Some r1"
    using add_new_sks_fault [OF inv, of t skb conns] by (auto simp: not_less)
  have inv1: "reg_inv socks r1" using add_new_sks_inv [OF inv r1] by blast
  have wf1: "reg_wf r1" using inv1 by (rule reg_inv_wf)
  have "reg_inv socks (rmptcp_set_enable_flag r1)"
    by (rule reg_inv_same_sks [OF inv1]) (simp_all add: reg_wf_set wf1)
  moreover have "ctl (rmptcp_set_enable_flag r1) = ctl r"
    using add_new_sks_ctl [OF r1] by (simp add: ctl_def rmptcp_set_enable_flag_def Let_def)
  ultimately show ?thesis using False r1 by (simp add: rmptcp_update_sk_list_def)
qed

lemma update_bw_ok:
  assumes "0 < sysctl_minDeltaT sc" and "reg_inv socks r"
  shows "\<exists>r'. rmptcp_update_bw sc socks' t c r = Some r' \<and> reg_inv socks r' \<and> ctl r' = ctl r"
proof -
  obtain r' where r': "rmptcp_update_bw sc socks' t c r = Some r'"
    using assms(1) by (cases "rmptcp_update_bw sc socks' t c r")
      (auto simp: rmptcp_update_bw_def Let_def split: if_splits)
  then have "ctl r' = ctl r"
    by (auto simp: rmptcp_update_bw_def Let_def ctl_def bw_mean_mean_def bw_effective_def bw_subflows_def
        split: if_splits)
  then show ?thesis using r' update_bw_inv [OF assms(2) r'] by blast
qed

definition sane :: "sysctls \<Rightarrow> bool" where
  "sane sc \<longleftrightarrow> 0 < sysctl_minDeltaT sc \<and> sysctl_main_ratio sc \<noteq> -1 \<and>
     - (2 ^ 31) \<le> sysctl_main_ratio sc \<and> sysctl_main_ratio sc < 2 ^ 31"

lemma ctl_set_main:
  "ctl (rmptcp_set_all_main r) = ctl r" "ctl (rmptcp_set_all_uncong_main r) = ctl r"
  "ctl (marked sc socks r) = ctl r"
  by (simp_all add: ctl_def rmptcp_set_all_main_def rmptcp_set_all_uncong_main_def marked_def Let_def split_beta)

lemma update_main_ok:
  assumes "sane sc" and "reg_inv socks r"
  shows "\<exists>r'. rmptcp_update_main_sk sc socks' r = Some r' \<and> reg_inv socks r' \<and> ctl r' = ctl r"
proof -
  have wf: "reg_wf r" using assms(2) by (rule reg_inv_wf)
  have "main_decision sc socks' r i \<noteq> None" for i
    using assms(1) decide_main_total by (auto simp: main_decision_def sane_def split_beta Let_def)
  then have "first_idx (sk_list_size r) (\<lambda>i. in_use (st r i) \<and> main_decision sc socks' r i = None) = None"
    by (simp add: first_idx_None)
  then have "rmptcp_update_main_sk sc socks' r \<in> {Some (rmptcp_set_all_main r), Some (rmptcp_set_all_uncong_main r),
      Some (rmptcp_set_all_uncong_main (marked sc socks' r)), Some (marked sc socks' r)}"
    by (simp add: rmptcp_update_main_sk_def)
  then obtain r' where r': "rmptcp_update_main_sk sc socks' r = Some r'"
    "r' \<in> {rmptcp_set_all_main r, rmptcp_set_all_uncong_main r,
           rmptcp_set_all_uncong_main (marked sc socks' r), marked sc socks' r}" by auto
  then have "ctl r' = ctl r" by (auto simp: ctl_set_main)
  moreover have "reg_wf r'" "reg_sks r' = reg_sks r"
    using r'(2) wf by (auto simp: reg_wf_set reg_wf_marked)
  ultimately show ?thesis using r'(1) reg_inv_same_sks [OF assms(2)] by blast
qed

lemma adaptPath_ok: "reg_inv socks r \<Longrightarrow> keeps socks r (rmptcp_adaptPath socks' r)"
  by (rule keepsI)
     (auto simp: rmptcp_adaptPath_def ctl_def reg_inv_wf reg_wf_update_list intro!: reg_sks_upd_upto)

lemma adaptR_ok: "reg_inv socks r \<Longrightarrow> keeps socks r (rmptcp_adaptR sc t r)"
  by (rule keeps_list)
     (simp_all add: rmptcp_adaptR_def adaptR_target_def rmptcp_setQ_def rmptcp_regulateQ_def Let_def ctl_def)

lemma setQ_ok: "reg_inv socks r \<Longrightarrow> keeps socks r (rmptcp_setQ r)"
  by (rule keeps_list) (simp_all add: rmptcp_setQ_def ctl_def)

lemma calc_controlQ_ok: "reg_inv socks r \<Longrightarrow> keeps socks r (rmptcp_calc_controlQ (r\<lparr>cong_flag := 0\<rparr>))"
  by (rule keeps_list) (simp_all add: rmptcp_calc_controlQ_def Let_def ctl_def)

lemma calc_sendPeriod_ok: "reg_inv socks r \<Longrightarrow> keeps socks r (rmptcp_calc_sendPeriod sc t r)"
proof -
  assume inv: "reg_inv socks r"
  let ?r1 = "period_max_limit (period_max_upd sc t (period_measure t r))"
  have "keeps socks r ?r1"
    by (rule keeps_list [OF inv])
       (simp_all add: period_max_limit_def period_max_upd_def period_measure_def Let_def split_beta ctl_def)
  moreover have "keeps socks ?r1 (rmptcp_calc_sendPeriod sc t r)"
  proof (rule keepsI [OF keeps_inv [OF calculation]])
    have wf: "reg_wf ?r1" using keeps_inv [OF calculation] by (rule reg_inv_wf)
    then show "reg_wf (rmptcp_calc_sendPeriod sc t r)"
      by (simp add: rmptcp_calc_sendPeriod_def Let_def reg_wf_update_list)
    show "reg_sks (rmptcp_calc_sendPeriod sc t r) = reg_sks ?r1"
      unfolding rmptcp_calc_sendPeriod_def Let_def
      by (rule reg_sks_upd_upto [OF wf]) (simp add: period_entry_def Let_def split_beta)
  qed (simp add: rmptcp_calc_sendPeriod_def Let_def ctl_def)
  ultimately show ?thesis by (rule keeps_trans)
qed


text \<open>The pointers of the whole array.\<close>

definition ptrs :: "redundant_socket_register \<Rightarrow> nat \<times> sk_ptr list" where
  "ptrs r = (sk_list_size r, map rs_sk (sk_list r))"

lemma ptrs_sks: "ptrs r' = ptrs r \<Longrightarrow> reg_sks r' = reg_sks r"
  by (simp add: ptrs_def reg_sks_def entries_def flip: take_map)

lemma ptrs_wf: "ptrs r' = ptrs r \<Longrightarrow> reg_wf r' = reg_wf r"
  unfolding ptrs_def reg_wf_def by (metis length_map prod.inject)

lemma map_update_same: "f y = f (xs ! i) \<Longrightarrow> map f (xs[i := y]) = map f xs"
  by (cases "i < length xs") (simp_all add: map_update list_update_beyond, metis list_update_id nth_map)

lemma map_upd_upto: "(\<And>i e. g (f i e) = g e) \<Longrightarrow> map g (upd_upto n f xs) = map g xs"
  by (induction n) (simp_all add: upd_upto_Suc map_update_same)

lemma ptrs_scan: "ptrs (scan sc socks t r) = ptrs r"
  by (simp add: ptrs_def scan_def map_upd_upto scan_entry_def Let_def)

lemma ptrs_clear_cong: "ptrs (clear_cong r) = ptrs r"
  by (simp add: ptrs_def clear_cong_def map_upd_upto)

lemma ptrs_statechange: "rmptcp_statechange_cong k t r = Some r' \<Longrightarrow> ptrs r' = ptrs r"
  by (auto simp: rmptcp_statechange_cong_def ptrs_def map_update_same split: if_splits)

lemma ptrs_timeout2cong: "rmptcp_statechange_timeout2cong sc t r = Some r' \<Longrightarrow> ptrs r' = ptrs r"
  by (auto simp: rmptcp_statechange_timeout2cong_def Let_def dest: ptrs_statechange)

lemma ptrs_on_collapse: "on_collapse k t r = Some r' \<Longrightarrow> ptrs r' = ptrs r"
  by (auto simp: on_collapse_def rmptcp_statechange_event2cong_def ptrs_def bind_eq_Some_conv
      dest!: ptrs_statechange [unfolded ptrs_def] split: if_splits)

lemma ptrs_on_timeout: "on_timeout sc t r = Some r' \<Longrightarrow> ptrs r' = ptrs r"
  by (auto simp: on_timeout_def ptrs_def dest!: ptrs_timeout2cong [unfolded ptrs_def] split: if_splits)

lemmas ptrs_dests = ptrs_on_timeout [unfolded ptrs_def] ptrs_on_collapse [unfolded ptrs_def]
  ptrs_statechange [unfolded ptrs_def] ptrs_timeout2cong [unfolded ptrs_def]

lemma ptrs_steps:
  "step_open sc t ev k r = Some r' \<Longrightarrow> ptrs r' = ptrs r"
  "step_recovery sc t ev k r = Some r' \<Longrightarrow> ptrs r' = ptrs r"
  "step_timeout sc t ev k r = Some r' \<Longrightarrow> ptrs r' = ptrs r"
  "step_cong sc t ev r = Some r' \<Longrightarrow> ptrs r' = ptrs r"
proof -
  note clear = ptrs_clear_cong [unfolded ptrs_def]
  show "step_open sc t ev k r = Some r' \<Longrightarrow> ptrs r' = ptrs r"
    by (auto simp: step_open_def ptrs_def dest!: ptrs_dests split: if_splits)
  show "step_recovery sc t ev k r = Some r' \<Longrightarrow> ptrs r' = ptrs r"
    using clear by (auto simp: step_recovery_def rmptcp_statechange_event2cong_def ptrs_def
        dest!: ptrs_dests split: if_splits)
  show "step_timeout sc t ev k r = Some r' \<Longrightarrow> ptrs r' = ptrs r"
    by (auto simp: step_timeout_def ptrs_def dest!: ptrs_dests split: if_splits)
  show "step_cong sc t ev r = Some r' \<Longrightarrow> ptrs r' = ptrs r"
    using clear by (auto simp: step_cong_def Let_def ptrs_def split: if_splits)
qed

lemma check_failure_ptrs:
  assumes "rmptcp_check_failure sc socks t r = Some r'" and "reg_state r = phase_flag p"
  shows "ptrs r' = ptrs r"
proof -
  have "ptrs r' = ptrs (scan sc socks t r)"
    using assms(1) phase_flag_cases [OF assms(2)] unfolding check_failure_cases Let_def
    by (auto simp: flag_simps intro: ptrs_steps)
  then show ?thesis by (simp add: ptrs_scan)
qed

lemma decide_ctl: "avail_decide sc t d r n m = (go, r', n') \<Longrightarrow> reg_wf r \<Longrightarrow> n = num_available r \<Longrightarrow>
  m = num_avail_main r \<Longrightarrow> ctl r' = ctl r"
proof -
  assume res: "avail_decide sc t d r n m = (go, r', n')" and wf: "reg_wf r"
    and cnt: "n = num_available r" "m = num_avail_main r"
  obtain r2 n2 m2 where k: "kick (unat (q_control r)) r n m None = (r2, n2, m2)"
    by (cases "kick (unat (q_control r)) r n m None")
  have "\<exists>S. r2 = withdraw S r"
    using kick_ok [OF wf cnt, of "unat (q_control r)" None] unfolding k kick_spec_def by auto
  then have "ctl r2 = ctl r" by (auto simp: ctl_def withdraw_def)
  then show ?thesis using res k by (auto simp: avail_decide_def ctl_def split: if_splits)
qed

lemma check_avail_ok:
  assumes inv: "reg_inv socks r" and res: "rmptcp_check_avail_sk sc socks' skb t r = (go, r')"
  shows "keeps socks r r'"
proof -
  have wf: "reg_wf r" using inv by (rule reg_inv_wf)
  obtain r1 n m where loop: "avail_loop socks' skb t 0 r 0 0 = (r1, n, m)"
    by (cases "avail_loop socks' skb t 0 r 0 0")
  note l = avail_loop_result [OF wf loop]
  obtain go0 r2 n2 where dec: "avail_decide sc t (delta_send t r) (clamp_q_control r1) n m = (go0, r2, n2)"
    by (cases "avail_decide sc t (delta_send t r) (clamp_q_control r1) n m")
  have wf1: "reg_wf (clamp_q_control r1)" using l(1) by simp
  have cnt: "n = num_available (clamp_q_control r1)" "m = num_avail_main (clamp_q_control r1)"
    using l(4,5) by simp_all
  obtain S where S: "sk_list r2 = sk_list (withdraw S (clamp_q_control r1))" "sk_list_size r2 = sk_list_size r1"
    using decide_ok [OF wf1 cnt dec] by auto
  have r': "sk_list r' = sk_list r2" "sk_list_size r' = sk_list_size r2" "ctl r' = ctl r2"
    using res loop dec
    by (auto simp: rmptcp_check_avail_sk_def rmptcp_setQActual_def Let_def ctl_def split: if_splits)
  have "ctl r1 = ctl r" by (subst l(3)) (simp add: ctl_def)
  then have ctl: "ctl r' = ctl r"
    using decide_ctl [OF dec wf1 cnt] r'(3) by (simp add: ctl_def clamp_q_control_def Let_def)
  have same: "sk_list r' = sk_list (withdraw S (clamp_q_control r1))"
    "sk_list_size r' = sk_list_size (withdraw S (clamp_q_control r1))" using r' S by simp_all
  have wf': "reg_wf r'" using same_list(5) [OF same] wf1 by simp
  let ?f = "avail_keep socks' skb (max_sk_noshow r) t"
  have sks: "reg_sks r' = map rs_sk (filter ?f (entries r))"
  proof -
    have "reg_sks r' = reg_sks (withdraw S (clamp_q_control r1))" by (simp add: reg_sks_def same_list(4) [OF same])
    also have "\<dots> = reg_sks (clamp_q_control r1)" by (rule entries_withdraw_sks [OF wf1])
    also have "\<dots> = map rs_sk (filter ?f (entries r))"
      using l(2) by (simp add: reg_sks_def comp_def avail_mark_state)
    finally show ?thesis .
  qed
  have "reg_inv socks r'"
    using inv wf' unfolding reg_inv_def reg_sorted_def sks
    by (auto simp: reg_sks_def comp_def sorted_filter distinct_map_filter)
  then show ?thesis using ctl sks by (auto simp: keeps_def reg_sks_def)
qed

text \<open>The kernel functions a transmission calls leave the addresses of a subflow alone.\<close>

definition keeps_keys :: "kernel_ops \<Rightarrow> bool" where
  "keeps_keys ops \<longleftrightarrow> (\<forall>tp. sk_key (snd (k_close_state ops tp)) = sk_key tp) \<and>
     (\<forall>tp skb. sk_key (snd (k_transmit ops tp skb)) = sk_key tp) \<and>
     (\<forall>mss tp. sk_key (k_push ops mss tp) = sk_key tp)"

lemma combine_dfin_key:
  "keeps_keys ops \<Longrightarrow> sk_key (snd (mptcp_combine_dfin ops mpcb meta skb tp)) = sk_key tp"
  unfolding mptcp_combine_dfin_def keeps_keys_def Let_def
  by (cases "k_close_state ops tp") (auto simp: sk_key_def dest: spec [of _ tp])

lemma entail_key:
  assumes "keeps_keys ops" and "mptcp_skb_entail ops meta sk skb reinject s = (ok, skb', s')"
  shows "sk_key (o_socks s' p) = sk_key (o_socks s p)"
proof -
  have upd: "sk_key (tp\<lparr>fully_established := a, infinite_cutoff_seq := c\<rparr>) = sk_key tp"
    "sk_key (snd (place_on_subflow tp b)) = sk_key tp" "sk_key (mark_second_packet b tp) = sk_key tp"
    for a b c tp by (simp_all add: sk_key_def place_on_subflow_def mark_second_packet_def Let_def)
  have tr: "sk_key (snd (k_transmit ops tp x)) = sk_key tp" for tp x
    using assms(1) by (simp add: keeps_keys_def)
  note dfin = combine_dfin_key [OF assms(1)]
  show ?thesis using assms(2)
    by (auto simp: mptcp_skb_entail_def entail_copy_def Let_def split_beta upd dfin tr split: if_splits)
qed

lemma send_loop_keys:
  "keeps_keys ops \<Longrightarrow> send_loop ops meta reinject mss t is s = (ok, s') \<Longrightarrow>
   sk_key (o_socks (s_out s') p) = sk_key (o_socks (s_out s) p)"
proof (induction "is" arbitrary: s)
  case (Cons i "is")
  let ?sk = "rs_sk (sk_list (s_reg s) ! i)"
  obtain ok1 skb1 out1 where ent: "mptcp_skb_entail ops meta ?sk (s_skb s) reinject (s_out s) = (ok1, skb1, out1)"
    by (cases "mptcp_skb_entail ops meta ?sk (s_skb s) reinject (s_out s)")
  have "sk_key (o_socks (push_frames ops mss ?sk out1) p) = sk_key (o_socks (s_out s) p)"
    "sk_key (o_socks out1 p) = sk_key (o_socks (s_out s) p)"
    using Cons.prems(1) entail_key [OF Cons.prems(1) ent] by (auto simp: push_frames_def keeps_keys_def)
  then show ?case using Cons ent by (auto simp: Let_def split: if_splits)
qed simp

lemma reg_inv_keys: "(\<And>p. sk_key (socks' p) = sk_key (socks p)) \<Longrightarrow> reg_inv socks' r = reg_inv socks r"
  by (simp add: reg_inv_def reg_sorted_def)

section \<open>The invariant of the sender\<close>

definition red_inv :: "red_world \<Rightarrow> bool" where
  "red_inv w \<longleftrightarrow> reg_inv (w_socks w) (w_reg w) \<and>
     unat (previous_skevent_i (w_reg w)) < MAX_NUM_RED_SK \<and> (\<exists>p. reg_state (w_reg w) = phase_flag p)"

lemma red_inv_ctl:
  "red_inv w \<Longrightarrow> reg_inv (w_socks w) r \<Longrightarrow> ctl r = ctl (w_reg w) \<Longrightarrow> red_inv (set_reg r w)"
  by (auto simp: red_inv_def ctl_def set_reg_def)

lemma check_meta_inv: "red_inv w \<Longrightarrow> red_inv (check_meta meta w)"
  unfolding check_meta_def rmptcp_reset_meta_def
  by (auto simp: red_inv_def set_reg_def reg_inv_def reg_wf_def reg_sorted_def reg_sks_def entries_def
      phase_flag_def intro!: exI [of _ Open])

lemma send_skb_inv:
  assumes inv: "reg_inv (o_socks (s_out s)) (s_reg s)" and keys: "keeps_keys ops"
    and res: "rmptcp_send_skb ops meta reinject mss t s = (ok, s')"
  shows "reg_inv (o_socks (s_out s')) (s_reg s') \<and> ctl (s_reg s') = ctl (s_reg s)"
proof -
  let ?is = "[0..<sk_list_size (s_reg s)]"
  obtain s1 where loop: "send_loop ops meta reinject mss t ?is s = (fst (send_loop ops meta reinject mss t ?is s), s1)"
    and s1: "s_out s' = s_out s1" "sk_list (s_reg s') = sk_list (s_reg s1)" "ctl (s_reg s') = ctl (s_reg s1)"
    "sk_list_size (s_reg s') = sk_list_size (s_reg s1)"
    using res by (auto simp: rmptcp_send_skb_def ctl_def split: if_splits prod.splits)
  have wf: "reg_wf (s_reg s)" using inv by (rule reg_inv_wf)
  then have sub: "set ?is \<subseteq> {..<length (sk_list (s_reg s))}" by (auto simp: reg_wf_def)
  obtain xs where xs: "s_reg s1 = (s_reg s)\<lparr>sk_list := xs\<rparr>" "length xs = length (sk_list (s_reg s))"
    "\<forall>i < length xs. rs_sk (xs ! i) = rs_sk (sk_list (s_reg s) ! i)"
    using send_loop_reg [OF loop sub] by blast
  have wf': "reg_wf (s_reg s')" using wf xs s1 by (simp add: reg_wf_def)
  have "reg_sks (s_reg s') = reg_sks (s_reg s)"
    by (rule reg_sks_eqI [OF wf]) (use xs wf s1 in \<open>auto simp: reg_wf_def\<close>)
  then have "reg_inv (o_socks (s_out s)) (s_reg s')" using reg_inv_same_sks [OF inv wf'] by blast
  then show ?thesis
    using reg_inv_keys [of "o_socks (s_out s')" "o_socks (s_out s)"] send_loop_keys [OF keys loop] xs(1) s1
    by (simp add: ctl_def)
qed

lemma next_path_sane: "sane (fst (next_path sc pI)) = sane sc"
  by (simp add: next_path_def Let_def sane_def)

lemma update_sysctl_ok:
  assumes "rmptcp_update_sysctl sc pI r = (sc', pI', r')"
  shows "ctl r' = ctl r" "sk_list r' = sk_list r" "sk_list_size r' = sk_list_size r" "sane sc' = sane sc"
proof -
  let ?sc1 = "if sysctl_quota sc < 100 then sc\<lparr>sysctl_quota := 100\<rparr> else sc"
  have r': "\<exists>a b c d e f. r' = r\<lparr>sk_reg_update_period := a, max_sk_noshow := b, red_timeout := c,
      q_target_user := d, enable_mask := e, collapse_th := f\<rparr>"
    and sc': "sc' = fst (next_path ?sc1 pI)"
    using assms unfolding rmptcp_update_sysctl_def Let_def by (simp_all only: split_beta prod.inject fst_conv) blast+
  then show "ctl r' = ctl r" "sk_list r' = sk_list r" "sk_list_size r' = sk_list_size r"
    by (auto simp: ctl_def)
  show "sane sc' = sane sc" by (simp add: sc' next_path_sane) (simp add: sane_def)
qed

lemma periodic_update_ok:
  assumes inv: "red_inv w" and sane: "sane (w_sc w)"
    and few: "card (set (reg_sks (w_reg w)) \<union> set (connection_list (o_mpcb (s_out (w_send w))))) \<le> MAX_NUM_RED_SK"
  shows "\<exists>w'. periodic_update t w = Some w' \<and> red_inv w' \<and> sane (w_sc w')"
proof (cases "s64 (t - last_update (w_reg w)) > sk_reg_update_period (w_reg w)")
  case False
  then show ?thesis using inv sane by (simp add: periodic_update_def)
next
  case True
  obtain sc pI r where upd: "rmptcp_update_sysctl (w_sc w) (w_pI w) (w_reg w) = (sc, pI, r)"
    by (cases "rmptcp_update_sysctl (w_sc w) (w_pI w) (w_reg w)")
  note u = update_sysctl_ok [OF upd]
  have wf: "reg_wf (w_reg w)" using inv by (auto simp: red_inv_def dest: reg_inv_wf)
  have k: "keeps (w_socks w) (w_reg w) r"
    using inv u by (intro keeps_list) (auto simp: red_inv_def)
  have sks: "reg_sks r = reg_sks (w_reg w)" using u by (simp add: reg_sks_def entries_def)
  obtain r1 where r1: "rmptcp_update_sk_list (w_socks w) (connection_list (o_mpcb (s_out (w_send w)))) t
      (s_skb (w_send w)) r = Some r1" "reg_inv (w_socks w) r1" "ctl r1 = ctl r"
    using update_sk_list_ok [OF keeps_inv [OF k], of "connection_list (o_mpcb (s_out (w_send w)))" t "s_skb (w_send w)"]
      few sks by auto
  obtain r2 where r2: "rmptcp_update_bw sc (w_socks w) t True r1 = Some r2" "reg_inv (w_socks w) r2" "ctl r2 = ctl r1"
    using update_bw_ok [OF _ r1(2)] sane u(4) by (metis sane_def)
  obtain r3 where r3: "rmptcp_update_main_sk sc (w_socks w) r2 = Some r3" "reg_inv (w_socks w) r3" "ctl r3 = ctl r2"
    using update_main_ok [OF _ r2(2)] sane u(4) by metis
  have "red_inv (set_reg r3 (w\<lparr>w_sc := sc, w_pI := pI\<rparr>))"
    using inv r3 r2(3) r1(3) u(1) by (auto simp: red_inv_def set_reg_def ctl_def)
  then show ?thesis using True upd r1(1) r2(1) r3(1) sane u(4)
    by (simp add: periodic_update_def set_reg_def)
qed

lemma run_scheduler_ok:
  assumes inv: "red_inv w" and sane: "sane (w_sc w)"
    and few: "card (set (reg_sks (w_reg w)) \<union> set (connection_list (o_mpcb (s_out (w_send w))))) \<le> MAX_NUM_RED_SK"
  shows "\<exists>w'. run_scheduler t w = Some w' \<and> red_inv w'"
proof -
  obtain w1 where w1: "periodic_update t w = Some w1" "red_inv w1" "sane (w_sc w1)"
    using periodic_update_ok [OF assms] by blast
  let ?r1 = "if sysctl_adaptivPath_enable (w_sc w1) \<noteq> 0 then rmptcp_adaptPath (w_socks w1) (w_reg w1) else w_reg w1"
  have reg: "reg_inv (w_socks w1) (w_reg w1)" using w1(2) by (simp add: red_inv_def)
  then have k1: "reg_inv (w_socks w1) ?r1" "ctl ?r1 = ctl (w_reg w1)"
    using adaptPath_ok [OF reg] by (simp_all add: keeps_def)
  let ?res = "if sysctl_adaptivR_enable (w_sc w1) \<noteq> 0
    then rmptcp_update_main_sk (w_sc w1) (w_socks w1) (rmptcp_adaptR (w_sc w1) t ?r1) else Some (rmptcp_setQ ?r1)"
  have "\<exists>r2. ?res = Some r2 \<and> reg_inv (w_socks w1) r2 \<and> ctl r2 = ctl (w_reg w1)"
  proof (cases "sysctl_adaptivR_enable (w_sc w1) = 0")
    case True
    then show ?thesis using setQ_ok [OF k1(1)] k1(2) by (simp add: keeps_def)
  next
    case False
    have a: "reg_inv (w_socks w1) (rmptcp_adaptR (w_sc w1) t ?r1)" "ctl (rmptcp_adaptR (w_sc w1) t ?r1) = ctl ?r1"
      using adaptR_ok [OF k1(1)] by (simp_all add: keeps_def)
    show ?thesis using update_main_ok [OF w1(3) a(1), of "w_socks w1"] a(2) k1(2) False by fastforce
  qed
  then obtain r2 where r2: "?res = Some r2" "reg_inv (w_socks w1) r2" "ctl r2 = ctl (w_reg w1)" by blast
  have "reg_inv (w_socks w1) (rmptcp_calc_controlQ (r2\<lparr>cong_flag := 0\<rparr>))"
    "ctl (rmptcp_calc_controlQ (r2\<lparr>cong_flag := 0\<rparr>)) = ctl (w_reg w1)"
    using calc_controlQ_ok [OF r2(2)] r2(3) by (simp_all add: keeps_def)
  then have "red_inv (set_reg (rmptcp_calc_controlQ (r2\<lparr>cong_flag := 0\<rparr>)) w1)"
    by (rule red_inv_ctl [OF w1(2)])
  moreover have "run_scheduler t w = Some (set_reg (rmptcp_calc_controlQ (r2\<lparr>cong_flag := 0\<rparr>)) w1)"
    using w1(1) r2(1) by (simp add: run_scheduler_def)
  ultimately show ?thesis by blast
qed

lemma send_segment_ok:
  assumes inv: "red_inv w" and keys: "keeps_keys ops"
  shows "\<exists>ok w'. send_segment ops meta reinject mss t w = Some (ok, w') \<and> red_inv w'"
proof -
  let ?socks = "w_socks w" and ?sc = "w_sc w"
  have reg: "reg_inv ?socks (w_reg w)" using inv by (simp add: red_inv_def)
  obtain go r1 where av: "rmptcp_check_avail_sk ?sc ?socks (s_skb (w_send w)) t (w_reg w) = (go, r1)"
    by (cases "rmptcp_check_avail_sk ?sc ?socks (s_skb (w_send w)) t (w_reg w)")
  have k1: "reg_inv ?socks r1" "ctl r1 = ctl (w_reg w)"
    using check_avail_ok [OF reg av] by (simp_all add: keeps_def)
  show ?thesis
  proof (cases go)
    case False
    then show ?thesis using av red_inv_ctl [OF inv k1] by (simp add: send_segment_def) blast
  next
    case True
    let ?p = "rmptcp_calc_sendPeriod ?sc t r1"
    have kp: "reg_inv ?socks ?p" "ctl ?p = ctl (w_reg w)"
      using calc_sendPeriod_ok [OF k1(1)] k1(2) by (simp_all add: keeps_def)
    then have fail: "fail_inv ?p" and ph: "\<exists>q. reg_state ?p = phase_flag q"
      using inv by (auto simp: fail_inv_def red_inv_def ctl_def dest: reg_inv_wf)
    then obtain q where q: "reg_state ?p = phase_flag q" by blast
    obtain r2 q' where r2: "rmptcp_check_failure ?sc ?socks t ?p = Some r2" "fail_inv r2" "reg_state r2 = phase_flag q'"
      using check_failure_ok [OF fail q, of ?sc t ?socks] unfolding step_ok_def by blast
    note same = check_failure_ptrs [OF r2(1) q]
    have wf: "reg_wf r2" using r2(2) by (simp add: fail_inv_def)
    let ?s = "(w_send w)\<lparr>s_reg := r2\<lparr>timeout := 0\<rparr>\<rparr>"
    have "reg_inv ?socks (r2\<lparr>timeout := 0\<rparr>)"
      by (rule reg_inv_same_sks [OF kp(1)]) (use wf ptrs_sks [OF same] in \<open>simp_all add: reg_wf_def reg_sks_def entries_def\<close>)
    then have s0: "reg_inv (o_socks (s_out ?s)) (s_reg ?s)" by simp
    obtain ok s' where send: "rmptcp_send_skb ops meta reinject mss t ?s = (ok, s')"
      by (cases "rmptcp_send_skb ops meta reinject mss t ?s")
    have "red_inv (w\<lparr>w_send := s'\<rparr>)"
      using send_skb_inv [OF s0 keys send] r2(2,3) by (auto simp: red_inv_def ctl_def fail_inv_def)
    then show ?thesis using av True r2(1) send by (simp add: send_segment_def)
  qed
qed

section \<open>Properties\<close>

text \<open>C2. Redundant transmission.  When the transmission of a data segment succeeds, every subflow that
  was marked available has exactly one new segment at the end of its write queue, a copy that carries
  the data sequence numbers of the original; the queues and sockets of all other subflows are
  unchanged, the path mask of the original gains exactly the bits of the subflows used, and no
  subflow is marked available any more.\<close>

theorem rmptcp_send_skb_redundant:
  fixes s :: send_state
  assumes inv: "reg_wf (s_reg s)" "distinct (reg_sks (s_reg s))"
    and skb: "sendable (s_skb s)" "\<not> send_infinite_mapping (o_mpcb (s_out s))"
    and res: "rmptcp_send_skb ops meta reinject mss t s = (True, s')"
  defines "used \<equiv> {rs_sk (sk_list (s_reg s) ! i) | i. i < sk_list_size (s_reg s) \<and> available (s_reg s) i}"
  shows "(\<forall>p \<in> used. \<exists>seg. o_queue (s_out s') p = o_queue (s_out s) p @ [seg] \<and> copy_of (s_skb s) seg) \<and>
    (\<forall>p. p \<notin> used \<longrightarrow> o_queue (s_out s') p = o_queue (s_out s) p \<and> o_socks (s_out s') p = o_socks (s_out s) p) \<and>
    (\<forall>n. bit (path_mask (s_skb s')) n \<longleftrightarrow> bit (path_mask (s_skb s)) n \<or>
       (\<exists>p \<in> used. bit (mptcp_pi_to_flag (path_index (o_socks (s_out s) p))) n)) \<and>
    card used = num_available (s_reg s) \<and> num_available (s_reg s') = 0 \<and>
    reg_sks (s_reg s') = reg_sks (s_reg s)"
proof -
  let ?r = "s_reg s" and ?is = "[0..<sk_list_size (s_reg s)]"
  let ?sk = "\<lambda>i. rs_sk (sk_list ?r ! i)"
  obtain s1 where loop: "send_loop ops meta reinject mss t ?is s = (True, s1)"
    and s1: "s_out s' = s_out s1" "s_skb s' = s_skb s1" "sk_list (s_reg s') = sk_list (s_reg s1)"
    "sk_list_size (s_reg s') = sk_list_size (s_reg s1)"
    using res by (auto simp: rmptcp_send_skb_def split: if_splits prod.splits)
  have sub: "set ?is \<subseteq> {..<length (sk_list ?r)}" using inv(1) by (auto simp: reg_wf_def)
  have inj: "inj_on ?sk (set ?is)"
  proof (rule inj_onI)
    fix x y assume "x \<in> set ?is" "y \<in> set ?is" "?sk x = ?sk y"
    then have "x < sk_list_size ?r" "y < sk_list_size ?r" "reg_sks ?r ! x = reg_sks ?r ! y"
      using inv(1) by (auto simp: nth_reg_sks)
    then show "x = y" using nth_eq_iff_index_eq [OF inv(2)] inv(1) by simp
  qed
  have used: "used = ?sk ` {i \<in> set ?is. available ?r i}" by (auto simp: used_def)
  note copies = send_loop_copies [OF loop skb _ sub inj, simplified, unfolded sends_copies_def Let_def]
  have c: "(\<forall>p \<in> used. \<exists>seg. o_queue (s_out s1) p = o_queue (s_out s) p @ [seg] \<and> copy_of (s_skb s) seg) \<and>
    (\<forall>p. p \<notin> used \<longrightarrow> o_queue (s_out s1) p = o_queue (s_out s) p \<and> o_socks (s_out s1) p = o_socks (s_out s) p) \<and>
    (\<forall>n. bit (path_mask (s_skb s1)) n \<longleftrightarrow> bit (path_mask (s_skb s)) n \<or>
       (\<exists>p \<in> used. bit (mptcp_pi_to_flag (path_index (o_socks (s_out s) p))) n))"
    using copies unfolding used by (auto simp: atLeast0LessThan)
  have "card used = card {i \<in> set ?is. available ?r i}"
    unfolding used by (rule card_image) (rule inj_on_subset [OF inj], auto)
  also have "\<dots> = num_available ?r" by (simp add: num_available_def count_upto_card)
  finally have card: "card used = num_available ?r" .
  obtain xs where xs: "s_reg s1 = ?r\<lparr>sk_list := xs\<rparr>" "length xs = length (sk_list ?r)"
    "\<forall>i < length xs. rs_sk (xs ! i) = ?sk i" "\<forall>i \<in> set ?is. \<not> has (rs_state (xs ! i)) REDF_SK_Available"
    using send_loop_reg [OF loop sub] by blast
  have "num_available (s_reg s') = 0"
    using xs(1,4) s1 by (auto simp: num_available_def count_upto_0 available_def)
  moreover have "reg_sks (s_reg s') = reg_sks ?r"
    by (rule reg_sks_eqI [OF inv(1)]) (use xs inv(1) s1 in \<open>auto simp: reg_wf_def\<close>)
  ultimately show ?thesis using c card by (simp add: s1(1,2))
qed

lemma next_segment_ok:
  assumes inv: "red_inv w" and keys: "keeps_keys ops" and sane: "sane (w_sc w)"
    and quiet: "sysctl_runpathcheck (w_sc w) = 0"
    and few: "card (set (reg_sks (w_reg w)) \<union> set (connection_list (o_mpcb (s_out (w_send w))))) \<le> MAX_NUM_RED_SK"
  shows "\<exists>ok w'. rmptcp_send_next_segment ops meta reinject mss t w = Some (ok, w') \<and> red_inv w'"
proof -
  let ?w = "check_meta meta w"
  have w: "red_inv ?w" by (rule check_meta_inv [OF inv])
  have sc: "sane (w_sc ?w)" "sysctl_runpathcheck (w_sc ?w) = 0" "s_out (w_send ?w) = s_out (w_send w)"
    using sane quiet by (auto simp: check_meta_def rmptcp_reset_meta_def set_reg_def sane_def)
  have "set (reg_sks (w_reg ?w)) \<subseteq> set (reg_sks (w_reg w))"
    by (auto simp: check_meta_def rmptcp_reset_meta_def set_reg_def reg_sks_def entries_def)
  then have "card (set (reg_sks (w_reg ?w)) \<union> set (connection_list (o_mpcb (s_out (w_send ?w))))) \<le> MAX_NUM_RED_SK"
    by (intro order_trans [OF card_mono few]) (auto simp: sc(3))
  then obtain w2 where w2: "run_scheduler t ?w = Some w2" "red_inv w2"
    using run_scheduler_ok [OF w sc(1)] by blast
  then show ?thesis using send_segment_ok [OF w2(2) keys, of meta reinject mss t] sc(2)
    by (simp add: rmptcp_send_next_segment_def)
qed

text \<open>C1. The whole sender.  Under the invariant (a sorted list of distinct subflows within the array, a
  remembered event index inside it, one of the four states) and sysctl values in their documented
  range, a call for the next segment outside the path check never faults (no division by zero, no
  index outside the arrays) and keeps the invariant, whatever its result.\<close>

theorem rmptcp_send_next_segment_total:
  assumes inv: "red_inv w" and keys: "keeps_keys ops" and sane: "sane (w_sc w)"
    and quiet: "sysctl_runpathcheck (w_sc w) = 0"
    and few: "card (set (reg_sks (w_reg w)) \<union> set (connection_list (o_mpcb (s_out (w_send w))))) \<le> MAX_NUM_RED_SK"
  shows "\<exists>ok w'. rmptcp_send_next_segment ops meta reinject mss t w = Some (ok, w') \<and> red_inv w'"
  by (rule next_segment_ok [OF assms])

section \<open>Closed instances\<close>

definition sample_send :: send_state where
  "sample_send = \<lparr>s_reg = sample_reg\<lparr>sk_list := replicate MAX_NUM_RED_SK (sample_entry\<lparr>rs_state := 14\<rparr>)\<rparr>,
     s_skb = sample_skb, s_out = sample_out\<rparr>"

lemma sample_send_simps:
  "sk_list_size (s_reg sample_send) = 1" "s_skb sample_send = sample_skb" "s_out sample_send = sample_out"
  "sk_list (s_reg sample_send) ! 0 = sample_entry\<lparr>rs_state := 14\<rparr>" "reg_sks (s_reg sample_send) = [3]"
  "reg_wf (s_reg sample_send)" "available (s_reg sample_send) 0"
  by (simp_all add: sample_send_def sample_reg_def sample_entry_def reg_sks_def entries_def reg_wf_def
      MAX_NUM_RED_SK_def available_def has_def sk_flag_defs)

theorem rmptcp_send_skb_redundant_witness:
  "length (o_queue (s_out (snd (rmptcp_send_skb sample_ops 0 False 100 5 sample_send))) 3) = 1"
proof -
  have "fst (rmptcp_send_skb sample_ops 0 False 100 5 sample_send)"
    by (simp add: rmptcp_send_skb_def sample_send_simps sample_skb_def sample_out_def sample_ops_def
        sample_entry_def has_def sk_flag_defs mptcp_skb_entail_def entail_copy_def starts_infinite_def
        sample_mpcb_def sample_sock_def mptcp_is_data_fin_def setf_def MPTCPHDR_FIN_def Let_def
        place_on_subflow_def mptcp_save_dss_data_seq_def mptcp_write_dss_data_ack_def split_beta
        MPTCPHDR_SEQ_def MPTCPHDR_SEQ64_INDEX_def split: prod.splits)
  then have res: "rmptcp_send_skb sample_ops 0 False 100 5 sample_send =
      (True, snd (rmptcp_send_skb sample_ops 0 False 100 5 sample_send))" by (simp add: prod_eq_iff)
  have pre: "reg_wf (s_reg sample_send)" "distinct (reg_sks (s_reg sample_send))"
    "sendable (s_skb sample_send)" "\<not> send_infinite_mapping (o_mpcb (s_out sample_send))"
    by (simp_all add: sample_send_simps sendable_def sample_skb_def sample_out_def sample_mpcb_def has_def
        mptcp_is_data_fin_def)
  have "rs_sk (sk_list (s_reg sample_send) ! 0) = 3" by (simp add: sample_send_simps sample_entry_def)
  then have "(3::sk_ptr) \<in> {rs_sk (sk_list (s_reg sample_send) ! i) | i.
      i < sk_list_size (s_reg sample_send) \<and> available (s_reg sample_send) i}"
    using sample_send_simps(1,7) by force
  then show ?thesis
    using rmptcp_send_skb_redundant [OF pre res] by (fastforce simp: sample_send_simps sample_out_def)
qed

definition sample_world :: red_world where
  "sample_world = \<lparr>w_sc = sample_sysctls, w_pI = sample_pI,
     w_pc = \<lparr>start_last_combination = 0, running = False, test_index = 0\<rparr>, w_send = sample_send\<rparr>"

theorem rmptcp_send_next_segment_total_witness:
  "\<exists>ok w'. rmptcp_send_next_segment sample_ops 0 False 100 5 sample_world = Some (ok, w') \<and> red_inv w'"
proof (rule rmptcp_send_next_segment_total)
  have "sorted (map (\<lambda>p. sk_key (w_socks sample_world p)) [3])" by simp
  moreover have "reg_state (w_reg sample_world) = phase_flag Open"
    by (simp add: sample_world_def sample_send_def sample_reg_def phase_flag_def)
  moreover have "unat (previous_skevent_i (w_reg sample_world)) < MAX_NUM_RED_SK"
    by (simp add: sample_world_def sample_send_def sample_reg_def MAX_NUM_RED_SK_def)
  ultimately show "red_inv sample_world"
    by (auto simp: red_inv_def reg_inv_def reg_sorted_def sample_world_def sample_send_simps)
  show "keeps_keys sample_ops" by (simp add: keeps_keys_def sample_ops_def)
  show "sane (w_sc sample_world)" "sysctl_runpathcheck (w_sc sample_world) = 0"
    by (simp_all add: sample_world_def sample_sysctls_def sane_def)
  show "card (set (reg_sks (w_reg sample_world)) \<union>
      set (connection_list (o_mpcb (s_out (w_send sample_world))))) \<le> MAX_NUM_RED_SK"
    by (simp add: sample_world_def sample_send_simps sample_out_def sample_mpcb_def MAX_NUM_RED_SK_def)
qed

end
