(* ===== verification/Sched_State.thy ===== *)
theory Sched_State
  imports Mpcb
begin

text \<open>
  What the schedulers of segments have in common (\<open>net/mptcp/mptcp_sched.c\<close>): the part of the
  connection they read, the availability of a subflow, and the contract of a scheduler's
  \<open>get_subflow\<close> operation as a locale, which the default, the round-robin and the redundant scheduler
  provide.

  Segments are objects in a store, addressed by pointers, since schedulers compare pointers and
  write the path mask of a queued segment.
\<close>

section \<open>State\<close>

text \<open>
  \<open>write_queue\<close> and \<open>reinject_q\<close> are the queues of the connection, \<open>send_head\<close> the first segment that was
  not sent.  The last four fields are the private data of the schedulers: the time of the last
  optimisation of the receive buffer per subflow (default), the quota per subflow (round robin), the
  last segment with its end per subflow and the next subflow (redundant).
\<close>

record sched_state =
  ss_socks :: "sk_ptr \<Rightarrow> tcp_sock"
  ss_skbs :: "skb_ptr \<Rightarrow> sk_buff"
  ss_meta :: tcp_sock
  ss_conns :: "sk_ptr list"
  ss_cnt_subflows :: u8
  ss_infinite_snd :: bool
  ss_send_infinite :: bool
  ss_dfin_path_index :: u8
  ss_rcv_shutdown :: bool
  write_queue :: "skb_ptr list"
  send_head :: "skb_ptr option"
  reinject_q :: "skb_ptr list"
  ss_has_socket :: bool
  ss_sock_nospace :: bool
  ss_stream_wspace :: int
  ss_stream_min_wspace :: int
  ss_memory_free :: bool
  ss_time_stamp :: u32
  last_rbuf_opti :: "sk_ptr \<Rightarrow> u32"
  rr_quota :: "sk_ptr \<Rightarrow> u8"
  rs_skb :: "sk_ptr \<Rightarrow> skb_ptr option"
  rs_skb_end_seq :: "sk_ptr \<Rightarrow> u32"
  next_subflow :: "sk_ptr option"

text \<open>The functions of the TCP stack that the schedulers call.\<close>

record sched_kernel =
  k_snd_wnd_test :: "tcp_sock \<Rightarrow> sk_buff \<Rightarrow> u32 \<Rightarrow> bool"
  k_cwnd_test :: "tcp_sock \<Rightarrow> sk_buff \<Rightarrow> u32"
  k_usecs_to_jiffies :: "u32 \<Rightarrow> u32"

definition seg :: "sched_state \<Rightarrow> skb_ptr option \<Rightarrow> sk_buff option" where
  "seg s skb = map_option (ss_skbs s) skb"

definition clear_path_mask :: "skb_ptr option \<Rightarrow> sched_state \<Rightarrow> sched_state" where
  "clear_path_mask skb s = (case skb of None \<Rightarrow> s
     | Some p \<Rightarrow> s\<lparr>ss_skbs := (ss_skbs s)(p := (ss_skbs s p)\<lparr>path_mask := 0\<rparr>)\<rparr>)"

section \<open>Availability\<close>

definition mptcp_is_def_unavailable :: "tcp_sock \<Rightarrow> bool" where
  "mptcp_is_def_unavailable tp =
     (if \<not> mptcp_sk_can_send tp then True else if pre_established tp then True else pf tp)"

text \<open>A subflow in the loss state; the order of the data on a subflow that is not established.\<close>

definition loss_blocked :: "tcp_sock \<Rightarrow> bool" where
  "loss_blocked tp \<longleftrightarrow> icsk_ca_state tp = TCP_CA_Loss \<and> (\<not> tcp_is_reno tp \<or> snd_una tp \<noteq> high_seq tp)"

definition order_blocked :: "tcp_sock \<Rightarrow> sk_buff option \<Rightarrow> bool" where
  "order_blocked tp skb \<longleftrightarrow> \<not> fully_established tp \<and>
     (case skb of None \<Rightarrow> False | Some b \<Rightarrow> second_packet tp \<and> last_end_data_seq tp \<noteq> skb_seq b)"

definition cwnd_blocked :: "tcp_sock \<Rightarrow> bool" where
  "cwnd_blocked tp \<longleftrightarrow> tcp_packets_in_flight tp \<ge> snd_cwnd tp \<or>
     write_seq tp - snd_nxt tp > (snd_cwnd tp - tcp_packets_in_flight tp) * mss_cache tp"

definition mptcp_is_temp_unavailable :: "tcp_sock \<Rightarrow> sk_buff option \<Rightarrow> bool \<Rightarrow> bool" where
  "mptcp_is_temp_unavailable tp skb zero_wnd_test =
     (if loss_blocked tp then True
      else if order_blocked tp skb then True
      else if tsq_throttled tp then True
      else if cwnd_blocked tp then True
      else if zero_wnd_test \<and> \<not> before (write_seq tp) (tcp_wnd_end tp) then True
      else (case skb of None \<Rightarrow> False
            | Some b \<Rightarrow> \<not> zero_wnd_test \<and>
                after (write_seq tp + min (skb_len b) (tcp_current_mss tp)) (tcp_wnd_end tp)))"

definition mptcp_is_available :: "tcp_sock \<Rightarrow> sk_buff option \<Rightarrow> bool \<Rightarrow> bool" where
  "mptcp_is_available tp skb zero_wnd_test \<longleftrightarrow>
     \<not> mptcp_is_def_unavailable tp \<and> \<not> mptcp_is_temp_unavailable tp skb zero_wnd_test"

definition mptcp_dont_reinject_skb :: "tcp_sock \<Rightarrow> sk_buff option \<Rightarrow> bool" where
  "mptcp_dont_reinject_skb tp skb = (case skb of None \<Rightarrow> False
     | Some b \<Rightarrow> has (mptcp_pi_to_flag (path_index tp)) (path_mask b))"

definition subflow_is_backup :: "tcp_sock \<Rightarrow> bool" where
  "subflow_is_backup tp \<longleftrightarrow> rcv_low_prio tp \<or> low_prio tp"

definition subflow_is_active :: "tcp_sock \<Rightarrow> bool" where
  "subflow_is_active tp \<longleftrightarrow> \<not> rcv_low_prio tp \<and> \<not> low_prio tp"

text \<open>\<open>Answer data_fin on same subflow\<close>: the subflow for the answer to a data-FIN.\<close>

definition dfin_subflow ::
  "(tcp_sock \<Rightarrow> sk_buff option \<Rightarrow> bool \<Rightarrow> bool) \<Rightarrow> skb_ptr option \<Rightarrow> bool \<Rightarrow> sched_state \<Rightarrow> sk_ptr option" where
  "dfin_subflow avail skb zero_wnd_test s =
     (if ss_rcv_shutdown s \<and> (case seg s skb of None \<Rightarrow> False | Some b \<Rightarrow> mptcp_is_data_fin b)
      then find (\<lambda>sk. path_index (ss_socks s sk) = ss_dfin_path_index s \<and>
                  avail (ss_socks s sk) (seg s skb) zero_wnd_test) (ss_conns s)
      else None)"

lemma available_usable: "mptcp_is_available tp skb z \<Longrightarrow> mptcp_sk_can_send tp \<and> \<not> pf tp"
  by (auto simp: mptcp_is_available_def mptcp_is_def_unavailable_def split: if_splits)

lemma active_or_backup: "subflow_is_active tp \<longleftrightarrow> \<not> subflow_is_backup tp"
  by (auto simp: subflow_is_active_def subflow_is_backup_def)

lemma dfin_subflow_SomeD:
  "dfin_subflow avail skb z s = Some sk \<Longrightarrow>
   sk \<in> set (ss_conns s) \<and> avail (ss_socks s sk) (seg s skb) z \<and>
   path_index (ss_socks s sk) = ss_dfin_path_index s"
  by (auto simp: dfin_subflow_def find_Some_iff split: if_splits)

section \<open>The contract of a scheduler\<close>

text \<open>What a scheduler may not change: everything but path masks and its private data.\<close>

definition public :: "sched_state \<Rightarrow> sched_state" where
  "public s = s\<lparr>ss_skbs := \<lambda>p. (ss_skbs s p)\<lparr>path_mask := 0\<rparr>, last_rbuf_opti := \<lambda>_. 0, rr_quota := \<lambda>_. 0,
     rs_skb := \<lambda>_. None, rs_skb_end_seq := \<lambda>_. 0, next_subflow := None\<rparr>"

lemma public_clear [simp]: "public (clear_path_mask skb s) = public s"
  by (auto simp: public_def clear_path_mask_def fun_eq_iff split: option.splits)

lemma public_conns: "public s' = public s \<Longrightarrow> ss_conns s' = ss_conns s \<and> ss_socks s' = ss_socks s"
proof -
  have pub: "ss_conns (public u) = ss_conns u" "ss_socks (public u) = ss_socks u" for u
    by (simp_all add: public_def)
  show "public s' = public s \<Longrightarrow> ?thesis" by (metis pub)
qed

text \<open>
  \<open>get_subflow\<close> returns a subflow or none and the new state; \<open>None\<close> outside stands for a call that does
  not return.  Under its invariant it returns, keeps the invariant and the public state, and
  chooses a subflow of the connection that it deems available, which excludes all that cannot send.
\<close>

locale scheduler =
  fixes get_subflow :: "skb_ptr option \<Rightarrow> bool \<Rightarrow> sched_state \<Rightarrow> (sk_ptr option \<times> sched_state) option"
    and avail :: "tcp_sock \<Rightarrow> sk_buff option \<Rightarrow> bool \<Rightarrow> bool"
    and inv :: "sched_state \<Rightarrow> bool"
  assumes returns: "inv s \<Longrightarrow> get_subflow skb z s \<noteq> None"
    and keeps: "inv s \<Longrightarrow> get_subflow skb z s = Some (r, s') \<Longrightarrow> inv s' \<and> public s' = public s"
    and chosen: "inv s \<Longrightarrow> get_subflow skb z s = Some (Some sk, s') \<Longrightarrow>
      sk \<in> set (ss_conns s) \<and> avail (ss_socks s sk) (seg s skb) z"
    and avail_usable: "avail tp b z \<Longrightarrow> mptcp_sk_can_send tp \<and> \<not> pf tp"
begin

lemma call_cases:
  assumes "inv s"
  obtains (subflow) sk s' where "get_subflow skb z s = Some (Some sk, s')" "inv s'" "public s' = public s"
      "sk \<in> set (ss_conns s)" "mptcp_sk_can_send (ss_socks s sk)" "\<not> pf (ss_socks s sk)"
  | (none) s' where "get_subflow skb z s = Some (None, s')" "inv s'" "public s' = public s"
proof -
  obtain r s' where r: "get_subflow skb z s = Some (r, s')" using returns [OF assms] by fastforce
  note k = keeps [OF assms r]
  show ?thesis
  proof (cases r)
    case None
    then show ?thesis using r k none by blast
  next
    case (Some sk)
    then show ?thesis using r k subflow chosen [OF assms] avail_usable by blast
  qed
qed

text \<open>Any number of calls: the state stays within the invariant and the subflows stay the same.\<close>

primrec calls :: "(skb_ptr option \<times> bool) list \<Rightarrow> sched_state \<Rightarrow> (sk_ptr option list \<times> sched_state) option" where
  "calls [] s = Some ([], s)"
| "calls (c # cs) s = (case get_subflow (fst c) (snd c) s of None \<Rightarrow> None
     | Some (r, s') \<Rightarrow> (case calls cs s' of None \<Rightarrow> None | Some (rs, s'') \<Rightarrow> Some (r # rs, s'')))"

lemma calls_safe:
  "inv s \<Longrightarrow> \<exists>rs s'. calls cs s = Some (rs, s') \<and> inv s' \<and> public s' = public s \<and> length rs = length cs \<and>
     (\<forall>sk. Some sk \<in> set rs \<longrightarrow> sk \<in> set (ss_conns s) \<and> mptcp_sk_can_send (ss_socks s sk) \<and> \<not> pf (ss_socks s sk))"
proof (induction cs arbitrary: s)
  case (Cons c cs)
  obtain skb z where c: "c = (skb, z)" by (cases c)
  show ?case
  proof (cases rule: call_cases [OF Cons.prems, of skb z])
    case (1 sk s')
    from Cons.IH [OF 1(2)] public_conns [OF 1(3)] 1 show ?thesis
      by (auto simp: c)
  next
    case (2 s')
    from Cons.IH [OF 2(2)] public_conns [OF 2(3)] 2 show ?thesis by (auto simp: c)
  qed
qed simp

end

text \<open>A scheduler that gives up only when no subflow is available.\<close>

locale complete_scheduler = scheduler +
  assumes complete: "inv s \<Longrightarrow> get_subflow skb z s = Some (None, s') \<Longrightarrow> sk \<in> set (ss_conns s) \<Longrightarrow>
    \<not> avail (ss_socks s sk) (seg s skb) z"
begin

lemma finds_iff:
  assumes "inv s"
  shows "(\<exists>sk s'. get_subflow skb z s = Some (Some sk, s')) \<longleftrightarrow>
    (\<exists>sk \<in> set (ss_conns s). avail (ss_socks s sk) (seg s skb) z)"
  using call_cases [OF assms, of skb z] chosen [OF assms] complete [OF assms] by (metis option.exhaust)

end

end
