(* ===== verification/Sched_Default.thy ===== *)
theory Sched_Default
  imports Sched_State
begin

text \<open>
  The default scheduler (\<open>net/mptcp/mptcp_sched.c\<close>): the subflow with the smallest round-trip time
  among those that did not carry the segment yet, active subflows before backup ones; the next
  segment with the limit of its size; and the optimisation of the receive buffer, which halves the
  window of the subflow that blocks it and sends its segment again.
\<close>

section \<open>Selection\<close>

record selection =
  bestsk :: "sk_ptr option"
  min_srtt :: u32
  found_unused :: bool
  found_unused_una :: bool

definition select_step ::
  "sched_state \<Rightarrow> sk_buff option \<Rightarrow> (tcp_sock \<Rightarrow> bool) \<Rightarrow> bool \<Rightarrow> sk_ptr \<Rightarrow> selection \<Rightarrow> selection" where
  "select_step s skb selector zero_wnd_test sk c =
     (let tp = ss_socks s sk; unused = (\<not> mptcp_dont_reinject_skb tp skb)
      in if \<not> selector tp then c
         else if \<not> unused \<and> found_unused c then c
         else if mptcp_is_def_unavailable tp then c
         else if mptcp_is_temp_unavailable tp skb zero_wnd_test
         then (if unused then c\<lparr>found_unused_una := True\<rparr> else c)
         else let c1 = (if unused
                        then (if \<not> found_unused c then c\<lparr>min_srtt := 0xffffffff, bestsk := None\<rparr> else c)
                             \<lparr>found_unused := True\<rparr>
                        else c)
              in if srtt_us tp < min_srtt c1 then c1\<lparr>min_srtt := srtt_us tp, bestsk := Some sk\<rparr> else c1)"

definition no_selection :: selection where
  "no_selection = \<lparr>bestsk = None, min_srtt = 0xffffffff, found_unused = False, found_unused_una = False\<rparr>"

text \<open>The subflow and the value of \<open>force\<close>.\<close>

definition get_subflow_from_selectors ::
  "sched_state \<Rightarrow> sk_buff option \<Rightarrow> (tcp_sock \<Rightarrow> bool) \<Rightarrow> bool \<Rightarrow> sk_ptr option \<times> bool" where
  "get_subflow_from_selectors s skb selector zero_wnd_test =
     (let c = fold (select_step s skb selector zero_wnd_test) (ss_conns s) no_selection
      in (bestsk c, if bestsk c \<noteq> None then found_unused c else found_unused_una c))"

text \<open>With a single subflow the connection list has one element.\<close>

definition get_available_subflow ::
  "skb_ptr option \<Rightarrow> bool \<Rightarrow> sched_state \<Rightarrow> sk_ptr option \<times> sched_state" where
  "get_available_subflow skb zero_wnd_test s =
     (if ss_cnt_subflows s = 1
      then (case ss_conns s of [] \<Rightarrow> (None, s)
            | sk # _ \<Rightarrow> (if mptcp_is_available (ss_socks s sk) (seg s skb) zero_wnd_test then Some sk else None, s))
      else case dfin_subflow mptcp_is_available skb zero_wnd_test s of
        Some sk \<Rightarrow> (Some sk, s)
      | None \<Rightarrow>
         (case get_subflow_from_selectors s (seg s skb) subflow_is_active zero_wnd_test of
            (sk, force) \<Rightarrow>
              if force then (sk, s)
              else case get_subflow_from_selectors s (seg s skb) subflow_is_backup zero_wnd_test of
                (sk2, force2) \<Rightarrow> (sk2, if \<not> force2 then clear_path_mask skb s else s)))"

section \<open>Optimisation of the receive buffer\<close>

definition carried_by :: "sched_state \<Rightarrow> skb_ptr \<Rightarrow> sk_ptr \<Rightarrow> bool" where
  "carried_by s skb sk = has (path_mask (ss_skbs s skb)) (mptcp_pi_to_flag (path_index (ss_socks s sk)))"

text \<open>Halving the window of the first other subflow that carried the segment, if it is slower.\<close>

definition halve_cwnd :: "tcp_sock \<Rightarrow> tcp_sock" where
  "halve_cwnd tp = tp\<lparr>snd_cwnd := max (drop_bit 1 (snd_cwnd tp)) 1,
     snd_ssthresh := (if snd_cwnd tp \<ge> snd_ssthresh tp then max (drop_bit 1 (snd_ssthresh tp)) 2
                      else snd_ssthresh tp)\<rparr>"

definition penalize :: "sk_ptr \<Rightarrow> skb_ptr \<Rightarrow> sched_state \<Rightarrow> sched_state" where
  "penalize sk skb_head s =
     (case find (\<lambda>it. it \<noteq> sk \<and> carried_by s skb_head it) (ss_conns s) of
        None \<Rightarrow> s
      | Some it \<Rightarrow>
         if srtt_us (ss_socks s sk) < srtt_us (ss_socks s it) \<and>
            icsk_ca_state (ss_socks s it) = TCP_CA_Open
         then s\<lparr>ss_socks := (ss_socks s)(it := halve_cwnd (ss_socks s it)),
                last_rbuf_opti := (last_rbuf_opti s)(sk := ss_time_stamp s)\<rparr>
         else s)"

fun decide_retrans :: "sched_state \<Rightarrow> sk_ptr \<Rightarrow> skb_ptr \<Rightarrow> sk_ptr list \<Rightarrow> bool \<Rightarrow> bool" where
  "decide_retrans s sk skb_head [] do_retrans = do_retrans"
| "decide_retrans s sk skb_head (it # its) do_retrans =
     (if it \<noteq> sk \<and> carried_by s skb_head it
      then (if snd_cwnd (ss_socks s it) \<le> 4 then True
            else if 4 * srtt_us (ss_socks s sk) \<ge> srtt_us (ss_socks s it) then False
            else decide_retrans s sk skb_head its True)
      else decide_retrans s sk skb_head its do_retrans)"

definition mptcp_rcv_buf_optimization ::
  "sched_kernel \<Rightarrow> sk_ptr \<Rightarrow> bool \<Rightarrow> sched_state \<Rightarrow> skb_ptr option \<times> sched_state" where
  "mptcp_rcv_buf_optimization k sk penal s =
     (if ss_cnt_subflows s = 1 then (None, s)
      else case write_queue s of [] \<Rightarrow> (None, s)
      | skb_head # _ \<Rightarrow>
        if send_head s = Some skb_head then (None, s)
        else
          let s1 = (if \<not> penal \<and> ss_memory_free s then s
                    else if ss_time_stamp s - last_rbuf_opti s sk
                              < k_usecs_to_jiffies k (drop_bit 3 (srtt_us (ss_socks s sk))) then s
                    else penalize sk skb_head s)
          in if \<not> carried_by s1 skb_head sk \<and> decide_retrans s1 sk skb_head (ss_conns s1) False \<and>
                mptcp_is_available (ss_socks s1 sk) (seg s1 (Some skb_head)) False
             then (Some skb_head, s1) else (None, s1))"

section \<open>The next segment\<close>

text \<open>\<open>tcp_send_head\<close> reads \<open>send_head\<close>; the second result is the value of \<open>reinject\<close>.\<close>

definition peek_segment ::
  "sched_kernel \<Rightarrow> sched_state \<Rightarrow> skb_ptr option \<times> int \<times> sched_state" where
  "peek_segment k s =
     (if ss_infinite_snd s \<or> ss_send_infinite s then (send_head s, 0, s)
      else case reinject_q s of
        skb # _ \<Rightarrow> (Some skb, 1, s)
      | [] \<Rightarrow>
         if send_head s = None \<and> ss_has_socket s \<and> ss_sock_nospace s \<and>
            ss_stream_wspace s < ss_stream_min_wspace s
         then (case get_available_subflow None False s of
                 (None, s1) \<Rightarrow> (None, 0, s1)
               | (Some subsk, s1) \<Rightarrow>
                  (case mptcp_rcv_buf_optimization k subsk False s1 of
                     (None, s2) \<Rightarrow> (None, 0, s2) | (Some skb, s2) \<Rightarrow> (Some skb, -1, s2)))
         else (send_head s, 0, s))"

record next_seg =
  ns_skb :: skb_ptr
  ns_reinject :: int
  ns_subsk :: sk_ptr
  ns_limit :: u32

text \<open>The limit for a segment that is longer than the segment size of the subflow; \<open>None\<close> when the
  congestion window has no room.\<close>

definition segment_limit :: "sched_kernel \<Rightarrow> tcp_sock \<Rightarrow> sk_buff \<Rightarrow> u32 option" where
  "segment_limit k subtp skb =
     (let mss_now = tcp_current_mss subtp;
          gso_max_segs = (if sk_gso_max_segs subtp = 0 then 1 else sk_gso_max_segs subtp);
          max_segs = min (k_cwnd_test k subtp skb) (ucast gso_max_segs);
          max_len = mss_now * max_segs;
          window = tcp_wnd_end subtp - write_seq subtp
      in if skb_len skb \<le> mss_now then Some 0
         else if max_segs = 0 then None
         else Some (if max_len \<le> skb_len skb then max_len else min (skb_len skb) window))"

definition mptcp_next_segment :: "sched_kernel \<Rightarrow> sched_state \<Rightarrow> next_seg option \<times> sched_state" where
  "mptcp_next_segment k s =
     (case peek_segment k s of
        (None, _, s1) \<Rightarrow> (None, s1)
      | (Some skb, reinject, s1) \<Rightarrow>
         (case get_available_subflow (Some skb) False s1 of
            (None, s2) \<Rightarrow> (None, s2)
          | (Some subsk, s2) \<Rightarrow>
             (case (if reinject = 0 \<and>
                       \<not> k_snd_wnd_test k (ss_meta s2) (ss_skbs s2 skb) (tcp_current_mss (ss_socks s2 subsk))
                    then (case mptcp_rcv_buf_optimization k subsk True s2 of (r, s3) \<Rightarrow> (r, -1, s3))
                    else (Some skb, reinject, s2)) of
                (None, _, s3) \<Rightarrow> (None, s3)
              | (Some skb', reinject', s3) \<Rightarrow>
                 (case segment_limit k (ss_socks s3 subsk) (ss_skbs s3 skb') of
                    None \<Rightarrow> (None, s3)
                  | Some l \<Rightarrow> (Some \<lparr>ns_skb = skb', ns_reinject = reinject', ns_subsk = subsk, ns_limit = l\<rparr>, s3)))))"

definition defsched_init :: "sk_ptr \<Rightarrow> sched_state \<Rightarrow> sched_state" where
  "defsched_init sk s = s\<lparr>last_rbuf_opti := (last_rbuf_opti s)(sk := ss_time_stamp s)\<rparr>"

section \<open>The reference for the selection\<close>

text \<open>The first of the fastest subflows; a round-trip time of all ones is never selected.\<close>

definition faster :: "sched_state \<Rightarrow> sk_ptr \<Rightarrow> sk_ptr option \<Rightarrow> sk_ptr option" where
  "faster s sk b = (if srtt_us (ss_socks s sk) < (case b of None \<Rightarrow> 0xffffffff | Some p \<Rightarrow> srtt_us (ss_socks s p))
     then Some sk else b)"

definition fastest :: "sched_state \<Rightarrow> sk_ptr list \<Rightarrow> sk_ptr option" where
  "fastest s xs = fold (faster s) xs None"

lemma fastest_snoc: "fastest s (xs @ [x]) = faster s x (fastest s xs)"
  by (simp add: fastest_def)

lemma fastest_Nil [simp]: "fastest s [] = None"
  by (simp add: fastest_def)

lemma fastest_spec:
  "(case fastest s xs of
      None \<Rightarrow> \<forall>p \<in> set xs. srtt_us (ss_socks s p) = 0xffffffff
    | Some p \<Rightarrow> p \<in> set xs \<and> srtt_us (ss_socks s p) < 0xffffffff \<and>
        (\<forall>q \<in> set xs. srtt_us (ss_socks s p) \<le> srtt_us (ss_socks s q)))"
proof (induction xs rule: rev_induct)
  case (snoc x xs)
  have top: "w \<le> 0xffffffff" for w :: u32 using unat_bound [of w] by (simp add: word_le_nat_alt)
  let ?r = "\<lambda>p. srtt_us (ss_socks s p)"
  show ?case
  proof (cases "fastest s xs")
    case None
    then have all: "\<forall>p \<in> set xs. ?r p = 0xffffffff" using snoc by simp
    then show ?thesis using None top [of "?r x"] by (auto simp: fastest_snoc faster_def not_less)
  next
    case (Some q)
    then have q: "q \<in> set xs" "?r q < 0xffffffff" "\<forall>p \<in> set xs. ?r q \<le> ?r p" using snoc by simp_all
    show ?thesis
    proof (cases "?r x < ?r q")
      case True
      then have "?r x < 0xffffffff" "\<forall>p \<in> set xs. ?r x \<le> ?r p"
        using q by (force intro: order.strict_trans less_imp_le order.trans)+
      then show ?thesis using Some True by (simp add: fastest_snoc faster_def)
    next
      case False
      then show ?thesis using Some q by (simp add: fastest_snoc faster_def)
    qed
  qed
qed simp

lemma fastest_SomeD:
  "fastest s xs = Some p \<Longrightarrow> p \<in> set xs \<and> (\<forall>q \<in> set xs. srtt_us (ss_socks s p) \<le> srtt_us (ss_socks s q))"
  using fastest_spec [where s = s and xs = xs] by auto

lemma fastest_NoneD: "fastest s xs = None \<Longrightarrow> p \<in> set xs \<Longrightarrow> srtt_us (ss_socks s p) = 0xffffffff"
  using fastest_spec [where s = s and xs = xs] by auto

definition usable_for ::
  "sched_state \<Rightarrow> sk_buff option \<Rightarrow> (tcp_sock \<Rightarrow> bool) \<Rightarrow> bool \<Rightarrow> sk_ptr \<Rightarrow> bool" where
  "usable_for s skb selector z sk \<longleftrightarrow> selector (ss_socks s sk) \<and> mptcp_is_available (ss_socks s sk) skb z"

definition unused :: "sched_state \<Rightarrow> sk_buff option \<Rightarrow> sk_ptr \<Rightarrow> bool" where
  "unused s skb sk \<longleftrightarrow> \<not> mptcp_dont_reinject_skb (ss_socks s sk) skb"

text \<open>A subflow worth waiting for: it did not carry the segment and is blocked only temporarily.\<close>

definition awaited ::
  "sched_state \<Rightarrow> sk_buff option \<Rightarrow> (tcp_sock \<Rightarrow> bool) \<Rightarrow> bool \<Rightarrow> sk_ptr \<Rightarrow> bool" where
  "awaited s skb selector z sk \<longleftrightarrow> selector (ss_socks s sk) \<and> unused s skb sk \<and>
     \<not> mptcp_is_def_unavailable (ss_socks s sk) \<and> mptcp_is_temp_unavailable (ss_socks s sk) skb z"

definition candidates ::
  "sched_state \<Rightarrow> sk_buff option \<Rightarrow> (tcp_sock \<Rightarrow> bool) \<Rightarrow> bool \<Rightarrow> sk_ptr list \<Rightarrow> sk_ptr list" where
  "candidates s skb selector z xs =
     (let A = filter (usable_for s skb selector z) xs; U = filter (unused s skb) A
      in if U \<noteq> [] then U else A)"

lemma selection_fold:
  "fold (select_step s skb selector z) xs no_selection =
     (let b = fastest s (candidates s skb selector z xs)
      in \<lparr>bestsk = b, min_srtt = (case b of None \<Rightarrow> 0xffffffff | Some p \<Rightarrow> srtt_us (ss_socks s p)),
          found_unused = (\<exists>p \<in> set xs. usable_for s skb selector z p \<and> unused s skb p),
          found_unused_una = (\<exists>p \<in> set xs. awaited s skb selector z p)\<rparr>)"
proof (induction xs rule: rev_induct)
  case (snoc x xs)
  let ?U = "\<lambda>xs. filter (unused s skb) (filter (usable_for s skb selector z) xs)"
  have U: "?U xs \<noteq> [] \<longleftrightarrow> (\<exists>p \<in> set xs. usable_for s skb selector z p \<and> unused s skb p)"
    by (auto simp: filter_empty_conv)
  show ?case
  proof (cases "usable_for s skb selector z x")
    case False
    then have "candidates s skb selector z (xs @ [x]) = candidates s skb selector z xs"
      by (simp add: candidates_def)
    then show ?thesis using False snoc
      by (auto simp: select_step_def Let_def usable_for_def awaited_def unused_def mptcp_is_available_def)
  next
    case True
    then have x: "selector (ss_socks s x)" "\<not> mptcp_is_def_unavailable (ss_socks s x)"
      "\<not> mptcp_is_temp_unavailable (ss_socks s x) skb z"
      by (simp_all add: usable_for_def mptcp_is_available_def)
    have cand: "candidates s skb selector z (xs @ [x]) =
      (if unused s skb x then ?U xs @ [x]
       else if ?U xs \<noteq> [] then ?U xs else candidates s skb selector z xs @ [x])"
      using True by (simp add: candidates_def Let_def)
    have U': "candidates s skb selector z xs = ?U xs" if "?U xs \<noteq> []"
      using that by (simp add: candidates_def Let_def)
    show ?thesis
      using snoc x True U U' unfolding cand
      by (auto simp: select_step_def Let_def unused_def awaited_def fastest_snoc faster_def
          split: option.splits)
  qed
qed (simp add: no_selection_def candidates_def)

lemma selectors_result:
  "get_subflow_from_selectors s skb selector z =
     (let b = fastest s (candidates s skb selector z (ss_conns s))
      in (b, if b \<noteq> None then \<exists>p \<in> set (ss_conns s). usable_for s skb selector z p \<and> unused s skb p
             else \<exists>p \<in> set (ss_conns s). awaited s skb selector z p))"
  by (simp add: get_subflow_from_selectors_def selection_fold Let_def)

lemma candidates_sub:
  "p \<in> set (candidates s skb selector z xs) \<Longrightarrow> p \<in> set xs \<and> usable_for s skb selector z p"
  by (auto simp: candidates_def Let_def split: if_splits)

lemma candidates_all:
  "p \<in> set xs \<Longrightarrow> usable_for s skb selector z p \<Longrightarrow> candidates s skb selector z xs \<noteq> []"
  by (auto simp: candidates_def Let_def filter_empty_conv)

lemma candidates_unused:
  assumes "p \<in> set xs" "usable_for s skb selector z p" "unused s skb p"
  shows "set (candidates s skb selector z xs) = {q \<in> set xs. usable_for s skb selector z q \<and> unused s skb q}"
  using assms by (auto simp: candidates_def Let_def filter_empty_conv)

lemma fastest_ex:
  assumes "p \<in> set xs" "srtt_us (ss_socks s p) \<noteq> 0xffffffff"
  obtains q where "fastest s xs = Some q"
  using assms fastest_NoneD by (cases "fastest s xs") auto

section \<open>The contract\<close>

text \<open>Availability does not read the path mask.\<close>

lemma available_clear:
  "mptcp_is_available tp (seg (clear_path_mask p s) q) z = mptcp_is_available tp (seg s q) z"
proof -
  have "ss_skbs (clear_path_mask p s) x = ss_skbs s x \<or>
      ss_skbs (clear_path_mask p s) x = (ss_skbs s x)\<lparr>path_mask := 0\<rparr>" for x
    by (auto simp: clear_path_mask_def split: option.splits)
  moreover have "mptcp_is_available tp (Some (b\<lparr>path_mask := 0\<rparr>)) z = mptcp_is_available tp (Some b) z" for b
    by (simp add: mptcp_is_available_def mptcp_is_temp_unavailable_def order_blocked_def)
  ultimately show ?thesis by (cases q) (auto simp: seg_def, metis+)
qed

lemma clear_path_mask_simps [simp]:
  "ss_socks (clear_path_mask p s) = ss_socks s" "ss_conns (clear_path_mask p s) = ss_conns s"
  "write_queue (clear_path_mask p s) = write_queue s" "reinject_q (clear_path_mask p s) = reinject_q s"
  "send_head (clear_path_mask p s) = send_head s" "ss_cnt_subflows (clear_path_mask p s) = ss_cnt_subflows s"
  by (simp_all add: clear_path_mask_def split: option.splits)

lemma selectors_SomeD:
  "get_subflow_from_selectors s skb selector z = (Some sk, force) \<Longrightarrow>
   sk \<in> set (ss_conns s) \<and> usable_for s skb selector z sk"
  using candidates_sub fastest_SomeD by (fastforce simp: selectors_result Let_def)

lemma get_available_state:
  "get_available_subflow skb z s = (r, s') \<Longrightarrow> s' = s \<or> s' = clear_path_mask skb s"
  by (auto simp: get_available_subflow_def split: if_splits list.splits option.splits prod.splits)

lemma get_available_chosen:
  "get_available_subflow skb z s = (Some sk, s') \<Longrightarrow>
   sk \<in> set (ss_conns s) \<and> mptcp_is_available (ss_socks s sk) (seg s skb) z"
  by (auto simp: get_available_subflow_def usable_for_def split: if_splits list.splits option.splits prod.splits
      dest!: dfin_subflow_SomeD selectors_SomeD)

interpretation default: scheduler "\<lambda>skb z s. Some (get_available_subflow skb z s)" mptcp_is_available "\<lambda>_. True"
proof unfold_locales
  fix s skb z r s' assume "Some (get_available_subflow skb z s) = Some (r, s')"
  then show "True \<and> public s' = public s" using get_available_state by fastforce
qed (auto dest: get_available_chosen available_usable)

section \<open>Reinjection limits and the optimisation of the buffer\<close>

lemma segment_limit_le:
  "segment_limit k tp b = Some l \<Longrightarrow> l \<le> skb_len b \<and> (skb_len b \<le> tcp_current_mss tp \<longrightarrow> l = 0)"
  by (auto simp: segment_limit_def Let_def split: if_splits)

lemma penalize_other:
  "ss_socks (penalize sk h s) sk = ss_socks s sk" "ss_conns (penalize sk h s) = ss_conns s"
  "ss_skbs (penalize sk h s) = ss_skbs s" "write_queue (penalize sk h s) = write_queue s"
  "send_head (penalize sk h s) = send_head s" "reinject_q (penalize sk h s) = reinject_q s" "ss_meta (penalize sk h s) = ss_meta s"
  by (auto simp: penalize_def find_Some_iff split: option.splits)

lemma rcv_buf_optimization_ok:
  assumes "mptcp_rcv_buf_optimization k sk penal s = (r, s')"
  shows "ss_socks s' sk = ss_socks s sk \<and> ss_conns s' = ss_conns s \<and> ss_skbs s' = ss_skbs s \<and>
    write_queue s' = write_queue s \<and> send_head s' = send_head s \<and> reinject_q s' = reinject_q s \<and> ss_meta s' = ss_meta s \<and>
    (case r of None \<Rightarrow> True | Some h \<Rightarrow> write_queue s \<noteq> [] \<and> h = hd (write_queue s) \<and> send_head s \<noteq> Some h \<and>
       \<not> carried_by s' h sk \<and> mptcp_is_available (ss_socks s sk) (seg s r) False)"
  using assms penalize_other [of sk _ s]
  by (auto simp: mptcp_rcv_buf_optimization_def Let_def seg_def split: if_splits list.splits)

text \<open>What a call of the scheduler changes outside its private data: path masks of segments, and the congestion window and threshold of subflows
  of the connection.\<close>

definition unsized :: "tcp_sock \<Rightarrow> tcp_sock" where
  "unsized tp = tp\<lparr>snd_cwnd := 0, snd_ssthresh := 0\<rparr>"

definition sched_keeps :: "sched_state \<Rightarrow> sched_state \<Rightarrow> bool" where
  "sched_keeps s s' \<longleftrightarrow> (\<forall>p. (ss_skbs s' p)\<lparr>path_mask := 0\<rparr> = (ss_skbs s p)\<lparr>path_mask := 0\<rparr>) \<and>
     (\<forall>p. p \<notin> set (ss_conns s) \<longrightarrow> ss_socks s' p = ss_socks s p) \<and>
     (\<forall>p. unsized (ss_socks s' p) = unsized (ss_socks s p)) \<and> ss_conns s' = ss_conns s"

lemma sched_keeps_refl [simp]: "sched_keeps s s"
  by (simp add: sched_keeps_def)

lemma sched_keeps_trans: "sched_keeps a b \<Longrightarrow> sched_keeps b c \<Longrightarrow> sched_keeps a c"
  by (simp add: sched_keeps_def)

lemma sched_keeps_clear: "sched_keeps s (clear_path_mask skb s)"
  by (simp add: sched_keeps_def clear_path_mask_def split: option.splits)

lemma sched_keeps_get: "get_available_subflow skb z s = (r, s') \<Longrightarrow> sched_keeps s s'"
  using get_available_state sched_keeps_clear by fastforce

lemma unsized_halve [simp]: "unsized (halve_cwnd tp) = unsized tp"
  by (simp add: unsized_def halve_cwnd_def)

lemma sched_keeps_penalize: "sched_keeps s (penalize sk h s)"
proof (cases "find (\<lambda>it. it \<noteq> sk \<and> carried_by s h it) (ss_conns s)")
  case (Some it)
  then have "it \<in> set (ss_conns s)" by (metis find_Some_iff nth_mem)
  then show ?thesis using Some by (auto simp: sched_keeps_def penalize_def)
qed (simp add: penalize_def)

lemma sched_keeps_rbuf: "mptcp_rcv_buf_optimization k sk penal s = (r, s') \<Longrightarrow> sched_keeps s s'"
  using sched_keeps_penalize by (auto simp: mptcp_rcv_buf_optimization_def Let_def split: if_splits list.splits)

lemma sched_keeps_peek: "peek_segment k s = (r, reinject, s') \<Longrightarrow> sched_keeps s s'"
  using sched_keeps_get sched_keeps_rbuf sched_keeps_trans
  by (fastforce simp: peek_segment_def split: if_splits list.splits prod.splits option.splits)

lemma sched_keeps_next:
  assumes "mptcp_next_segment k s = (r, s')"
  shows "sched_keeps s s'"
proof -
  obtain skb reinject s1 where peek: "peek_segment k s = (skb, reinject, s1)" by (cases "peek_segment k s")
  note 1 = sched_keeps_peek [OF peek]
  show ?thesis
  proof (cases skb)
    case None
    then show ?thesis using assms peek 1 by (simp add: mptcp_next_segment_def)
  next
    case (Some b)
    obtain sub s2 where sub: "get_available_subflow (Some b) False s1 = (sub, s2)" by fastforce
    note 2 = sched_keeps_trans [OF 1 sched_keeps_get [OF sub]]
    show ?thesis
    proof (cases sub)
      case None
      then show ?thesis using assms peek Some sub 2 by (simp add: mptcp_next_segment_def)
    next
      case (Some sk)
      obtain o3 s3 where opt: "mptcp_rcv_buf_optimization k sk True s2 = (o3, s3)" by fastforce
      note 3 = sched_keeps_trans [OF 2 sched_keeps_rbuf [OF opt]]
      have "s' = s2 \<or> s' = s3"
        using assms peek \<open>skb = Some b\<close> sub Some opt by (auto simp: mptcp_next_segment_def split: if_splits option.splits)
      then show ?thesis using 2 3 by blast
    qed
  qed
qed

lemma halve_cwnd_bounds:
  "0 < snd_cwnd tp \<Longrightarrow> 1 \<le> snd_cwnd (halve_cwnd tp) \<and> snd_cwnd (halve_cwnd tp) \<le> snd_cwnd tp"
  "snd_ssthresh (halve_cwnd tp) \<le> snd_ssthresh tp \<or> snd_ssthresh (halve_cwnd tp) = 2"
proof -
  have half: "unat (drop_bit (Suc 0) w) = unat w div 2" for w :: u32 by (simp add: drop_bit_eq_div unat_div)
  have le: "drop_bit (Suc 0) w \<le> w" for w :: u32 by (simp add: word_le_nat_alt half)
  show "0 < snd_cwnd tp \<Longrightarrow> 1 \<le> snd_cwnd (halve_cwnd tp) \<and> snd_cwnd (halve_cwnd tp) \<le> snd_cwnd tp"
    using le by (auto simp: halve_cwnd_def max_def word_le_nat_alt word_less_nat_alt)
  show "snd_ssthresh (halve_cwnd tp) \<le> snd_ssthresh tp \<or> snd_ssthresh (halve_cwnd tp) = 2"
    using le by (auto simp: halve_cwnd_def max_def)
qed

text \<open>The limit of a segment is not bounded by the window of the subflow, although the comment in the code
  says so: with a maximal length of two segments the window is never looked at.\<close>

lemma segment_limit_ignores_window:
  "segment_limit \<lparr>k_snd_wnd_test = \<lambda>_ _ _. True, k_cwnd_test = \<lambda>_ _. 10, k_usecs_to_jiffies = id\<rparr>
     (sample_sock\<lparr>tcp_wnd_end := 150, write_seq := 0, sk_gso_max_segs := 2\<rparr>) (sample_skb\<lparr>skb_len := 500\<rparr>) = Some 200"
  by (simp add: segment_limit_def sample_sock_def sample_skb_def)

section \<open>Properties\<close>

definition better ::
  "sched_state \<Rightarrow> skb_ptr option \<Rightarrow> (tcp_sock \<Rightarrow> bool) \<Rightarrow> bool \<Rightarrow> sk_ptr set" where
  "better s skb selector z = {p \<in> set (ss_conns s). usable_for s (seg s skb) selector z p \<and>
     unused s (seg s skb) p \<and> srtt_us (ss_socks s p) \<noteq> 0xffffffff}"

lemma selectors_better:
  assumes "p \<in> better s skb selector z"
  shows "\<exists>q \<in> better s skb selector z. get_subflow_from_selectors s (seg s skb) selector z = (Some q, True) \<and>
    (\<forall>p' \<in> better s skb selector z. srtt_us (ss_socks s q) \<le> srtt_us (ss_socks s p'))"
proof -
  let ?c = "candidates s (seg s skb) selector z (ss_conns s)"
  have p: "p \<in> set (ss_conns s)" "usable_for s (seg s skb) selector z p" "unused s (seg s skb) p"
    "srtt_us (ss_socks s p) \<noteq> 0xffffffff" using assms by (simp_all add: better_def)
  note c = candidates_unused [OF p(1,2,3)]
  then obtain q where q: "fastest s ?c = Some q" using fastest_ex [of p ?c s] p by auto
  note sp = fastest_spec [where s = s and xs = ?c, unfolded q, simplified]
  then have "q \<in> better s skb selector z" by (auto simp: better_def c)
  moreover have "\<forall>p' \<in> better s skb selector z. srtt_us (ss_socks s q) \<le> srtt_us (ss_socks s p')"
    using sp by (auto simp: better_def c)
  ultimately show ?thesis using q p by (auto simp: selectors_result Let_def)
qed

text \<open>C35. Selection by the default scheduler.  With more than one subflow, when some active subflow that
  did not carry the segment is available, the one with the smallest round-trip time of all such is
  chosen and the path mask is kept; a backup subflow is only chosen when there is none; and whatever
  is chosen is an available subflow of the connection.\<close>

theorem get_available_subflow_prefers:
  assumes "get_available_subflow skb z s = (r, s')" and "ss_cnt_subflows s \<noteq> 1"
    and "dfin_subflow mptcp_is_available skb z s = None"
  shows "(better s skb subflow_is_active z \<noteq> {} \<longrightarrow>
      (\<exists>sk \<in> better s skb subflow_is_active z. r = Some sk \<and> s' = s \<and>
        (\<forall>p \<in> better s skb subflow_is_active z. srtt_us (ss_socks s sk) \<le> srtt_us (ss_socks s p)))) \<and>
    (\<forall>sk. r = Some sk \<longrightarrow> sk \<in> set (ss_conns s) \<and> mptcp_is_available (ss_socks s sk) (seg s skb) z \<and>
      (subflow_is_backup (ss_socks s sk) \<longrightarrow> better s skb subflow_is_active z = {}))"
proof -
  have pref: "\<exists>sk \<in> better s skb subflow_is_active z. r = Some sk \<and> s' = s \<and>
      (\<forall>p \<in> better s skb subflow_is_active z. srtt_us (ss_socks s sk) \<le> srtt_us (ss_socks s p))"
    if ne: "better s skb subflow_is_active z \<noteq> {}"
  proof -
    obtain p where "p \<in> better s skb subflow_is_active z" using ne by blast
    from selectors_better [OF this] show ?thesis
      using assms by (auto simp: get_available_subflow_def)
  qed
  moreover have "sk \<in> set (ss_conns s) \<and> mptcp_is_available (ss_socks s sk) (seg s skb) z"
    if "r = Some sk" for sk using assms(1) that default.chosen [of skb z s sk s'] by simp
  moreover have "better s skb subflow_is_active z = {}"
    if "r = Some sk" "subflow_is_backup (ss_socks s sk)" for sk
    using pref that by (auto simp: better_def usable_for_def active_or_backup)
  ultimately show ?thesis by blast
qed

text \<open>No segment starves.  The default scheduler may return no subflow although an active one that
  carried the segment before is available; unless some subflow that did not carry it is worth
  waiting for, it then forgets who carried the segment, so that the next call succeeds.\<close>

lemma get_available_subflow_restarts:
  assumes "get_available_subflow (Some skb) z s = (None, s')" and "ss_cnt_subflows s \<noteq> 1"
    and "sk \<in> set (ss_conns s)" and "subflow_is_active (ss_socks s sk)"
    and "mptcp_is_available (ss_socks s sk) (seg s (Some skb)) z" and "srtt_us (ss_socks s sk) \<noteq> 0xffffffff"
    and "\<forall>p \<in> set (ss_conns s). \<not> awaited s (seg s (Some skb)) (\<lambda>_. True) z p"
  shows "s' = clear_path_mask (Some skb) s \<and> (\<exists>q s''. get_available_subflow (Some skb) z s' = (Some q, s''))"
proof -
  have nodfin: "dfin_subflow mptcp_is_available (Some skb) z s = None"
    using assms(1,2) by (auto simp: get_available_subflow_def split: option.splits)
  have noawait: "\<not> (\<exists>p \<in> set (ss_conns s). awaited s (seg s (Some skb)) sel z p)" for sel
    using assms(7) by (auto simp: awaited_def)
  obtain a f where a: "get_subflow_from_selectors s (seg s (Some skb)) subflow_is_active z = (a, f)" by fastforce
  obtain b g where b: "get_subflow_from_selectors s (seg s (Some skb)) subflow_is_backup z = (b, g)" by fastforce
  have "\<not> f \<or> a \<noteq> None" "b = None \<longrightarrow> \<not> g"
    using a b noawait [of subflow_is_active] noawait [of subflow_is_backup]
    by (auto simp: selectors_result Let_def split: if_splits)
  then have s': "s' = clear_path_mask (Some skb) s"
    using assms(1,2) nodfin a b by (auto simp: get_available_subflow_def split: if_splits)
  have "mptcp_is_available (ss_socks s sk) (seg s' (Some skb)) z"
    using assms(5) by (simp add: s' available_clear)
  then have "sk \<in> better s' (Some skb) subflow_is_active z"
    using assms(3,4,6) s'
    by (simp add: better_def usable_for_def unused_def mptcp_dont_reinject_skb_def seg_def clear_path_mask_def has_def)
  from selectors_better [OF this] have "\<exists>q s''. get_available_subflow (Some skb) z s' = (Some q, s'')"
    using assms(2) s' by (auto simp: get_available_subflow_def split: option.splits)
  with s' show ?thesis by blast
qed

text \<open>The value of the limit, written out.\<close>

lemma segment_limit_value:
  assumes "segment_limit k tp b = Some l"
    and segs: "segs = min (k_cwnd_test k tp b) (if sk_gso_max_segs tp = 0 then 1 else ucast (sk_gso_max_segs tp))"
  shows "l = (if skb_len b \<le> tcp_current_mss tp then 0
      else if tcp_current_mss tp * segs \<le> skb_len b then tcp_current_mss tp * segs
      else min (skb_len b) (tcp_wnd_end tp - write_seq tp)) \<and>
    (tcp_current_mss tp < skb_len b \<longrightarrow> segs \<noteq> 0)"
  using assms by (auto simp: segment_limit_def Let_def split: if_splits)

lemma peek_source:
  assumes "peek_segment k s = (Some skb, reinject, s1)"
  shows "(if \<not> ss_infinite_snd s \<and> \<not> ss_send_infinite s \<and> reinject_q s \<noteq> [] then reinject = 1 \<and> skb = hd (reinject_q s) \<and> s1 = s
     else if reinject = 0 then send_head s = Some skb \<and> s1 = s
     else reinject = -1 \<and> write_queue s \<noteq> [] \<and> skb = hd (write_queue s) \<and> send_head s = None \<and> ss_has_socket s \<and> ss_sock_nospace s)"
    and "write_queue s1 = write_queue s \<and> send_head s1 = send_head s"
  using assms get_available_state
  by (fastforce simp: peek_segment_def split: if_splits list.splits prod.splits option.splits dest!: rcv_buf_optimization_ok)+

lemma next_segment_valid:
  assumes res: "mptcp_next_segment k s = (Some ns, s')"
    and b: "b = ss_skbs s' (ns_skb ns)" and tp: "tp = ss_socks s' (ns_subsk ns)" and mss: "mss = tcp_current_mss tp"
    and segs: "segs = min (k_cwnd_test k tp b) (if sk_gso_max_segs tp = 0 then 1 else ucast (sk_gso_max_segs tp))"
  shows "ns_subsk ns \<in> set (ss_conns s') \<and> mptcp_is_available tp (Some b) False \<and>
    ns_limit ns = (if skb_len b \<le> mss then 0 else if mss * segs \<le> skb_len b then mss * segs
      else min (skb_len b) (tcp_wnd_end tp - write_seq tp)) \<and>
    (mss < skb_len b \<longrightarrow> segs \<noteq> 0) \<and>
    (if \<not> ss_infinite_snd s \<and> \<not> ss_send_infinite s \<and> reinject_q s \<noteq> [] then ns_reinject ns = 1 \<and> ns_skb ns = hd (reinject_q s)
     else if ns_reinject ns = 0 then send_head s = Some (ns_skb ns) \<and> k_snd_wnd_test k (ss_meta s') b mss
     else ns_reinject ns = -1 \<and> write_queue s \<noteq> [] \<and> ns_skb ns = hd (write_queue s) \<and> send_head s \<noteq> Some (ns_skb ns) \<and>
       (case send_head s of None \<Rightarrow> ss_has_socket s \<and> ss_sock_nospace s
        | Some h \<Rightarrow> \<not> k_snd_wnd_test k (ss_meta s') (ss_skbs s' h) mss))"
proof -
  obtain skb reinject s1 where peek: "peek_segment k s = (Some skb, reinject, s1)"
    using res by (auto simp: mptcp_next_segment_def split: prod.splits option.splits)
  obtain subsk s2 where sub: "get_available_subflow (Some skb) False s1 = (Some subsk, s2)"
    using res peek by (auto simp: mptcp_next_segment_def split: prod.splits option.splits)
  have s2: "s2 = s1 \<or> s2 = clear_path_mask (Some skb) s1" by (rule get_available_state [OF sub])
  have av: "subsk \<in> set (ss_conns s2)" "mptcp_is_available (ss_socks s2 subsk) (seg s2 (Some skb)) False"
    using get_available_chosen [OF sub] s2 by (auto simp: available_clear)
  note src = peek_source [OF peek]
  let ?retry = "reinject = 0 \<and> \<not> k_snd_wnd_test k (ss_meta s2) (ss_skbs s2 skb) (tcp_current_mss (ss_socks s2 subsk))"
  show ?thesis
  proof (cases ?retry)
    case False
    then obtain l where l: "segment_limit k (ss_socks s2 subsk) (ss_skbs s2 skb) = Some l" and s': "s' = s2"
      and ns: "ns = \<lparr>ns_skb = skb, ns_reinject = reinject, ns_subsk = subsk, ns_limit = l\<rparr>"
      using res peek sub by (auto simp: mptcp_next_segment_def split: option.splits)
    have "segment_limit k tp b = Some ns_l" if "ns_l = ns_limit ns" for ns_l using l that by (simp add: ns s' b tp)
    note lim = segment_limit_value [OF this [OF refl] segs, folded mss]
    have eqs: "b = ss_skbs s2 skb" "tp = ss_socks s2 subsk" "ns_reinject ns = reinject" "ns_skb ns = skb" by (simp_all add: ns b tp s')
    have "\<not> ?retry" by (rule False)
    then have w: "reinject = 0 \<longrightarrow> k_snd_wnd_test k (ss_meta s') b mss" by (simp add: eqs mss s')
    have "if \<not> ss_infinite_snd s \<and> \<not> ss_send_infinite s \<and> reinject_q s \<noteq> [] then ns_reinject ns = 1 \<and> ns_skb ns = hd (reinject_q s)
     else if ns_reinject ns = 0 then send_head s = Some (ns_skb ns) \<and> k_snd_wnd_test k (ss_meta s') b mss
     else ns_reinject ns = -1 \<and> write_queue s \<noteq> [] \<and> ns_skb ns = hd (write_queue s) \<and> send_head s \<noteq> Some (ns_skb ns) \<and>
       (case send_head s of None \<Rightarrow> ss_has_socket s \<and> ss_sock_nospace s
        | Some h \<Rightarrow> \<not> k_snd_wnd_test k (ss_meta s') (ss_skbs s' h) mss)"
      using src(1) w unfolding eqs(3,4) by (simp split: if_splits)
    moreover have "ns_subsk ns \<in> set (ss_conns s')" "mptcp_is_available tp (Some b) False"
      using av by (simp_all add: ns s' b tp seg_def)
    ultimately show ?thesis using lim by blast
  next
    case True
    obtain r s3 where opt: "mptcp_rcv_buf_optimization k subsk True s2 = (r, s3)" by fastforce
    then obtain h l where r: "r = Some h" "s' = s3"
      and l: "segment_limit k (ss_socks s3 subsk) (ss_skbs s3 h) = Some l"
      and ns: "ns = \<lparr>ns_skb = h, ns_reinject = -1, ns_subsk = subsk, ns_limit = l\<rparr>"
      using res peek sub True by (auto simp: mptcp_next_segment_def split: option.splits)
    have "segment_limit k tp b = Some ns_l" if "ns_l = ns_limit ns" for ns_l using l that by (simp add: ns r b tp)
    note lim = segment_limit_value [OF this [OF refl] segs, folded mss]
    have same: "write_queue s2 = write_queue s" "send_head s2 = send_head s" using src(2) s2 by auto
    note ok = rcv_buf_optimization_ok [OF opt]
    have st: "ss_skbs s3 = ss_skbs s2" "ss_socks s3 subsk = ss_socks s2 subsk" "ss_conns s3 = ss_conns s2" "ss_meta s3 = ss_meta s2"
      "write_queue s \<noteq> [] \<and> h = hd (write_queue s) \<and> send_head s \<noteq> Some h" "mptcp_is_available (ss_socks s2 subsk) (seg s2 (Some h)) False"
      using ok r(1) same by auto
    have eqs: "b = ss_skbs s2 h" "tp = ss_socks s2 subsk" "ns_reinject ns = -1" "ns_skb ns = h" by (simp_all add: ns b tp r st)
    have w: "\<not> k_snd_wnd_test k (ss_meta s') (ss_skbs s' skb) mss" using True by (simp add: eqs mss r st)
    have head: "send_head s = Some skb" "\<not> (\<not> ss_infinite_snd s \<and> \<not> ss_send_infinite s \<and> reinject_q s \<noteq> [])"
      using src(1) True by (simp_all split: if_splits)
    have "ns_subsk ns \<in> set (ss_conns s')" "mptcp_is_available tp (Some b) False"
      using av(1) st(6) by (simp_all add: ns r st eqs seg_def)
    then show ?thesis using lim w head st(5) unfolding if_not_P [OF head(2)] eqs(3,4) by simp
  qed
qed

text \<open>C36. The next segment.  What the default scheduler hands out is on a subflow that is available for it.  When the reinject
  queue has a segment and no infinite mapping is in use, it is the head of that queue.  Otherwise it is the
  send head of the connection, for which the send window of the connection has room, or it is the head of the write queue, sent before,
  when there is no new data and the writer is blocked or when the send window has no room for the send head.  The limit is 0
  for a segment that fits the segment size; for a longer one it is the segment size times the number of
  segments that the congestion window and the GSO limit allow, which is not zero, if that is not above the length, and otherwise the
  smaller one of the length and the window of the subflow.\<close>

theorem mptcp_next_segment_valid:
  assumes res: "mptcp_next_segment k s = (Some ns, s')"
    and b: "b = ss_skbs s' (ns_skb ns)" and tp: "tp = ss_socks s' (ns_subsk ns)" and mss: "mss = tcp_current_mss tp"
    and segs: "segs = min (k_cwnd_test k tp b) (if sk_gso_max_segs tp = 0 then 1 else ucast (sk_gso_max_segs tp))"
  shows "ns_subsk ns \<in> set (ss_conns s') \<and> mptcp_is_available tp (Some b) False \<and>
    ns_limit ns = (if skb_len b \<le> mss then 0 else if mss * segs \<le> skb_len b then mss * segs
      else min (skb_len b) (tcp_wnd_end tp - write_seq tp)) \<and>
    (mss < skb_len b \<longrightarrow> segs \<noteq> 0) \<and>
    (if \<not> ss_infinite_snd s \<and> \<not> ss_send_infinite s \<and> reinject_q s \<noteq> [] then ns_reinject ns = 1 \<and> ns_skb ns = hd (reinject_q s)
     else if ns_reinject ns = 0 then send_head s = Some (ns_skb ns) \<and> k_snd_wnd_test k (ss_meta s') b mss
     else ns_reinject ns = -1 \<and> write_queue s \<noteq> [] \<and> ns_skb ns = hd (write_queue s) \<and> send_head s \<noteq> Some (ns_skb ns) \<and>
       (case send_head s of None \<Rightarrow> ss_has_socket s \<and> ss_sock_nospace s
        | Some h \<Rightarrow> \<not> k_snd_wnd_test k (ss_meta s') (ss_skbs s' h) mss))"
  by (rule next_segment_valid [OF assms])

section \<open>Closed instances\<close>

text \<open>Two subflows with path indices 1 and 2; the second one is faster.\<close>

definition sample_sched :: sched_state where
  "sample_sched = \<lparr>ss_socks = (\<lambda>p. sample_sock\<lparr>path_index := of_nat p, srtt_us := (if p = 2 then 40 else 80)\<rparr>),
     ss_skbs = (\<lambda>_. sample_skb), ss_meta = sample_sock, ss_conns = [1, 2], ss_cnt_subflows = 2,
     ss_infinite_snd = False, ss_send_infinite = False, ss_dfin_path_index = 0, ss_rcv_shutdown = False,
     write_queue = [7], send_head = Some 7, reinject_q = [], ss_has_socket = True, ss_sock_nospace = False,
     ss_stream_wspace = 0, ss_stream_min_wspace = 0, ss_memory_free = True, ss_time_stamp = 5,
     last_rbuf_opti = (\<lambda>_. 0), rr_quota = (\<lambda>_. 0), rs_skb = (\<lambda>_. None), rs_skb_end_seq = (\<lambda>_. 0),
     next_subflow = None\<rparr>"

lemmas sample_sched_defs = sample_sched_def sample_sock_def sample_skb_def seg_def
  mptcp_is_available_def mptcp_is_def_unavailable_def mptcp_is_temp_unavailable_def mptcp_sk_can_send_def
  loss_blocked_def order_blocked_def cwnd_blocked_def before_def after_def

lemma sample_available:
  "mptcp_is_available (sample_sock\<lparr>path_index := i, srtt_us := t\<rparr>) (Some sample_skb) False"
  by (simp add: sample_sched_defs)

lemma sample_sched_conn:
  "ss_cnt_subflows sample_sched = 2" "\<not> ss_rcv_shutdown sample_sched" "\<not> ss_infinite_snd sample_sched"
  "\<not> ss_send_infinite sample_sched" "reinject_q sample_sched = []" "send_head sample_sched = Some 7"
  "tcp_current_mss (ss_socks sample_sched 2) = 100" "skb_len (ss_skbs sample_sched 7) = 100"
  by (simp_all add: sample_sched_def sample_sock_def sample_skb_def)

theorem get_available_subflow_prefers_witness:
  "fst (get_available_subflow (Some 7) False sample_sched) = Some 2"
proof -
  have 1: "ss_cnt_subflows sample_sched \<noteq> 1" "dfin_subflow mptcp_is_available (Some 7) False sample_sched = None"
    by (simp_all add: sample_sched_def dfin_subflow_def)
  have b: "better sample_sched (Some 7) subflow_is_active False = {1, 2}"
    using sample_available
    by (auto simp: better_def usable_for_def unused_def mptcp_dont_reinject_skb_def sample_sched_def seg_def
        subflow_is_active_def sample_sock_def sample_skb_def has_def)
  have "srtt_us (ss_socks sample_sched 2) < srtt_us (ss_socks sample_sched 1)" by (simp add: sample_sched_def)
  then show ?thesis
    using get_available_subflow_prefers [OF prod.collapse [symmetric] 1] b by auto
qed

text \<open>Both subflows carried the segment.\<close>

definition sample_carried :: sched_state where
  "sample_carried = sample_sched\<lparr>ss_skbs := (\<lambda>_. sample_skb\<lparr>path_mask := 3\<rparr>)\<rparr>"

lemma sample_carried_unused: "p \<in> {1, 2} \<Longrightarrow> \<not> unused sample_carried (seg sample_carried (Some 7)) p"
  by (auto simp: unused_def mptcp_dont_reinject_skb_def sample_carried_def sample_sched_def seg_def
      mptcp_pi_to_flag_def has_def)

lemma sample_carried_result:
  "get_available_subflow (Some 7) False sample_carried = (None, clear_path_mask (Some 7) sample_carried)"
proof -
  have nobackup: "\<not> usable_for sample_carried b subflow_is_backup False p" for b p
    by (simp add: usable_for_def subflow_is_backup_def sample_carried_def sample_sched_def sample_sock_def)
  have conns: "ss_conns sample_carried = [1, 2]" by (simp add: sample_carried_def sample_sched_def)
  have noaw: "\<not> awaited sample_carried (seg sample_carried (Some 7)) sel False p" if "p \<in> {1, 2}" for sel p
    using sample_carried_unused [OF that] by (simp add: awaited_def)
  have "get_subflow_from_selectors sample_carried (seg sample_carried (Some 7)) subflow_is_backup False = (None, False)"
    using nobackup noaw by (simp add: selectors_result conns candidates_def)
  moreover have "\<not> snd (get_subflow_from_selectors sample_carried (seg sample_carried (Some 7)) subflow_is_active False)"
    using noaw sample_carried_unused by (simp add: selectors_result conns Let_def)
  ultimately show ?thesis
    by (auto simp: get_available_subflow_def dfin_subflow_def sample_carried_def sample_sched_def split: prod.splits)
qed

lemma get_available_subflow_restarts_witness:
  "\<exists>q s''. get_available_subflow (Some 7) False (clear_path_mask (Some 7) sample_carried) = (Some q, s'')"
proof -
  have av: "mptcp_is_available (ss_socks sample_carried 1) (seg sample_carried (Some 7)) False"
    by (simp add: sample_carried_def sample_sched_defs)
  show ?thesis
    by (rule get_available_subflow_restarts [OF sample_carried_result, where sk = 1, THEN conjunct2])
       (use av sample_carried_unused in \<open>auto simp: awaited_def, auto simp: sample_carried_def sample_sched_def
         subflow_is_active_def sample_sock_def\<close>)
qed

theorem mptcp_next_segment_valid_witness:
  "\<exists>ns s'. mptcp_next_segment \<lparr>k_snd_wnd_test = \<lambda>_ _ _. True, k_cwnd_test = \<lambda>_ _. 10, k_usecs_to_jiffies = id\<rparr>
     sample_sched = (Some ns, s') \<and> ns_limit ns = 0 \<and> send_head sample_sched = Some (ns_skb ns)"
proof -
  let ?k = "\<lparr>k_snd_wnd_test = \<lambda>_ _ _. True, k_cwnd_test = \<lambda>_ _. 10, k_usecs_to_jiffies = id\<rparr>"
  let ?ns = "\<lparr>ns_skb = 7, ns_reinject = 0, ns_subsk = 2, ns_limit = 0\<rparr>"
  have "get_subflow_from_selectors sample_sched (seg sample_sched (Some 7)) subflow_is_active False = (Some 2, True)"
    using sample_available
    by (simp add: get_subflow_from_selectors_def select_step_def no_selection_def sample_sched_def seg_def Let_def
        mptcp_is_available_def mptcp_dont_reinject_skb_def subflow_is_active_def)
       (simp add: sample_sock_def sample_skb_def has_def)
  then have "get_available_subflow (Some 7) False sample_sched = (Some 2, sample_sched)"
    using sample_sched_conn by (simp add: get_available_subflow_def dfin_subflow_def)
  then have r: "mptcp_next_segment ?k sample_sched = (Some ?ns, sample_sched)"
    using sample_sched_conn by (simp add: mptcp_next_segment_def peek_segment_def segment_limit_def)
  show ?thesis using mptcp_next_segment_valid [OF r refl refl refl refl] r sample_sched_conn
    by (intro exI [of _ ?ns] exI [of _ sample_sched]) simp
qed

end
