(* ===== verification/Sched_RoundRobin.thy ===== *)
theory Sched_RoundRobin
  imports Sched_Default Red_Register
begin

text \<open>
  The round-robin scheduler (\<open>net/mptcp/mptcp_rr.c\<close>): every subflow sends a burst of \<open>num_segments\<close>
  segments before the next one has its turn.  Counters and quotas are bytes, as in the code.
\<close>

section \<open>Availability and choice of any subflow\<close>

definition mptcp_rr_is_available :: "tcp_sock \<Rightarrow> sk_buff option \<Rightarrow> bool \<Rightarrow> bool \<Rightarrow> bool" where
  "mptcp_rr_is_available tp skb zero_wnd_test cwnd_test =
     (if \<not> mptcp_sk_can_send tp then False
      else if pre_established tp then False
      else if pf tp then False
      else if loss_blocked tp then False
      else if order_blocked tp skb then False
      else if cwnd_test \<and> cwnd_blocked tp then False
      else \<not> (zero_wnd_test \<and> \<not> before (write_seq tp) (tcp_wnd_end tp)))"

abbreviation rr_avail :: "tcp_sock \<Rightarrow> sk_buff option \<Rightarrow> bool \<Rightarrow> bool" where
  "rr_avail tp skb z \<equiv> mptcp_rr_is_available tp skb z True"

definition mptcp_rr_dont_reinject_skb :: "tcp_sock \<Rightarrow> sk_buff option \<Rightarrow> bool" where
  "mptcp_rr_dont_reinject_skb tp skb = (case skb of None \<Rightarrow> False
     | Some b \<Rightarrow> has (mptcp_pi_to_flag (path_index tp)) (path_mask b))"

definition rr_pick ::
  "sched_state \<Rightarrow> sk_buff option \<Rightarrow> bool \<Rightarrow> sk_ptr \<Rightarrow> sk_ptr option \<times> sk_ptr option \<Rightarrow> sk_ptr option \<times> sk_ptr option" where
  "rr_pick s skb z sk c =
     (if \<not> rr_avail (ss_socks s sk) skb z then c
      else if mptcp_rr_dont_reinject_skb (ss_socks s sk) skb then (fst c, Some sk) else (Some sk, snd c))"

definition rr_get_available_subflow ::
  "skb_ptr option \<Rightarrow> bool \<Rightarrow> sched_state \<Rightarrow> sk_ptr option \<times> sched_state" where
  "rr_get_available_subflow skb zero_wnd_test s =
     (case dfin_subflow rr_avail skb zero_wnd_test s of
        Some sk \<Rightarrow> (Some sk, s)
      | None \<Rightarrow>
         (case fold (rr_pick s (seg s skb) zero_wnd_test) (ss_conns s) (None, None) of
            (Some best, _) \<Rightarrow> (Some best, s)
          | (None, Some backup) \<Rightarrow> (Some backup, clear_path_mask skb s)
          | (None, None) \<Rightarrow> (None, s)))"

section \<open>The next segment\<close>

definition rr_peek :: "sched_state \<Rightarrow> skb_ptr option \<times> int" where
  "rr_peek s =
     (if ss_infinite_snd s \<or> ss_send_infinite s then (send_head s, 0)
      else case reinject_q s of skb # _ \<Rightarrow> (Some skb, 1) | [] \<Rightarrow> (send_head s, 0))"

text \<open>The local variables of the search.\<close>

record rr_vars =
  v_split :: u8
  v_iter :: u8
  v_full_subs :: u8
  v_choose_sk :: "sk_ptr option"

text \<open>One pass over the subflows; the result is true for the jump to \<open>found\<close>.\<close>

fun rr_scan :: "u8 \<Rightarrow> bool \<Rightarrow> sched_state \<Rightarrow> sk_buff option \<Rightarrow> sk_ptr list \<Rightarrow> rr_vars \<Rightarrow> bool \<times> rr_vars" where
  "rr_scan num_segments cwnd_limited s skb [] v = (False, v)"
| "rr_scan num_segments cwnd_limited s skb (sk # sks) v =
     (if \<not> mptcp_rr_is_available (ss_socks s sk) skb False cwnd_limited
      then rr_scan num_segments cwnd_limited s skb sks v
      else
        let v1 = v\<lparr>v_iter := v_iter v + 1\<rparr>; q = rr_quota s sk
        in if 0 < q \<and> q < num_segments
           then (True, v1\<lparr>v_split := num_segments - q, v_choose_sk := Some sk\<rparr>)
           else
             let v2 = (if q = 0 then v1\<lparr>v_split := num_segments, v_choose_sk := Some sk\<rparr> else v1);
                 v3 = (if q \<ge> num_segments then v2\<lparr>v_full_subs := v_full_subs v2 + 1\<rparr> else v2)
             in rr_scan num_segments cwnd_limited s skb sks v3)"

definition rr_restart :: "bool \<Rightarrow> sk_buff option \<Rightarrow> sched_state \<Rightarrow> sched_state" where
  "rr_restart cwnd_limited skb s = s\<lparr>rr_quota := \<lambda>sk.
     if sk \<in> set (ss_conns s) \<and> mptcp_rr_is_available (ss_socks s sk) skb False cwnd_limited then 0
     else rr_quota s sk\<rparr>"

text \<open>The loop around \<open>retry\<close>, with fuel.\<close>

primrec rr_search ::
  "nat \<Rightarrow> u8 \<Rightarrow> bool \<Rightarrow> sk_buff option \<Rightarrow> sched_state \<Rightarrow> rr_vars \<Rightarrow> (rr_vars \<times> sched_state) option" where
  "rr_search 0 num_segments cwnd_limited skb s v = None"
| "rr_search (Suc fuel) num_segments cwnd_limited skb s v =
     (case rr_scan num_segments cwnd_limited s skb (ss_conns s) v of
        (found, v') \<Rightarrow>
          if \<not> found \<and> v_iter v' \<noteq> 0 \<and> v_iter v' = v_full_subs v'
          then rr_search fuel num_segments cwnd_limited skb (rr_restart cwnd_limited skb s) v'
          else Some (v', s))"

definition rr_start :: "u8 \<Rightarrow> rr_vars" where
  "rr_start num_segments = \<lparr>v_split = num_segments, v_iter = 0, v_full_subs = 0, v_choose_sk = None\<rparr>"

definition DIV_ROUND_UP :: "u32 \<Rightarrow> u32 \<Rightarrow> u32" where
  "DIV_ROUND_UP n d = (n + d - 1) div d"

text \<open>\<open>None\<close> is a loop longer than the fuel or a division by a segment size of zero.\<close>

definition mptcp_rr_next_segment ::
  "u8 \<Rightarrow> bool \<Rightarrow> sched_state \<Rightarrow> (next_seg option \<times> sched_state) option" where
  "mptcp_rr_next_segment num_segments cwnd_limited s =
     (case rr_peek s of
        (None, _) \<Rightarrow> Some (None, s)
      | (Some skb, reinject) \<Rightarrow>
         if reinject \<noteq> 0
         then (case rr_get_available_subflow (Some skb) False s of
                 (None, s') \<Rightarrow> Some (None, s')
               | (Some subsk, s') \<Rightarrow>
                   Some (Some \<lparr>ns_skb = skb, ns_reinject = reinject, ns_subsk = subsk, ns_limit = 0\<rparr>, s'))
         else (case rr_search 257 num_segments cwnd_limited (seg s (Some skb)) s (rr_start num_segments) of
                 None \<Rightarrow> None
               | Some (v, s') \<Rightarrow>
                  (case v_choose_sk v of
                     None \<Rightarrow> Some (None, s')
                   | Some sk \<Rightarrow>
                      let tp = ss_socks s' sk; mss_now = tcp_current_mss tp; len = skb_len (ss_skbs s' skb)
                      in if \<not> rr_avail tp (seg s' (Some skb)) False then Some (None, s')
                         else if len > mss_now \<and> mss_now = 0 then None
                         else Some (Some \<lparr>ns_skb = skb, ns_reinject = reinject, ns_subsk = sk,
                                          ns_limit = ucast (v_split v) * mss_now\<rparr>,
                                    s'\<lparr>rr_quota := (rr_quota s')(sk := rr_quota s' sk +
                                       (if len > mss_now then ucast (DIV_ROUND_UP len mss_now) else 1))\<rparr>))))"

section \<open>The contract\<close>

lemma rr_available_clear:
  "mptcp_rr_is_available tp (seg (clear_path_mask p s) q) z c = mptcp_rr_is_available tp (seg s q) z c"
  by (auto simp: mptcp_rr_is_available_def order_blocked_def seg_def clear_path_mask_def split: option.splits)

lemma rr_pick_fold:
  "fold (rr_pick s skb z) xs c =
     (let A = filter (\<lambda>sk. rr_avail (ss_socks s sk) skb z) xs;
          used = (\<lambda>sk. mptcp_rr_dont_reinject_skb (ss_socks s sk) skb);
          pick = (\<lambda>ys d. if ys = [] then d else Some (last ys))
      in (pick (filter (\<lambda>sk. \<not> used sk) A) (fst c), pick (filter used A) (snd c)))"
  by (induction xs rule: rev_induct) (auto simp: rr_pick_def Let_def)

lemma rr_get_cases:
  assumes "rr_get_available_subflow skb z s = (r, s')"
  shows "(s' = s \<or> s' = clear_path_mask skb s) \<and>
    (case r of None \<Rightarrow> \<forall>sk \<in> set (ss_conns s). \<not> rr_avail (ss_socks s sk) (seg s skb) z
     | Some sk \<Rightarrow> sk \<in> set (ss_conns s) \<and> rr_avail (ss_socks s sk) (seg s skb) z)"
proof (cases "dfin_subflow rr_avail skb z s")
  case (Some sk)
  then have "r = Some sk" "s' = s" using assms by (simp_all add: rr_get_available_subflow_def)
  then show ?thesis using dfin_subflow_SomeD [OF Some] by simp
next
  case None
  let ?av = "\<lambda>sk. sk \<in> set (ss_conns s) \<and> rr_avail (ss_socks s sk) (seg s skb) z"
  let ?A = "filter (\<lambda>sk. rr_avail (ss_socks s sk) (seg s skb) z) (ss_conns s)"
  let ?used = "\<lambda>sk. mptcp_rr_dont_reinject_skb (ss_socks s sk) (seg s skb)"
  define U V where "U = filter (\<lambda>sk. \<not> ?used sk) ?A" and "V = filter ?used ?A"
  have fold: "fold (rr_pick s (seg s skb) z) (ss_conns s) (None, None) =
      (if U = [] then None else Some (last U), if V = [] then None else Some (last V))"
    unfolding rr_pick_fold Let_def U_def V_def by simp
  have UV: "set U \<union> set V = {sk. ?av sk}" by (auto simp: U_def V_def)
  have "U \<noteq> [] \<Longrightarrow> ?av (last U)" "V \<noteq> [] \<Longrightarrow> ?av (last V)"
    using UV last_in_set [of U] last_in_set [of V] by blast+
  moreover have "U = [] \<Longrightarrow> V = [] \<Longrightarrow> \<forall>sk \<in> set (ss_conns s). \<not> rr_avail (ss_socks s sk) (seg s skb) z"
    using UV by auto
  ultimately show ?thesis using assms None fold
    by (auto simp: rr_get_available_subflow_def split: if_splits)
qed

lemma rr_avail_usable: "mptcp_rr_is_available tp b z c \<Longrightarrow> mptcp_sk_can_send tp \<and> \<not> pf tp"
  by (simp add: mptcp_rr_is_available_def split: if_splits)

interpretation roundrobin: complete_scheduler "\<lambda>skb z s. Some (rr_get_available_subflow skb z s)" rr_avail "\<lambda>_. True"
proof unfold_locales
  fix s skb z r s' assume "Some (rr_get_available_subflow skb z s) = Some (r, s')"
  then show "True \<and> public s' = public s" using rr_get_cases [of skb z s r s'] by auto
next
  fix s skb z s' sk assume "Some (rr_get_available_subflow skb z s) = Some (None, s')" "sk \<in> set (ss_conns s)"
  then show "\<not> rr_avail (ss_socks s sk) (seg s skb) z" using rr_get_cases [of skb z s None s'] by simp
next
  fix s skb z sk s' assume "Some (rr_get_available_subflow skb z s) = Some (Some sk, s')"
  then show "sk \<in> set (ss_conns s) \<and> rr_avail (ss_socks s sk) (seg s skb) z"
    using rr_get_cases [of skb z s "Some sk" s'] by simp
qed (auto dest: rr_avail_usable)

section \<open>The search\<close>

definition turn :: "bool \<Rightarrow> sk_buff option \<Rightarrow> sched_state \<Rightarrow> sk_ptr list" where
  "turn cl skb s = filter (\<lambda>sk. mptcp_rr_is_available (ss_socks s sk) skb False cl) (ss_conns s)"

definition partial_quota :: "u8 \<Rightarrow> sched_state \<Rightarrow> sk_ptr \<Rightarrow> bool" where
  "partial_quota n s sk \<longleftrightarrow> 0 < rr_quota s sk \<and> rr_quota s sk < n"

text \<open>A pass without a subflow in the middle of its burst: the counters, and the last unused subflow.\<close>

lemma rr_scan_none:
  assumes "\<forall>sk \<in> set (filter (\<lambda>sk. mptcp_rr_is_available (ss_socks s sk) skb False cl) xs). \<not> partial_quota n s sk"
  shows "rr_scan n cl s skb xs v =
    (let A = filter (\<lambda>sk. mptcp_rr_is_available (ss_socks s sk) skb False cl) xs;
         Z = filter (\<lambda>sk. rr_quota s sk = 0) A; F = filter (\<lambda>sk. rr_quota s sk \<ge> n) A
     in (False, v\<lparr>v_iter := v_iter v + of_nat (length A), v_full_subs := v_full_subs v + of_nat (length F),
           v_split := (if Z = [] then v_split v else n),
           v_choose_sk := (if Z = [] then v_choose_sk v else Some (last Z))\<rparr>))"
  using assms
proof (induction xs arbitrary: v)
  case (Cons x xs)
  show ?case
  proof (cases "mptcp_rr_is_available (ss_socks s x) skb False cl")
    case False
    then show ?thesis using Cons by (simp add: Let_def)
  next
    case True
    then have "\<not> partial_quota n s x" using Cons.prems by simp
    then show ?thesis using Cons True
      by (auto simp: Let_def partial_quota_def algebra_simps)
  qed
qed simp

text \<open>A pass with such a subflow stops at the first one.\<close>

lemma rr_scan_found:
  assumes "find (\<lambda>sk. mptcp_rr_is_available (ss_socks s sk) skb False cl \<and> partial_quota n s sk) xs = Some p"
  shows "\<exists>v'. rr_scan n cl s skb xs v = (True, v') \<and> v_choose_sk v' = Some p \<and> v_split v' = n - rr_quota s p"
  using assms
proof (induction xs arbitrary: v)
  case (Cons x xs)
  let ?av = "mptcp_rr_is_available (ss_socks s x) skb False cl"
  show ?case
  proof (cases "?av \<and> partial_quota n s x")
    case True
    then show ?thesis using Cons.prems by (simp add: Let_def partial_quota_def)
  next
    case False
    then have "\<exists>v3. rr_scan n cl s skb (x # xs) v = rr_scan n cl s skb xs v3"
      by (cases ?av) (simp_all only: rr_scan.simps partial_quota_def Let_def if_True if_False not_not simp_thms, blast+)
    then show ?thesis using Cons False by auto
  qed
qed simp

lemma find_turn:
  "find (\<lambda>sk. mptcp_rr_is_available (ss_socks s sk) skb False cl \<and> partial_quota n s sk) (ss_conns s) = None \<longleftrightarrow>
   (\<forall>sk \<in> set (turn cl skb s). \<not> partial_quota n s sk)"
  by (auto simp: find_None_iff turn_def)

lemma turn_restart [simp]: "turn cl skb (rr_restart cl skb s) = turn cl skb s"
  by (simp add: turn_def rr_restart_def)

lemma rr_restart_simps [simp]:
  "ss_conns (rr_restart cl skb s) = ss_conns s" "ss_socks (rr_restart cl skb s) = ss_socks s"
  "ss_skbs (rr_restart cl skb s) = ss_skbs s" "public (rr_restart cl skb s) = public s"
  "sk \<in> set (turn cl skb s) \<Longrightarrow> rr_quota (rr_restart cl skb s) sk = 0"
  by (simp_all add: rr_restart_def turn_def public_def)

lemma of_nat_u8_eq: "a < 256 \<Longrightarrow> b < 256 \<Longrightarrow> (of_nat a :: u8) = of_nat b \<longleftrightarrow> a = b"
  by (simp add: word_of_nat_eq_iff take_bit_nat_eq_self)

text \<open>With a burst of at least one segment: either the choice is made in the first pass, or every
  available subflow has used up its burst and the second pass takes the last of them.\<close>

lemma rr_search_cases:
  assumes n: "0 < n" and few: "length (ss_conns s) < 256"
  shows "\<exists>v' s'. rr_search (Suc (Suc f)) n cl skb s (rr_start n) = Some (v', s') \<and>
    (case v_choose_sk v' of
       None \<Rightarrow> turn cl skb s = [] \<and> s' = s
     | Some sk \<Rightarrow> sk \<in> set (turn cl skb s) \<and> rr_quota s' sk < n \<and> v_split v' = n - rr_quota s' sk \<and>
         (s' = s \<or> s' = rr_restart cl skb s \<and> (\<forall>p \<in> set (turn cl skb s). rr_quota s p \<ge> n)))"
proof (cases "find (\<lambda>sk. mptcp_rr_is_available (ss_socks s sk) skb False cl \<and> partial_quota n s sk) (ss_conns s)")
  case (Some p)
  then have p: "p \<in> set (turn cl skb s)" "partial_quota n s p" by (auto simp: find_Some_iff turn_def)
  obtain v' where "rr_scan n cl s skb (ss_conns s) (rr_start n) = (True, v')" "v_choose_sk v' = Some p"
    "v_split v' = n - rr_quota s p" using rr_scan_found [OF Some] by blast
  then show ?thesis using p by (simp add: partial_quota_def)
next
  case None
  let ?A = "turn cl skb s"
  let ?Z = "filter (\<lambda>sk. rr_quota s sk = 0) ?A" and ?F = "filter (\<lambda>sk. rr_quota s sk \<ge> n) ?A"
  have none: "\<forall>sk \<in> set ?A. \<not> partial_quota n s sk" using None find_turn by blast
  note scan = rr_scan_none [OF none [unfolded turn_def], of "rr_start n", folded turn_def, unfolded Let_def]
  have len: "length ?A < 256" using few by (auto simp: turn_def intro: le_less_trans [OF length_filter_le])
  then have lenF: "length ?F < 256" by (rule le_less_trans [OF length_filter_le])
  have eq: "(of_nat (length ?A) :: u8) = of_nat (length ?F) \<longleftrightarrow> ?F = ?A"
    using of_nat_u8_eq [OF len lenF] by (metis filter_id_conv length_filter_less nat_neq_iff)
  have zero: "(of_nat (length ?A) :: u8) = 0 \<longleftrightarrow> ?A = []" using of_nat_u8_eq [OF len, of 0] by simp
  show ?thesis
  proof (cases "?A \<noteq> [] \<and> ?F = ?A")
    case False
    have "\<exists>v'. rr_search (Suc (Suc f)) n cl skb s (rr_start n) = Some (v', s) \<and>
      v_split v' = n \<and> v_choose_sk v' = (if ?Z = [] then None else Some (last ?Z))"
      using scan False eq zero by (auto simp: rr_start_def)
    moreover have "?Z = [] \<Longrightarrow> ?A = []"
    proof -
      assume "?Z = []"
      then have "\<forall>sk \<in> set ?A. rr_quota s sk \<ge> n"
        using none by (auto simp: partial_quota_def filter_empty_conv word_neq_0_conv not_less)
      then have "?F = ?A" by simp
      then show "?A = []" using False by blast
    qed
    moreover have "?Z \<noteq> [] \<Longrightarrow> last ?Z \<in> set ?A \<and> rr_quota s (last ?Z) = 0"
      using last_in_set [of ?Z] by auto
    ultimately show ?thesis using n by auto
  next
    case True
    let ?s = "rr_restart cl skb s"
    have full: "\<forall>p \<in> set ?A. rr_quota s p \<ge> n" using True by (metis filter_id_conv)
    have zero': "\<forall>sk \<in> set ?A. rr_quota ?s sk = 0" by simp
    then have Z': "filter (\<lambda>sk. rr_quota ?s sk = 0) ?A = ?A" and F': "filter (\<lambda>sk. n \<le> rr_quota ?s sk) ?A = []"
      using n by (auto simp: filter_empty_conv not_le)
    obtain v1 where v1: "rr_scan n cl s skb (ss_conns s) (rr_start n) = (False, v1)"
      "v_iter v1 = of_nat (length ?A)" "v_full_subs v1 = of_nat (length ?A)"
      using scan True by (simp add: rr_start_def)
    have none': "\<forall>sk \<in> set (turn cl skb ?s). \<not> partial_quota n ?s sk" using zero' by (simp add: partial_quota_def)
    note scan' = rr_scan_none [OF none' [unfolded turn_def], of v1, folded turn_def, unfolded Let_def turn_restart Z' F']
    obtain v2 where v2: "rr_scan n cl ?s skb (ss_conns ?s) v1 = (False, v2)"
      "v_iter v2 = of_nat (length ?A) + of_nat (length ?A)" "v_full_subs v2 = of_nat (length ?A)"
      "v_split v2 = n" "v_choose_sk v2 = Some (last ?A)"
      using scan' v1(2,3) True by fastforce
    have "rr_search (Suc (Suc f)) n cl skb s (rr_start n) = Some (v2, ?s)"
      using v1 v2 True zero by simp
    then show ?thesis using v2 True full n last_in_set [of ?A] by auto
  qed
qed

lemma nat_257: "(257 :: nat) = Suc (Suc 255)"
  by simp

section \<open>Properties\<close>

text \<open>The search for the next burst always ends: with a burst length of zero, which makes every
  subflow count as exhausted, only the wrap-around of the byte counter after at most 256 passes ends
  it; the fuel of 257 passes is never used up.\<close>

lemma rr_search_terminates:
  assumes "length (ss_conns s) < 256"
  shows "rr_search 257 num_segments cl skb s (rr_start num_segments) \<noteq> None"
proof (cases "num_segments = 0")
  case False
  then show ?thesis
    using rr_search_cases [OF _ assms, of num_segments 255 cl skb, folded nat_257] by (auto simp: word_neq_0_conv)
next
  case True
  let ?A = "turn cl skb s" and ?f = "\<lambda>s. filter (\<lambda>sk. 0 \<le> rr_quota s sk)"
  have loop: "rr_search f 0 cl skb u v \<noteq> None"
    if "turn cl skb u = ?A" "v_iter v = of_nat (j * length ?A)" "v_full_subs v = v_iter v" "257 \<le> f + j" "j \<le> 255"
    for f j u v using that
  proof (induction f arbitrary: j u v)
    case (Suc f)
    have none: "\<forall>sk \<in> set (turn cl skb u). \<not> partial_quota 0 u sk" by (simp add: partial_quota_def)
    obtain v' where v': "rr_scan 0 cl u skb (ss_conns u) v = (False, v')"
      "v_iter v' = of_nat (Suc j * length ?A)" "v_full_subs v' = v_iter v'"
      using rr_scan_none [OF none [unfolded turn_def], of v, folded turn_def] Suc.prems
      by (fastforce simp: Let_def algebra_simps)
    show ?case
    proof (cases "v_iter v' = 0")
      case True
      then show ?thesis using v' by simp
    next
      case False
      have "(of_nat (256 * length ?A) :: u8) = 0"
        by (rule word_of_nat_eq_0_iff [THEN iffD2]) simp
      then have "Suc j \<noteq> 256" using v'(2) False by metis
      then have "rr_search f 0 cl skb (rr_restart cl skb u) v' \<noteq> None"
        using Suc.IH [of "rr_restart cl skb u" v' "Suc j"] Suc.prems v' by simp
      then show ?thesis using v' by simp
    qed
  qed simp
  show ?thesis using loop [of s "rr_start 0" 0 257] True by (simp add: rr_start_def)
qed

text \<open>Fairness of round robin.  The next segment goes to a subflow that has not used up its burst;
  when one has, it is only chosen after the quotas of all available subflows were reset, and that
  happens only when all of them had used up theirs.  The limit is what is left of the burst, between
  one segment and \<open>num_segments\<close>, and the quota grows by the number of segments sent.\<close>

lemma mptcp_rr_next_segment_fair:
  assumes n: "0 < num_segments" and few: "length (ss_conns s) < 256" and noreinj: "reinject_q s = []"
    and res: "mptcp_rr_next_segment num_segments cl s = Some (Some ns, s')"
  defines "A \<equiv> turn cl (seg s (Some (ns_skb ns))) s"
  shows "ns_subsk ns \<in> set A \<and> send_head s = Some (ns_skb ns) \<and>
    (\<exists>u. (u = s \<or> u = rr_restart cl (seg s (Some (ns_skb ns))) s \<and> (\<forall>p \<in> set A. num_segments \<le> rr_quota s p)) \<and>
       rr_quota u (ns_subsk ns) < num_segments \<and>
       ns_limit ns = ucast (num_segments - rr_quota u (ns_subsk ns)) * tcp_current_mss (ss_socks s (ns_subsk ns)) \<and>
       (\<forall>p. p \<noteq> ns_subsk ns \<longrightarrow> rr_quota s' p = rr_quota u p))"
proof -
  have "rr_peek s = (send_head s, 0)" using noreinj by (simp add: rr_peek_def)
  then obtain skb where head: "send_head s = Some skb" and peek: "rr_peek s = (Some skb, 0)"
    using res by (cases "send_head s") (auto simp: mptcp_rr_next_segment_def)
  obtain v u where su: "rr_search 257 num_segments cl (seg s (Some skb)) s (rr_start num_segments) = Some (v, u)"
    using res peek by (auto simp: mptcp_rr_next_segment_def split: option.splits)
  have c: "case v_choose_sk v of None \<Rightarrow> turn cl (seg s (Some skb)) s = [] \<and> u = s
     | Some sk \<Rightarrow> sk \<in> set (turn cl (seg s (Some skb)) s) \<and> rr_quota u sk < num_segments \<and>
         v_split v = num_segments - rr_quota u sk \<and> (u = s \<or> u = rr_restart cl (seg s (Some skb)) s \<and>
         (\<forall>p \<in> set (turn cl (seg s (Some skb)) s). rr_quota s p \<ge> num_segments))"
    using rr_search_cases [OF n few, of 255 cl "seg s (Some skb)", folded nat_257] su by simp
  obtain sk where sk: "v_choose_sk v = Some sk" and ns: "ns_skb ns = skb" "ns_subsk ns = sk"
    "ns_limit ns = ucast (v_split v) * tcp_current_mss (ss_socks u sk)"
    "\<forall>p. p \<noteq> sk \<longrightarrow> rr_quota s' p = rr_quota u p"
    using res peek su by (auto simp: mptcp_rr_next_segment_def Let_def split: option.splits if_splits)
  have "ss_socks u = ss_socks s" using c sk by auto
  then show ?thesis using c sk ns head by (auto simp: A_def)
qed

text \<open>The availability test that the rMPTCP scheduler copied from the round-robin scheduler is the
  same test: it returns zero exactly when the original returns true.\<close>

lemma rmptcp_is_available_equiv:
  "rmptcp_is_available tp skb zero_wnd_test cwnd_test = 0 \<longleftrightarrow>
     mptcp_rr_is_available tp skb zero_wnd_test cwnd_test"
  by (auto simp: rmptcp_is_available_def mptcp_rr_is_available_def loss_blocked_def order_blocked_def
      cwnd_blocked_def not_le not_less)

section \<open>Closed instances\<close>

lemma rr_search_terminates_witness:
  "rr_search 257 0 True (Some sample_skb) sample_sched (rr_start 0) \<noteq> None"
  by (rule rr_search_terminates) (simp add: sample_sched_def)

lemma mptcp_rr_next_segment_fair_witness:
  "\<exists>ns s'. mptcp_rr_next_segment 1 True sample_sched = Some (Some ns, s') \<and> ns_limit ns = 100"
proof -
  have av: "rr_avail (ss_socks sample_sched p) (Some sample_skb) False" for p
    by (simp add: mptcp_rr_is_available_def sample_sched_defs)
  have s: "seg sample_sched (Some 7) = Some sample_skb" "ss_conns sample_sched = [1, 2]" "rr_quota sample_sched = (\<lambda>_. 0)"
    "tcp_current_mss (ss_socks sample_sched p) = 100" for p
    by (simp_all add: sample_sched_def seg_def sample_sock_def)
  have p: "rr_peek sample_sched = (Some 7, 0)" "ss_skbs sample_sched 7 = sample_skb" "skb_len sample_skb = 100"
    by (simp_all add: rr_peek_def sample_sched_def sample_skb_def)
  have "set (turn True (Some sample_skb) sample_sched) = {1, 2}" using av s by (simp add: turn_def)
  then obtain v sk where "rr_search 257 1 True (Some sample_skb) sample_sched (rr_start 1) = Some (v, sample_sched)"
    "v_choose_sk v = Some sk"
    using rr_search_cases [of 1 sample_sched 255 True "Some sample_skb", folded nat_257] s
    by (auto split: option.splits)
  then have "\<exists>ns s'. mptcp_rr_next_segment 1 True sample_sched = Some (Some ns, s')"
    using av s p by (simp add: mptcp_rr_next_segment_def Let_def)
  then obtain ns s' where r: "mptcp_rr_next_segment 1 True sample_sched = Some (Some ns, s')" by blast
  have "ns_limit ns = 100"
    using mptcp_rr_next_segment_fair [OF _ _ _ r] s(2,3,4) by (auto simp: sample_sched_def rr_restart_def)
  with r show ?thesis by blast
qed

end
