(* ===== verification/Sched_Redundant.thy ===== *)
theory Sched_Redundant
  imports Sched_Default
begin

text \<open>
  The redundant scheduler (\<open>net/mptcp/mptcp_redundant.c\<close>): every subflow walks through the write queue
  of the connection on its own, so that every segment is sent on every subflow, and the subflows take
  turns.  Its loops run around the list of subflows until they are back at the first one; they
  follow raw pointers, so that a pointer to a subflow or segment that is gone is a fault.
\<close>

section \<open>Loops around the list of subflows\<close>

text \<open>\<open>tp->mptcp->next\<close>, and the next element of a queue.\<close>

fun succ_in :: "'a list \<Rightarrow> 'a \<Rightarrow> 'a option" where
  "succ_in (x # y # ys) p = (if x = p then Some y else succ_in (y # ys) p)"
| "succ_in xs p = None"

definition next_or_first :: "sk_ptr list \<Rightarrow> sk_ptr \<Rightarrow> sk_ptr" where
  "next_or_first conns tp = (case succ_in conns tp of None \<Rightarrow> hd conns | Some q \<Rightarrow> q)"

text \<open>\<open>do { if (visit) return ...; tp = next or first } while (tp != first_tp)\<close>, with fuel.\<close>

primrec ring ::
  "nat \<Rightarrow> (sk_ptr \<Rightarrow> sched_state \<Rightarrow> ('r option \<times> sched_state) option) \<Rightarrow> sk_ptr \<Rightarrow> sk_ptr \<Rightarrow> sched_state \<Rightarrow>
    ('r option \<times> sched_state) option" where
  "ring 0 visit first tp s = None"
| "ring (Suc fuel) visit first tp s =
     (if tp \<notin> set (ss_conns s) then None
      else case visit tp s of
        None \<Rightarrow> None
      | Some (Some r, s') \<Rightarrow> Some (Some r, s')
      | Some (None, s') \<Rightarrow>
          if next_or_first (ss_conns s) tp = first then Some (None, s')
          else ring fuel visit first (next_or_first (ss_conns s) tp) s')"

definition first_subflow :: "sched_state \<Rightarrow> sk_ptr" where
  "first_subflow s = (case next_subflow s of Some p \<Rightarrow> p | None \<Rightarrow> hd (ss_conns s))"

definition around ::
  "(sk_ptr \<Rightarrow> sched_state \<Rightarrow> ('r option \<times> sched_state) option) \<Rightarrow> sched_state \<Rightarrow> ('r option \<times> sched_state) option" where
  "around visit s = (if ss_conns s = [] then None
     else ring (length (ss_conns s)) visit (first_subflow s) (first_subflow s) s)"

section \<open>Operations\<close>

definition redsched_get_active_valid_sks :: "sched_state \<Rightarrow> bool" where
  "redsched_get_active_valid_sks s =
     (length (filter (\<lambda>sk. subflow_is_active (ss_socks s sk) \<and> \<not> mptcp_is_def_unavailable (ss_socks s sk)) (ss_conns s)) \<noteq> 0)"

definition redsched_use_subflow :: "int \<Rightarrow> sk_ptr \<Rightarrow> skb_ptr option \<Rightarrow> sched_state \<Rightarrow> bool" where
  "redsched_use_subflow active_valid_sks sk skb s =
     (let tp = ss_socks s sk in
      case skb of None \<Rightarrow> False
      | Some b \<Rightarrow>
         if \<not> mptcp_is_available tp (seg s skb) False then False
         else if path_mask (ss_skbs s b) \<noteq> 0 then subflow_is_active tp
         else let n = (if active_valid_sks = -1 then of_bool (redsched_get_active_valid_sks s) else active_valid_sks)
              in \<not> (subflow_is_backup tp \<and> n > (0::int)))"

definition redundant_visit :: "skb_ptr option \<Rightarrow> bool \<Rightarrow> sk_ptr \<Rightarrow> sched_state \<Rightarrow> (sk_ptr option \<times> sched_state) option" where
  "redundant_visit skb z tp s =
     Some (if mptcp_is_available (ss_socks s tp) (seg s skb) z
           then (Some tp, s\<lparr>next_subflow := succ_in (ss_conns s) tp\<rparr>) else (None, s))"

definition redundant_get_subflow ::
  "skb_ptr option \<Rightarrow> bool \<Rightarrow> sched_state \<Rightarrow> (sk_ptr option \<times> sched_state) option" where
  "redundant_get_subflow skb z s =
     (case dfin_subflow mptcp_is_available skb z s of
        Some sk \<Rightarrow> Some (Some sk, s)
      | None \<Rightarrow> around (redundant_visit skb z) s)"

definition redsched_correct_skb_pointers :: "sk_ptr \<Rightarrow> sched_state \<Rightarrow> sched_state" where
  "redsched_correct_skb_pointers sk s =
     (if rs_skb s sk \<noteq> None \<and> \<not> after (rs_skb_end_seq s sk) (snd_una (ss_meta s))
      then s\<lparr>rs_skb := (rs_skb s)(sk := None)\<rparr> else s)"

definition redundant_next_skb_from_queue :: "skb_ptr list \<Rightarrow> skb_ptr option \<Rightarrow> skb_ptr option" where
  "redundant_next_skb_from_queue queue previous =
     (if queue = [] then None
      else case previous of None \<Rightarrow> Some (hd queue)
      | Some p \<Rightarrow> if last queue = p then None else succ_in queue p)"

text \<open>One round of the loop; the first case is the use of a pointer to a segment that is gone.\<close>

definition redundant_try ::
  "int \<Rightarrow> sk_ptr \<Rightarrow> sched_state \<Rightarrow> ((skb_ptr \<times> sk_ptr) option \<times> sched_state) option" where
  "redundant_try active_valid_sks tp s =
     (let s1 = redsched_correct_skb_pointers tp s in
      if write_queue s1 \<noteq> [] \<and> (case rs_skb s1 tp of None \<Rightarrow> False | Some p \<Rightarrow> p \<notin> set (write_queue s1)) then None
      else let skb = redundant_next_skb_from_queue (write_queue s1) (rs_skb s1 tp) in
        Some (if redsched_use_subflow active_valid_sks tp skb s1
              then (Some (the skb, tp),
                    s1\<lparr>rs_skb := (rs_skb s1)(tp := skb),
                       rs_skb_end_seq := (rs_skb_end_seq s1)(tp := skb_end_seq (ss_skbs s1 (the skb))),
                       next_subflow := succ_in (ss_conns s1) tp\<rparr>)
              else (None, s1)))"

text \<open>The segment, the value of \<open>reinject\<close> and the subflow; the limit of the segment is never written.\<close>

definition redundant_next_segment :: "sched_state \<Rightarrow> ((skb_ptr \<times> int \<times> sk_ptr) option \<times> sched_state) option" where
  "redundant_next_segment s =
     (if reinject_q s = [] \<and> write_queue s = [] then Some (None, s)
      else case reinject_q s of
        skb # _ \<Rightarrow>
          (case get_available_subflow (Some skb) False s of
             (None, s') \<Rightarrow> Some (None, s') | (Some subsk, s') \<Rightarrow> Some (Some (skb, 1, subsk), s'))
      | [] \<Rightarrow>
          (case around (redundant_try (of_bool (redsched_get_active_valid_sks s))) s of
             None \<Rightarrow> None
           | Some (None, s') \<Rightarrow> Some (None, s')
           | Some (Some (skb, sk), s') \<Rightarrow> Some (Some (skb, 0, sk), s')))"

definition redundant_release :: "sk_ptr \<Rightarrow> sched_state \<Rightarrow> sched_state" where
  "redundant_release sk s =
     (if next_subflow s = Some sk then s\<lparr>next_subflow := succ_in (ss_conns s) sk\<rparr> else s)"

section \<open>The ring visits every subflow once\<close>

lemma succ_in_nth:
  "distinct xs \<Longrightarrow> i < length xs \<Longrightarrow> succ_in xs (xs ! i) = (if Suc i < length xs then Some (xs ! Suc i) else None)"
proof (induction xs "xs ! i" arbitrary: i rule: succ_in.induct)
  case (1 x y ys)
  show ?case
  proof (cases i)
    case (Suc j)
    then have "x \<noteq> (x # y # ys) ! i" using "1.prems" by (auto simp: nth_Cons')
    then show ?thesis using 1 Suc by auto
  qed simp
qed auto

lemma next_or_first_nth:
  assumes "distinct xs" "i < length xs"
  shows "next_or_first xs (xs ! i) = xs ! (Suc i mod length xs)"
  using assms succ_in_nth [OF assms] by (cases "Suc i = length xs"; cases xs) (auto simp: next_or_first_def hd_conv_nth)

lemma succ_in_mem: "succ_in xs p = Some q \<Longrightarrow> q \<in> set xs"
  by (induction xs p rule: succ_in.induct) (auto split: if_splits)

primrec visit_all ::
  "(sk_ptr \<Rightarrow> sched_state \<Rightarrow> ('r option \<times> sched_state) option) \<Rightarrow> sk_ptr list \<Rightarrow> sched_state \<Rightarrow>
    ('r option \<times> sched_state) option" where
  "visit_all visit [] s = Some (None, s)"
| "visit_all visit (x # xs) s = (case visit x s of None \<Rightarrow> None
     | Some (Some r, s') \<Rightarrow> Some (Some r, s') | Some (None, s') \<Rightarrow> visit_all visit xs s')"

lemma ring_from:
  assumes dist: "distinct xs" and f: "f < length xs"
    and same: "\<And>p t t' r. visit p t = Some (r, t') \<Longrightarrow> ss_conns t' = ss_conns t"
  shows "k < length xs \<Longrightarrow> ss_conns s = xs \<Longrightarrow>
    ring (length xs - k) visit (xs ! f) (xs ! ((f + k) mod length xs)) s =
    visit_all visit (map (\<lambda>j. xs ! ((f + j) mod length xs)) [k..<length xs]) s"
proof (induction "length xs - k" arbitrary: k s)
  case (Suc m)
  let ?n = "length xs"
  let ?p = "xs ! ((f + k) mod ?n)"
  have n: "?n - k = Suc (?n - Suc k)" using Suc.prems by simp
  have pos: "0 < ?n" using f by (rule le_less_trans [OF le0])
  then have idx: "(f + k) mod ?n < ?n" by simp
  have nxt: "next_or_first xs ?p = xs ! ((f + Suc k) mod ?n)"
    using next_or_first_nth [OF dist idx] by (simp add: mod_Suc_eq)
  have wrap: "xs ! ((f + Suc k) mod ?n) = xs ! f \<longleftrightarrow> Suc k = ?n"
  proof -
    have lt: "(f + Suc k) mod ?n < ?n" using pos by simp
    have "(f + Suc k) mod ?n = f \<longleftrightarrow> Suc k = ?n"
    proof (cases "f + Suc k < ?n")
      case False
      then have "(f + Suc k) mod ?n = f + Suc k - ?n" using f Suc.prems(1) by (simp add: le_mod_geq mod_if)
      then show ?thesis using False Suc.prems(1) by auto
    qed simp
    then show ?thesis using nth_eq_iff_index_eq [OF dist lt f] by simp
  qed
  have upt: "[k..<?n] = k # [Suc k..<?n]" using Suc.prems by (simp add: upt_rec)
  have mem: "?p \<in> set (ss_conns s)" using idx Suc.prems(2) by simp
  show ?case
  proof (cases "visit ?p s")
    case None
    then show ?thesis using mem by (simp add: n upt)
  next
    case (Some a)
    then obtain r s' where a: "visit ?p s = Some (r, s')" by (cases a) auto
    have c: "ss_conns s' = xs" using same [OF a] Suc.prems(2) by simp
    show ?thesis
    proof (cases r)
      case None
      show ?thesis
      proof (cases "Suc k = ?n")
        case True
        then show ?thesis using a None mem nxt wrap Suc.prems(2) by (simp add: n upt)
      next
        case False
        then have "Suc k < ?n" "m = ?n - Suc k" using Suc.prems(1) Suc.hyps(2) by simp_all
        from Suc.hyps(1) [OF this(2,1) c] show ?thesis using a None mem nxt wrap False Suc.prems(2)
          by (simp add: n upt)
      qed
    qed (use a mem in \<open>simp add: n upt\<close>)
  qed
qed simp

lemma around_visits:
  assumes "distinct (ss_conns s)" and "ss_conns s \<noteq> []" and "\<And>p. next_subflow s = Some p \<Longrightarrow> p \<in> set (ss_conns s)"
    and "\<And>p t t' r. visit p t = Some (r, t') \<Longrightarrow> ss_conns t' = ss_conns t"
  obtains f where "f < length (ss_conns s)" "ss_conns s ! f = first_subflow s"
    "around visit s = visit_all visit (rotate f (ss_conns s)) s"
proof -
  let ?xs = "ss_conns s"
  have "first_subflow s \<in> set ?xs" using assms(2,3) by (auto simp: first_subflow_def split: option.splits)
  then obtain f where f: "f < length ?xs" "?xs ! f = first_subflow s" by (metis in_set_conv_nth)
  have "rotate f ?xs = map (\<lambda>j. ?xs ! ((f + j) mod length ?xs)) [0..<length ?xs]"
    by (rule nth_equalityI) (simp_all add: nth_rotate)
  then have "around visit s = visit_all visit (rotate f ?xs) s"
    using ring_from [OF assms(1) f(1) assms(4), where k = 0 and s = s] assms(2) f by (simp add: around_def)
  with f show ?thesis by (rule that)
qed

section \<open>The contract\<close>

text \<open>No pointer to a subflow or segment that is gone.\<close>

definition ring_ok :: "sched_state \<Rightarrow> bool" where
  "ring_ok s \<longleftrightarrow> ss_conns s \<noteq> [] \<and> distinct (ss_conns s) \<and>
     (\<forall>p. next_subflow s = Some p \<longrightarrow> p \<in> set (ss_conns s))"

definition position :: "sched_state \<Rightarrow> sk_ptr \<Rightarrow> skb_ptr option" where
  "position s sk = rs_skb (redsched_correct_skb_pointers sk s) sk"

definition queue_ok :: "sched_state \<Rightarrow> bool" where
  "queue_ok s \<longleftrightarrow> distinct (write_queue s) \<and>
     (\<forall>sk \<in> set (ss_conns s). \<forall>p. position s sk = Some p \<longrightarrow> p \<in> set (write_queue s))"

lemma around_ok:
  assumes "ring_ok s" and same: "\<forall>p t r t'. visit p t = Some (r, t') \<longrightarrow> ss_conns t' = ss_conns t"
  shows "\<exists>f < length (ss_conns s). ss_conns s ! f = first_subflow s \<and>
    around visit s = visit_all visit (rotate f (ss_conns s)) s"
proof (rule around_visits [of s visit])
  show "ss_conns t' = ss_conns t" if "visit p t = Some (r, t')" for p t t' r using same that by blast
qed (use assms in \<open>auto simp: ring_ok_def\<close>)

lemma visit_all_cases:
  assumes "visit_all visit xs s = Some (r, s')"
    and "\<And>x t t'. x \<in> set xs \<Longrightarrow> I t \<Longrightarrow> visit x t = Some (None, t') \<Longrightarrow> I t' \<and> P x t'"
    and "\<And>x y t t'. x \<in> set xs \<Longrightarrow> y \<in> set xs \<Longrightarrow> I t \<Longrightarrow> P x t \<Longrightarrow> visit y t = Some (None, t') \<Longrightarrow> P x t'"
    and "I s"
  shows "case r of None \<Rightarrow> I s' \<and> (\<forall>x \<in> set xs. P x s')
     | Some v \<Rightarrow> \<exists>t x. I t \<and> x \<in> set xs \<and> visit x t = Some (Some v, s')"
proof -
  have "visit_all visit ys t = Some (r, s') \<Longrightarrow> set ys \<subseteq> set xs \<Longrightarrow> I t \<Longrightarrow> (\<forall>x \<in> set xs - set ys. P x t) \<Longrightarrow> ?thesis" for ys t
  proof (induction ys arbitrary: t)
    case Nil
    then show ?case by simp
  next
    case (Cons y ys)
    then have y: "y \<in> set xs" by simp
    show ?case
    proof (cases "visit y t")
      case None
      then show ?thesis using Cons.prems(1) by simp
    next
      case (Some a)
      then obtain v t' where a: "visit y t = Some (v, t')" by (cases a) auto
      show ?thesis
      proof (cases v)
        case None
        then have "I t'" "\<forall>x \<in> set xs - set ys. P x t'"
          using assms(2) [OF y Cons.prems(3)] assms(3) [OF _ y Cons.prems(3)] Cons.prems(4) a by auto
        then show ?thesis using Cons.IH [of t'] Cons.prems(1,2) a None by simp
      next
        case (Some w)
        then show ?thesis using Cons.prems(1,3) a y by (auto split: option.splits)
      qed
    qed
  qed
  from this [OF assms(1) subset_refl assms(4)] show ?thesis by simp
qed

lemma visit_all_total:
  assumes "\<And>x t. x \<in> set xs \<Longrightarrow> I t \<Longrightarrow> \<exists>r t'. visit x t = Some (r, t') \<and> (r = None \<longrightarrow> I t')" and "I s"
  shows "visit_all visit xs s \<noteq> None"
  using assms
proof (induction xs arbitrary: s)
  case (Cons x xs)
  then obtain r t' where "visit x s = Some (r, t')" "r = None \<longrightarrow> I t'" by (metis list.set_intros(1))
  then show ?case using Cons.IH [of t'] Cons.prems(1) by (cases r) auto
qed simp

lemma redundant_get_cases:
  assumes ok: "ring_ok s"
  shows "\<exists>r s'. redundant_get_subflow skb z s = Some (r, s') \<and> ring_ok s' \<and> public s' = public s \<and>
    (case r of None \<Rightarrow> \<forall>sk \<in> set (ss_conns s). \<not> mptcp_is_available (ss_socks s sk) (seg s skb) z
     | Some sk \<Rightarrow> sk \<in> set (ss_conns s) \<and> mptcp_is_available (ss_socks s sk) (seg s skb) z)"
proof (cases "dfin_subflow mptcp_is_available skb z s")
  case (Some sk)
  then show ?thesis using ok dfin_subflow_SomeD [OF Some] by (simp add: redundant_get_subflow_def)
next
  case None
  have visit: "\<forall>p t r t'. redundant_visit skb z p t = Some (r, t') \<longrightarrow> ss_conns t' = ss_conns t"
    by (auto simp: redundant_visit_def split: if_splits)
  obtain f where f: "around (redundant_visit skb z) s = visit_all (redundant_visit skb z) (rotate f (ss_conns s)) s"
    using around_ok [OF ok visit] by blast
  have "visit_all (redundant_visit skb z) xs s \<noteq> None" for xs
    by (rule visit_all_total [where I = "\<lambda>_. True"]) (simp_all add: redundant_visit_def)
  then obtain r s' where r: "visit_all (redundant_visit skb z) (rotate f (ss_conns s)) s = Some (r, s')" by fastforce
  let ?P = "\<lambda>x t. \<not> mptcp_is_available (ss_socks s x) (seg s skb) z"
  let ?ys = "rotate f (ss_conns s)"
  have no1: "x \<in> set ?ys \<Longrightarrow> t = s \<Longrightarrow> redundant_visit skb z x t = Some (None, t') \<Longrightarrow> t' = s \<and> ?P x t'" for x t t'
    by (auto simp: redundant_visit_def split: if_splits)
  have no2: "x \<in> set ?ys \<Longrightarrow> y \<in> set ?ys \<Longrightarrow> t = s \<Longrightarrow> ?P x t \<Longrightarrow> redundant_visit skb z y t = Some (None, t') \<Longrightarrow> ?P x t'" for x y t t'
    by simp
  have "case r of None \<Rightarrow> s' = s \<and> (\<forall>x \<in> set ?ys. ?P x s')
     | Some v \<Rightarrow> \<exists>t x. t = s \<and> x \<in> set ?ys \<and> redundant_visit skb z x t = Some (Some v, s')"
    by (rule visit_all_cases [OF r, where I = "\<lambda>t. t = s" and P = ?P]) (rule refl | rule no1, assumption+ | rule no2, assumption+)+
  then have c: "case r of None \<Rightarrow> s' = s \<and> (\<forall>x \<in> set (ss_conns s). \<not> mptcp_is_available (ss_socks s x) (seg s skb) z)
     | Some v \<Rightarrow> \<exists>t x. t = s \<and> x \<in> set (ss_conns s) \<and> redundant_visit skb z x t = Some (Some v, s')"
    unfolding set_rotate .
  have res: "redundant_get_subflow skb z s = Some (r, s')" using None f r by (simp add: redundant_get_subflow_def)
  show ?thesis
  proof (cases r)
    case None
    then show ?thesis using c ok res by simp
  next
    case (Some sk)
    then obtain x where x: "x \<in> set (ss_conns s)" "redundant_visit skb z x s = Some (Some sk, s')" using c by auto
    then have "sk = x" "mptcp_is_available (ss_socks s x) (seg s skb) z"
      "s' = s\<lparr>next_subflow := succ_in (ss_conns s) x\<rparr>" by (auto simp: redundant_visit_def split: if_splits)
    then show ?thesis using x ok res Some by (auto simp: ring_ok_def public_def dest: succ_in_mem)
  qed
qed

interpretation redundant: complete_scheduler redundant_get_subflow mptcp_is_available ring_ok
proof unfold_locales
  fix s skb z assume "ring_ok s"
  then show "redundant_get_subflow skb z s \<noteq> None" using redundant_get_cases by fastforce
next
  fix s skb z r s' assume "ring_ok s" "redundant_get_subflow skb z s = Some (r, s')"
  then show "ring_ok s' \<and> public s' = public s" using redundant_get_cases [of s skb z] by auto
next
  fix s skb z sk s' assume "ring_ok s" "redundant_get_subflow skb z s = Some (Some sk, s')"
  then show "sk \<in> set (ss_conns s) \<and> mptcp_is_available (ss_socks s sk) (seg s skb) z"
    using redundant_get_cases [of s skb z] by auto
next
  fix s skb z sk s' assume "ring_ok s" "redundant_get_subflow skb z s = Some (None, s')" "sk \<in> set (ss_conns s)"
  then show "\<not> mptcp_is_available (ss_socks s sk) (seg s skb) z" using redundant_get_cases [of s skb z] by auto
qed (rule available_usable)

text \<open>Releasing a subflow before it leaves the list keeps the pointer valid.\<close>

lemma succ_in_neq: "distinct xs \<Longrightarrow> succ_in xs p = Some q \<Longrightarrow> q \<noteq> p"
  by (induction xs p rule: succ_in.induct) (auto split: if_splits dest: succ_in_mem)

lemma redundant_release_ok:
  assumes "ring_ok s" and "ss_conns s \<noteq> [sk]"
  shows "ring_ok ((redundant_release sk s)\<lparr>ss_conns := remove1 sk (ss_conns s)\<rparr>)"
proof -
  have "remove1 sk (ss_conns s) \<noteq> []"
    using assms by (cases "ss_conns s" rule: remdups_adj.cases) (auto simp: ring_ok_def)
  then show ?thesis using assms succ_in_neq [of "ss_conns s" sk] succ_in_mem [of "ss_conns s" sk]
    by (auto simp: ring_ok_def redundant_release_def in_set_remove1)
qed

section \<open>Every subflow sends every segment in order\<close>

text \<open>The segment a subflow has to send next.\<close>

definition next_for :: "sched_state \<Rightarrow> sk_ptr \<Rightarrow> skb_ptr option" where
  "next_for s sk = redundant_next_skb_from_queue (write_queue s) (position s sk)"

lemma correct_simps [simp]:
  "write_queue (redsched_correct_skb_pointers p s) = write_queue s"
  "ss_conns (redsched_correct_skb_pointers p s) = ss_conns s"
  "ss_socks (redsched_correct_skb_pointers p s) = ss_socks s"
  "ss_skbs (redsched_correct_skb_pointers p s) = ss_skbs s"
  "ss_meta (redsched_correct_skb_pointers p s) = ss_meta s"
  "next_subflow (redsched_correct_skb_pointers p s) = next_subflow s"
  "rs_skb_end_seq (redsched_correct_skb_pointers p s) = rs_skb_end_seq s"
  "rs_skb (redsched_correct_skb_pointers p s) p = position s p"
  by (simp_all add: redsched_correct_skb_pointers_def position_def)

lemma public_correct [simp]: "public (redsched_correct_skb_pointers p s) = public s"
  by (simp add: redsched_correct_skb_pointers_def public_def)

lemma position_def': "position s p = (case rs_skb s p of None \<Rightarrow> None
   | Some b \<Rightarrow> if after (rs_skb_end_seq s p) (snd_una (ss_meta s)) then Some b else None)"
  by (auto simp: position_def redsched_correct_skb_pointers_def split: option.splits)

lemma rs_skb_correct:
  "rs_skb (redsched_correct_skb_pointers q s) p = (if p = q then position s q else rs_skb s p)"
  by (simp add: redsched_correct_skb_pointers_def position_def)

lemma position_correct [simp]: "position (redsched_correct_skb_pointers q s) p = position s p"
  by (simp add: position_def' [of "redsched_correct_skb_pointers q s"] rs_skb_correct)
     (auto simp: position_def' split: option.splits)

lemma use_subflow_correct [simp]:
  "redsched_use_subflow a sk skb (redsched_correct_skb_pointers q s) = redsched_use_subflow a sk skb s"
  by (cases skb) (simp_all add: redsched_use_subflow_def seg_def redsched_get_active_valid_sks_def Let_def)

lemma next_skb_mem: "redundant_next_skb_from_queue q p = Some b \<Longrightarrow> b \<in> set q"
  by (auto simp: redundant_next_skb_from_queue_def split: if_splits option.splits dest: succ_in_mem)

text \<open>The states the loop goes through differ from the first one in corrected pointers only.\<close>

definition looks_like :: "sched_state \<Rightarrow> sched_state \<Rightarrow> bool" where
  "looks_like s t \<longleftrightarrow> write_queue t = write_queue s \<and> ss_conns t = ss_conns s \<and> ss_skbs t = ss_skbs s \<and>
     ss_meta t = ss_meta s \<and> (\<forall>p. position t p = position s p) \<and>
     next_subflow t = next_subflow s \<and>
     (\<forall>a sk skb. redsched_use_subflow a sk skb t = redsched_use_subflow a sk skb s) \<and>
     rs_skb_end_seq t = rs_skb_end_seq s \<and> public t = public s"

lemma looks_like_correct: "looks_like s t \<Longrightarrow> looks_like s (redsched_correct_skb_pointers p t)"
  by (simp add: looks_like_def)

lemma redundant_try_step:
  assumes "looks_like s t" and "queue_ok s" and "x \<in> set (ss_conns s)"
  shows "redundant_try a x t = Some (let t1 = redsched_correct_skb_pointers x t in
    if redsched_use_subflow a x (next_for s x) s
    then (Some (the (next_for s x), x),
          t1\<lparr>rs_skb := (rs_skb t1)(x := next_for s x),
             rs_skb_end_seq := (rs_skb_end_seq t1)(x := skb_end_seq (ss_skbs s (the (next_for s x)))),
             next_subflow := succ_in (ss_conns s) x\<rparr>)
    else (None, t1))"
proof -
  have "position s x = Some p \<Longrightarrow> p \<in> set (write_queue s)" for p using assms(2,3) by (auto simp: queue_ok_def)
  then show ?thesis using assms(1)
    by (auto simp: redundant_try_def Let_def looks_like_def next_for_def split: option.splits)
qed

lemma try_conns: "redundant_try a p t = Some (r, t') \<Longrightarrow> ss_conns t' = ss_conns t"
  by (auto simp: redundant_try_def Let_def split: if_splits)

section \<open>Properties\<close>

text \<open>C37. Full redundancy.  Under valid pointers the redundant scheduler returns without touching a stale
  pointer; the segment it hands out for a subflow is the successor, in the write queue, of the
  last one that subflow sent (or the first one), and it is recorded together with its end, so that as long as it is not
  acknowledged the next one of this subflow is its successor: every subflow sends the segments in the order of the queue and
  none twice.  The turn passes to the next subflow, the next segments of the others stay, and nothing that is not private to the scheduler
  changes; it gives up only when no subflow may send its next segment.\<close>

theorem redundant_next_segment_in_order:
  fixes s :: sched_state
  assumes ok: "ring_ok s" "queue_ok s" and noreinj: "reinject_q s = []"
  defines "use \<equiv> \<lambda>sk. redsched_use_subflow (of_bool (redsched_get_active_valid_sks s)) sk (next_for s sk) s"
  shows "\<exists>r s'. redundant_next_segment s = Some (r, s') \<and> ring_ok s' \<and> queue_ok s' \<and>
    (case r of None \<Rightarrow> \<forall>sk \<in> set (ss_conns s). \<not> use sk
     | Some (skb, reinject, sk) \<Rightarrow> reinject = 0 \<and> sk \<in> set (ss_conns s) \<and> next_for s sk = Some skb \<and>
         mptcp_is_available (ss_socks s sk) (seg s (Some skb)) False \<and> rs_skb s' sk = Some skb \<and>
         rs_skb_end_seq s' = (rs_skb_end_seq s)(sk := skb_end_seq (ss_skbs s skb)) \<and>
         (after (skb_end_seq (ss_skbs s skb)) (snd_una (ss_meta s)) \<longrightarrow>
           next_for s' sk = (if last (write_queue s) = skb then None else succ_in (write_queue s) skb)) \<and>
         next_subflow s' = succ_in (ss_conns s) sk \<and> (\<forall>p. p \<noteq> sk \<longrightarrow> position s' p = position s p \<and> next_for s' p = next_for s p)) \<and>
    public s' = public s"
proof (cases "write_queue s = []")
  case True
  then have "\<not> use sk" for sk by (simp add: use_def next_for_def redundant_next_skb_from_queue_def redsched_use_subflow_def)
  then show ?thesis using True noreinj ok by (simp add: redundant_next_segment_def)
next
  case False
  let ?a = "of_bool (redsched_get_active_valid_sks s) :: int" and ?v = "redundant_try (of_bool (redsched_get_active_valid_sks s))"
  obtain f where f: "around ?v s = visit_all ?v (rotate f (ss_conns s)) s"
    using around_ok [OF ok(1)] try_conns by blast
  have I: "looks_like s s" by (simp add: looks_like_def)
  note step = redundant_try_step [OF _ ok(2), where a = ?a]
  have no: "looks_like s t' \<and> \<not> use x"
    if "x \<in> set (rotate f (ss_conns s))" "looks_like s t" "?v x t = Some (None, t')" for x t t'
    using that step [OF that(2), of x] looks_like_correct [OF that(2), of x] by (auto simp: Let_def use_def split: if_splits)
  have "visit_all ?v (rotate f (ss_conns s)) s \<noteq> None"
  proof (rule visit_all_total [where I = "looks_like s"])
    show "\<exists>r t'. ?v x t = Some (r, t') \<and> (r = None \<longrightarrow> looks_like s t')"
      if "x \<in> set (rotate f (ss_conns s))" "looks_like s t" for x t
      using that step [OF that(2), of x] looks_like_correct [OF that(2), of x] by (auto simp: Let_def)
  qed (rule I)
  then obtain r s' where r: "visit_all ?v (rotate f (ss_conns s)) s = Some (r, s')" by fastforce
  have "case r of None \<Rightarrow> looks_like s s' \<and> (\<forall>x \<in> set (rotate f (ss_conns s)). \<not> use x)
     | Some w \<Rightarrow> \<exists>t x. looks_like s t \<and> x \<in> set (rotate f (ss_conns s)) \<and> ?v x t = Some (Some w, s')"
    by (rule visit_all_cases [OF r, where I = "looks_like s" and P = "\<lambda>x t. \<not> use x"]) (blast dest: no intro: I)+
  then have c: "case r of None \<Rightarrow> looks_like s s' \<and> (\<forall>x \<in> set (ss_conns s). \<not> use x)
     | Some w \<Rightarrow> \<exists>t x. looks_like s t \<and> x \<in> set (ss_conns s) \<and> ?v x t = Some (Some w, s')"
    unfolding set_rotate .
  show ?thesis
  proof (cases r)
    case None
    then have "looks_like s s'" using c by simp
    then have "ring_ok s'" "queue_ok s'" using ok by (auto simp: looks_like_def ring_ok_def queue_ok_def)
    moreover have "public s' = public s" using \<open>looks_like s s'\<close> by (simp add: looks_like_def)
    ultimately show ?thesis using None c f r noreinj False by (simp add: redundant_next_segment_def)
  next
    case (Some w)
    then obtain t x where t: "looks_like s t" "x \<in> set (ss_conns s)" "?v x t = Some (Some w, s')" using c by auto
    have u: "use x" and w: "w = (the (next_for s x), x)"
      using step [OF t(1,2)] t(3) by (auto simp: Let_def use_def split: if_splits)
    then obtain b where b: "next_for s x = Some b"
      by (auto simp: use_def redsched_use_subflow_def Let_def split: option.splits)
    let ?t1 = "redsched_correct_skb_pointers x t"
    have s': "s' = ?t1\<lparr>rs_skb := (rs_skb ?t1)(x := Some b),
       rs_skb_end_seq := (rs_skb_end_seq ?t1)(x := skb_end_seq (ss_skbs s b)), next_subflow := succ_in (ss_conns s) x\<rparr>"
      using step [OF t(1,2)] t(3) u b by (auto simp: Let_def use_def)
    have l: "looks_like s ?t1" by (rule looks_like_correct [OF t(1)])
    have same: "ss_conns s' = ss_conns s" "write_queue s' = write_queue s" "next_subflow s' = succ_in (ss_conns s) x"
      "rs_skb s' x = Some b" "rs_skb_end_seq s' = (rs_skb_end_seq s)(x := skb_end_seq (ss_skbs s b))" "ss_meta s' = ss_meta s"
      using l by (simp_all add: s' looks_like_def)
    have pub: "public s' = public s"
    proof -
      have "public s' = public ?t1" by (simp add: s' public_def)
      then show ?thesis using l by (simp add: looks_like_def)
    qed
    have other: "position s' p = position s p" if "p \<noteq> x" for p
    proof -
      have "position s' p = position ?t1 p" using that by (simp add: s' position_def' split: option.split)
      then show ?thesis using l by (simp add: looks_like_def)
    qed
    have mem: "b \<in> set (write_queue s)" using b next_skb_mem by (simp add: next_for_def)
    have "position s' x = Some q \<Longrightarrow> q = b" for q using same(4) by (auto simp: position_def' split: if_splits)
    then have "position s' p = Some q \<Longrightarrow> p \<in> set (ss_conns s) \<Longrightarrow> q \<in> set (write_queue s)" for p q
      using ok(2) mem other unfolding queue_ok_def by metis
    then have q': "queue_ok s'" using ok(2) by (simp add: queue_ok_def same)
    have r': "ring_ok s'" using ok(1) succ_in_mem by (fastforce simp: ring_ok_def same)
    have av: "mptcp_is_available (ss_socks s x) (seg s (Some b)) False"
      using u b by (auto simp: use_def redsched_use_subflow_def Let_def split: if_splits)
    have "redundant_next_segment s = Some (Some (b, 0, x), s')"
      using f r Some w b noreinj False by (simp add: redundant_next_segment_def)
    moreover have "next_for s' p = next_for s p" if "p \<noteq> x" for p using other [OF that] same(2) by (simp add: next_for_def)
    moreover have "next_for s' x = (if last (write_queue s) = b then None else succ_in (write_queue s) b)"
      if "after (skb_end_seq (ss_skbs s b)) (snd_una (ss_meta s))"
    proof -
      have "position s' x = Some b" using that same by (simp add: position_def')
      then show ?thesis using False same(2) by (simp add: next_for_def redundant_next_skb_from_queue_def)
    qed
    ultimately show ?thesis using q' r' av t(2) b other same pub by auto
  qed
qed

text \<open>The redundant scheduler's choice of a subflow for a control segment ends, keeps its pointer
  valid, finds an available subflow whenever there is one, and stays valid over any number of calls.\<close>

lemma redundant_get_subflow_complete:
  assumes "ring_ok s"
  shows "((\<exists>sk s'. redundant_get_subflow skb z s = Some (Some sk, s')) \<longleftrightarrow>
      (\<exists>sk \<in> set (ss_conns s). mptcp_is_available (ss_socks s sk) (seg s skb) z)) \<and>
    (\<exists>rs s'. redundant.calls cs s = Some (rs, s') \<and> ring_ok s' \<and> public s' = public s \<and> length rs = length cs)"
  using redundant.finds_iff [OF assms] redundant.calls_safe [OF assms, of cs] by blast

section \<open>A stale pointer\<close>

text \<open>
  Segment 7 with the numbers 0 to 100 is chosen for subflow 1, which records 100 as its end.  The
  sender then splits the segment at 50, as \<open>mptcp_fragment\<close> does, and the peer acknowledges 50, which
  frees segment 7.  The recorded end is still not acknowledged, so that the pointer is taken for
  valid and followed.
\<close>

definition split_acked :: sched_state where
  "split_acked = sample_sched\<lparr>ss_conns := [1], write_queue := [8], rs_skb := (\<lambda>_. None)(1 := Some 7),
     rs_skb_end_seq := (\<lambda>_. 0)(1 := 100), ss_meta := sample_sock\<lparr>snd_una := 50\<rparr>\<rparr>"

lemma redundant_stale_pointer: "redundant_next_segment split_acked = None"
  by (simp add: redundant_next_segment_def split_acked_def sample_sched_def around_def first_subflow_def
      redundant_try_def redsched_correct_skb_pointers_def after_def before_def Let_def)

section \<open>Closed instances\<close>

lemma sample_ring_ok: "ring_ok sample_sched" "queue_ok sample_sched" "reinject_q sample_sched = []"
  by (simp_all add: ring_ok_def queue_ok_def sample_sched_def position_def')

theorem redundant_next_segment_in_order_witness:
  "\<exists>sk s'. redundant_next_segment sample_sched = Some (Some (7, 0, sk), s')"
proof -
  have n: "next_for sample_sched 1 = Some 7" "1 \<in> set (ss_conns sample_sched)"
    "next_for sample_sched p = Some 7" for p
    by (simp_all add: next_for_def redundant_next_skb_from_queue_def position_def' sample_sched_def)
  have "mptcp_is_available (ss_socks sample_sched 1) (seg sample_sched (Some 7)) False"
    by (simp add: sample_sched_defs)
  then have "redsched_use_subflow a 1 (next_for sample_sched 1) sample_sched" for a
    by (simp add: n redsched_use_subflow_def Let_def)
       (simp add: sample_sched_def sample_skb_def sample_sock_def subflow_is_backup_def subflow_is_active_def)
  then show ?thesis
    using redundant_next_segment_in_order [OF sample_ring_ok] n by (auto split: option.splits)
qed

lemma redundant_get_subflow_complete_witness:
  "\<exists>sk s'. redundant_get_subflow (Some 7) False sample_sched = Some (Some sk, s')"
proof -
  have "mptcp_is_available (ss_socks sample_sched 1) (seg sample_sched (Some 7)) False" "1 \<in> set (ss_conns sample_sched)"
    by (simp_all add: sample_sched_defs)
  then show ?thesis
    using redundant_get_subflow_complete [OF sample_ring_ok(1), of "Some 7" False] by blast
qed

end
