(* ===== verification/Registry.thy ===== *)
theory Registry
  imports Prelude
begin

text \<open>
  The registries of schedulers (\<open>net/mptcp/mptcp_sched.c\<close>) and of path managers
  (\<open>net/mptcp/mptcp_pm.c\<close>): lists of operation tables, of which the first one is the default for new
  connections.  Both are instances of one contract, stated as a locale.
\<close>

section \<open>Operations\<close>

datatype errno = EINVAL | EEXIST | ENOENT

definition MPTCP_SCHED_NAME_MAX :: nat where "MPTCP_SCHED_NAME_MAX = 16"
definition MPTCP_PM_NAME_MAX :: nat where "MPTCP_PM_NAME_MAX = 16"

record mptcp_sched_ops =
  so_name :: string
  so_get_subflow :: bool
  so_next_segment :: bool
  so_owner :: nat

record mptcp_pm_ops =
  po_name :: string
  po_get_local_id :: bool
  po_owner :: nat

definition mptcp_sched_find :: "string \<Rightarrow> mptcp_sched_ops list \<Rightarrow> mptcp_sched_ops option" where
  "mptcp_sched_find name l = find (\<lambda>e. so_name e = name) l"

definition mptcp_register_scheduler ::
  "mptcp_sched_ops \<Rightarrow> mptcp_sched_ops list \<Rightarrow> (errno + unit) \<times> mptcp_sched_ops list" where
  "mptcp_register_scheduler sched l =
     (if \<not> so_get_subflow sched \<or> \<not> so_next_segment sched then (Inl EINVAL, l)
      else if mptcp_sched_find (so_name sched) l \<noteq> None then (Inl EEXIST, l)
      else (Inr (), l @ [sched]))"

definition mptcp_unregister_scheduler :: "mptcp_sched_ops \<Rightarrow> mptcp_sched_ops list \<Rightarrow> mptcp_sched_ops list" where
  "mptcp_unregister_scheduler sched l = remove1 sched l"

text \<open>\<open>None\<close> is the \<open>BUG_ON\<close> for an empty list.\<close>

definition mptcp_get_default_scheduler :: "mptcp_sched_ops list \<Rightarrow> string option" where
  "mptcp_get_default_scheduler l = (case l of [] \<Rightarrow> None | e # _ \<Rightarrow> Some (take MPTCP_SCHED_NAME_MAX (so_name e)))"

text \<open>\<open>request\<close> is the effect of \<open>request_module\<close> on the list, \<open>capable\<close> the privilege check.\<close>

definition mptcp_set_default_scheduler ::
  "(string \<Rightarrow> mptcp_sched_ops list \<Rightarrow> mptcp_sched_ops list) \<Rightarrow> bool \<Rightarrow> string \<Rightarrow> mptcp_sched_ops list \<Rightarrow>
    (errno + unit) \<times> mptcp_sched_ops list" where
  "mptcp_set_default_scheduler request capable name l =
     (let l1 = (if mptcp_sched_find name l = None \<and> capable then request (''mptcp_'' @ name) l else l)
      in case mptcp_sched_find name l1 of
           Some e \<Rightarrow> (Inr (), e # remove1 e l1)
         | None \<Rightarrow> (Inl ENOENT, l1))"

definition mptcp_init_scheduler :: "(nat \<Rightarrow> bool) \<Rightarrow> mptcp_sched_ops list \<Rightarrow> mptcp_sched_ops option \<Rightarrow> mptcp_sched_ops option" where
  "mptcp_init_scheduler try_module_get l old =
     (case find (\<lambda>e. try_module_get (so_owner e)) l of Some e \<Rightarrow> Some e | None \<Rightarrow> old)"

definition mptcp_pm_find :: "string \<Rightarrow> mptcp_pm_ops list \<Rightarrow> mptcp_pm_ops option" where
  "mptcp_pm_find name l = find (\<lambda>e. po_name e = name) l"

definition mptcp_register_path_manager ::
  "mptcp_pm_ops \<Rightarrow> mptcp_pm_ops list \<Rightarrow> (errno + unit) \<times> mptcp_pm_ops list" where
  "mptcp_register_path_manager pm l =
     (if \<not> po_get_local_id pm then (Inl EINVAL, l)
      else if mptcp_pm_find (po_name pm) l \<noteq> None then (Inl EEXIST, l)
      else (Inr (), l @ [pm]))"

definition mptcp_unregister_path_manager :: "mptcp_pm_ops \<Rightarrow> mptcp_pm_ops list \<Rightarrow> mptcp_pm_ops list" where
  "mptcp_unregister_path_manager pm l = remove1 pm l"

definition mptcp_get_default_path_manager :: "mptcp_pm_ops list \<Rightarrow> string option" where
  "mptcp_get_default_path_manager l = (case l of [] \<Rightarrow> None | e # _ \<Rightarrow> Some (take MPTCP_PM_NAME_MAX (po_name e)))"

definition mptcp_set_default_path_manager ::
  "(string \<Rightarrow> mptcp_pm_ops list \<Rightarrow> mptcp_pm_ops list) \<Rightarrow> bool \<Rightarrow> string \<Rightarrow> mptcp_pm_ops list \<Rightarrow>
    (errno + unit) \<times> mptcp_pm_ops list" where
  "mptcp_set_default_path_manager request capable name l =
     (let l1 = (if mptcp_pm_find name l = None \<and> capable then request (''mptcp_'' @ name) l else l)
      in case mptcp_pm_find name l1 of
           Some e \<Rightarrow> (Inr (), e # remove1 e l1)
         | None \<Rightarrow> (Inl ENOENT, l1))"

definition mptcp_init_path_manager :: "(nat \<Rightarrow> bool) \<Rightarrow> mptcp_pm_ops list \<Rightarrow> mptcp_pm_ops option \<Rightarrow> mptcp_pm_ops option" where
  "mptcp_init_path_manager try_module_get l old =
     (case find (\<lambda>e. try_module_get (po_owner e)) l of Some e \<Rightarrow> Some e | None \<Rightarrow> old)"

text \<open>The search for \<open>default\<close> cannot fail while that manager is registered; a null pointer is \<open>None\<close>.\<close>

definition mptcp_fallback_default :: "mptcp_pm_ops list \<Rightarrow> mptcp_pm_ops option" where
  "mptcp_fallback_default l = mptcp_pm_find ''default'' l"

section \<open>The contract of a registry\<close>

text \<open>The request for a module may register new tables behind the others.\<close>

definition names_ok :: "('e \<Rightarrow> string) \<Rightarrow> 'e list \<Rightarrow> bool" where
  "names_ok name l \<longleftrightarrow> distinct (map name l)"

definition appends :: "('e \<Rightarrow> string) \<Rightarrow> (string \<Rightarrow> 'e list \<Rightarrow> 'e list) \<Rightarrow> bool" where
  "appends name request \<longleftrightarrow> (\<forall>n l. names_ok name l \<longrightarrow> (\<exists>new. request n l = l @ new) \<and> names_ok name (request n l))"

locale registry =
  fixes name :: "'e \<Rightarrow> string"
    and valid :: "'e \<Rightarrow> bool"
    and lookup :: "string \<Rightarrow> 'e list \<Rightarrow> 'e option"
    and register :: "'e \<Rightarrow> 'e list \<Rightarrow> (errno + unit) \<times> 'e list"
    and unregister :: "'e \<Rightarrow> 'e list \<Rightarrow> 'e list"
    and get_default :: "'e list \<Rightarrow> string option"
    and set_default :: "(string \<Rightarrow> 'e list \<Rightarrow> 'e list) \<Rightarrow> bool \<Rightarrow> string \<Rightarrow> 'e list \<Rightarrow> (errno + unit) \<times> 'e list"
    and name_max :: nat
  assumes lookup: "lookup n l = find (\<lambda>e. name e = n) l"
    and register: "register e l = (if \<not> valid e then (Inl EINVAL, l)
      else if lookup (name e) l \<noteq> None then (Inl EEXIST, l) else (Inr (), l @ [e]))"
    and unregister: "unregister e l = remove1 e l"
    and get_default: "get_default l = (case l of [] \<Rightarrow> None | e # _ \<Rightarrow> Some (take name_max (name e)))"
    and set_default: "set_default request capable n l =
      (let l1 = (if lookup n l = None \<and> capable then request (''mptcp_'' @ n) l else l)
       in case lookup n l1 of Some e \<Rightarrow> (Inr (), e # remove1 e l1) | None \<Rightarrow> (Inl ENOENT, l1))"
begin

lemma lookup_mem: "lookup n l = Some e \<Longrightarrow> e \<in> set l \<and> name e = n"
  by (auto simp: lookup find_Some_iff)

lemma lookup_none: "lookup n l = None \<longleftrightarrow> n \<notin> name ` set l"
  by (auto simp: lookup find_None_iff)

lemma lookup_iff: "names_ok name l \<Longrightarrow> lookup (name e) l = Some e \<longleftrightarrow> e \<in> set l"
  using lookup_mem [of "name e" l] lookup_none [of "name e" l]
  by (cases "lookup (name e) l") (auto simp: names_ok_def distinct_map inj_on_def)

lemma lookup_snoc: "lookup n (l @ [e]) = (case lookup n l of Some d \<Rightarrow> Some d | None \<Rightarrow> if name e = n then Some e else None)"
  unfolding lookup by (induction l) simp_all

lemma register_ok:
  assumes "names_ok name l" and "register e l = (r, l')"
  shows "names_ok name l' \<and> (r = Inr () \<longleftrightarrow> valid e \<and> name e \<notin> name ` set l) \<and>
    (r = Inr () \<longrightarrow> lookup (name e) l' = Some e \<and> (\<forall>n. n \<noteq> name e \<longrightarrow> lookup n l' = lookup n l)) \<and>
    (r \<noteq> Inr () \<longrightarrow> l' = l) \<and> (l \<noteq> [] \<longrightarrow> get_default l' = get_default l)"
proof (cases "valid e \<and> lookup (name e) l = None")
  case True
  then have r: "r = Inr ()" "l' = l @ [e]" "name e \<notin> name ` set l"
    using assms(2) lookup_none by (auto simp: register)
  then have "lookup (name e) l' = Some e" using True by (simp add: lookup_snoc)
  moreover have "lookup n l' = lookup n l" if "n \<noteq> name e" for n
    using that r(2) by (auto simp: lookup_snoc split: option.splits)
  moreover have "names_ok name l'" using assms(1) r by (simp add: names_ok_def)
  moreover have "l \<noteq> [] \<longrightarrow> get_default l' = get_default l" using r(2) by (cases l) (simp_all add: get_default)
  ultimately show ?thesis using r True by simp
next
  case False
  then have "l' = l" "r \<noteq> Inr ()" using assms(2) by (auto simp: register split: if_splits)
  then show ?thesis using assms(1) False lookup_none [of "name e" l] by auto
qed

lemma unregister_ok:
  assumes "names_ok name l"
  shows "names_ok name (unregister e l) \<and> set (unregister e l) = set l - {e} \<and>
    (e \<in> set l \<longrightarrow> lookup (name e) (unregister e l) = None)"
proof -
  have d: "distinct l" "inj_on name (set l)" using assms by (simp_all add: names_ok_def distinct_map)
  then have s: "set (unregister e l) = set l - {e}" by (simp add: unregister)
  have "names_ok name (unregister e l)"
    using d by (simp add: names_ok_def distinct_map unregister inj_on_diff)
  moreover have "e \<in> set l \<longrightarrow> lookup (name e) (unregister e l) = None"
    using d(2) by (auto simp: lookup_none s inj_on_def)
  ultimately show ?thesis using s by simp
qed

lemma set_default_ok:
  assumes "names_ok name l" and "appends name request" and res: "set_default request capable n l = (r, l')"
  shows "names_ok name l' \<and> set l \<subseteq> set l' \<and>
    (r = Inr () \<longrightarrow> get_default l' = Some (take name_max n)) \<and>
    (n \<in> name ` set l \<longrightarrow> r = Inr () \<and> set l' = set l) \<and>
    (r \<noteq> Inr () \<longrightarrow> r = Inl ENOENT \<and> n \<notin> name ` set l')"
proof -
  define l1 where "l1 = (if lookup n l = None \<and> capable then request (''mptcp_'' @ n) l else l)"
  obtain new where "request (''mptcp_'' @ n) l = l @ new" "names_ok name (request (''mptcp_'' @ n) l)"
    using assms(1,2) unfolding appends_def by blast
  then have l1: "names_ok name l1" "set l \<subseteq> set l1" "n \<in> name ` set l \<Longrightarrow> l1 = l"
    using assms(1) lookup_none [of n l] by (auto simp: l1_def)
  show ?thesis
  proof (cases "lookup n l1")
    case None
    then have "r = Inl ENOENT" "l' = l1" using res by (simp_all add: set_default Let_def flip: l1_def)
    then show ?thesis using l1 None lookup_none [of n l1] by auto
  next
    case (Some e)
    then have r: "r = Inr ()" "l' = e # remove1 e l1" using res by (simp_all add: set_default Let_def flip: l1_def)
    have e: "e \<in> set l1" "name e = n" using lookup_mem [OF Some] by simp_all
    have d: "distinct l1" using l1(1) by (simp add: names_ok_def distinct_map)
    have set: "set l' = set l1" using e d r by auto
    have "names_ok name l'"
      using unregister_ok [OF l1(1), of e] l1(1) e(1) by (simp add: r(2) names_ok_def unregister distinct_map inj_on_def) blast
    then show ?thesis using r e l1 set by (auto simp: names_ok_def get_default)
  qed
qed

end

interpretation sched_reg: registry so_name "\<lambda>e. so_get_subflow e \<and> so_next_segment e" mptcp_sched_find
  mptcp_register_scheduler mptcp_unregister_scheduler mptcp_get_default_scheduler mptcp_set_default_scheduler
  MPTCP_SCHED_NAME_MAX
  by unfold_locales (auto simp: mptcp_sched_find_def mptcp_register_scheduler_def mptcp_unregister_scheduler_def
      mptcp_get_default_scheduler_def mptcp_set_default_scheduler_def Let_def)

interpretation pm_reg: registry po_name po_get_local_id mptcp_pm_find
  mptcp_register_path_manager mptcp_unregister_path_manager mptcp_get_default_path_manager
  mptcp_set_default_path_manager MPTCP_PM_NAME_MAX
  by unfold_locales (auto simp: mptcp_pm_find_def mptcp_register_path_manager_def mptcp_unregister_path_manager_def
      mptcp_get_default_path_manager_def mptcp_set_default_path_manager_def Let_def)

section \<open>Properties\<close>

text \<open>Setting and reading the default scheduler.  If the names in the registry are distinct, setting a
  default succeeds for every registered name, after which reading the default gives that name cut to
  the size of the field; the registered schedulers stay the same, only unknown names load a
  module, and on failure the name is not registered.\<close>

lemma mptcp_set_default_scheduler_roundtrip:
  assumes "names_ok so_name l" and "appends so_name request"
    and "mptcp_set_default_scheduler request capable n l = (r, l')"
  shows "names_ok so_name l' \<and> set l \<subseteq> set l' \<and>
    (r = Inr () \<longrightarrow> mptcp_get_default_scheduler l' = Some (take MPTCP_SCHED_NAME_MAX n)) \<and>
    (n \<in> so_name ` set l \<longrightarrow> r = Inr () \<and> set l' = set l) \<and>
    (r \<noteq> Inr () \<longrightarrow> r = Inl ENOENT \<and> n \<notin> so_name ` set l')"
  by (rule sched_reg.set_default_ok [OF assms])

text \<open>Falling back to the default path manager never follows a null pointer while it is registered,
  and registering or removing other managers, as well as changing the default, keeps it registered.\<close>

lemma mptcp_fallback_default_found:
  assumes "names_ok po_name l" and "mptcp_fallback_default l = Some d" and "po_name pm \<noteq> ''default''"
    and "appends po_name request"
  shows "mptcp_fallback_default (snd (mptcp_register_path_manager pm l)) = Some d \<and>
    mptcp_fallback_default (mptcp_unregister_path_manager pm l) = Some d \<and>
    mptcp_fallback_default (snd (mptcp_set_default_path_manager request capable n l)) = Some d"
proof -
  have d: "d \<in> set l" "po_name d = ''default''"
    using pm_reg.lookup_mem assms(2) unfolding mptcp_fallback_default_def by blast+
  have keep: "mptcp_fallback_default l' = Some d" if "names_ok po_name l'" "d \<in> set l'" for l'
    using pm_reg.lookup_iff [OF that(1), of d] that(2) d(2) by (simp add: mptcp_fallback_default_def)
  obtain r l1 where reg: "mptcp_register_path_manager pm l = (r, l1)" by fastforce
  obtain r2 l2 where set: "mptcp_set_default_path_manager request capable n l = (r2, l2)" by fastforce
  have "set l \<subseteq> set l1" using reg by (auto simp: mptcp_register_path_manager_def split: if_splits)
  then have "names_ok po_name l1" "d \<in> set l1" using pm_reg.register_ok [OF assms(1) reg] d(1) by blast+
  moreover have "names_ok po_name (mptcp_unregister_path_manager pm l)" "d \<in> set (mptcp_unregister_path_manager pm l)"
    using pm_reg.unregister_ok [OF assms(1), of pm] assms(3) d by auto
  moreover have "names_ok po_name l2" "d \<in> set l2"
    using pm_reg.set_default_ok [OF assms(1,4) set] d by auto
  ultimately show ?thesis using keep reg set by simp
qed

section \<open>Closed instances\<close>

definition sample_scheds :: "mptcp_sched_ops list" where
  "sample_scheds = [\<lparr>so_name = ''default'', so_get_subflow = True, so_next_segment = True, so_owner = 0\<rparr>,
     \<lparr>so_name = ''roundrobin'', so_get_subflow = True, so_next_segment = True, so_owner = 1\<rparr>]"

definition sample_pms :: "mptcp_pm_ops list" where
  "sample_pms = [\<lparr>po_name = ''fullmesh'', po_get_local_id = True, po_owner = 1\<rparr>,
     \<lparr>po_name = ''default'', po_get_local_id = True, po_owner = 0\<rparr>]"

lemma no_modules: "appends name (\<lambda>_ l. l)"
  by (simp add: appends_def)

lemma mptcp_set_default_scheduler_roundtrip_witness:
  "mptcp_get_default_scheduler (snd (mptcp_set_default_scheduler (\<lambda>_ l. l) True ''roundrobin'' sample_scheds))
     = Some ''roundrobin''"
proof -
  have "names_ok so_name sample_scheds" by (simp add: names_ok_def sample_scheds_def)
  from mptcp_set_default_scheduler_roundtrip [OF this no_modules prod.collapse [symmetric], of True "''roundrobin''"]
  show ?thesis by (simp add: sample_scheds_def MPTCP_SCHED_NAME_MAX_def)
qed

lemma mptcp_fallback_default_found_witness:
  "mptcp_fallback_default (mptcp_unregister_path_manager (hd sample_pms) sample_pms) \<noteq> None"
proof -
  have "names_ok po_name sample_pms" "po_name (hd sample_pms) \<noteq> ''default''"
    "mptcp_fallback_default sample_pms = Some \<lparr>po_name = ''default'', po_get_local_id = True, po_owner = 0\<rparr>"
    by (simp_all add: names_ok_def sample_pms_def mptcp_fallback_default_def mptcp_pm_find_def)
  from mptcp_fallback_default_found [OF this(1,3,2) no_modules] show ?thesis by simp
qed

end
