(* ===== verification/Cc_State.thy ===== *)
theory Cc_State
  imports Mpcb
begin

text \<open>
  What the four coupled congestion controls share: the connection they read, the functions of the
  TCP stack they call, and their contract as a locale.  The operation \<open>cong_avoid\<close>, called for an
  acknowledgement, changes the socket it is called for only and keeps its congestion window between a lower
  bound and the clamp; the locale lifts this to any sequence of acknowledgements on any subflows.
\<close>

section \<open>State\<close>

text \<open>
  \<open>cc_ca\<close> is the private memory of the congestion control in every socket (\<open>inet_csk_ca\<close>), the one
  of the connection (\<open>cc_meta\<close>) included.  \<open>cc_mptcp\<close> is \<open>mptcp(tp)\<close>; \<open>cc_has_mpcb\<close> says whether the
  socket has a control block.
\<close>

record 'p cc_state =
  cc_socks :: "sk_ptr \<Rightarrow> tcp_sock"
  cc_ca :: "sk_ptr \<Rightarrow> 'p"
  cc_conns :: "sk_ptr list"
  cc_meta :: sk_ptr
  cc_cnt_established :: u8
  cc_mptcp :: "sk_ptr \<Rightarrow> bool"
  cc_has_mpcb :: "sk_ptr \<Rightarrow> bool"

record cc_kernel =
  tcp_slow_start :: "tcp_sock \<Rightarrow> u32 \<Rightarrow> tcp_sock"
  tcp_reno_cong_avoid :: "tcp_sock \<Rightarrow> u32 \<Rightarrow> u32 \<Rightarrow> tcp_sock"
  tcp_reno_ssthresh :: "tcp_sock \<Rightarrow> u32"
  tcp_current_ssthresh :: "tcp_sock \<Rightarrow> u32"

datatype tcp_ca_event =
    CA_EVENT_TX_START | CA_EVENT_CWND_RESTART | CA_EVENT_COMPLETE_CWR | CA_EVENT_LOSS
  | CA_EVENT_ECN_NO_CE | CA_EVENT_ECN_IS_CE | CA_EVENT_DELAYED_ACK | CA_EVENT_NON_DELAYED_ACK

definition upd_sock :: "sk_ptr \<Rightarrow> (tcp_sock \<Rightarrow> tcp_sock) \<Rightarrow> 'p cc_state \<Rightarrow> 'p cc_state" where
  "upd_sock sk f s = s\<lparr>cc_socks := (cc_socks s)(sk := f (cc_socks s sk))\<rparr>"

definition upd_ca :: "sk_ptr \<Rightarrow> ('p \<Rightarrow> 'p) \<Rightarrow> 'p cc_state \<Rightarrow> 'p cc_state" where
  "upd_ca sk f s = s\<lparr>cc_ca := (cc_ca s)(sk := f (cc_ca s sk))\<rparr>"

lemma upd_sel [simp]:
  "cc_socks (upd_sock sk f s) = (cc_socks s)(sk := f (cc_socks s sk))" "cc_ca (upd_sock sk f s) = cc_ca s"
  "cc_conns (upd_sock sk f s) = cc_conns s" "cc_meta (upd_sock sk f s) = cc_meta s"
  "cc_cnt_established (upd_sock sk f s) = cc_cnt_established s" "cc_mptcp (upd_sock sk f s) = cc_mptcp s"
  "cc_has_mpcb (upd_sock sk f s) = cc_has_mpcb s"
  "cc_socks (upd_ca sk g s) = cc_socks s" "cc_ca (upd_ca sk g s) = (cc_ca s)(sk := g (cc_ca s sk))"
  "cc_conns (upd_ca sk g s) = cc_conns s" "cc_meta (upd_ca sk g s) = cc_meta s"
  "cc_cnt_established (upd_ca sk g s) = cc_cnt_established s" "cc_mptcp (upd_ca sk g s) = cc_mptcp s"
  "cc_has_mpcb (upd_ca sk g s) = cc_has_mpcb s"
  by (simp_all add: upd_sock_def upd_ca_def)

text \<open>\<open>mptcp_ccc_sk_can_send\<close> and its copies: a subflow with a measured round-trip time.\<close>

definition cc_sk_can_send :: "tcp_sock \<Rightarrow> bool" where
  "cc_sk_can_send tp \<longleftrightarrow> mptcp_sk_can_send tp \<and> srtt_us tp \<noteq> 0"

definition cc_senders :: "'p cc_state \<Rightarrow> tcp_sock list" where
  "cc_senders s = filter cc_sk_can_send (map (cc_socks s) (cc_conns s))"

text \<open>\<open>(u64) val << scale\<close>.\<close>

definition cc_scale :: "u64 \<Rightarrow> nat \<Rightarrow> u64" where
  "cc_scale val scale = push_bit scale val"

section \<open>Sums and scaling without overflow\<close>

lemma unat_sum_fold:
  "unat (a::u64) + (\<Sum>x\<leftarrow>xs. unat (f x)) < 2 ^ 64 \<Longrightarrow>
   unat (fold (\<lambda>x s. s + f x) xs a) = unat a + (\<Sum>x\<leftarrow>xs. unat (f x))"
proof (induction xs arbitrary: a)
  case (Cons x xs)
  then have "unat (a + f x) = unat a + unat (f x)" by (simp add: unat_word_ariths)
  then show ?case using Cons.IH [of "a + f x"] Cons.prems by simp
qed simp

lemma unat_scale:
  assumes "unat (w::u64) * 2 ^ n < 2 ^ 64"
  shows "unat (cc_scale w n) = unat w * 2 ^ n"
proof -
  have "unat (cc_scale w n) = take_bit 64 (unat w * 2 ^ n)"
    by (simp only: cc_scale_def unsigned_push_bit_eq) (simp add: push_bit_eq_mult)
  then show ?thesis using assms by (simp add: take_bit_nat_eq_self)
qed

lemma sum_list_below:
  fixes f :: "'a \<Rightarrow> nat"
  assumes "\<And>x. x \<in> set xs \<Longrightarrow> length xs * f x < B"
    and "0 < B"
  shows "(\<Sum>x\<leftarrow>xs. f x) < B"
proof (cases "xs = []")
  case False
  have "length xs * (\<Sum>x\<leftarrow>xs. f x) = (\<Sum>x\<leftarrow>xs. length xs * f x)" by (simp add: sum_list_const_mult)
  also have "\<dots> \<le> (\<Sum>x\<leftarrow>xs. B - 1)" using assms(1) by (intro sum_list_mono) fastforce
  finally have "length xs * (\<Sum>x\<leftarrow>xs. f x) \<le> length xs * (B - 1)" by (simp add: sum_list_triv)
  then show ?thesis using False assms(2) by simp
qed (use assms(2) in simp)

section \<open>The contract\<close>

definition window_ok :: "u32 \<Rightarrow> tcp_sock \<Rightarrow> bool" where
  "window_ok low tp \<longleftrightarrow> low \<le> snd_cwnd tp \<and> snd_cwnd tp \<le> snd_cwnd_clamp tp"

text \<open>The documented behaviour of the functions of the TCP stack: the window stays below the clamp and
  does not shrink; \<open>tcp_slow_start\<close> is for a window of at most the threshold.\<close>

definition kernel_grows :: "cc_kernel \<Rightarrow> bool" where
  "kernel_grows k \<longleftrightarrow> (\<forall>tp tp' ack acked. snd_cwnd tp \<le> snd_cwnd_clamp tp \<longrightarrow>
     (snd_cwnd tp \<le> snd_ssthresh tp \<and> tp' = tcp_slow_start k tp acked \<or> tp' = tcp_reno_cong_avoid k tp ack acked) \<longrightarrow>
     snd_cwnd tp \<le> snd_cwnd tp' \<and> snd_cwnd tp' \<le> snd_cwnd_clamp tp' \<and> snd_cwnd_clamp tp' = snd_cwnd_clamp tp)"

lemma kernel_grows_reno:
  assumes "kernel_grows k" and "window_ok low tp"
  shows "window_ok low (tcp_reno_cong_avoid k tp ack acked)"
  using assms(1) [unfolded kernel_grows_def, rule_format, of tp "tcp_reno_cong_avoid k tp ack acked" acked ack] assms(2)
  by (auto simp: window_ok_def)

lemma kernel_grows_slow_start:
  assumes "kernel_grows k" and "window_ok low tp" and "snd_cwnd tp \<le> snd_ssthresh tp"
  shows "window_ok low (tcp_slow_start k tp acked)"
  using assms(1) [unfolded kernel_grows_def, rule_format, of tp "tcp_slow_start k tp acked" acked] assms(2,3)
  by (auto simp: window_ok_def)

lemma kernel_grows_slow_start_clamp:
  assumes "kernel_grows k" and "window_ok low tp" and "snd_cwnd tp \<le> snd_ssthresh tp"
  shows "snd_cwnd_clamp (tcp_slow_start k tp acked) = snd_cwnd_clamp tp"
  using assms(1) [unfolded kernel_grows_def, rule_format, of tp "tcp_slow_start k tp acked" acked] assms(2,3)
  by (auto simp: window_ok_def)

text \<open>
  What one acknowledgement does to a socket in congestion avoidance under LIA and Balia, where \<open>t\<close> is the
  number of acknowledgements after which the window grows.
\<close>

inductive avoid_step :: "u32 \<Rightarrow> tcp_sock \<Rightarrow> tcp_sock \<Rightarrow> bool" for t tp where
  idle: "avoid_step t tp tp"
| count: "snd_cwnd_cnt tp < t \<Longrightarrow> avoid_step t tp (tp\<lparr>snd_cwnd_cnt := snd_cwnd_cnt tp + 1\<rparr>)"
| grow: "t \<le> snd_cwnd_cnt tp \<Longrightarrow> snd_cwnd tp < snd_cwnd_clamp tp \<Longrightarrow>
    avoid_step t tp (tp\<lparr>snd_cwnd := snd_cwnd tp + 1, snd_cwnd_cnt := 0\<rparr>)"
| full: "t \<le> snd_cwnd_cnt tp \<Longrightarrow> \<not> snd_cwnd tp < snd_cwnd_clamp tp \<Longrightarrow>
    avoid_step t tp (tp\<lparr>snd_cwnd_cnt := 0\<rparr>)"

text \<open>The same in any phase, for a connection with one or several subflows.\<close>

definition ca_step :: "cc_kernel \<Rightarrow> bool \<Rightarrow> u32 \<Rightarrow> u32 \<Rightarrow> u32 \<Rightarrow> tcp_sock \<Rightarrow> tcp_sock \<Rightarrow> bool" where
  "ca_step k mp ack acked t tp tp' \<longleftrightarrow>
     (if \<not> mp then tp' = tcp_reno_cong_avoid k tp ack acked
      else if snd_cwnd tp \<le> snd_ssthresh tp then tp' = tp \<or> tp' = tcp_slow_start k tp acked
      else avoid_step t tp tp')"

lemma word_less_Suc: "(a::u32) < b \<Longrightarrow> unat (a + 1) = unat a + 1"
proof -
  assume "a < b"
  then have "unat a < unat b" by (simp add: word_less_nat_alt)
  with unat_bound [of b] have "unat a + 1 < 2 ^ 32" by simp
  then show ?thesis by (simp add: unat_word_ariths)
qed

lemma word_less_grow: "(a::u32) < b \<Longrightarrow> a \<le> a + 1 \<and> a + 1 \<le> b"
  using word_less_Suc [of a b] by (auto simp: word_le_nat_alt word_less_nat_alt)

lemma ca_step_window:
  assumes "ca_step k mp ack acked t tp tp'" and "kernel_grows k" and "window_ok low tp"
  shows "window_ok low tp'"
proof (cases "mp \<and> \<not> snd_cwnd tp \<le> snd_ssthresh tp")
  case True
  then have "avoid_step t tp tp'" using assms(1) by (auto simp: ca_step_def)
  then show ?thesis
  proof cases
    case grow
    then show ?thesis using assms(3) word_less_grow [of "snd_cwnd tp" "snd_cwnd_clamp tp"]
      by (auto simp: window_ok_def)
  qed (use assms in \<open>auto simp: window_ok_def\<close>)
next
  case False
  then show ?thesis
    using assms kernel_grows_reno kernel_grows_slow_start by (auto simp: ca_step_def split: if_splits)
qed

section \<open>Reno as a reference\<close>

text \<open>Window and counter of a Reno flow without a clamp, for one acknowledgement in congestion avoidance.\<close>

fun reno_step :: "nat \<times> nat \<Rightarrow> nat \<times> nat" where
  "reno_step (w, c) = (if c \<ge> w then (w + 1, 0) else (w, c + 1))"

definition flow :: "tcp_sock \<Rightarrow> nat \<times> nat" where
  "flow tp = (unat (snd_cwnd tp), unat (snd_cwnd_cnt tp))"

text \<open>Behind Reno in the lexicographic order, and still behind after one acknowledgement when the
  threshold is at least the window.\<close>

lemma avoid_step_reno:
  assumes "avoid_step t tp tp'" and "snd_cwnd tp \<le> t" and "flow tp \<le> r"
  shows "flow tp' \<le> reno_step r"
proof -
  obtain w c where r: "r = (w, c)" by (cases r)
  from assms(1) show ?thesis
  proof cases
    case count
    then show ?thesis using assms(3) word_less_Suc [of "snd_cwnd_cnt tp" t] by (auto simp: flow_def r)
  next
    case grow
    then show ?thesis
      using assms(2,3) word_less_Suc [of "snd_cwnd tp" "snd_cwnd_clamp tp"]
      by (auto simp: flow_def r word_le_nat_alt)
  qed (use assms(2,3) in \<open>auto simp: flow_def r word_le_nat_alt\<close>)
qed

lemma avoid_step_keeps:
  "avoid_step t tp tp' \<Longrightarrow> snd_ssthresh tp' = snd_ssthresh tp \<and> snd_cwnd tp \<le> snd_cwnd tp'"
  by (induction rule: avoid_step.induct) (auto dest: word_less_grow)

section \<open>The interface\<close>

text \<open>A call of \<open>cong_avoid\<close>; \<open>None\<close> is a division by zero.\<close>

locale cong_control =
  fixes avoid :: "cc_kernel \<Rightarrow> sk_ptr \<Rightarrow> u32 \<Rightarrow> u32 \<Rightarrow> 'p cc_state \<Rightarrow> 'p cc_state option"
    and low :: u32
  assumes window: "kernel_grows k \<Longrightarrow> avoid k sk ack acked s = Some s' \<Longrightarrow> window_ok low (cc_socks s sk) \<Longrightarrow>
      window_ok low (cc_socks s' sk)"
    and other: "avoid k sk ack acked s = Some s' \<Longrightarrow> p \<noteq> sk \<Longrightarrow> cc_socks s' p = cc_socks s p"
begin

primrec acks :: "cc_kernel \<Rightarrow> (sk_ptr \<times> u32 \<times> u32) list \<Rightarrow> 'p cc_state \<Rightarrow> 'p cc_state option" where
  "acks k [] s = Some s"
| "acks k (a # as) s = (case avoid k (fst a) (fst (snd a)) (snd (snd a)) s of None \<Rightarrow> None
     | Some s' \<Rightarrow> acks k as s')"

lemma acks_window:
  "kernel_grows k \<Longrightarrow> acks k as s = Some s' \<Longrightarrow> \<forall>p. window_ok low (cc_socks s p) \<Longrightarrow>
   window_ok low (cc_socks s' p)"
proof (induction "as" arbitrary: s)
  case (Cons a as')
  obtain s1 where s1: "avoid k (fst a) (fst (snd a)) (snd (snd a)) s = Some s1" "acks k as' s1 = Some s'"
    using Cons.prems(2) by (auto split: option.splits)
  have "window_ok low (cc_socks s1 q)" for q
    using window [OF Cons.prems(1) s1(1)] other [OF s1(1), of q] Cons.prems(3)
    by (cases "q = fst a") (auto simp: window_ok_def)
  then show ?case using Cons.IH [OF Cons.prems(1) s1(2)] by blast
qed simp

text \<open>Subflows without an acknowledgement keep their socket.\<close>

lemma acks_other:
  "acks k as s = Some s' \<Longrightarrow> p \<notin> fst ` set as \<Longrightarrow> cc_socks s' p = cc_socks s p"
  by (induction "as" arbitrary: s) (auto split: option.splits simp: other)

end

text \<open>A kernel for closed instances of the properties.\<close>

definition sample_kernel :: cc_kernel where
  "sample_kernel = \<lparr>tcp_slow_start = (\<lambda>tp acked. tp), tcp_reno_cong_avoid = (\<lambda>tp ack acked. tp),
     tcp_reno_ssthresh = (\<lambda>tp. 2), tcp_current_ssthresh = snd_ssthresh\<rparr>"

end
