(* ===== verification/Cc_Lia.thy ===== *)
theory Cc_Lia
  imports Cc_State
begin

text \<open>
  The linked-increase congestion control (\<open>net/mptcp/mptcp_coupled.c\<close>): one \<open>alpha\<close> per connection limits the
  growth of the windows of all subflows.

  C values of type int that hold a window or a round-trip time are kept as their 32-bit word and
  sign-extended where the code widens them to 64 bits.
\<close>

section \<open>State and operations\<close>

record mptcp_ccc =
  ccc_alpha :: u64
  ccc_forced_update :: bool

definition alpha_scale_den :: nat where "alpha_scale_den = 10"
definition alpha_scale_num :: nat where "alpha_scale_num = 32"
definition alpha_scale :: nat where "alpha_scale = 12"

definition mptcp_set_alpha :: "u64 \<Rightarrow> mptcp_ccc cc_state \<Rightarrow> mptcp_ccc cc_state" where
  "mptcp_set_alpha alpha s = upd_ca (cc_meta s) (\<lambda>c. c\<lparr>ccc_alpha := alpha\<rparr>) s"

definition mptcp_set_forced :: "bool \<Rightarrow> mptcp_ccc cc_state \<Rightarrow> mptcp_ccc cc_state" where
  "mptcp_set_forced force s = upd_ca (cc_meta s) (\<lambda>c. c\<lparr>ccc_forced_update := force\<rparr>) s"

definition mptcp_get_alpha :: "mptcp_ccc cc_state \<Rightarrow> u64" where
  "mptcp_get_alpha s = ccc_alpha (cc_ca s (cc_meta s))"

definition mptcp_get_forced :: "mptcp_ccc cc_state \<Rightarrow> bool" where
  "mptcp_get_forced s = ccc_forced_update (cc_ca s (cc_meta s))"

text \<open>The first loop: the maximum of the numerators and its window and round-trip time.\<close>

record ccc_best =
  max_numerator :: u64
  best_cwnd :: u32
  best_rtt :: u32

definition ccc_numerator :: "tcp_sock \<Rightarrow> u64" where
  "ccc_numerator tp = cc_scale (ucast (snd_cwnd tp)) alpha_scale_num div (ucast (srtt_us tp) * ucast (srtt_us tp))"

definition ccc_best_step :: "tcp_sock \<Rightarrow> ccc_best \<Rightarrow> ccc_best" where
  "ccc_best_step tp b = (if ccc_numerator tp \<ge> max_numerator b
     then \<lparr>max_numerator = ccc_numerator tp, best_cwnd = snd_cwnd tp, best_rtt = srtt_us tp\<rparr> else b)"

definition ccc_find_best :: "tcp_sock list \<Rightarrow> ccc_best" where
  "ccc_find_best tps = fold ccc_best_step tps \<lparr>max_numerator = 0, best_cwnd = 0, best_rtt = 0\<rparr>"

text \<open>The second loop.\<close>

definition ccc_term :: "u32 \<Rightarrow> tcp_sock \<Rightarrow> u64" where
  "ccc_term rtt tp = cc_scale (ucast (snd_cwnd tp)) alpha_scale_den * scast rtt div ucast (srtt_us tp)"

definition ccc_sum_denominator :: "u32 \<Rightarrow> tcp_sock list \<Rightarrow> u64" where
  "ccc_sum_denominator rtt tps = fold (\<lambda>tp sum. sum + ccc_term rtt tp) tps 0"

definition mptcp_ccc_recalc_alpha :: "sk_ptr \<Rightarrow> mptcp_ccc cc_state \<Rightarrow> mptcp_ccc cc_state option" where
  "mptcp_ccc_recalc_alpha sk s =
     (if \<not> cc_has_mpcb s sk then Some s
      else if cc_cnt_established s \<le> 1 then Some (mptcp_set_alpha 1 s)
      else if cc_senders s = [] then Some (mptcp_set_alpha 1 s)
      else
        let b = ccc_find_best (cc_senders s);
            sum = ccc_sum_denominator (best_rtt b) (cc_senders s);
            sum2 = sum * sum
        in if sum2 = 0 then None
           else let alpha = cc_scale (ucast (best_cwnd b)) alpha_scale_num div sum2
                in Some (mptcp_set_alpha (if alpha = 0 then 1 else alpha) s))"

definition mptcp_ccc_init :: "sk_ptr \<Rightarrow> mptcp_ccc cc_state \<Rightarrow> mptcp_ccc cc_state" where
  "mptcp_ccc_init sk s = (if cc_mptcp s sk then mptcp_set_alpha 1 (mptcp_set_forced False s) else s)"

definition mptcp_ccc_cwnd_event ::
  "sk_ptr \<Rightarrow> tcp_ca_event \<Rightarrow> mptcp_ccc cc_state \<Rightarrow> mptcp_ccc cc_state option" where
  "mptcp_ccc_cwnd_event sk event s =
     (if event = CA_EVENT_LOSS then mptcp_ccc_recalc_alpha sk s else Some s)"

definition mptcp_ccc_set_state :: "sk_ptr \<Rightarrow> ca_state \<Rightarrow> mptcp_ccc cc_state \<Rightarrow> mptcp_ccc cc_state" where
  "mptcp_ccc_set_state sk ca_state s = (if \<not> cc_mptcp s sk then s else mptcp_set_forced True s)"

text \<open>The number of acknowledgements after which the window grows; \<open>div_u64\<close> takes a divisor of 32 bits.\<close>

definition ccc_threshold :: "sk_ptr \<Rightarrow> mptcp_ccc cc_state \<Rightarrow> u32 option" where
  "ccc_threshold sk s =
     (let cwnd = snd_cwnd (cc_socks s sk)
      in if cc_cnt_established s > 1
         then let alpha = mptcp_get_alpha s; alpha = (if alpha = 0 then 1 else alpha);
                  divisor = ucast (ucast alpha :: u32) :: u64
              in if divisor = 0 then None
                 else Some (max (ucast (cc_scale 1 alpha_scale div divisor)) cwnd)
         else Some cwnd)"

text \<open>Counting one acknowledgement against the threshold.\<close>

definition ccc_count :: "sk_ptr \<Rightarrow> u32 \<Rightarrow> mptcp_ccc cc_state \<Rightarrow> mptcp_ccc cc_state option" where
  "ccc_count sk threshold s =
     (if snd_cwnd_cnt (cc_socks s sk) \<ge> threshold
      then map_option (upd_sock sk (\<lambda>tp. tp\<lparr>snd_cwnd_cnt := 0\<rparr>))
             (if snd_cwnd (cc_socks s sk) < snd_cwnd_clamp (cc_socks s sk)
              then mptcp_ccc_recalc_alpha sk (upd_sock sk (\<lambda>tp. tp\<lparr>snd_cwnd := snd_cwnd tp + 1\<rparr>) s)
              else Some s)
      else Some (upd_sock sk (\<lambda>tp. tp\<lparr>snd_cwnd_cnt := snd_cwnd_cnt tp + 1\<rparr>) s))"

definition mptcp_ccc_cong_avoid ::
  "cc_kernel \<Rightarrow> sk_ptr \<Rightarrow> u32 \<Rightarrow> u32 \<Rightarrow> mptcp_ccc cc_state \<Rightarrow> mptcp_ccc cc_state option" where
  "mptcp_ccc_cong_avoid k sk ack acked s =
     (if \<not> cc_mptcp s sk then Some (upd_sock sk (\<lambda>tp. tcp_reno_cong_avoid k tp ack acked) s)
      else if \<not> tcp_is_cwnd_limited (cc_socks s sk) then Some s
      else if snd_cwnd (cc_socks s sk) \<le> snd_ssthresh (cc_socks s sk)
      then mptcp_ccc_recalc_alpha sk (upd_sock sk (\<lambda>tp. tcp_slow_start k tp acked) s)
      else do {
        s1 \<leftarrow> (if mptcp_get_forced s
                then map_option (mptcp_set_forced False) (mptcp_ccc_recalc_alpha sk s) else Some s);
        threshold \<leftarrow> ccc_threshold sk s1;
        ccc_count sk threshold s1
      })"

section \<open>The contract\<close>

lemma set_alpha_sel [simp]:
  "cc_socks (mptcp_set_alpha a s) = cc_socks s" "cc_cnt_established (mptcp_set_alpha a s) = cc_cnt_established s"
  "cc_mptcp (mptcp_set_alpha a s) = cc_mptcp s" "mptcp_get_alpha (mptcp_set_alpha a s) = a"
  "cc_socks (mptcp_set_forced f s) = cc_socks s" "cc_cnt_established (mptcp_set_forced f s) = cc_cnt_established s"
  "cc_mptcp (mptcp_set_forced f s) = cc_mptcp s" "mptcp_get_alpha (mptcp_set_forced f s) = mptcp_get_alpha s"
  "cc_senders (mptcp_set_alpha a s) = cc_senders s" "cc_senders (mptcp_set_forced f s) = cc_senders s"
  by (simp_all add: mptcp_set_alpha_def mptcp_set_forced_def mptcp_get_alpha_def cc_senders_def)

lemma recalc_alpha_socks:
  "mptcp_ccc_recalc_alpha sk s = Some s' \<Longrightarrow> cc_socks s' = cc_socks s \<and> cc_mptcp s' = cc_mptcp s"
  by (auto simp: mptcp_ccc_recalc_alpha_def Let_def split: if_splits)

lemma ccc_threshold_reno: "ccc_threshold sk s = Some t \<Longrightarrow> snd_cwnd (cc_socks s sk) \<le> t"
  by (auto simp: ccc_threshold_def Let_def split: if_splits)

lemma cong_avoid_step:
  assumes "mptcp_ccc_cong_avoid k sk ack acked s = Some s'"
  shows "cc_mptcp s' = cc_mptcp s \<and> (\<exists>t tp. cc_socks s' = (cc_socks s)(sk := tp) \<and> snd_cwnd (cc_socks s sk) \<le> t \<and>
    ca_step k (cc_mptcp s sk) ack acked t (cc_socks s sk) tp)"
proof (cases "cc_mptcp s sk \<and> tcp_is_cwnd_limited (cc_socks s sk) \<and> \<not> snd_cwnd (cc_socks s sk) \<le> snd_ssthresh (cc_socks s sk)")
  case False
  then show ?thesis
    using assms
    by (intro conjI exI [of _ "snd_cwnd (cc_socks s sk)"] exI [of _ "cc_socks s' sk"])
       (auto simp: mptcp_ccc_cong_avoid_def ca_step_def dest!: recalc_alpha_socks
        intro: avoid_step.idle split: if_splits)
next
  case True
  then have "(if mptcp_get_forced s then map_option (mptcp_set_forced False) (mptcp_ccc_recalc_alpha sk s)
      else Some s) \<bind> (\<lambda>s1. ccc_threshold sk s1 \<bind> (\<lambda>t. ccc_count sk t s1)) = Some s'"
    using assms by (simp add: mptcp_ccc_cong_avoid_def)
  then obtain s1 t where f: "(if mptcp_get_forced s then map_option (mptcp_set_forced False) (mptcp_ccc_recalc_alpha sk s)
      else Some s) = Some s1" and t: "ccc_threshold sk s1 = Some t" and s': "ccc_count sk t s1 = Some s'"
    by (auto simp: bind_eq_Some_conv)
  have s1: "cc_socks s1 = cc_socks s" "cc_mptcp s1 = cc_mptcp s"
    using f by (auto dest!: recalc_alpha_socks split: if_splits)
  have "\<exists>tp. cc_mptcp s' = cc_mptcp s \<and> cc_socks s' = (cc_socks s)(sk := tp) \<and> avoid_step t (cc_socks s sk) tp"
    using s' s1
    by (auto simp: ccc_count_def not_le intro!: avoid_step.intros dest!: recalc_alpha_socks split: if_splits)
  then show ?thesis using ccc_threshold_reno [OF t] s1 True by (auto simp: ca_step_def)
qed

interpretation lia: cong_control mptcp_ccc_cong_avoid low
  by unfold_locales (use cong_avoid_step ca_step_window in \<open>(fastforce)+\<close>)

text \<open>C38. Friendliness.  Over any run of acknowledgements, also of other subflows, the window of a subflow in
  congestion avoidance never exceeds the window a Reno flow has after the same acknowledgements.\<close>

theorem mptcp_ccc_cong_avoid_reno:
  assumes "lia.acks k as s = Some s'" and "cc_mptcp s sk" and "snd_ssthresh (cc_socks s sk) < snd_cwnd (cc_socks s sk)"
  shows "unat (snd_cwnd (cc_socks s' sk)) \<le>
    fst ((reno_step ^^ length (filter (\<lambda>a. fst a = sk) as)) (flow (cc_socks s sk)))"
proof -
  have "flow (cc_socks s' sk) \<le> (reno_step ^^ length (filter (\<lambda>a. fst a = sk) as)) r"
    if "flow (cc_socks s sk) \<le> r" for r
    using assms that
  proof (induction "as" arbitrary: s r)
    case (Cons a as')
    let ?tp = "cc_socks s sk"
    obtain s1 where s1: "mptcp_ccc_cong_avoid k (fst a) (fst (snd a)) (snd (snd a)) s = Some s1"
      and rest: "lia.acks k as' s1 = Some s'" using Cons.prems(1) by (auto split: option.splits)
    from cong_avoid_step [OF s1] obtain t tp where mp: "cc_mptcp s1 = cc_mptcp s"
      and tp: "cc_socks s1 = (cc_socks s)(fst a := tp)" "snd_cwnd (cc_socks s (fst a)) \<le> t"
        "ca_step k (cc_mptcp s (fst a)) (fst (snd a)) (snd (snd a)) t (cc_socks s (fst a)) tp" by blast
    show ?case
    proof (cases "fst a = sk")
      case False
      then show ?thesis using Cons.IH [OF rest] Cons.prems mp tp(1) by simp
    next
      case True
      then have st: "avoid_step t ?tp tp" using tp(3) Cons.prems(2,3) by (simp add: ca_step_def)
      then have le: "flow tp \<le> reno_step r" using avoid_step_reno tp(2) Cons.prems(4) True by blast
      have thr: "snd_ssthresh tp < snd_cwnd tp" using avoid_step_keeps [OF st] Cons.prems(3) by (metis order_less_le_trans)
      from Cons.IH [OF rest, of "reno_step r"] show ?thesis
        using True mp tp(1) le thr Cons.prems(2) by (simp add: funpow_swap1)
    qed
  qed simp
  from this [OF order_refl] show ?thesis by (auto simp: less_eq_prod_def flow_def case_prod_beta)
qed

section \<open>The value of alpha\<close>

lemma unat_scast_small:
  assumes "unat (r::u32) < 2 ^ 31"
  shows "unat (scast r :: u64) = unat r"
proof -
  have "(scast r :: u64) = word_of_int (int (unat r))"
    using sint_small32 [OF assms] by (simp add: scast_eq)
  then have "(scast r :: u64) = ucast r" by (simp add: unsigned_def)
  then show ?thesis by simp
qed

lemma unat_ccc_term:
  assumes "unat rtt < 2 ^ 31" and "unat (snd_cwnd tp) * 2 ^ 10 * unat rtt < 2 ^ 64"
  shows "unat (ccc_term rtt tp) = unat (snd_cwnd tp) * 2 ^ 10 * unat rtt div unat (srtt_us tp)"
proof -
  have "unat (cc_scale (ucast (snd_cwnd tp)) alpha_scale_den) = unat (snd_cwnd tp) * 2 ^ 10"
    using unat_bound [of "snd_cwnd tp"] unat_scale [of "ucast (snd_cwnd tp)" 10]
    by (simp add: alpha_scale_den_def)
  then show ?thesis
    using assms(2) unat_scast_small [OF assms(1)]
    by (simp add: ccc_term_def unat_div unat_word_ariths)
qed

lemma ccc_find_best:
  assumes "tps \<noteq> []"
  shows "\<exists>tp \<in> set tps. best_cwnd (ccc_find_best tps) = snd_cwnd tp \<and> best_rtt (ccc_find_best tps) = srtt_us tp \<and>
    max_numerator (ccc_find_best tps) = ccc_numerator tp \<and> (\<forall>tq \<in> set tps. ccc_numerator tq \<le> ccc_numerator tp)"
  using assms
proof (induction tps rule: rev_induct)
  case (snoc tp tps)
  show ?case
  proof (cases "tps = []")
    case True
    then show ?thesis by (simp add: ccc_find_best_def ccc_best_step_def)
  next
    case False
    note tp = snoc.IH [OF False]
    have "ccc_find_best (tps @ [tp]) = ccc_best_step tp (ccc_find_best tps)" by (simp add: ccc_find_best_def)
    with tp show ?thesis by (auto simp: ccc_best_step_def intro: order_trans)
  qed
qed simp

text \<open>The bound on the windows and the ratios of the round-trip times: 22 bits for their product with the number of
  subflows.\<close>

definition ccc_moderate :: "tcp_sock list \<Rightarrow> bool" where
  "ccc_moderate tps \<longleftrightarrow> (\<forall>tp \<in> set tps. 1 \<le> snd_cwnd tp \<and> unat (srtt_us tp) < 2 ^ 31 \<and> srtt_us tp \<noteq> 0 \<and>
     (\<forall>tq \<in> set tps. length tps * unat (snd_cwnd tp) * unat (srtt_us tq) < 2 ^ 22 * unat (srtt_us tp)))"

lemma ccc_moderate_term:
  assumes mod: "ccc_moderate tps" and tp: "tp \<in> set tps" and tq: "tq \<in> set tps"
  shows "unat (ccc_term (srtt_us tq) tp) = unat (snd_cwnd tp) * 2 ^ 10 * unat (srtt_us tq) div unat (srtt_us tp)"
    and "length tps * unat (ccc_term (srtt_us tq) tp) < 2 ^ 32"
proof -
  let ?n = "length tps" and ?w = "unat (snd_cwnd tp)" and ?r = "unat (srtt_us tq)" and ?d = "unat (srtt_us tp)"
  have n: "1 \<le> ?n" using tp by (cases tps) auto
  have b: "?r < 2 ^ 31" "?d < 2 ^ 31" "?n * ?w * ?r < 2 ^ 22 * ?d" and d: "0 < ?d"
    using mod tp tq by (auto simp: ccc_moderate_def unat_gt_0)
  have "?w * ?r \<le> ?n * ?w * ?r" using mult_le_mono1 [OF n, of "?w * ?r"] by (simp add: mult.assoc)
  also have "\<dots> < 2 ^ 22 * ?d" by (rule b(3))
  also have "\<dots> < 2 ^ 53" using b(2) by simp
  finally have "?w * ?r < 2 ^ 53" .
  then have "?w * 2 ^ 10 * ?r < 2 ^ 64" by simp
  from unat_ccc_term [OF b(1) this]
  show eq: "unat (ccc_term (srtt_us tq) tp) = ?w * 2 ^ 10 * ?r div ?d" .
  have "?n * (?w * 2 ^ 10 * ?r div ?d) * ?d \<le> ?n * (?w * 2 ^ 10 * ?r)"
    by (metis div_times_less_eq_dividend mult.assoc mult_le_mono2)
  also have "\<dots> < 2 ^ 32 * ?d" using b(3) by simp
  finally show "length tps * unat (ccc_term (srtt_us tq) tp) < 2 ^ 32" by (simp add: eq)
qed

lemma ccc_moderate_sum:
  assumes mod: "ccc_moderate tps" and tq: "tq \<in> set tps"
  shows "unat (snd_cwnd tq) * 2 ^ 10 \<le> unat (ccc_sum_denominator (srtt_us tq) tps) \<and>
    unat (ccc_sum_denominator (srtt_us tq) tps) < 2 ^ 32"
proof -
  let ?f = "ccc_term (srtt_us tq)"
  have S: "(\<Sum>tp\<leftarrow>tps. unat (?f tp)) < 2 ^ 32"
    using ccc_moderate_term(2) [OF mod _ tq] by (intro sum_list_below) auto
  then have sum: "unat (ccc_sum_denominator (srtt_us tq) tps) = (\<Sum>tp\<leftarrow>tps. unat (?f tp))"
    using unat_sum_fold [of 0 ?f tps] by (simp add: ccc_sum_denominator_def)
  have "unat (?f tq) \<le> (\<Sum>tp\<leftarrow>tps. unat (?f tp))"
    using tq by (intro member_le_sum_list) auto
  moreover have "0 < unat (srtt_us tq)" using mod tq by (auto simp: ccc_moderate_def unat_gt_0)
  then have "unat (?f tq) = unat (snd_cwnd tq) * 2 ^ 10"
    using ccc_moderate_term(1) [OF mod tq tq] by simp
  ultimately show ?thesis using S sum by simp
qed

lemma recalc_alpha_moderate:
  assumes "ccc_moderate (cc_senders s)" and "cc_has_mpcb s sk"
  shows "\<exists>s'. mptcp_ccc_recalc_alpha sk s = Some s' \<and> 1 \<le> mptcp_get_alpha s' \<and> mptcp_get_alpha s' \<le> 4096"
proof (cases "cc_cnt_established s \<le> 1 \<or> cc_senders s = []")
  case True
  then show ?thesis using assms(2) by (auto simp: mptcp_ccc_recalc_alpha_def)
next
  case False
  then obtain tq where tq: "tq \<in> set (cc_senders s)" "best_cwnd (ccc_find_best (cc_senders s)) = snd_cwnd tq"
    "best_rtt (ccc_find_best (cc_senders s)) = srtt_us tq" using ccc_find_best by blast
  define d w where "d = ccc_sum_denominator (srtt_us tq) (cc_senders s)" and "w = unat (snd_cwnd tq)"
  have d: "w * 2 ^ 10 \<le> unat d" "unat d < 2 ^ 32" using ccc_moderate_sum [OF assms(1) tq(1)] by (simp_all add: d_def w_def)
  have w: "1 \<le> w" using assms(1) tq(1) by (auto simp: ccc_moderate_def w_def word_le_nat_alt)
  have "unat d * unat d < 2 ^ 32 * 2 ^ 32" using d(2) by (intro mult_strict_mono) auto
  then have dd: "unat (d * d) = unat d * unat d" by (simp add: unat_word_ariths)
  have "w * 2 ^ 32 div (unat d * unat d) \<le> w * 2 ^ 32 div (w * 2 ^ 10 * (w * 2 ^ 10))"
    using d(1) w by (intro div_le_mono2 mult_le_mono) auto
  also have "\<dots> = 2 ^ 12 div w" using w by simp
  also have "\<dots> \<le> 4096" by simp
  finally have le: "w * 2 ^ 32 div (unat d * unat d) \<le> 4096" .
  define a where "a = cc_scale (ucast (snd_cwnd tq)) alpha_scale_num div (d * d)"
  have "unat a = w * 2 ^ 32 div (unat d * unat d)"
    using unat_bound [of "snd_cwnd tq"] unat_scale [of "ucast (snd_cwnd tq)" 32]
    by (simp add: a_def unat_div dd w_def alpha_scale_num_def)
  then have "a \<le> 4096" using le by (simp add: word_le_nat_alt)
  moreover have "d * d \<noteq> 0" using d(1) w dd by (metis mult_is_0 not_one_le_zero le_zero_eq unat_0 power_not_zero numeral_neq_zero zero_neq_numeral)
  moreover have "1 \<le> a" if "a \<noteq> 0" using that by (simp add: word_le_nat_alt unat_gt_0 Suc_le_eq)
  ultimately show ?thesis
    using False assms(2) tq by (auto simp: mptcp_ccc_recalc_alpha_def Let_def d_def [symmetric] a_def [symmetric])
qed

text \<open>No division by zero.  For moderate windows and round-trip times the new \<open>alpha\<close> exists, is between 1
  and \<open>2^12\<close>, and the next acknowledgement finds a threshold.\<close>

lemma mptcp_ccc_recalc_alpha_bounds:
  assumes "ccc_moderate (cc_senders s)" and "cc_has_mpcb s sk"
  shows "\<exists>s'. mptcp_ccc_recalc_alpha sk s = Some s' \<and> 1 \<le> mptcp_get_alpha s' \<and> mptcp_get_alpha s' \<le> 4096 \<and>
    ccc_threshold sk s' \<noteq> None"
proof -
  obtain s' where s': "mptcp_ccc_recalc_alpha sk s = Some s'" "1 \<le> mptcp_get_alpha s'" "mptcp_get_alpha s' \<le> 4096"
    using recalc_alpha_moderate [OF assms] by blast
  have "(ucast (ucast (mptcp_get_alpha s') :: u32) :: u64) = mptcp_get_alpha s'"
    using s'(3) by (intro ucast_back) (simp add: word_le_nat_alt)
  then have "ccc_threshold sk s' \<noteq> None" using s'(2) by (auto simp: ccc_threshold_def Let_def)
  with s' show ?thesis by blast
qed

section \<open>Closed instances\<close>

text \<open>Two subflows in congestion avoidance; the first one has counted ten acknowledgements.\<close>

definition sample_lia :: "mptcp_ccc cc_state" where
  "sample_lia = \<lparr>cc_socks = (\<lambda>p. sample_sock\<lparr>snd_cwnd := 10, snd_cwnd_cnt := (if p = 1 then 10 else 0),
       snd_cwnd_clamp := 100, snd_ssthresh := 5, srtt_us := 800, tcp_is_cwnd_limited := True\<rparr>),
     cc_ca = (\<lambda>_. \<lparr>ccc_alpha = 1024, ccc_forced_update = False\<rparr>), cc_conns = [1, 2], cc_meta = 0,
     cc_cnt_established = 2, cc_mptcp = (\<lambda>_. True), cc_has_mpcb = (\<lambda>_. True)\<rparr>"

lemma sample_lia_senders: "ccc_moderate (cc_senders sample_lia)"
  by (simp add: ccc_moderate_def cc_senders_def sample_lia_def cc_sk_can_send_def mptcp_sk_can_send_def sample_sock_def)

lemma mptcp_ccc_recalc_alpha_bounds_witness:
  "\<exists>s'. mptcp_ccc_recalc_alpha 1 sample_lia = Some s' \<and> mptcp_get_alpha s' \<le> 4096"
  using mptcp_ccc_recalc_alpha_bounds [OF sample_lia_senders, of 1] by (auto simp: sample_lia_def)

theorem mptcp_ccc_cong_avoid_reno_witness:
  "\<exists>s'. lia.acks sample_kernel [(2, 0, 1), (1, 0, 1)] sample_lia = Some s' \<and> snd_cwnd (cc_socks s' 1) = 11 \<and>
     unat (snd_cwnd (cc_socks s' 1)) \<le> fst (reno_step (10, 10))"
proof -
  let ?as = "[(2, 0, 1), (1, 0, 1)] :: (sk_ptr \<times> u32 \<times> u32) list"
  have thr: "ccc_threshold p sample_lia = Some 10" for p
    by (simp add: ccc_threshold_def sample_lia_def mptcp_get_alpha_def cc_scale_def alpha_scale_def)
  let ?s1 = "upd_sock 2 (\<lambda>tp. tp\<lparr>snd_cwnd_cnt := snd_cwnd_cnt tp + 1\<rparr>) sample_lia"
  have s1: "mptcp_ccc_cong_avoid sample_kernel 2 0 1 sample_lia = Some ?s1"
    using thr [of 2] by (simp add: mptcp_ccc_cong_avoid_def ccc_count_def mptcp_get_forced_def)
       (simp add: sample_lia_def)
  have "ccc_threshold 1 ?s1 = Some 10"
    by (simp add: ccc_threshold_def sample_lia_def mptcp_get_alpha_def cc_scale_def alpha_scale_def)
  let ?s2 = "upd_sock 1 (\<lambda>tp. tp\<lparr>snd_cwnd := snd_cwnd tp + 1\<rparr>) ?s1"
  have "ccc_moderate (cc_senders ?s2)"
    by (simp add: ccc_moderate_def cc_senders_def sample_lia_def cc_sk_can_send_def mptcp_sk_can_send_def sample_sock_def upd_sock_def)
  then obtain s3 where s3: "mptcp_ccc_recalc_alpha 1 ?s2 = Some s3"
    using recalc_alpha_moderate [of ?s2 1] by (auto simp: sample_lia_def)
  have "\<exists>s'. lia.acks sample_kernel ?as sample_lia = Some s' \<and> snd_cwnd (cc_socks s' 1) = 11"
    using s1 \<open>ccc_threshold 1 ?s1 = Some 10\<close> s3 recalc_alpha_socks [OF s3]
    by (simp add: mptcp_ccc_cong_avoid_def ccc_count_def mptcp_get_forced_def) (simp add: sample_lia_def)
  then show ?thesis
    using mptcp_ccc_cong_avoid_reno [of sample_kernel ?as sample_lia _ 1]
    by (fastforce simp: sample_lia_def flow_def)
qed

text \<open>With round-trip times of a tenth of a second and windows of ten segments all numerators are 0, so that the
  last subflow is taken for the best one, also when it is the slower one.\<close>

lemma ccc_find_best_truncated:
  assumes "\<forall>tq \<in> set (tps @ [tp]). ccc_numerator tq = 0"
  shows "best_cwnd (ccc_find_best (tps @ [tp])) = snd_cwnd tp \<and> best_rtt (ccc_find_best (tps @ [tp])) = srtt_us tp"
  using assms ccc_find_best [of tps]
  by (cases "tps = []") (auto simp: ccc_find_best_def ccc_best_step_def)

lemma ccc_numerator_truncated:
  "ccc_numerator (tp\<lparr>snd_cwnd := 10, srtt_us := 800000\<rparr>) = 0" "ccc_numerator (tp\<lparr>snd_cwnd := 10, srtt_us := 1600000\<rparr>) = 0"
  by (simp_all add: ccc_numerator_def cc_scale_def alpha_scale_num_def)

end
