(* ===== verification/Cc_Olia.thy ===== *)
theory Cc_Olia
  imports Cc_State
begin

text \<open>
  The opportunistic linked increase (\<open>net/mptcp/mptcp_olia.c\<close>): subflows of the best quality that do not have the
  largest window grow faster, at the cost of those with the largest window.

  The counter of an unfinished segment is a C int, kept as its 32-bit word.
\<close>

section \<open>State and operations\<close>

record mptcp_olia =
  mptcp_loss1 :: u32
  mptcp_loss2 :: u32
  mptcp_loss3 :: u32
  epsilon_num :: int
  epsilon_den :: u32
  mptcp_snd_cwnd_cnt :: u32

definition olia_scale :: nat where "olia_scale = 10"

definition mptcp_get_crt_cwnd :: "tcp_sock \<Rightarrow> u32" where
  "mptcp_get_crt_cwnd tp = (if icsk_ca_state tp = TCP_CA_Recovery then snd_ssthresh tp else snd_cwnd tp)"

definition mptcp_get_rate :: "mptcp_olia cc_state \<Rightarrow> u32 \<Rightarrow> u64" where
  "mptcp_get_rate s path_rtt =
     (let rate = fold (\<lambda>tp rate. rate + cc_scale (ucast (mptcp_get_crt_cwnd tp)) olia_scale * ucast path_rtt div
                         ucast (srtt_us tp)) (cc_senders s) 1
      in rate * rate)"

definition mptcp_get_max_cwnd :: "mptcp_olia cc_state \<Rightarrow> u32" where
  "mptcp_get_max_cwnd s =
     fold (\<lambda>tp best_cwnd. if mptcp_get_crt_cwnd tp > best_cwnd then mptcp_get_crt_cwnd tp else best_cwnd)
       (cc_senders s) 0"

text \<open>The pointers of the subflows that can send; \<open>tmp_rtt\<close> and \<open>tmp_int\<close> of a subflow.\<close>

definition olia_senders :: "mptcp_olia cc_state \<Rightarrow> sk_ptr list" where
  "olia_senders s = filter (\<lambda>sk. cc_sk_can_send (cc_socks s sk)) (cc_conns s)"

definition olia_rtt :: "mptcp_olia cc_state \<Rightarrow> sk_ptr \<Rightarrow> u64" where
  "olia_rtt s sk = ucast (srtt_us (cc_socks s sk)) * ucast (srtt_us (cc_socks s sk))"

definition olia_int :: "mptcp_olia cc_state \<Rightarrow> sk_ptr \<Rightarrow> u64" where
  "olia_int s sk = (let ca = cc_ca s sk
     in ucast (max (mptcp_loss3 ca - mptcp_loss2 ca) (mptcp_loss2 ca - mptcp_loss1 ca)))"

text \<open>The best path: \<open>best_int\<close> and \<open>best_rtt\<close>.\<close>

definition olia_best_step :: "mptcp_olia cc_state \<Rightarrow> sk_ptr \<Rightarrow> u64 \<times> u64 \<Rightarrow> u64 \<times> u64" where
  "olia_best_step s sk b =
     (if olia_int s sk * snd b \<ge> fst b * olia_rtt s sk then (olia_int s sk, olia_rtt s sk) else b)"

definition olia_best :: "mptcp_olia cc_state \<Rightarrow> u64 \<times> u64" where
  "olia_best s = fold (olia_best_step s) (olia_senders s) (0, 1)"

definition olia_is_best :: "mptcp_olia cc_state \<Rightarrow> sk_ptr \<Rightarrow> bool" where
  "olia_is_best s sk \<longleftrightarrow> olia_int s sk * snd (olia_best s) = fst (olia_best s) * olia_rtt s sk"

text \<open>The sizes of \<open>M\<close> and \<open>B_not_M\<close>, counted in bytes.\<close>

definition olia_sizes :: "mptcp_olia cc_state \<Rightarrow> u8 \<times> u8" where
  "olia_sizes s = fold (\<lambda>sk (M, B_not_M).
       if mptcp_get_crt_cwnd (cc_socks s sk) = mptcp_get_max_cwnd s then (M + 1, B_not_M)
       else if olia_is_best s sk then (M, B_not_M + 1) else (M, B_not_M)) (olia_senders s) (0, 0)"

definition olia_epsilon :: "mptcp_olia cc_state \<Rightarrow> sk_ptr \<Rightarrow> int \<times> u32" where
  "olia_epsilon s sk =
     (let tmp_cwnd = mptcp_get_crt_cwnd (cc_socks s sk); max_cwnd = mptcp_get_max_cwnd s; (M, B_not_M) = olia_sizes s
      in if B_not_M = 0 then (0, 1)
         else if tmp_cwnd < max_cwnd \<and> olia_is_best s sk then (1, ucast (cc_cnt_established s) * ucast B_not_M)
         else if tmp_cwnd = max_cwnd then (- 1, ucast (cc_cnt_established s) * ucast M)
         else (0, 1))"

text \<open>The last loop writes what no loop reads.\<close>

definition mptcp_get_epsilon :: "mptcp_olia cc_state \<Rightarrow> mptcp_olia cc_state" where
  "mptcp_get_epsilon s = s\<lparr>cc_ca := \<lambda>sk.
     if sk \<in> set (olia_senders s)
     then (cc_ca s sk)\<lparr>epsilon_num := fst (olia_epsilon s sk), epsilon_den := snd (olia_epsilon s sk)\<rparr>
     else cc_ca s sk\<rparr>"

definition mptcp_olia_init :: "sk_ptr \<Rightarrow> mptcp_olia cc_state \<Rightarrow> mptcp_olia cc_state" where
  "mptcp_olia_init sk s =
     (let una = snd_una (cc_socks s sk)
      in if cc_mptcp s sk
         then upd_ca sk (\<lambda>_. \<lparr>mptcp_loss1 = una, mptcp_loss2 = una, mptcp_loss3 = una, epsilon_num = 0,
                epsilon_den = 1, mptcp_snd_cwnd_cnt = 0\<rparr>) s
         else s)"

definition mptcp_olia_set_state :: "sk_ptr \<Rightarrow> ca_state \<Rightarrow> mptcp_olia cc_state \<Rightarrow> mptcp_olia cc_state" where
  "mptcp_olia_set_state sk new_state s =
     (if \<not> cc_mptcp s sk then s
      else if (new_state = TCP_CA_Loss \<or> new_state = TCP_CA_Recovery \<or> new_state = TCP_CA_CWR) \<and>
         mptcp_loss3 (cc_ca s sk) \<noteq> mptcp_loss2 (cc_ca s sk) \<and> icsk_retransmits (cc_socks s sk) = 0
      then upd_ca sk (\<lambda>ca. ca\<lparr>mptcp_loss1 := mptcp_loss2 ca, mptcp_loss2 := mptcp_loss3 ca\<rparr>) s
      else s)"

text \<open>The new value of the counter of an acknowledgement in congestion avoidance.\<close>

definition olia_increase :: "tcp_sock \<Rightarrow> mptcp_olia \<Rightarrow> u64 \<Rightarrow> u32" where
  "olia_increase tp ca rate =
     (let cwnd_scaled = cc_scale (ucast (snd_cwnd tp)) olia_scale; den = ucast (epsilon_den ca) :: u64;
          prod = ucast (epsilon_den ca * snd_cwnd tp) * rate; inc_den = (if prod = 0 then 1 else prod);
          cnt = mptcp_snd_cwnd_cnt ca
      in if epsilon_num ca = - 1
         then (if den * cwnd_scaled * cwnd_scaled < rate
               then ucast (scast cnt - cc_scale (rate - den * cwnd_scaled * cwnd_scaled) olia_scale div inc_den)
               else ucast (scast cnt + cc_scale (den * cwnd_scaled * cwnd_scaled - rate) olia_scale div inc_den))
         else ucast (scast cnt + cc_scale (word_of_int (epsilon_num ca) * rate + den * cwnd_scaled * cwnd_scaled)
                 olia_scale div inc_den))"

text \<open>A full segment in the counter, in either direction.\<close>

definition olia_apply :: "sk_ptr \<Rightarrow> mptcp_olia cc_state \<Rightarrow> mptcp_olia cc_state" where
  "olia_apply sk s =
     (let cnt = sint (mptcp_snd_cwnd_cnt (cc_ca s sk)); tp = cc_socks s sk; reset = upd_ca sk (\<lambda>ca. ca\<lparr>mptcp_snd_cwnd_cnt := 0\<rparr>)
      in if cnt \<ge> 2 ^ olia_scale - 1
         then reset (if snd_cwnd tp < snd_cwnd_clamp tp then upd_sock sk (\<lambda>tp. tp\<lparr>snd_cwnd := snd_cwnd tp + 1\<rparr>) s else s)
         else if cnt \<le> 0 - 2 ^ olia_scale + 1
         then reset (upd_sock sk (\<lambda>tp. tp\<lparr>snd_cwnd := word_of_int (max 1 (s32 (sint (snd_cwnd tp) - 1)))\<rparr>) s)
         else s)"

definition mptcp_olia_cong_avoid ::
  "cc_kernel \<Rightarrow> sk_ptr \<Rightarrow> u32 \<Rightarrow> u32 \<Rightarrow> mptcp_olia cc_state \<Rightarrow> mptcp_olia cc_state" where
  "mptcp_olia_cong_avoid k sk ack acked s =
     (if \<not> cc_mptcp s sk then upd_sock sk (\<lambda>tp. tcp_reno_cong_avoid k tp ack acked) s
      else
        let s1 = upd_ca sk (\<lambda>ca. ca\<lparr>mptcp_loss3 := snd_una (cc_socks s sk)\<rparr>) s
        in if \<not> tcp_is_cwnd_limited (cc_socks s1 sk) then s1
           else if snd_cwnd (cc_socks s1 sk) \<le> snd_ssthresh (cc_socks s1 sk)
           then upd_sock sk (\<lambda>tp. tcp_slow_start k tp acked) s1
           else
             let s2 = mptcp_get_epsilon s1; tp = cc_socks s2 sk; rate = mptcp_get_rate s2 (srtt_us tp)
             in olia_apply sk (upd_ca sk (\<lambda>ca. ca\<lparr>mptcp_snd_cwnd_cnt := olia_increase tp ca rate\<rparr>) s2))"

section \<open>The contract\<close>

lemma get_epsilon_sel [simp]:
  "cc_socks (mptcp_get_epsilon s) = cc_socks s" "cc_mptcp (mptcp_get_epsilon s) = cc_mptcp s"
  by (simp_all add: mptcp_get_epsilon_def)

text \<open>The three outcomes of a counted acknowledgement.\<close>

lemma olia_apply_cases:
  "\<exists>tp. cc_socks (olia_apply sk s) = (cc_socks s)(sk := tp) \<and>
     (tp = cc_socks s sk \<or>
      snd_cwnd (cc_socks s sk) < snd_cwnd_clamp (cc_socks s sk) \<and> tp = (cc_socks s sk)\<lparr>snd_cwnd := snd_cwnd (cc_socks s sk) + 1\<rparr> \<or>
      tp = (cc_socks s sk)\<lparr>snd_cwnd := word_of_int (max 1 (s32 (sint (snd_cwnd (cc_socks s sk)) - 1)))\<rparr>)"
  by (rule exI [of _ "cc_socks (olia_apply sk s) sk"]) (auto simp: olia_apply_def Let_def fun_upd_idem)

lemma shrink_window:
  assumes "1 \<le> (w::u32)"
  shows "1 \<le> (word_of_int (max 1 (s32 (sint w - 1))) :: u32) \<and> word_of_int (max 1 (s32 (sint w - 1))) \<le> w"
proof -
  define x where "x = max 1 (s32 (sint w - 1))"
  have x: "1 \<le> x" "x < 2 ^ 31" using s32_range [of "sint w - 1"] by (simp_all add: x_def)
  then have ux: "uint (word_of_int x :: u32) = x" by (simp add: uint_word_of_int)
  have "x \<le> uint w"
  proof (cases "unat w < 2 ^ 31")
    case True
    define n where "n = unat w"
    have n: "1 \<le> n" "n < 2 ^ 31" using assms True by (simp_all add: n_def word_le_nat_alt)
    have "sint w = int n" using sint_small32 [OF True] by (simp add: n_def)
    then have "x = max 1 (int n - 1)" using n by (simp add: x_def)
    moreover have "uint w = int n" by (simp add: n_def)
    ultimately show ?thesis using n by simp
  next
    case False
    then have "int (2 ^ 31) \<le> int (unat w)" by (simp only: not_less of_nat_le_iff)
    then have "2 ^ 31 \<le> uint w" by simp
    with x show ?thesis by linarith
  qed
  then show ?thesis using ux x by (simp add: x_def [symmetric] word_le_def)
qed

lemma olia_apply_window:
  "window_ok 1 (cc_socks s sk) \<Longrightarrow> window_ok 1 (cc_socks (olia_apply sk s) sk)"
  using olia_apply_cases [of sk s] shrink_window [of "snd_cwnd (cc_socks s sk)"]
    word_less_grow [of "snd_cwnd (cc_socks s sk)" "snd_cwnd_clamp (cc_socks s sk)"]
  by (auto simp: window_ok_def)

lemma olia_window:
  assumes "kernel_grows k" and "window_ok 1 (cc_socks s sk)"
  shows "window_ok 1 (cc_socks (mptcp_olia_cong_avoid k sk ack acked s) sk)"
  using assms kernel_grows_reno [of k 1] kernel_grows_slow_start [of k 1]
  by (auto simp: mptcp_olia_cong_avoid_def Let_def intro!: olia_apply_window)

lemma olia_other:
  "p \<noteq> sk \<Longrightarrow> cc_socks (mptcp_olia_cong_avoid k sk ack acked s) p = cc_socks s p"
  by (simp add: mptcp_olia_cong_avoid_def Let_def olia_apply_def)

interpretation olia: cong_control "\<lambda>k sk ack acked s. Some (mptcp_olia_cong_avoid k sk ack acked s)" 1
  by unfold_locales (auto simp: olia_window olia_other)

text \<open>One acknowledgement in congestion avoidance moves the window of OLIA by at most one segment, within
  1 and the clamp, and leaves less than a segment in the counter, in both directions.\<close>

lemma mptcp_olia_cong_avoid_step:
  assumes "cc_mptcp s sk" and "tcp_is_cwnd_limited (cc_socks s sk)"
    and "snd_ssthresh (cc_socks s sk) < snd_cwnd (cc_socks s sk)"
    and "window_ok 1 (cc_socks s sk)" and "unat (snd_cwnd (cc_socks s sk)) < 2 ^ 31"
    and "s' = mptcp_olia_cong_avoid k sk ack acked s"
  shows "window_ok 1 (cc_socks s' sk) \<and>
    unat (snd_cwnd (cc_socks s' sk)) \<le> unat (snd_cwnd (cc_socks s sk)) + 1 \<and>
    unat (snd_cwnd (cc_socks s sk)) \<le> unat (snd_cwnd (cc_socks s' sk)) + 1 \<and>
    \<bar>sint (mptcp_snd_cwnd_cnt (cc_ca s' sk))\<bar> < 1023"
proof -
  obtain s2 where s': "s' = olia_apply sk s2" and s2: "cc_socks s2 = cc_socks s"
    using assms(1,2,3,6) by (auto simp: mptcp_olia_cong_avoid_def Let_def not_le)
  define n where "n = unat (snd_cwnd (cc_socks s sk))"
  have n: "1 \<le> n" "n < 2 ^ 31" using assms(4,5) by (simp_all add: n_def window_ok_def word_le_nat_alt)
  have "sint (snd_cwnd (cc_socks s sk)) = int n" using sint_small32 [OF assms(5)] by (simp add: n_def)
  then have "max 1 (s32 (sint (snd_cwnd (cc_socks s sk)) - 1)) = int (max 1 (n - 1))" using n by auto
  then have "word_of_int (max 1 (s32 (sint (snd_cwnd (cc_socks s sk)) - 1))) = (of_nat (max 1 (n - 1)) :: u32)"
    by (simp only: of_int_of_nat_eq)
  moreover have "unat (of_nat (max 1 (n - 1)) :: u32) = max 1 (n - 1)" using n by (intro unat_of_nat32) auto
  ultimately have "unat (snd_cwnd (cc_socks s' sk)) \<le> n + 1 \<and> n \<le> unat (snd_cwnd (cc_socks s' sk)) + 1"
    using olia_apply_cases [of sk s2] n word_less_Suc [of "snd_cwnd (cc_socks s sk)" "snd_cwnd_clamp (cc_socks s sk)"]
    by (auto simp: s' s2 n_def [symmetric])
  moreover have "window_ok 1 (cc_socks s' sk)" using olia_apply_window [of s2 sk] assms(4) s2 by (simp add: s')
  moreover have "\<bar>sint (mptcp_snd_cwnd_cnt (cc_ca s' sk))\<bar> < 1023"
    by (auto simp: s' olia_apply_def Let_def olia_scale_def)
  ultimately show ?thesis by (simp add: n_def)
qed

section \<open>The reference for the distribution of the increase\<close>

text \<open>Inter-loss distance and squared round-trip time as numbers.\<close>

definition dist :: "mptcp_olia cc_state \<Rightarrow> sk_ptr \<Rightarrow> nat" where
  "dist s p = unat (olia_int s p)"

definition rtt2 :: "mptcp_olia cc_state \<Rightarrow> sk_ptr \<Rightarrow> nat" where
  "rtt2 s p = unat (olia_rtt s p)"

definition wnd :: "mptcp_olia cc_state \<Rightarrow> sk_ptr \<Rightarrow> u32" where
  "wnd s p = mptcp_get_crt_cwnd (cc_socks s p)"

text \<open>The subflows of the best quality and those with the largest window.\<close>

definition best_paths :: "mptcp_olia cc_state \<Rightarrow> sk_ptr set" where
  "best_paths s = {p \<in> set (olia_senders s). \<forall>q \<in> set (olia_senders s). dist s q * rtt2 s p \<le> dist s p * rtt2 s q}"

definition max_paths :: "mptcp_olia cc_state \<Rightarrow> sk_ptr set" where
  "max_paths s = {p \<in> set (olia_senders s). \<forall>q \<in> set (olia_senders s). wnd s q \<le> wnd s p}"

text \<open>The products of the comparison fit into 64 bits.\<close>

definition olia_moderate :: "mptcp_olia cc_state \<Rightarrow> bool" where
  "olia_moderate s \<longleftrightarrow> (\<forall>p \<in> set (olia_senders s). \<forall>q \<in> set (olia_senders s). dist s p * rtt2 s q < 2 ^ 64)"

lemma rtt2_pos:
  assumes "p \<in> set (olia_senders s)"
  shows "0 < rtt2 s p"
proof -
  let ?r = "unat (srtt_us (cc_socks s p))"
  have "?r * ?r < 2 ^ 32 * 2 ^ 32" using unat_bound [of "srtt_us (cc_socks s p)"] by (intro mult_strict_mono) auto
  then have "rtt2 s p = ?r * ?r" by (simp add: rtt2_def olia_rtt_def unat_word_ariths)
  moreover have "0 < ?r" using assms by (simp add: olia_senders_def cc_sk_can_send_def unat_gt_0)
  ultimately show ?thesis by simp
qed

lemma dist_mult:
  assumes "olia_moderate s" and "p \<in> set (olia_senders s)" and "q \<in> set (olia_senders s)"
  shows "unat (olia_int s p * olia_rtt s q) = dist s p * rtt2 s q"
  using assms by (simp add: olia_moderate_def dist_def rtt2_def unat_word_ariths)

text \<open>Comparing ratios.\<close>

lemma ratio_trans:
  fixes a b c x y z :: nat
  assumes "a * y \<le> b * x" and "b * z \<le> c * y" and "0 < y"
  shows "a * z \<le> c * x"
proof -
  have "a * y * z \<le> b * x * z" using assms(1) by (rule mult_le_mono1)
  also have "\<dots> \<le> c * x * y" using mult_le_mono1 [OF assms(2), of x] by (simp add: ac_simps)
  finally have "y * (a * z) \<le> y * (c * x)" by (simp add: ac_simps)
  then show ?thesis using assms(3) by simp
qed

lemma olia_best_fold:
  assumes "olia_moderate s" and "set xs \<subseteq> set (olia_senders s)" and "xs \<noteq> []"
  shows "\<exists>p \<in> set xs. fold (olia_best_step s) xs (0, 1) = (olia_int s p, olia_rtt s p) \<and>
    (\<forall>q \<in> set xs. dist s q * rtt2 s p \<le> dist s p * rtt2 s q)"
  using assms(2,3)
proof (induction xs rule: rev_induct)
  case (snoc x xs)
  show ?case
  proof (cases "xs = []")
    case True
    then show ?thesis by (simp add: olia_best_step_def)
  next
    case False
    then obtain p where p: "p \<in> set xs" "fold (olia_best_step s) xs (0, 1) = (olia_int s p, olia_rtt s p)"
      "\<forall>q \<in> set xs. dist s q * rtt2 s p \<le> dist s p * rtt2 s q" using snoc by auto
    have sub: "x \<in> set (olia_senders s)" "p \<in> set (olia_senders s)" using p(1) snoc.prems by auto
    have ge: "olia_int s x * olia_rtt s p \<ge> olia_int s p * olia_rtt s x \<longleftrightarrow> dist s p * rtt2 s x \<le> dist s x * rtt2 s p"
      using dist_mult [OF assms(1)] sub by (simp add: word_le_nat_alt)
    have step: "fold (olia_best_step s) (xs @ [x]) (0, 1) = olia_best_step s x (olia_int s p, olia_rtt s p)"
      using p(2) by simp
    show ?thesis
    proof (cases "dist s p * rtt2 s x \<le> dist s x * rtt2 s p")
      case True
      then have "olia_best_step s x (olia_int s p, olia_rtt s p) = (olia_int s x, olia_rtt s x)"
        using ge by (simp add: olia_best_step_def)
      moreover have "dist s q * rtt2 s x \<le> dist s x * rtt2 s q" if "q \<in> set xs" for q
        using ratio_trans [OF _ True rtt2_pos [OF sub(2)]] p(3) that by blast
      ultimately show ?thesis by (auto simp: step simp del: fold_append)
    next
      case False
      then have "olia_best_step s x (olia_int s p, olia_rtt s p) = (olia_int s p, olia_rtt s p)"
        using ge by (simp add: olia_best_step_def)
      moreover have "dist s x * rtt2 s p \<le> dist s p * rtt2 s x" using False by simp
      ultimately show ?thesis using p(1,3) by (auto simp: step simp del: fold_append)
    qed
  qed
qed simp

lemma olia_is_best_iff:
  assumes "olia_moderate s" and p: "p \<in> set (olia_senders s)"
  shows "olia_is_best s p \<longleftrightarrow> p \<in> best_paths s"
proof -
  let ?P = "set (olia_senders s)"
  have ne: "olia_senders s \<noteq> []" using p by (cases "olia_senders s") simp_all
  obtain b where b: "b \<in> ?P" "olia_best s = (olia_int s b, olia_rtt s b)"
      "\<forall>q \<in> ?P. dist s q * rtt2 s b \<le> dist s b * rtt2 s q"
    using olia_best_fold [OF assms(1) subset_refl ne] by (auto simp: olia_best_def)
  have iff: "olia_is_best s p \<longleftrightarrow> dist s p * rtt2 s b = dist s b * rtt2 s p"
    using dist_mult [OF assms(1)] p b by (simp add: olia_is_best_def word_unat_eq_iff)
  show ?thesis
  proof
    assume "olia_is_best s p"
    then have eq: "dist s b * rtt2 s p \<le> dist s p * rtt2 s b" using iff by simp
    then have "dist s q * rtt2 s p \<le> dist s p * rtt2 s q" if "q \<in> ?P" for q
      using ratio_trans [OF _ eq rtt2_pos [OF b(1)]] b(3) that by blast
    then show "p \<in> best_paths s" using p by (simp add: best_paths_def)
  next
    assume "p \<in> best_paths s"
    then show "olia_is_best s p" using iff b p by (simp add: best_paths_def le_antisym)
  qed
qed

lemma max_cwnd_fold:
  "(\<forall>tp \<in> set tps. mptcp_get_crt_cwnd tp \<le> m) \<and> m0 \<le> m \<and> (m = m0 \<or> m \<in> mptcp_get_crt_cwnd ` set tps)"
  if "m = fold (\<lambda>tp best. if mptcp_get_crt_cwnd tp > best then mptcp_get_crt_cwnd tp else best) tps m0"
  using that
proof (induction tps arbitrary: m0)
  case (Cons tp tps)
  then have "m = fold (\<lambda>tp best. if mptcp_get_crt_cwnd tp > best then mptcp_get_crt_cwnd tp else best) tps
      (max m0 (mptcp_get_crt_cwnd tp))" by (simp add: max_def not_less less_le_not_le)
  from Cons.IH [OF this] show ?case by (auto simp: max_def split: if_splits)
qed simp

lemma max_paths_iff:
  assumes "p \<in> set (olia_senders s)"
  shows "wnd s p \<le> mptcp_get_max_cwnd s" and "wnd s p = mptcp_get_max_cwnd s \<longleftrightarrow> p \<in> max_paths s"
proof -
  have set: "set (cc_senders s) = cc_socks s ` set (olia_senders s)" by (auto simp: cc_senders_def olia_senders_def)
  note m = max_cwnd_fold [OF mptcp_get_max_cwnd_def, of s]
  have le: "wnd s q \<le> mptcp_get_max_cwnd s" if "q \<in> set (olia_senders s)" for q
    using m that by (simp add: wnd_def set)
  show "wnd s p \<le> mptcp_get_max_cwnd s" by (rule le [OF assms])
  show "wnd s p = mptcp_get_max_cwnd s \<longleftrightarrow> p \<in> max_paths s"
  proof
    assume "wnd s p = mptcp_get_max_cwnd s"
    then show "p \<in> max_paths s" using le assms by (simp add: max_paths_def)
  next
    assume mp: "p \<in> max_paths s"
    have "mptcp_get_max_cwnd s = 0 \<or> (\<exists>q \<in> set (olia_senders s). mptcp_get_max_cwnd s = wnd s q)"
      using m by (auto simp: set wnd_def)
    then have "mptcp_get_max_cwnd s \<le> wnd s p" using mp by (auto simp: max_paths_def)
    then show "wnd s p = mptcp_get_max_cwnd s" using le [OF assms] by simp
  qed
qed


lemma olia_sizes_fold:
  "fold (\<lambda>sk (M, B_not_M). if A sk then (M + 1, B_not_M) else if B sk then (M, B_not_M + 1) else (M, B_not_M)) xs (m, b) =
     (m + of_nat (length (filter A xs)), b + of_nat (length (filter (\<lambda>sk. B sk \<and> \<not> A sk) xs)))"
  for m b :: u8
  by (induction xs arbitrary: m b) auto

lemma olia_sizes_card:
  assumes "olia_moderate s" and "distinct (cc_conns s)"
  shows "olia_sizes s = (of_nat (card (max_paths s)), of_nat (card (best_paths s - max_paths s)))"
proof -
  have dist: "distinct (olia_senders s)" using assms(2) by (simp add: olia_senders_def)
  have len: "length (filter Q (olia_senders s)) = card X" if "{p \<in> set (olia_senders s). Q p} = X" for Q X
    using distinct_card [of "filter Q (olia_senders s)"] dist that by simp
  have "{p \<in> set (olia_senders s). mptcp_get_crt_cwnd (cc_socks s p) = mptcp_get_max_cwnd s} = max_paths s"
    using max_paths_iff(2) [of _ s] by (auto simp: wnd_def max_paths_def)
  moreover have "{p \<in> set (olia_senders s). olia_is_best s p \<and> mptcp_get_crt_cwnd (cc_socks s p) \<noteq> mptcp_get_max_cwnd s}
      = best_paths s - max_paths s"
    using max_paths_iff(2) [of _ s] olia_is_best_iff [OF assms(1)] by (auto simp: wnd_def best_paths_def)
  ultimately show ?thesis using len by (simp add: olia_sizes_def olia_sizes_fold)
qed

lemma ucast_of_nat_8_32:
  assumes "n < 256"
  shows "(ucast (of_nat n :: u8) :: u32) = of_nat n" and "(of_nat n :: u8) = 0 \<longleftrightarrow> n = 0"
proof -
  have "unat (of_nat n :: u8) = n" using assms by (simp add: unat_of_nat take_bit_nat_eq_self)
  then show "(ucast (of_nat n :: u8) :: u32) = of_nat n" using assms unat_of_nat32 [of n]
    by (simp add: word_unat_eq_iff unsigned_ucast_eq take_bit_nat_eq_self)
  show "(of_nat n :: u8) = 0 \<longleftrightarrow> n = 0" using assms by (auto simp: word_of_nat_eq_0_iff dvd_imp_le)
qed

text \<open>C40. The distribution of the increase in OLIA.  When the comparison does not overflow, every subflow that can send gets the share
  of the reference: none when the best subflows already have the largest window; otherwise the best ones
  without the largest window share one, and those with the largest window pay for it.\<close>

theorem mptcp_get_epsilon_refines:
  assumes "olia_moderate s" and "distinct (cc_conns s)" and "length (cc_conns s) < 256"
    and "p \<in> set (olia_senders s)"
  shows "(epsilon_num (cc_ca (mptcp_get_epsilon s) p), epsilon_den (cc_ca (mptcp_get_epsilon s) p)) =
    (if best_paths s \<subseteq> max_paths s then (0, 1)
     else if p \<in> best_paths s - max_paths s
     then (1, ucast (cc_cnt_established s) * of_nat (card (best_paths s - max_paths s)))
     else if p \<in> max_paths s then (- 1, ucast (cc_cnt_established s) * of_nat (card (max_paths s)))
     else (0, 1))"
proof -
  have "length (olia_senders s) \<le> length (cc_conns s)" by (simp add: olia_senders_def)
  moreover have "card X \<le> length (olia_senders s)" if "X \<subseteq> set (olia_senders s)" for X
    using card_mono [OF finite_set that] card_length [of "olia_senders s"] by linarith
  ultimately have small: "card X < 256" if "X \<subseteq> set (olia_senders s)" for X
    using assms(3) that by (meson le_less_trans le_trans)
  have sub: "max_paths s \<subseteq> set (olia_senders s)" "best_paths s - max_paths s \<subseteq> set (olia_senders s)"
    by (auto simp: max_paths_def best_paths_def)
  have fin: "finite (best_paths s - max_paths s)" using sub(2) by (rule finite_subset) simp
  have "wnd s p < mptcp_get_max_cwnd s \<longleftrightarrow> p \<notin> max_paths s" using max_paths_iff [OF assms(4)] by auto
  then show ?thesis
    using assms(4) olia_is_best_iff [OF assms(1,4)] max_paths_iff(2) [OF assms(4)] fin
      ucast_of_nat_8_32 [OF small [OF sub(1)]] ucast_of_nat_8_32 [OF small [OF sub(2)]]
    by (auto simp: mptcp_get_epsilon_def olia_epsilon_def olia_sizes_card [OF assms(1,2)] wnd_def Let_def)
qed

section \<open>Closed instances\<close>

text \<open>The first subflow has the larger window, the second one the larger distance between losses.\<close>

definition sample_olia :: "mptcp_olia cc_state" where
  "sample_olia = \<lparr>cc_socks = (\<lambda>p. sample_sock\<lparr>snd_cwnd := (if p = 2 then 20 else 10), srtt_us := 100\<rparr>),
     cc_ca = (\<lambda>p. \<lparr>mptcp_loss1 = 0, mptcp_loss2 = (if p = 2 then 300 else 400), mptcp_loss3 = 500, epsilon_num = 0,
       epsilon_den = 1, mptcp_snd_cwnd_cnt = 0\<rparr>), cc_conns = [2, 3], cc_meta = 0,
     cc_cnt_established = 2, cc_mptcp = (\<lambda>_. True), cc_has_mpcb = (\<lambda>_. True)\<rparr>"

lemma sample_olia_values:
  "olia_senders sample_olia = [2, 3]" "dist sample_olia 2 = 300" "dist sample_olia 3 = 400"
  "rtt2 sample_olia p = 10000" "wnd sample_olia 2 = 20" "wnd sample_olia 3 = 10"
  by (simp_all add: sample_olia_def olia_senders_def cc_sk_can_send_def mptcp_sk_can_send_def sample_sock_def
      dist_def olia_int_def rtt2_def olia_rtt_def wnd_def mptcp_get_crt_cwnd_def)

theorem mptcp_get_epsilon_refines_witness:
  "(epsilon_num (cc_ca (mptcp_get_epsilon sample_olia) 3), epsilon_den (cc_ca (mptcp_get_epsilon sample_olia) 3)) = (1, 2)"
proof -
  have sets: "best_paths sample_olia = {3}" "max_paths sample_olia = {2}"
    by (auto simp: best_paths_def max_paths_def sample_olia_values)
  have "olia_moderate sample_olia" by (simp add: olia_moderate_def sample_olia_values)
  then show ?thesis
    using mptcp_get_epsilon_refines [of sample_olia 3]
    by (simp add: sets sample_olia_values) (simp add: sample_olia_def)
qed

lemma mptcp_olia_cong_avoid_step_witness:
  "window_ok 1 (cc_socks (mptcp_olia_cong_avoid sample_kernel 2 0 1 sample_olia) 2)"
  using mptcp_olia_cong_avoid_step [of sample_olia 2, OF _ _ _ _ _ refl]
  by (simp add: sample_olia_def sample_sock_def window_ok_def)


text \<open>The comparison is inexact for 64 MiB between losses and a round-trip time of 200 ms.\<close>

lemma olia_overflow:
  "\<not> olia_moderate (sample_olia\<lparr>cc_socks := \<lambda>_. sample_sock\<lparr>srtt_us := 1600000\<rparr>,
     cc_ca := \<lambda>_. \<lparr>mptcp_loss1 = 0, mptcp_loss2 = 0, mptcp_loss3 = 67108864, epsilon_num = 0, epsilon_den = 1,
       mptcp_snd_cwnd_cnt = 0\<rparr>\<rparr>)"
  by (simp add: olia_moderate_def sample_olia_def olia_senders_def cc_sk_can_send_def mptcp_sk_can_send_def
      sample_sock_def dist_def olia_int_def rtt2_def olia_rtt_def) blast

end
