(* ===== verification/Cc_Balia.thy ===== *)
theory Cc_Balia
  imports Cc_State
begin

text \<open>
  The balanced linked adaptation (\<open>net/mptcp/mptcp_balia.c\<close>): every subflow has its own increase \<open>ai\<close>, in
  acknowledgements per segment, and its own decrease \<open>md\<close>, computed from the rates of all subflows.
\<close>

section \<open>State and operations\<close>

record mptcp_balia =
  bal_ai :: u64
  bal_md :: u64
  bal_forced_update :: bool

definition rate_scale_limit :: nat where "rate_scale_limit = 25"
definition balia_alpha_scale :: nat where "balia_alpha_scale = 10"
definition scale_num :: nat where "scale_num = 5"

definition balia_set :: "sk_ptr \<Rightarrow> u64 \<Rightarrow> u64 \<Rightarrow> mptcp_balia cc_state \<Rightarrow> mptcp_balia cc_state" where
  "balia_set sk ai md s = upd_ca sk (\<lambda>c. c\<lparr>bal_ai := ai, bal_md := md\<rparr>) s"

definition balia_set_forced :: "sk_ptr \<Rightarrow> bool \<Rightarrow> mptcp_balia cc_state \<Rightarrow> mptcp_balia cc_state" where
  "balia_set_forced sk force s = upd_ca sk (\<lambda>c. c\<lparr>bal_forced_update := force\<rparr>) s"

definition balia_get_forced :: "sk_ptr \<Rightarrow> mptcp_balia cc_state \<Rightarrow> bool" where
  "balia_get_forced sk s = bal_forced_update (cc_ca s sk)"

text \<open>The rate of a subflow, with the segment size of the subflow the calculation is for.\<close>

definition balia_rate :: "u32 \<Rightarrow> tcp_sock \<Rightarrow> u64" where
  "balia_rate mss sub_tp = ucast mss * ucast (snd_cwnd sub_tp) * 8000000 div ucast (srtt_us sub_tp)"

record balia_rates =
  max_rate :: u64
  own_rate :: u64
  sum_rate :: u64

definition balia_rates_step :: "sk_ptr \<Rightarrow> mptcp_balia cc_state \<Rightarrow> sk_ptr \<Rightarrow> balia_rates \<Rightarrow> balia_rates" where
  "balia_rates_step sk s sub b =
     (if \<not> cc_sk_can_send (cc_socks s sub) then b
      else let tmp = balia_rate (mss_cache (cc_socks s sk)) (cc_socks s sub)
           in \<lparr>max_rate = (if tmp \<ge> max_rate b then tmp else max_rate b),
               own_rate = (if sub = sk then tmp else own_rate b), sum_rate = sum_rate b + tmp\<rparr>)"

definition balia_find_rates :: "sk_ptr \<Rightarrow> mptcp_balia cc_state \<Rightarrow> balia_rates" where
  "balia_find_rates sk s =
     fold (balia_rates_step sk s) (cc_conns s) \<lparr>max_rate = 0, own_rate = 0, sum_rate = 0\<rparr>"

text \<open>Scaling down the largest rate; the second value counts the shifts.\<close>

function balia_scale_down :: "u64 \<Rightarrow> nat \<Rightarrow> u64 \<times> nat" where
  "balia_scale_down r n =
     (if r > cc_scale 1 rate_scale_limit then balia_scale_down (drop_bit scale_num r) (n + 1) else (r, n))"
  by auto
termination
proof (relation "measure (\<lambda>(r, n). unat r)")
  fix r :: u64 and n :: nat
  assume "cc_scale 1 rate_scale_limit < r"
  then have "0 < unat r" by (metis gr_zeroI unat_0 word_less_nat_alt not_less_zero)
  then show "((drop_bit scale_num r, n + 1), r, n) \<in> measure (\<lambda>(r, n). unat r)"
    by (simp add: scale_num_def drop_bit_eq_div unat_div)
qed simp

declare balia_scale_down.simps [simp del]

text \<open>The second loop, over the scaled rates.\<close>

definition balia_scaled_sum :: "nat \<Rightarrow> sk_ptr \<Rightarrow> mptcp_balia cc_state \<Rightarrow> u64" where
  "balia_scaled_sum n sk s =
     fold (\<lambda>sub sum. if \<not> cc_sk_can_send (cc_socks s sub) then sum
             else sum + drop_bit (scale_num * n) (balia_rate (mss_cache (cc_socks s sk)) (cc_socks s sub)))
       (cc_conns s) 0"

definition balia_md :: "u32 \<Rightarrow> u64 \<Rightarrow> u64" where
  "balia_md cwnd alpha =
     drop_bit balia_alpha_scale (ucast (drop_bit 1 cwnd) *
       min (cc_scale alpha balia_alpha_scale) (drop_bit 1 (cc_scale 3 balia_alpha_scale)))"

text \<open>\<open>None\<close> is a division by zero.\<close>

definition balia_ai :: "u32 \<Rightarrow> u64 \<Rightarrow> u64 \<Rightarrow> u64 \<Rightarrow> u64 option" where
  "balia_ai cwnd mx rate sr =
     (if rate + mx = 0 \<or> push_bit 2 rate + mx = 0 then None
      else let ai = sr * sr * 10 div (rate + mx);
               ai = ai * ucast cwnd div (push_bit 2 rate + mx)
           in Some (if ai = 0 then ucast cwnd else ai))"

definition mptcp_balia_recalc_ai :: "sk_ptr \<Rightarrow> mptcp_balia cc_state \<Rightarrow> mptcp_balia cc_state option" where
  "mptcp_balia_recalc_ai sk s =
     (let cwnd = snd_cwnd (cc_socks s sk); b = balia_find_rates sk s
      in if \<not> cc_has_mpcb s sk then Some s
         else if cc_cnt_established s \<le> 1 \<or> own_rate b = 0
         then Some (balia_set sk (ucast cwnd) (ucast (drop_bit 1 cwnd)) s)
         else let alpha = max_rate b div own_rate b;
                  (mx, n) = balia_scale_down (max_rate b) 0;
                  sum = (if n \<noteq> 0 then balia_scaled_sum n sk s else sum_rate b);
                  rate = (if n \<noteq> 0 then drop_bit (scale_num * n) (own_rate b) else own_rate b)
              in map_option (\<lambda>ai. balia_set sk ai (balia_md cwnd alpha) s) (balia_ai cwnd mx rate sum))"

definition mptcp_balia_init :: "sk_ptr \<Rightarrow> mptcp_balia cc_state \<Rightarrow> mptcp_balia cc_state" where
  "mptcp_balia_init sk s = (if cc_mptcp s sk then balia_set sk 0 0 (balia_set_forced sk False s) else s)"

definition mptcp_balia_cwnd_event ::
  "sk_ptr \<Rightarrow> tcp_ca_event \<Rightarrow> mptcp_balia cc_state \<Rightarrow> mptcp_balia cc_state option" where
  "mptcp_balia_cwnd_event sk event s =
     (if event = CA_EVENT_COMPLETE_CWR \<or> event = CA_EVENT_LOSS then mptcp_balia_recalc_ai sk s else Some s)"

definition mptcp_balia_set_state :: "sk_ptr \<Rightarrow> ca_state \<Rightarrow> mptcp_balia cc_state \<Rightarrow> mptcp_balia cc_state" where
  "mptcp_balia_set_state sk ca_state s = (if \<not> cc_mptcp s sk then s else balia_set_forced sk True s)"

definition balia_threshold :: "sk_ptr \<Rightarrow> mptcp_balia cc_state \<Rightarrow> u32" where
  "balia_threshold sk s =
     (if cc_cnt_established s > 1 then ucast (bal_ai (cc_ca s sk)) else snd_cwnd (cc_socks s sk))"

definition balia_count :: "sk_ptr \<Rightarrow> u32 \<Rightarrow> mptcp_balia cc_state \<Rightarrow> mptcp_balia cc_state option" where
  "balia_count sk threshold s =
     (if snd_cwnd_cnt (cc_socks s sk) \<ge> threshold
      then map_option (upd_sock sk (\<lambda>tp. tp\<lparr>snd_cwnd_cnt := 0\<rparr>))
             (if snd_cwnd (cc_socks s sk) < snd_cwnd_clamp (cc_socks s sk)
              then mptcp_balia_recalc_ai sk (upd_sock sk (\<lambda>tp. tp\<lparr>snd_cwnd := snd_cwnd tp + 1\<rparr>) s)
              else Some s)
      else Some (upd_sock sk (\<lambda>tp. tp\<lparr>snd_cwnd_cnt := snd_cwnd_cnt tp + 1\<rparr>) s))"

text \<open>The forced update is read from the connection and written to the subflow.\<close>

definition mptcp_balia_cong_avoid ::
  "cc_kernel \<Rightarrow> sk_ptr \<Rightarrow> u32 \<Rightarrow> u32 \<Rightarrow> mptcp_balia cc_state \<Rightarrow> mptcp_balia cc_state option" where
  "mptcp_balia_cong_avoid k sk ack acked s =
     (if \<not> cc_mptcp s sk then Some (upd_sock sk (\<lambda>tp. tcp_reno_cong_avoid k tp ack acked) s)
      else if \<not> tcp_is_cwnd_limited (cc_socks s sk) then Some s
      else if snd_cwnd (cc_socks s sk) \<le> snd_ssthresh (cc_socks s sk)
      then mptcp_balia_recalc_ai sk (upd_sock sk (\<lambda>tp. tcp_slow_start k tp acked) s)
      else do {
        s1 \<leftarrow> (if balia_get_forced (cc_meta s) s
                then map_option (balia_set_forced sk False) (mptcp_balia_recalc_ai sk s) else Some s);
        balia_count sk (balia_threshold sk s1) s1
      })"

definition mptcp_balia_ssthresh :: "cc_kernel \<Rightarrow> sk_ptr \<Rightarrow> mptcp_balia cc_state \<Rightarrow> u32" where
  "mptcp_balia_ssthresh k sk s =
     (if \<not> cc_mptcp s sk \<or> cc_cnt_established s \<le> 1 then tcp_reno_ssthresh k (cc_socks s sk)
      else max (ucast (ucast (snd_cwnd (cc_socks s sk)) - bal_md (cc_ca s sk))) 1)"

section \<open>The contract\<close>

lemma balia_set_sel [simp]:
  "cc_socks (balia_set sk ai md s) = cc_socks s" "cc_mptcp (balia_set sk ai md s) = cc_mptcp s"
  "cc_cnt_established (balia_set sk ai md s) = cc_cnt_established s"
  "cc_ca (balia_set sk ai md s) = (cc_ca s)(sk := (cc_ca s sk)\<lparr>bal_ai := ai, bal_md := md\<rparr>)"
  "cc_socks (balia_set_forced sk f s) = cc_socks s" "cc_mptcp (balia_set_forced sk f s) = cc_mptcp s"
  by (simp_all add: balia_set_def balia_set_forced_def)

lemma recalc_ai_socks:
  "mptcp_balia_recalc_ai sk s = Some s' \<Longrightarrow> cc_socks s' = cc_socks s \<and> cc_mptcp s' = cc_mptcp s"
  by (auto simp: mptcp_balia_recalc_ai_def Let_def split: if_splits prod.splits)

lemma balia_cong_avoid_step:
  assumes "mptcp_balia_cong_avoid k sk ack acked s = Some s'"
  shows "\<exists>t tp. cc_socks s' = (cc_socks s)(sk := tp) \<and> ca_step k (cc_mptcp s sk) ack acked t (cc_socks s sk) tp"
proof (cases "cc_mptcp s sk \<and> tcp_is_cwnd_limited (cc_socks s sk) \<and> \<not> snd_cwnd (cc_socks s sk) \<le> snd_ssthresh (cc_socks s sk)")
  case False
  then show ?thesis
    using assms
    by (intro exI [of _ "snd_cwnd (cc_socks s sk)"] exI [of _ "cc_socks s' sk"])
       (auto simp: mptcp_balia_cong_avoid_def ca_step_def dest!: recalc_ai_socks
        intro: avoid_step.idle split: if_splits)
next
  case True
  then obtain s1 where f: "(if balia_get_forced (cc_meta s) s
      then map_option (balia_set_forced sk False) (mptcp_balia_recalc_ai sk s) else Some s) = Some s1"
    and s': "balia_count sk (balia_threshold sk s1) s1 = Some s'"
    using assms by (auto simp: mptcp_balia_cong_avoid_def bind_eq_Some_conv)
  have s1: "cc_socks s1 = cc_socks s" using f by (auto dest!: recalc_ai_socks split: if_splits)
  have "\<exists>tp. cc_socks s' = (cc_socks s)(sk := tp) \<and> avoid_step (balia_threshold sk s1) (cc_socks s sk) tp"
    using s' s1
    by (auto simp: balia_count_def not_le intro!: avoid_step.intros dest!: recalc_ai_socks split: if_splits)
  then show ?thesis using True by (auto simp: ca_step_def)
qed

interpretation balia: cong_control mptcp_balia_cong_avoid low
  by unfold_locales (use balia_cong_avoid_step ca_step_window in \<open>(fastforce)+\<close>)

text \<open>A change of the congestion state of a subflow does not force an update: the flag is set in the
  memory of the subflow and looked up in the one of the connection.\<close>

lemma mptcp_balia_set_state_ignored:
  "cc_meta s \<noteq> sk \<Longrightarrow>
   balia_get_forced (cc_meta s) (mptcp_balia_set_state sk st s) = balia_get_forced (cc_meta s) s"
  by (simp add: balia_get_forced_def mptcp_balia_set_state_def balia_set_forced_def)

section \<open>Bounds of the increase and the decrease\<close>

lemma balia_scale_down_spec:
  "balia_scale_down r n = (mx, n') \<Longrightarrow>
   n \<le> n' \<and> mx = drop_bit (scale_num * (n' - n)) r \<and> unat mx \<le> 2 ^ 25 \<and> (r \<noteq> 0 \<longrightarrow> mx \<noteq> 0)"
proof (induction r n rule: balia_scale_down.induct)
  case (1 r n)
  have lim: "cc_scale 1 rate_scale_limit = (2 ^ 25 :: u64)" by (simp add: cc_scale_def rate_scale_limit_def push_bit_eq_mult)
  show ?case
  proof (cases "r > 2 ^ 25")
    case False
    then have "mx = r" "n' = n" using "1.prems" lim by (simp_all add: balia_scale_down.simps [of r n])
    then show ?thesis using False by (simp add: word_le_nat_alt not_less)
  next
    case True
    then have step: "balia_scale_down (drop_bit scale_num r) (n + 1) = (mx, n')"
      using "1.prems" lim by (simp add: balia_scale_down.simps [of r n])
    have "2 ^ 25 < unat r" using True by (simp add: word_less_nat_alt)
    then have "unat (drop_bit scale_num r) \<noteq> 0" by (simp add: scale_num_def drop_bit_eq_div unat_div)
    then have "drop_bit scale_num r \<noteq> 0" by (metis unat_0)
    with "1.IH" [OF _ step] True lim have ih: "n + 1 \<le> n'" "unat mx \<le> 2 ^ 25" "mx \<noteq> 0"
      "mx = drop_bit (scale_num * (n' - (n + 1))) (drop_bit scale_num r)" by auto
    have "scale_num * (n' - (n + 1)) + scale_num = scale_num * (n' - n)"
      using ih(1) by (simp add: scale_num_def)
    then have "mx = drop_bit (scale_num * (n' - n)) r" using ih(4) by (simp only: drop_bit_drop_bit)
    with ih show ?thesis by simp
  qed
qed

lemma balia_md_bounds:
  assumes "1 \<le> alpha" and "unat alpha < 2 ^ 54"
  shows "unat cwnd div 2 \<le> unat (balia_md cwnd alpha) \<and> 2 * unat (balia_md cwnd alpha) \<le> 3 * (unat cwnd div 2)"
proof -
  define h hw x where "h = unat (drop_bit 1 cwnd)" and "hw = drop_bit 1 cwnd"
    and "x = min (cc_scale alpha balia_alpha_scale) (drop_bit 1 (cc_scale 3 balia_alpha_scale))"
  have h: "h = unat cwnd div 2" by (simp add: h_def drop_bit_eq_div unat_div)
  have "unat (cc_scale alpha balia_alpha_scale) = unat alpha * 1024"
    using unat_scale [of alpha 10] assms(2) by (simp add: balia_alpha_scale_def)
  moreover have "drop_bit 1 (cc_scale 3 balia_alpha_scale) = (1536 :: u64)"
    by (simp add: cc_scale_def balia_alpha_scale_def)
  ultimately have x: "1024 \<le> unat x" "unat x \<le> 1536"
    using assms(1) by (auto simp: x_def min_def word_le_nat_alt)
  have "h < 2 ^ 32" using unat_bound [of "drop_bit 1 cwnd"] by (simp add: h_def)
  then have "h * unat x < 2 ^ 32 * 2 ^ 11" using x by (intro mult_strict_mono) auto
  moreover have "balia_md cwnd alpha = drop_bit 10 (ucast hw * x)"
    by (simp only: balia_md_def x_def hw_def balia_alpha_scale_def)
  moreover have "h = unat hw" by (simp only: h_def hw_def)
  ultimately have "unat (balia_md cwnd alpha) = h * unat x div 1024"
    by (simp add: drop_bit_eq_div unat_div unat_word_ariths)
  moreover have "h * 1024 \<le> h * unat x" "h * unat x \<le> h * 1536" using x by auto
  ultimately show ?thesis unfolding h [symmetric] by linarith
qed

lemma balia_ai_nat:
  fixes M r S w :: nat
  assumes "0 < M" and "r \<le> M" and "M \<le> S" and "S \<le> 32 * M"
  defines "q \<equiv> S * S * 10 div (r + M)"
  shows "w \<le> q * w div (4 * r + M)" and "q \<le> 10240 * M" and "q * w div (4 * r + M) \<le> 10240 * w"
proof -
  have "5 * M * (r + M) \<le> 5 * M * (2 * M)" using assms(2) by (intro mult_le_mono) auto
  also have "\<dots> = 10 * (M * M)" by simp
  also have "\<dots> \<le> S * S * 10" using mult_le_mono [OF assms(3,3)] by simp
  finally have "5 * M * (r + M) \<le> S * S * 10" .
  then have q5: "5 * M \<le> q" unfolding q_def by (metis assms(1) add_gr_0 less_eq_div_iff_mult_less_eq)
  have "w * (4 * r + M) \<le> w * (5 * M)" using assms(2) by (intro mult_le_mono) auto
  also have "\<dots> \<le> q * w" using mult_le_mono2 [OF q5, of w] by (simp add: mult.commute)
  finally show "w \<le> q * w div (4 * r + M)" by (metis assms(1) add_gr_0 less_eq_div_iff_mult_less_eq)
  have "q \<le> S * S * 10 div M" unfolding q_def using assms(1) by (intro div_le_mono2) auto
  also have "\<dots> \<le> (32 * M) * (32 * M) * 10 div M" using mult_le_mono [OF assms(4,4)] by (intro div_le_mono) simp
  also have "\<dots> = 10240 * M" using assms(1) by simp
  finally show q: "q \<le> 10240 * M" .
  have "q * w div (4 * r + M) \<le> q * w div M" using assms(1) by (intro div_le_mono2) auto
  also have "\<dots> \<le> (10240 * M) * w div M" using q by (intro div_le_mono mult_le_mono1)
  also have "\<dots> = 10240 * w" using assms(1) by (simp add: mult.assoc mult.left_commute)
  finally show "q * w div (4 * r + M) \<le> 10240 * w" .
qed

lemma balia_ai_bounds:
  assumes mx: "unat mx \<le> 2 ^ 25" "mx \<noteq> 0" and rate: "rate \<le> mx" and sr: "unat mx \<le> unat sr" "unat sr \<le> 32 * unat mx"
    and w: "unat cwnd < 2 ^ 18"
  shows "\<exists>ai. balia_ai cwnd mx rate sr = Some ai \<and> unat cwnd \<le> unat ai \<and> unat ai < 2 ^ 32"
proof -
  let ?M = "unat mx" and ?r = "unat rate" and ?S = "unat sr" and ?w = "unat cwnd"
  have M: "0 < ?M" "?r \<le> ?M" using mx(2) rate by (simp_all add: unat_gt_0 word_le_nat_alt)
  have push: "push_bit 2 rate = 4 * rate" by (simp add: push_bit_eq_mult)
  have 1: "unat (rate + mx) = ?r + ?M" "unat (4 * rate + mx) = 4 * ?r + ?M"
    using M mx(1) by (simp_all add: unat_word_ariths)
  have "?S * ?S \<le> 2 ^ 30 * 2 ^ 30" using sr mx(1) by (intro mult_le_mono) simp_all
  then have 2: "unat (sr * sr * 10) = ?S * ?S * 10" by (simp add: unat_word_ariths)
  define q where "q = ?S * ?S * 10 div (?r + ?M)"
  note q = balia_ai_nat(1) [OF M sr, of ?w, folded q_def] balia_ai_nat(2) [OF M sr, folded q_def]
    balia_ai_nat(3) [OF M sr, of ?w, folded q_def]
  have "q * ?w \<le> (10240 * 2 ^ 25) * 2 ^ 18" using q(2) mx(1) w by (intro mult_le_mono) simp_all
  moreover have "unat (sr * sr * 10 div (rate + mx)) = q" by (simp only: unat_div 1 2 q_def)
  ultimately have 3: "unat (sr * sr * 10 div (rate + mx) * ucast cwnd) = q * ?w"
    by (simp add: unat_word_ariths(2))
  define ai where "ai = sr * sr * 10 div (rate + mx) * ucast cwnd div (4 * rate + mx)"
  have ai: "unat ai = q * ?w div (4 * ?r + ?M)" unfolding ai_def unat_div 3 1 ..
  have "rate + mx \<noteq> 0" "4 * rate + mx \<noteq> 0" using 1 M by (metis add_gr_0 less_irrefl unat_0)+
  then have "balia_ai cwnd mx rate sr = Some (if ai = 0 then ucast cwnd else ai)"
    by (simp add: balia_ai_def push ai_def Let_def)
  moreover have "?w \<le> unat (if ai = 0 then ucast cwnd else ai)" "unat (if ai = 0 then ucast cwnd else ai) < 2 ^ 32"
    using ai q(1,3) w by auto
  ultimately show ?thesis by blast
qed

lemma drop_bit_mono: "(x::u64) \<le> y \<Longrightarrow> drop_bit n x \<le> drop_bit n y"
  by (simp only: word_le_nat_alt unat_drop_bit_eq) (simp add: drop_bit_eq_div div_le_mono)

abbreviation sub_rate :: "sk_ptr \<Rightarrow> mptcp_balia cc_state \<Rightarrow> sk_ptr \<Rightarrow> u64" where
  "sub_rate sk s sub \<equiv> balia_rate (mss_cache (cc_socks s sk)) (cc_socks s sub)"

lemma rates_fold:
  "b = fold (balia_rates_step sk s) xs \<lparr>max_rate = 0, own_rate = 0, sum_rate = 0\<rparr> \<Longrightarrow>
   sum_rate b = fold (\<lambda>sub sum. if \<not> cc_sk_can_send (cc_socks s sub) then sum else sum + sub_rate sk s sub) xs 0 \<and>
   own_rate b \<le> max_rate b \<and>
   (max_rate b \<noteq> 0 \<longrightarrow> (\<exists>sub \<in> set xs. cc_sk_can_send (cc_socks s sub) \<and> max_rate b = sub_rate sk s sub)) \<and>
   (\<forall>sub \<in> set xs. cc_sk_can_send (cc_socks s sub) \<longrightarrow> sub_rate sk s sub \<le> max_rate b)"
proof (induction xs arbitrary: b rule: rev_induct)
  case (snoc x xs)
  define c where "c = fold (balia_rates_step sk s) xs \<lparr>max_rate = 0, own_rate = 0, sum_rate = 0\<rparr>"
  have b: "b = balia_rates_step sk s x c" using snoc.prems by (simp add: c_def)
  note ih = snoc.IH [OF c_def]
  show ?case
  proof (cases "cc_sk_can_send (cc_socks s x)")
    case False
    then have "b = c" by (simp add: b balia_rates_step_def)
    then show ?thesis using ih False by auto
  next
    case True
    then have "max_rate b = max (max_rate c) (sub_rate sk s x)" "sum_rate b = sum_rate c + sub_rate sk s x"
      "own_rate b = own_rate c \<or> own_rate b = sub_rate sk s x"
      by (simp_all add: b balia_rates_step_def Let_def max_def)
    then show ?thesis using ih True by (auto simp: max_def le_max_iff_disj)
  qed
qed simp

lemma balia_find_rates_spec:
  assumes "b = balia_find_rates sk s"
  shows "sum_rate b = balia_scaled_sum 0 sk s" and "own_rate b \<le> max_rate b"
    and "max_rate b \<noteq> 0 \<Longrightarrow> \<exists>sub \<in> set (cc_conns s). cc_sk_can_send (cc_socks s sub) \<and> max_rate b = sub_rate sk s sub"
    and "\<forall>sub \<in> set (cc_conns s). cc_sk_can_send (cc_socks s sub) \<longrightarrow> sub_rate sk s sub \<le> max_rate b"
  using rates_fold [OF assms [unfolded balia_find_rates_def]] by (simp_all add: balia_scaled_sum_def cong: if_cong)

text \<open>The scaled sum lies between the scaled maximum and 32 times its value.\<close>

lemma balia_scaled_sum_bounds:
  assumes len: "length (cc_conns s) \<le> 32" and mx: "unat (drop_bit (scale_num * n) M) \<le> 2 ^ 25"
    and max: "sub \<in> set (cc_conns s)" "cc_sk_can_send (cc_socks s sub)" "M = sub_rate sk s sub"
    and le: "\<forall>p \<in> set (cc_conns s). cc_sk_can_send (cc_socks s p) \<longrightarrow> sub_rate sk s p \<le> M"
  shows "unat (drop_bit (scale_num * n) M) \<le> unat (balia_scaled_sum n sk s) \<and>
    unat (balia_scaled_sum n sk s) \<le> 32 * unat (drop_bit (scale_num * n) M)"
proof -
  let ?m = "unat (drop_bit (scale_num * n) M)"
  define g where "g p = (if cc_sk_can_send (cc_socks s p) then drop_bit (scale_num * n) (sub_rate sk s p) else 0)" for p
  have fold: "balia_scaled_sum n sk s = fold (\<lambda>p a. a + g p) (cc_conns s) 0"
    unfolding balia_scaled_sum_def g_def by (intro fold_cong) auto
  have gm: "unat (g p) \<le> ?m" if "p \<in> set (cc_conns s)" for p
    using le that drop_bit_mono [of "sub_rate sk s p" M] by (auto simp: g_def word_le_nat_alt)
  have "(\<Sum>p\<leftarrow>cc_conns s. unat (g p)) \<le> (\<Sum>p\<leftarrow>cc_conns s. ?m)" using gm by (intro sum_list_mono) auto
  also have "\<dots> \<le> 32 * ?m" using len by (simp add: sum_list_triv)
  finally have ub: "(\<Sum>p\<leftarrow>cc_conns s. unat (g p)) \<le> 32 * ?m" .
  then have eq: "unat (balia_scaled_sum n sk s) = (\<Sum>p\<leftarrow>cc_conns s. unat (g p))"
    using mx unat_sum_fold [of 0 g "cc_conns s"] by (simp add: fold)
  have "?m = unat (g sub)" using max by (simp add: g_def)
  also have "\<dots> \<le> (\<Sum>p\<leftarrow>cc_conns s. unat (g p))" using max(1) by (intro member_le_sum_list) auto
  finally show ?thesis using ub eq by simp
qed

lemma sub_rate_flight:
  assumes "unat (mss_cache (cc_socks s sk)) * unat (snd_cwnd (cc_socks s sub)) < 2 ^ 31"
  shows "unat (sub_rate sk s sub) < 2 ^ 54"
proof -
  let ?x = "unat (mss_cache (cc_socks s sk)) * unat (snd_cwnd (cc_socks s sub))"
  have "unat (ucast (mss_cache (cc_socks s sk)) * ucast (snd_cwnd (cc_socks s sub)) * 8000000 :: u64) = ?x * 8000000"
    using assms by (simp add: unat_word_ariths)
  then have "unat (sub_rate sk s sub) \<le> ?x * 8000000" by (simp add: balia_rate_def unat_div)
  then show ?thesis using assms by simp
qed

lemma rate_ratio:
  assumes "(own::u64) \<noteq> 0" and "own \<le> mx" and "unat mx < 2 ^ 54"
  shows "1 \<le> mx div own" and "unat (mx div own) < 2 ^ 54"
proof -
  have "unat own \<noteq> 0" "unat own \<le> unat mx" using assms(1,2) by (simp_all add: unat_eq_0 word_le_nat_alt)
  then have "1 \<le> unat (mx div own)" by (simp add: unat_div div_greater_zero_iff Suc_le_eq)
  then show "1 \<le> mx div own" by (simp add: word_le_nat_alt)
  show "unat (mx div own) < 2 ^ 54" using assms(3) by (simp add: unat_div) (metis div_le_dividend le_less_trans)
qed

lemma recalc_ai_result:
  assumes "length (cc_conns s) \<le> 32" and "cc_has_mpcb s sk" and w: "unat (snd_cwnd (cc_socks s sk)) < 2 ^ 18"
    and flight: "\<forall>p \<in> set (cc_conns s). unat (mss_cache (cc_socks s sk)) * unat (snd_cwnd (cc_socks s p)) < 2 ^ 31"
  shows "\<exists>ai md. mptcp_balia_recalc_ai sk s = Some (balia_set sk ai md s) \<and>
    unat (snd_cwnd (cc_socks s sk)) \<le> unat ai \<and> unat ai < 2 ^ 32 \<and>
    unat (snd_cwnd (cc_socks s sk)) div 2 \<le> unat md \<and> 2 * unat md \<le> 3 * (unat (snd_cwnd (cc_socks s sk)) div 2)"
proof (cases "cc_cnt_established s \<le> 1 \<or> own_rate (balia_find_rates sk s) = 0")
  case True
  let ?cwnd = "snd_cwnd (cc_socks s sk)"
  have "mptcp_balia_recalc_ai sk s = Some (balia_set sk (ucast ?cwnd) (ucast (drop_bit 1 ?cwnd)) s)"
    using True assms(2) by (simp add: mptcp_balia_recalc_ai_def Let_def)
  moreover have "unat (drop_bit 1 ?cwnd) = unat ?cwnd div 2" by (simp add: drop_bit_eq_div unat_div)
  ultimately show ?thesis using w by (intro exI conjI) (assumption, simp_all)
next
  case False
  let ?cwnd = "snd_cwnd (cc_socks s sk)"
  define b where "b = balia_find_rates sk s"
  obtain mx n where down: "balia_scale_down (max_rate b) 0 = (mx, n)" by fastforce
  note spec = balia_find_rates_spec [OF b_def]
  have own: "own_rate b \<noteq> 0" "max_rate b \<noteq> 0" using False spec(2) by (auto simp: b_def)
  obtain sub where sub: "sub \<in> set (cc_conns s)" "cc_sk_can_send (cc_socks s sub)" "max_rate b = sub_rate sk s sub"
    using spec(3) [OF own(2)] by blast
  have mx: "mx = drop_bit (scale_num * n) (max_rate b)" "unat mx \<le> 2 ^ 25" "mx \<noteq> 0"
    using balia_scale_down_spec [OF down] own(2) by auto
  have sums: "unat mx \<le> unat (balia_scaled_sum n sk s) \<and> unat (balia_scaled_sum n sk s) \<le> 32 * unat mx"
    using balia_scaled_sum_bounds [OF assms(1) _ sub spec(4)] mx by blast
  let ?rate = "drop_bit (scale_num * n) (own_rate b)" and ?alpha = "max_rate b div own_rate b"
  have "?rate \<le> mx" using drop_bit_mono [OF spec(2)] mx(1) by simp
  then obtain ai where ai: "balia_ai ?cwnd mx ?rate (balia_scaled_sum n sk s) = Some ai"
      "unat ?cwnd \<le> unat ai" "unat ai < 2 ^ 32"
    using balia_ai_bounds [OF mx(2,3) _ conjunct1 [OF sums] conjunct2 [OF sums] w] by blast
  have "unat (max_rate b) < 2 ^ 54" using sub_rate_flight flight sub(1,3) by metis
  from balia_md_bounds [OF rate_ratio [OF own(1) spec(2) this], of ?cwnd]
  have md: "unat ?cwnd div 2 \<le> unat (balia_md ?cwnd ?alpha)" "2 * unat (balia_md ?cwnd ?alpha) \<le> 3 * (unat ?cwnd div 2)"
    by blast+
  have "mptcp_balia_recalc_ai sk s = Some (balia_set sk ai (balia_md ?cwnd ?alpha) s)"
    using False assms(2) ai(1) down spec(1)
    by (cases "n = 0") (simp_all add: mptcp_balia_recalc_ai_def Let_def b_def [symmetric])
  then show ?thesis using ai(2,3) md by blast
qed

lemma unat_back_off:
  assumes "2 * unat (md::u64) \<le> 3 * (unat cwnd div 2)" and "unat (cwnd::u32) < 2 ^ 18"
  shows "unat (max (ucast (ucast cwnd - md) :: u32) 1) = max (unat cwnd - unat md) 1"
proof -
  have "unat (ucast cwnd - md :: u64) = unat cwnd - unat md"
    using assms(1) unat_sub [of md "ucast cwnd"] by (simp add: word_le_nat_alt)
  then have "unat (ucast (ucast cwnd - md :: u64) :: u32) = unat cwnd - unat md"
    using assms(2) by (simp add: unsigned_ucast_eq take_bit_nat_eq_self)
  then show ?thesis by (auto simp: max_def word_le_nat_alt)
qed

text \<open>C39. Friendliness and back-off of Balia.  With at most 32 subflows, less than 2 GiB in flight on each and a window
  of 18 bits, the recalculation does not divide by zero, the window then grows after at least as many
  acknowledgements as with Reno, and a loss takes between a half and three quarters of the window.\<close>

theorem mptcp_balia_recalc_ai_bounds:
  assumes "length (cc_conns s) \<le> 32" and "cc_has_mpcb s sk" and "unat (snd_cwnd (cc_socks s sk)) < 2 ^ 18"
    and flight: "\<forall>p \<in> set (cc_conns s). unat (mss_cache (cc_socks s sk)) * unat (snd_cwnd (cc_socks s p)) < 2 ^ 31"
  shows "\<exists>s'. mptcp_balia_recalc_ai sk s = Some s' \<and>
    unat (snd_cwnd (cc_socks s sk)) \<le> unat (balia_threshold sk s') \<and>
    (cc_mptcp s sk \<and> 1 < cc_cnt_established s \<longrightarrow>
       unat (snd_cwnd (cc_socks s sk)) \<le> 4 * unat (mptcp_balia_ssthresh k sk s') \<and>
       unat (mptcp_balia_ssthresh k sk s') \<le> max 1 ((unat (snd_cwnd (cc_socks s sk)) + 1) div 2))"
proof -
  let ?cwnd = "snd_cwnd (cc_socks s sk)"
  obtain ai md where r: "mptcp_balia_recalc_ai sk s = Some (balia_set sk ai md s)"
    and ai: "unat ?cwnd \<le> unat ai" "unat ai < 2 ^ 32" and md: "unat ?cwnd div 2 \<le> unat md" "2 * unat md \<le> 3 * (unat ?cwnd div 2)"
    using recalc_ai_result [OF assms] by blast
  have "unat (ucast ai :: u32) = unat ai" using ai(2) by (simp add: unsigned_ucast_eq take_bit_nat_eq_self)
  then have "unat ?cwnd \<le> unat (balia_threshold sk (balia_set sk ai md s))" using ai(1) by (simp add: balia_threshold_def)
  moreover have "cc_mptcp s sk \<and> 1 < cc_cnt_established s \<longrightarrow>
      unat ?cwnd \<le> 4 * unat (mptcp_balia_ssthresh k sk (balia_set sk ai md s)) \<and>
      unat (mptcp_balia_ssthresh k sk (balia_set sk ai md s)) \<le> max 1 ((unat ?cwnd + 1) div 2)"
    using md unat_back_off [OF md(2) assms(3)] by (auto simp: mptcp_balia_ssthresh_def not_le [symmetric] max_def)
  ultimately show ?thesis using r by blast
qed

section \<open>Closed instances\<close>

definition sample_balia :: "mptcp_balia cc_state" where
  "sample_balia = \<lparr>cc_socks = (\<lambda>p. sample_sock\<lparr>snd_cwnd := 10, srtt_us := (if p = 1 then 800 else 1600)\<rparr>),
     cc_ca = (\<lambda>_. \<lparr>bal_ai = 0, bal_md = 0, bal_forced_update = False\<rparr>), cc_conns = [1, 2], cc_meta = 0,
     cc_cnt_established = 2, cc_mptcp = (\<lambda>_. True), cc_has_mpcb = (\<lambda>_. True)\<rparr>"

theorem mptcp_balia_recalc_ai_bounds_witness:
  "\<exists>s'. mptcp_balia_recalc_ai 1 sample_balia = Some s' \<and> 10 \<le> unat (balia_threshold 1 s')"
  using mptcp_balia_recalc_ai_bounds [where s = sample_balia and sk = 1]
  by (auto simp: sample_balia_def sample_sock_def)

end
