(* ===== verification/Cc_Wvegas.thy ===== *)
theory Cc_Wvegas
  imports Cc_State
begin

text \<open>
  Weighted Vegas (\<open>net/mptcp/mptcp_wvegas.c\<close>): once per round-trip time the window follows the number of segments
  queued in the network, with a target \<open>alpha\<close> that is the subflow's share of the total rate.

  The module parameters and \<open>alpha\<close>, C ints, are kept as 32-bit words, since the code compares them with
  unsigned values.
\<close>

section \<open>State and operations\<close>

record wvegas =
  beg_snd_nxt :: u32
  doing_wvegas_now :: bool
  cnt_rtt :: u16
  sampled_rtt :: u32
  base_rtt :: u32
  instant_rate :: u64
  weight :: u64
  wv_alpha :: u32
  queue_delay :: u32

record wvegas_params =
  initial_alpha :: u32
  total_alpha :: u32
  gamma :: u32

definition MPTCP_WVEGAS_SCALE :: nat where "MPTCP_WVEGAS_SCALE = 16"

definition wvegas_enable :: "wvegas_params \<Rightarrow> sk_ptr \<Rightarrow> wvegas cc_state \<Rightarrow> wvegas cc_state" where
  "wvegas_enable pr sk s = upd_ca sk (\<lambda>v. v\<lparr>doing_wvegas_now := True, beg_snd_nxt := snd_nxt (cc_socks s sk),
     cnt_rtt := 0, sampled_rtt := 0, instant_rate := 0, wv_alpha := initial_alpha pr,
     weight := cc_scale 1 MPTCP_WVEGAS_SCALE, queue_delay := 0\<rparr>) s"

definition wvegas_disable :: "sk_ptr \<Rightarrow> wvegas cc_state \<Rightarrow> wvegas cc_state" where
  "wvegas_disable sk s = upd_ca sk (\<lambda>v. v\<lparr>doing_wvegas_now := False\<rparr>) s"

definition mptcp_wvegas_init :: "wvegas_params \<Rightarrow> sk_ptr \<Rightarrow> wvegas cc_state \<Rightarrow> wvegas cc_state" where
  "mptcp_wvegas_init pr sk s = wvegas_enable pr sk (upd_ca sk (\<lambda>v. v\<lparr>base_rtt := 0x7fffffff\<rparr>) s)"

definition mptcp_wvegas_rate :: "u32 \<Rightarrow> u32 \<Rightarrow> u64" where
  "mptcp_wvegas_rate cwnd rtt_us = cc_scale (ucast cwnd) MPTCP_WVEGAS_SCALE div ucast rtt_us"

definition mptcp_wvegas_pkts_acked :: "int \<Rightarrow> wvegas \<Rightarrow> wvegas" where
  "mptcp_wvegas_pkts_acked rtt_us v =
     (if rtt_us < 0 then v
      else let vrtt = word_of_int (rtt_us + 1)
           in v\<lparr>base_rtt := (if vrtt < base_rtt v then vrtt else base_rtt v),
                sampled_rtt := sampled_rtt v + vrtt, cnt_rtt := cnt_rtt v + 1\<rparr>)"

definition mptcp_wvegas_state :: "wvegas_params \<Rightarrow> sk_ptr \<Rightarrow> ca_state \<Rightarrow> wvegas cc_state \<Rightarrow> wvegas cc_state" where
  "mptcp_wvegas_state pr sk ca_state s =
     (if ca_state = TCP_CA_Open then wvegas_enable pr sk s else wvegas_disable sk s)"

definition mptcp_wvegas_cwnd_event ::
  "wvegas_params \<Rightarrow> sk_ptr \<Rightarrow> tcp_ca_event \<Rightarrow> wvegas cc_state \<Rightarrow> wvegas cc_state" where
  "mptcp_wvegas_cwnd_event pr sk event s =
     (if event = CA_EVENT_CWND_RESTART then mptcp_wvegas_init pr sk s
      else if event = CA_EVENT_LOSS then upd_ca sk (\<lambda>v. v\<lparr>instant_rate := 0\<rparr>) s else s)"

definition mptcp_wvegas_ssthresh :: "tcp_sock \<Rightarrow> u32" where
  "mptcp_wvegas_ssthresh tp = min (snd_ssthresh tp) (snd_cwnd tp - 1)"

text \<open>The parameter of \<open>mptcp_wvegas_scale\<close> has 32 bits.\<close>

definition mptcp_wvegas_weight :: "sk_ptr \<Rightarrow> wvegas cc_state \<Rightarrow> u64" where
  "mptcp_wvegas_weight sk s =
     (let v = cc_ca s sk;
          total_rate = fold (\<lambda>sub rate. if mptcp_sk_can_send (cc_socks s sub) \<and> sampled_rtt (cc_ca s sub) > 0
                               then rate + instant_rate (cc_ca s sub) else rate) (cc_conns s) 0
      in if \<not> cc_has_mpcb s sk then weight v
         else if total_rate \<noteq> 0 \<and> instant_rate v \<noteq> 0
         then cc_scale (ucast (ucast (instant_rate v) :: u32)) MPTCP_WVEGAS_SCALE div total_rate
         else weight v)"

text \<open>The adjustment of the weight and the window in congestion avoidance.\<close>

definition wvegas_reweigh :: "wvegas_params \<Rightarrow> u32 \<Rightarrow> sk_ptr \<Rightarrow> wvegas cc_state \<Rightarrow> wvegas cc_state" where
  "wvegas_reweigh pr rtt sk s =
     (let s1 = upd_ca sk (\<lambda>v. v\<lparr>instant_rate := mptcp_wvegas_rate (snd_cwnd (cc_socks s sk)) rtt\<rparr>) s;
          w = mptcp_wvegas_weight sk s1
      in upd_ca sk (\<lambda>v. v\<lparr>weight := w,
           wv_alpha := max 2 (ucast (drop_bit MPTCP_WVEGAS_SCALE (w * scast (total_alpha pr))))\<rparr>) s1)"

definition wvegas_move :: "u32 \<Rightarrow> u32 \<Rightarrow> tcp_sock \<Rightarrow> tcp_sock" where
  "wvegas_move diff alpha tp =
     (if diff > alpha then (let tp' = tp\<lparr>snd_cwnd := snd_cwnd tp - 1\<rparr> in tp'\<lparr>snd_ssthresh := mptcp_wvegas_ssthresh tp'\<rparr>)
      else if diff < alpha then tp\<lparr>snd_cwnd := snd_cwnd tp + 1\<rparr> else tp)"

definition wvegas_adjust :: "wvegas_params \<Rightarrow> u32 \<Rightarrow> u32 \<Rightarrow> sk_ptr \<Rightarrow> wvegas cc_state \<Rightarrow> wvegas cc_state" where
  "wvegas_adjust pr diff rtt sk s =
     (let s1 = (if diff \<ge> wv_alpha (cc_ca s sk) then wvegas_reweigh pr rtt sk s else s)
      in upd_sock sk (wvegas_move diff (wv_alpha (cc_ca s1 sk))) s1)"

text \<open>Draining the queue of the link; \<open>None\<close> is a division by zero.\<close>

definition wvegas_drain :: "u32 \<Rightarrow> sk_ptr \<Rightarrow> wvegas cc_state \<Rightarrow> wvegas cc_state option" where
  "wvegas_drain rtt sk s =
     (let v = cc_ca s sk; q_delay = rtt - base_rtt v;
          qd = (if queue_delay v = 0 \<or> queue_delay v > q_delay then q_delay else queue_delay v)
      in if q_delay \<ge> 2 * qd
         then (if 2 * rtt = 0 then None
               else let backoff_factor = ucast (cc_scale (ucast (base_rtt v)) MPTCP_WVEGAS_SCALE div ucast (2 * rtt)) :: u32
                    in Some (upd_ca sk (\<lambda>v. v\<lparr>queue_delay := 0\<rparr>)
                         (upd_sock sk (\<lambda>tp. tp\<lparr>snd_cwnd :=
                            ucast (drop_bit MPTCP_WVEGAS_SCALE (ucast (snd_cwnd tp) * ucast backoff_factor :: u64))\<rparr>) s)))
         else Some (upd_ca sk (\<lambda>v. v\<lparr>queue_delay := qd\<rparr>) s))"

definition wvegas_round ::
  "cc_kernel \<Rightarrow> wvegas_params \<Rightarrow> sk_ptr \<Rightarrow> u32 \<Rightarrow> wvegas cc_state \<Rightarrow> wvegas cc_state option" where
  "wvegas_round k pr sk acked s =
     (let tp = cc_socks s sk; v = cc_ca s sk; rtt = sampled_rtt v div ucast (cnt_rtt v);
          target_cwnd = ucast (snd_cwnd tp) * ucast (base_rtt v) div ucast rtt :: u64;
          diff = ucast (ucast (snd_cwnd tp) * ucast (rtt - base_rtt v) div ucast rtt :: u64) :: u32
      in if rtt = 0 then None
         else if diff > gamma pr \<and> snd_cwnd tp \<le> snd_ssthresh tp
         then Some (upd_sock sk (\<lambda>tp. let tp' = tp\<lparr>snd_cwnd := min (snd_cwnd tp) (ucast target_cwnd + 1)\<rparr>
                                      in tp'\<lparr>snd_ssthresh := mptcp_wvegas_ssthresh tp'\<rparr>) s)
         else if snd_cwnd tp \<le> snd_ssthresh tp then Some (upd_sock sk (\<lambda>tp. tcp_slow_start k tp acked) s)
         else wvegas_drain rtt sk (wvegas_adjust pr diff rtt sk s))"

definition wvegas_clamp :: "cc_kernel \<Rightarrow> tcp_sock \<Rightarrow> tcp_sock" where
  "wvegas_clamp k tp =
     (let tp' = (if snd_cwnd tp < 2 then tp\<lparr>snd_cwnd := 2\<rparr>
                 else if snd_cwnd tp > snd_cwnd_clamp tp then tp\<lparr>snd_cwnd := snd_cwnd_clamp tp\<rparr> else tp)
      in tp'\<lparr>snd_ssthresh := tcp_current_ssthresh k tp'\<rparr>)"

definition mptcp_wvegas_cong_avoid ::
  "wvegas_params \<Rightarrow> cc_kernel \<Rightarrow> sk_ptr \<Rightarrow> u32 \<Rightarrow> u32 \<Rightarrow> wvegas cc_state \<Rightarrow> wvegas cc_state option" where
  "mptcp_wvegas_cong_avoid pr k sk ack acked s =
     (if \<not> doing_wvegas_now (cc_ca s sk) then Some (upd_sock sk (\<lambda>tp. tcp_reno_cong_avoid k tp ack acked) s)
      else if after ack (beg_snd_nxt (cc_ca s sk))
      then
        let s1 = upd_ca sk (\<lambda>v. v\<lparr>beg_snd_nxt := snd_nxt (cc_socks s sk)\<rparr>) s
        in map_option (upd_ca sk (\<lambda>v. v\<lparr>cnt_rtt := 0, sampled_rtt := 0\<rparr>))
             (if cnt_rtt (cc_ca s1 sk) \<le> 2 then Some (upd_sock sk (\<lambda>tp. tcp_reno_cong_avoid k tp ack acked) s1)
              else map_option (upd_sock sk (wvegas_clamp k)) (wvegas_round k pr sk acked s1))
      else if snd_cwnd (cc_socks s sk) \<le> snd_ssthresh (cc_socks s sk)
      then Some (upd_sock sk (\<lambda>tp. tcp_slow_start k tp acked) s)
      else Some s)"

section \<open>The measurements\<close>

text \<open>The sum of the samples of a round is at least their number times the smallest one.\<close>

definition samples_ok :: "wvegas \<Rightarrow> bool" where
  "samples_ok v \<longleftrightarrow> 1 \<le> base_rtt v \<and> unat (cnt_rtt v) * unat (base_rtt v) \<le> unat (sampled_rtt v)"

lemma samples_ok_empty: "1 \<le> base_rtt v \<Longrightarrow> cnt_rtt v = 0 \<Longrightarrow> samples_ok v"
  by (simp add: samples_ok_def)

lemma samples_ok_enable:
  "1 \<le> base_rtt (cc_ca s sk) \<Longrightarrow> samples_ok (cc_ca (wvegas_enable pr sk s) sk)"
  by (rule samples_ok_empty) (simp_all add: wvegas_enable_def)

lemma samples_ok_init: "samples_ok (cc_ca (mptcp_wvegas_init pr sk s) sk)"
  by (simp add: mptcp_wvegas_init_def samples_ok_enable)

lemma samples_ok_pkts_acked:
  assumes "samples_ok v" and "unat (sampled_rtt v) + nat (rtt + 1) < 2 ^ 32" and "unat (cnt_rtt v) < 2 ^ 16 - 1"
  shows "samples_ok (mptcp_wvegas_pkts_acked rtt v)"
proof (cases "rtt < 0")
  case True
  then show ?thesis using assms(1) by (simp add: mptcp_wvegas_pkts_acked_def)
next
  case False
  define n where "n = nat (rtt + 1)"
  have n: "1 \<le> n" "n < 2 ^ 32" and rtt: "rtt + 1 = int n" using False assms(2) by (simp_all add: n_def)
  define w :: u32 where "w = word_of_int (rtt + 1)"
  have w: "unat w = n" using n(2) unat_of_nat32 [of n] by (simp add: w_def rtt)
  have sum: "unat (sampled_rtt v + w) = unat (sampled_rtt v) + n"
    using assms(2) w by (simp add: unat_word_ariths n_def)
  have cnt: "unat (cnt_rtt v + 1) = unat (cnt_rtt v) + 1" using assms(3) by (simp add: unat_word_ariths)
  have m: "unat (min w (base_rtt v)) \<le> n" "unat (min w (base_rtt v)) \<le> unat (base_rtt v)"
    using w by (auto simp: min_def word_le_nat_alt)
  have "unat (cnt_rtt v) * unat (min w (base_rtt v)) \<le> unat (cnt_rtt v) * unat (base_rtt v)"
    using m(2) by (rule mult_le_mono2)
  moreover have "(unat (cnt_rtt v) + 1) * unat (min w (base_rtt v)) =
      unat (cnt_rtt v) * unat (min w (base_rtt v)) + unat (min w (base_rtt v))" by simp
  ultimately have "(unat (cnt_rtt v) + 1) * unat (min w (base_rtt v)) \<le> unat (sampled_rtt v) + n"
    using assms(1) m(1) unfolding samples_ok_def by linarith
  moreover have "1 \<le> min w (base_rtt v)" using n(1) w assms(1) by (auto simp: samples_ok_def min_def word_le_nat_alt)
  moreover have "mptcp_wvegas_pkts_acked rtt v = v\<lparr>base_rtt := min w (base_rtt v),
      sampled_rtt := sampled_rtt v + w, cnt_rtt := cnt_rtt v + 1\<rparr>"
    unfolding mptcp_wvegas_pkts_acked_def Let_def w_def [symmetric]
    using False by (cases "w < base_rtt v") (simp_all add: min_def not_less)
  ultimately show ?thesis by (simp add: samples_ok_def sum cnt)
qed

text \<open>With samples, their mean is not below the smallest and below \<open>2^31\<close>.\<close>

lemma samples_mean:
  assumes "samples_ok v" and "2 < cnt_rtt v"
  defines "rtt \<equiv> sampled_rtt v div ucast (cnt_rtt v)"
  shows "base_rtt v \<le> rtt" and "unat rtt < 2 ^ 31" and "rtt \<noteq> 0"
proof -
  have c: "2 < unat (cnt_rtt v)" using assms(2) by (simp add: word_less_nat_alt)
  have "unat (ucast (cnt_rtt v) :: u32) = unat (cnt_rtt v)"
    using unat_bound [of "cnt_rtt v"] by (simp add: unsigned_ucast_eq take_bit_nat_eq_self)
  then have rtt: "unat rtt = unat (sampled_rtt v) div unat (cnt_rtt v)" by (simp add: rtt_def unat_div)
  have "unat (base_rtt v) \<le> unat rtt"
    using assms(1) c by (simp add: rtt samples_ok_def less_eq_div_iff_mult_less_eq mult.commute)
  then show base: "base_rtt v \<le> rtt" by (simp add: word_le_nat_alt)
  have "unat rtt \<le> unat (sampled_rtt v) div 2" unfolding rtt using c by (intro div_le_mono2) auto
  then show "unat rtt < 2 ^ 31" using unat_bound [of "sampled_rtt v"] by simp
  show "rtt \<noteq> 0" using base assms(1) by (auto simp: samples_ok_def)
qed

section \<open>The contract\<close>

lemma wvegas_reweigh_sel [simp]:
  "cc_socks (wvegas_reweigh pr rtt sk s) = cc_socks s" "base_rtt (cc_ca (wvegas_reweigh pr rtt sk s) p) = base_rtt (cc_ca s p)"
  by (simp_all add: wvegas_reweigh_def Let_def)

lemma wvegas_move_clamp [simp]: "snd_cwnd_clamp (wvegas_move d a tp) = snd_cwnd_clamp tp"
  by (simp add: wvegas_move_def Let_def)

lemma wvegas_adjust_sel:
  "snd_cwnd_clamp (cc_socks (wvegas_adjust pr d rtt sk s) sk) = snd_cwnd_clamp (cc_socks s sk)"
  "p \<noteq> sk \<Longrightarrow> cc_socks (wvegas_adjust pr d rtt sk s) p = cc_socks s p"
  "base_rtt (cc_ca (wvegas_adjust pr d rtt sk s) q) = base_rtt (cc_ca s q)"
  by (simp_all add: wvegas_adjust_def Let_def)

lemma wvegas_drain_sel:
  assumes "wvegas_drain rtt sk s = Some s'"
  shows "snd_cwnd_clamp (cc_socks s' sk) = snd_cwnd_clamp (cc_socks s sk)"
    "p \<noteq> sk \<Longrightarrow> cc_socks s' p = cc_socks s p" "base_rtt (cc_ca s' q) = base_rtt (cc_ca s q)"
  using assms by (auto simp: wvegas_drain_def Let_def split: if_splits)

lemma wvegas_round_sel:
  assumes "wvegas_round k pr sk acked s = Some s'"
  shows "p \<noteq> sk \<Longrightarrow> cc_socks s' p = cc_socks s p" "base_rtt (cc_ca s' q) = base_rtt (cc_ca s q)"
    "kernel_grows k \<Longrightarrow> window_ok 2 (cc_socks s sk) \<Longrightarrow> snd_cwnd_clamp (cc_socks s' sk) = snd_cwnd_clamp (cc_socks s sk)"
  using assms kernel_grows_slow_start_clamp [of k 2 "cc_socks s sk" acked]
  by (auto simp: wvegas_round_def Let_def wvegas_adjust_sel dest: wvegas_drain_sel split: if_splits)

lemma wvegas_clamp_window: "2 \<le> snd_cwnd_clamp tp \<Longrightarrow> window_ok 2 (wvegas_clamp k tp)"
  by (auto simp: wvegas_clamp_def Let_def window_ok_def)

lemma wvegas_window:
  assumes "kernel_grows k" and "mptcp_wvegas_cong_avoid pr k sk ack acked s = Some s'" and "window_ok 2 (cc_socks s sk)"
  shows "window_ok 2 (cc_socks s' sk)"
proof -
  have clamp: "2 \<le> snd_cwnd_clamp (cc_socks s sk)" using assms(3) by (auto simp: window_ok_def)
  have round: "window_ok 2 (wvegas_clamp k (cc_socks s2 sk))"
    if "wvegas_round k pr sk acked (upd_ca sk f s) = Some s2" for f s2
    using wvegas_clamp_window wvegas_round_sel(3) [OF that assms(1)] assms(3) clamp by simp
  show ?thesis
    using assms kernel_grows_reno [OF assms(1,3)] kernel_grows_slow_start [OF assms(1,3)] round
    by (auto simp: mptcp_wvegas_cong_avoid_def Let_def split: if_splits)
qed

lemma wvegas_other:
  "mptcp_wvegas_cong_avoid pr k sk ack acked s = Some s' \<Longrightarrow> p \<noteq> sk \<Longrightarrow> cc_socks s' p = cc_socks s p"
  by (auto simp: mptcp_wvegas_cong_avoid_def Let_def dest: wvegas_round_sel(1) split: if_splits)

interpretation wvegas: cong_control "mptcp_wvegas_cong_avoid pr" 2
  by unfold_locales (simp_all add: wvegas_window wvegas_other)

lemma wvegas_round_returns:
  assumes "samples_ok (cc_ca s sk)" and "2 < cnt_rtt (cc_ca s sk)"
  shows "wvegas_round k pr sk acked s \<noteq> None"
proof -
  note mean = samples_mean [OF assms]
  have "2 * (sampled_rtt (cc_ca s sk) div ucast (cnt_rtt (cc_ca s sk))) \<noteq> 0"
    using mean(2,3) by (simp add: word_unat_eq_iff unat_word_ariths)
  then show ?thesis using mean(3) by (auto simp: wvegas_round_def wvegas_drain_def Let_def)
qed

text \<open>Weighted Vegas is safe.  With consistent measurements an acknowledgement never divides by zero, leaves consistent
  measurements, and keeps the window between 2 and the clamp, on every path through the
  calculation.\<close>

lemma mptcp_wvegas_cong_avoid_safe:
  assumes "kernel_grows k" and "samples_ok (cc_ca s sk)" and "window_ok 2 (cc_socks s sk)"
  shows "\<exists>s'. mptcp_wvegas_cong_avoid pr k sk ack acked s = Some s' \<and> samples_ok (cc_ca s' sk) \<and>
    window_ok 2 (cc_socks s' sk)"
proof -
  let ?s1 = "upd_ca sk (\<lambda>v. v\<lparr>beg_snd_nxt := snd_nxt (cc_socks s sk)\<rparr>) s"
  have base: "1 \<le> base_rtt (cc_ca s sk)" using assms(2) by (simp add: samples_ok_def)
  have "wvegas_round k pr sk acked ?s1 \<noteq> None" if "\<not> cnt_rtt (cc_ca s sk) \<le> 2"
    using wvegas_round_returns [of ?s1 sk] assms(2) that by (simp add: samples_ok_def not_le)
  then have "mptcp_wvegas_cong_avoid pr k sk ack acked s \<noteq> None"
    by (simp add: mptcp_wvegas_cong_avoid_def Let_def)
  then obtain s' where s': "mptcp_wvegas_cong_avoid pr k sk ack acked s = Some s'" by blast
  have "samples_ok (cc_ca s' sk)"
    using s' assms(2) base
    by (auto simp: mptcp_wvegas_cong_avoid_def Let_def samples_ok_def dest!: wvegas_round_sel(2) [where q = sk] split: if_splits)
  then show ?thesis using s' wvegas_window [OF assms(1) s' assms(3)] by blast
qed

text \<open>Without any queue, when the mean is the smallest round-trip time, the window in congestion avoidance is halved.\<close>

lemma wvegas_drain_empty_queue:
  assumes "base_rtt (cc_ca s sk) = rtt" and "2 * rtt \<noteq> 0"
  shows "\<exists>s'. wvegas_drain rtt sk s = Some s' \<and> snd_cwnd (cc_socks s' sk) =
    ucast (drop_bit 16 (ucast (snd_cwnd (cc_socks s sk)) * ucast (ucast (cc_scale (ucast rtt) 16 div ucast (2 * rtt) :: u64) :: u32) :: u64))"
  using assms by (auto simp: wvegas_drain_def Let_def MPTCP_WVEGAS_SCALE_def word_neq_0_conv)

lemma wvegas_drain_halves:
  "base_rtt (cc_ca s sk) = 20000 \<Longrightarrow> snd_cwnd (cc_socks s sk) = 40 \<Longrightarrow>
   \<exists>s'. wvegas_drain 20000 sk s = Some s' \<and> snd_cwnd (cc_socks s' sk) = 20"
  using wvegas_drain_empty_queue [of s sk 20000] by (simp add: cc_scale_def)

section \<open>Closed instances\<close>

definition sample_wvegas :: "wvegas cc_state" where
  "sample_wvegas = \<lparr>cc_socks = (\<lambda>p. sample_sock\<lparr>snd_nxt := 500\<rparr>),
     cc_ca = (\<lambda>p. \<lparr>beg_snd_nxt = 100, doing_wvegas_now = True, cnt_rtt = 4, sampled_rtt = 500, base_rtt = 100,
       instant_rate = 0, weight = 65536, wv_alpha = 2, queue_delay = 0\<rparr>), cc_conns = [1, 2], cc_meta = 0,
     cc_cnt_established = 2, cc_mptcp = (\<lambda>_. True), cc_has_mpcb = (\<lambda>_. True)\<rparr>"

definition wvegas_kernel :: cc_kernel where
  "wvegas_kernel = \<lparr>tcp_slow_start = (\<lambda>tp acked. tp), tcp_reno_cong_avoid = (\<lambda>tp ack acked. tp),
     tcp_reno_ssthresh = (\<lambda>tp. 2), tcp_current_ssthresh = snd_ssthresh\<rparr>"

lemma mptcp_wvegas_cong_avoid_safe_witness:
  "\<exists>s'. mptcp_wvegas_cong_avoid \<lparr>initial_alpha = 2, total_alpha = 10, gamma = 1\<rparr> wvegas_kernel 1 200 1 sample_wvegas = Some s' \<and>
     window_ok 2 (cc_socks s' 1)"
proof -
  have "kernel_grows wvegas_kernel" by (auto simp: kernel_grows_def wvegas_kernel_def)
  moreover have "samples_ok (cc_ca sample_wvegas 1)" by (simp add: samples_ok_def sample_wvegas_def)
  moreover have "window_ok 2 (cc_socks sample_wvegas 1)" by (simp add: window_ok_def sample_wvegas_def sample_sock_def)
  ultimately show ?thesis using mptcp_wvegas_cong_avoid_safe by blast
qed

end
