(* ===== verification/Rx_State.thy ===== *)
theory Rx_State
  imports Mpcb
begin

text \<open>
  Received segments and their place in the data sequence space (\<open>include/net/mptcp.h\<close>,
  \<open>net/mptcp/mptcp_input.c\<close>).

  \<open>rx_dss\<close> are the 32-bit words, in host order, of the packet from the data sequence number of its DSS
  option on (\<open>dss_off\<close>): one or two words of data sequence number, the subflow sequence number and the word
  with the length of the mapping and the checksum.
\<close>

record rx_skb =
  rx_seq :: u32
  rx_end_seq :: u32
  rx_len :: u32
  rx_flags :: u8
  rx_tcp_flags :: u8
  rx_dss :: "u32 list"

definition MPTCPHDR_ACK :: u8 where "MPTCPHDR_ACK = 0x08"
definition MPTCPHDR_SEQ64_SET :: u8 where "MPTCPHDR_SEQ64_SET = 0x10"
definition MPTCPHDR_DSS_CSUM :: u8 where "MPTCPHDR_DSS_CSUM = 0x40"
definition MPTCPHDR_JOIN :: u8 where "MPTCPHDR_JOIN = 0x80"

definition before64 :: "u64 \<Rightarrow> u64 \<Rightarrow> bool" where
  "before64 seq1 seq2 \<longleftrightarrow> sint (seq1 - seq2) < 0"

definition after64 :: "u64 \<Rightarrow> u64 \<Rightarrow> bool" where
  "after64 seq1 seq2 \<longleftrightarrow> before64 seq2 seq1"

text \<open>A word in network byte order.\<close>

definition be32 :: "u32 \<Rightarrow> u8 list" where
  "be32 w = [ucast (drop_bit 24 w), ucast (drop_bit 16 w), ucast (drop_bit 8 w), ucast w]"

text \<open>The data sequence number of a segment, the words behind it, and the segment with the index of its
  high-order half recorded.\<close>

definition mptcp_skb_set_data_seq ::
  "mptcp_cb option \<Rightarrow> rx_skb \<Rightarrow> u32 \<times> u32 list \<times> rx_skb" where
  "mptcp_skb_set_data_seq mpcb skb =
     (if has (rx_flags skb) MPTCPHDR_SEQ64_SET
      then let data_seq64 = seq64 (rx_dss skb ! 0) (rx_dss skb ! 1);
               skb' = (case mpcb of None \<Rightarrow> skb
                       | Some m \<Rightarrow> skb\<lparr>rx_flags := rx_flags skb OR mptcp_get_64_bit data_seq64 m\<rparr>)
           in (ucast data_seq64, drop 2 (rx_dss skb), skb')
      else (rx_dss skb ! 0, drop 1 (rx_dss skb), skb))"

lemma seq64_low: "ucast (seq64 high low) = low"
proof (rule bit_word_eqI)
  fix n assume "n < LENGTH(32)"
  then show "bit (ucast (seq64 high low) :: u32) n = bit low n"
    by (auto simp: seq64_def bit_simps dest: bit_imp_le_length)
qed

lemma set_data_seq_seq:
  "fst (mptcp_skb_set_data_seq mpcb skb) =
     (if has (rx_flags skb) MPTCPHDR_SEQ64_SET then rx_dss skb ! 1 else rx_dss skb ! 0)"
  by (simp add: mptcp_skb_set_data_seq_def Let_def seq64_low)

end
