(* ===== verification/Options.thy ===== *)
theory Options
  imports Rx_State Data_Output
begin

text \<open>
  The multipath options of a TCP header: which options a packet gets and how much room they take, their
  bytes (\<open>net/mptcp/mptcp_output.c\<close>), and the parser (\<open>net/mptcp/mptcp_input.c\<close>).

  Structures are laid out as on a little-endian machine: bit fields start at the lowest bit, and the
  keys, tokens, nonces and addresses, which the code copies as they are in memory, are stored lowest
  byte first.
\<close>

section \<open>Bytes\<close>

definition be16 :: "u16 \<Rightarrow> u8 list" where
  "be16 w = [ucast (drop_bit 8 w), ucast w]"

definition be64 :: "u64 \<Rightarrow> u8 list" where
  "be64 w = be32 (ucast (drop_bit 32 w)) @ be32 (ucast w)"

definition mem32 :: "u32 \<Rightarrow> u8 list" where
  "mem32 w = [ucast w, ucast (drop_bit 8 w), ucast (drop_bit 16 w), ucast (drop_bit 24 w)]"

definition mem64 :: "u64 \<Rightarrow> u8 list" where
  "mem64 w = mem32 (ucast w) @ mem32 (ucast (drop_bit 32 w))"

definition get_be16 :: "u8 list \<Rightarrow> u16" where
  "get_be16 bs = push_bit 8 (ucast (bs ! 0)) OR ucast (bs ! 1)"

definition get_be32 :: "u8 list \<Rightarrow> u32" where
  "get_be32 bs = push_bit 24 (ucast (bs ! 0)) OR push_bit 16 (ucast (bs ! 1)) OR push_bit 8 (ucast (bs ! 2)) OR ucast (bs ! 3)"

definition get_be64 :: "u8 list \<Rightarrow> u64" where
  "get_be64 bs = seq64 (get_be32 bs) (get_be32 (drop 4 bs))"

definition get_mem32 :: "u8 list \<Rightarrow> u32" where
  "get_mem32 bs = ucast (bs ! 0) OR push_bit 8 (ucast (bs ! 1)) OR push_bit 16 (ucast (bs ! 2)) OR push_bit 24 (ucast (bs ! 3))"

definition get_mem64 :: "u8 list \<Rightarrow> u64" where
  "get_mem64 bs = seq64 (get_mem32 (drop 4 bs)) (get_mem32 bs)"

definition flag :: "nat \<Rightarrow> bool \<Rightarrow> u8" where
  "flag n b = (if b then push_bit n 1 else 0)"

section \<open>Constants\<close>

definition TCPOPT_MPTCP :: u8 where "TCPOPT_MPTCP = 30"
definition OPT_NOP :: u8 where "OPT_NOP = 1"
definition OPT_EOL :: u8 where "OPT_EOL = 0"

definition MPTCP_SUB_CAPABLE :: u8 where "MPTCP_SUB_CAPABLE = 0"
definition MPTCP_SUB_LEN_CAPABLE_SYN :: u8 where "MPTCP_SUB_LEN_CAPABLE_SYN = 12"
definition MPTCP_SUB_LEN_CAPABLE_ACK :: u8 where "MPTCP_SUB_LEN_CAPABLE_ACK = 20"
definition MPTCP_SUB_JOIN :: u8 where "MPTCP_SUB_JOIN = 1"
definition MPTCP_SUB_LEN_JOIN_SYN :: u8 where "MPTCP_SUB_LEN_JOIN_SYN = 12"
definition MPTCP_SUB_LEN_JOIN_SYNACK :: u8 where "MPTCP_SUB_LEN_JOIN_SYNACK = 16"
definition MPTCP_SUB_LEN_JOIN_ACK :: u8 where "MPTCP_SUB_LEN_JOIN_ACK = 24"
definition MPTCP_SUB_DSS :: u8 where "MPTCP_SUB_DSS = 2"
definition MPTCP_SUB_ADD_ADDR :: u8 where "MPTCP_SUB_ADD_ADDR = 3"
definition MPTCP_SUB_LEN_ADD_ADDR4 :: u8 where "MPTCP_SUB_LEN_ADD_ADDR4 = 8"
definition MPTCP_SUB_LEN_ADD_ADDR4_VER1 :: u8 where "MPTCP_SUB_LEN_ADD_ADDR4_VER1 = 16"
definition MPTCP_SUB_LEN_ADD_ADDR6 :: u8 where "MPTCP_SUB_LEN_ADD_ADDR6 = 20"
definition MPTCP_SUB_LEN_ADD_ADDR6_VER1 :: u8 where "MPTCP_SUB_LEN_ADD_ADDR6_VER1 = 28"
definition MPTCP_SUB_REMOVE_ADDR :: u8 where "MPTCP_SUB_REMOVE_ADDR = 4"
definition MPTCP_SUB_LEN_REMOVE_ADDR :: nat where "MPTCP_SUB_LEN_REMOVE_ADDR = 4"
definition MPTCP_SUB_PRIO :: u8 where "MPTCP_SUB_PRIO = 5"
definition MPTCP_SUB_LEN_PRIO :: u8 where "MPTCP_SUB_LEN_PRIO = 3"
definition MPTCP_SUB_LEN_PRIO_ADDR :: u8 where "MPTCP_SUB_LEN_PRIO_ADDR = 4"
definition MPTCP_SUB_FAIL :: u8 where "MPTCP_SUB_FAIL = 6"
definition MPTCP_SUB_LEN_FAIL :: u8 where "MPTCP_SUB_LEN_FAIL = 12"
definition MPTCP_SUB_FCLOSE :: u8 where "MPTCP_SUB_FCLOSE = 7"
definition MPTCP_SUB_LEN_FCLOSE :: u8 where "MPTCP_SUB_LEN_FCLOSE = 12"

text \<open>Room for the options, aligned.\<close>

definition CAPABLE_SYN_ALIGN :: u32 where "CAPABLE_SYN_ALIGN = 12"
definition CAPABLE_ACK_ALIGN :: u32 where "CAPABLE_ACK_ALIGN = 20"
definition JOIN_SYN_ALIGN :: u32 where "JOIN_SYN_ALIGN = 12"
definition JOIN_SYNACK_ALIGN :: u32 where "JOIN_SYNACK_ALIGN = 16"
definition JOIN_ACK_ALIGN :: u32 where "JOIN_ACK_ALIGN = 24"
definition DSS_ALIGN :: u32 where "DSS_ALIGN = 4"
definition ACK_ALIGN :: u32 where "ACK_ALIGN = 4"
definition SEQ_ALIGN :: u32 where "SEQ_ALIGN = 12"
definition FAIL_ALIGN :: u32 where "FAIL_ALIGN = 12"
definition FCLOSE_ALIGN :: u32 where "FCLOSE_ALIGN = 12"
definition PRIO_ALIGN :: u32 where "PRIO_ALIGN = 4"
definition MAX_TCP_OPTION_SPACE :: u32 where "MAX_TCP_OPTION_SPACE = 40"

datatype mptcp_opt =
    TYPE_SYN | TYPE_SYNACK | TYPE_ACK | MP_CAPABLE | DATA_ACK | ADD_ADDR | MP_JOIN | MP_FAIL | MP_FCLOSE
  | REMOVE_ADDR | MP_PRIO

section \<open>State\<close>

text \<open>The options to write; the bits of \<open>mptcp_options\<close> are a set.\<close>

record out_options =
  oo_mptcp :: bool
  mptcp_options :: "mptcp_opt set"
  oo_ver :: u8
  oo_dss_csum :: bool
  oo_addr_id :: u8
  sender_key :: u64
  receiver_key :: u64
  join_token :: u32
  join_nonce :: u32
  join_tmac :: u64
  join_low_prio :: bool
  add_addr_v4 :: bool
  add_addr_v6 :: bool
  add_addr4 :: "u8 \<times> u32 \<times> u64"
  add_addr6 :: "u8 \<times> u8 list \<times> u64"
  remove_addrs :: u16

text \<open>The fields of a subflow and of its connection that go into options.\<close>

record opt_sock =
  os_ver :: u8
  os_loc_key :: u64
  os_loc_id :: u8
  os_loc_nonce :: u32
  os_sender_mac :: "u8 list"
  include_mpc :: bool
  send_mp_fclose :: bool
  send_mp_prio :: bool
  os_mp_fail :: bool
  mpcb_ver :: u8
  mptcp_rem_token :: u32
  mptcp_loc_key :: u64
  mptcp_rem_key :: u64
  addr_signal :: bool
  cutoff_seq :: u64

record mptcp_request_sock =
  is_sub :: bool
  rs_ver :: u8
  rs_loc_key :: u64
  rs_dss_csum :: bool
  rs_hash_tmac :: u64
  rs_loc_nonce :: u32
  rs_low_prio :: bool
  rs_loc_id :: u8
  rs_rem_nonce :: u32
  rs_rem_id :: u8
  rs_rcv_low_prio :: bool

definition add_opts :: "mptcp_opt set \<Rightarrow> out_options \<Rightarrow> out_options" where
  "add_opts os opts = opts\<lparr>oo_mptcp := True, mptcp_options := mptcp_options opts \<union> os\<rparr>"

section \<open>Which options\<close>

definition mptcp_syn_options :: "bool \<Rightarrow> opt_sock \<Rightarrow> tcp_sock \<Rightarrow> out_options \<Rightarrow> u32 \<Rightarrow> out_options \<times> u32" where
  "mptcp_syn_options sysctl_checksum os tp opts remaining =
     (if is_master_tp tp
      then ((add_opts {MP_CAPABLE, TYPE_SYN} opts)\<lparr>oo_ver := os_ver os, sender_key := os_loc_key os,
              oo_dss_csum := sysctl_checksum\<rparr>, remaining - CAPABLE_SYN_ALIGN)
      else ((add_opts {MP_JOIN, TYPE_SYN} opts)\<lparr>join_token := mptcp_rem_token os, join_low_prio := low_prio tp,
              oo_addr_id := os_loc_id os, join_nonce := os_loc_nonce os\<rparr>, remaining - JOIN_SYN_ALIGN))"

definition mptcp_synack_options :: "bool \<Rightarrow> mptcp_request_sock \<Rightarrow> out_options \<Rightarrow> u32 \<Rightarrow> out_options \<times> u32" where
  "mptcp_synack_options sysctl_checksum mtreq opts remaining =
     (if \<not> is_sub mtreq
      then ((add_opts {MP_CAPABLE, TYPE_SYNACK} opts)\<lparr>oo_ver := rs_ver mtreq, sender_key := rs_loc_key mtreq,
              oo_dss_csum := (sysctl_checksum \<or> rs_dss_csum mtreq)\<rparr>, remaining - CAPABLE_SYN_ALIGN)
      else ((add_opts {MP_JOIN, TYPE_SYNACK} opts)\<lparr>join_tmac := rs_hash_tmac mtreq, join_nonce := rs_loc_nonce mtreq,
              join_low_prio := rs_low_prio mtreq, oo_addr_id := rs_loc_id mtreq\<rparr>, remaining - JOIN_SYNACK_ALIGN))"

text \<open>The state of the function: the subflow, the options and the room they take.\<close>

type_synonym est = "opt_sock \<times> out_options \<times> u32"

definition est_fail :: "est \<Rightarrow> est" where
  "est_fail = (\<lambda>(os, opts, room). if os_mp_fail os then (os, add_opts {MP_FAIL} opts, room + FAIL_ALIGN) else (os, opts, room))"

definition est_capable :: "mptcp_cb \<Rightarrow> bool \<Rightarrow> est \<Rightarrow> est" where
  "est_capable mpcb has_skb = (\<lambda>(os, opts, room).
     if include_mpc os
     then (if has_skb then os\<lparr>include_mpc := False\<rparr> else os,
           (add_opts {MP_CAPABLE, TYPE_ACK} opts)\<lparr>oo_ver := mpcb_ver os, sender_key := mptcp_loc_key os,
              receiver_key := mptcp_rem_key os, oo_dss_csum := dss_csum mpcb\<rparr>,
           room + CAPABLE_ACK_ALIGN)
     else (os, opts, room))"

definition est_join :: "tcp_sock \<Rightarrow> est \<Rightarrow> est" where
  "est_join tp = (\<lambda>(os, opts, room).
     if pre_established tp then (os, add_opts {MP_JOIN, TYPE_ACK} opts, room + JOIN_ACK_ALIGN) else (os, opts, room))"

definition est_dss :: "tcp_sock \<Rightarrow> sk_buff option \<Rightarrow> est \<Rightarrow> est" where
  "est_dss tp skb = (\<lambda>(os, opts, room).
     if \<not> include_mpc os \<and> \<not> pre_established tp
     then (os, add_opts {DATA_ACK} opts,
           room + (if (case skb of None \<Rightarrow> False | Some b \<Rightarrow> \<not> mptcp_is_data_seq b) then ACK_ALIGN else ACK_ALIGN + SEQ_ALIGN)
             + DSS_ALIGN)
     else (os, opts, room))"

definition est_prio :: "bool \<Rightarrow> est \<Rightarrow> est" where
  "est_prio has_skb = (\<lambda>(os, opts, room).
     if send_mp_prio os \<and> MAX_TCP_OPTION_SPACE - room \<ge> PRIO_ALIGN
     then (if has_skb then os\<lparr>send_mp_prio := False\<rparr> else os, add_opts {MP_PRIO} opts, room + PRIO_ALIGN)
     else (os, opts, room))"

definition skips_options :: "mptcp_cb \<Rightarrow> tcp_sock \<Rightarrow> sk_buff option \<Rightarrow> bool" where
  "skips_options mpcb tp skb \<longleftrightarrow> infinite_mapping_snd mpcb \<and>
     ((case skb of None \<Rightarrow> False
       | Some b \<Rightarrow> send_infinite_mapping mpcb \<and> mptcp_is_data_seq b \<and> \<not> has (mptcp_flags b) MPTCPHDR_INF \<and>
           \<not> before (skb_seq b) (infinite_cutoff_seq tp)) \<or>
      \<not> send_infinite_mapping mpcb)"

text \<open>\<open>signal\<close> is the address signal of the path manager, when it has one.\<close>

definition mptcp_established_options ::
  "(bool \<Rightarrow> est \<Rightarrow> est) option \<Rightarrow> bool \<Rightarrow> mptcp_cb \<Rightarrow> tcp_sock \<Rightarrow> sk_buff option \<Rightarrow> est \<Rightarrow> est" where
  "mptcp_established_options signal is_meta mpcb tp skb e =
     (if skb = None \<and> is_meta then e
      else case est_fail e of (os, opts, room) \<Rightarrow>
        if send_mp_fclose os
        then (os, (add_opts {MP_FCLOSE} opts)\<lparr>receiver_key := mptcp_rem_key os\<rparr>, room + FCLOSE_ALIGN)
        else if skips_options mpcb tp skb then (os, opts, room)
        else
          let e1 = est_join tp (est_capable mpcb (skb \<noteq> None) (os, opts, room));
              ack = (case skb of None \<Rightarrow> False | Some b \<Rightarrow> \<not> mptcp_is_data_seq b);
              e2 = (case signal of None \<Rightarrow> e1
                    | Some f \<Rightarrow> if addr_signal (fst e1) \<and> mpcb_ver (fst e1) \<ge> 1 \<and> ack then f True e1 else e1);
              called = (signal \<noteq> None \<and> addr_signal (fst e1) \<and> mpcb_ver (fst e1) \<ge> 1 \<and> ack)
          in if called \<and> add_addr_v6 (fst (snd e2)) then e2
             else
               let e3 = est_dss tp skb e2;
                   e4 = (case signal of None \<Rightarrow> e3
                         | Some f \<Rightarrow> if addr_signal (fst e3) \<and> mpcb_ver (fst e3) < 1 then f (skb \<noteq> None) e3 else e3)
               in est_prio (skb \<noteq> None) e4)"


section \<open>Their bytes\<close>

text \<open>\<open>mptcp_sub_len_remove_addr\<close>: one byte of address per bit that is set.\<close>

definition set_bits16 :: "u16 \<Rightarrow> nat list" where
  "set_bits16 w = filter (bit w) [0..<16]"

definition mptcp_sub_len_remove_addr :: "u16 \<Rightarrow> nat" where
  "mptcp_sub_len_remove_addr bitfield = MPTCP_SUB_LEN_REMOVE_ADDR + length (set_bits16 bitfield) - 1"

definition mptcp_sub_len_remove_addr_align :: "u16 \<Rightarrow> nat" where
  "mptcp_sub_len_remove_addr_align bitfield = (mptcp_sub_len_remove_addr bitfield + 3) div 4 * 4"

definition has_opt :: "out_options \<Rightarrow> mptcp_opt \<Rightarrow> bool" where
  "has_opt opts x \<longleftrightarrow> x \<in> mptcp_options opts"

definition sub_byte :: "u8 \<Rightarrow> u8 \<Rightarrow> u8" where
  "sub_byte sub low = push_bit 4 sub OR low"

definition write_capable :: "out_options \<Rightarrow> u8 list" where
  "write_capable opts =
     (let third = sub_byte MPTCP_SUB_CAPABLE (oo_ver opts AND 0xF); flags = flag 7 (oo_dss_csum opts) OR flag 0 True
      in if \<not> has_opt opts MP_CAPABLE then []
         else if has_opt opts TYPE_SYN \<or> has_opt opts TYPE_SYNACK
         then [TCPOPT_MPTCP, MPTCP_SUB_LEN_CAPABLE_SYN, third, flags] @ mem64 (sender_key opts)
         else if has_opt opts TYPE_ACK
         then [TCPOPT_MPTCP, MPTCP_SUB_LEN_CAPABLE_ACK, third, flags] @ mem64 (sender_key opts) @ mem64 (receiver_key opts)
         else [])"

definition write_join :: "opt_sock \<Rightarrow> out_options \<Rightarrow> u8 list" where
  "write_join os opts =
     (let third = sub_byte MPTCP_SUB_JOIN (flag 0 (join_low_prio opts))
      in if \<not> has_opt opts MP_JOIN then []
         else if has_opt opts TYPE_SYN
         then [TCPOPT_MPTCP, MPTCP_SUB_LEN_JOIN_SYN, third, oo_addr_id opts] @ mem32 (join_token opts) @ mem32 (join_nonce opts)
         else if has_opt opts TYPE_SYNACK
         then [TCPOPT_MPTCP, MPTCP_SUB_LEN_JOIN_SYNACK, third, oo_addr_id opts] @ mem64 (join_tmac opts) @ mem32 (join_nonce opts)
         else if has_opt opts TYPE_ACK
         then [TCPOPT_MPTCP, MPTCP_SUB_LEN_JOIN_ACK, sub_byte MPTCP_SUB_JOIN 0, 0] @ take 20 (os_sender_mac os)
         else [])"

definition write_add_addr :: "opt_sock \<Rightarrow> out_options \<Rightarrow> u8 list" where
  "write_add_addr os opts =
     (if \<not> has_opt opts ADD_ADDR then []
      else if add_addr_v4 opts
      then (case add_addr4 opts of (ident, addr, mac) \<Rightarrow>
              if mpcb_ver os < 1
              then [TCPOPT_MPTCP, MPTCP_SUB_LEN_ADD_ADDR4, sub_byte MPTCP_SUB_ADD_ADDR 4, ident] @ mem32 addr
              else [TCPOPT_MPTCP, MPTCP_SUB_LEN_ADD_ADDR4_VER1, sub_byte MPTCP_SUB_ADD_ADDR 4, ident] @ mem32 addr @ mem64 mac)
      else if add_addr_v6 opts
      then (case add_addr6 opts of (ident, addr, mac) \<Rightarrow>
              if mpcb_ver os < 1
              then [TCPOPT_MPTCP, MPTCP_SUB_LEN_ADD_ADDR6, sub_byte MPTCP_SUB_ADD_ADDR 6, ident] @ take 16 addr
              else [TCPOPT_MPTCP, MPTCP_SUB_LEN_ADD_ADDR6_VER1, sub_byte MPTCP_SUB_ADD_ADDR 6, ident] @ take 16 addr @ mem64 mac)
      else [])"

definition write_remove_addr :: "out_options \<Rightarrow> u8 list" where
  "write_remove_addr opts =
     (if \<not> has_opt opts REMOVE_ADDR then []
      else let len = mptcp_sub_len_remove_addr (remove_addrs opts)
           in [TCPOPT_MPTCP, of_nat len, sub_byte MPTCP_SUB_REMOVE_ADDR 0] @ map of_nat (set_bits16 (remove_addrs opts)) @
              replicate (mptcp_sub_len_remove_addr_align (remove_addrs opts) - len) OPT_NOP)"

definition write_fail :: "opt_sock \<Rightarrow> out_options \<Rightarrow> u8 list" where
  "write_fail os opts =
     (if has_opt opts MP_FAIL
      then [TCPOPT_MPTCP, MPTCP_SUB_LEN_FAIL, sub_byte MPTCP_SUB_FAIL 0, 0] @ be64 (cutoff_seq os) else [])"

definition write_fclose :: "out_options \<Rightarrow> u8 list" where
  "write_fclose opts =
     (if has_opt opts MP_FCLOSE
      then [TCPOPT_MPTCP, MPTCP_SUB_LEN_FCLOSE, sub_byte MPTCP_SUB_FCLOSE 0, 0] @ mem64 (receiver_key opts) else [])"

definition dss_bytes :: "mp_dss \<Rightarrow> u32 list \<Rightarrow> u8 list" where
  "dss_bytes m words =
     [TCPOPT_MPTCP, dss_len m, sub_byte MPTCP_SUB_DSS 0,
      flag 0 (dss_A m) OR flag 1 (dss_a m) OR flag 2 (dss_M m) OR flag 3 (dss_m m) OR flag 4 (dss_F m)] @ concat (map be32 words)"

text \<open>The saved mapping has a header and four words (\<open>mptcp_dss_len\<close>); its second word is the data
  acknowledgement.  The mapping is cleared in the buffer.\<close>

definition mptcp_write_dss_data_seq :: "tcp_sock \<Rightarrow> sk_buff \<Rightarrow> u8 list \<times> sk_buff" where
  "mptcp_write_dss_data_seq meta_tp skb =
     (dss_bytes (dss_hdr skb) (rcv_nxt meta_tp # take 3 (drop 1 (dss_words skb))),
      skb\<lparr>dss_hdr := no_dss, dss_words := replicate 4 0 @ drop 4 (dss_words skb)\<rparr>)"

definition write_dss :: "mptcp_cb \<Rightarrow> tcp_sock \<Rightarrow> sk_buff \<Rightarrow> out_options \<Rightarrow> u8 list \<times> sk_buff" where
  "write_dss mpcb meta_tp skb opts =
     (if \<not> has_opt opts DATA_ACK then ([], skb)
      else if \<not> mptcp_is_data_seq skb
      then (case mptcp_write_dss_data_ack mpcb meta_tp skb of (hdr, words) \<Rightarrow> (dss_bytes hdr words, skb))
      else mptcp_write_dss_data_seq meta_tp skb)"

definition write_prio :: "tcp_sock \<Rightarrow> out_options \<Rightarrow> u8 list" where
  "write_prio tp opts =
     (if has_opt opts MP_PRIO
      then [TCPOPT_MPTCP, MPTCP_SUB_LEN_PRIO, sub_byte MPTCP_SUB_PRIO (flag 0 (low_prio tp)), OPT_NOP] else [])"

definition mptcp_options_write ::
  "mptcp_cb \<Rightarrow> tcp_sock \<Rightarrow> opt_sock \<Rightarrow> tcp_sock \<Rightarrow> out_options \<Rightarrow> sk_buff \<Rightarrow> u8 list \<times> sk_buff" where
  "mptcp_options_write mpcb meta_tp os tp opts skb =
     (case write_dss mpcb meta_tp skb opts of (dss, skb') \<Rightarrow>
        (write_capable opts @ write_join os opts @ write_add_addr os opts @ write_remove_addr opts @ write_fail os opts @
         write_fclose opts @ dss @ write_prio tp opts, skb'))"

section \<open>The parser\<close>

record options_received =
  saw_mpc :: bool
  rcv_dss_csum :: bool
  drop_me :: bool
  is_mp_join :: bool
  join_ack :: bool
  saw_low_prio :: nat
  rcv_prio :: bool
  saw_add_addr :: bool
  more_add_addr :: bool
  saw_rem_addr :: bool
  more_rem_addr :: bool
  mp_fail :: bool
  mp_fclose :: bool
  rem_id :: u8
  prio_addr_id :: u8
  add_addr_ptr :: "u8 list"
  rem_addr_ptr :: "u8 list"
  data_ack :: u32
  rcv_data_seq :: u32
  data_len :: u16
  rcv_mptcp_ver :: u8
  mptcp_sender_key :: u64
  mptcp_receiver_key :: u64
  rcv_rem_token :: u32
  mptcp_recv_nonce :: u32
  mptcp_recv_tmac :: u64
  mptcp_recv_mac :: "u8 list"

text \<open>\<open>CONFIG_IPV6\<close> is set.\<close>

definition is_valid_addropt_opsize :: "u8 \<Rightarrow> u8 \<Rightarrow> nat \<Rightarrow> bool" where
  "is_valid_addropt_opsize ver ipver opsize =
     (let ok = (\<lambda>len. opsize = unat len \<or> opsize = unat len + 2)
      in if ver < 1 \<and> ipver = 6 then ok MPTCP_SUB_LEN_ADD_ADDR6
         else if ver \<ge> 1 \<and> ipver = 6 then ok MPTCP_SUB_LEN_ADD_ADDR6_VER1
         else if ver < 1 \<and> ipver = 4 then ok MPTCP_SUB_LEN_ADD_ADDR4
         else if ver \<ge> 1 \<and> ipver = 4 then ok MPTCP_SUB_LEN_ADD_ADDR4_VER1
         else False)"

type_synonym parsed = "options_received \<times> rx_skb"

definition parse_capable :: "bool \<Rightarrow> u8 list \<Rightarrow> nat \<Rightarrow> options_received \<Rightarrow> options_received" where
  "parse_capable sysctl_checksum ptr opsize mopt =
     (if opsize \<noteq> unat MPTCP_SUB_LEN_CAPABLE_SYN \<and> opsize \<noteq> unat MPTCP_SUB_LEN_CAPABLE_ACK then mopt
      else if bit (ptr ! 3) 6 then mopt\<lparr>drop_me := True\<rparr>
      else if \<not> bit (ptr ! 3) 0 then mopt
      else mopt\<lparr>saw_mpc := True, rcv_dss_csum := (sysctl_checksum \<or> bit (ptr ! 3) 7),
                mptcp_sender_key := get_mem64 (drop 4 ptr),
                mptcp_receiver_key := (if opsize = unat MPTCP_SUB_LEN_CAPABLE_ACK then get_mem64 (drop 12 ptr)
                                       else mptcp_receiver_key mopt),
                rcv_mptcp_ver := ptr ! 2 AND 0xF\<rparr>)"

definition parse_join :: "u8 list \<Rightarrow> nat \<Rightarrow> options_received \<Rightarrow> options_received" where
  "parse_join ptr opsize mopt =
     (if opsize = unat MPTCP_SUB_LEN_JOIN_SYN
      then mopt\<lparr>is_mp_join := True, saw_mpc := True, rcv_prio := bit (ptr ! 2) 0, rem_id := ptr ! 3,
                rcv_rem_token := get_mem32 (drop 4 ptr), mptcp_recv_nonce := get_mem32 (drop 8 ptr)\<rparr>
      else if opsize = unat MPTCP_SUB_LEN_JOIN_SYNACK
      then mopt\<lparr>saw_mpc := True, rcv_prio := bit (ptr ! 2) 0, rem_id := ptr ! 3,
                mptcp_recv_tmac := get_mem64 (drop 4 ptr), mptcp_recv_nonce := get_mem32 (drop 12 ptr)\<rparr>
      else if opsize = unat MPTCP_SUB_LEN_JOIN_ACK
      then mopt\<lparr>saw_mpc := True, join_ack := True, mptcp_recv_mac := take 20 (drop 4 ptr)\<rparr>
      else mopt)"

text \<open>The header of a DSS option, and the words of the packet from a position on.\<close>

definition get_dss :: "u8 list \<Rightarrow> mp_dss" where
  "get_dss ptr = \<lparr>dss_len = ptr ! 1, dss_A = bit (ptr ! 3) 0, dss_a = bit (ptr ! 3) 1, dss_M = bit (ptr ! 3) 2,
     dss_m = bit (ptr ! 3) 3, dss_F = bit (ptr ! 3) 4\<rparr>"

fun get_words :: "u8 list \<Rightarrow> u32 list" where
  "get_words (a # b # c # d # bs) = get_be32 [a, b, c, d] # get_words bs"
| "get_words bs = []"

definition add_flag :: "u8 \<Rightarrow> rx_skb \<Rightarrow> rx_skb" where
  "add_flag f skb = skb\<lparr>rx_flags := rx_flags skb OR f\<rparr>"

definition parse_dss_ack :: "mp_dss \<Rightarrow> u8 list \<Rightarrow> parsed \<Rightarrow> u8 list \<times> parsed" where
  "parse_dss_ack m ptr = (\<lambda>(mopt, skb).
     if \<not> dss_A m then (ptr, mopt, skb)
     else if dss_a m
     then (drop 8 ptr, mopt\<lparr>data_ack := ucast (get_be64 ptr)\<rparr>, add_flag MPTCPHDR_ACK skb)
     else (drop 4 ptr, mopt\<lparr>data_ack := get_be32 ptr\<rparr>, add_flag MPTCPHDR_ACK skb))"

definition parse_dss_map :: "mp_dss \<Rightarrow> nat \<Rightarrow> u8 list \<Rightarrow> parsed \<Rightarrow> parsed" where
  "parse_dss_map m opsize ptr = (\<lambda>(mopt, skb).
     if \<not> dss_M m then (mopt, skb)
     else
       let (seq, ptr', skb1) = (if dss_m m then (ucast (get_be64 ptr), drop 12 ptr, add_flag MPTCPHDR_SEQ64_SET skb)
                                else (get_be32 ptr, drop 8 ptr, skb));
           skb2 = add_flag MPTCPHDR_SEQ skb1;
           skb3 = (if opsize = unat (mptcp_sub_len_dss m True) then add_flag MPTCPHDR_DSS_CSUM skb2 else skb2);
           skb4 = (if dss_F m then add_flag MPTCPHDR_FIN skb3 else skb3)
       in (mopt\<lparr>rcv_data_seq := seq, data_len := get_be16 ptr'\<rparr>, skb4))"

definition parse_dss :: "u8 list \<Rightarrow> nat \<Rightarrow> parsed \<Rightarrow> parsed" where
  "parse_dss ptr opsize r =
     (let m = get_dss ptr
      in if opsize \<noteq> unat (mptcp_sub_len_dss m False) \<and> opsize \<noteq> unat (mptcp_sub_len_dss m True) then r
         else case parse_dss_ack m (drop 4 ptr) r of (ptr1, mopt, skb) \<Rightarrow>
                parse_dss_map m opsize ptr1 (mopt, skb\<lparr>rx_dss := get_words ptr1\<rparr>))"

text \<open>\<open>ver\<close> is the version of the connection, absent for a packet without a socket.\<close>

definition mptcp_parse_options :: "bool \<Rightarrow> u8 option \<Rightarrow> u8 list \<Rightarrow> nat \<Rightarrow> parsed \<Rightarrow> parsed" where
  "mptcp_parse_options sysctl_checksum ver ptr opsize = (\<lambda>(mopt, skb).
     let sub = drop_bit 4 (ptr ! 2)
     in if sub = MPTCP_SUB_CAPABLE then (parse_capable sysctl_checksum ptr opsize mopt, skb)
        else if sub = MPTCP_SUB_JOIN then (parse_join ptr opsize mopt, skb)
        else if sub = MPTCP_SUB_DSS then parse_dss ptr opsize (mopt, skb)
        else if sub = MPTCP_SUB_ADD_ADDR
        then (case ver of
                None \<Rightarrow> (mopt, skb)
              | Some v \<Rightarrow>
                 if \<not> is_valid_addropt_opsize v (ptr ! 2 AND 0xF) opsize then (mopt, skb)
                 else if saw_add_addr mopt then (mopt\<lparr>more_add_addr := True\<rparr>, skb)
                 else (mopt\<lparr>saw_add_addr := True, add_addr_ptr := ptr\<rparr>, skb))
        else if sub = MPTCP_SUB_REMOVE_ADDR
        then (if opsize < MPTCP_SUB_LEN_REMOVE_ADDR then (mopt, skb)
              else if saw_rem_addr mopt then (mopt\<lparr>more_rem_addr := True\<rparr>, skb)
              else (mopt\<lparr>saw_rem_addr := True, rem_addr_ptr := ptr\<rparr>, skb))
        else if sub = MPTCP_SUB_PRIO
        then (if opsize \<noteq> unat MPTCP_SUB_LEN_PRIO \<and> opsize \<noteq> unat MPTCP_SUB_LEN_PRIO_ADDR then (mopt, skb)
              else if opsize = unat MPTCP_SUB_LEN_PRIO_ADDR
              then (mopt\<lparr>saw_low_prio := 2, rcv_prio := bit (ptr ! 2) 0, prio_addr_id := ptr ! 3\<rparr>, skb)
              else (mopt\<lparr>saw_low_prio := 1, rcv_prio := bit (ptr ! 2) 0\<rparr>, skb))
        else if sub = MPTCP_SUB_FAIL
        then (if opsize \<noteq> unat MPTCP_SUB_LEN_FAIL then (mopt, skb) else (mopt\<lparr>mp_fail := True\<rparr>, skb))
        else if sub = MPTCP_SUB_FCLOSE
        then (if opsize \<noteq> unat MPTCP_SUB_LEN_FCLOSE then (mopt, skb)
              else (mopt\<lparr>mp_fclose := True, mptcp_sender_key := get_mem64 (drop 4 ptr)\<rparr>, skb))
        else (mopt, skb))"

text \<open>The walk over the options of the header.  The byte behind a last option without a length is read but
  changes nothing.\<close>

function tcp_parse_mptcp_options :: "bool \<Rightarrow> u8 list \<Rightarrow> parsed \<Rightarrow> parsed" where
  "tcp_parse_mptcp_options sysctl_checksum [] r = r"
| "tcp_parse_mptcp_options sysctl_checksum (opcode # bs) r =
     (if opcode = OPT_EOL then r
      else if opcode = OPT_NOP then tcp_parse_mptcp_options sysctl_checksum bs r
      else case bs of
             [] \<Rightarrow> r
           | opsize # _ \<Rightarrow>
              if unat opsize < 2 then r
              else if unat opsize > length (opcode # bs) then r
              else tcp_parse_mptcp_options sysctl_checksum (drop (unat opsize) (opcode # bs))
                     (if opcode = TCPOPT_MPTCP
                      then mptcp_parse_options sysctl_checksum None (opcode # bs) (unat opsize) r else r))"
  by pat_completeness auto
termination by (relation "measure (\<lambda>(_, bs, _). length bs)") auto

declare tcp_parse_mptcp_options.simps(2) [simp del]

section \<open>Lengths\<close>

lemma byte_lengths [simp]:
  "length (be16 a) = 2" "length (be32 b) = 4" "length (be64 c) = 8" "length (mem32 b) = 4" "length (mem64 c) = 8"
  by (simp_all add: be16_def be32_def be64_def mem32_def mem64_def)

lemma length_dss_bytes [simp]: "length (dss_bytes m ws) = 4 + 4 * length ws"
  by (induction ws) (simp_all add: dss_bytes_def)

lemma has_opt_simps [simp]:
  "has_opt (add_opts xs opts) x \<longleftrightarrow> x \<in> xs \<or> has_opt opts x"
  by (auto simp: has_opt_def add_opts_def)

lemma has_opt_fields [simp]:
  "has_opt (opts\<lparr>receiver_key := a\<rparr>) x = has_opt opts x" "has_opt (opts\<lparr>sender_key := a\<rparr>) x = has_opt opts x"
  "has_opt (opts\<lparr>oo_ver := v\<rparr>) x = has_opt opts x" "has_opt (opts\<lparr>oo_dss_csum := c\<rparr>) x = has_opt opts x"
  "has_opt (opts\<lparr>join_token := t\<rparr>) x = has_opt opts x" "has_opt (opts\<lparr>join_nonce := t\<rparr>) x = has_opt opts x"
  "has_opt (opts\<lparr>join_tmac := a\<rparr>) x = has_opt opts x" "has_opt (opts\<lparr>join_low_prio := c\<rparr>) x = has_opt opts x"
  "has_opt (opts\<lparr>oo_addr_id := v\<rparr>) x = has_opt opts x"
  by (simp_all add: has_opt_def)

lemma no_opts: "mptcp_options opts = {} \<Longrightarrow> \<not> has_opt opts x"
  by (simp add: has_opt_def)

definition room_written :: "mptcp_cb \<Rightarrow> tcp_sock \<Rightarrow> tcp_sock \<Rightarrow> sk_buff \<Rightarrow> u32 \<Rightarrow> est \<Rightarrow> bool" where
  "room_written mpcb meta_tp tp b room0 = (\<lambda>(os, opts, room).
     room = room0 + of_nat (length (fst (mptcp_options_write mpcb meta_tp os tp opts b))))"

lemmas write_defs = write_capable_def write_join_def write_add_addr_def write_remove_addr_def write_fail_def
  write_fclose_def write_dss_def write_prio_def

lemmas aligns = CAPABLE_SYN_ALIGN_def CAPABLE_ACK_ALIGN_def JOIN_SYN_ALIGN_def JOIN_SYNACK_ALIGN_def JOIN_ACK_ALIGN_def
  DSS_ALIGN_def ACK_ALIGN_def SEQ_ALIGN_def FAIL_ALIGN_def FCLOSE_ALIGN_def PRIO_ALIGN_def MAX_TCP_OPTION_SPACE_def

lemma length_dss:
  assumes "4 \<le> length (dss_words b)"
  shows "length (fst (write_dss mpcb meta_tp b opts)) =
    (if has_opt opts DATA_ACK then if mptcp_is_data_seq b then 20 else 8 else 0)"
  using assms by (simp add: write_dss_def mptcp_write_dss_data_seq_def mptcp_write_dss_data_ack_def Let_def)

text \<open>The number of bytes, for a packet of an established subflow without an address signal.\<close>

definition written :: "sk_buff \<Rightarrow> out_options \<Rightarrow> nat" where
  "written b opts = (if has_opt opts MP_CAPABLE then 20 else 0) + (if has_opt opts MP_JOIN then 24 else 0) +
     (if has_opt opts MP_FAIL then 12 else 0) + (if has_opt opts MP_FCLOSE then 12 else 0) +
     (if has_opt opts DATA_ACK then if mptcp_is_data_seq b then 20 else 8 else 0) + (if has_opt opts MP_PRIO then 4 else 0)"

definition plain :: "out_options \<Rightarrow> bool" where
  "plain opts \<longleftrightarrow> \<not> has_opt opts TYPE_SYN \<and> \<not> has_opt opts TYPE_SYNACK \<and> \<not> has_opt opts ADD_ADDR \<and> \<not> has_opt opts REMOVE_ADDR \<and>
     (has_opt opts MP_CAPABLE \<or> has_opt opts MP_JOIN \<longrightarrow> has_opt opts TYPE_ACK)"

lemma length_written:
  assumes "plain opts" and "4 \<le> length (dss_words b)" and "20 \<le> length (os_sender_mac os)"
  shows "length (fst (mptcp_options_write mpcb meta_tp os tp opts b)) = written b opts"
  using assms length_dss [OF assms(2), of mpcb meta_tp opts]
  by (simp add: mptcp_options_write_def case_prod_beta written_def plain_def write_capable_def write_join_def
      write_add_addr_def write_remove_addr_def write_fail_def write_fclose_def write_prio_def Let_def)

definition counts :: "sk_buff \<Rightarrow> u32 \<Rightarrow> opt_sock \<Rightarrow> est \<Rightarrow> bool" where
  "counts b room0 os0 = (\<lambda>(os, opts, room). plain opts \<and> room = room0 + of_nat (written b opts) \<and>
     os_sender_mac os = os_sender_mac os0)"

lemma counts_fail:
  "mptcp_options opts = {} \<Longrightarrow> counts b room os (est_fail (os, opts, room))"
  by (simp add: counts_def est_fail_def plain_def written_def no_opts aligns)

lemma est_fail_opts:
  "mptcp_options opts = {} \<Longrightarrow> has_opt (fst (snd (est_fail (os, opts, room)))) x \<longleftrightarrow> x = MP_FAIL \<and> os_mp_fail os"
  by (simp add: est_fail_def no_opts)

lemma counts_capable:
  assumes "counts b room0 os0 (os, opts, room)" and "\<not> has_opt opts MP_CAPABLE"
  shows "counts b room0 os0 (est_capable mpcb has_skb (os, opts, room))"
  using assms by (auto simp: counts_def est_capable_def plain_def written_def aligns)

lemma counts_join:
  assumes "counts b room0 os0 e" and "\<not> has_opt (fst (snd e)) MP_JOIN"
  shows "counts b room0 os0 (est_join tp e)"
  using assms by (cases e) (auto simp: counts_def est_join_def plain_def written_def aligns)

lemma counts_dss:
  assumes "counts b room0 os0 e" and "\<not> has_opt (fst (snd e)) DATA_ACK"
  shows "counts b room0 os0 (est_dss tp (Some b) e)"
  using assms by (cases e) (auto simp: counts_def est_dss_def plain_def written_def aligns)

lemma counts_prio:
  assumes "counts b room0 os0 e" and "\<not> has_opt (fst (snd e)) MP_PRIO"
  shows "counts b room0 os0 (est_prio has_skb e)"
  using assms by (cases e) (auto simp: counts_def est_prio_def plain_def written_def aligns)


text \<open>The function up to the priority option.\<close>

definition before_prio :: "mptcp_cb \<Rightarrow> tcp_sock \<Rightarrow> sk_buff \<Rightarrow> est \<Rightarrow> est" where
  "before_prio mpcb tp b e = est_dss tp (Some b) (est_join tp (est_capable mpcb True (est_fail e)))"

lemma established_cases:
  "mptcp_established_options None is_meta mpcb tp (Some b) (os, opts, room) =
     (case est_fail (os, opts, room) of (os', opts', room') \<Rightarrow>
        if send_mp_fclose os' then (os', (add_opts {MP_FCLOSE} opts')\<lparr>receiver_key := mptcp_rem_key os'\<rparr>, room' + FCLOSE_ALIGN)
        else if skips_options mpcb tp (Some b) then (os', opts', room')
        else est_prio True (before_prio mpcb tp b (os, opts, room)))"
  by (simp add: mptcp_established_options_def before_prio_def split: prod.splits)

lemma est_opts:
  "has_opt (fst (snd (est_capable mpcb h (os, opts, room)))) x \<longleftrightarrow> has_opt opts x \<or> (include_mpc os \<and> x \<in> {MP_CAPABLE, TYPE_ACK})"
  "has_opt (fst (snd (est_join tp (os, opts, room)))) x \<longleftrightarrow> has_opt opts x \<or> (pre_established tp \<and> x \<in> {MP_JOIN, TYPE_ACK})"
  by (auto simp: est_capable_def est_join_def)

lemma before_prio_counts:
  assumes "mptcp_options opts = {}"
  shows "counts b room os (before_prio mpcb tp b (os, opts, room)) \<and>
    \<not> has_opt (fst (snd (before_prio mpcb tp b (os, opts, room)))) MP_PRIO"
proof -
  obtain os1 o1 r1 where e1: "est_fail (os, opts, room) = (os1, o1, r1)" by (cases "est_fail (os, opts, room)") auto
  have o1: "has_opt o1 x \<longleftrightarrow> x = MP_FAIL \<and> os_mp_fail os" for x using est_fail_opts [OF assms, of os room x] e1 by simp
  have c1: "counts b room os (os1, o1, r1)" using counts_fail [OF assms, of b room os] e1 by simp
  obtain os2 o2 r2 where e2: "est_capable mpcb True (os1, o1, r1) = (os2, o2, r2)" by (cases "est_capable mpcb True (os1, o1, r1)") auto
  have o2: "\<not> has_opt o2 MP_JOIN" "\<not> has_opt o2 DATA_ACK" "\<not> has_opt o2 MP_PRIO"
    using est_opts(1) [of mpcb True os1 o1 r1] e2 o1 by simp_all
  have c2: "counts b room os (os2, o2, r2)" using counts_capable [OF c1, of mpcb True] o1 e2 by simp
  obtain os3 o3 r3 where e3: "est_join tp (os2, o2, r2) = (os3, o3, r3)" by (cases "est_join tp (os2, o2, r2)") auto
  have o3: "\<not> has_opt o3 DATA_ACK" "\<not> has_opt o3 MP_PRIO" using est_opts(2) [of tp os2 o2 r2] e3 o2 by simp_all
  have c3: "counts b room os (os3, o3, r3)" using counts_join [OF c2, of tp] o2 e3 by simp
  have "counts b room os (est_dss tp (Some b) (os3, o3, r3))" using counts_dss [OF c3, of tp] o3 by simp
  moreover have "\<not> has_opt (fst (snd (est_dss tp (Some b) (os3, o3, r3)))) MP_PRIO" using o3 by (auto simp: est_dss_def)
  ultimately show ?thesis by (simp add: before_prio_def e1 e2 e3)
qed

lemma established_counts:
  assumes "mptcp_options opts = {}"
  shows "counts b room os (mptcp_established_options None is_meta mpcb tp (Some b) (os, opts, room))"
proof -
  obtain os1 o1 r1 where e1: "est_fail (os, opts, room) = (os1, o1, r1)" by (cases "est_fail (os, opts, room)") auto
  have o1: "has_opt o1 x \<longleftrightarrow> x = MP_FAIL \<and> os_mp_fail os" for x using est_fail_opts [OF assms, of os room x] e1 by simp
  have c1: "counts b room os (os1, o1, r1)" using counts_fail [OF assms, of b room os] e1 by simp
  have "counts b room os (os1, (add_opts {MP_FCLOSE} o1)\<lparr>receiver_key := k\<rparr>, r1 + FCLOSE_ALIGN)" for k
    using c1 o1 by (auto simp: counts_def plain_def written_def aligns)
  then show ?thesis
    using c1 counts_prio [of b room os "before_prio mpcb tp b (os, opts, room)" True] before_prio_counts [OF assms, of b room os mpcb tp]
    by (simp add: established_cases e1)
qed

lemma written_before_prio:
  assumes "mptcp_options opts = {}" and "\<not> os_mp_fail os" and "include_mpc os \<longrightarrow> \<not> pre_established tp \<and> \<not> mptcp_is_data_seq b"
  shows "written b (fst (snd (before_prio mpcb tp b (os, opts, room)))) \<le> 28"
  using assms
  by (auto simp: before_prio_def est_fail_def est_capable_def est_join_def est_dss_def written_def no_opts)

lemma established_fits:
  assumes "mptcp_options opts = {}" and "unat room \<le> 12" and "\<not> os_mp_fail os"
    and "include_mpc os \<longrightarrow> \<not> pre_established tp \<and> \<not> mptcp_is_data_seq b"
  shows "unat (snd (snd (mptcp_established_options None is_meta mpcb tp (Some b) (os, opts, room)))) \<le> 40"
proof -
  have add: "unat (room + of_nat n) = unat room + n" if "n \<le> 32" for n
  proof -
    have "unat (of_nat n :: u32) = n" using that by (simp add: unat_of_nat)
    then show ?thesis using assms(2) that by (simp add: unat_word_ariths)
  qed
  obtain os4 o4 r4 where e4: "before_prio mpcb tp b (os, opts, room) = (os4, o4, r4)"
    by (cases "before_prio mpcb tp b (os, opts, room)") auto
  have w: "written b o4 \<le> 28" using written_before_prio [OF assms(1,3,4), of mpcb room] e4 by simp
  have "r4 = room + of_nat (written b o4)" using before_prio_counts [OF assms(1), of b room os mpcb tp] e4 by (simp add: counts_def)
  then have r4: "unat r4 = unat room + written b o4" using add [of "written b o4"] w by simp
  have prio: "unat (snd (snd (est_prio True (os4, o4, r4)))) \<le> 40"
  proof (cases "PRIO_ALIGN \<le> MAX_TCP_OPTION_SPACE - r4")
    case True
    have le: "r4 \<le> MAX_TCP_OPTION_SPACE" using r4 w assms(2) by (simp add: word_le_nat_alt aligns)
    then have "4 \<le> 40 - unat r4" using True unat_sub [OF le] by (simp add: word_le_nat_alt aligns)
    then have "unat (r4 + 4) = unat r4 + 4" by (simp add: unat_word_ariths)
    then show ?thesis using \<open>4 \<le> 40 - unat r4\<close> r4 w assms(2) by (auto simp: est_prio_def aligns)
  qed (use r4 w assms(2) in \<open>simp add: est_prio_def\<close>)
  have "unat (room + 12) \<le> 40" using add [of 12] assms(2) by simp
  then show ?thesis using prio assms(2,3) e4 by (simp add: established_cases est_fail_def aligns)
qed

end
