(* ===== verification/Red_Lowpass.thy ===== *)
theory Red_Lowpass
  imports Rx_State
begin

text \<open>
  The low-pass filter of the receiver (\<open>net/mptcp/mptcp_input.c\<close>): data that is received a second time on another
  subflow is delivered at once; new data is held back until the learned time between new data sequence
  numbers has passed, so that the delivered stream has the pace of the sender.

  The static variables of the code are fields of one record.  A result \<open>None\<close> is a write behind the end
  of an array.
\<close>

section \<open>State\<close>

definition MAX_NUM_RED_IN_SK :: nat where "MAX_NUM_RED_IN_SK = 100"
definition ONE_SEC :: int where "ONE_SEC = 1000000000"
definition MICRO2NS :: int where "MICRO2NS = 1000"
definition da_size :: nat where "da_size = 20"
definition LP_SK_LIST_SIZE :: nat where "LP_SK_LIST_SIZE = 20"

record red_in_sk =
  in_sk :: "sk_ptr option"
  in_dsn :: u32
  in_dsn_send :: bool

record rmptcp_lowpass_queue =
  queue_head :: nat
  queue_tail :: nat
  in_list :: "red_in_sk list"

record lowpass_state =
  red_lp_queue :: rmptcp_lowpass_queue
  learned_timeout :: u64
  last_new :: ktime
  delta_arr :: "u32 list"
  da_i :: nat
  delta_mean :: u32
  lp_sk_list :: "sk_ptr list"
  lp_sk_list_i :: nat
  lp_last_send :: "ktime list"

text \<open>The sysctl variables of the filter, C ints.\<close>

record lowpass_sysctls =
  sysctl_lowpassmaxwait :: int
  sysctl_lplearnrate :: int

section \<open>The ring of data sequence numbers\<close>

definition ring_next :: "nat \<Rightarrow> nat" where
  "ring_next i = (if i + 1 \<ge> MAX_NUM_RED_IN_SK then 0 else i + 1)"

definition lp_add :: "sk_ptr \<Rightarrow> u32 \<Rightarrow> rmptcp_lowpass_queue \<Rightarrow> rmptcp_lowpass_queue" where
  "lp_add sk data_seq q =
     q\<lparr>in_list := (in_list q)[queue_tail q := \<lparr>in_sk = Some sk, in_dsn = data_seq, in_dsn_send = False\<rparr>],
       queue_tail := ring_next (queue_tail q)\<rparr>"

definition rmptcp_add_to_sk_queue ::
  "mptcp_cb \<Rightarrow> sk_ptr \<Rightarrow> rx_skb \<Rightarrow> rmptcp_lowpass_queue \<Rightarrow> bool \<times> rx_skb \<times> rmptcp_lowpass_queue" where
  "rmptcp_add_to_sk_queue mpcb sk skb q =
     (case mptcp_skb_set_data_seq (Some mpcb) skb of (data_seq, _, skb') \<Rightarrow> (True, skb', lp_add sk data_seq q))"

definition rmptcp_get_from_sk_queue :: "rmptcp_lowpass_queue \<Rightarrow> sk_ptr option \<times> rmptcp_lowpass_queue" where
  "rmptcp_get_from_sk_queue q =
     (let h = queue_head q
      in if queue_tail q = h then (None, q)
         else (in_sk (in_list q ! h),
               q\<lparr>in_list := (in_list q)[h := (in_list q ! h)\<lparr>in_dsn_send := True\<rparr>], queue_head := ring_next h\<rparr>))"

text \<open>The first entry with the data sequence number decides.\<close>

definition lp_hit :: "sk_ptr \<Rightarrow> u32 \<Rightarrow> rmptcp_lowpass_queue \<Rightarrow> bool" where
  "lp_hit sk data_seq q =
     (case first_idx MAX_NUM_RED_IN_SK (\<lambda>i. in_dsn (in_list q ! i) = data_seq) of
        None \<Rightarrow> False | Some i \<Rightarrow> in_sk (in_list q ! i) \<noteq> Some sk)"

definition rmptcp_peak_dsn_sk_queue ::
  "mptcp_cb \<Rightarrow> sk_ptr \<Rightarrow> rx_skb \<Rightarrow> rmptcp_lowpass_queue \<Rightarrow> bool \<times> rx_skb" where
  "rmptcp_peak_dsn_sk_queue mpcb sk skb q =
     (case mptcp_skb_set_data_seq (Some mpcb) skb of (data_seq, _, skb') \<Rightarrow> (lp_hit sk data_seq q, skb'))"

section \<open>Learning\<close>

text \<open>A new data sequence number: the time since the last one, limited by the learning rate.\<close>

definition lp_delta :: "lowpass_sysctls \<Rightarrow> ktime \<Rightarrow> lowpass_state \<Rightarrow> u32" where
  "lp_delta sc nowT s =
     (let current_delta = word_of_int (nowT - last_new s) :: u32;
          delta_mean_max = delta_mean s + (delta_mean s div 100) * word_of_int (sysctl_lplearnrate sc)
      in if delta_mean s \<noteq> 0 \<and> current_delta > delta_mean_max then delta_mean_max else current_delta)"

definition lp_learn :: "lowpass_sysctls \<Rightarrow> ktime \<Rightarrow> lowpass_state \<Rightarrow> lowpass_state" where
  "lp_learn sc nowT s =
     s\<lparr>last_new := nowT, delta_arr := (delta_arr s)[da_i s := lp_delta sc nowT s],
       da_i := (if da_i s + 1 \<ge> da_size then 0 else da_i s + 1)\<rparr>"

text \<open>The walk over the receive queue of the subflow.\<close>

fun lp_walk ::
  "lowpass_sysctls \<Rightarrow> ktime \<Rightarrow> mptcp_cb \<Rightarrow> sk_ptr \<Rightarrow> rx_skb list \<Rightarrow> lowpass_state \<Rightarrow> bool \<times> rx_skb list \<times> lowpass_state" where
  "lp_walk sc nowT mpcb sk [] s = (False, [], s)"
| "lp_walk sc nowT mpcb sk (skb # skbs) s =
     (case rmptcp_peak_dsn_sk_queue mpcb sk skb (red_lp_queue s) of (hit, skb1) \<Rightarrow>
        let (skb2, s1) = (if hit then (skb1, s)
              else case rmptcp_add_to_sk_queue mpcb sk skb1 (red_lp_queue s) of (_, skb', q) \<Rightarrow>
                (skb', lp_learn sc nowT (s\<lparr>red_lp_queue := q\<rparr>)));
            (any_hit, skbs', s2) = lp_walk sc nowT mpcb sk skbs s1
        in (hit \<or> any_hit, skb2 # skbs', s2))"

definition lp_limit :: "lowpass_sysctls \<Rightarrow> u32" where
  "lp_limit sc = word_of_int (sysctl_lowpassmaxwait sc * MICRO2NS)"

definition lp_mean :: "lowpass_sysctls \<Rightarrow> u32 list \<Rightarrow> u32" where
  "lp_mean sc ds = (let m = fold (\<lambda>i a. a + ds ! i) [0..<da_size] 0 div of_nat da_size
     in if m > lp_limit sc then lp_limit sc else m)"

definition rmptcp_calc_lowpass_timeout ::
  "lowpass_sysctls \<Rightarrow> ktime \<Rightarrow> mptcp_cb \<Rightarrow> sk_ptr \<Rightarrow> rx_skb list \<Rightarrow> lowpass_state \<Rightarrow> bool \<times> rx_skb list \<times> lowpass_state" where
  "rmptcp_calc_lowpass_timeout sc nowT mpcb sk skbs s =
     (let s0 = (if last_new s < s64 (nowT - ONE_SEC) \<or> last_new s > nowT then s\<lparr>last_new := nowT\<rparr> else s)
      in case lp_walk sc nowT mpcb sk skbs s0 of (any_hit, skbs', s1) \<Rightarrow>
        (any_hit, skbs',
         if \<not> any_hit
         then s1\<lparr>delta_mean := lp_mean sc (delta_arr s1), learned_timeout := ucast (lp_mean sc (delta_arr s1))\<rparr>
         else s1))"

section \<open>Holding back\<close>

text \<open>The reset of the list of sockets and the place of a socket in it.\<close>

definition lp_size :: "ktime \<Rightarrow> lowpass_state \<Rightarrow> nat" where
  "lp_size nowT s =
     (if \<exists>i < lp_sk_list_i s. s64 (nowT - lp_last_send s ! i) > ONE_SEC then 0 else lp_sk_list_i s)"

text \<open>A new socket is written at the index after the last one, also when the array is full.\<close>

definition lp_register :: "sk_ptr \<Rightarrow> nat \<Rightarrow> lowpass_state \<Rightarrow> (nat \<times> lowpass_state) option" where
  "lp_register sk n s =
     (case first_idx n (\<lambda>i. lp_sk_list s ! i = sk) of
        Some i \<Rightarrow> Some (i, s\<lparr>lp_sk_list_i := n\<rparr>)
      | None \<Rightarrow>
         if n \<ge> LP_SK_LIST_SIZE then None
         else Some (n, s\<lparr>lp_sk_list := (lp_sk_list s)[n := sk], lp_last_send := (lp_last_send s)[n := 0],
                         lp_sk_list_i := n + 1\<rparr>))"

text \<open>The comparison is between unsigned 64-bit values.\<close>

definition lp_expired :: "ktime \<Rightarrow> lowpass_state \<Rightarrow> nat \<Rightarrow> bool" where
  "lp_expired nowT s i \<longleftrightarrow> word_of_int (lp_last_send s ! i) + learned_timeout s < (word_of_int nowT :: u64)"

definition rmptcp_lowpass :: "ktime \<Rightarrow> sk_ptr \<Rightarrow> bool \<Rightarrow> lowpass_state \<Rightarrow> (bool \<times> lowpass_state) option" where
  "rmptcp_lowpass nowT sk dsnHit s =
     (case lp_register sk (lp_size nowT s) s of
        None \<Rightarrow> None
      | Some (curr_sk, s1) \<Rightarrow>
         let s2 = (if lp_last_send s1 ! curr_sk > nowT
                   then s1\<lparr>lp_last_send := (lp_last_send s1)[curr_sk := nowT]\<rparr> else s1);
             sent = s2\<lparr>lp_last_send := (lp_last_send s2)[curr_sk := nowT]\<rparr>
         in Some (if dsnHit then (True, sent)
                  else if \<exists>i < lp_sk_list_i s2. lp_expired nowT s2 i then (True, sent)
                  else (False, s2)))"

section \<open>Detection of data received twice\<close>

definition ring_wf :: "rmptcp_lowpass_queue \<Rightarrow> bool" where
  "ring_wf q \<longleftrightarrow> length (in_list q) = MAX_NUM_RED_IN_SK \<and> queue_tail q < MAX_NUM_RED_IN_SK"

abbreviation skb_dsn :: "mptcp_cb \<Rightarrow> rx_skb \<Rightarrow> u32" where
  "skb_dsn mpcb skb \<equiv> fst (mptcp_skb_set_data_seq (Some mpcb) skb)"

lemma ring_next_mod: "i < MAX_NUM_RED_IN_SK \<Longrightarrow> ring_next i = Suc i mod MAX_NUM_RED_IN_SK"
  by (auto simp: ring_next_def MAX_NUM_RED_IN_SK_def mod_if)

lemma lp_add_sel [simp]:
  "in_list (lp_add sk d q) = (in_list q)[queue_tail q := \<lparr>in_sk = Some sk, in_dsn = d, in_dsn_send = False\<rparr>]"
  "queue_tail (lp_add sk d q) = ring_next (queue_tail q)"
  by (simp_all add: lp_add_def)

lemma ring_wf_add [simp]: "ring_wf q \<Longrightarrow> ring_wf (lp_add sk d q)"
  by (simp add: ring_wf_def ring_next_def MAX_NUM_RED_IN_SK_def)

lemma add_to_sk_queue_eq:
  "rmptcp_add_to_sk_queue mpcb sk skb q =
     (True, snd (snd (mptcp_skb_set_data_seq (Some mpcb) skb)), lp_add sk (skb_dsn mpcb skb) q)"
  by (simp add: rmptcp_add_to_sk_queue_def split: prod.splits)

lemma peak_eq: "fst (rmptcp_peak_dsn_sk_queue mpcb sk skb q) = lp_hit sk (skb_dsn mpcb skb) q"
  by (simp add: rmptcp_peak_dsn_sk_queue_def split: prod.splits)

text \<open>The only entry with a data sequence number, and where the ring stands, after further entries.\<close>

definition only_entry :: "nat \<Rightarrow> sk_ptr \<Rightarrow> u32 \<Rightarrow> rmptcp_lowpass_queue \<Rightarrow> bool" where
  "only_entry t sk d q \<longleftrightarrow> in_sk (in_list q ! t) = Some sk \<and> in_dsn (in_list q ! t) = d \<and>
     (\<forall>i < MAX_NUM_RED_IN_SK. i \<noteq> t \<longrightarrow> in_dsn (in_list q ! i) \<noteq> d)"

lemma only_entry_hit:
  assumes "only_entry t sk d q" and "t < MAX_NUM_RED_IN_SK"
  shows "lp_hit sk' d q \<longleftrightarrow> sk' \<noteq> sk"
proof -
  have "first_idx MAX_NUM_RED_IN_SK (\<lambda>i. in_dsn (in_list q ! i) = d) = Some t"
  proof (cases "first_idx MAX_NUM_RED_IN_SK (\<lambda>i. in_dsn (in_list q ! i) = d)")
    case None
    then show ?thesis using assms by (auto simp: first_idx_None only_entry_def)
  next
    case (Some i)
    from first_idx_Some [OF this] show ?thesis using assms Some by (auto simp: only_entry_def)
  qed
  then show ?thesis using assms(1) by (auto simp: lp_hit_def only_entry_def)
qed

definition adds :: "mptcp_cb \<Rightarrow> (sk_ptr \<times> rx_skb) list \<Rightarrow> rmptcp_lowpass_queue \<Rightarrow> rmptcp_lowpass_queue" where
  "adds mpcb xs q = fold (\<lambda>(sk, skb) q. snd (snd (rmptcp_add_to_sk_queue mpcb sk skb q))) xs q"

lemma adds_only_entry:
  assumes "ring_wf q" and "only_entry t sk d q" and "t < MAX_NUM_RED_IN_SK" and "queue_tail q = ring_next t"
    and "length xs < MAX_NUM_RED_IN_SK" and "\<forall>(p, skb) \<in> set xs. skb_dsn mpcb skb \<noteq> d"
  shows "ring_wf (adds mpcb xs q) \<and> only_entry t sk d (adds mpcb xs q) \<and>
    queue_tail (adds mpcb xs q) = (t + 1 + length xs) mod MAX_NUM_RED_IN_SK"
  using assms(5,6)
proof (induction xs rule: rev_induct)
  case Nil
  then show ?case using assms by (simp add: adds_def ring_next_mod)
next
  case (snoc x xs)
  obtain p skb where x: "x = (p, skb)" by (cases x)
  let ?q = "adds mpcb xs q"
  have ih: "ring_wf ?q" "only_entry t sk d ?q" "queue_tail ?q = (t + 1 + length xs) mod MAX_NUM_RED_IN_SK"
    using snoc by auto
  have q: "adds mpcb (xs @ [x]) q = lp_add p (skb_dsn mpcb skb) ?q"
    by (simp add: adds_def x add_to_sk_queue_eq)
  have "(t + 1 + length xs) mod MAX_NUM_RED_IN_SK \<noteq> t"
    using assms(3) snoc.prems(1) by (auto simp: MAX_NUM_RED_IN_SK_def mod_if split: if_splits)
  then have "only_entry t sk d (lp_add p (skb_dsn mpcb skb) ?q)"
    using ih(1,2) ih(3) snoc.prems(2) by (auto simp: only_entry_def nth_list_update ring_wf_def x)
  moreover have "ring_next ((t + 1 + length xs) mod MAX_NUM_RED_IN_SK) = (t + 1 + length (xs @ [x])) mod MAX_NUM_RED_IN_SK"
    by (subst ring_next_mod) (simp_all add: MAX_NUM_RED_IN_SK_def mod_Suc_eq)
  ultimately show ?case using ih(1,3) by (simp add: q)
qed

text \<open>Detection of redundant data.  A data sequence number that was recorded for one subflow is a hit on every
  other subflow, and none on the same one, until 100 further numbers have been recorded.\<close>

lemma rmptcp_peak_dsn_detects:
  assumes "ring_wf q" and "\<forall>i < MAX_NUM_RED_IN_SK. in_dsn (in_list q ! i) \<noteq> skb_dsn mpcb skb"
    and "length xs < MAX_NUM_RED_IN_SK" and "\<forall>(p, b) \<in> set xs. skb_dsn mpcb b \<noteq> skb_dsn mpcb skb"
    and "skb_dsn mpcb skb' = skb_dsn mpcb skb"
  shows "fst (rmptcp_peak_dsn_sk_queue mpcb sk' skb'
      (adds mpcb xs (snd (snd (rmptcp_add_to_sk_queue mpcb sk skb q))))) \<longleftrightarrow> sk' \<noteq> sk"
proof -
  let ?q = "lp_add sk (skb_dsn mpcb skb) q"
  have t: "queue_tail q < MAX_NUM_RED_IN_SK" using assms(1) by (simp add: ring_wf_def)
  have "only_entry (queue_tail q) sk (skb_dsn mpcb skb) ?q"
    using assms(1,2) by (auto simp: only_entry_def ring_wf_def nth_list_update)
  from adds_only_entry [OF ring_wf_add [OF assms(1)] this t _ assms(3,4)] show ?thesis
    using only_entry_hit [OF _ t] assms(5) by (auto simp: peak_eq add_to_sk_queue_eq)
qed

section \<open>The learned time\<close>

definition lp_wf :: "lowpass_state \<Rightarrow> bool" where
  "lp_wf s \<longleftrightarrow> ring_wf (red_lp_queue s) \<and> length (delta_arr s) = da_size \<and> da_i s < da_size \<and>
     length (lp_sk_list s) = LP_SK_LIST_SIZE \<and> length (lp_last_send s) = LP_SK_LIST_SIZE \<and>
     lp_sk_list_i s \<le> LP_SK_LIST_SIZE"

text \<open>What the learning rate allows as the next time between data sequence numbers.\<close>

definition lp_growth :: "lowpass_sysctls \<Rightarrow> u32 \<Rightarrow> nat" where
  "lp_growth sc m = unat m + unat m div 100 * nat (sysctl_lplearnrate sc)"

definition deltas_below :: "nat \<Rightarrow> lowpass_state \<Rightarrow> bool" where
  "deltas_below M s \<longleftrightarrow> (\<forall>i < da_size. unat (delta_arr s ! i) \<le> M)"

lemma unat_plus_le: "unat (a + b :: 'a::len word) \<le> unat a + unat b"
  by (simp add: unat_word_ariths)

lemma unat_mult_le: "unat (a * b :: 'a::len word) \<le> unat a * unat b"
  by (simp add: unat_word_ariths)

lemma unat_word_of_int_le: "0 \<le> r \<Longrightarrow> unat (word_of_int r :: 'a::len word) \<le> nat r"
  by (simp add: unat_eq_nat_uint uint_word_of_int nat_mono zmod_le_nonneg_dividend)

lemma lp_delta_below:
  assumes "delta_mean s \<noteq> 0" and "0 \<le> sysctl_lplearnrate sc"
  shows "unat (lp_delta sc nowT s) \<le> lp_growth sc (delta_mean s)"
proof -
  let ?m = "delta_mean s" and ?r = "word_of_int (sysctl_lplearnrate sc) :: u32"
  have "unat (?m + ?m div 100 * ?r) \<le> unat ?m + unat (?m div 100) * unat ?r"
    by (meson add_le_mono le_refl le_trans unat_mult_le unat_plus_le)
  also have "\<dots> \<le> lp_growth sc ?m"
    using unat_word_of_int_le [OF assms(2), where 'a = 32] by (simp add: lp_growth_def unat_div)
  finally have M: "unat (?m + ?m div 100 * ?r) \<le> lp_growth sc ?m" .
  then show ?thesis using assms(1) by (auto simp: lp_delta_def Let_def not_less word_le_nat_alt)
qed

lemma lp_walk_inv:
  assumes "lp_walk sc nowT mpcb sk skbs s = (hit, skbs', s')" and "lp_wf s" and "delta_mean s \<noteq> 0"
    and "0 \<le> sysctl_lplearnrate sc" and "deltas_below (lp_growth sc (delta_mean s)) s"
  shows "lp_wf s' \<and> delta_mean s' = delta_mean s \<and> deltas_below (lp_growth sc (delta_mean s)) s' \<and>
    learned_timeout s' = learned_timeout s \<and> length skbs' = length skbs"
  using assms
proof (induction skbs arbitrary: s hit skbs')
  case (Cons skb skbs)
  obtain h skb1 where p: "rmptcp_peak_dsn_sk_queue mpcb sk skb (red_lp_queue s) = (h, skb1)" by fastforce
  define s1 where "s1 = (if h then s else lp_learn sc nowT (s\<lparr>red_lp_queue := lp_add sk (skb_dsn mpcb skb1) (red_lp_queue s)\<rparr>))"
  obtain hit1 rest where w: "lp_walk sc nowT mpcb sk skbs s1 = (hit1, rest, s')" and len: "length skbs' = Suc (length rest)"
    using Cons.prems(1) p by (auto simp: s1_def add_to_sk_queue_eq split: prod.splits if_splits)
  let ?u = "s\<lparr>red_lp_queue := lp_add sk (skb_dsn mpcb skb1) (red_lp_queue s)\<rparr>"
  have "unat (lp_delta sc nowT ?u) \<le> lp_growth sc (delta_mean s)"
    using lp_delta_below [of ?u sc nowT] Cons.prems(3,4) by simp
  then have "lp_wf s1 \<and> delta_mean s1 = delta_mean s \<and> deltas_below (lp_growth sc (delta_mean s)) s1 \<and>
      learned_timeout s1 = learned_timeout s"
    using Cons.prems(2,5)
    by (auto simp: s1_def lp_learn_def lp_wf_def deltas_below_def nth_list_update)
  then show ?case using Cons.IH [OF w] Cons.prems(3,4) len by simp
qed simp

lemma fold_sum_below:
  assumes "\<forall>i < n. unat (ds ! i) \<le> M"
  shows "unat (fold (\<lambda>i a. a + ds ! i) [0..<n] (0::u32)) \<le> n * M"
  using assms
proof (induction n)
  case (Suc n)
  then have "unat (fold (\<lambda>i a. a + ds ! i) [0..<n] (0::u32)) + unat (ds ! n) \<le> n * M + M" by (intro add_mono) auto
  then show ?case using unat_plus_le [of "fold (\<lambda>i a. a + ds ! i) [0..<n] 0" "ds ! n"] by simp
qed simp

lemma lp_mean_below:
  assumes "\<forall>i < da_size. unat (ds ! i) \<le> M"
  shows "unat (lp_mean sc ds) \<le> M" and "lp_mean sc ds \<le> lp_limit sc"
proof -
  define m where "m = fold (\<lambda>i a. a + ds ! i) [0..<da_size] (0::u32) div of_nat da_size"
  have "unat (fold (\<lambda>i a. a + ds ! i) [0..<da_size] (0::u32)) \<le> da_size * M" by (rule fold_sum_below [OF assms])
  then have m: "unat m \<le> M" by (simp add: m_def unat_div da_size_def)
  have eq: "lp_mean sc ds = min m (lp_limit sc)" by (auto simp: lp_mean_def m_def [symmetric] min_def)
  show "lp_mean sc ds \<le> lp_limit sc" by (simp add: eq)
  show "unat (lp_mean sc ds) \<le> M" using m by (auto simp: eq min_def word_le_nat_alt)
qed

text \<open>Learning the pace.  Whatever is received, the arrays are not left, a call with redundant data keeps the learned
  time, and a call without it sets a value of at most the configured maximum, which exceeds the previous
  one by at most the learning rate when the recorded times did.\<close>

lemma rmptcp_calc_lowpass_timeout_bounds:
  assumes "rmptcp_calc_lowpass_timeout sc nowT mpcb sk skbs s = (hit, skbs', s')" and "lp_wf s"
    and "delta_mean s \<noteq> 0" and "0 \<le> sysctl_lplearnrate sc" and "0 \<le> sysctl_lowpassmaxwait sc"
    and "deltas_below (lp_growth sc (delta_mean s)) s"
  shows "lp_wf s' \<and> length skbs' = length skbs \<and> deltas_below (lp_growth sc (delta_mean s)) s' \<and>
    (if hit then learned_timeout s' = learned_timeout s
     else unat (learned_timeout s') \<le> lp_growth sc (delta_mean s) \<and>
          unat (learned_timeout s') \<le> nat (sysctl_lowpassmaxwait sc * MICRO2NS))"
proof -
  let ?c = "last_new s < s64 (nowT - ONE_SEC) \<or> last_new s > nowT"
  define s0 where "s0 = (if ?c then s\<lparr>last_new := nowT\<rparr> else s)"
  obtain s1 where w: "lp_walk sc nowT mpcb sk skbs s0 = (hit, skbs', s1)"
    and s': "s' = (if \<not> hit then s1\<lparr>delta_mean := lp_mean sc (delta_arr s1), learned_timeout := ucast (lp_mean sc (delta_arr s1))\<rparr>
      else s1)"
    using assms(1) by (simp add: rmptcp_calc_lowpass_timeout_def s0_def [symmetric] split: prod.splits)
  have s0: "lp_wf s0" "delta_mean s0 = delta_mean s" "deltas_below (lp_growth sc (delta_mean s)) s0"
    "learned_timeout s0 = learned_timeout s"
    using assms(2,6) by (simp_all add: s0_def lp_wf_def deltas_below_def)
  note inv = lp_walk_inv [OF w s0(1)]
  have s1: "lp_wf s1" "deltas_below (lp_growth sc (delta_mean s)) s1" "learned_timeout s1 = learned_timeout s"
    "length skbs' = length skbs" using inv s0 assms(3,4) by simp_all
  have "unat (lp_limit sc) \<le> nat (sysctl_lowpassmaxwait sc * MICRO2NS)"
    unfolding lp_limit_def using assms(5) by (intro unat_word_of_int_le) (simp add: MICRO2NS_def)
  then have "unat (lp_mean sc (delta_arr s1)) \<le> nat (sysctl_lowpassmaxwait sc * MICRO2NS)"
    using lp_mean_below(2) [of "delta_arr s1" "lp_growth sc (delta_mean s)" sc] s1(2)
    by (simp add: deltas_below_def word_le_nat_alt)
  then show ?thesis using s1 lp_mean_below(1) [of "delta_arr s1" "lp_growth sc (delta_mean s)" sc]
    by (auto simp: s' lp_wf_def deltas_below_def)
qed


section \<open>Holding back\<close>

lemma lp_register_spec:
  assumes "lp_wf s" and "n \<le> lp_sk_list_i s" and "n < LP_SK_LIST_SIZE \<or> sk \<in> set (take n (lp_sk_list s))"
  shows "\<exists>i s1. lp_register sk n s = Some (i, s1) \<and> lp_wf s1 \<and> i < lp_sk_list_i s1 \<and> lp_sk_list s1 ! i = sk \<and>
    learned_timeout s1 = learned_timeout s \<and>
    (if sk \<in> set (take n (lp_sk_list s))
     then lp_sk_list_i s1 = n \<and> lp_last_send s1 = lp_last_send s
     else i = n \<and> lp_sk_list_i s1 = n + 1 \<and> lp_last_send s1 = (lp_last_send s)[n := 0])"
proof (cases "first_idx n (\<lambda>i. lp_sk_list s ! i = sk)")
  case None
  then have "sk \<notin> set (take n (lp_sk_list s))"
    using assms(1,2) by (auto simp: first_idx_None in_set_conv_nth lp_wf_def)
  then show ?thesis using None assms by (simp add: lp_register_def lp_wf_def)
next
  case (Some i)
  from first_idx_Some [OF this] have "i < n" "lp_sk_list s ! i = sk" by auto
  moreover from this have "sk \<in> set (take n (lp_sk_list s))"
    using assms(1,2) by (auto simp: in_set_conv_nth lp_wf_def)
  ultimately show ?thesis using Some assms by (simp add: lp_register_def lp_wf_def)
qed

lemma lp_size_le: "lp_size nowT s \<le> lp_sk_list_i s"
  by (simp add: lp_size_def)

lemma lp_expired_iff:
  assumes "0 \<le> lp_last_send s ! i" and "lp_last_send s ! i \<le> nowT" and "nowT < 2 ^ 62" and "unat (learned_timeout s) < 2 ^ 62"
  shows "lp_expired nowT s i \<longleftrightarrow> lp_last_send s ! i + int (unat (learned_timeout s)) < nowT"
proof -
  obtain a b where ab: "lp_last_send s ! i = int a" "nowT = int b"
    using assms(1,2) by (meson nonneg_int_cases order_trans)
  have lt: "a < 2 ^ 62" "b < 2 ^ 62" using assms(2,3) by (simp_all add: ab)
  then have u: "unat (of_nat a :: u64) = a" "unat (of_nat b :: u64) = b" by (simp_all add: unat_of_nat64)
  have "unat (of_nat a + learned_timeout s) = a + unat (learned_timeout s)"
    using lt(1) assms(4) u(1) by (simp add: unat_word_ariths(1))
  then have "lp_expired nowT s i \<longleftrightarrow> a + unat (learned_timeout s) < b"
    by (simp add: lp_expired_def ab word_less_nat_alt u)
  also have "\<dots> \<longleftrightarrow> int (a + unat (learned_timeout s)) < int b" by (simp only: of_nat_less_iff)
  finally show ?thesis by (simp only: ab of_nat_add)
qed

lemma ex_less_Suc: "(\<exists>j < Suc n. P j) \<longleftrightarrow> P n \<or> (\<exists>j < n. P (j::nat))"
  by (auto simp: less_Suc_eq)

text \<open>C27. The low-pass filter.  With room in its list of sockets a call never faults; it passes a mapping exactly for redundant data,
  or when the learned time has passed since some socket of the list passed one, where a new socket counts
  from time 0; and it then records the time for the socket.\<close>

theorem rmptcp_lowpass_decides:
  assumes "lp_wf s" and "lp_size nowT s < LP_SK_LIST_SIZE \<or> sk \<in> set (take (lp_size nowT s) (lp_sk_list s))"
    and times: "\<forall>i < lp_size nowT s. 0 \<le> lp_last_send s ! i \<and> lp_last_send s ! i \<le> nowT"
    and "0 \<le> nowT" and "nowT < 2 ^ 62" and "unat (learned_timeout s) < 2 ^ 62"
  shows "\<exists>s'. rmptcp_lowpass nowT sk dsnHit s =
      Some (dsnHit \<or> (sk \<notin> set (take (lp_size nowT s) (lp_sk_list s)) \<and> int (unat (learned_timeout s)) < nowT) \<or>
            (\<exists>i < lp_size nowT s. lp_last_send s ! i + int (unat (learned_timeout s)) < nowT), s') \<and> lp_wf s' \<and>
    (\<exists>i < lp_sk_list_i s'. lp_sk_list s' ! i = sk \<and> (fst (the (rmptcp_lowpass nowT sk dsnHit s)) \<longrightarrow> lp_last_send s' ! i = nowT))"
proof -
  let ?n = "lp_size nowT s" and ?T = "int (unat (learned_timeout s))"
  obtain i s1 where reg: "lp_register sk ?n s = Some (i, s1)" and wf1: "lp_wf s1"
    and i: "i < lp_sk_list_i s1" "lp_sk_list s1 ! i = sk" and lt: "learned_timeout s1 = learned_timeout s"
    and cases: "if sk \<in> set (take ?n (lp_sk_list s)) then lp_sk_list_i s1 = ?n \<and> lp_last_send s1 = lp_last_send s
      else i = ?n \<and> lp_sk_list_i s1 = ?n + 1 \<and> lp_last_send s1 = (lp_last_send s)[?n := 0]"
    using lp_register_spec [OF assms(1) lp_size_le assms(2)] by blast
  have len: "length (lp_last_send s) = LP_SK_LIST_SIZE" "?n \<le> LP_SK_LIST_SIZE"
    using assms(1) lp_size_le [of nowT s] by (auto simp: lp_wf_def)
  have sane: "0 \<le> lp_last_send s1 ! j \<and> lp_last_send s1 ! j \<le> nowT" if "j < lp_sk_list_i s1" for j
    using cases times that assms(2,4) len by (auto simp: nth_list_update split: if_splits)
  then have s2: "\<not> lp_last_send s1 ! i > nowT" using i(1) by (simp add: not_less)
  define D where "D \<longleftrightarrow> sk \<notin> set (take ?n (lp_sk_list s)) \<and> ?T < nowT \<or> (\<exists>j < ?n. lp_last_send s ! j + ?T < nowT)"
  let ?E = "\<exists>j < lp_sk_list_i s1. lp_expired nowT s1 j"
  have "?E \<longleftrightarrow> (\<exists>j < lp_sk_list_i s1. lp_last_send s1 ! j + ?T < nowT)"
    using lp_expired_iff [of s1 _ nowT] sane assms(5,6) lt by auto
  also have "\<dots> \<longleftrightarrow> D"
    using cases assms(2) len by (auto simp: D_def ex_less_Suc nth_list_update split: if_splits cong: conj_cong)
  finally have ED: "?E \<longleftrightarrow> D" .
  have res: "rmptcp_lowpass nowT sk dsnHit s = Some (dsnHit \<or> D,
      if dsnHit \<or> D then s1\<lparr>lp_last_send := (lp_last_send s1)[i := nowT]\<rparr> else s1)"
    using reg s2 by (auto simp: rmptcp_lowpass_def Let_def ED)
  have "i < LP_SK_LIST_SIZE" "length (lp_last_send s1) = LP_SK_LIST_SIZE" using wf1 i(1) by (auto simp: lp_wf_def)
  then show ?thesis using wf1 i unfolding res D_def [symmetric]
    by (cases "dsnHit \<or> D") (auto simp: lp_wf_def)
qed

text \<open>A socket more than the list has room for, all of them in use, is written behind the end of the array.\<close>

lemma rmptcp_lowpass_overrun:
  assumes "lp_wf s" and "lp_size nowT s = LP_SK_LIST_SIZE" and "sk \<notin> set (lp_sk_list s)"
  shows "rmptcp_lowpass nowT sk dsnHit s = None"
proof -
  have "first_idx LP_SK_LIST_SIZE (\<lambda>i. lp_sk_list s ! i = sk) = None"
    using assms(1,3) by (auto simp: first_idx_None lp_wf_def)
  then show ?thesis by (simp add: rmptcp_lowpass_def lp_register_def assms(2))
qed

section \<open>Closed instances\<close>

definition sample_rx :: rx_skb where
  "sample_rx = \<lparr>rx_seq = 0, rx_end_seq = 100, rx_len = 100, rx_flags = MPTCPHDR_SEQ, rx_tcp_flags = 0,
     rx_dss = [7, 0, 0x00640000]\<rparr>"

definition sample_lp :: lowpass_state where
  "sample_lp = \<lparr>red_lp_queue = \<lparr>queue_head = 0, queue_tail = 0,
       in_list = replicate 100 \<lparr>in_sk = None, in_dsn = 0, in_dsn_send = False\<rparr>\<rparr>,
     learned_timeout = 500, last_new = 1000, delta_arr = replicate 20 400, da_i = 0, delta_mean = 400,
     lp_sk_list = 3 # replicate 19 0, lp_sk_list_i = 1, lp_last_send = 2000 # replicate 19 0\<rparr>"

lemma sample_lp_wf: "lp_wf sample_lp"
  by (simp add: lp_wf_def sample_lp_def ring_wf_def MAX_NUM_RED_IN_SK_def da_size_def LP_SK_LIST_SIZE_def)

lemma sample_rx_dsn: "skb_dsn mpcb sample_rx = 7"
  by (simp add: set_data_seq_seq sample_rx_def has_def MPTCPHDR_SEQ_def MPTCPHDR_SEQ64_SET_def)

lemma rmptcp_peak_dsn_detects_witness:
  "fst (rmptcp_peak_dsn_sk_queue sample_mpcb 2 sample_rx
      (snd (snd (rmptcp_add_to_sk_queue sample_mpcb 1 sample_rx (red_lp_queue sample_lp)))))"
  using rmptcp_peak_dsn_detects [of "red_lp_queue sample_lp" sample_mpcb sample_rx "[]" sample_rx 2 1] sample_rx_dsn
  by (simp add: adds_def ring_wf_def sample_lp_def MAX_NUM_RED_IN_SK_def)

lemma rmptcp_calc_lowpass_timeout_bounds_witness:
  "lp_wf (snd (snd (rmptcp_calc_lowpass_timeout \<lparr>sysctl_lowpassmaxwait = 200000, sysctl_lplearnrate = 3\<rparr> 1500 sample_mpcb 1
     [sample_rx] sample_lp)))"
proof -
  let ?sc = "\<lparr>sysctl_lowpassmaxwait = 200000, sysctl_lplearnrate = 3\<rparr>"
  obtain h b s' where r: "rmptcp_calc_lowpass_timeout ?sc 1500 sample_mpcb 1 [sample_rx] sample_lp = (h, b, s')"
    by (cases "rmptcp_calc_lowpass_timeout ?sc 1500 sample_mpcb 1 [sample_rx] sample_lp") auto
  have "delta_mean sample_lp \<noteq> 0" "deltas_below (lp_growth ?sc (delta_mean sample_lp)) sample_lp"
    by (simp_all add: sample_lp_def deltas_below_def lp_growth_def da_size_def)
  with rmptcp_calc_lowpass_timeout_bounds [OF r sample_lp_wf] show ?thesis unfolding r by simp
qed

theorem rmptcp_lowpass_decides_witness:
  "\<exists>s'. rmptcp_lowpass 2400 3 False sample_lp = Some (False, s')"
proof -
  have "lp_size 2400 sample_lp = 1" "lp_last_send sample_lp ! 0 = 2000" "take 1 (lp_sk_list sample_lp) = [3]"
    "unat (learned_timeout sample_lp) = 500"
    by (simp_all add: lp_size_def sample_lp_def ONE_SEC_def)
  with rmptcp_lowpass_decides [OF sample_lp_wf, where nowT = 2400 and sk = 3 and dsnHit = False] show ?thesis
    by (auto simp: LP_SK_LIST_SIZE_def)
qed

end
