(* ===== verification/Ofo_Queue.thy ===== *)
theory Ofo_Queue
  imports Rx_State
begin

text \<open>
  The out-of-order queue of the connection (\<open>net/mptcp/mptcp_ofo_queue.c\<close>) and the reception of the
  data-FIN (\<open>mptcp_fin\<close> of \<open>net/mptcp/mptcp_input.c\<close>).

  Segments are objects in a store, since every subflow keeps a pointer into the queue, its shortcut.
  What the code sends or schedules is recorded as a list of events.
\<close>

section \<open>State\<close>

datatype rx_event =
    Schedule_Ack sk_ptr | Pingpong sk_ptr | Send_Ack sk_ptr | State_Change
  | Wake_Hup | Wake_In | Send_Reset sk_ptr | Force_Close_Others sk_ptr | Quick_Ack sk_ptr
  | Fully_Established | Data_Ready | Sub_Time_Wait sk_ptr

record mptcp_tw =
  tw_rcv_nxt :: u64
  meta_tw :: bool

record rx_state =
  rxs :: "skb_ptr \<Rightarrow> rx_skb"
  ofo :: "skb_ptr list"
  shortcut_ofoqueue :: "sk_ptr \<Rightarrow> skb_ptr option"
  meta_rcvq :: "skb_ptr list"
  rx_conns :: "sk_ptr list"
  rx_socks :: "sk_ptr \<Rightarrow> tcp_sock"
  rx_meta :: tcp_sock
  rx_mpcb :: mptcp_cb
  dfin_path_index :: u8
  rx_rcv_shutdown :: bool
  rx_done :: bool
  rx_dead :: bool
  in_time_wait :: bool
  mptw_state :: tcp_state
  tw_list :: "mptcp_tw list"
  rx_events :: "rx_event list"

text \<open>Functions of the kernel: merging a segment into the one before it (\<open>tcp_try_coalesce\<close>, \<open>None\<close>
  when it cannot), the time since the last activity of a subflow, and the effect of closing a socket
  (\<open>tcp_done\<close>) on it.\<close>

record rx_kernel =
  tcp_try_coalesce :: "rx_skb \<Rightarrow> rx_skb \<Rightarrow> rx_skb option"
  keepalive_time_elapsed :: "sk_ptr \<Rightarrow> u32"
  tcp_done :: "tcp_sock \<Rightarrow> tcp_sock"

definition event :: "rx_event \<Rightarrow> rx_state \<Rightarrow> rx_state" where
  "event e s = s\<lparr>rx_events := rx_events s @ [e]\<rparr>"

definition sq :: "rx_state \<Rightarrow> skb_ptr \<Rightarrow> u32" where "sq s p = rx_seq (rxs s p)"
definition esq :: "rx_state \<Rightarrow> skb_ptr \<Rightarrow> u32" where "esq s p = rx_end_seq (rxs s p)"

section \<open>Queues by pointer\<close>

fun queue_next :: "'a list \<Rightarrow> 'a \<Rightarrow> 'a option" where
  "queue_next (x # y # ys) p = (if x = p then Some y else queue_next (y # ys) p)"
| "queue_next xs p = None"

text \<open>The elements up to and including \<open>p\<close>, the last one first.\<close>

definition back_from :: "'a list \<Rightarrow> 'a \<Rightarrow> 'a list" where
  "back_from q p = p # rev (takeWhile (\<lambda>x. x \<noteq> p) q)"

definition queue_after :: "'a list \<Rightarrow> 'a \<Rightarrow> 'a \<Rightarrow> 'a list" where
  "queue_after q here x = takeWhile (\<lambda>y. y \<noteq> here) q @ here # x # drop 1 (dropWhile (\<lambda>y. y \<noteq> here) q)"

section \<open>Shortcuts\<close>

text \<open>The first subflow with the segment as shortcut loses it.\<close>

definition mptcp_remove_shortcuts :: "skb_ptr \<Rightarrow> rx_state \<Rightarrow> rx_state" where
  "mptcp_remove_shortcuts skb s =
     (case find (\<lambda>tp. shortcut_ofoqueue s tp = Some skb) (rx_conns s) of
        None \<Rightarrow> s | Some tp \<Rightarrow> s\<lparr>shortcut_ofoqueue := (shortcut_ofoqueue s)(tp := None)\<rparr>)"

definition unlink_ofo :: "skb_ptr \<Rightarrow> rx_state \<Rightarrow> rx_state" where
  "unlink_ofo skb s = mptcp_remove_shortcuts skb (s\<lparr>ofo := remove1 skb (ofo s)\<rparr>)"

datatype fits = No_Fit | Queued | Merged

definition mptcp_ofo_queue_after :: "rx_kernel \<Rightarrow> skb_ptr \<Rightarrow> skb_ptr \<Rightarrow> rx_state \<Rightarrow> fits \<times> rx_state" where
  "mptcp_ofo_queue_after k skb here s =
     (let queued = (Queued, s\<lparr>ofo := queue_after (ofo s) here skb\<rparr>)
      in if before (sq s skb) (esq s here) then (No_Fit, s)
         else if sq s skb = esq s here
         then (case tcp_try_coalesce k (rxs s here) (rxs s skb) of
                 None \<Rightarrow> queued | Some m \<Rightarrow> (Merged, s\<lparr>rxs := (rxs s)(here := m)\<rparr>))
         else case queue_next (ofo s) here of
                None \<Rightarrow> queued
              | Some skb1 \<Rightarrow> if \<not> after (esq s skb) (sq s skb1) then queued else (No_Fit, s))"

section \<open>Adding a segment\<close>

text \<open>Result of the search: the segment is in the queue, or was merged or dropped.\<close>

type_synonym added = "bool \<times> rx_state"

definition fitted :: "fits \<Rightarrow> bool" where
  "fitted f \<longleftrightarrow> f = Queued"

text \<open>The shortcuts of all subflows; the second value of the search is the closest one behind the segment,
  with its distance.\<close>

fun try_all ::
  "rx_kernel \<Rightarrow> skb_ptr \<Rightarrow> sk_ptr list \<Rightarrow> skb_ptr option \<Rightarrow> u32 \<Rightarrow> rx_state \<Rightarrow> added + skb_ptr option" where
  "try_all k skb [] best distance s = Inr best"
| "try_all k skb (tp # tps) best distance s =
     (case shortcut_ofoqueue s tp of
        None \<Rightarrow> try_all k skb tps best distance s
      | Some here \<Rightarrow>
         (case mptcp_ofo_queue_after k skb here s of
            (No_Fit, _) \<Rightarrow>
              if after (sq s here) (sq s skb) \<and> sq s here - sq s skb < distance
              then try_all k skb tps (Some here) (sq s here - sq s skb) s
              else try_all k skb tps best distance s
          | (f, s') \<Rightarrow> Inl (fitted f, s')))"

text \<open>Removing the segments behind the new one that start before its end.\<close>

definition clean_behind :: "skb_ptr \<Rightarrow> rx_state \<Rightarrow> rx_state" where
  "clean_behind skb s =
     fold unlink_ofo
       (takeWhile (\<lambda>p. after (esq s skb) (sq s p)) (drop 1 (dropWhile (\<lambda>p. p \<noteq> skb) (ofo s)))) s"

definition insert_behind :: "skb_ptr \<Rightarrow> skb_ptr option \<Rightarrow> rx_state \<Rightarrow> rx_state" where
  "insert_behind skb here s =
     clean_behind skb (s\<lparr>ofo := (case here of None \<Rightarrow> skb # ofo s | Some p \<Rightarrow> queue_after (ofo s) p skb)\<rparr>)"

text \<open>The insertion point, found backwards from \<open>skb1\<close>.\<close>

definition place_from :: "rx_kernel \<Rightarrow> skb_ptr \<Rightarrow> skb_ptr \<Rightarrow> rx_state \<Rightarrow> added" where
  "place_from k skb skb1 s =
     (if sq s skb = esq s skb1
      then (case tcp_try_coalesce k (rxs s skb1) (rxs s skb) of
              None \<Rightarrow> (True, s\<lparr>ofo := queue_after (ofo s) skb1 skb\<rparr>)
            | Some m \<Rightarrow> (False, s\<lparr>rxs := (rxs s)(skb1 := m)\<rparr>))
      else
        (case dropWhile (\<lambda>p. after (sq s p) (sq s skb)) (back_from (ofo s) skb1) of
           [] \<Rightarrow> (True, insert_behind skb None s)
         | p # ps \<Rightarrow>
            if before (sq s skb) (esq s p)
            then (if \<not> after (esq s skb) (esq s p) then (False, s)
                  else if sq s skb = sq s p
                  then (True, insert_behind skb (case ps of [] \<Rightarrow> None | p' # _ \<Rightarrow> Some p') s)
                  else (True, insert_behind skb (Some p) s))
            else (True, insert_behind skb (Some p) s)))"

text \<open>\<open>None\<close> is the access to the last segment of an empty queue.\<close>

definition find_place :: "rx_kernel \<Rightarrow> skb_ptr \<Rightarrow> rx_state \<Rightarrow> added option" where
  "find_place k skb s =
     (case try_all k skb (rx_conns s) None 0xffffffff s of
        Inl r \<Rightarrow> Some r
      | Inr (Some best) \<Rightarrow> Some (place_from k skb best s)
      | Inr None \<Rightarrow> if ofo s = [] then None else Some (place_from k skb (last (ofo s)) s))"

definition try_shortcut :: "rx_kernel \<Rightarrow> skb_ptr option \<Rightarrow> skb_ptr \<Rightarrow> sk_ptr \<Rightarrow> rx_state \<Rightarrow> rx_state option" where
  "try_shortcut k shortcut skb tp s =
     map_option (\<lambda>(kept, s'). if kept then s'\<lparr>shortcut_ofoqueue := (shortcut_ofoqueue s')(tp := Some skb)\<rparr> else s')
       (case shortcut of
          None \<Rightarrow> if ofo s = [] then Some (True, s\<lparr>ofo := [skb]\<rparr>) else find_place k skb s
        | Some here \<Rightarrow>
           (case mptcp_ofo_queue_after k skb here s of
              (No_Fit, _) \<Rightarrow> find_place k skb s
            | (f, s') \<Rightarrow> Some (fitted f, s')))"

definition mptcp_add_meta_ofo_queue :: "rx_kernel \<Rightarrow> skb_ptr \<Rightarrow> sk_ptr \<Rightarrow> rx_state \<Rightarrow> rx_state option" where
  "mptcp_add_meta_ofo_queue k skb sk s = try_shortcut k (shortcut_ofoqueue s sk) skb sk s"

section \<open>Emptying the queue\<close>

definition mptcp_purge_ofo_queue :: "rx_state \<Rightarrow> rx_state" where
  "mptcp_purge_ofo_queue s = fold unlink_ofo (ofo s) s"

definition mptcp_prune_ofo_queue :: "rx_state \<Rightarrow> bool \<times> rx_state" where
  "mptcp_prune_ofo_queue s = (if ofo s \<noteq> [] then (True, mptcp_purge_ofo_queue s) else (False, s))"

section \<open>The data-FIN\<close>

text \<open>The subflow for an acknowledgement: \<open>rttsk\<close>, \<open>min_time\<close>, \<open>lastsk\<close>, \<open>last_active\<close>.\<close>

definition ack_sock_step ::
  "rx_kernel \<Rightarrow> rx_state \<Rightarrow> sk_ptr \<Rightarrow> sk_ptr option \<times> u32 \<times> sk_ptr option \<times> u32 \<Rightarrow> sk_ptr option \<times> u32 \<times> sk_ptr option \<times> u32" where
  "ack_sock_step k s sk = (\<lambda>(rttsk, min_time, lastsk, last_active).
     let tp = rx_socks s sk; elapsed = keepalive_time_elapsed k sk
     in if \<not> mptcp_sk_can_send_ack tp \<or> pf tp then (rttsk, min_time, lastsk, last_active)
        else if elapsed < icsk_rto (rx_meta s)
        then (if min_time = 0 \<or> srtt_us tp < min_time then (Some sk, srtt_us tp, lastsk, last_active)
              else (rttsk, min_time, lastsk, last_active))
        else if rttsk = None \<and> (last_active = 0 \<or> elapsed < last_active) then (rttsk, min_time, Some sk, elapsed)
        else (rttsk, min_time, lastsk, last_active))"

definition mptcp_select_ack_sock :: "rx_kernel \<Rightarrow> rx_state \<Rightarrow> sk_ptr option" where
  "mptcp_select_ack_sock k s =
     (case fold (ack_sock_step k s) (rx_conns s) (None, 0, None, 0) of
        (Some sk, _) \<Rightarrow> Some sk | (None, _, lastsk, _) \<Rightarrow> lastsk)"

text \<open>The subflow the acknowledgement of the data-FIN is for; \<open>None\<close> is a null pointer.\<close>

definition fin_sock :: "rx_kernel \<Rightarrow> rx_state \<Rightarrow> sk_ptr option" where
  "fin_sock k s =
     (case find (\<lambda>sk. path_index (rx_socks s sk) = dfin_path_index s) (rx_conns s) of
        Some sk \<Rightarrow> if sk_state (rx_socks s sk) = TCP_CLOSE then mptcp_select_ack_sock k s else Some sk
      | None \<Rightarrow> mptcp_select_ack_sock k s)"

definition set_meta_state :: "tcp_state \<Rightarrow> rx_state \<Rightarrow> rx_state" where
  "set_meta_state st s = s\<lparr>rx_meta := (rx_meta s)\<lparr>sk_state := st\<rparr>\<rparr>"

text \<open>The connection enters TIME-WAIT or FIN-WAIT-2: the sockets of the subflows that are in TIME-WAIT
  learn the next data sequence number, one ahead when the data-FIN is still expected.\<close>

definition mptcp_time_wait :: "rx_kernel \<Rightarrow> tcp_state \<Rightarrow> rx_state \<Rightarrow> rx_state" where
  "mptcp_time_wait k st s =
     (let n = mptcp_get_rcv_nxt_64 (rx_mpcb s) (rx_meta s);
          update = (\<lambda>tw. tw\<lparr>meta_tw := True, tw_rcv_nxt := if st \<noteq> TCP_TIME_WAIT then n + 1 else n\<rparr>)
      in s\<lparr>in_time_wait := True, mptw_state := st, tw_list := map update (tw_list s),
           rx_meta := tcp_done k (rx_meta s)\<rparr>)"

definition fin_transition :: "rx_kernel \<Rightarrow> sk_ptr \<Rightarrow> rx_state \<Rightarrow> rx_state" where
  "fin_transition k sk s =
     (let st = sk_state (rx_meta s)
      in if st \<in> {TCP_SYN_RECV, TCP_ESTABLISHED} then event (Pingpong sk) (set_meta_state TCP_CLOSE_WAIT s)
         else if st = TCP_FIN_WAIT1 then set_meta_state TCP_CLOSING (event (Send_Ack sk) s)
         else if st = TCP_FIN_WAIT2 then mptcp_time_wait k TCP_TIME_WAIT (event (Send_Ack sk) s)
         else s)"

text \<open>\<open>sk_shutdown == SHUTDOWN_MASK\<close> is the shutdown in both directions.\<close>

definition mptcp_fin :: "rx_kernel \<Rightarrow> rx_state \<Rightarrow> rx_state option" where
  "mptcp_fin k s =
     (case fin_sock k s of
        None \<Rightarrow> None
      | Some sk \<Rightarrow>
         let s1 = (event (Schedule_Ack sk) s)\<lparr>rx_rcv_shutdown := True, rx_done := True\<rparr>;
             s2 = mptcp_purge_ofo_queue (fin_transition k sk s1)
         in Some (if \<not> rx_dead s2
                  then event (if send_shutdown (rx_meta s2) \<or> sk_state (rx_meta s2) = TCP_CLOSE then Wake_Hup else Wake_In)
                         (event State_Change s2)
                  else s2))"

section \<open>Delivery\<close>

definition deliver :: "skb_ptr \<Rightarrow> rx_state \<Rightarrow> rx_state" where
  "deliver skb s =
     (let old_rcv_nxt = rcv_nxt (rx_meta s); m = (rx_meta s)\<lparr>rcv_nxt := esq s skb\<rparr>
      in s\<lparr>meta_rcvq := meta_rcvq s @ [skb], rx_meta := m,
           rx_mpcb := mptcp_check_rcvseq_wrap m old_rcv_nxt (rx_mpcb s)\<rparr>)"

lemma remove_shortcuts_sel [simp]:
  "ofo (mptcp_remove_shortcuts p s) = ofo s" "rxs (mptcp_remove_shortcuts p s) = rxs s"
  "rx_meta (mptcp_remove_shortcuts p s) = rx_meta s" "meta_rcvq (mptcp_remove_shortcuts p s) = meta_rcvq s"
  "rx_mpcb (mptcp_remove_shortcuts p s) = rx_mpcb s" "rx_conns (mptcp_remove_shortcuts p s) = rx_conns s"
  "rx_socks (mptcp_remove_shortcuts p s) = rx_socks s" "rx_dead (mptcp_remove_shortcuts p s) = rx_dead s"
  "rx_done (mptcp_remove_shortcuts p s) = rx_done s"
  by (simp_all add: mptcp_remove_shortcuts_def split: option.splits)

lemma unlink_sel [simp]:
  "ofo (unlink_ofo p s) = remove1 p (ofo s)" "rxs (unlink_ofo p s) = rxs s"
  "rx_meta (unlink_ofo p s) = rx_meta s" "meta_rcvq (unlink_ofo p s) = meta_rcvq s"
  "rx_mpcb (unlink_ofo p s) = rx_mpcb s" "rx_conns (unlink_ofo p s) = rx_conns s"
  "rx_socks (unlink_ofo p s) = rx_socks s" "rx_dead (unlink_ofo p s) = rx_dead s" "rx_done (unlink_ofo p s) = rx_done s"
  by (simp_all add: unlink_ofo_def)

lemma fold_unlink_sel [simp]:
  "rxs (fold unlink_ofo ps s) = rxs s" "rx_meta (fold unlink_ofo ps s) = rx_meta s"
  "meta_rcvq (fold unlink_ofo ps s) = meta_rcvq s" "rx_mpcb (fold unlink_ofo ps s) = rx_mpcb s"
  "rx_conns (fold unlink_ofo ps s) = rx_conns s" "rx_socks (fold unlink_ofo ps s) = rx_socks s"
  "rx_dead (fold unlink_ofo ps s) = rx_dead s" "rx_done (fold unlink_ofo ps s) = rx_done s"
  by (induction ps arbitrary: s) simp_all

lemma fold_unlink_ofo: "ofo (fold unlink_ofo ps s) = fold remove1 ps (ofo s)"
  by (induction ps arbitrary: s) simp_all

lemma fold_remove1_self: "fold remove1 (xs @ ys) (xs @ zs) = fold remove1 ys zs"
  by (induction xs) simp_all

lemma ofo_purge [simp]: "ofo (mptcp_purge_ofo_queue s) = []"
  using fold_remove1_self [of "ofo s" "[]" "[]"] by (simp add: mptcp_purge_ofo_queue_def fold_unlink_ofo)

lemma event_sel [simp]:
  "ofo (event e s) = ofo s" "rxs (event e s) = rxs s" "rx_meta (event e s) = rx_meta s"
  "meta_rcvq (event e s) = meta_rcvq s" "rx_mpcb (event e s) = rx_mpcb s" "rx_conns (event e s) = rx_conns s"
  "shortcut_ofoqueue (event e s) = shortcut_ofoqueue s" "rx_socks (event e s) = rx_socks s" "rx_dead (event e s) = rx_dead s"
  "rx_done (event e s) = rx_done s"
  by (simp_all add: event_def)

lemma mptcp_fin_ofo: "mptcp_fin k s = Some s' \<Longrightarrow> ofo s' = []"
  by (auto simp: mptcp_fin_def Let_def split: option.splits if_splits)

text \<open>The loop over the head of the queue; \<open>None\<close> is a null pointer in \<open>mptcp_fin\<close>.\<close>

function mptcp_ofo_queue :: "rx_kernel \<Rightarrow> rx_state \<Rightarrow> rx_state option" where
  "mptcp_ofo_queue k s =
     (case ofo s of
        [] \<Rightarrow> Some s
      | skb # _ \<Rightarrow>
         if after (sq s skb) (rcv_nxt (rx_meta s)) then Some s
         else if \<not> after (esq s skb) (rcv_nxt (rx_meta s)) then mptcp_ofo_queue k (unlink_ofo skb s)
         else let s1 = deliver skb (unlink_ofo skb s)
              in if has (rx_tcp_flags (rxs s1 skb)) TCPHDR_FIN
                 then (case mptcp_fin k s1 of None \<Rightarrow> None | Some s2 \<Rightarrow> mptcp_ofo_queue k s2)
                 else mptcp_ofo_queue k s1)"
  by auto
termination
  by (relation "measure (\<lambda>(k, s). length (ofo s))") (auto simp: deliver_def Let_def mptcp_fin_ofo)

declare mptcp_ofo_queue.simps [simp del]

section \<open>Facts on queues\<close>

lemma split_at: "p \<in> set q \<Longrightarrow> \<exists>ys zs. q = ys @ p # zs \<and> p \<notin> set ys"
  by (rule split_list_first)

lemma takeWhile_at [simp]: "p \<notin> set ys \<Longrightarrow> takeWhile (\<lambda>x. x \<noteq> p) (ys @ p # zs) = ys"
  by (induction ys) auto

lemma dropWhile_at [simp]: "p \<notin> set ys \<Longrightarrow> dropWhile (\<lambda>x. x \<noteq> p) (ys @ p # zs) = p # zs"
  by (induction ys) auto

lemma queue_after_at: "p \<notin> set ys \<Longrightarrow> queue_after (ys @ p # zs) p x = ys @ p # x # zs"
  by (simp add: queue_after_def)

lemma set_queue_after: "p \<in> set q \<Longrightarrow> set (queue_after q p x) = insert x (set q)"
  using split_at [of p q] by (auto simp: queue_after_at)

lemma distinct_queue_after: "p \<in> set q \<Longrightarrow> distinct q \<Longrightarrow> x \<notin> set q \<Longrightarrow> distinct (queue_after q p x)"
  using split_at [of p q] by (auto simp: queue_after_at)

lemma set_back_from: "p \<in> set q \<Longrightarrow> set (back_from q p) \<subseteq> set q"
  using set_takeWhileD by (fastforce simp: back_from_def)

section \<open>No dangling shortcut\<close>

definition shortcuts_single :: "rx_state \<Rightarrow> bool" where
  "shortcuts_single s \<longleftrightarrow> (\<forall>tp \<in> set (rx_conns s). \<forall>tq \<in> set (rx_conns s). \<forall>p.
     shortcut_ofoqueue s tp = Some p \<and> shortcut_ofoqueue s tq = Some p \<longrightarrow> tp = tq)"

definition ofo_inv :: "rx_state \<Rightarrow> bool" where
  "ofo_inv s \<longleftrightarrow> distinct (ofo s) \<and> shortcuts_single s \<and>
     (\<forall>tp \<in> set (rx_conns s). \<forall>p. shortcut_ofoqueue s tp = Some p \<longrightarrow> p \<in> set (ofo s))"

lemma remove_shortcuts_spec:
  assumes "shortcuts_single s" and "tp \<in> set (rx_conns s)"
  shows "shortcut_ofoqueue (mptcp_remove_shortcuts x s) tp =
    (if shortcut_ofoqueue s tp = Some x then None else shortcut_ofoqueue s tp)"
proof (cases "find (\<lambda>tq. shortcut_ofoqueue s tq = Some x) (rx_conns s)")
  case None
  then have "shortcut_ofoqueue s tp \<noteq> Some x" using assms(2) by (auto simp: find_None_iff)
  with None show ?thesis by (simp add: mptcp_remove_shortcuts_def)
next
  case (Some tq)
  then have "tq \<in> set (rx_conns s)" "shortcut_ofoqueue s tq = Some x" by (auto simp: find_Some_iff)
  then show ?thesis using assms Some by (auto simp: mptcp_remove_shortcuts_def shortcuts_single_def)
qed

lemma unlink_shortcut:
  assumes "shortcuts_single s" and "tp \<in> set (rx_conns s)"
  shows "shortcut_ofoqueue (unlink_ofo x s) tp =
     (if shortcut_ofoqueue s tp = Some x then None else shortcut_ofoqueue s tp)"
proof -
  have "shortcuts_single (s\<lparr>ofo := remove1 x (ofo s)\<rparr>)" using assms(1) by (simp add: shortcuts_single_def)
  from remove_shortcuts_spec [OF this] assms(2) show ?thesis by (simp add: unlink_ofo_def)
qed

lemma unlink_inv: "ofo_inv s \<Longrightarrow> ofo_inv (unlink_ofo x s)"
  using unlink_shortcut [of s] by (auto simp: ofo_inv_def shortcuts_single_def split: if_splits)

lemma unlink_shortcut_subset:
  "ofo_inv s \<Longrightarrow> tp \<in> set (rx_conns s) \<Longrightarrow> shortcut_ofoqueue (unlink_ofo x s) tp = Some p \<Longrightarrow>
   shortcut_ofoqueue s tp = Some p"
  using unlink_shortcut [of s tp x] by (simp add: ofo_inv_def split: if_splits)

lemma fold_unlink_inv:
  "ofo_inv s \<Longrightarrow> ofo_inv (fold unlink_ofo ps s)"
  by (induction ps arbitrary: s) (simp_all add: unlink_inv)

lemma fold_unlink_subset:
  "ofo_inv s \<Longrightarrow> tp \<in> set (rx_conns s) \<Longrightarrow> shortcut_ofoqueue (fold unlink_ofo ps s) tp = Some p \<Longrightarrow>
   shortcut_ofoqueue s tp = Some p"
proof (induction ps arbitrary: s)
  case (Cons x ps)
  have "shortcut_ofoqueue (unlink_ofo x s) tp = Some p"
    using Cons.IH [OF unlink_inv [OF Cons.prems(1)]] Cons.prems(2,3) by simp
  then show ?case by (rule unlink_shortcut_subset [OF Cons.prems(1,2)])
qed simp

text \<open>A grown queue.\<close>

definition added_ok :: "rx_state \<Rightarrow> skb_ptr \<Rightarrow> bool \<Rightarrow> rx_state \<Rightarrow> bool" where
  "added_ok s skb kept s' \<longleftrightarrow> ofo_inv s' \<and> rx_conns s' = rx_conns s \<and> (kept \<longrightarrow> skb \<in> set (ofo s')) \<and>
     (\<forall>tp \<in> set (rx_conns s). shortcut_ofoqueue s' tp \<noteq> Some skb)"

lemma added_grow:
  assumes "ofo_inv s" and "skb \<notin> set (ofo s)" and "set q = insert skb (set (ofo s))" and "distinct q"
  shows "added_ok s skb True (s\<lparr>ofo := q\<rparr>)"
  using assms by (auto simp: added_ok_def ofo_inv_def shortcuts_single_def)

lemma added_after:
  assumes "ofo_inv s" and "skb \<notin> set (ofo s)" and "p \<in> set (ofo s)"
  shows "added_ok s skb True (s\<lparr>ofo := queue_after (ofo s) p skb\<rparr>)"
  using added_grow [OF assms(1,2) set_queue_after [OF assms(3)]] distinct_queue_after [OF assms(3)] assms(1,2)
  by (simp add: ofo_inv_def)

lemma added_same: "ofo_inv s \<Longrightarrow> skb \<notin> set (ofo s) \<Longrightarrow> added_ok s skb False (s\<lparr>rxs := f\<rparr>)"
  by (auto simp: added_ok_def ofo_inv_def shortcuts_single_def)

lemma added_drop: "ofo_inv s \<Longrightarrow> skb \<notin> set (ofo s) \<Longrightarrow> added_ok s skb False s"
  by (auto simp: added_ok_def ofo_inv_def shortcuts_single_def)

lemma fold_remove1_keeps: "x \<in> set q \<Longrightarrow> x \<notin> set ps \<Longrightarrow> x \<in> set (fold remove1 ps q)"
  by (induction ps arbitrary: q) auto

lemma clean_behind_added:
  assumes "added_ok s skb True s1" and "skb \<in> set (ofo s1)"
  shows "added_ok s skb True (clean_behind skb s1)" and "rxs (clean_behind skb s1) = rxs s1"
proof -
  have inv: "ofo_inv s1" using assms(1) by (simp add: added_ok_def)
  obtain ys zs where q: "ofo s1 = ys @ skb # zs" "skb \<notin> set ys" using split_at [OF assms(2)] by blast
  have "skb \<notin> set zs" using inv q by (auto simp: ofo_inv_def)
  then have "skb \<notin> set (takeWhile (\<lambda>p. after (esq s1 skb) (sq s1 p)) zs)" by (blast dest: set_takeWhileD)
  then have "skb \<in> set (ofo (clean_behind skb s1))"
    using assms(2) q by (simp add: clean_behind_def fold_unlink_ofo fold_remove1_keeps)
  then show "added_ok s skb True (clean_behind skb s1)"
    using fold_unlink_inv [OF inv] fold_unlink_subset [OF inv] assms(1) by (auto simp: added_ok_def clean_behind_def)
  show "rxs (clean_behind skb s1) = rxs s1" by (simp add: clean_behind_def)
qed

lemma insert_behind_added:
  assumes "ofo_inv s" and "skb \<notin> set (ofo s)" and "\<forall>p. here = Some p \<longrightarrow> p \<in> set (ofo s)"
  shows "added_ok s skb True (insert_behind skb here s)" and "rxs (insert_behind skb here s) = rxs s"
proof -
  have "added_ok s skb True (s\<lparr>ofo := skb # ofo s\<rparr>)" using assms(1,2) by (intro added_grow) (auto simp: ofo_inv_def)
  then have 1: "added_ok s skb True (s\<lparr>ofo := (case here of None \<Rightarrow> skb # ofo s | Some p \<Rightarrow> queue_after (ofo s) p skb)\<rparr>)"
    using added_after [OF assms(1,2)] assms(3) by (cases here) auto
  then show "added_ok s skb True (insert_behind skb here s)" "rxs (insert_behind skb here s) = rxs s"
    using clean_behind_added [OF 1] by (auto simp: insert_behind_def added_ok_def)
qed


section \<open>The bytes held\<close>

definition rx_ok :: "u32 \<Rightarrow> rx_skb \<Rightarrow> bool" where
  "rx_ok base x \<longleftrightarrow> pos base (rx_seq x) < pos base (rx_end_seq x) \<and> pos base (rx_end_seq x) < 2 ^ 31"

definition rx_bytes :: "u32 \<Rightarrow> rx_skb \<Rightarrow> nat set" where
  "rx_bytes base x = {pos base (rx_seq x)..<pos base (rx_end_seq x)}"

definition held :: "u32 \<Rightarrow> rx_state \<Rightarrow> nat set" where
  "held base s = (\<Union>p \<in> set (ofo s). rx_bytes base (rxs s p))"

definition merges :: "rx_kernel \<Rightarrow> bool" where
  "merges k \<longleftrightarrow> (\<forall>a b m. tcp_try_coalesce k a b = Some m \<longrightarrow> rx_seq m = rx_seq a \<and> rx_end_seq m = rx_end_seq b)"

lemma held_member: "p \<in> set (ofo s) \<Longrightarrow> rx_bytes base (rxs s p) \<subseteq> held base s"
  by (auto simp: held_def)

lemma rx_okD: "rx_ok base x \<Longrightarrow> pos base (rx_seq x) < 2 ^ 31 \<and> pos base (rx_end_seq x) < 2 ^ 31"
  by (auto simp: rx_ok_def)

definition all_ok :: "u32 \<Rightarrow> skb_ptr \<Rightarrow> rx_state \<Rightarrow> bool" where
  "all_ok base skb s \<longleftrightarrow> ofo_inv s \<and> skb \<notin> set (ofo s) \<and> (\<forall>p \<in> insert skb (set (ofo s)). rx_ok base (rxs s p))"

definition settled :: "u32 \<Rightarrow> rx_state \<Rightarrow> skb_ptr \<Rightarrow> added \<Rightarrow> bool" where
  "settled base s skb r \<longleftrightarrow> added_ok s skb (fst r) (snd r) \<and> rx_bytes base (rxs s skb) \<subseteq> held base (snd r)"

lemma settled_kept: "added_ok s skb True s' \<Longrightarrow> rxs s' = rxs s \<Longrightarrow> settled base s skb (True, s')"
  using held_member [of skb s' base] by (simp add: settled_def added_ok_def)

lemma settled_queue_after: "all_ok base skb s \<Longrightarrow> p \<in> set (ofo s) \<Longrightarrow>
    settled base s skb (True, s\<lparr>ofo := queue_after (ofo s) p skb\<rparr>)"
  by (rule settled_kept) (simp_all add: added_after all_ok_def)

lemma settled_merged:
  assumes "all_ok base skb s" and "p \<in> set (ofo s)" and "merges k"
    and "tcp_try_coalesce k (rxs s p) (rxs s skb) = Some m" and "sq s skb = esq s p"
  shows "settled base s skb (False, s\<lparr>rxs := (rxs s)(p := m)\<rparr>)"
proof -
  have p: "rx_ok base (rxs s p)" using assms(1,2) by (auto simp: all_ok_def)
  have "rx_seq m = rx_seq (rxs s p)" "rx_end_seq m = rx_end_seq (rxs s skb)" using assms(3,4) by (auto simp: merges_def)
  then have "rx_bytes base (rxs s skb) \<subseteq> rx_bytes base m"
    using p assms(5) by (auto simp: rx_bytes_def rx_ok_def sq_def esq_def)
  then have "rx_bytes base (rxs s skb) \<subseteq> held base (s\<lparr>rxs := (rxs s)(p := m)\<rparr>)"
    using held_member [of p "s\<lparr>rxs := (rxs s)(p := m)\<rparr>" base] assms(2) by auto
  then show ?thesis using assms(1) by (simp add: settled_def added_same all_ok_def)
qed

lemma settled_after:
  assumes "all_ok base skb s" and "merges k" and "here \<in> set (ofo s)"
    and "mptcp_ofo_queue_after k skb here s = (f, s')" and "f \<noteq> No_Fit"
  shows "settled base s skb (fitted f, s')"
proof (cases "sq s skb = esq s here")
  case True
  show ?thesis
  proof (cases "tcp_try_coalesce k (rxs s here) (rxs s skb)")
    case None
    then have "f = Queued" "s' = s\<lparr>ofo := queue_after (ofo s) here skb\<rparr>"
      using True assms(4) by (auto simp: mptcp_ofo_queue_after_def)
    then show ?thesis using settled_queue_after [OF assms(1,3)] by (simp add: fitted_def)
  next
    case (Some m)
    then have "f = Merged" "s' = s\<lparr>rxs := (rxs s)(here := m)\<rparr>"
      using True assms(4) by (auto simp: mptcp_ofo_queue_after_def)
    then show ?thesis using settled_merged [OF assms(1,3,2) Some True] by (simp add: fitted_def)
  qed
next
  case False
  then have "f = Queued" "s' = s\<lparr>ofo := queue_after (ofo s) here skb\<rparr>"
    using assms(4,5) by (auto simp: mptcp_ofo_queue_after_def Let_def split: if_splits option.splits)
  then show ?thesis using settled_queue_after [OF assms(1,3)] by (simp add: fitted_def)
qed

lemma settled_insert_behind:
  "all_ok base skb s \<Longrightarrow> \<forall>p. here = Some p \<longrightarrow> p \<in> set (ofo s) \<Longrightarrow> settled base s skb (True, insert_behind skb here s)"
  by (rule settled_kept) (simp_all add: insert_behind_added all_ok_def)

lemma settled_all:
  assumes "all_ok base skb s" and "merges k" and "set tps \<subseteq> set (rx_conns s)"
    and "\<forall>p. best = Some p \<longrightarrow> p \<in> set (ofo s)"
  shows "(\<forall>r. try_all k skb tps best d s = Inl r \<longrightarrow> settled base s skb r) \<and>
         (\<forall>p. try_all k skb tps best d s = Inr (Some p) \<longrightarrow> p \<in> set (ofo s))"
  using assms(3,4)
proof (induction tps arbitrary: best d)
  case (Cons tp tps)
  show ?case
  proof (cases "shortcut_ofoqueue s tp")
    case None
    then show ?thesis using Cons by simp
  next
    case (Some here)
    then have here: "here \<in> set (ofo s)" using assms(1) Cons.prems(1) by (auto simp: all_ok_def ofo_inv_def)
    obtain f s' where fs: "mptcp_ofo_queue_after k skb here s = (f, s')" by fastforce
    show ?thesis
    proof (cases "f = No_Fit")
      case True
      then have step: "try_all k skb (tp # tps) best d s = try_all k skb tps best d s \<or>
          try_all k skb (tp # tps) best d s = try_all k skb tps (Some here) (sq s here - sq s skb) s"
        using Some fs by simp
      have tps: "set tps \<subseteq> set (rx_conns s)" using Cons.prems(1) by simp
      have "\<forall>p. Some here = Some p \<longrightarrow> p \<in> set (ofo s)" using here by simp
      from step Cons.IH [OF tps this] Cons.IH [OF tps Cons.prems(2)] show ?thesis by (elim disjE) simp_all
    next
      case False
      then show ?thesis using settled_after [OF assms(1,2) here fs] Some fs by (cases f) auto
    qed
  qed
qed simp


lemma dropWhile_Cons_D: "dropWhile P xs = y # ys \<Longrightarrow> y \<in> set xs \<and> set ys \<subseteq> set xs \<and> \<not> P y"
proof -
  assume a: "dropWhile P xs = y # ys"
  then have "set (y # ys) \<subseteq> set xs" using set_dropWhileD by (metis subsetI)
  moreover have "\<not> P y" using a hd_dropWhile [of P xs] by (metis list.distinct(1) list.sel(1))
  ultimately show ?thesis by simp
qed

lemma settled_place:
  assumes ok: "all_ok base skb s" and "merges k" and p1: "skb1 \<in> set (ofo s)"
  shows "settled base s skb (place_from k skb skb1 s)"
proof (cases "sq s skb = esq s skb1")
  case True
  then show ?thesis
    using settled_merged [OF ok p1 assms(2)] settled_queue_after [OF ok p1]
    by (cases "tcp_try_coalesce k (rxs s skb1) (rxs s skb)") (simp_all add: place_from_def)
next
  case False
  show ?thesis
  proof (cases "dropWhile (\<lambda>p. after (sq s p) (sq s skb)) (back_from (ofo s) skb1)")
    case Nil
    then show ?thesis using False settled_insert_behind [OF ok, of None] by (simp add: place_from_def del: dropWhile_eq_Nil_conv)
  next
    case (Cons p ps)
    have inq: "p \<in> set (ofo s)" "set ps \<subseteq> set (ofo s)" and le: "\<not> after (sq s p) (sq s skb)"
      using dropWhile_Cons_D [OF Cons] set_back_from [OF p1] by auto
    have w: "rx_ok base (rxs s p)" "rx_ok base (rxs s skb)" using ok inq by (auto simp: all_ok_def)
    have present: "settled base s skb (False, s)" if "\<not> after (esq s skb) (esq s p)"
    proof -
      have "rx_bytes base (rxs s skb) \<subseteq> rx_bytes base (rxs s p)"
        using le that w [THEN rx_okD] by (auto simp: rx_bytes_def sq_def esq_def pos_after)
      then have "rx_bytes base (rxs s skb) \<subseteq> held base s" using held_member [OF inq(1)] by blast
      then show ?thesis using ok by (simp add: settled_def added_drop all_ok_def)
    qed
    have prev: "settled base s skb (True, insert_behind skb (case ps of [] \<Rightarrow> None | p' # _ \<Rightarrow> Some p') s)"
      using inq(2) by (intro settled_insert_behind [OF ok]) (auto split: list.splits)
    have here: "settled base s skb (True, insert_behind skb (Some p) s)"
      using inq(1) by (intro settled_insert_behind [OF ok]) simp
    show ?thesis using False Cons present prev here by (simp add: place_from_def)
  qed
qed

lemma settled_find:
  assumes "all_ok base skb s" and "merges k" and "ofo s \<noteq> []"
  shows "\<exists>r. find_place k skb s = Some r \<and> settled base s skb r"
proof -
  have all: "(\<forall>r. try_all k skb (rx_conns s) None 0xffffffff s = Inl r \<longrightarrow> settled base s skb r) \<and>
         (\<forall>p. try_all k skb (rx_conns s) None 0xffffffff s = Inr (Some p) \<longrightarrow> p \<in> set (ofo s))"
    by (rule settled_all [OF assms(1,2)]) simp_all
  show ?thesis
  proof (cases "try_all k skb (rx_conns s) None 0xffffffff s")
    case (Inl r)
    then have "find_place k skb s = Some r" by (simp add: find_place_def)
    then show ?thesis using all Inl by blast
  next
    case (Inr best)
    define skb1 where "skb1 = (case best of None \<Rightarrow> last (ofo s) | Some b \<Rightarrow> b)"
    have "find_place k skb s = Some (place_from k skb skb1 s)"
      using Inr assms(3) by (auto simp: find_place_def skb1_def split: option.splits)
    moreover have "skb1 \<in> set (ofo s)" using all Inr assms(3) by (auto simp: skb1_def split: option.splits)
    ultimately show ?thesis using settled_place [OF assms(1,2)] by blast
  qed
qed

lemma set_shortcut_inv:
  "added_ok s skb True s' \<Longrightarrow> ofo_inv (s'\<lparr>shortcut_ofoqueue := (shortcut_ofoqueue s')(tp := Some skb)\<rparr>)"
  by (auto simp: added_ok_def ofo_inv_def shortcuts_single_def)

lemma held_shortcut [simp]: "held base (s\<lparr>shortcut_ofoqueue := f\<rparr>) = held base s"
  by (simp add: held_def)

lemma add_settled:
  assumes ok: "all_ok base skb s" and k: "merges k" and "sk \<in> set (rx_conns s)"
  shows "\<exists>s'. mptcp_add_meta_ofo_queue k skb sk s = Some s' \<and> ofo_inv s' \<and> rx_bytes base (rxs s skb) \<subseteq> held base s'"
proof -
  let ?r = "case shortcut_ofoqueue s sk of
          None \<Rightarrow> if ofo s = [] then Some (True, s\<lparr>ofo := [skb]\<rparr>) else find_place k skb s
        | Some here \<Rightarrow>
           (case mptcp_ofo_queue_after k skb here s of
              (No_Fit, _) \<Rightarrow> find_place k skb s
            | (f, s') \<Rightarrow> Some (fitted f, s'))"
  have "\<exists>r. ?r = Some r \<and> settled base s skb r"
  proof (cases "shortcut_ofoqueue s sk")
    case None
    have "settled base s skb (True, s\<lparr>ofo := [skb]\<rparr>)" if "ofo s = []"
      using ok that by (intro settled_kept added_grow) (auto simp: all_ok_def)
    then have "ofo s = [] \<Longrightarrow> ?thesis" using None by auto
    then show ?thesis using None settled_find [OF ok k] by (cases "ofo s = []") simp_all
  next
    case (Some here)
    then have here: "here \<in> set (ofo s)" using ok assms(3) by (auto simp: all_ok_def ofo_inv_def)
    obtain f s' where fs: "mptcp_ofo_queue_after k skb here s = (f, s')" by fastforce
    have "ofo s \<noteq> []" using here by auto
    then show ?thesis using Some fs settled_find [OF ok k] settled_after [OF ok k here fs] by (cases f) auto
  qed
  then obtain kept s' where r: "?r = Some (kept, s')" and st: "settled base s skb (kept, s')" by auto
  show ?thesis
    using r st set_shortcut_inv [of s skb s' sk]
    by (auto simp: mptcp_add_meta_ofo_queue_def try_shortcut_def settled_def added_ok_def)
qed


section \<open>Delivery\<close>

lemma fin_sock_cong:
  assumes "rx_conns s' = rx_conns s" and "rx_socks s' = rx_socks s" and "dfin_path_index s' = dfin_path_index s"
    and "icsk_rto (rx_meta s') = icsk_rto (rx_meta s)"
  shows "fin_sock k s' = fin_sock k s"
proof -
  have "ack_sock_step k s' = ack_sock_step k s" using assms by (auto simp: ack_sock_step_def fun_eq_iff Let_def)
  then show ?thesis using assms by (simp add: fin_sock_def mptcp_select_ack_sock_def cong: option.case_cong if_cong)
qed

lemma remove_shortcuts_dfin [simp]: "dfin_path_index (mptcp_remove_shortcuts p s) = dfin_path_index s"
  by (simp add: mptcp_remove_shortcuts_def split: option.splits)

lemma unlink_dfin [simp]: "dfin_path_index (unlink_ofo p s) = dfin_path_index s"
  by (simp add: unlink_ofo_def)

lemma deliver_sel [simp]:
  "ofo (deliver p s) = ofo s" "rxs (deliver p s) = rxs s" "rx_conns (deliver p s) = rx_conns s"
  "rx_socks (deliver p s) = rx_socks s" "dfin_path_index (deliver p s) = dfin_path_index s"
  "shortcut_ofoqueue (deliver p s) = shortcut_ofoqueue s" "rx_meta (deliver p s) = (rx_meta s)\<lparr>rcv_nxt := esq s p\<rparr>"
  "meta_rcvq (deliver p s) = meta_rcvq s @ [p]" "rx_done (deliver p s) = rx_done s"
  by (simp_all add: deliver_def Let_def)

lemma fin_sock_unlink [simp]: "fin_sock k (unlink_ofo p s) = fin_sock k s"
  by (rule fin_sock_cong) simp_all

lemma fin_sock_deliver [simp]: "fin_sock k (deliver p s) = fin_sock k s"
  by (rule fin_sock_cong) simp_all

lemma ofo_inv_transfer:
  "ofo_inv s \<Longrightarrow> ofo s' = ofo s \<Longrightarrow> rx_conns s' = rx_conns s \<Longrightarrow> shortcut_ofoqueue s' = shortcut_ofoqueue s \<Longrightarrow>
   ofo_inv s'"
  by (simp add: ofo_inv_def shortcuts_single_def)

definition done_keeps :: "rx_kernel \<Rightarrow> bool" where
  "done_keeps k \<longleftrightarrow> (\<forall>m. rcv_nxt (tcp_done k m) = rcv_nxt m)"

lemma fin_transition_sel [simp]:
  "ofo (fin_transition k sk s) = ofo s" "rx_conns (fin_transition k sk s) = rx_conns s"
  "shortcut_ofoqueue (fin_transition k sk s) = shortcut_ofoqueue s" "rx_mpcb (fin_transition k sk s) = rx_mpcb s"
  "rxs (fin_transition k sk s) = rxs s" "meta_rcvq (fin_transition k sk s) = meta_rcvq s" "rx_done (fin_transition k sk s) = rx_done s"
  by (simp_all add: fin_transition_def mptcp_time_wait_def Let_def set_meta_state_def event_def)

lemma fin_transition_rcv_nxt [simp]:
  "done_keeps k \<Longrightarrow> rcv_nxt (rx_meta (fin_transition k sk s)) = rcv_nxt (rx_meta s)"
  by (simp add: fin_transition_def mptcp_time_wait_def Let_def set_meta_state_def event_def done_keeps_def)

lemma purge_sel [simp]:
  "rx_mpcb (mptcp_purge_ofo_queue s) = rx_mpcb s" "rx_meta (mptcp_purge_ofo_queue s) = rx_meta s"
  "rxs (mptcp_purge_ofo_queue s) = rxs s" "meta_rcvq (mptcp_purge_ofo_queue s) = meta_rcvq s" "rx_done (mptcp_purge_ofo_queue s) = rx_done s"
  by (simp_all add: mptcp_purge_ofo_queue_def)

lemma purge_inv: "ofo_inv s \<Longrightarrow> ofo_inv (mptcp_purge_ofo_queue s)"
  by (simp add: mptcp_purge_ofo_queue_def fold_unlink_inv)

lemma mptcp_fin_keeps:
  assumes "fin_sock k s \<noteq> None" and "ofo_inv s" and "done_keeps k"
  shows "\<exists>s'. mptcp_fin k s = Some s' \<and> ofo s' = [] \<and> ofo_inv s' \<and> rx_mpcb s' = rx_mpcb s \<and>
    rcv_nxt (rx_meta s') = rcv_nxt (rx_meta s) \<and> rxs s' = rxs s \<and> meta_rcvq s' = meta_rcvq s \<and> rx_done s'"
proof -
  obtain sk where sk: "fin_sock k s = Some sk" using assms(1) by blast
  let ?s2 = "mptcp_purge_ofo_queue (fin_transition k sk ((event (Schedule_Ack sk) s)\<lparr>rx_rcv_shutdown := True, rx_done := True\<rparr>))"
  have "ofo_inv (fin_transition k sk ((event (Schedule_Ack sk) s)\<lparr>rx_rcv_shutdown := True, rx_done := True\<rparr>))"
    by (rule ofo_inv_transfer [OF assms(2)]) simp_all
  then have i: "ofo_inv ?s2" by (rule purge_inv)
  have j: "ofo_inv (event e (event e' ?s2))" for e e' by (rule ofo_inv_transfer [OF i]) simp_all
  have m: "rx_mpcb ?s2 = rx_mpcb s" "rcv_nxt (rx_meta ?s2) = rcv_nxt (rx_meta s)" "ofo ?s2 = []"
    "rxs ?s2 = rxs s" "meta_rcvq ?s2 = meta_rcvq s" "rx_done ?s2"
    using assms(3) by simp_all
  show ?thesis
  proof (cases "rx_dead ?s2")
    case True
    then have "mptcp_fin k s = Some ?s2" using sk by (simp add: mptcp_fin_def Let_def)
    then show ?thesis using i m by blast
  next
    case False
    then obtain e where "mptcp_fin k s = Some (event e (event State_Change ?s2))"
      using sk by (simp add: mptcp_fin_def Let_def)
    then show ?thesis using j m by simp
  qed
qed

text \<open>Segments that continue the data from position \<open>a\<close> to position \<open>b\<close> without a gap, each with something new.\<close>

fun joins :: "u32 \<Rightarrow> (skb_ptr \<Rightarrow> rx_skb) \<Rightarrow> nat \<Rightarrow> skb_ptr list \<Rightarrow> nat \<Rightarrow> bool" where
  "joins base f a [] b \<longleftrightarrow> a = b"
| "joins base f a (p # ps) b \<longleftrightarrow> pos base (rx_seq (f p)) \<le> a \<and> a < pos base (rx_end_seq (f p)) \<and>
     joins base f (pos base (rx_end_seq (f p))) ps b"

definition data_ends :: "rx_state \<Rightarrow> skb_ptr \<Rightarrow> bool" where
  "data_ends s p \<longleftrightarrow> has (rx_tcp_flags (rxs s p)) TCPHDR_FIN"

text \<open>What is left of the queue of \<open>s\<close> once the segments \<open>del\<close> have been delivered: a front part is gone, delivered or
  with old numbers only; the rest stays and starts after the next expected number, unless the data-FIN was delivered, which is then the last and empties the queue.\<close>

definition ofo_left :: "u32 \<Rightarrow> rx_state \<Rightarrow> skb_ptr list \<Rightarrow> rx_state \<Rightarrow> bool" where
  "ofo_left base s del s' \<longleftrightarrow> (\<exists>gone rest. ofo s = gone @ rest \<and> set del \<subseteq> set gone \<and>
     (\<forall>p\<in>set gone. pos base (esq s p) \<le> pos base (rcv_nxt (rx_meta s'))) \<and>
     (if \<exists>p\<in>set del. data_ends s p
      then data_ends s (last del) \<and> (\<forall>p\<in>set (butlast del). \<not> data_ends s p) \<and> ofo s' = [] \<and> rx_done s'
      else ofo s' = rest \<and> rx_done s' = rx_done s \<and> (rest \<noteq> [] \<longrightarrow> pos base (rcv_nxt (rx_meta s')) < pos base (sq s (hd rest)))))"

text \<open>The 64-bit counter moves by \<open>n\<close>.\<close>

definition rcv64_moves :: "rx_state \<Rightarrow> nat \<Rightarrow> rx_state \<Rightarrow> bool" where
  "rcv64_moves s n s' \<longleftrightarrow> rcv_high_inv (rx_mpcb s') \<and>
     mptcp_get_rcv_nxt_64 (rx_mpcb s') (rx_meta s') = mptcp_get_rcv_nxt_64 (rx_mpcb s) (rx_meta s) + of_nat n"

definition drained :: "u32 \<Rightarrow> rx_state \<Rightarrow> skb_ptr list \<Rightarrow> rx_state \<Rightarrow> bool" where
  "drained base s del s' \<longleftrightarrow> ofo_inv s' \<and> rxs s' = rxs s \<and> meta_rcvq s' = meta_rcvq s @ del \<and>
     joins base (rxs s) (pos base (rcv_nxt (rx_meta s))) del (pos base (rcv_nxt (rx_meta s'))) \<and>
     ofo_left base s del s' \<and> rcv64_moves s (pos base (rcv_nxt (rx_meta s')) - pos base (rcv_nxt (rx_meta s))) s'"

lemma joins_le: "joins base f a ps b \<Longrightarrow> a \<le> b"
  by (induction ps arbitrary: a) fastforce+

lemma joins_cong: "(\<And>p. p \<in> set ps \<Longrightarrow> f p = g p) \<Longrightarrow> joins base f a ps b = joins base g a ps b"
  by (induction ps arbitrary: a) auto

lemma rcv64_moves_trans: "rcv64_moves s m s1 \<Longrightarrow> rcv64_moves s1 n s' \<Longrightarrow> rcv64_moves s (m + n) s'"
  by (simp add: rcv64_moves_def)

lemma rcv64_moves_0: "rcv_high_inv (rx_mpcb s) \<Longrightarrow> rx_mpcb s' = rx_mpcb s \<Longrightarrow> rcv_nxt (rx_meta s') = rcv_nxt (rx_meta s) \<Longrightarrow> rcv64_moves s 0 s'"
  by (simp add: rcv64_moves_def mptcp_get_rcv_nxt_64_def)

text \<open>How the description grows at the front: a segment with old numbers is dropped, one with new ones delivered.\<close>

lemma ofo_left_drop:
  assumes "ofo_left base s1 del s'" and "ofo s = p # ofo s1" and "rxs s1 = rxs s" and "rx_done s1 = rx_done s"
    and "pos base (esq s p) \<le> pos base (rcv_nxt (rx_meta s'))"
  shows "ofo_left base s del s'"
proof -
  have e: "esq s1 = esq s" "sq s1 = sq s" "data_ends s1 = data_ends s" using assms(3) by (simp_all add: fun_eq_iff esq_def sq_def data_ends_def)
  obtain gone rest where g: "ofo s1 = gone @ rest" "set del \<subseteq> set gone"
    "\<forall>q\<in>set gone. pos base (esq s q) \<le> pos base (rcv_nxt (rx_meta s'))"
    "if \<exists>p\<in>set del. data_ends s p
      then data_ends s (last del) \<and> (\<forall>p\<in>set (butlast del). \<not> data_ends s p) \<and> ofo s' = [] \<and> rx_done s'
      else ofo s' = rest \<and> rx_done s' = rx_done s \<and> (rest \<noteq> [] \<longrightarrow> pos base (rcv_nxt (rx_meta s')) < pos base (sq s (hd rest)))"
    using assms(1) unfolding ofo_left_def e assms(4) by (elim exE conjE)
  show ?thesis unfolding ofo_left_def
    by (rule exI [of _ "p # gone"], rule exI [of _ rest]) (use g assms(2,5) in \<open>simp add: subset_insertI2\<close>)
qed

lemma ofo_left_deliver:
  assumes "ofo_left base s1 del s'" and "ofo s = p # ofo s1" and "rxs s1 = rxs s" and "rx_done s1 = rx_done s"
    and "pos base (esq s p) \<le> pos base (rcv_nxt (rx_meta s'))" and "\<not> data_ends s p"
  shows "ofo_left base s (p # del) s'"
proof -
  have e: "esq s1 = esq s" "sq s1 = sq s" "data_ends s1 = data_ends s" using assms(3) by (simp_all add: fun_eq_iff esq_def sq_def data_ends_def)
  obtain gone rest where g: "ofo s1 = gone @ rest" "set del \<subseteq> set gone"
    "\<forall>q\<in>set gone. pos base (esq s q) \<le> pos base (rcv_nxt (rx_meta s'))"
    "if \<exists>p\<in>set del. data_ends s p
      then data_ends s (last del) \<and> (\<forall>p\<in>set (butlast del). \<not> data_ends s p) \<and> ofo s' = [] \<and> rx_done s'
      else ofo s' = rest \<and> rx_done s' = rx_done s \<and> (rest \<noteq> [] \<longrightarrow> pos base (rcv_nxt (rx_meta s')) < pos base (sq s (hd rest)))"
    using assms(1) unfolding ofo_left_def e assms(4) by (elim exE conjE)
  have "(if \<exists>p\<in>set (p # del). data_ends s p
      then data_ends s (last (p # del)) \<and> (\<forall>p\<in>set (butlast (p # del)). \<not> data_ends s p) \<and> ofo s' = [] \<and> rx_done s'
      else ofo s' = rest \<and> rx_done s' = rx_done s \<and> (rest \<noteq> [] \<longrightarrow> pos base (rcv_nxt (rx_meta s')) < pos base (sq s (hd rest))))"
    using g(4) assms(6) by (cases "del = []") (auto split: if_splits)
  moreover have "ofo s = (p # gone) @ rest" "set (p # del) \<subseteq> set (p # gone)"
    "\<forall>q\<in>set (p # gone). pos base (esq s q) \<le> pos base (rcv_nxt (rx_meta s'))"
    using g(1-3) assms(2,5) by auto
  ultimately show ?thesis unfolding ofo_left_def by blast
qed

definition window :: "u32 \<Rightarrow> rx_state \<Rightarrow> bool" where
  "window base s \<longleftrightarrow> pos base (rcv_nxt (rx_meta s)) < 2 ^ 31 \<and> (\<forall>p \<in> set (ofo s). rx_ok base (rxs s p))"

lemma pos_diff:
  assumes "pos base a \<le> pos base b"
  shows "pos base b - pos base a = unat (b - a)"
proof -
  have "b - a = (b - base) - (a - base)" by simp
  moreover have "a - base \<le> b - base" using assms by (simp add: pos_def word_le_nat_alt)
  ultimately have "unat (b - a) = unat (b - base) - unat (a - base)" by (simp only: unat_sub)
  then show ?thesis by (simp only: pos_def)
qed

lemma deliver_step:
  assumes "rcv_high_inv (rx_mpcb s)" and "pos base (rcv_nxt (rx_meta s)) \<le> pos base (esq s p)"
  shows "rcv_high_inv (rx_mpcb (deliver p s)) \<and>
    mptcp_get_rcv_nxt_64 (rx_mpcb (deliver p s)) (rx_meta (deliver p s)) =
      mptcp_get_rcv_nxt_64 (rx_mpcb s) (rx_meta s) + of_nat (pos base (esq s p) - pos base (rcv_nxt (rx_meta s)))"
proof -
  let ?inc = "esq s p - rcv_nxt (rx_meta s)"
  have "(ucast ?inc :: u64) = of_nat (unat ?inc)" by simp
  then show ?thesis
    using rcvseq_wrap_step [OF assms(1), of _ "rx_meta s" ?inc] pos_diff [OF assms(2)] 
    by (simp add: deliver_def Let_def)
qed


lemma drained_refl:
  assumes "ofo_inv s" and "rcv_high_inv (rx_mpcb s)" and "ofo s \<noteq> [] \<Longrightarrow> pos base (rcv_nxt (rx_meta s)) < pos base (sq s (hd (ofo s)))"
  shows "drained base s [] s"
proof -
  have "ofo_left base s [] s" unfolding ofo_left_def
    by (rule exI [of _ "[]"], rule exI [of _ "ofo s"]) (use assms(3) in simp)
  then show ?thesis using assms(1,2) rcv64_moves_0 [of s s] by (simp add: drained_def)
qed

lemma window_unlink: "window base s \<Longrightarrow> window base (unlink_ofo p s)"
  by (auto simp: window_def dest: notin_set_remove1 set_remove1_subset [THEN subsetD])

lemma delivers:
  assumes "ofo_inv s" and "rcv_high_inv (rx_mpcb s)" and "window base s" and "fin_sock k s \<noteq> None"
    and "done_keeps k"
  shows "\<exists>s' del. mptcp_ofo_queue k s = Some s' \<and> drained base s del s'"
  using assms
proof (induction k s rule: mptcp_ofo_queue.induct)
  case (1 k s)
  let ?n = "\<lambda>s. pos base (rcv_nxt (rx_meta s))"
  show ?case
  proof (cases "ofo s")
    case Nil
    then have "drained base s [] s" using 1(4,5) by (intro drained_refl) simp_all
    then show ?thesis using Nil by (auto simp: mptcp_ofo_queue.simps [of k s])
  next
    case (Cons p ps)
    note st = mptcp_ofo_queue.simps [of k s, unfolded Cons list.case]
    have p: "rx_ok base (rxs s p)" and r: "?n s < 2 ^ 31"
      using 1(6) Cons by (auto simp: window_def)
    have w: "pos base (sq s p) < 2 ^ 31" "pos base (esq s p) < 2 ^ 31"
      using p [THEN rx_okD] by (simp_all add: sq_def esq_def)
    let ?u = "unlink_ofo p s" and ?d = "deliver p (unlink_ofo p s)"
    consider (gap) "after (sq s p) (rcv_nxt (rx_meta s))"
      | (old) "\<not> after (sq s p) (rcv_nxt (rx_meta s))" "\<not> after (esq s p) (rcv_nxt (rx_meta s))"
      | (new) "\<not> after (sq s p) (rcv_nxt (rx_meta s))" "after (esq s p) (rcv_nxt (rx_meta s))" by blast
    then show ?thesis
    proof cases
      case gap
      then have "drained base s [] s" using 1(4,5) Cons r w by (intro drained_refl) (simp_all add: pos_after)
      then show ?thesis using st gap by auto
    next
      case old
      obtain s' del where r': "mptcp_ofo_queue k ?u = Some s'" and dr: "drained base ?u del s'"
        using 1(1) [OF Cons old] unlink_inv [OF 1(4)] window_unlink [OF 1(6)] 1(5,7,8) by auto
      have "pos base (esq s p) \<le> ?n s" using old(2) r w by (simp add: pos_after not_less)
      then have le: "pos base (esq s p) \<le> ?n s'" using dr joins_le unfolding drained_def by fastforce
      have "ofo_left base s del s'" by (rule ofo_left_drop [OF _ _ _ _ le, of ?u]) (use dr Cons in \<open>simp_all add: drained_def\<close>)
      then have "drained base s del s'" using dr by (simp add: drained_def rcv64_moves_def)
      then show ?thesis using r' st old by auto
    next
      case new
      have e: "esq ?u p = esq s p" by (simp add: esq_def)
      have le: "pos base (sq s p) \<le> ?n s" "?n s < pos base (esq s p)"
        using new r w by (simp_all add: pos_after)
      have nd: "?n ?d = pos base (esq s p)" using e by simp
      have step: "rcv_high_inv (rx_mpcb ?d)" "rcv64_moves s (pos base (esq s p) - ?n s) ?d"
        using deliver_step [of ?u base p] 1(5) le e by (simp_all add: rcv64_moves_def)
      have inv: "ofo_inv ?d" by (rule ofo_inv_transfer [OF unlink_inv [OF 1(4), of p]]) simp_all
      have win: "window base ?d" using window_unlink [OF 1(6), of p] w e by (simp add: window_def)
      have jn: "joins base (rxs s) (?n s) (p # del) b \<longleftrightarrow> joins base (rxs s) (pos base (esq s p)) del b" for del b
        using le by (simp add: sq_def esq_def)
      have onward: "drained base s (p # del) s'" if "drained base ?d del s'" "ofo_left base s (p # del) s'" for s' del
      proof -
        have d': "joins base (rxs s) (pos base (esq s p)) del (?n s')" "rcv64_moves ?d (?n s' - pos base (esq s p)) s'"
          using that(1) nd by (simp_all add: drained_def)
        have "pos base (esq s p) \<le> ?n s'" by (rule joins_le [OF d'(1)])
        then have "(pos base (esq s p) - ?n s) + (?n s' - pos base (esq s p)) = ?n s' - ?n s" using le by simp
        then have "rcv64_moves s (?n s' - ?n s) s'" using rcv64_moves_trans [OF step(2) d'(2)] by simp
        then show ?thesis using that d'(1) unfolding drained_def jn by simp
      qed
      show ?thesis
      proof (cases "has (rx_tcp_flags (rxs ?d p)) TCPHDR_FIN")
        case True
        obtain s2 where s2: "mptcp_fin k ?d = Some s2" "ofo s2 = []" "ofo_inv s2" "rx_mpcb s2 = rx_mpcb ?d"
          "rcv_nxt (rx_meta s2) = rcv_nxt (rx_meta ?d)" "rxs s2 = rxs ?d" "meta_rcvq s2 = meta_rcvq ?d" "rx_done s2"
          using mptcp_fin_keeps [of k ?d] inv 1(7,8) by auto
        have "mptcp_ofo_queue k s = Some s2" using st new True s2(1,2)
          by (simp add: mptcp_ofo_queue.simps [of k s2] Let_def)
        moreover have "ofo_left base s [p] s2" unfolding ofo_left_def
          by (rule exI [of _ "[p]"], rule exI [of _ ps]) (use True s2 Cons e in \<open>simp add: data_ends_def\<close>)
        moreover have "rcv64_moves s (?n s2 - ?n s) s2"
          using rcv64_moves_trans [OF step(2) rcv64_moves_0 [OF step(1) s2(4,5)]] s2(5) nd by simp
        ultimately have "mptcp_ofo_queue k s = Some s2 \<and> drained base s [p] s2"
          using s2 nd unfolding drained_def jn by simp
        then show ?thesis by blast
      next
        case False
        obtain s' del where r': "mptcp_ofo_queue k ?d = Some s'" and dr: "drained base ?d del s'"
          using 1(3) [OF Cons new(1) _ refl False] new(2) inv step(1) win 1(7,8) by auto
        have "pos base (esq s p) \<le> ?n s'" using dr joins_le nd unfolding drained_def by metis
        then have "ofo_left base s (p # del) s'"
          by (rule ofo_left_deliver [rotated 4, where ?s1.0 = ?d]) (use dr Cons False in \<open>simp_all add: drained_def data_ends_def\<close>)
        then show ?thesis using onward [OF dr] r' st new False by (auto simp: Let_def)
      qed
    qed
  qed
qed


section \<open>Properties\<close>

text \<open>C25. Adding a received segment to the out-of-order queue returns, the numbers of the segment are all
  held afterwards (by the segment, by one it was merged into, or by one that already had them), and no
  subflow is left with a shortcut to a segment that is not in the queue.\<close>

theorem mptcp_add_meta_ofo_queue_safe:
  assumes "ofo_inv s" and "skb \<notin> set (ofo s)" and "sk \<in> set (rx_conns s)"
    and "\<forall>p \<in> insert skb (set (ofo s)). rx_ok base (rxs s p)" and "merges k"
  shows "\<exists>s'. mptcp_add_meta_ofo_queue k skb sk s = Some s' \<and> ofo_inv s' \<and>
    rx_bytes base (rxs s skb) \<subseteq> held base s'"
  using add_settled [of base skb s k sk] assms by (simp add: all_ok_def)

text \<open>C26. Delivery from the out-of-order queue, with the data-FIN, returns.  The segments it puts behind the receive queue come from the front of the
  out-of-order queue and continue the data from the next expected number on without a gap, each with something new; the counter ends where the last one ends, and its
  64-bit value advances by as much.  What leaves the queue without being delivered has no new number.  All
  segments behind stay, and the first of them starts after the next expected number, unless the data-FIN was delivered: it
  is then the last one delivered, the reception is over and the queue is empty.\<close>

theorem mptcp_ofo_queue_delivers:
  assumes "ofo_inv s" and "rcv_high_inv (rx_mpcb s)" and "window base s" and "fin_sock k s \<noteq> None"
    and "done_keeps k"
  shows "\<exists>s' del. mptcp_ofo_queue k s = Some s' \<and> drained base s del s'"
  using assms by (rule delivers)

section \<open>Closed instances\<close>

definition rx_seg :: "u32 \<Rightarrow> u32 \<Rightarrow> rx_skb" where
  "rx_seg a b = \<lparr>rx_seq = a, rx_end_seq = b, rx_len = b - a, rx_flags = 0, rx_tcp_flags = 0, rx_dss = []\<rparr>"

definition sample_rx_kernel :: rx_kernel where
  "sample_rx_kernel = \<lparr>tcp_try_coalesce = (\<lambda>a b. None), keepalive_time_elapsed = (\<lambda>_. 0),
     tcp_done = (\<lambda>m. m\<lparr>sk_state := TCP_CLOSE, send_shutdown := True\<rparr>)\<rparr>"

definition sample_rx_state :: "(skb_ptr \<Rightarrow> rx_skb) \<Rightarrow> skb_ptr list \<Rightarrow> (sk_ptr \<Rightarrow> skb_ptr option) \<Rightarrow> u32 \<Rightarrow> rx_state" where
  "sample_rx_state segs q sc n = \<lparr>rxs = segs, ofo = q, shortcut_ofoqueue = sc, meta_rcvq = [], rx_conns = [1, 2],
     rx_socks = (\<lambda>sk. sample_sock\<lparr>path_index := of_nat sk\<rparr>), rx_meta = sample_sock\<lparr>rcv_nxt := n\<rparr>,
     rx_mpcb = sample_mpcb, dfin_path_index = 1, rx_rcv_shutdown = False, rx_done = False, rx_dead = False,
     in_time_wait = False, mptw_state = TCP_ESTABLISHED, tw_list = [], rx_events = []\<rparr>"

definition three_segs :: "skb_ptr \<Rightarrow> rx_skb" where
  "three_segs p = (if p = 1 then rx_seg 10 20 else if p = 2 then rx_seg 40 50 else rx_seg 20 30)"

definition sample_ofo :: rx_state where
  "sample_ofo = sample_rx_state three_segs [1, 2] (\<lambda>sk. if sk = 1 then Some 2 else None) 10"

lemma sample_ofo_ok:
  "ofo_inv sample_ofo" "window 0 sample_ofo" "rx_ok 0 (rxs sample_ofo 3)" "merges sample_rx_kernel"
  "rcv_high_inv (rx_mpcb sample_ofo)" "fin_sock sample_rx_kernel sample_ofo \<noteq> None"
  "done_keeps sample_rx_kernel"
  by (simp_all add: sample_ofo_def sample_rx_state_def ofo_inv_def shortcuts_single_def window_def rx_ok_def pos_def
      three_segs_def rx_seg_def merges_def sample_rx_kernel_def done_keeps_def rcv_high_inv_def sample_mpcb_def fin_sock_def
      sample_sock_def)

theorem mptcp_add_meta_ofo_queue_safe_witness:
  "\<exists>s'. mptcp_add_meta_ofo_queue sample_rx_kernel 3 2 sample_ofo = Some s' \<and> ofo_inv s' \<and> {20..<30} \<subseteq> held 0 s'"
proof -
  have "\<forall>p \<in> insert 3 (set (ofo sample_ofo)). rx_ok 0 (rxs sample_ofo p)"
    using sample_ofo_ok(2,3) by (simp add: window_def)
  moreover have "3 \<notin> set (ofo sample_ofo)" "2 \<in> set (rx_conns sample_ofo)"
    "rx_bytes 0 (rxs sample_ofo 3) = {20..<30}"
    by (simp_all add: sample_ofo_def sample_rx_state_def rx_bytes_def three_segs_def rx_seg_def pos_def)
  ultimately show ?thesis
    using mptcp_add_meta_ofo_queue_safe [OF sample_ofo_ok(1), of 3 2 0 sample_rx_kernel] sample_ofo_ok(4) by simp
qed

theorem mptcp_ofo_queue_delivers_witness:
  "\<exists>s' del. mptcp_ofo_queue sample_rx_kernel sample_ofo = Some s' \<and> drained 0 sample_ofo del s'"
  by (rule mptcp_ofo_queue_delivers [OF sample_ofo_ok(1,5,2,6,7)])

text \<open>A segment behind the new one is removed although the new one does not cover it: the numbers 40 to 49
  are held before and not after.\<close>

definition covered_segs :: "skb_ptr \<Rightarrow> rx_skb" where
  "covered_segs p = (if p = 1 then rx_seg 10 20 else if p = 2 then rx_seg 30 50 else rx_seg 25 40)"

lemma clean_behind_drops_partly_covered:
  defines "s \<equiv> sample_rx_state covered_segs [1, 2] (\<lambda>_. None) 0"
  shows "45 \<in> held 0 s" and
    "\<exists>s'. mptcp_add_meta_ofo_queue sample_rx_kernel 3 1 s = Some s' \<and> 45 \<notin> held 0 s'"
  by (simp_all add: s_def sample_rx_state_def held_def rx_bytes_def covered_segs_def rx_seg_def pos_def
      mptcp_add_meta_ofo_queue_def try_shortcut_def find_place_def place_from_def back_from_def sq_def esq_def
      after_def before_def insert_behind_def clean_behind_def queue_after_def unlink_ofo_def mptcp_remove_shortcuts_def)

text \<open>The shortcut places a segment that continues another one without looking at the next: behind an
  overlap the queue is no longer in the order of the sequence numbers.\<close>

definition overlapping_segs :: "skb_ptr \<Rightarrow> rx_skb" where
  "overlapping_segs p = (if p = 1 then rx_seg 0 10 else if p = 2 then rx_seg 5 20 else rx_seg 10 15)"

lemma shortcut_breaks_order:
  defines "s \<equiv> sample_rx_state overlapping_segs [1, 2] (\<lambda>sk. if sk = 1 then Some 1 else None) 0"
  shows "map (\<lambda>p. unat (sq s p)) (ofo s) = [0, 5]" and
    "map_option (\<lambda>s'. map (\<lambda>p. unat (sq s' p)) (ofo s')) (mptcp_add_meta_ofo_queue sample_rx_kernel 3 1 s) = Some [0, 10, 5]"
  by (simp_all add: s_def sample_rx_state_def sq_def esq_def overlapping_segs_def rx_seg_def before_def
      mptcp_add_meta_ofo_queue_def try_shortcut_def mptcp_ofo_queue_after_def sample_rx_kernel_def queue_after_def
      fitted_def)

section \<open>The subflow for acknowledgements\<close>

definition ack_able :: "rx_state \<Rightarrow> sk_ptr \<Rightarrow> bool" where
  "ack_able s sk \<longleftrightarrow> mptcp_sk_can_send_ack (rx_socks s sk) \<and> \<not> pf (rx_socks s sk)"

definition recent :: "rx_kernel \<Rightarrow> rx_state \<Rightarrow> sk_ptr \<Rightarrow> bool" where
  "recent k s sk \<longleftrightarrow> keepalive_time_elapsed k sk < icsk_rto (rx_meta s)"

text \<open>After the walk over \<open>xs\<close>, when every subflow that was measured has a round-trip time.\<close>

definition picked ::
  "rx_kernel \<Rightarrow> rx_state \<Rightarrow> sk_ptr list \<Rightarrow> sk_ptr option \<times> u32 \<times> sk_ptr option \<times> u32 \<Rightarrow> bool" where
  "picked k s xs p \<longleftrightarrow>
     (case p of (r, m, ls, l) \<Rightarrow>
        (\<forall>x\<in>set xs. ack_able s x \<and> recent k s x \<longrightarrow> r \<noteq> None \<and> m \<le> srtt_us (rx_socks s x)) \<and>
        (case r of None \<Rightarrow> m = 0 | Some y \<Rightarrow> y \<in> set xs \<and> ack_able s y \<and> recent k s y \<and> m = srtt_us (rx_socks s y)) \<and>
        (\<forall>x\<in>set xs. ack_able s x \<longrightarrow> r \<noteq> None \<or> ls \<noteq> None) \<and>
        (case ls of None \<Rightarrow> l = 0 | Some y \<Rightarrow> y \<in> set xs \<and> ack_able s y \<and> l = keepalive_time_elapsed k y))"

lemma ack_sock_picks:
  assumes "\<forall>x\<in>set (sk # xs). srtt_us (rx_socks s x) \<noteq> 0" and "icsk_rto (rx_meta s) \<noteq> 0" and "picked k s xs p"
  shows "picked k s (sk # xs) (ack_sock_step k s sk p)"
proof -
  obtain r m ls l where p: "p = (r, m, ls, l)" by (metis prod.exhaust)
  show ?thesis
  proof (cases "ack_able s sk \<and> recent k s sk")
    case True
    have z: "m = 0 \<longleftrightarrow> r = None" using assms(1,3) by (auto simp: picked_def p split: option.splits)
    show ?thesis using True assms z
      by (auto simp: picked_def ack_sock_step_def p ack_able_def recent_def Let_def split: option.splits)
  next
    case False
    have e: "\<not> recent k s sk \<Longrightarrow> keepalive_time_elapsed k sk \<noteq> 0" using assms(2) by (auto simp: recent_def not_less)
    show ?thesis using False assms e
      by (auto simp: picked_def ack_sock_step_def p ack_able_def recent_def Let_def split: option.splits)
  qed
qed

lemma ack_sock_fold:
  assumes "\<forall>x\<in>set ys. srtt_us (rx_socks s x) \<noteq> 0" and "\<forall>x\<in>set xs. srtt_us (rx_socks s x) \<noteq> 0" and "icsk_rto (rx_meta s) \<noteq> 0"
    and "picked k s ys p"
  shows "picked k s (rev xs @ ys) (fold (ack_sock_step k s) xs p)"
  using assms
proof (induction xs arbitrary: ys p)
  case (Cons x xs)
  have "picked k s (x # ys) (ack_sock_step k s x p)" using Cons.prems by (intro ack_sock_picks) auto
  from Cons.IH [OF _ _ Cons.prems(3) this] Cons.prems show ?case by simp
qed simp

text \<open>When no subflow can send an acknowledgement, there is none; otherwise it is one that can and has not failed,
  and among those that were active within the retransmission time-out of the connection it has the
  smallest round-trip time.  The round-trip times must have been measured.\<close>

lemma mptcp_select_ack_sock_best:
  assumes "\<forall>x\<in>set (rx_conns s). srtt_us (rx_socks s x) \<noteq> 0" and "icsk_rto (rx_meta s) \<noteq> 0"
  shows "case mptcp_select_ack_sock k s of
      None \<Rightarrow> \<not> (\<exists>x\<in>set (rx_conns s). ack_able s x)
    | Some sk \<Rightarrow> sk \<in> set (rx_conns s) \<and> ack_able s sk \<and>
        (\<forall>x\<in>set (rx_conns s). ack_able s x \<and> recent k s x \<longrightarrow>
           recent k s sk \<and> srtt_us (rx_socks s sk) \<le> srtt_us (rx_socks s x))"
proof -
  obtain r m ls l where f: "fold (ack_sock_step k s) (rx_conns s) (None, 0, None, 0) = (r, m, ls, l)"
    by (metis prod.exhaust)
  have "picked k s [] (None, 0, None, 0)" by (simp add: picked_def)
  then have "picked k s (rev (rx_conns s) @ []) (r, m, ls, l)"
    using ack_sock_fold [of "[]" s "rx_conns s" k "(None, 0, None, 0)"] assms by (simp add: f)
  then show ?thesis
    by (cases r; cases ls) (auto simp: mptcp_select_ack_sock_def f picked_def)
qed

text \<open>A subflow without a measured round-trip time makes the walk forget the smallest one.\<close>

lemma select_ack_forgets_minimum:
  "mptcp_select_ack_sock sample_rx_kernel (sample_rx_state three_segs [] (\<lambda>_. None) 0
     \<lparr>rx_conns := [1, 2, 3], rx_socks := (\<lambda>sk. sample_sock\<lparr>srtt_us := if sk = 1 then 10 else if sk = 2 then 0 else 50\<rparr>)\<rparr>) = Some 3"
  by (simp add: mptcp_select_ack_sock_def ack_sock_step_def sample_rx_state_def sample_rx_kernel_def sample_sock_def
      mptcp_sk_can_send_ack_def)

end
