(* ===== verification/Data_Input.thy ===== *)
theory Data_Input
  imports Red_Lowpass Ofo_Queue Data_Output
begin

text \<open>
  From the receive queue of a subflow to the connection (\<open>net/mptcp/mptcp_input.c\<close>): the DSS mapping that
  tells where the numbers of the subflow lie in the data sequence, the trimming of segments to the
  mapping, the checksum, and the move of a complete mapping to the receive queue or the out-of-order queue.

  The verdicts of the functions are datatypes in place of the C codes; \<open>None\<close> is the access through a null
  pointer or behind the end of an array.
\<close>

section \<open>State\<close>

text \<open>The fields of a subflow for reception (\<open>struct mptcp_tcp_sock\<close>).\<close>

record sub_map =
  map_data_seq :: u64
  map_subseq :: u32
  map_data_len :: u16
  map_data_fin :: bool
  mapping_present :: bool
  send_mp_fail :: bool
  copied_seq :: u32
  rcv_isn :: u32
  init_rcv_wnd :: int
  sub_rcv_shutdown :: bool
  close_it :: bool

text \<open>\<open>ticks\<close> counts the readings of the clock, \<open>data_queued\<close> is the local variable of \<open>mptcp_queue_skb\<close>.
  The receiving process: is it the current one, does it own the meta socket, and its buffer.\<close>

record ucopy =
  ucopy_current :: bool
  ucopy_owned :: bool
  ucopy_len :: u32

record in_state =
  mrx :: rx_state
  sub :: sub_map
  subq :: "skb_ptr list"
  meta_copied_seq :: u32
  rcv_wup :: u32
  csum_cutoff_seq :: u64
  reader :: ucopy
  lowpass :: lowpass_state
  pm_established :: bool
  ticks :: nat
  data_queued :: bool

text \<open>
  The kernel: allocation of a buffer, the window of the connection, checksums over a segment and over
  bytes, the first byte of a segment and the offset of the mapping in it, the copy to the reader,
  the queueing of a segment for the reader, the clock at its n-th reading, and the variables of the filter.
\<close>

record in_kernel =
  rxk :: rx_kernel
  alloc_skb :: "in_state \<Rightarrow> skb_ptr option"
  tcp_receive_window :: "in_state \<Rightarrow> u32"
  skb_checksum :: "rx_skb \<Rightarrow> int \<Rightarrow> u32 \<Rightarrow> u32 \<Rightarrow> u32"
  csum_partial :: "u8 list \<Rightarrow> u32 \<Rightarrow> u32"
  csum_fold :: "u32 \<Rightarrow> u16"
  first_byte :: "rx_skb \<Rightarrow> u8"
  dss_offset :: "rx_skb \<Rightarrow> int"
  skb_copy_ok :: "in_state \<Rightarrow> skb_ptr \<Rightarrow> bool"
  tcp_queue_rcv :: "skb_ptr \<Rightarrow> rx_state \<Rightarrow> rx_state"
  ktime_get :: "nat \<Rightarrow> ktime"
  lp_sysctls :: lowpass_sysctls

datatype verdict = Go_On | Broken | Dropped

definition rx_data_seq :: "rx_skb \<Rightarrow> bool" where "rx_data_seq skb = has (rx_flags skb) MPTCPHDR_SEQ"
definition rx_data_fin :: "rx_skb \<Rightarrow> bool" where "rx_data_fin skb = has (rx_flags skb) MPTCPHDR_FIN"
definition rx_fin :: "rx_skb \<Rightarrow> bool" where "rx_fin skb = has (rx_tcp_flags skb) TCPHDR_FIN"

definition seg_of :: "in_state \<Rightarrow> skb_ptr \<Rightarrow> rx_skb" where "seg_of s p = rxs (mrx s) p"

definition set_seg :: "skb_ptr \<Rightarrow> rx_skb \<Rightarrow> in_state \<Rightarrow> in_state" where
  "set_seg p x s = s\<lparr>mrx := (mrx s)\<lparr>rxs := (rxs (mrx s))(p := x)\<rparr>\<rparr>"

definition emit :: "rx_event \<Rightarrow> in_state \<Rightarrow> in_state" where
  "emit e s = s\<lparr>mrx := event e (mrx s)\<rparr>"

definition upd_mpcb :: "(mptcp_cb \<Rightarrow> mptcp_cb) \<Rightarrow> in_state \<Rightarrow> in_state" where
  "upd_mpcb f s = s\<lparr>mrx := (mrx s)\<lparr>rx_mpcb := f (rx_mpcb (mrx s))\<rparr>\<rparr>"

definition upd_sub :: "(sub_map \<Rightarrow> sub_map) \<Rightarrow> in_state \<Rightarrow> in_state" where
  "upd_sub f s = s\<lparr>sub := f (sub s)\<rparr>"

definition tp_of :: "sk_ptr \<Rightarrow> in_state \<Rightarrow> tcp_sock" where
  "tp_of sk s = rx_socks (mrx s) sk"

definition upd_tp :: "sk_ptr \<Rightarrow> (tcp_sock \<Rightarrow> tcp_sock) \<Rightarrow> in_state \<Rightarrow> in_state" where
  "upd_tp sk f s = s\<lparr>mrx := (mrx s)\<lparr>rx_socks := (rx_socks (mrx s))(sk := f (rx_socks (mrx s) sk))\<rparr>\<rparr>"

text \<open>A segment leaves the receive queue of the subflow, which has then read up to its end.\<close>

definition consume :: "skb_ptr \<Rightarrow> in_state \<Rightarrow> in_state" where
  "consume p s = s\<lparr>sub := (sub s)\<lparr>copied_seq := rx_end_seq (seg_of s p)\<rparr>, subq := remove1 p (subq s)\<rparr>"

definition mptcp_sub_force_close_all :: "sk_ptr \<Rightarrow> in_state \<Rightarrow> in_state" where
  "mptcp_sub_force_close_all sk s =
     fold (\<lambda>it s. emit (Send_Reset it) s) (filter (\<lambda>it. it \<noteq> sk) (rx_conns (mrx s))) s"

section \<open>Checks before the mapping\<close>

definition mptcp_become_fully_estab :: "sk_ptr \<Rightarrow> in_state \<Rightarrow> in_state" where
  "mptcp_become_fully_estab sk s =
     (let s' = upd_tp sk (\<lambda>tp. tp\<lparr>fully_established := True\<rparr>) s
      in if is_master_tp (tp_of sk s) then s'\<lparr>pm_established := True\<rparr> else s')"

text \<open>The fall-back to an infinite mapping, without a signal to the peer.\<close>

definition fall_back :: "sk_ptr \<Rightarrow> in_state \<Rightarrow> in_state" where
  "fall_back sk s =
     (let n = mptcp_get_rcv_nxt_64 (rx_mpcb (mrx s)) (rx_meta (mrx s));
          s1 = upd_mpcb (\<lambda>m. m\<lparr>infinite_mapping_snd := True, infinite_mapping_rcv := True, infinite_rcv_seq := n\<rparr>) s;
          s2 = mptcp_sub_force_close_all sk s1
      in upd_tp sk (\<lambda>tp. tp\<lparr>fully_established := True\<rparr>) (upd_mpcb (\<lambda>m. m\<lparr>send_infinite_mapping := False\<rparr>) s2))"

definition mptcp_prevalidate_skb :: "sk_ptr \<Rightarrow> skb_ptr \<Rightarrow> in_state \<Rightarrow> verdict \<times> in_state" where
  "mptcp_prevalidate_skb sk p s =
     (let skb = seg_of s p; infinite = infinite_mapping_rcv (rx_mpcb (mrx s));
          unmapped = (\<not> fully_established (tp_of sk s) \<and> \<not> rx_data_seq skb \<and> \<not> mapping_present (sub s) \<and> \<not> infinite)
      in if rx_len skb = 0 \<and> rx_fin skb \<and> \<not> rx_data_fin skb \<and> \<not> infinite then (Dropped, consume p s)
         else if unmapped \<and> \<not> is_master_tp (tp_of sk s) then (Broken, emit (Send_Reset sk) s)
         else
           let s1 = (if unmapped then fall_back sk s else s)
           in if fully_established (tp_of sk s1) then (Go_On, s1)
              else let wnd = s32 (init_rcv_wnd (sub s1) - uint (rx_len skb));
                       s2 = upd_sub (\<lambda>m. m\<lparr>init_rcv_wnd := wnd\<rparr>) s1
                   in (Go_On, if wnd < 0 then mptcp_become_fully_estab sk s2 else s2))"


section \<open>The mapping of a segment\<close>

text \<open>In infinite mode the mapping follows from what is expected next.\<close>

definition infinite_map :: "in_state \<Rightarrow> rx_skb \<Rightarrow> sub_map \<Rightarrow> sub_map" where
  "infinite_map s skb m = m\<lparr>map_data_seq := infinite_rcv_seq (rx_mpcb (mrx s)) - ucast (copied_seq m - rx_seq skb),
     map_subseq := rx_seq skb, map_data_len := ucast (rx_len skb), map_data_fin := rx_fin skb, mapping_present := True\<rparr>"

definition map_matches :: "rx_skb \<Rightarrow> u32 \<Rightarrow> u32 \<Rightarrow> u32 \<Rightarrow> sub_map \<Rightarrow> bool" where
  "map_matches skb data_seq sub_seq data_len m \<longleftrightarrow> data_seq = ucast (map_data_seq m) \<and> sub_seq = map_subseq m \<and>
     data_len = ucast (map_data_len m) + of_bool (map_data_fin m) \<and> rx_data_fin skb = map_data_fin m"

text \<open>The end of a segment without its subflow-FIN.\<close>

definition tcp_end :: "rx_skb \<Rightarrow> u32" where
  "tcp_end skb = (if rx_fin skb then rx_end_seq skb - 1 else rx_end_seq skb)"

definition outside_map :: "rx_skb \<Rightarrow> u32 \<Rightarrow> u32 \<Rightarrow> bool" where
  "outside_map skb sub_seq data_len \<longleftrightarrow>
     (\<not> before sub_seq (rx_end_seq skb) \<and> after (tcp_end skb) (rx_seq skb)) \<or>
     (rx_data_fin skb \<and> rx_len skb = 0 \<and> after sub_seq (rx_end_seq skb)) \<or>
     (\<not> after (sub_seq + data_len) (rx_seq skb) \<and> after (tcp_end skb) (rx_seq skb))"

text \<open>The 64-bit data sequence number; one outside the two high-order words is made invalid.\<close>

definition map_seq64 :: "rx_skb \<Rightarrow> u32 \<Rightarrow> tcp_sock \<Rightarrow> mptcp_cb \<Rightarrow> u64" where
  "map_seq64 skb data_seq meta_tp mpcb =
     (if \<not> has (rx_flags skb) MPTCPHDR_SEQ64_SET
      then mptcp_get_data_seq_64 mpcb
             (if after data_seq (rcv_nxt meta_tp) \<and> data_seq < rcv_nxt meta_tp then \<not> rcv_hiseq_index mpcb
              else rcv_hiseq_index mpcb) data_seq
      else let n = mptcp_get_data_seq_64 mpcb (has (rx_flags skb) MPTCPHDR_SEQ64_INDEX) data_seq
           in if has (rx_flags skb) MPTCPHDR_SEQ64_OFO then n + 0xFFFFFFFF + 0xFFFFFFFF else n)"

text \<open>The announcement of an infinite mapping.\<close>

definition enter_infinite :: "sk_ptr \<Rightarrow> in_state \<Rightarrow> in_state" where
  "enter_infinite sk s =
     (let s1 = upd_mpcb (\<lambda>m. m\<lparr>infinite_mapping_rcv := True, send_infinite_mapping := True\<rparr>) s;
          s2 = upd_sub (\<lambda>m. m\<lparr>send_mp_fail := False\<rparr>) (upd_tp sk (\<lambda>tp. tp\<lparr>fully_established := True\<rparr>) s1);
          s3 = mptcp_sub_force_close_all sk s2
      in s3\<lparr>mrx := mptcp_purge_ofo_queue (mrx s3)\<rparr>)"

text \<open>A new mapping, \<open>data_len\<close> as in the option.\<close>

definition set_mapping :: "sk_ptr \<Rightarrow> skb_ptr \<Rightarrow> u32 \<Rightarrow> u32 \<Rightarrow> u32 \<Rightarrow> in_state \<Rightarrow> verdict \<times> in_state" where
  "set_mapping sk p data_seq sub_seq data_len s =
     (let skb = seg_of s p; infinite = (data_len = 0);
          (len, start, s1) = (if infinite then (rx_len skb + of_bool (rx_data_fin skb), rx_seq skb, enter_infinite sk s)
                              else (data_len, sub_seq, s));
          len' = (if rx_data_fin skb then len - 1 else len)
      in if send_mp_fail (sub s1) then (Dropped, consume p s1)
         else if outside_map skb start len' then (Broken, emit (Send_Reset sk) s1)
         else
           let n = map_seq64 skb data_seq (rx_meta (mrx s1)) (rx_mpcb (mrx s1));
               s2 = (if infinite then upd_mpcb (\<lambda>m. m\<lparr>infinite_rcv_seq := n\<rparr>) s1 else s1)
           in (Go_On, upd_sub (\<lambda>m. m\<lparr>map_data_seq := n, map_data_len := ucast len', map_subseq := start,
                                     map_data_fin := rx_data_fin skb, mapping_present := True\<rparr>) s2))"

definition mptcp_detect_mapping :: "sk_ptr \<Rightarrow> skb_ptr \<Rightarrow> in_state \<Rightarrow> verdict \<times> in_state" where
  "mptcp_detect_mapping sk p s =
     (let skb = seg_of s p
      in if infinite_mapping_rcv (rx_mpcb (mrx s)) then (Go_On, upd_sub (infinite_map s skb) s)
         else if \<not> rx_data_seq skb
         then (if \<not> mapping_present (sub s) \<and> rcv_nxt (tp_of sk s) - copied_seq (sub s) > 65536
               then (Broken, emit (Send_Reset sk) s) else (Go_On, s))
         else case mptcp_skb_set_data_seq (Some (rx_mpcb (mrx s))) skb of (data_seq, words, skb') \<Rightarrow>
           let s1 = set_seg p skb' s;
               sub_seq = (if rx_data_fin skb \<and> rx_len skb = 0 then rx_seq skb else words ! 0 + rcv_isn (sub s));
               data_len = drop_bit 16 (words ! 1)
           in if mapping_present (sub s)
              then (if map_matches skb data_seq sub_seq data_len (sub s) then (Go_On, s1) else (Broken, emit (Send_Reset sk) s1))
              else set_mapping sk p data_seq sub_seq data_len s1)"

section \<open>Fitting the segments to the mapping\<close>

definition map_end :: "sub_map \<Rightarrow> u32" where
  "map_end m = map_subseq m + ucast (map_data_len m)"

definition mptcp_skb_trim_head :: "rx_skb \<Rightarrow> u32 \<Rightarrow> rx_skb" where
  "mptcp_skb_trim_head skb seq = (let len = seq - rx_seq skb
     in skb\<lparr>rx_seq := rx_seq skb + len, rx_len := rx_len skb - len\<rparr>)"

text \<open>The second half is put behind the first in the receive queue; it has no options.\<close>

definition mptcp_skb_split_tail :: "in_kernel \<Rightarrow> skb_ptr \<Rightarrow> u32 \<Rightarrow> in_state \<Rightarrow> in_state option" where
  "mptcp_skb_split_tail k p seq s =
     (case alloc_skb k s of
        None \<Rightarrow> None
      | Some b \<Rightarrow>
         let skb = seg_of s p; len = seq - rx_seq skb;
             half = \<lparr>rx_seq = rx_seq skb + len, rx_end_seq = rx_end_seq skb, rx_len = rx_len skb - len,
                     rx_flags = 0, rx_tcp_flags = rx_tcp_flags skb, rx_dss = []\<rparr>;
             first = skb\<lparr>rx_end_seq := rx_seq half, rx_len := len, rx_tcp_flags := clrf (rx_tcp_flags skb) TCPHDR_FIN\<rparr>
         in Some (set_seg b half (set_seg p first (s\<lparr>subq := queue_after (subq s) p b\<rparr>))))"

definition purge_old :: "in_state \<Rightarrow> in_state" where
  "purge_old s = fold consume (takeWhile (\<lambda>p. before (rx_seq (seg_of s p)) (map_subseq (sub s))) (subq s)) s"

text \<open>The second component is the null pointer of an empty queue.\<close>

definition mptcp_validate_mapping :: "in_kernel \<Rightarrow> skb_ptr \<Rightarrow> in_state \<Rightarrow> (verdict \<times> in_state) option" where
  "mptcp_validate_mapping k p s =
     (if \<not> mapping_present (sub s) then Some (Go_On, s)
      else case subq s of
        [] \<Rightarrow> None
      | h # _ \<Rightarrow>
         let m = sub s; tmp = seg_of s h;
             s1 = (if before (rx_seq tmp) (map_subseq m) \<and> after (rx_end_seq tmp) (map_subseq m)
                   then set_seg h (mptcp_skb_trim_head tmp (map_subseq m)) s else s)
         in if after (tcp_end (seg_of s1 p)) (map_end m)
            then (case mptcp_skb_split_tail k p (map_end m) s1 of
                    None \<Rightarrow> Some (Dropped, consume p s1) | Some s2 \<Rightarrow> Some (Go_On, purge_old s2))
            else Some (Go_On, purge_old s1))"

section \<open>The window of the connection\<close>

definition mptcp_sequence :: "in_kernel \<Rightarrow> in_state \<Rightarrow> u64 \<Rightarrow> u64 \<Rightarrow> bool" where
  "mptcp_sequence k s data_seq end_data_seq \<longleftrightarrow>
     (let mpcb = rx_mpcb (mrx s); meta_tp = rx_meta (mrx s); i = rcv_hiseq_index mpcb;
          rcv_wup64 = (if rcv_wup s > rcv_nxt meta_tp then seq64 (rcv_high_order mpcb i - 1) (rcv_wup s)
                       else mptcp_get_data_seq_64 mpcb i (rcv_wup s))
      in \<not> before64 end_data_seq rcv_wup64 \<and>
         \<not> after64 data_seq (mptcp_get_rcv_nxt_64 mpcb meta_tp + ucast (tcp_receive_window k s)))"


section \<open>The checksum\<close>

definition MPTCP_SUB_LEN_SEQ_CSUM :: u32 where "MPTCP_SUB_LEN_SEQ_CSUM = 12"

text \<open>One segment: the sum, is its length odd, and has a mapping been added.\<close>

definition csum_segment :: "in_kernel \<Rightarrow> sub_map \<Rightarrow> rx_skb \<Rightarrow> u32 \<times> bool \<times> bool \<Rightarrow> u32 \<times> bool \<times> bool" where
  "csum_segment k m skb = (\<lambda>(csum, overflowed, added).
     let len0 = (if before (map_end m) (rx_end_seq skb) then map_end m - rx_seq skb else rx_len skb);
         csum1 = (if overflowed then csum_partial k [0, 0, 0, first_byte k skb] csum else csum);
         len = (if overflowed then len0 - 1 else len0);
         csum2 = skb_checksum k skb (if overflowed then 1 else 0) len csum1;
         off = dss_offset k skb + (if has (rx_flags skb) MPTCPHDR_SEQ64_SET then 4 else 0)
     in (if rx_data_seq skb \<and> \<not> added
         then csum_partial k (be32 (ucast (drop_bit 32 (map_data_seq m))))
                (skb_checksum k skb off MPTCP_SUB_LEN_SEQ_CSUM csum2)
         else csum2,
         bit len 0, added \<or> rx_data_seq skb))"

fun csum_walk :: "in_kernel \<Rightarrow> in_state \<Rightarrow> skb_ptr list \<Rightarrow> u32 \<times> bool \<times> bool \<Rightarrow> u32 \<times> bool \<times> bool" where
  "csum_walk k s [] a = a"
| "csum_walk k s (p # ps) a =
     (let a' = csum_segment k (sub s) (seg_of s p) a
      in case ps of [] \<Rightarrow> a'
         | q # _ \<Rightarrow> if \<not> before (rx_seq (seg_of s q)) (map_end (sub s)) then a' else csum_walk k s ps a')"

text \<open>The result is the C code: 1, or -1 with a reset, or 0 for the last subflow.\<close>

definition mptcp_verif_dss_csum :: "in_kernel \<Rightarrow> sk_ptr \<Rightarrow> in_state \<Rightarrow> int \<times> in_state" where
  "mptcp_verif_dss_csum k sk s =
     (if csum_fold k (fst (csum_walk k s (subq s) (0, False, False))) = 0 then (1, s)
      else
        let s1 = (upd_sub (\<lambda>m. m\<lparr>send_mp_fail := True\<rparr>) s)\<lparr>csum_cutoff_seq := map_data_seq (sub s)\<rparr>
        in if cnt_subflows (rx_mpcb (mrx s)) > 1 then (-1, emit (Send_Reset sk) s1)
           else (0, fold consume (subq s1) (upd_mpcb (\<lambda>m. m\<lparr>send_infinite_mapping := True\<rparr>) s1)))"

section \<open>Moving a mapping to the connection\<close>

definition mptcp_prepare_skb :: "sub_map \<Rightarrow> rx_skb \<Rightarrow> rx_skb" where
  "mptcp_prepare_skb m skb =
     (let fin = (map_data_fin m \<and> tcp_end skb = map_end m);
          seq = ucast (map_data_seq m) + rx_seq skb - map_subseq m
      in skb\<lparr>rx_tcp_flags := (if fin then setf (rx_tcp_flags skb) TCPHDR_FIN else clrf (rx_tcp_flags skb) TCPHDR_FIN),
             rx_seq := seq, rx_end_seq := seq + rx_len skb + of_bool fin\<rparr>)"

definition mptcp_reset_mapping :: "u32 \<Rightarrow> in_state \<Rightarrow> in_state" where
  "mptcp_reset_mapping old_copied_seq s =
     (let s1 = upd_sub (\<lambda>m. m\<lparr>map_data_len := 0, map_data_seq := 0, map_subseq := 0, map_data_fin := False,
                             mapping_present := False\<rparr>) s
      in if infinite_mapping_rcv (rx_mpcb (mrx s))
         then upd_mpcb (\<lambda>m. m\<lparr>infinite_rcv_seq := infinite_rcv_seq m + ucast (copied_seq (sub s) - old_copied_seq)\<rparr>) s1
         else s1)"

text \<open>Are all bytes of the segment copied to the reader?\<close>

definition mptcp_direct_copy :: "in_kernel \<Rightarrow> skb_ptr \<Rightarrow> in_state \<Rightarrow> bool \<times> in_state" where
  "mptcp_direct_copy k p s =
     (let len = rx_len (seg_of s p); chunk = min len (ucopy_len (reader s))
      in if skb_copy_ok k s p
         then (chunk = len, s\<lparr>reader := (reader s)\<lparr>ucopy_len := ucopy_len (reader s) - chunk\<rparr>,
                             meta_copied_seq := meta_copied_seq s + chunk\<rparr>)
         else (False, s))"

text \<open>The walk over the segments of the mapping, with an action on each.\<close>

fun walk_map :: "(skb_ptr \<Rightarrow> in_state \<Rightarrow> in_state option) \<Rightarrow> skb_ptr list \<Rightarrow> in_state \<Rightarrow> in_state option" where
  "walk_map f [] s = Some s"
| "walk_map f (p # ps) s =
     (case f p s of
        None \<Rightarrow> None
      | Some s' \<Rightarrow>
         (case ps of [] \<Rightarrow> Some s'
          | q # _ \<Rightarrow> if \<not> before (rx_seq (seg_of s' q)) (map_end (sub s')) then Some s' else walk_map f ps s'))"

text \<open>A segment with its data sequence numbers, out of the queue of the subflow.\<close>

definition take_out :: "skb_ptr \<Rightarrow> in_state \<Rightarrow> in_state" where
  "take_out p s = (let s1 = consume p s in set_seg p (mptcp_prepare_skb (sub s1) (seg_of s p)) s1)"

definition to_ofo :: "in_kernel \<Rightarrow> sk_ptr \<Rightarrow> skb_ptr \<Rightarrow> in_state \<Rightarrow> in_state option" where
  "to_ofo k sk p s =
     (let s1 = take_out p s
      in if in_time_wait (mrx s1) then Some s1
         else map_option (\<lambda>r. s1\<lparr>mrx := r\<rparr>) (mptcp_add_meta_ofo_queue (rxk k) p sk (mrx s1)))"

definition direct_possible :: "skb_ptr \<Rightarrow> in_state \<Rightarrow> bool" where
  "direct_possible p s \<longleftrightarrow> rx_seq (seg_of s p) = rcv_nxt (rx_meta (mrx s)) \<and> ucopy_current (reader s) \<and>
     meta_copied_seq s = rcv_nxt (rx_meta (mrx s)) \<and> ucopy_len (reader s) \<noteq> 0 \<and> ucopy_owned (reader s)"

definition advance :: "u32 \<Rightarrow> rx_state \<Rightarrow> rx_state" where
  "advance end_seq r = (let m = (rx_meta r)\<lparr>rcv_nxt := end_seq\<rparr>
     in r\<lparr>rx_meta := m, rx_mpcb := mptcp_check_rcvseq_wrap m (rcv_nxt (rx_meta r)) (rx_mpcb r)\<rparr>)"

text \<open>What follows when the receive counter has moved: the data-FIN, and a look at the out-of-order queue.\<close>

definition after_data :: "rx_kernel \<Rightarrow> bool \<Rightarrow> rx_state \<Rightarrow> rx_state option" where
  "after_data k fin r =
     (case (if fin then mptcp_fin k r else Some r) of
        None \<Rightarrow> None | Some r' \<Rightarrow> if ofo r' = [] then Some r' else mptcp_ofo_queue k r')"

definition to_reader :: "in_kernel \<Rightarrow> skb_ptr \<Rightarrow> in_state \<Rightarrow> in_state option" where
  "to_reader k p s =
     (let s1 = take_out p s; skb = seg_of s1 p
      in if \<not> after (rx_end_seq skb) (rcv_nxt (rx_meta (mrx s1))) then Some s1
         else
           let (copied, s2) = (if direct_possible p s1 then mptcp_direct_copy k p s1 else (False, s1));
               eaten = (copied \<or> in_time_wait (mrx s2));
               r3 = advance (rx_end_seq skb) (if eaten then mrx s2 else tcp_queue_rcv k p (mrx s2))
           in map_option (\<lambda>r. s2\<lparr>mrx := r, data_queued := True\<rparr>)
                (after_data (rxk k) (rx_fin skb \<and> \<not> in_time_wait r3) r3))"

text \<open>The result of \<open>mptcp_queue_skb\<close>: incomplete mapping (0), broken subflow (1), mapping queued (-1) or eaten (-2).\<close>

datatype queued = Incomplete | Stop | In_Queue | Eaten

definition out_of_place :: "in_kernel \<Rightarrow> in_state \<Rightarrow> bool" where
  "out_of_place k s \<longleftrightarrow>
     (let m = sub s; end_seq = map_data_seq m + ucast (map_data_len m) + of_bool (map_data_fin m)
      in \<not> before64 (mptcp_get_rcv_nxt_64 (rx_mpcb (mrx s)) (rx_meta (mrx s))) end_seq \<or>
         \<not> mptcp_sequence k s (map_data_seq m) end_seq)"

text \<open>The path of the data-FIN is recorded.\<close>

definition note_dfin :: "sk_ptr \<Rightarrow> in_state \<Rightarrow> in_state" where
  "note_dfin sk s =
     (if map_data_fin (sub s)
      then upd_mpcb (\<lambda>m. m\<lparr>dfin_combined := sub_rcv_shutdown (sub s)\<rparr>)
             (s\<lparr>mrx := (mrx s)\<lparr>dfin_path_index := path_index (tp_of sk s)\<rparr>\<rparr>)
      else s)"

definition mptcp_queue_skb :: "in_kernel \<Rightarrow> sk_ptr \<Rightarrow> in_state \<Rightarrow> (queued \<times> in_state) option" where
  "mptcp_queue_skb k sk s =
     (let m = sub s; old = copied_seq m; rcv_nxt64 = mptcp_get_rcv_nxt_64 (rx_mpcb (mrx s)) (rx_meta (mrx s))
      in if \<not> mapping_present m \<or> before (rcv_nxt (tp_of sk s)) (map_end m) then Some (Incomplete, s)
         else if out_of_place k s
         then map_option (\<lambda>s'. (In_Queue, mptcp_reset_mapping old s')) (walk_map (\<lambda>p s. Some (consume p s)) (subq s) s)
         else
           let s1 = note_dfin sk s; mpcb = rx_mpcb (mrx s1);
               (ret, s2) = (if dss_csum mpcb \<and> \<not> infinite_mapping_rcv mpcb then mptcp_verif_dss_csum k sk s1 else (1, s1))
           in if ret \<le> 0 then Some (Stop, mptcp_reset_mapping old s2)
              else if before64 rcv_nxt64 (map_data_seq m)
              then map_option (\<lambda>s'. (Eaten, mptcp_reset_mapping old (emit (Quick_Ack sk) s')))
                     (walk_map (to_ofo k sk) (subq s2) s2)
              else map_option (\<lambda>s'. (if data_queued s' then In_Queue else Eaten, mptcp_reset_mapping old s'))
                     (walk_map (to_reader k) (subq s2) (s2\<lparr>data_queued := False\<rparr>)))"

section \<open>Data on a subflow\<close>

text \<open>Why a run has no result: a null pointer or an access behind an array, or the fuel is used up.\<close>

datatype stop = Fault | Out_Of_Fuel

text \<open>The end of a pass over the queue of the subflow: does the walk start again.\<close>

datatype pass_end = Again | Finished

definition lowpass_call :: "in_kernel \<Rightarrow> sk_ptr \<Rightarrow> bool \<Rightarrow> in_state \<Rightarrow> (bool \<times> in_state) option" where
  "lowpass_call k sk dsnHit s =
     map_option (\<lambda>(pass, l). (pass, s\<lparr>lowpass := l, ticks := Suc (ticks s)\<rparr>))
       (rmptcp_lowpass (ktime_get k (ticks s)) sk dsnHit (lowpass s))"

text \<open>The successor of a segment is read before its body, so the walk is over the queue at its start.\<close>

fun ready_pass ::
  "in_kernel \<Rightarrow> sk_ptr \<Rightarrow> bool \<Rightarrow> skb_ptr list \<Rightarrow> bool \<Rightarrow> in_state \<Rightarrow> (pass_end \<times> bool \<times> in_state) option" where
  "ready_pass k sk dsnHit [] q s = Some (Finished, q, s)"
| "ready_pass k sk dsnHit (p # ps) q s =
     (case mptcp_prevalidate_skb sk p s of
        (Dropped, s1) \<Rightarrow> Some (Again, q, s1)
      | (Broken, s1) \<Rightarrow> Some (Finished, q, s1)
      | (Go_On, s1) \<Rightarrow>
     (case mptcp_detect_mapping sk p s1 of
        (Dropped, s2) \<Rightarrow> Some (Again, q, s2)
      | (Broken, s2) \<Rightarrow> Some (Finished, q, s2)
      | (Go_On, s2) \<Rightarrow>
     (case mptcp_validate_mapping k p s2 of
        None \<Rightarrow> None
      | Some (Dropped, s3) \<Rightarrow> Some (Again, q, s3)
      | Some (_, s3) \<Rightarrow>
     (case lowpass_call k sk dsnHit s3 of
        None \<Rightarrow> None
      | Some (False, s4) \<Rightarrow> Some (Again, q, s4)
      | Some (True, s4) \<Rightarrow>
     (case mptcp_queue_skb k sk s4 of
        None \<Rightarrow> None
      | Some (In_Queue, s5) \<Rightarrow> Some (Again, True, s5)
      | Some (Eaten, s5) \<Rightarrow> Some (Again, q, s5)
      | Some (Incomplete, s5) \<Rightarrow> ready_pass k sk dsnHit ps q s5
      | Some (Stop, s5) \<Rightarrow> Some (Finished, q, s5))))))"

primrec ready_loop :: "in_kernel \<Rightarrow> sk_ptr \<Rightarrow> bool \<Rightarrow> nat \<Rightarrow> bool \<Rightarrow> in_state \<Rightarrow> stop + bool \<times> in_state" where
  "ready_loop k sk dsnHit 0 q s = Inl Out_Of_Fuel"
| "ready_loop k sk dsnHit (Suc fuel) q s =
     (if \<not> mptcp_sk_can_recv (rx_meta (mrx s)) \<and> \<not> in_time_wait (mrx s)
      then Inr (q, upd_sub (\<lambda>m. m\<lparr>copied_seq := rcv_nxt (tp_of sk s)\<rparr>) (s\<lparr>subq := []\<rparr>))
      else case ready_pass k sk dsnHit (subq s) q s of
             None \<Rightarrow> Inl Fault
           | Some (Again, q', s') \<Rightarrow> ready_loop k sk dsnHit fuel q' s'
           | Some (Finished, q', s') \<Rightarrow> Inr (q', s'))"

text \<open>The filter looks at all segments of the queue before the loop.\<close>

definition calc_lowpass :: "in_kernel \<Rightarrow> sk_ptr \<Rightarrow> in_state \<Rightarrow> bool \<times> in_state" where
  "calc_lowpass k sk s =
     (case rmptcp_calc_lowpass_timeout (lp_sysctls k) (ktime_get k (ticks s)) (rx_mpcb (mrx s)) sk
             (map (seg_of s) (subq s)) (lowpass s) of
        (hit, segs, l) \<Rightarrow> (hit, fold (\<lambda>(p, x). set_seg p x) (zip (subq s) segs) (s\<lparr>lowpass := l, ticks := Suc (ticks s)\<rparr>)))"

definition mptcp_data_ready :: "in_kernel \<Rightarrow> nat \<Rightarrow> sk_ptr \<Rightarrow> in_state \<Rightarrow> stop + in_state" where
  "mptcp_data_ready k fuel sk s =
     (case calc_lowpass k sk s of (dsnHit, s0) \<Rightarrow>
        case ready_loop k sk dsnHit fuel False s0 of
          Inl e \<Rightarrow> Inl e
        | Inr (q, s1) \<Rightarrow>
           let s2 = (if close_it (sub s1) then emit (Sub_Time_Wait sk) (emit (Send_Ack sk) s1) else s1)
           in Inr (if q \<and> \<not> rx_dead (mrx s2) then emit Data_Ready s2 else s2))"

section \<open>From the sender's mapping to the receiver's\<close>

lemma after_add:
  fixes r d :: u32
  assumes "unat d < 2 ^ 31"
  shows "after (r + d) r \<longleftrightarrow> d \<noteq> 0"
proof -
  have "after (r + d) r \<longleftrightarrow> unat (r - r) < unat (r + d - r)"
    by (rule after_window) (use assms in simp_all)
  then show ?thesis by (simp add: unat_gt_0)
qed

lemma map_seq64_recovers:
  assumes inv: "rcv_high_inv mpcb" and near: "unat (n - mptcp_get_rcv_nxt_64 mpcb meta_tp) < 2 ^ 31"
    and "\<not> has (rx_flags skb) MPTCPHDR_SEQ64_SET"
  shows "map_seq64 skb (ucast n) meta_tp mpcb = n"
proof -
  let ?i = "rcv_hiseq_index mpcb" and ?r = "rcv_nxt meta_tp"
  let ?h = "rcv_high_order mpcb ?i"
  define d where "d = (ucast (n - mptcp_get_rcv_nxt_64 mpcb meta_tp) :: u32)"
  have ud: "unat d = unat (n - mptcp_get_rcv_nxt_64 mpcb meta_tp)"
    using near by (simp add: d_def unsigned_ucast_eq take_bit_nat_eq_self)
  then have "(ucast d :: u64) = n - mptcp_get_rcv_nxt_64 mpcb meta_tp"
    by (metis of_nat_unat ucast_id)
  then have n: "n = seq64 ?h ?r + ucast d"
    by (simp add: mptcp_get_rcv_nxt_64_def mptcp_get_data_seq_64_def)
  have add: "seq64 ?h (?r + d) + (if ?r > ?r + d then 2 ^ 32 else 0) = n"
    using seq64_add [of ?h ?r d] n by simp
  have small: "unat d < 2 ^ 31" using ud near by simp
  show ?thesis
  proof (cases "?r > ?r + d")
    case True
    then have "d \<noteq> 0" by auto
    then have af: "after (?r + d) ?r" using after_add [OF small] by simp
    have "n = seq64 (?h + 1) (?r + d)" using add True by (simp add: seq64_next_high)
    moreover from this have "ucast n = ?r + d" by (simp only: seq64_low)
    moreover have "rcv_high_order mpcb (\<not> ?i) = ?h + 1" using inv by (simp add: rcv_high_inv_def)
    ultimately show ?thesis using assms(3) True af by (simp add: map_seq64_def mptcp_get_data_seq_64_def)
  next
    case False
    then have "n = seq64 ?h (?r + d)" using add by simp
    moreover from this have "ucast n = ?r + d" by (simp only: seq64_low)
    ultimately show ?thesis using assms(3) False by (simp add: map_seq64_def mptcp_get_data_seq_64_def)
  qed
qed

text \<open>The segment that arrives for a copy of \<open>skb\<close> put on the subflow \<open>tp\<close>, with or without a FIN of the
  subflow, and with further flags \<open>fl\<close> from its options.\<close>

definition other_flags :: "u8 \<Rightarrow> bool" where
  "other_flags fl \<longleftrightarrow> \<not> has fl MPTCPHDR_FIN \<and> \<not> has fl MPTCPHDR_SEQ64_SET"

definition wire_segment :: "kernel_ops \<Rightarrow> mptcp_cb \<Rightarrow> tcp_sock \<Rightarrow> tcp_sock \<Rightarrow> bool \<Rightarrow> u8 \<Rightarrow> sk_buff \<Rightarrow> rx_skb" where
  "wire_segment ops mpcb meta_tp tp fin fl skb =
     \<lparr>rx_seq = write_seq tp, rx_end_seq = write_seq tp + skb_len skb + of_bool fin, rx_len = skb_len skb,
      rx_flags = fl OR (if mptcp_is_data_fin skb then MPTCPHDR_SEQ OR MPTCPHDR_FIN else MPTCPHDR_SEQ),
      rx_tcp_flags = (if fin then TCPHDR_FIN else 0),
      rx_dss = tl (dss_words (mptcp_save_dss_data_seq ops mpcb meta_tp tp skb))\<rparr>"

lemma wire_flags:
  assumes "other_flags fl"
  shows "rx_data_seq (wire_segment ops mpcb meta_tp tp fin fl skb)"
  "rx_data_fin (wire_segment ops mpcb meta_tp tp fin fl skb) = mptcp_is_data_fin skb"
  "rx_fin (wire_segment ops mpcb meta_tp tp fin fl skb) = fin"
  "\<not> has (rx_flags (wire_segment ops mpcb meta_tp tp fin fl skb)) MPTCPHDR_SEQ64_SET"
  using assms
  by (simp_all add: wire_segment_def rx_data_seq_def rx_data_fin_def rx_fin_def other_flags_def has_def bit.conj_disj_distrib2
      MPTCPHDR_SEQ_def MPTCPHDR_FIN_def MPTCPHDR_SEQ64_SET_def TCPHDR_FIN_def)

lemma wire_dss:
  assumes "unat (skb_end_seq skb - skb_seq skb) < 2 ^ 16" and "\<not> has (mptcp_flags skb) MPTCPHDR_INF"
    and w_def: "w = rx_dss (wire_segment ops mpcb meta_tp tp fin fl skb)"
  shows "w ! 0 = skb_seq skb"
    "w ! Suc 0 = (if mptcp_is_data_fin skb \<and> skb_len skb = 0 then 0 else write_seq tp - snt_isn tp)"
    "drop_bit 16 (w ! Suc (Suc 0)) = skb_end_seq skb - skb_seq skb"
proof -
  let ?skb = "skb\<lparr>mptcp_flags := setf (mptcp_flags skb) MPTCPHDR_SEQ\<rparr>"
  have noinf: "\<not> has (mptcp_flags ?skb) MPTCPHDR_INF" using assms(2) by (simp add: flag_simps)
  have fin: "mptcp_is_data_fin ?skb = mptcp_is_data_fin skb" by (simp add: mptcp_is_data_fin_def flag_simps)
  have w: "w = mptcp_write_dss_mapping ops mpcb tp ?skb"
    by (simp add: w_def wire_segment_def mptcp_save_dss_data_seq_def mptcp_write_dss_data_ack_def Let_def)
  show "w ! 0 = skb_seq skb" by (simp add: w)
  show "w ! Suc 0 = (if mptcp_is_data_fin skb \<and> skb_len skb = 0 then 0 else write_seq tp - snt_isn tp)"
    by (simp add: w mptcp_write_dss_mapping_def Let_def fin)
  show "drop_bit 16 (w ! Suc (Suc 0)) = skb_end_seq skb - skb_seq skb"
    using dss_length_word [of ops mpcb tp ?skb] noinf ucast16_back [OF assms(1)] by (simp add: w numeral_2_eq_2)
qed


lemma wire_inside:
  assumes fl: "other_flags fl" and len: "unat (skb_len skb) < 2 ^ 16"
  shows "\<not> outside_map (wire_segment ops mpcb meta_tp tp fin fl skb) (write_seq tp) (skb_len skb)"
proof -
  let ?x = "wire_segment ops mpcb meta_tp tp fin fl skb" and ?w = "write_seq tp" and ?l = "skb_len skb"
  have e: "rx_seq ?x = ?w" "rx_end_seq ?x = ?w + (?l + of_bool fin)" "tcp_end ?x = ?w + ?l" "rx_len ?x = ?l"
    using wire_flags(3) [OF fl, of ops mpcb meta_tp tp fin skb] by (simp_all add: tcp_end_def) (simp_all add: wire_segment_def)
  have u: "unat (?l + of_bool fin) = unat ?l + of_bool fin"
    using assms by (cases fin) (simp_all add: unat_word_ariths)
  then have small: "unat (?l + of_bool fin) < 2 ^ 31" using assms by (cases fin) simp_all
  have b: "before ?w (?w + (?l + of_bool fin)) \<longleftrightarrow> ?l + of_bool fin \<noteq> 0"
    using after_add [OF small, of ?w] by (simp add: after_def)
  have "?l \<noteq> 0 \<Longrightarrow> ?l + of_bool fin \<noteq> 0" using u by (metis add_is_0 unat_0 unat_eq_zero)
  moreover have "after (?w + ?l) ?w \<longleftrightarrow> ?l \<noteq> 0" using assms by (intro after_add) simp
  moreover have "\<not> after ?w (?w + (?l + of_bool fin))"
    using before_window [of "?w + (?l + of_bool fin)" ?w ?w] small by (simp add: after_def)
  ultimately show ?thesis using b by (auto simp: outside_map_def e)
qed

lemma upd_sub_sel [simp]:
  "sub (upd_sub f s) = f (sub s)" "mrx (upd_sub f s) = mrx s" "seg_of (upd_sub f s) p = seg_of s p"
  "subq (upd_sub f s) = subq s" "tp_of sk (upd_sub f s) = tp_of sk s"
  by (simp_all add: upd_sub_def seg_of_def tp_of_def)

lemma set_seg_sel [simp]:
  "sub (set_seg p x s) = sub s" "subq (set_seg p x s) = subq s" "seg_of (set_seg p x s) p = x"
  "rx_mpcb (mrx (set_seg p x s)) = rx_mpcb (mrx s)" "rx_meta (mrx (set_seg p x s)) = rx_meta (mrx s)"
  "tp_of sk (set_seg p x s) = tp_of sk s" "ofo (mrx (set_seg p x s)) = ofo (mrx s)"
  by (simp_all add: set_seg_def seg_of_def tp_of_def)

lemma set_mapping_go:
  assumes "seg_of s p = x" and "data_len \<noteq> 0" and "\<not> send_mp_fail (sub s)"
    and "(if rx_data_fin x then data_len - 1 else data_len) = l" and "\<not> outside_map x start l"
    and "map_seq64 x data_seq (rx_meta (mrx s)) (rx_mpcb (mrx s)) = n"
  shows "set_mapping sk p data_seq start data_len s =
    (Go_On, upd_sub (\<lambda>m. m\<lparr>map_data_seq := n, map_data_len := ucast l, map_subseq := start,
                            map_data_fin := rx_data_fin x, mapping_present := True\<rparr>) s)"
  using assms by (cases "rx_data_fin x") (simp_all add: set_mapping_def Let_def)

lemma mapping_round_trip:
  assumes cov: "covers_mapping skb" and len: "unat (skb_end_seq skb - skb_seq skb) < 2 ^ 16" "skb_end_seq skb \<noteq> skb_seq skb"
    and noinf: "\<not> has (mptcp_flags skb) MPTCPHDR_INF"
    and fl: "other_flags fl" and x: "seg_of s p = wire_segment ops mpcb meta_tp tp fin fl skb" and isn: "rcv_isn (sub s) = snt_isn tp"
    and st: "\<not> mapping_present (sub s)" "\<not> infinite_mapping_rcv (rx_mpcb (mrx s))" "\<not> send_mp_fail (sub s)"
    and inv: "rcv_high_inv (rx_mpcb (mrx s))" and n: "skb_seq skb = ucast n"
    "unat (n - mptcp_get_rcv_nxt_64 (rx_mpcb (mrx s)) (rx_meta (mrx s))) < 2 ^ 31"
  shows "\<exists>s'. mptcp_detect_mapping sk p s = (Go_On, s') \<and> mapping_present (sub s') \<and> map_data_seq (sub s') = n \<and>
    map_subseq (sub s') = write_seq tp \<and> seg_of s' p = seg_of s p \<and>
    (map_data_fin (sub s') \<longleftrightarrow> mptcp_is_data_fin skb) \<and> ucast (map_data_len (sub s')) = skb_len skb"
proof -
  let ?x = "wire_segment ops mpcb meta_tp tp fin fl skb" and ?f = "mptcp_is_data_fin skb"
  let ?d = "skb_end_seq skb - skb_seq skb"
  have d: "skb_len skb + of_bool ?f = ?d" using cov by (cases ?f) (simp_all add: covers_mapping_def)
  have d0: "?d \<noteq> 0" using len(2) by simp
  have l: "(if ?f then ?d - 1 else ?d) = skb_len skb" using d by (auto simp: algebra_simps)
  have sl: "unat (skb_len skb) < 2 ^ 16"
  proof (cases ?f)
    case True
    then have "skb_len skb = ?d - 1" using l by simp
    then show ?thesis using len(1) d0 by (metis diff_le_self le_less_trans unat_minus_one)
  qed (use l len(1) in simp)
  note dss = wire_dss [OF len(1) noinf refl, of ops mpcb meta_tp tp fin fl]
  have seq: "mptcp_skb_set_data_seq mp ?x = (skb_seq skb, drop 1 (rx_dss ?x), ?x)" for mp
    using wire_flags(4) [OF fl, of ops mpcb meta_tp tp fin skb] dss(1) by (simp add: mptcp_skb_set_data_seq_def)
  have len3: "length (rx_dss ?x) = 3"
    by (simp add: wire_segment_def mptcp_save_dss_data_seq_def mptcp_write_dss_data_ack_def Let_def)
  define ws where "ws = drop 1 (rx_dss ?x)"
  have words: "ws ! 0 = rx_dss ?x ! Suc 0" "ws ! Suc 0 = rx_dss ?x ! Suc (Suc 0)" using len3 by (simp_all add: ws_def)
  have xs: "rx_seq ?x = write_seq tp" "rx_len ?x = skb_len skb" by (simp_all add: wire_segment_def)
  have sub: "(if rx_data_fin ?x \<and> rx_len ?x = 0 then rx_seq ?x else ws ! 0 + rcv_isn (sub s)) = write_seq tp"
    by (simp add: wire_flags(2) [OF fl] xs words dss(2) isn)
  have "mptcp_detect_mapping sk p s = set_mapping sk p (skb_seq skb) (write_seq tp) ?d (set_seg p ?x s)"
    using st x wire_flags(1) [OF fl, of ops mpcb meta_tp tp fin skb]
    by (simp add: mptcp_detect_mapping_def seq [folded ws_def] sub Let_def words(2) dss(3))
  also have "\<dots> = (Go_On, upd_sub (\<lambda>m. m\<lparr>map_data_seq := n, map_data_len := ucast (skb_len skb), map_subseq := write_seq tp,
      map_data_fin := ?f, mapping_present := True\<rparr>) (set_seg p ?x s))"
    using map_seq64_recovers [OF inv n(2) wire_flags(4) [OF fl, of ops mpcb meta_tp tp fin skb]] n(1) st(3) l
    by (subst set_mapping_go [OF _ d0 _ _ wire_inside [OF fl sl, of ops mpcb meta_tp tp fin]]) (simp_all add: wire_flags(2) [OF fl])
  finally show ?thesis using x ucast16_back [OF sl] by simp
qed


lemma prepared_numbers:
  assumes fl: "other_flags fl" and cov: "covers_mapping skb" and "map_subseq m = write_seq tp"
    and m: "ucast (map_data_seq m) = skb_seq skb" "map_data_fin m = mptcp_is_data_fin skb" "ucast (map_data_len m) = skb_len skb"
  shows "mptcp_prepare_skb m (wire_segment ops mpcb meta_tp tp fin fl skb) =
    (wire_segment ops mpcb meta_tp tp fin fl skb)\<lparr>rx_seq := skb_seq skb, rx_end_seq := skb_end_seq skb,
      rx_tcp_flags := (if mptcp_is_data_fin skb then TCPHDR_FIN else 0)\<rparr>"
proof -
  let ?x = "wire_segment ops mpcb meta_tp tp fin fl skb"
  have e: "tcp_end ?x = map_end m" "rx_seq ?x = write_seq tp" "rx_len ?x = skb_len skb"
    using wire_flags(3) [OF fl, of ops mpcb meta_tp tp fin skb] assms by (simp_all add: tcp_end_def map_end_def) (simp_all add: wire_segment_def)
  have len: "skb_seq skb + skb_len skb + of_bool (mptcp_is_data_fin skb) = skb_end_seq skb"
  proof -
    have "skb_len skb + of_bool (mptcp_is_data_fin skb) = skb_end_seq skb - skb_seq skb"
      using cov by (cases "mptcp_is_data_fin skb") (simp_all add: covers_mapping_def)
    then show ?thesis by (simp add: add.assoc)
  qed
  have flags: "setf (rx_tcp_flags ?x) TCPHDR_FIN = TCPHDR_FIN" "clrf (rx_tcp_flags ?x) TCPHDR_FIN = 0"
    by (simp_all add: wire_segment_def setf_def clrf_def TCPHDR_FIN_def)
  have s: "ucast (map_data_seq m) + write_seq tp - map_subseq m = skb_seq skb" using assms by simp
  show ?thesis using len by (simp add: mptcp_prepare_skb_def Let_def e m(2) flags s)
qed

section \<open>What the mapping check accepts\<close>

lemma emit_sel [simp]:
  "sub (emit e s) = sub s" "subq (emit e s) = subq s" "rxs (mrx (emit e s)) = rxs (mrx s)"
  "rx_events (mrx (emit e s)) = rx_events (mrx s) @ [e]" "seg_of (emit e s) p = seg_of s p"
  by (simp_all add: emit_def event_def seg_of_def)

lemma upd_mpcb_sel [simp]:
  "sub (upd_mpcb f s) = sub s" "subq (upd_mpcb f s) = subq s" "seg_of (upd_mpcb f s) p = seg_of s p"
  by (simp_all add: upd_mpcb_def seg_of_def)

lemma upd_tp_sel [simp]:
  "sub (upd_tp sk f s) = sub s" "subq (upd_tp sk f s) = subq s" "seg_of (upd_tp sk f s) p = seg_of s p"
  by (simp_all add: upd_tp_def seg_of_def)

lemma close_all_sel [simp]:
  "sub (mptcp_sub_force_close_all sk s) = sub s" "subq (mptcp_sub_force_close_all sk s) = subq s"
  "rxs (mrx (mptcp_sub_force_close_all sk s)) = rxs (mrx s)"
proof -
  have "sub (fold (\<lambda>it s. emit (Send_Reset it) s) its s) = sub s \<and> subq (fold (\<lambda>it s. emit (Send_Reset it) s) its s) = subq s \<and>
      rxs (mrx (fold (\<lambda>it s. emit (Send_Reset it) s) its s)) = rxs (mrx s)" for its
    by (induction its arbitrary: s) simp_all
  then show "sub (mptcp_sub_force_close_all sk s) = sub s" "subq (mptcp_sub_force_close_all sk s) = subq s"
    "rxs (mrx (mptcp_sub_force_close_all sk s)) = rxs (mrx s)"
    by (simp_all add: mptcp_sub_force_close_all_def)
qed

lemma enter_infinite_sel [simp]:
  "sub (enter_infinite sk s) = (sub s)\<lparr>send_mp_fail := False\<rparr>" "subq (enter_infinite sk s) = subq s"
  "seg_of (enter_infinite sk s) p = seg_of s p"
  by (simp_all add: enter_infinite_def Let_def seg_of_def mptcp_purge_ofo_queue_def)
     (simp add: upd_sub_def upd_tp_def upd_mpcb_def)

lemma consume_sel [simp]:
  "sub (consume p s) = (sub s)\<lparr>copied_seq := rx_end_seq (seg_of s p)\<rparr>" "subq (consume p s) = remove1 p (subq s)"
  "mrx (consume p s) = mrx s" "seg_of (consume p s) q = seg_of s q"
  by (simp_all add: consume_def seg_of_def)

text \<open>What a verdict on the mapping of a segment means.\<close>

definition verdict_ok :: "sk_ptr \<Rightarrow> skb_ptr \<Rightarrow> in_state \<Rightarrow> verdict \<Rightarrow> in_state \<Rightarrow> bool" where
  "verdict_ok sk p s v s' \<longleftrightarrow>
     (case v of
        Go_On \<Rightarrow>
          if mapping_present (sub s) then sub s' = sub s
          else mapping_present (sub s') \<longrightarrow> rx_data_seq (seg_of s p) \<and>
            map_data_fin (sub s') = rx_data_fin (seg_of s p) \<and>
            \<not> outside_map (seg_of s' p) (map_subseq (sub s')) (ucast (map_data_len (sub s')))
      | Broken \<Rightarrow> last (rx_events (mrx s')) = Send_Reset sk \<and>
          (sub s')\<lparr>send_mp_fail := send_mp_fail (sub s)\<rparr> = sub s \<and> subq s' = subq s
      | Dropped \<Rightarrow> send_mp_fail (sub s) \<and> subq s' = remove1 p (subq s) \<and> copied_seq (sub s') = rx_end_seq (seg_of s p))"

lemma set_mapping_verdict:
  assumes "set_mapping sk p data_seq start data_len s = (v, s')" and "\<not> mapping_present (sub s)" and "rx_data_seq (seg_of s p)"
    and "unat data_len < 2 ^ 16" and "unat (rx_len (seg_of s p)) < 2 ^ 16"
  shows "verdict_ok sk p s v s'"
proof -
  let ?x = "seg_of s p"
  let ?len0 = "if data_len = 0 then rx_len ?x + of_bool (rx_data_fin ?x) else data_len"
  let ?l = "if rx_data_fin ?x then ?len0 - 1 else ?len0"
  have l: "unat ?l < 2 ^ 16"
  proof (cases "data_len = 0")
    case True
    then have "?l = rx_len ?x" by simp
    then show ?thesis using assms(5) by simp
  next
    case False
    then show ?thesis using assms(4) by (auto simp: unat_minus_one)
  qed
  note len16 = ucast16_back [OF l]
  show ?thesis
  proof (cases "data_len = 0")
    case True
    then show ?thesis using assms(1-3) len16 by (auto simp: set_mapping_def Let_def verdict_ok_def split: if_splits)
  next
    case False
    then show ?thesis using assms(1-3) len16 by (auto simp: set_mapping_def Let_def verdict_ok_def split: if_splits)
  qed
qed


lemma index_flags:
  "has (f OR mptcp_get_64_bit n m) MPTCPHDR_SEQ = has f MPTCPHDR_SEQ" "has (f OR mptcp_get_64_bit n m) MPTCPHDR_FIN = has f MPTCPHDR_FIN"
  by (simp_all add: mptcp_get_64_bit_def Let_def has_def bit.conj_disj_distrib2 MPTCPHDR_SEQ_def MPTCPHDR_FIN_def
      MPTCPHDR_SEQ64_INDEX_def MPTCPHDR_SEQ64_OFO_def)

lemma set_data_seq_keeps:
  assumes "mptcp_skb_set_data_seq mp skb = (d, ws, skb')"
  shows "rx_seq skb' = rx_seq skb \<and> rx_end_seq skb' = rx_end_seq skb \<and> rx_len skb' = rx_len skb \<and>
    rx_data_seq skb' = rx_data_seq skb \<and> rx_data_fin skb' = rx_data_fin skb \<and> rx_tcp_flags skb' = rx_tcp_flags skb"
  using assms
  by (auto simp: mptcp_skb_set_data_seq_def Let_def rx_data_seq_def rx_data_fin_def index_flags split: if_splits option.splits)

lemma dss_len_bound: "unat (drop_bit 16 (w::u32)) < 2 ^ 16"
  using unat_bound [of w] by (simp add: drop_bit_eq_div unat_div less_mult_imp_div_less)

lemma detect_verdict:
  assumes d: "mptcp_detect_mapping sk p s = (v, s')" and "\<not> infinite_mapping_rcv (rx_mpcb (mrx s))"
    and len: "unat (rx_len (seg_of s p)) < 2 ^ 16"
  shows "verdict_ok sk p s v s'"
proof (cases "rx_data_seq (seg_of s p)")
  case False
  then show ?thesis using assms(1,2) by (auto simp: mptcp_detect_mapping_def Let_def verdict_ok_def split: if_splits)
next
  case True
  obtain ds ws skb' where sd: "mptcp_skb_set_data_seq (Some (rx_mpcb (mrx s))) (seg_of s p) = (ds, ws, skb')"
    by (cases "mptcp_skb_set_data_seq (Some (rx_mpcb (mrx s))) (seg_of s p)") auto
  note keep = set_data_seq_keeps [OF sd]
  let ?sub_seq = "if rx_data_fin (seg_of s p) \<and> rx_len (seg_of s p) = 0 then rx_seq (seg_of s p) else ws ! 0 + rcv_isn (sub s)"
  show ?thesis
  proof (cases "mapping_present (sub s)")
    case present: True
    then show ?thesis using d assms(2) True sd
      by (auto simp: mptcp_detect_mapping_def Let_def verdict_ok_def split: if_splits)
  next
    case absent: False
    have "set_mapping sk p ds ?sub_seq (drop_bit 16 (ws ! 1)) (set_seg p skb' s) = (v, s')"
      using d assms(2) True sd absent by (simp add: mptcp_detect_mapping_def Let_def)
    from set_mapping_verdict [OF this _ _ dss_len_bound] show ?thesis
      using absent True len keep by (simp add: verdict_ok_def split: verdict.splits)
  qed
qed

text \<open>The verdict itself.  Without a mapping in the segment only too much unmapped data is refused; a mapping in force has to be
  repeated exactly; a new one has to overlap the segment and becomes the one in force.\<close>

lemma outside_map_flags:
  "rx_seq y = rx_seq x \<Longrightarrow> rx_end_seq y = rx_end_seq x \<Longrightarrow> rx_len y = rx_len x \<Longrightarrow> rx_data_fin y = rx_data_fin x \<Longrightarrow>
   rx_tcp_flags y = rx_tcp_flags x \<Longrightarrow> outside_map y = outside_map x"
  by (simp add: fun_eq_iff outside_map_def tcp_end_def rx_fin_def)

lemma enter_infinite_numbers:
  "map_seq64 x d (rx_meta (mrx (enter_infinite sk s))) (rx_mpcb (mrx (enter_infinite sk s))) = map_seq64 x d (rx_meta (mrx s)) (rx_mpcb (mrx s))"
proof -
  have ev: "rx_meta (mrx (fold (\<lambda>it s. emit (Send_Reset it) s) its s)) = rx_meta (mrx s) \<and>
      rx_mpcb (mrx (fold (\<lambda>it s. emit (Send_Reset it) s) its s)) = rx_mpcb (mrx s)" for its and s :: in_state
    by (induction its arbitrary: s) (simp_all add: emit_def)
  show ?thesis
    by (simp add: enter_infinite_def Let_def mptcp_sub_force_close_all_def ev map_seq64_def mptcp_get_data_seq_64_def
        upd_sub_def upd_tp_def upd_mpcb_def)
qed

lemma set_mapping_cases:
  assumes s: "seg_of s p = x" and data_len: "unat data_len < 2 ^ 16" and len: "unat (rx_len x) < 2 ^ 16"
    and start: "start = (if data_len = 0 then rx_seq x else sub_seq)"
    and l: "l = (if data_len = 0 then rx_len x else if rx_data_fin x then data_len - 1 else data_len)"
  shows "fst (set_mapping sk p data_seq sub_seq data_len s) = (if data_len \<noteq> 0 \<and> send_mp_fail (sub s) then Dropped
      else if outside_map x start l then Broken else Go_On) \<and>
    (fst (set_mapping sk p data_seq sub_seq data_len s) = Go_On \<longrightarrow>
      (let m = sub (snd (set_mapping sk p data_seq sub_seq data_len s))
       in mapping_present m \<and> map_subseq m = start \<and> ucast (map_data_len m) = l \<and> map_data_fin m = rx_data_fin x \<and>
          map_data_seq m = map_seq64 x data_seq (rx_meta (mrx s)) (rx_mpcb (mrx s))))"
proof (cases "data_len = 0")
  case True
  have "ucast (ucast (rx_len x) :: u16) = rx_len x" by (rule ucast16_back [OF len])
  then show ?thesis using True s start l enter_infinite_numbers [of x data_seq sk s]
    by (cases "rx_data_fin x") (auto simp: set_mapping_def Let_def)
next
  case False
  have "unat l < 2 ^ 16" using False data_len by (auto simp: l unat_minus_one)
  then have "ucast (ucast l :: u16) = l" by (rule ucast16_back)
  then show ?thesis using False s start l
    by (cases "rx_data_fin x") (auto simp: set_mapping_def Let_def)
qed

lemma detect_cases:
  assumes d: "mptcp_detect_mapping sk p s = (v, s')" and inf: "\<not> infinite_mapping_rcv (rx_mpcb (mrx s))"
    and x: "x = seg_of s p" and len: "unat (rx_len x) < 2 ^ 16" and m: "m = sub s"
    and opt: "mptcp_skb_set_data_seq (Some (rx_mpcb (mrx s))) x = (data_seq, words, x')"
    and sub_seq: "sub_seq = (if rx_data_fin x \<and> rx_len x = 0 then rx_seq x else words ! 0 + rcv_isn m)"
    and data_len: "data_len = drop_bit 16 (words ! 1)"
    and start: "start = (if data_len = 0 then rx_seq x else sub_seq)"
    and l: "l = (if data_len = 0 then rx_len x else if rx_data_fin x then data_len - 1 else data_len)"
  shows "v = (if \<not> rx_data_seq x
        then (if \<not> mapping_present m \<and> rcv_nxt (tp_of sk s) - copied_seq m > 65536 then Broken else Go_On)
        else if mapping_present m
        then (if data_seq = ucast (map_data_seq m) \<and> sub_seq = map_subseq m \<and>
                 data_len = ucast (map_data_len m) + of_bool (map_data_fin m) \<and> rx_data_fin x = map_data_fin m
              then Go_On else Broken)
        else if data_len \<noteq> 0 \<and> send_mp_fail m then Dropped
        else if outside_map x start l then Broken else Go_On)" (is ?verdict)
    and "v = Go_On \<and> rx_data_seq x \<and> \<not> mapping_present m \<longrightarrow> mapping_present (sub s') \<and> map_subseq (sub s') = start \<and>
        ucast (map_data_len (sub s')) = l \<and> map_data_fin (sub s') = rx_data_fin x \<and>
        map_data_seq (sub s') = map_seq64 x' data_seq (rx_meta (mrx s)) (rx_mpcb (mrx s))" (is ?map)
proof -
  note keep = set_data_seq_keeps [OF opt]
  have "?verdict \<and> ?map"
  proof (cases "rx_data_seq x \<and> \<not> mapping_present m")
    case False
    then show ?thesis using d inf opt sub_seq data_len x m keep
      by (auto simp: mptcp_detect_mapping_def Let_def map_matches_def split: if_splits)
  next
    case True
    have eq: "set_mapping sk p data_seq sub_seq data_len (set_seg p x' s) = (v, s')"
      using d inf opt True unfolding sub_seq data_len x m mptcp_detect_mapping_def Let_def by (simp split del: if_split)
    have st: "start = (if data_len = 0 then rx_seq x' else sub_seq)"
      "l = (if data_len = 0 then rx_len x' else if rx_data_fin x' then data_len - 1 else data_len)"
      using start l keep by simp_all
    have out: "outside_map x' = outside_map x" by (rule outside_map_flags) (use keep in simp_all)
    have "unat (rx_len x') < 2 ^ 16" "unat data_len < 2 ^ 16" using len keep data_len dss_len_bound by simp_all
    from set_mapping_cases [OF _ this(2,1) st, of "set_seg p x' s" p sk data_seq] show ?thesis
      using True m keep by (simp add: eq out Let_def)
  qed
  then show ?verdict ?map by blast+
qed

section \<open>Data for the reader\<close>

definition queue_keeps :: "in_kernel \<Rightarrow> bool" where
  "queue_keeps k \<longleftrightarrow> (\<forall>p r. \<exists>f q. tcp_queue_rcv k p r = r\<lparr>rxs := f, meta_rcvq := q\<rparr> \<and> (\<forall>x\<in>set (ofo r). f x = rxs r x))"

definition ofo_waits :: "u32 \<Rightarrow> rx_state \<Rightarrow> bool" where
  "ofo_waits base r \<longleftrightarrow> (\<forall>p ps. ofo r = p # ps \<longrightarrow> pos base (rcv_nxt (rx_meta r)) < pos base (sq r p))"

definition same_rx :: "rx_state \<Rightarrow> rx_state \<Rightarrow> bool" where
  "same_rx r r' \<longleftrightarrow> ofo r' = ofo r \<and> (\<forall>q \<in> set (ofo r). rxs r' q = rxs r q) \<and> shortcut_ofoqueue r' = shortcut_ofoqueue r \<and>
     rx_conns r' = rx_conns r \<and> rx_socks r' = rx_socks r \<and> rx_mpcb r' = rx_mpcb r \<and> rx_meta r' = rx_meta r \<and>
     dfin_path_index r' = dfin_path_index r \<and> in_time_wait r' = in_time_wait r \<and> rx_done r' = rx_done r"

lemma same_rx_facts:
  assumes "same_rx r r'"
  shows "ofo_inv r \<Longrightarrow> ofo_inv r'" "window base r \<Longrightarrow> window base r'"
    "ofo_waits base r \<Longrightarrow> ofo_waits base r'" "fin_sock k r' = fin_sock k r" "rx_mpcb r' = rx_mpcb r" "rx_meta r' = rx_meta r"
proof -
  show "ofo_inv r \<Longrightarrow> ofo_inv r'" by (rule ofo_inv_transfer) (use assms in \<open>simp_all add: same_rx_def\<close>)
  show "window base r \<Longrightarrow> window base r'" "ofo_waits base r \<Longrightarrow> ofo_waits base r'"
    using assms by (auto simp: same_rx_def window_def ofo_waits_def sq_def)
  show "fin_sock k r' = fin_sock k r" by (rule fin_sock_cong) (use assms in \<open>simp_all add: same_rx_def\<close>)
  show "rx_mpcb r' = rx_mpcb r" "rx_meta r' = rx_meta r" using assms by (simp_all add: same_rx_def)
qed

lemma same_rx_trans: "same_rx r r' \<Longrightarrow> same_rx r' r'' \<Longrightarrow> same_rx r r''"
  by (simp add: same_rx_def)

lemma advance_sel [simp]:
  "ofo (advance e r) = ofo r" "rxs (advance e r) = rxs r" "rx_conns (advance e r) = rx_conns r"
  "rx_socks (advance e r) = rx_socks r" "shortcut_ofoqueue (advance e r) = shortcut_ofoqueue r"
  "dfin_path_index (advance e r) = dfin_path_index r" "rx_meta (advance e r) = (rx_meta r)\<lparr>rcv_nxt := e\<rparr>"
  "in_time_wait (advance e r) = in_time_wait r" "meta_rcvq (advance e r) = meta_rcvq r" "rx_done (advance e r) = rx_done r"
  by (simp_all add: advance_def Let_def)

lemma advance_step:
  assumes "rcv_high_inv (rx_mpcb r)" and "pos base (rcv_nxt (rx_meta r)) \<le> pos base e"
  shows "rcv_high_inv (rx_mpcb (advance e r)) \<and>
    mptcp_get_rcv_nxt_64 (rx_mpcb (advance e r)) (rx_meta (advance e r)) =
      mptcp_get_rcv_nxt_64 (rx_mpcb r) (rx_meta r) + of_nat (pos base e - pos base (rcv_nxt (rx_meta r)))"
proof -
  let ?inc = "e - rcv_nxt (rx_meta r)"
  have "(ucast ?inc :: u64) = of_nat (unat ?inc)" by simp
  then show ?thesis
    using rcvseq_wrap_step [OF assms(1), of _ "rx_meta r" ?inc] pos_diff [OF assms(2)]
    by (simp add: advance_def Let_def)
qed

text \<open>The rest of the step once the receive counter has moved: the data-FIN and the out-of-order queue.\<close>

lemma after_advance:
  assumes "ofo_inv r" and "rcv_high_inv (rx_mpcb r)" and "window base r" and "fin_sock k r \<noteq> None" and "done_keeps k"
  shows "\<exists>r' del. after_data k fin r = Some r' \<and>
    (if fin then del = [] \<and> ofo r' = [] \<and> rx_done r' \<and> ofo_inv r' \<and> meta_rcvq r' = meta_rcvq r \<and>
       rcv_nxt (rx_meta r') = rcv_nxt (rx_meta r) \<and> rx_mpcb r' = rx_mpcb r
     else drained base r del r')"
proof (cases fin)
  case True
  obtain r2 where "mptcp_fin k r = Some r2" "ofo r2 = []" "ofo_inv r2" "rx_mpcb r2 = rx_mpcb r" "meta_rcvq r2 = meta_rcvq r"
    "rx_done r2" "rcv_nxt (rx_meta r2) = rcv_nxt (rx_meta r)" using mptcp_fin_keeps [OF assms(4,1,5)] by blast
  then show ?thesis using True by (simp add: after_data_def)
next
  case False
  show ?thesis
  proof (cases "ofo r = []")
    case True
    have "drained base r [] r" using True assms by (intro drained_refl) simp_all
    then show ?thesis using True False by (auto simp: after_data_def)
  next
    case nonempty: False
    then show ?thesis using delivers [OF assms] False by (simp add: after_data_def)
  qed
qed

text \<open>The state before the counter moved has the same out-of-order queue.\<close>

lemma ofo_left_same:
  assumes "ofo_left base r3 del r'" and "ofo r3 = ofo r" and "\<And>q. q \<in> set (ofo r) \<Longrightarrow> rxs r3 q = rxs r q" and "rx_done r3 = rx_done r"
  shows "ofo_left base r del r'"
proof -
  have e: "esq r3 q = esq r q" "sq r3 q = sq r q" "data_ends r3 q = data_ends r q" if "q \<in> set (ofo r)" for q
    using assms(3) [OF that] by (simp_all add: esq_def sq_def data_ends_def)
  obtain gone rest where g: "ofo r = gone @ rest" "set del \<subseteq> set gone"
    "\<forall>q\<in>set gone. pos base (esq r3 q) \<le> pos base (rcv_nxt (rx_meta r'))"
    "if \<exists>p\<in>set del. data_ends r3 p
      then data_ends r3 (last del) \<and> (\<forall>p\<in>set (butlast del). \<not> data_ends r3 p) \<and> ofo r' = [] \<and> rx_done r'
      else ofo r' = rest \<and> rx_done r' = rx_done r \<and> (rest \<noteq> [] \<longrightarrow> pos base (rcv_nxt (rx_meta r')) < pos base (sq r3 (hd rest)))"
    using assms(1) unfolding ofo_left_def assms(2,4) by (elim exE conjE)
  have sub: "set del \<subseteq> set (ofo r)" "set gone \<subseteq> set (ofo r)" using g by auto
  have "(\<exists>p\<in>set del. data_ends r3 p) = (\<exists>p\<in>set del. data_ends r p)" using e(3) sub by blast
  moreover have "(\<forall>p\<in>set (butlast del). \<not> data_ends r3 p) = (\<forall>p\<in>set (butlast del). \<not> data_ends r p)"
    using e(3) sub in_set_butlastD by (metis subsetD)
  moreover have "data_ends r3 (last del) = data_ends r (last del)" if "\<exists>p\<in>set del. data_ends r p"
    using e(3) sub that by (metis empty_iff last_in_set list.set(1) subsetD)
  moreover have "rest \<noteq> [] \<Longrightarrow> sq r3 (hd rest) = sq r (hd rest)" using e(2) g(1) by simp
  ultimately have "if \<exists>p\<in>set del. data_ends r p
      then data_ends r (last del) \<and> (\<forall>p\<in>set (butlast del). \<not> data_ends r p) \<and> ofo r' = [] \<and> rx_done r'
      else ofo r' = rest \<and> rx_done r' = rx_done r \<and> (rest \<noteq> [] \<longrightarrow> pos base (rcv_nxt (rx_meta r')) < pos base (sq r (hd rest)))"
    using g(4) by (cases "\<exists>p\<in>set del. data_ends r p") (auto split: if_splits)
  moreover have "\<forall>q\<in>set gone. pos base (esq r q) \<le> pos base (rcv_nxt (rx_meta r'))" using g(3) e(1) sub by fastforce
  ultimately show ?thesis unfolding ofo_left_def using g(1,2) by blast
qed

lemma take_out_mrx: "mrx (take_out p s) = (mrx s)\<lparr>rxs := (rxs (mrx s))(p := mptcp_prepare_skb ((sub s)\<lparr>copied_seq := rx_end_seq (seg_of s p)\<rparr>) (seg_of s p))\<rparr>"
  by (simp add: take_out_def set_seg_def)

lemma prepare_copied [simp]: "mptcp_prepare_skb (m\<lparr>copied_seq := c\<rparr>) x = mptcp_prepare_skb m x"
  by (simp add: mptcp_prepare_skb_def map_end_def)

lemma take_out_same: "p \<notin> set (ofo (mrx s)) \<Longrightarrow> same_rx (mrx s) (mrx (take_out p s))"
  by (auto simp: same_rx_def take_out_mrx)

lemma direct_copy_mrx: "mrx (snd (mptcp_direct_copy k p s)) = mrx s"
  by (simp add: mptcp_direct_copy_def Let_def)

lemma queue_keeps_same:
  assumes "queue_keeps k"
  shows "same_rx r (tcp_queue_rcv k p r)"
proof -
  obtain f q where "tcp_queue_rcv k p r = r\<lparr>rxs := f, meta_rcvq := q\<rparr>" "\<forall>x\<in>set (ofo r). f x = rxs r x"
    using assms unfolding queue_keeps_def by blast
  then show ?thesis by (simp add: same_rx_def)
qed

lemma direct_copy_eq:
  "mptcp_direct_copy k p s =
     (if skb_copy_ok k s p
      then (rx_len (seg_of s p) \<le> ucopy_len (reader s), s\<lparr>reader := (reader s)\<lparr>ucopy_len := ucopy_len (reader s) - min (rx_len (seg_of s p)) (ucopy_len (reader s))\<rparr>,
              meta_copied_seq := meta_copied_seq s + min (rx_len (seg_of s p)) (ucopy_len (reader s))\<rparr>)
      else (False, s))"
  by (auto simp: mptcp_direct_copy_def Let_def min_def)

text \<open>What one segment does: with old numbers only it just leaves the subflow; otherwise it is read or queued, and what follows in the out-of-order
  queue is delivered behind it.\<close>

definition read_on :: "u32 \<Rightarrow> in_kernel \<Rightarrow> skb_ptr \<Rightarrow> rx_skb \<Rightarrow> in_state \<Rightarrow> skb_ptr list \<Rightarrow> in_state \<Rightarrow> bool" where
  "read_on base k p x s del s' \<longleftrightarrow>
     (let r = mrx s; r' = mrx s'; s1 = take_out p s;
          copies = direct_possible p s1 \<and> skb_copy_ok k s1 p;
          eaten = copies \<and> rx_len x \<le> ucopy_len (reader s) \<or> in_time_wait r
      in ofo_inv r' \<and> data_queued s' \<and>
         meta_copied_seq s' = (if copies then meta_copied_seq s + min (rx_len x) (ucopy_len (reader s)) else meta_copied_seq s) \<and>
         meta_rcvq r' = (if eaten then meta_rcvq r else meta_rcvq (tcp_queue_rcv k p (mrx s1))) @ del \<and>
         joins base (rxs r) (pos base (rx_end_seq x)) del (pos base (rcv_nxt (rx_meta r'))) \<and>
         rcv64_moves r (pos base (rcv_nxt (rx_meta r')) - pos base (rcv_nxt (rx_meta r))) r' \<and>
         (if rx_fin x \<and> \<not> in_time_wait r then del = [] \<and> ofo r' = [] \<and> rx_done r' else ofo_left base r del r'))"

lemma take_out_sel:
  "sub (take_out p s) = (sub s)\<lparr>copied_seq := rx_end_seq (seg_of s p)\<rparr>" "subq (take_out p s) = remove1 p (subq s)"
  "reader (take_out p s) = reader s" "meta_copied_seq (take_out p s) = meta_copied_seq s" "data_queued (take_out p s) = data_queued s"
  by (simp_all add: take_out_def consume_def set_seg_def)

lemma reader_step:
  assumes inv: "ofo_inv (mrx s)" "rcv_high_inv (rx_mpcb (mrx s))" "window base (mrx s)" "ofo_waits base (mrx s)"
    and fin: "fin_sock (rxk k) (mrx s) \<noteq> None" "done_keeps (rxk k)" "queue_keeps k" and p: "p \<notin> set (ofo (mrx s))"
    and x: "x = mptcp_prepare_skb (sub s) (seg_of s p)" "rx_ok base x"
    and ahead: "pos base (rx_seq x) \<le> pos base (rcv_nxt (rx_meta (mrx s)))"
  shows "\<exists>s' del. to_reader k p s = Some s' \<and> subq s' = remove1 p (subq s) \<and> copied_seq (sub s') = rx_end_seq (seg_of s p) \<and>
    (if pos base (rx_end_seq x) \<le> pos base (rcv_nxt (rx_meta (mrx s))) then s' = take_out p s
     else read_on base k p x s del s')"
proof -
  let ?n = "rcv_nxt (rx_meta (mrx s))"
  define s1 where "s1 = take_out p s"
  have x1: "seg_of s1 p = x" by (simp add: s1_def seg_of_def take_out_mrx x(1))
  have same1: "same_rx (mrx s) (mrx s1)" unfolding s1_def by (rule take_out_same [OF p])
  have n1: "rx_meta (mrx s1) = rx_meta (mrx s)" "in_time_wait (mrx s1) = in_time_wait (mrx s)" "meta_rcvq (mrx s1) = meta_rcvq (mrx s)"
    using same1 by (simp_all add: same_rx_def s1_def take_out_mrx)
  note sel = take_out_sel [of p s, folded s1_def]
  have w: "pos base ?n < 2 ^ 31" "pos base (rx_end_seq x) < 2 ^ 31"
    using inv(3) rx_okD [OF x(2)] by (simp_all add: window_def)
  show ?thesis
  proof (cases "after (rx_end_seq x) ?n")
    case False
    then have "to_reader k p s = Some s1" by (simp add: to_reader_def Let_def s1_def [symmetric] x1 n1)
    moreover have "pos base (rx_end_seq x) \<le> pos base ?n" using False w by (simp add: pos_after not_less)
    ultimately show ?thesis using sel s1_def by auto
  next
    case True
    then have gain: "pos base ?n < pos base (rx_end_seq x)" using w by (simp add: pos_after)
    define cs where "cs = (if direct_possible p s1 then mptcp_direct_copy k p s1 else (False, s1))"
    define copies where "copies \<longleftrightarrow> direct_possible p s1 \<and> skb_copy_ok k s1 p"
    have m2: "mrx (snd cs) = mrx s1" "subq (snd cs) = subq s1" "sub (snd cs) = sub s1"
      "meta_copied_seq (snd cs) = (if copies then meta_copied_seq s + min (rx_len x) (ucopy_len (reader s)) else meta_copied_seq s)"
      "fst cs \<longleftrightarrow> copies \<and> rx_len x \<le> ucopy_len (reader s)"
      by (auto simp: cs_def copies_def direct_copy_eq x1 sel)
    define eaten where "eaten \<longleftrightarrow> fst cs \<or> in_time_wait (mrx s)"
    define r2 where "r2 = (if eaten then mrx s1 else tcp_queue_rcv k p (mrx s1))"
    have same2: "same_rx (mrx s) r2"
      using same1 same_rx_trans [OF same1 queue_keeps_same [OF fin(3)]] by (simp add: r2_def)
    note facts = same_rx_facts [OF same2]
    have rest2: "ofo r2 = ofo (mrx s)" "\<And>q. q \<in> set (ofo (mrx s)) \<Longrightarrow> rxs r2 q = rxs (mrx s) q" "rx_done r2 = rx_done (mrx s)"
      "in_time_wait r2 = in_time_wait (mrx s)" using same2 by (simp_all add: same_rx_def)
    define r3 where "r3 = advance (rx_end_seq x) r2"
    let ?f = "rx_fin x \<and> \<not> in_time_wait (mrx s)"
    have i3: "ofo_inv r3" by (rule ofo_inv_transfer [OF facts(1) [OF inv(1)]]) (simp_all add: r3_def)
    have step: "rcv64_moves (mrx s) (pos base (rx_end_seq x) - pos base ?n) r3"
      using advance_step [of r2 base "rx_end_seq x"] inv(2) gain facts by (simp add: r3_def rcv64_moves_def)
    then have high3: "rcv_high_inv (rx_mpcb r3)" by (simp add: rcv64_moves_def)
    have win3: "window base r3" using facts(2) [OF inv(3)] w by (simp add: r3_def window_def)
    have fs3: "fin_sock (rxk k) r3 \<noteq> None"
      using fin(1) facts fin_sock_cong [of r3 r2 "rxk k"] by (simp add: r3_def)
    obtain r' del where r': "after_data (rxk k) ?f r3 = Some r'"
      and d: "if ?f then del = [] \<and> ofo r' = [] \<and> rx_done r' \<and> ofo_inv r' \<and> meta_rcvq r' = meta_rcvq r3 \<and>
         rcv_nxt (rx_meta r') = rcv_nxt (rx_meta r3) \<and> rx_mpcb r' = rx_mpcb r3 else drained base r3 del r'"
      using after_advance [OF i3 high3 win3 fs3 fin(2)] by blast
    let ?s' = "(snd cs)\<lparr>mrx := r', data_queued := True\<rparr>"
    have res: "to_reader k p s = Some ?s'"
      using True r' by (simp add: to_reader_def Let_def s1_def [symmetric] x1 n1 cs_def [symmetric] split_beta m2(1)
          eaten_def [symmetric] r2_def [symmetric] r3_def [symmetric] cong: if_cong) (simp add: r3_def rest2(4))
    have q3: "meta_rcvq r3 = (if eaten then meta_rcvq (mrx s) else meta_rcvq (tcp_queue_rcv k p (mrx s1)))"
      by (simp add: r3_def r2_def n1)
    have n3: "rcv_nxt (rx_meta r3) = rx_end_seq x" by (simp add: r3_def)
    have "ofo_inv r' \<and> meta_rcvq r' = meta_rcvq r3 @ del \<and>
        joins base (rxs (mrx s)) (pos base (rx_end_seq x)) del (pos base (rcv_nxt (rx_meta r'))) \<and>
        rcv64_moves (mrx s) (pos base (rcv_nxt (rx_meta r')) - pos base ?n) r' \<and>
        (if ?f then del = [] \<and> ofo r' = [] \<and> rx_done r' else ofo_left base (mrx s) del r')"
    proof (cases ?f)
      case True
      then have d': "del = []" "ofo r' = []" "rx_done r'" "ofo_inv r'" "meta_rcvq r' = meta_rcvq r3"
        "rcv_nxt (rx_meta r') = rcv_nxt (rx_meta r3)" "rx_mpcb r' = rx_mpcb r3" using d by simp_all
      then show ?thesis using True n3 rcv64_moves_trans [OF step rcv64_moves_0 [OF high3 d'(7,6)]] by simp
    next
      case False
      then have dr: "drained base r3 del r'" using d by auto
      then have j: "joins base (rxs r3) (pos base (rx_end_seq x)) del (pos base (rcv_nxt (rx_meta r')))"
        "rcv64_moves r3 (pos base (rcv_nxt (rx_meta r')) - pos base (rx_end_seq x)) r'" "ofo_left base r3 del r'"
        by (simp_all add: drained_def n3)
      have left: "ofo_left base (mrx s) del r'"
        by (rule ofo_left_same [OF j(3)]) (use rest2 in \<open>simp_all add: r3_def\<close>)
      then have "set del \<subseteq> set (ofo (mrx s))" by (auto simp: ofo_left_def)
      then have "joins base (rxs (mrx s)) (pos base (rx_end_seq x)) del (pos base (rcv_nxt (rx_meta r')))"
        using joins_cong [of del "rxs r3" "rxs (mrx s)"] j(1) rest2(2) by (metis advance_sel(2) r3_def subsetD)
      moreover have "pos base (rx_end_seq x) \<le> pos base (rcv_nxt (rx_meta r'))" by (rule joins_le [OF j(1)])
      then have "rcv64_moves (mrx s) (pos base (rcv_nxt (rx_meta r')) - pos base ?n) r'"
        using rcv64_moves_trans [OF step j(2)] gain by simp
      ultimately show ?thesis using False left dr by (simp add: drained_def if_not_P [OF False] del: de_Morgan_conj)
    qed
    then have "read_on base k p x s del ?s'"
      unfolding read_on_def Let_def s1_def [symmetric] copies_def [symmetric] using m2(4,5) q3 by (simp add: eaten_def)
    then show ?thesis using res m2(2,3) sel gain by auto
  qed
qed


section \<open>Properties\<close>

lemma mapping_end_to_end:
  assumes "covers_mapping skb" and "unat (skb_end_seq skb - skb_seq skb) < 2 ^ 16" and "skb_end_seq skb \<noteq> skb_seq skb"
    and "\<not> has (mptcp_flags skb) MPTCPHDR_INF"
    and "other_flags fl" and "seg_of s p = wire_segment ops mpcb meta_tp tp fin fl skb" and "rcv_isn (sub s) = snt_isn tp"
    and "\<not> mapping_present (sub s)" and "\<not> infinite_mapping_rcv (rx_mpcb (mrx s))" and "\<not> send_mp_fail (sub s)"
    and "rcv_high_inv (rx_mpcb (mrx s))" and "skb_seq skb = ucast n"
    and "unat (n - mptcp_get_rcv_nxt_64 (rx_mpcb (mrx s)) (rx_meta (mrx s))) < 2 ^ 31"
  shows "\<exists>s'. mptcp_detect_mapping sk p s = (Go_On, s') \<and> map_data_seq (sub s') = n \<and>
    mptcp_prepare_skb (sub s') (seg_of s' p) = (seg_of s p)\<lparr>rx_seq := skb_seq skb, rx_end_seq := skb_end_seq skb,
      rx_tcp_flags := (if mptcp_is_data_fin skb then TCPHDR_FIN else 0)\<rparr>"
proof -
  obtain s' where s': "mptcp_detect_mapping sk p s = (Go_On, s')" "map_data_seq (sub s') = n"
    "map_subseq (sub s') = write_seq tp" "seg_of s' p = seg_of s p" "map_data_fin (sub s') = mptcp_is_data_fin skb"
    "ucast (map_data_len (sub s')) = skb_len skb"
    using mapping_round_trip [OF assms(1-13)] by blast
  then show ?thesis using prepared_numbers [OF assms(5,1) s'(3), of ops mpcb meta_tp fin] assms(6,12) by simp
qed

text \<open>C22. The check of a mapping, outside the infinite mode.  A segment without a mapping goes on, unless no mapping is in force and more than 64 KiB are
  not mapped yet.  A segment with a mapping while one is in force goes on exactly when the data sequence number, the number on the subflow, the length and the data-FIN are all those
  of the mapping in force, and resets the subflow otherwise.  A new mapping is dropped while failures are signalled (unless it is the infinite one), resets the subflow when it lies
  beside the segment, and else comes into force with its numbers.  A reset sends the reset of this subflow as its last action and changes neither mapping nor queue; a dropped segment is taken out of the
  queue; going on with a mapping in force changes nothing of it.\<close>

theorem mptcp_detect_mapping_verdict:
  assumes "mptcp_detect_mapping sk p s = (v, s')" and "\<not> infinite_mapping_rcv (rx_mpcb (mrx s))"
    and "x = seg_of s p" and "unat (rx_len x) < 2 ^ 16" and "m = sub s"
    and "mptcp_skb_set_data_seq (Some (rx_mpcb (mrx s))) x = (data_seq, words, x')"
    and "sub_seq = (if rx_data_fin x \<and> rx_len x = 0 then rx_seq x else words ! 0 + rcv_isn m)"
    and "data_len = drop_bit 16 (words ! 1)"
    and "start = (if data_len = 0 then rx_seq x else sub_seq)"
    and "l = (if data_len = 0 then rx_len x else if rx_data_fin x then data_len - 1 else data_len)"
  shows "v = (if \<not> rx_data_seq x
        then (if \<not> mapping_present m \<and> rcv_nxt (tp_of sk s) - copied_seq m > 65536 then Broken else Go_On)
        else if mapping_present m
        then (if data_seq = ucast (map_data_seq m) \<and> sub_seq = map_subseq m \<and>
                 data_len = ucast (map_data_len m) + of_bool (map_data_fin m) \<and> rx_data_fin x = map_data_fin m
              then Go_On else Broken)
        else if data_len \<noteq> 0 \<and> send_mp_fail m then Dropped
        else if outside_map x start l then Broken else Go_On) \<and>
    (v = Go_On \<and> rx_data_seq x \<and> \<not> mapping_present m \<longrightarrow> mapping_present (sub s') \<and> map_subseq (sub s') = start \<and>
        ucast (map_data_len (sub s')) = l \<and> map_data_fin (sub s') = rx_data_fin x \<and>
        map_data_seq (sub s') = map_seq64 x' data_seq (rx_meta (mrx s)) (rx_mpcb (mrx s))) \<and>
    verdict_ok sk p s v s'"
  using detect_cases [OF assms] detect_verdict [OF assms(1,2)] assms(3,4) by blast


section \<open>Closed instances\<close>

definition sample_map :: sub_map where
  "sample_map = \<lparr>map_data_seq = 0, map_subseq = 0, map_data_len = 0, map_data_fin = False, mapping_present = False,
     send_mp_fail = False, copied_seq = 0, rcv_isn = 0, init_rcv_wnd = 0, sub_rcv_shutdown = False, close_it = False\<rparr>"

definition sample_in :: "rx_state \<Rightarrow> skb_ptr list \<Rightarrow> in_state" where
  "sample_in r q = \<lparr>mrx = r, sub = sample_map, subq = q, meta_copied_seq = 0, rcv_wup = 0, csum_cutoff_seq = 0,
     reader = \<lparr>ucopy_current = False, ucopy_owned = False, ucopy_len = 0\<rparr>, lowpass = sample_lp, pm_established = False,
     ticks = 0, data_queued = False\<rparr>"

definition sample_in_kernel :: in_kernel where
  "sample_in_kernel = \<lparr>rxk = sample_rx_kernel, alloc_skb = (\<lambda>_. None), tcp_receive_window = (\<lambda>_. 1000),
     skb_checksum = (\<lambda>_ _ _ c. c), csum_partial = (\<lambda>_ c. c), csum_fold = (\<lambda>_. 0), first_byte = (\<lambda>_. 0),
     dss_offset = (\<lambda>_. 0), skb_copy_ok = (\<lambda>_ _. True), tcp_queue_rcv = (\<lambda>p r. r\<lparr>meta_rcvq := meta_rcvq r @ [p]\<rparr>),
     ktime_get = (\<lambda>_. 2100), lp_sysctls = \<lparr>sysctl_lowpassmaxwait = 200000, sysctl_lplearnrate = 3\<rparr>\<rparr>"

definition sample_sent :: sk_buff where
  "sample_sent = sample_skb\<lparr>skb_seq := 50, skb_end_seq := 150\<rparr>"

definition sample_arrived :: in_state where
  "sample_arrived = sample_in (sample_rx_state
     (\<lambda>_. wire_segment sample_ops sample_mpcb sample_sock sample_sock False 0 sample_sent) [] (\<lambda>_. None) 0) [7]"

lemma sample_arrived_facts:
  "seg_of sample_arrived 7 = wire_segment sample_ops sample_mpcb sample_sock sample_sock False 0 sample_sent"
  "sub sample_arrived = sample_map" "rx_mpcb (mrx sample_arrived) = sample_mpcb" "rx_meta (mrx sample_arrived) = sample_sock\<lparr>rcv_nxt := 0\<rparr>"
  "ofo (mrx sample_arrived) = []" "rx_conns (mrx sample_arrived) = [1, 2]" "shortcut_ofoqueue (mrx sample_arrived) = (\<lambda>_. None)"
  "dfin_path_index (mrx sample_arrived) = 1" "rx_socks (mrx sample_arrived) = (\<lambda>sk. sample_sock\<lparr>path_index := of_nat sk\<rparr>)"
  by (simp_all add: sample_arrived_def sample_in_def sample_rx_state_def seg_of_def)

lemma sample_high: "rcv_high_inv sample_mpcb" "mptcp_get_rcv_nxt_64 sample_mpcb (sample_sock\<lparr>rcv_nxt := c\<rparr>) = seq64 7 c"
  by (simp_all add: rcv_high_inv_def sample_mpcb_def mptcp_get_rcv_nxt_64_def mptcp_get_data_seq_64_def)

lemma sample_sent_facts:
  "covers_mapping sample_sent" "unat (skb_end_seq sample_sent - skb_seq sample_sent) < 2 ^ 16"
  "skb_end_seq sample_sent \<noteq> skb_seq sample_sent" "\<not> has (mptcp_flags sample_sent) MPTCPHDR_INF"
  "other_flags 0" "skb_seq sample_sent = 50" "\<not> mptcp_is_data_fin sample_sent"
  by (simp_all add: other_flags_def sample_sent_def covers_mapping_def mptcp_is_data_fin_def sample_skb_def has_def)

theorem mptcp_detect_mapping_verdict_witness:
  "\<exists>v s'. mptcp_detect_mapping 1 7 sample_arrived = (v, s') \<and> verdict_ok 1 7 sample_arrived v s'"
proof -
  obtain v s' where d: "mptcp_detect_mapping 1 7 sample_arrived = (v, s')" by fastforce
  obtain ds ws x' where o: "mptcp_skb_set_data_seq (Some (rx_mpcb (mrx sample_arrived))) (seg_of sample_arrived 7) = (ds, ws, x')"
    by (cases "mptcp_skb_set_data_seq (Some (rx_mpcb (mrx sample_arrived))) (seg_of sample_arrived 7)") auto
  have "\<not> infinite_mapping_rcv (rx_mpcb (mrx sample_arrived))" "unat (rx_len (seg_of sample_arrived 7)) < 2 ^ 16"
    by (simp_all add: sample_arrived_facts sample_mpcb_def wire_segment_def sample_sent_def sample_skb_def)
  from mptcp_detect_mapping_verdict [OF d this(1) refl this(2) refl o refl refl refl refl] d show ?thesis by blast
qed




text \<open>In infinite mode the length of a segment is stored in 16 bits: for a segment of 64 KiB the mapping is empty.\<close>

lemma infinite_map_truncates:
  "rx_len skb = 65536 \<Longrightarrow> map_data_len (infinite_map s skb m) = 0"
  by (simp add: infinite_map_def)

end
