(* ===== verification/Options_RoundTrip.thy ===== *)
theory Options_RoundTrip
  imports Options Data_Input
begin

text \<open>
  The options of \<open>mptcp_output.c\<close> read by the parser of \<open>mptcp_input.c\<close>: the handshake, and the mapping of a
  data segment, from the bytes in the header to the numbers the receiver works with; and the room that the
  options of an established subflow take.
\<close>

section \<open>Reading what was written\<close>

lemma be32_nth:
  "(be32 w @ r) ! 0 = ucast (drop_bit 24 w)" "(be32 w @ r) ! 1 = ucast (drop_bit 16 w)"
  "(be32 w @ r) ! 2 = ucast (drop_bit 8 w)" "(be32 w @ r) ! 3 = ucast w"
  by (simp_all add: be32_def numeral_2_eq_2 numeral_3_eq_3)

lemma mem32_nth:
  "(mem32 w @ r) ! 0 = ucast w" "(mem32 w @ r) ! 1 = ucast (drop_bit 8 w)"
  "(mem32 w @ r) ! 2 = ucast (drop_bit 16 w)" "(mem32 w @ r) ! 3 = ucast (drop_bit 24 w)"
  by (simp_all add: mem32_def numeral_2_eq_2 numeral_3_eq_3)

text \<open>A word is put together again from its four bytes.\<close>

lemma four_bytes:
  "push_bit 24 (ucast (ucast (drop_bit 24 w) :: u8)) OR push_bit 16 (ucast (ucast (drop_bit 16 w) :: u8)) OR
   push_bit 8 (ucast (ucast (drop_bit 8 w) :: u8)) OR ucast (ucast w :: u8) = (w :: u32)" (is "?v = w")
proof (rule bit_word_eqI)
  fix n assume n: "n < LENGTH(32)"
  consider "n < 8" | "8 \<le> n" "n < 16" | "16 \<le> n" "n < 24" | "24 \<le> n" by linarith
  then show "bit ?v n = bit w n" using n by cases (auto simp: bit_or_iff bit_push_bit_iff bit_ucast_iff bit_drop_bit_eq)
qed

lemma get_be32_be32 [simp]: "get_be32 (be32 w @ r) = w"
  unfolding get_be32_def be32_nth by (rule four_bytes)

lemma get_be32_be32' [simp]: "get_be32 (be32 w) = w"
  using get_be32_be32 [of w "[]"] by simp

lemma get_mem32_mem32 [simp]: "get_mem32 (mem32 w @ r) = w"
  unfolding get_mem32_def mem32_nth using four_bytes [of w] by (simp only: ac_simps)

lemma drop_lengths [simp]: "drop 4 (be32 w @ r) = r" "drop 4 (mem32 w @ r) = r" "drop 8 (mem64 v @ r) = r"
  by (simp_all add: be32_def mem32_def mem64_def)

lemma get_mem64_mem64 [simp]: "get_mem64 (mem64 w @ r) = w"
proof -
  have "mem64 w @ r = mem32 (ucast w) @ (mem32 (ucast (drop_bit 32 w)) @ r)" by (simp add: mem64_def)
  then show ?thesis using seq64_split [of w] by (simp only: get_mem64_def drop_lengths get_mem32_mem32)
qed

lemma get_be16_high: "get_be16 (be32 w @ r) = ucast (drop_bit 16 w)"
proof (rule bit_word_eqI)
  fix n assume "n < LENGTH(16)"
  then show "bit (get_be16 (be32 w @ r)) n = bit (ucast (drop_bit 16 w) :: u16) n"
    by (auto simp: get_be16_def be32_def bit_simps)
qed

lemma get_words_be32 [simp]: "get_words (be32 w @ r) = w # get_words r"
  using get_be32_be32 [of w "[]"] by (simp add: be32_def)

lemma get_words_concat: "length r < 4 \<Longrightarrow> get_words (concat (map be32 ws) @ r) = ws"
proof (induction ws)
  case Nil
  then show ?case by (cases r rule: get_words.cases) simp_all
qed simp

lemma nibble: "(x :: u8) AND 0xF = take_bit 4 x"
  by (simp add: take_bit_eq_mask mask_eq_exp_minus_1)

lemma sub_byte_parts:
  assumes "l AND 0xF = l" and "s AND 0xF = s"
  shows "drop_bit 4 (sub_byte s l) = s" "sub_byte s l AND 0xF = l"
proof -
  have t: "take_bit 4 s = s" "take_bit 4 l = l" using assms by (simp_all only: nibble)
  have b: "bit s n \<Longrightarrow> n < 4" "bit l n \<Longrightarrow> n < 4" for n using t bit_take_bit_iff by metis+
  show "drop_bit 4 (sub_byte s l) = s"
    by (rule bit_word_eqI) (auto simp: sub_byte_def bit_drop_bit_eq bit_or_iff bit_push_bit_iff dest: b)
  show "sub_byte s l AND 0xF = l" unfolding nibble
    by (rule bit_word_eqI) (auto simp: sub_byte_def bit_take_bit_iff bit_or_iff bit_push_bit_iff dest: b)
qed

section \<open>The DSS option\<close>

lemma nibbles [simp]: "MPTCP_SUB_DSS AND 0xF = MPTCP_SUB_DSS" "MPTCP_SUB_JOIN AND 0xF = MPTCP_SUB_JOIN"
  "MPTCP_SUB_CAPABLE AND 0xF = MPTCP_SUB_CAPABLE" "flag 0 x AND 0xF = flag 0 x" "(0::u8) AND 0xF = 0"
  by (simp_all add: MPTCP_SUB_DSS_def MPTCP_SUB_JOIN_def MPTCP_SUB_CAPABLE_def flag_def)

lemma get_dss_bytes [simp]:
  "get_dss (dss_bytes m ws @ r) = m" "drop 4 (dss_bytes m ws @ r) = concat (map be32 ws) @ r"
  "drop_bit 4 ((dss_bytes m ws @ r) ! 2) = MPTCP_SUB_DSS"
proof -
  show "get_dss (dss_bytes m ws @ r) = m"
    by (cases m; cases "dss_A m"; cases "dss_a m"; cases "dss_M m"; cases "dss_m m"; cases "dss_F m")
       (simp_all add: get_dss_def dss_bytes_def flag_def numeral_2_eq_2 numeral_3_eq_3 bit_or_iff bit_push_bit_iff)
  show "drop 4 (dss_bytes m ws @ r) = concat (map be32 ws) @ r" by (simp add: dss_bytes_def)
  show "drop_bit 4 ((dss_bytes m ws @ r) ! 2) = MPTCP_SUB_DSS"
    using sub_byte_parts(1) [of 0 MPTCP_SUB_DSS] by (simp add: dss_bytes_def numeral_2_eq_2)
qed

text \<open>The flags a saved mapping leads to.\<close>

definition dss_flags :: "bool \<Rightarrow> bool \<Rightarrow> u8" where
  "dss_flags csum fin = MPTCPHDR_ACK OR MPTCPHDR_SEQ OR (if csum then MPTCPHDR_DSS_CSUM else 0) OR (if fin then MPTCPHDR_FIN else 0)"

lemma parse_dss_saved:
  assumes m: "m = \<lparr>dss_len = mptcp_sub_len_dss \<lparr>dss_len = 0, dss_A = True, dss_a = False, dss_M = True, dss_m = False, dss_F = fin\<rparr> csum,
      dss_A = True, dss_a = False, dss_M = True, dss_m = False, dss_F = fin\<rparr>"
    and bs: "bs = dss_bytes m [ack, seq, subseq, word]"
  shows "mptcp_parse_options cs v bs (unat (dss_len m)) (mopt, x) =
    (mopt\<lparr>data_ack := ack, rcv_data_seq := seq, data_len := ucast (drop_bit 16 word)\<rparr>,
     x\<lparr>rx_dss := [seq, subseq, word], rx_flags := rx_flags x OR dss_flags csum fin\<rparr>)"
proof -
  have p: "get_dss bs = m" "drop 4 bs = be32 ack @ be32 seq @ be32 subseq @ be32 word" "drop_bit 4 (bs ! 2) = MPTCP_SUB_DSS"
    using get_dss_bytes [of m "[ack, seq, subseq, word]" "[]"] by (simp_all add: bs)
  have len: "unat (dss_len m) = (if csum then 20 else 18)" by (cases csum) (simp_all add: m mptcp_sub_len_dss_def)
  have l: "unat (mptcp_sub_len_dss m c) = (if c then 20 else 18)" for c by (cases c) (simp_all add: m mptcp_sub_len_dss_def)
  have g: "get_words (be32 seq @ be32 subseq @ be32 word) = [seq, subseq, word]"
    using get_words_be32 [of word "[]"] by simp
  have g1: "get_words (be32 word) = [word]" using get_words_be32 [of word "[]"] by simp
  have d8: "drop 8 (be32 seq @ be32 subseq @ be32 word) = be32 word" by (simp add: be32_def)
  have h: "get_be16 (be32 word) = ucast (drop_bit 16 word)" using get_be16_high [of word "[]"] by simp
  have ds: "dss_A m" "\<not> dss_a m" "dss_M m" "\<not> dss_m m" "dss_F m = fin" by (simp_all add: m)
  have "parse_dss bs (unat (dss_len m)) (mopt, x) =
    (mopt\<lparr>data_ack := ack, rcv_data_seq := seq, data_len := ucast (drop_bit 16 word)\<rparr>,
     x\<lparr>rx_dss := [seq, subseq, word], rx_flags := rx_flags x OR dss_flags csum fin\<rparr>)"
    by (cases csum; cases fin)
       (simp_all add: parse_dss_def Let_def p len l parse_dss_ack_def parse_dss_map_def ds g g1 d8 h add_flag_def dss_flags_def ac_simps)
  then show ?thesis
    by (simp add: mptcp_parse_options_def p(3) MPTCP_SUB_CAPABLE_def MPTCP_SUB_JOIN_def MPTCP_SUB_DSS_def)
qed


text \<open>The words of a saved mapping.\<close>

lemma saved_words:
  fixes ops mpcb meta_tp tp skb
  defines "b \<equiv> mptcp_save_dss_data_seq ops mpcb meta_tp tp skb"
  shows "\<exists>subseq word. tl (dss_words b) = [skb_seq skb, subseq, word] \<and>
    dss_hdr b = \<lparr>dss_len = mptcp_sub_len_dss \<lparr>dss_len = 0, dss_A = True, dss_a = False, dss_M = True, dss_m = False,
        dss_F = mptcp_is_data_fin skb\<rparr> (dss_csum mpcb), dss_A = True, dss_a = False, dss_M = True, dss_m = False,
      dss_F = mptcp_is_data_fin skb\<rparr> \<and>
    (\<not> dss_csum mpcb \<longrightarrow> (\<exists>h. word = push_bit 16 h OR push_bit 8 TCPOPT_NOP OR TCPOPT_NOP))"
proof -
  let ?skb = "skb\<lparr>mptcp_flags := setf (mptcp_flags skb) MPTCPHDR_SEQ\<rparr>"
  let ?w = "mptcp_write_dss_mapping ops mpcb tp ?skb"
  have "\<exists>s0 s1 s2. ?w = [s0, s1, s2]" by (auto simp: mptcp_write_dss_mapping_def Let_def)
  then obtain s0 s1 s2 where w: "?w = [s0, s1, s2]" by blast
  have s0: "s0 = skb_seq skb" using dss_words_mapping(1) [of ops mpcb tp ?skb] w by simp
  have f: "mptcp_is_data_fin ?skb = mptcp_is_data_fin skb" "mptcp_is_data_seq ?skb"
    by (simp_all add: mptcp_is_data_fin_def mptcp_is_data_seq_def flag_simps)
  have "tl (dss_words b) = [skb_seq skb, s1, s2]"
    using w s0 by (simp add: b_def mptcp_save_dss_data_seq_def mptcp_write_dss_data_ack_def Let_def)
  moreover have "dss_hdr b = \<lparr>dss_len = mptcp_sub_len_dss \<lparr>dss_len = 0, dss_A = True, dss_a = False, dss_M = True, dss_m = False,
        dss_F = mptcp_is_data_fin skb\<rparr> (dss_csum mpcb), dss_A = True, dss_a = False, dss_M = True, dss_m = False,
      dss_F = mptcp_is_data_fin skb\<rparr>"
    using f by (simp add: b_def mptcp_save_dss_data_seq_def mptcp_write_dss_data_ack_def Let_def)
  moreover have "\<not> dss_csum mpcb \<Longrightarrow> \<exists>h. s2 = push_bit 16 h OR push_bit 8 TCPOPT_NOP OR TCPOPT_NOP"
    using w by (auto simp: mptcp_write_dss_mapping_def Let_def)
  ultimately show ?thesis by blast
qed

lemma nop_tail: "drop 2 (be32 (push_bit 16 h OR push_bit 8 TCPOPT_NOP OR TCPOPT_NOP)) = [OPT_NOP, OPT_NOP]"
proof -
  have z: "ucast (push_bit 16 h :: u32) = (0 :: u8)" "ucast (drop_bit 8 (push_bit 16 h :: u32)) = (0 :: u8)"
    by (rule bit_word_eqI, auto simp: bit_simps)+
  have n: "push_bit 8 TCPOPT_NOP OR TCPOPT_NOP = 257" by (simp add: TCPOPT_NOP_def)
  have "ucast (drop_bit 8 (push_bit 16 h OR 257) :: u32) = (1 :: u8)"
    by (simp add: drop_bit_or unsigned_or_eq z)
  moreover have "ucast (push_bit 16 h OR 257 :: u32) = (1 :: u8)" by (simp add: unsigned_or_eq z)
  ultimately show ?thesis by (simp only: n or.assoc) (simp add: be32_def OPT_NOP_def)
qed


lemma parse_nops: "tcp_parse_mptcp_options cs [OPT_NOP, OPT_NOP] r = r"
  by (simp add: tcp_parse_mptcp_options.simps(2) OPT_NOP_def OPT_EOL_def)

text \<open>A DSS option alone in the header.\<close>

lemma parse_saved_option:
  fixes ops mpcb meta_tp tp skb
  defines "b \<equiv> mptcp_save_dss_data_seq ops mpcb meta_tp tp skb"
  shows "\<exists>len. tcp_parse_mptcp_options cs (fst (mptcp_write_dss_data_seq meta_tp' b)) (mopt, x) =
    (mopt\<lparr>data_ack := rcv_nxt meta_tp', rcv_data_seq := skb_seq skb, data_len := len\<rparr>,
     x\<lparr>rx_dss := tl (dss_words b), rx_flags := rx_flags x OR dss_flags (dss_csum mpcb) (mptcp_is_data_fin skb)\<rparr>)"
proof -
  let ?csum = "dss_csum mpcb" and ?fin = "mptcp_is_data_fin skb" and ?ack = "rcv_nxt meta_tp'"
  obtain subseq word where tl: "tl (dss_words b) = [skb_seq skb, subseq, word]"
    and hdr: "dss_hdr b = \<lparr>dss_len = mptcp_sub_len_dss \<lparr>dss_len = 0, dss_A = True, dss_a = False, dss_M = True, dss_m = False,
        dss_F = ?fin\<rparr> ?csum, dss_A = True, dss_a = False, dss_M = True, dss_m = False, dss_F = ?fin\<rparr>"
    and nops: "\<not> ?csum \<Longrightarrow> \<exists>h. word = push_bit 16 h OR push_bit 8 TCPOPT_NOP OR TCPOPT_NOP"
    using saved_words [of ops mpcb meta_tp tp skb] unfolding b_def by blast
  define m where "m = dss_hdr b"
  define bs where "bs = dss_bytes m [?ack, skb_seq skb, subseq, word]"
  have w: "fst (mptcp_write_dss_data_seq meta_tp' b) = bs"
    using tl by (simp add: mptcp_write_dss_data_seq_def bs_def m_def drop_Suc)
  note parse = parse_dss_saved [OF hdr [folded m_def] bs_def, of cs None mopt x]
  have len: "unat (dss_len m) = (if ?csum then 20 else 18)" by (simp add: m_def hdr mptcp_sub_len_dss_def)
  have lbs: "length bs = 20" by (simp add: bs_def)
  obtain rest where bs: "bs = TCPOPT_MPTCP # dss_len m # rest" unfolding bs_def dss_bytes_def by simp
  have rest: "drop (unat (dss_len m)) bs = (if ?csum then [] else [OPT_NOP, OPT_NOP])"
  proof (cases ?csum)
    case True
    then show ?thesis using len lbs by simp
  next
    case False
    then have "drop (unat (dss_len m)) bs = drop 2 (be32 word)"
      using len by (simp add: bs_def dss_bytes_def be32_def)
    then show ?thesis using nops [OF False] nop_tail False by auto
  qed
  have "tcp_parse_mptcp_options cs bs (mopt, x) =
      tcp_parse_mptcp_options cs (drop (unat (dss_len m)) bs) (mptcp_parse_options cs None bs (unat (dss_len m)) (mopt, x))"
    using len lbs bs by (simp add: tcp_parse_mptcp_options.simps(2) TCPOPT_MPTCP_def OPT_NOP_def OPT_EOL_def split: if_splits)
  also have "\<dots> = mptcp_parse_options cs None bs (unat (dss_len m)) (mopt, x)" using rest parse_nops by simp
  finally show ?thesis using parse by (auto simp: w tl)
qed


section \<open>The options of the handshake\<close>

lemma parse_single:
  assumes "bs = TCPOPT_MPTCP # l # rest" and "unat l = length bs"
  shows "tcp_parse_mptcp_options cs bs r = mptcp_parse_options cs None bs (length bs) r"
  using assms by (simp add: tcp_parse_mptcp_options.simps(2) TCPOPT_MPTCP_def OPT_NOP_def OPT_EOL_def)

lemma flags_bits:
  "bit (flag 7 c OR flag 0 True) 7 = c" "\<not> bit (flag 7 c OR flag 0 True) 6" "bit (flag 7 c OR flag 0 True) 0"
  "bit (sub_byte MPTCP_SUB_JOIN (flag 0 c)) 0 = c"
  by (cases c; simp add: flag_def sub_byte_def MPTCP_SUB_JOIN_def bit_or_iff bit_push_bit_iff)+

lemma parse_capable_written:
  assumes "ver AND 0xF = ver"
    and "bs = [TCPOPT_MPTCP, MPTCP_SUB_LEN_CAPABLE_SYN, sub_byte MPTCP_SUB_CAPABLE (ver), flag 7 c OR flag 0 True] @ mem64 key"
  shows "tcp_parse_mptcp_options cs bs (mopt, x) =
    (mopt\<lparr>saw_mpc := True, rcv_dss_csum := (cs \<or> c), mptcp_sender_key := key, rcv_mptcp_ver := ver\<rparr>, x)"
proof -
  have len: "length bs = 12" by (simp add: assms(2))
  have n: "bs ! 2 = sub_byte MPTCP_SUB_CAPABLE (ver)" "bs ! 3 = flag 7 c OR flag 0 True" "drop 4 bs = mem64 key"
    by (simp_all add: assms(2) numeral_2_eq_2 numeral_3_eq_3)
  have k: "get_mem64 (mem64 key) = key" using get_mem64_mem64 [of key "[]"] by simp
  have "tcp_parse_mptcp_options cs bs (mopt, x) = mptcp_parse_options cs None bs (length bs) (mopt, x)"
    by (rule parse_single [of bs MPTCP_SUB_LEN_CAPABLE_SYN "tl (tl bs)"]) (simp_all add: assms(2) MPTCP_SUB_LEN_CAPABLE_SYN_def)
  also have "\<dots> = (mopt\<lparr>saw_mpc := True, rcv_dss_csum := (cs \<or> c), mptcp_sender_key := key, rcv_mptcp_ver := ver\<rparr>, x)"
    using sub_byte_parts [OF assms(1), of MPTCP_SUB_CAPABLE]
    by (simp add: mptcp_parse_options_def parse_capable_def len n k flags_bits MPTCP_SUB_LEN_CAPABLE_SYN_def MPTCP_SUB_LEN_CAPABLE_ACK_def)
  finally show ?thesis .
qed

lemma parse_join_syn_written:
  assumes "bs = [TCPOPT_MPTCP, MPTCP_SUB_LEN_JOIN_SYN, sub_byte MPTCP_SUB_JOIN (flag 0 low), ident] @ mem32 token @ mem32 nonce"
  shows "tcp_parse_mptcp_options cs bs (mopt, x) =
    (mopt\<lparr>is_mp_join := True, saw_mpc := True, rcv_prio := low, rem_id := ident, rcv_rem_token := token, mptcp_recv_nonce := nonce\<rparr>, x)"
proof -
  have len: "length bs = 12" by (simp add: assms)
  have n: "bs ! 2 = sub_byte MPTCP_SUB_JOIN (flag 0 low)" "bs ! 3 = ident" "drop 4 bs = mem32 token @ mem32 nonce" "drop 8 bs = mem32 nonce"
    by (simp_all add: assms mem32_def numeral_2_eq_2 numeral_3_eq_3)
  have k: "get_mem32 (mem32 nonce) = nonce" using get_mem32_mem32 [of nonce "[]"] by simp
  have "tcp_parse_mptcp_options cs bs (mopt, x) = mptcp_parse_options cs None bs (length bs) (mopt, x)"
    by (rule parse_single [of bs MPTCP_SUB_LEN_JOIN_SYN "tl (tl bs)"]) (simp_all add: assms MPTCP_SUB_LEN_JOIN_SYN_def)
  also have "\<dots> = (mopt\<lparr>is_mp_join := True, saw_mpc := True, rcv_prio := low, rem_id := ident, rcv_rem_token := token,
      mptcp_recv_nonce := nonce\<rparr>, x)"
    using sub_byte_parts [of "flag 0 low" MPTCP_SUB_JOIN]
    by (simp add: mptcp_parse_options_def parse_join_def len n k flags_bits MPTCP_SUB_LEN_JOIN_SYN_def MPTCP_SUB_CAPABLE_def
        MPTCP_SUB_JOIN_def [symmetric]) (simp add: MPTCP_SUB_JOIN_def)
  finally show ?thesis .
qed

lemma parse_join_synack_written:
  assumes "bs = [TCPOPT_MPTCP, MPTCP_SUB_LEN_JOIN_SYNACK, sub_byte MPTCP_SUB_JOIN (flag 0 low), ident] @ mem64 mac @ mem32 nonce"
  shows "tcp_parse_mptcp_options cs bs (mopt, x) =
    (mopt\<lparr>saw_mpc := True, rcv_prio := low, rem_id := ident, mptcp_recv_tmac := mac, mptcp_recv_nonce := nonce\<rparr>, x)"
proof -
  have len: "length bs = 16" by (simp add: assms)
  have n: "bs ! 2 = sub_byte MPTCP_SUB_JOIN (flag 0 low)" "bs ! 3 = ident" "drop 4 bs = mem64 mac @ mem32 nonce" "drop 12 bs = mem32 nonce"
    by (simp_all add: assms mem64_def mem32_def numeral_2_eq_2 numeral_3_eq_3)
  have k: "get_mem32 (mem32 nonce) = nonce" using get_mem32_mem32 [of nonce "[]"] by simp
  have "tcp_parse_mptcp_options cs bs (mopt, x) = mptcp_parse_options cs None bs (length bs) (mopt, x)"
    by (rule parse_single [of bs MPTCP_SUB_LEN_JOIN_SYNACK "tl (tl bs)"]) (simp_all add: assms MPTCP_SUB_LEN_JOIN_SYNACK_def)
  also have "\<dots> = (mopt\<lparr>saw_mpc := True, rcv_prio := low, rem_id := ident, mptcp_recv_tmac := mac,
      mptcp_recv_nonce := nonce\<rparr>, x)"
    using sub_byte_parts [of "flag 0 low" MPTCP_SUB_JOIN]
    by (simp add: mptcp_parse_options_def parse_join_def len n k flags_bits MPTCP_SUB_LEN_JOIN_SYN_def MPTCP_SUB_LEN_JOIN_SYNACK_def
        MPTCP_SUB_CAPABLE_def MPTCP_SUB_JOIN_def [symmetric]) (simp add: MPTCP_SUB_JOIN_def)
  finally show ?thesis .
qed


section \<open>From the options to the bytes\<close>

lemma only_opts: "mptcp_options opts = xs \<Longrightarrow> has_opt opts x \<longleftrightarrow> x \<in> xs"
  by (simp add: has_opt_def)

lemma write_dss_only:
  assumes "mptcp_options opts = {DATA_ACK}" and "mptcp_is_data_seq b"
  shows "mptcp_options_write mpcb meta_tp os tp opts b = mptcp_write_dss_data_seq meta_tp b"
  using assms(2)
  by (simp add: mptcp_options_write_def write_defs only_opts [OF assms(1)] split: prod.splits)

lemma write_capable_only:
  assumes "mptcp_options opts = {MP_CAPABLE, y}" and "y = TYPE_SYN \<or> y = TYPE_SYNACK" and "oo_ver opts AND 0xF = oo_ver opts"
  shows "fst (mptcp_options_write mpcb meta_tp os tp opts b) =
    [TCPOPT_MPTCP, MPTCP_SUB_LEN_CAPABLE_SYN, sub_byte MPTCP_SUB_CAPABLE (oo_ver opts), flag 7 (oo_dss_csum opts) OR flag 0 True]
      @ mem64 (sender_key opts)"
  using assms(2)
  by (auto simp: mptcp_options_write_def write_defs only_opts [OF assms(1)] Let_def assms(3))

lemma write_join_syn_only:
  assumes "mptcp_options opts = {MP_JOIN, TYPE_SYN}"
  shows "fst (mptcp_options_write mpcb meta_tp os tp opts b) =
    [TCPOPT_MPTCP, MPTCP_SUB_LEN_JOIN_SYN, sub_byte MPTCP_SUB_JOIN (flag 0 (join_low_prio opts)), oo_addr_id opts]
      @ mem32 (join_token opts) @ mem32 (join_nonce opts)"
  by (simp add: mptcp_options_write_def write_defs only_opts [OF assms(1)] Let_def)

lemma write_join_synack_only:
  assumes "mptcp_options opts = {MP_JOIN, TYPE_SYNACK}"
  shows "fst (mptcp_options_write mpcb meta_tp os tp opts b) =
    [TCPOPT_MPTCP, MPTCP_SUB_LEN_JOIN_SYNACK, sub_byte MPTCP_SUB_JOIN (flag 0 (join_low_prio opts)), oo_addr_id opts]
      @ mem64 (join_tmac opts) @ mem32 (join_nonce opts)"
  by (simp add: mptcp_options_write_def write_defs only_opts [OF assms(1)] Let_def)

lemmas syn_facts = mptcp_syn_options_def mptcp_synack_options_def add_opts_def

section \<open>A segment with its option\<close>

text \<open>The segment of a copy of \<open>skb\<close> as it arrives, before its options are read.\<close>

definition arriving :: "tcp_sock \<Rightarrow> bool \<Rightarrow> sk_buff \<Rightarrow> rx_skb" where
  "arriving tp fin skb = \<lparr>rx_seq = write_seq tp, rx_end_seq = write_seq tp + skb_len skb + of_bool fin, rx_len = skb_len skb,
     rx_flags = 0, rx_tcp_flags = (if fin then TCPHDR_FIN else 0), rx_dss = []\<rparr>"

definition ack_flags :: "bool \<Rightarrow> u8" where
  "ack_flags csum = MPTCPHDR_ACK OR (if csum then MPTCPHDR_DSS_CSUM else 0)"

lemma other_ack_flags: "other_flags (ack_flags csum)"
  by (cases csum) (simp_all add: other_flags_def has_def ack_flags_def MPTCPHDR_ACK_def MPTCPHDR_DSS_CSUM_def MPTCPHDR_FIN_def
      MPTCPHDR_SEQ64_SET_def)

lemma dss_flags_split:
  "dss_flags csum fin = ack_flags csum OR (if fin then MPTCPHDR_SEQ OR MPTCPHDR_FIN else MPTCPHDR_SEQ)"
  by (cases csum; cases fin) (simp_all add: dss_flags_def ack_flags_def ac_simps)

lemma parsed_segment:
  fixes ops mpcb meta_tp tp skb
  defines "b \<equiv> mptcp_save_dss_data_seq ops mpcb meta_tp tp skb"
  assumes "mptcp_options opts = {DATA_ACK}"
  shows "snd (tcp_parse_mptcp_options cs (fst (mptcp_options_write mpcb meta_tp' os tp' opts b)) (mopt, arriving tp fin skb)) =
      wire_segment ops mpcb meta_tp tp fin (ack_flags (dss_csum mpcb)) skb"
    "data_ack (fst (tcp_parse_mptcp_options cs (fst (mptcp_options_write mpcb meta_tp' os tp' opts b)) (mopt, arriving tp fin skb))) =
      rcv_nxt meta_tp'"
proof -
  have seq: "mptcp_is_data_seq b"
    by (simp add: b_def mptcp_is_data_seq_def flag_simps save_dss_simps)
  obtain len where p: "tcp_parse_mptcp_options cs (fst (mptcp_write_dss_data_seq meta_tp' b)) (mopt, arriving tp fin skb) =
    (mopt\<lparr>data_ack := rcv_nxt meta_tp', rcv_data_seq := skb_seq skb, data_len := len\<rparr>,
     (arriving tp fin skb)\<lparr>rx_dss := tl (dss_words b), rx_flags := rx_flags (arriving tp fin skb) OR
       dss_flags (dss_csum mpcb) (mptcp_is_data_fin skb)\<rparr>)"
    using parse_saved_option [of cs meta_tp' ops mpcb meta_tp tp skb mopt "arriving tp fin skb"] unfolding b_def by blast
  show "snd (tcp_parse_mptcp_options cs (fst (mptcp_options_write mpcb meta_tp' os tp' opts b)) (mopt, arriving tp fin skb)) =
      wire_segment ops mpcb meta_tp tp fin (ack_flags (dss_csum mpcb)) skb"
    "data_ack (fst (tcp_parse_mptcp_options cs (fst (mptcp_options_write mpcb meta_tp' os tp' opts b)) (mopt, arriving tp fin skb))) =
      rcv_nxt meta_tp'"
    unfolding write_dss_only [OF assms(2) seq] p
    by (simp_all add: arriving_def wire_segment_def b_def dss_flags_split)
qed


section \<open>Properties\<close>

text \<open>C14. From the sender to the receiver, through the bytes of the option: a segment that was put on a subflow
  with a mapping is sent with the DSS option that the code writes; the receiver parses the option, gives
  the mapping the 64-bit number of its first byte, and after the conversion the segment has exactly the
  data sequence numbers it had at the sender, and a FIN flag when it carries a data-FIN.\<close>

theorem mptcp_mapping_end_to_end:
  assumes "covers_mapping skb" and "unat (skb_end_seq skb - skb_seq skb) < 2 ^ 16" and "skb_end_seq skb \<noteq> skb_seq skb"
    and "\<not> has (mptcp_flags skb) MPTCPHDR_INF" and "mptcp_options opts = {DATA_ACK}"
    and "seg_of s p = snd (tcp_parse_mptcp_options cs (fst (mptcp_options_write mpcb meta_tp' os tp' opts
           (mptcp_save_dss_data_seq ops mpcb meta_tp tp skb))) (mopt, arriving tp fin skb))"
    and "rcv_isn (sub s) = snt_isn tp" and "\<not> mapping_present (sub s)" and "\<not> infinite_mapping_rcv (rx_mpcb (mrx s))"
    and "\<not> send_mp_fail (sub s)" and "rcv_high_inv (rx_mpcb (mrx s))" and "skb_seq skb = ucast n"
    and "unat (n - mptcp_get_rcv_nxt_64 (rx_mpcb (mrx s)) (rx_meta (mrx s))) < 2 ^ 31"
  shows "\<exists>s'. mptcp_detect_mapping sk p s = (Go_On, s') \<and> map_data_seq (sub s') = n \<and>
    mptcp_prepare_skb (sub s') (seg_of s' p) = (seg_of s p)\<lparr>rx_seq := skb_seq skb, rx_end_seq := skb_end_seq skb,
      rx_tcp_flags := (if mptcp_is_data_fin skb then TCPHDR_FIN else 0)\<rparr>"
  by (rule mapping_end_to_end [OF assms(1-4) other_ack_flags assms(6) [unfolded parsed_segment(1) [OF assms(5)]] assms(7-13)])

text \<open>C28. The first packet of a subflow says who wants to connect: the options of a SYN, written and parsed, give
  the other side the key and the version of a new connection, or the token, the nonce, the address and
  the priority of a subflow that joins one.\<close>

theorem mptcp_syn_round_trip:
  assumes "mptcp_options opts = {}" and "os_ver os AND 0xF = os_ver os"
    and "mptcp_syn_options csum os tp opts room = (opts', room')"
  shows "tcp_parse_mptcp_options cs (fst (mptcp_options_write mpcb meta_tp os tp opts' b)) (mopt, x) =
    ((if is_master_tp tp
      then mopt\<lparr>saw_mpc := True, rcv_dss_csum := (cs \<or> csum), mptcp_sender_key := os_loc_key os, rcv_mptcp_ver := os_ver os\<rparr>
      else mopt\<lparr>is_mp_join := True, saw_mpc := True, rcv_prio := low_prio tp, rem_id := os_loc_id os,
             rcv_rem_token := mptcp_rem_token os, mptcp_recv_nonce := os_loc_nonce os\<rparr>), x)"
proof (cases "is_master_tp tp")
  case True
  then have o: "opts' = (add_opts {MP_CAPABLE, TYPE_SYN} opts)\<lparr>oo_ver := os_ver os, sender_key := os_loc_key os, oo_dss_csum := csum\<rparr>"
    using assms(3) by (simp add: mptcp_syn_options_def)
  show ?thesis using True assms(1,2)
    by (simp add: o write_capable_only [of _ TYPE_SYN] add_opts_def parse_capable_written del: append_Cons append_Nil)
next
  case False
  then have o: "opts' = (add_opts {MP_JOIN, TYPE_SYN} opts)\<lparr>join_token := mptcp_rem_token os, join_low_prio := low_prio tp,
              oo_addr_id := os_loc_id os, join_nonce := os_loc_nonce os\<rparr>"
    using assms(3) by (simp add: mptcp_syn_options_def)
  show ?thesis using False assms(1)
    by (simp add: o write_join_syn_only add_opts_def parse_join_syn_written del: append_Cons append_Nil)
qed

text \<open>The answer to the first packet: the options of a SYN/ACK, written and parsed, give the other side the key
  and the version of the connection, and whether checksums are used, or the truncated code of the
  message, the nonce, the address and the priority of the subflow that was joined.\<close>

lemma mptcp_synack_round_trip:
  assumes "mptcp_options opts = {}" and "rs_ver mtreq AND 0xF = rs_ver mtreq"
    and "mptcp_synack_options csum mtreq opts room = (opts', room')"
  shows "tcp_parse_mptcp_options cs (fst (mptcp_options_write mpcb meta_tp os tp opts' b)) (mopt, x) =
    ((if is_sub mtreq
      then mopt\<lparr>saw_mpc := True, rcv_prio := rs_low_prio mtreq, rem_id := rs_loc_id mtreq,
             mptcp_recv_tmac := rs_hash_tmac mtreq, mptcp_recv_nonce := rs_loc_nonce mtreq\<rparr>
      else mopt\<lparr>saw_mpc := True, rcv_dss_csum := (cs \<or> csum \<or> rs_dss_csum mtreq), mptcp_sender_key := rs_loc_key mtreq,
             rcv_mptcp_ver := rs_ver mtreq\<rparr>), x)"
proof (cases "is_sub mtreq")
  case True
  then have o: "opts' = (add_opts {MP_JOIN, TYPE_SYNACK} opts)\<lparr>join_tmac := rs_hash_tmac mtreq, join_nonce := rs_loc_nonce mtreq,
              join_low_prio := rs_low_prio mtreq, oo_addr_id := rs_loc_id mtreq\<rparr>"
    using assms(3) by (simp add: mptcp_synack_options_def)
  show ?thesis using True assms(1)
    by (simp add: o write_join_synack_only add_opts_def parse_join_synack_written del: append_Cons append_Nil)
next
  case False
  then have o: "opts' = (add_opts {MP_CAPABLE, TYPE_SYNACK} opts)\<lparr>oo_ver := rs_ver mtreq, sender_key := rs_loc_key mtreq,
              oo_dss_csum := (csum \<or> rs_dss_csum mtreq)\<rparr>"
    using assms(3) by (simp add: mptcp_synack_options_def)
  show ?thesis using False assms(1,2)
    by (simp add: o write_capable_only [of _ TYPE_SYNACK] add_opts_def parse_capable_written del: append_Cons append_Nil)
qed

text \<open>C29. The room that is set aside for the options of an established subflow is the number of bytes that are
  written, so the data behind them is not overwritten; beside the timestamps (12 bytes) they fit into
  the 40 bytes of a header, as long as no failure is signalled and the third packet of the handshake
  carries no data.\<close>

theorem mptcp_established_options_room:
  assumes "mptcp_options opts = {}" and "4 \<le> length (dss_words b)" and "20 \<le> length (os_sender_mac os)"
    and "mptcp_established_options None is_meta mpcb tp (Some b) (os, opts, room) = (os', opts', room')"
    and "unat room \<le> 12" and "\<not> os_mp_fail os" and "include_mpc os \<Longrightarrow> \<not> pre_established tp \<and> \<not> mptcp_is_data_seq b"
  shows "unat room' \<le> 40 \<and> unat room' = unat room + length (fst (mptcp_options_write mpcb' meta_tp os' tp' opts' b))"
proof -
  have c: "plain opts'" "room' = room + of_nat (written b opts')" "os_sender_mac os' = os_sender_mac os"
    using established_counts [OF assms(1), of b room os is_meta mpcb tp] assms(4) by (simp_all add: counts_def)
  have l: "length (fst (mptcp_options_write mpcb' meta_tp os' tp' opts' b)) = written b opts'"
    using length_written [OF c(1) assms(2)] c(3) assms(3) by simp
  have le: "unat room' \<le> 40" using established_fits [OF assms(1,5,6), of tp b is_meta mpcb] assms(4,7) by simp
  have "written b opts' \<le> 92" by (simp add: written_def)
  then have "unat room' = unat room + written b opts'" using assms(5) by (simp add: c(2) unat_word_ariths unat_of_nat)
  then show ?thesis using l le by simp
qed

text \<open>While a failure is signalled, a data segment has more options than a header can hold.\<close>

definition sample_opts :: out_options where
  "sample_opts = \<lparr>oo_mptcp = False, mptcp_options = {}, oo_ver = 0, oo_dss_csum = False, oo_addr_id = 0, sender_key = 0,
     receiver_key = 0, join_token = 0, join_nonce = 0, join_tmac = 0, join_low_prio = False, add_addr_v4 = False,
     add_addr_v6 = False, add_addr4 = (0, 0, 0), add_addr6 = (0, [], 0), remove_addrs = 0\<rparr>"

definition sample_os :: opt_sock where
  "sample_os = \<lparr>os_ver = 1, os_loc_key = 77, os_loc_id = 2, os_loc_nonce = 13, os_sender_mac = replicate 20 0,
     include_mpc = False, send_mp_fclose = False, send_mp_prio = False, os_mp_fail = False, mpcb_ver = 1,
     mptcp_rem_token = 99, mptcp_loc_key = 77, mptcp_rem_key = 78, addr_signal = False, cutoff_seq = 0\<rparr>"

definition sample_rcvd :: options_received where
  "sample_rcvd = \<lparr>saw_mpc = False, rcv_dss_csum = False, drop_me = False, is_mp_join = False, join_ack = False,
     saw_low_prio = 0, rcv_prio = False, saw_add_addr = False, more_add_addr = False, saw_rem_addr = False,
     more_rem_addr = False, mp_fail = False, mp_fclose = False, rem_id = 0, prio_addr_id = 0, add_addr_ptr = [],
     rem_addr_ptr = [], data_ack = 0, rcv_data_seq = 0, data_len = 0, rcv_mptcp_ver = 0, mptcp_sender_key = 0,
     mptcp_receiver_key = 0, rcv_rem_token = 0, mptcp_recv_nonce = 0, mptcp_recv_tmac = 0, mptcp_recv_mac = []\<rparr>"

lemma mp_fail_exceeds_header:
  "snd (snd (mptcp_established_options None False sample_mpcb sample_sock
     (Some (sample_skb\<lparr>mptcp_flags := MPTCPHDR_SEQ\<rparr>)) (sample_os\<lparr>os_mp_fail := True\<rparr>, sample_opts, 12))) = 44"
  by (simp add: established_cases before_prio_def est_fail_def est_capable_def est_join_def est_dss_def est_prio_def
      skips_options_def sample_os_def sample_mpcb_def sample_sock_def sample_skb_def mptcp_is_data_seq_def has_def
      MPTCPHDR_SEQ_def aligns)

section \<open>Witnesses\<close>

definition sample_wire :: rx_skb where
  "sample_wire = snd (tcp_parse_mptcp_options False (fst (mptcp_options_write sample_mpcb sample_sock sample_os sample_sock
     (add_opts {DATA_ACK} sample_opts) (mptcp_save_dss_data_seq sample_ops sample_mpcb sample_sock sample_sock sample_sent)))
     (sample_rcvd, arriving sample_sock False sample_sent))"

definition sample_parsed :: in_state where
  "sample_parsed = sample_in (sample_rx_state (\<lambda>_. sample_wire) [] (\<lambda>_. None) 0) [7]"

lemma sample_parsed_facts:
  "seg_of sample_parsed 7 = sample_wire"
  "sub sample_parsed = sample_map" "rx_mpcb (mrx sample_parsed) = sample_mpcb" "rx_meta (mrx sample_parsed) = sample_sock\<lparr>rcv_nxt := 0\<rparr>"
  by (simp_all add: sample_parsed_def sample_in_def sample_rx_state_def seg_of_def)

theorem mptcp_mapping_end_to_end_witness:
  "\<exists>s'. mptcp_detect_mapping 1 7 sample_parsed = (Go_On, s') \<and> map_data_seq (sub s') = seq64 7 50 \<and>
     rx_seq (mptcp_prepare_skb (sub s') (seg_of s' 7)) = 50"
proof -
  have n: "skb_seq sample_sent = ucast (seq64 7 50)" by (simp add: seq64_low sample_sent_facts)
  have near: "unat (seq64 7 50 - mptcp_get_rcv_nxt_64 (rx_mpcb (mrx sample_parsed)) (rx_meta (mrx sample_parsed))) < 2 ^ 31"
    by (simp add: sample_parsed_facts sample_high seq64_def)
  have st: "\<not> infinite_mapping_rcv sample_mpcb" "snt_isn sample_sock = 0" "rcv_isn sample_map = 0"
    "\<not> mapping_present sample_map" "\<not> send_mp_fail sample_map"
    by (simp_all add: sample_mpcb_def sample_sock_def sample_map_def)
  have o: "mptcp_options (add_opts {DATA_ACK} sample_opts) = {DATA_ACK}" by (simp add: add_opts_def sample_opts_def)
  show ?thesis
    using mptcp_mapping_end_to_end [OF sample_sent_facts(1-4) o sample_parsed_facts(1) [unfolded sample_wire_def] _ _ _ _ _ n near, of 1]
    by (auto simp: sample_parsed_facts st sample_sent_facts sample_high)
qed


theorem mptcp_syn_round_trip_witness:
  "rcv_rem_token (fst (tcp_parse_mptcp_options False (fst (mptcp_options_write sample_mpcb sample_sock sample_os
     (sample_sock\<lparr>slave_sk := True\<rparr>) (fst (mptcp_syn_options False sample_os (sample_sock\<lparr>slave_sk := True\<rparr>) sample_opts 40))
     sample_skb)) (sample_rcvd, rx_seg 0 0))) = 99"
proof -
  have a: "mptcp_options sample_opts = {}" "os_ver sample_os AND 0xF = os_ver sample_os" "mptcp_rem_token sample_os = 99"
    by (simp_all add: sample_opts_def sample_os_def)
  have m: "\<not> is_master_tp (sample_sock\<lparr>slave_sk := True\<rparr>)" by (simp add: is_master_tp_def)
  show ?thesis
    using mptcp_syn_round_trip [where csum = False and room = 40 and cs = False and tp = "sample_sock\<lparr>slave_sk := True\<rparr>" and
        mpcb = sample_mpcb and meta_tp = sample_sock and b = sample_skb and mopt = sample_rcvd and x = "rx_seg 0 0",
        OF a(1,2) prod.collapse [symmetric]]
    by (simp add: m a(3))
qed

lemma mptcp_synack_round_trip_witness:
  "\<exists>mtreq. mptcp_sender_key (fst (tcp_parse_mptcp_options False (fst (mptcp_options_write sample_mpcb sample_sock sample_os
     sample_sock (fst (mptcp_synack_options True mtreq sample_opts 40)) sample_skb)) (sample_rcvd, rx_seg 0 0))) = 5"
proof -
  let ?m = "\<lparr>is_sub = False, rs_ver = 1, rs_loc_key = 5, rs_dss_csum = False, rs_hash_tmac = 0, rs_loc_nonce = 0,
    rs_low_prio = False, rs_loc_id = 0, rs_rem_nonce = 0, rs_rem_id = 0, rs_rcv_low_prio = False\<rparr>"
  have a: "mptcp_options sample_opts = {}" "rs_ver ?m AND 0xF = rs_ver ?m"
    by (simp_all add: sample_opts_def)
  show ?thesis
    using mptcp_synack_round_trip [where csum = True and room = 40 and cs = False and mpcb = sample_mpcb and meta_tp = sample_sock and
        os = sample_os and tp = sample_sock and b = sample_skb and mopt = sample_rcvd and x = "rx_seg 0 0",
        OF a prod.collapse [symmetric]]
    by (intro exI [of _ ?m]) simp
qed

theorem mptcp_established_options_room_witness:
  "unat (snd (snd (mptcp_established_options None False sample_mpcb sample_sock (Some sample_skb) (sample_os, sample_opts, 12)))) \<le> 40"
proof -
  have a: "mptcp_options sample_opts = {}" "4 \<le> length (dss_words sample_skb)" "20 \<le> length (os_sender_mac sample_os)"
    "unat (12 :: u32) \<le> 12" "\<not> os_mp_fail sample_os" "\<not> include_mpc sample_os"
    by (simp_all add: sample_opts_def sample_os_def sample_skb_def)
  obtain os' opts' room' where e: "mptcp_established_options None False sample_mpcb sample_sock (Some sample_skb) (sample_os, sample_opts, 12)
    = (os', opts', room')" by (metis prod_cases3)
  show ?thesis
    using mptcp_established_options_room [OF a(1-3) e a(4,5)] a(6) by (simp add: e)
qed

end
