(* ===== verification/Subflows.thy ===== *)
theory Subflows
  imports Data_Output
begin

text \<open>
  The life of a subflow in a connection (\<open>net/mptcp/mptcp_ctrl.c\<close>): it is added, established, closed, also
  later and by a work queue, and removed.  The connection keeps a list of its subflows, their number, the
  number of the established ones and a bit field of the path indices in use; the theorem is that these
  fields always agree.

  Calls into the kernel and into other modules that do not change this state are recorded in \<open>l_calls\<close>;
  those that change it are functions in \<open>life_kernel\<close>.
\<close>

section \<open>State\<close>

datatype life_error = ENOMEM | EPERM

datatype life_call =
    Sched_Init sk_ptr | Sched_Release sk_ptr | Stop_Ack_Timer sk_ptr | Push_Frames sk_ptr | State_Change | Wake_Out
  | Write_Space | Error_Report | Meta_Done

record sock_opts =
  tos :: u8
  sk_priority :: u32
  sk_reuse :: u8
  sk_userlocks :: u8
  nonagle :: u8
  keepopen :: bool
  recverr :: bool

text \<open>What belongs to one subflow beside its TCP socket.  \<open>unsent\<close> is the number of segments from the send head on,
  \<open>work_expires\<close> the time of its pending work.\<close>

record sub_info =
  has_mptcp :: bool
  attached :: bool
  establish_increased :: bool
  sub_loc_id :: u8
  sub_rem_id :: u8
  mpc :: bool
  closing :: bool
  sock_dead :: bool
  mp_killed :: bool
  fclose_sent :: bool
  work_expires :: "u64 option"
  sock_refs :: int
  sk_sndbuf :: int
  sk_rcvbuf :: int
  init_rcv_wnd :: int
  sub_rcv_isn :: u32
  sk_rmem :: int
  sk_err :: u32
  sk_err_soft :: u32
  inet_opt :: bool
  ca_ops :: string
  ca_priv_cleared :: bool
  sub_opts :: sock_opts
  unsent :: nat

record life_state =
  l_out :: out_state
  l_sub :: "sk_ptr \<Rightarrow> sub_info"
  l_master :: "sk_ptr option"
  meta_refs :: int
  mpcb_refcnt :: int
  meta_shutdown :: u8
  l_calls :: "life_call list"

record life_kernel =
  lk_alloc :: bool
  lk_close_state :: "tcp_sock \<Rightarrow> bool \<times> tcp_sock"
  lk_skb_alloc :: bool
  lk_tcp_close :: "sk_ptr \<Rightarrow> life_state \<Rightarrow> life_state"
  lk_send_fin :: "sk_ptr \<Rightarrow> life_state \<Rightarrow> life_state"
  lk_tcp_done :: "sk_ptr \<Rightarrow> life_state \<Rightarrow> life_state"
  lk_cancel_work :: bool
  lk_in_softirq :: bool
  lk_jiffies :: u64
  lk_has_info :: "string \<Rightarrow> bool"
  lk_module :: "string \<Rightarrow> bool"

definition SHUTDOWN_MASK :: u8 where "SHUTDOWN_MASK = 3"
definition SOCK_BINDPORT_LOCK :: u8 where "SOCK_BINDPORT_LOCK = 8"
definition TCP_NAGLE_OFF :: u8 where "TCP_NAGLE_OFF = 1"
definition TCP_NAGLE_PUSH :: u8 where "TCP_NAGLE_PUSH = 4"
definition TCPHDR_ACK :: u8 where "TCPHDR_ACK = 0x10"

definition l_tp :: "life_state \<Rightarrow> sk_ptr \<Rightarrow> tcp_sock" where
  "l_tp s sk = o_socks (l_out s) sk"

definition l_mpcb :: "life_state \<Rightarrow> mptcp_cb" where
  "l_mpcb s = o_mpcb (l_out s)"

definition l_conns :: "life_state \<Rightarrow> sk_ptr list" where
  "l_conns s = connection_list (l_mpcb s)"

definition set_tp :: "sk_ptr \<Rightarrow> (tcp_sock \<Rightarrow> tcp_sock) \<Rightarrow> life_state \<Rightarrow> life_state" where
  "set_tp sk f s = s\<lparr>l_out := (l_out s)\<lparr>o_socks := (o_socks (l_out s))(sk := f (o_socks (l_out s) sk))\<rparr>\<rparr>"

definition set_mpcb :: "(mptcp_cb \<Rightarrow> mptcp_cb) \<Rightarrow> life_state \<Rightarrow> life_state" where
  "set_mpcb f s = s\<lparr>l_out := (l_out s)\<lparr>o_mpcb := f (o_mpcb (l_out s))\<rparr>\<rparr>"

definition set_info :: "sk_ptr \<Rightarrow> (sub_info \<Rightarrow> sub_info) \<Rightarrow> life_state \<Rightarrow> life_state" where
  "set_info sk f s = s\<lparr>l_sub := (l_sub s)(sk := f (l_sub s sk))\<rparr>"

definition call :: "life_call \<Rightarrow> life_state \<Rightarrow> life_state" where
  "call c s = s\<lparr>l_calls := l_calls s @ [c]\<rparr>"

section \<open>Adding a subflow\<close>

definition mptcp_sub_inherit_sockopts :: "sk_ptr \<Rightarrow> sk_ptr \<Rightarrow> life_state \<Rightarrow> life_state" where
  "mptcp_sub_inherit_sockopts meta sk s =
     (let m = sub_opts (l_sub s meta)
      in set_info sk (\<lambda>i. let o1 = sub_opts i;
              o2 = (if tos o1 \<noteq> tos m then o1\<lparr>tos := tos m, sk_priority := sk_priority m\<rparr> else o1)
            in i\<lparr>sub_opts := o2\<lparr>sk_reuse := sk_reuse m, sk_userlocks := clrf (sk_userlocks m) SOCK_BINDPORT_LOCK,
                  nonagle := TCP_NAGLE_OFF OR TCP_NAGLE_PUSH, keepopen := False, recverr := False\<rparr>\<rparr>) s)"

definition mptcp_assign_congestion_control :: "life_kernel \<Rightarrow> sk_ptr \<Rightarrow> sk_ptr \<Rightarrow> life_state \<Rightarrow> life_state" where
  "mptcp_assign_congestion_control k meta sk s =
     (let ca = ca_ops (l_sub s meta)
      in if ca_ops (l_sub s sk) = ca then s
         else if \<not> lk_module k ca then s
         else set_info sk (\<lambda>i. i\<lparr>ca_ops := ca, ca_priv_cleared := (if lk_has_info k ca then True else ca_priv_cleared i)\<rparr>) s)"

text \<open>A new \<open>mptcp_tcp_sock\<close> has all fields zero.\<close>

definition fresh_info :: "sub_info \<Rightarrow> sub_info" where
  "fresh_info i = i\<lparr>has_mptcp := True, attached := False, establish_increased := False, sub_loc_id := 0, sub_rem_id := 0,
     work_expires := None, init_rcv_wnd := 0, sub_rcv_isn := 0\<rparr>"

definition fresh_tp :: "tcp_sock \<Rightarrow> tcp_sock" where
  "fresh_tp tp = tp\<lparr>path_index := 0, pre_established := False, fully_established := False, second_packet := False,
     last_end_data_seq := 0, low_prio := False, rcv_low_prio := False, slave_sk := False, snt_isn := 0,
     infinite_cutoff_seq := 0\<rparr>"

definition mptcp_add_sock ::
  "life_kernel \<Rightarrow> bool \<Rightarrow> sk_ptr \<Rightarrow> sk_ptr \<Rightarrow> u8 \<Rightarrow> u8 \<Rightarrow> life_state \<Rightarrow> life_error option \<times> life_state" where
  "mptcp_add_sock k sched_init meta sk loc rem s =
     (if \<not> lk_alloc k then (Some ENOMEM, s)
      else
        let s1 = set_info sk fresh_info (set_tp sk fresh_tp s);
            (index, m) = mptcp_set_new_pathindex (l_mpcb s1);
            s2 = set_tp sk (\<lambda>tp. tp\<lparr>path_index := of_nat index\<rparr>) (set_mpcb (\<lambda>_. m) s1)
        in if index = 0 then (Some EPERM, s2)
           else
             let s3 = set_info sk (\<lambda>i. i\<lparr>mpc := True, sub_loc_id := loc, sub_rem_id := rem\<rparr>) s2;
                 s4 = (if sched_init then call (Sched_Init sk) s3 else s3);
                 s5 = s4\<lparr>meta_refs := meta_refs s4 + 1, mpcb_refcnt := mpcb_refcnt s4 + 1\<rparr>;
                 s6 = set_info sk (\<lambda>i. i\<lparr>attached := True\<rparr>)
                        (set_mpcb (\<lambda>m. m\<lparr>connection_list := sk # connection_list m, cnt_subflows := cnt_subflows m + 1\<rparr>) s5);
                 s7 = set_info meta (\<lambda>i. i\<lparr>sk_rmem := sk_rmem i + sk_rmem (l_sub s6 sk)\<rparr>) s6;
                 s8 = set_info sk (\<lambda>i. i\<lparr>work_expires := None\<rparr>) (mptcp_sub_inherit_sockopts meta sk s7)
             in (None, mptcp_assign_congestion_control k meta sk s8))"

text \<open>The callback for a change of the state of a subflow.\<close>

definition mptcp_set_state :: "sk_ptr \<Rightarrow> sk_ptr \<Rightarrow> life_state \<Rightarrow> life_state" where
  "mptcp_set_state meta sk s =
     (let s1 = (if sk_state (l_tp s meta) \<in> {TCP_SYN_SENT, TCP_SYN_RECV} \<and> sk_state (l_tp s sk) = TCP_ESTABLISHED
                then let s' = set_tp meta (\<lambda>tp. tp\<lparr>sk_state := TCP_ESTABLISHED\<rparr>) s
                     in if \<not> sock_dead (l_sub s meta) then call Wake_Out (call State_Change s') else s'
                else s)
      in if sk_state (l_tp s1 sk) = TCP_ESTABLISHED
         then set_mpcb (\<lambda>m. m\<lparr>cnt_established := cnt_established m + 1\<rparr>)
                (set_info sk (\<lambda>i. i\<lparr>establish_increased := True\<rparr>) s1)
         else s1)"

section \<open>Removing a subflow\<close>

text \<open>The reinjection of the data of the subflow may need more fuel than given: \<open>None\<close>.\<close>

definition mptcp_del_sock ::
  "kernel_ops \<Rightarrow> nat \<Rightarrow> bool \<Rightarrow> sk_ptr \<Rightarrow> sk_buff list \<Rightarrow> sk_buff list \<Rightarrow> sk_ptr \<Rightarrow> life_state \<Rightarrow> life_state option" where
  "mptcp_del_sock ops fuel sched_release meta queue sent sk s =
     (if \<not> has_mptcp (l_sub s sk) \<or> \<not> attached (l_sub s sk) then Some s
      else
        let s1 = (if sched_release then call (Sched_Release sk) s else s);
            s2 = set_mpcb (\<lambda>m. m\<lparr>connection_list := remove1 sk (connection_list m), cnt_subflows := cnt_subflows m - 1,
                   cnt_established := (if establish_increased (l_sub s sk) then cnt_established m - 1 else cnt_established m)\<rparr>) s1;
            s3 = set_mpcb (\<lambda>m. m\<lparr>path_index_bits := clrf (path_index_bits m) (push_bit (unat (path_index (l_tp s sk))) 1)\<rparr>)
                   (set_info sk (\<lambda>i. i\<lparr>attached := False\<rparr>) s2)
        in case (if o_queue (l_out s3) sk \<noteq> []
                 then map_option (\<lambda>o1. call (Push_Frames meta) (s3\<lparr>l_out := o1\<rparr>))
                        (mptcp_reinject_data ops fuel meta queue sent sk False (l_out s3))
                 else Some s3) of
             None \<Rightarrow> None
           | Some s4 \<Rightarrow>
               let s5 = (if is_master_tp (l_tp s4 sk) then s4\<lparr>l_master := None\<rparr>
                         else if pre_established (l_tp s4 sk) then call (Stop_Ack_Timer sk) s4 else s4)
               in Some (set_info sk (\<lambda>i. i\<lparr>inet_opt := False\<rparr>) s5))"

section \<open>Closing a subflow\<close>

text \<open>The FIN of a subflow: on the last unsent segment, or as a segment of its own.  The result says that no
  memory was left.\<close>

definition last_segment :: "(sk_buff \<Rightarrow> sk_buff) \<Rightarrow> sk_buff list \<Rightarrow> sk_buff list" where
  "last_segment f q = (if q = [] then [] else butlast q @ [f (last q)])"

definition fin_segment :: "u32 \<Rightarrow> sk_buff" where
  "fin_segment s = \<lparr>skb_seq = s, skb_end_seq = s + 1, skb_len = 0, path_mask = 0, mptcp_flags = 0,
     tcp_flags = TCPHDR_ACK OR TCPHDR_FIN, dss_hdr = no_dss, dss_words = replicate 4 0\<rparr>"

definition set_queue :: "sk_ptr \<Rightarrow> sk_buff list \<Rightarrow> life_state \<Rightarrow> life_state" where
  "set_queue sk q s = s\<lparr>l_out := (l_out s)\<lparr>o_queue := (o_queue (l_out s))(sk := q)\<rparr>\<rparr>"

definition mptcp_sub_send_fin :: "life_kernel \<Rightarrow> sk_ptr \<Rightarrow> life_state \<Rightarrow> bool \<times> life_state" where
  "mptcp_sub_send_fin k sk s =
     (let q = o_queue (l_out s) sk
      in if unsent (l_sub s sk) \<noteq> 0
         then (False, call (Push_Frames sk) (set_tp sk (\<lambda>tp. tp\<lparr>write_seq := write_seq tp + 1\<rparr>)
                (set_queue sk (last_segment (\<lambda>b. b\<lparr>tcp_flags := setf (tcp_flags b) TCPHDR_FIN, skb_end_seq := skb_end_seq b + 1\<rparr>) q) s)))
         else if \<not> lk_skb_alloc k then (True, s)
         else (False, call (Push_Frames sk) (set_tp sk (\<lambda>tp. tp\<lparr>write_seq := write_seq tp + 1\<rparr>)
                (set_info sk (\<lambda>i. i\<lparr>unsent := 1\<rparr>)
                  (set_queue sk (q @ [fin_segment (write_seq (l_tp s sk))]) s)))))"

text \<open>The orderly close of a subflow, from the process that closes or from the work queue.\<close>

definition close_now :: "life_kernel \<Rightarrow> sk_ptr \<Rightarrow> life_state \<Rightarrow> life_state" where
  "close_now k sk s =
     (if sock_dead (l_sub s sk) then s
      else if \<not> mpc (l_sub s sk) \<or> meta_shutdown s = SHUTDOWN_MASK \<or> sk_state (l_tp s sk) = TCP_CLOSE
      then lk_tcp_close k sk (set_info sk (\<lambda>i. i\<lparr>closing := True\<rparr>) s)
      else case lk_close_state k (l_tp s sk) of (send, tp) \<Rightarrow>
             let s1 = set_tp sk (\<lambda>_. tp) s
             in if send then lk_send_fin k sk (set_tp sk (\<lambda>tp. tp\<lparr>send_shutdown := True\<rparr>) s1) else s1)"

definition mptcp_sub_close_wq :: "life_kernel \<Rightarrow> sk_ptr \<Rightarrow> life_state \<Rightarrow> life_state" where
  "mptcp_sub_close_wq k sk s =
     set_info sk (\<lambda>i. i\<lparr>sock_refs := sock_refs i - 1\<rparr>) (close_now k sk (set_info sk (\<lambda>i. i\<lparr>work_expires := None\<rparr>) s))"

definition queue_work :: "life_kernel \<Rightarrow> sk_ptr \<Rightarrow> u64 \<Rightarrow> life_state \<Rightarrow> life_state" where
  "queue_work k sk delay s =
     set_info sk (\<lambda>i. i\<lparr>sock_refs := sock_refs i + 1, work_expires := Some (lk_jiffies k + delay)\<rparr>) s"

definition fin_before_work :: "life_kernel \<Rightarrow> sk_ptr \<Rightarrow> life_state \<Rightarrow> life_state" where
  "fin_before_work k sk s =
     (let old = sk_state (l_tp s sk)
      in if sk_err (l_sub s sk) \<noteq> 0 \<or> old = TCP_CLOSE then s
         else case lk_close_state k (l_tp s sk) of (send, tp) \<Rightarrow>
           let s1 = set_tp sk (\<lambda>_. tp) s
           in if \<not> send then s1
              else case mptcp_sub_send_fin k sk s1 of (failed, s2) \<Rightarrow>
                if failed then set_tp sk (\<lambda>tp. tp\<lparr>sk_state := old\<rparr>) s2 else s2)"

definition mptcp_sub_close :: "life_kernel \<Rightarrow> sk_ptr \<Rightarrow> u64 \<Rightarrow> life_state \<Rightarrow> life_state" where
  "mptcp_sub_close k sk delay s =
     (if closing (l_sub s sk) then s
      else
        let go = (case work_expires (l_sub s sk) of
                    None \<Rightarrow> Some s
                  | Some expires \<Rightarrow>
                      if lk_jiffies k + delay > expires then None
                      else if \<not> lk_cancel_work k then None
                      else Some (set_info sk (\<lambda>i. i\<lparr>work_expires := None, sock_refs := sock_refs i - 1\<rparr>) s))
        in case go of
             None \<Rightarrow> s
           | Some s1 \<Rightarrow>
               if delay = 0 \<and> \<not> lk_in_softirq k then close_now k sk s1
               else queue_work k sk delay (if delay = 0 then fin_before_work k sk s1 else s1))"

definition mptcp_sub_force_close :: "life_kernel \<Rightarrow> sk_ptr \<Rightarrow> life_state \<Rightarrow> life_state" where
  "mptcp_sub_force_close k sk s =
     (let dead = sock_dead (l_sub s sk);
          s1 = set_info sk (\<lambda>i. i\<lparr>mp_killed := True\<rparr>) s;
          s2 = (if sk_state (l_tp s1 sk) \<noteq> TCP_CLOSE then lk_tcp_done k sk s1 else s1)
      in if \<not> dead then mptcp_sub_close k sk 0 s2 else s2)"

definition mptcp_sock_def_error_report :: "life_kernel \<Rightarrow> sk_ptr \<Rightarrow> sk_ptr \<Rightarrow> life_state \<Rightarrow> life_state" where
  "mptcp_sock_def_error_report k meta sk s =
     (let s1 = (if \<not> sock_dead (l_sub s sk) then mptcp_sub_close k sk 0 s else s);
          m = l_mpcb s1;
          s2 = (if infinite_mapping_rcv m \<or> infinite_mapping_snd m \<or> send_infinite_mapping m
                then let s' = set_info meta (\<lambda>i. i\<lparr>sk_err := sk_err (l_sub s1 sk), sk_err_soft := sk_err_soft (l_sub s1 sk)\<rparr>) s1;
                         s'' = (if \<not> sock_dead (l_sub s' meta) then call Error_Report s' else s')
                     in lk_tcp_done k meta s''
                else s1)
      in set_info sk (\<lambda>i. i\<lparr>sk_err := 0\<rparr>) s2)"

text \<open>The end of the connection; the out-of-order queue and the reinject queue are purged by the caller's first
  two calls.\<close>

definition close_rest :: "life_kernel \<Rightarrow> sk_ptr \<Rightarrow> life_state \<Rightarrow> life_state" where
  "close_rest k sk s =
     (if closing (l_sub s sk) \<or> fclose_sent (l_sub s sk) then s
      else if work_expires (l_sub s sk) \<noteq> None then s
      else mptcp_sub_close k sk 0 s)"

definition mptcp_destroy_meta :: "life_kernel \<Rightarrow> life_state \<Rightarrow> life_state" where
  "mptcp_destroy_meta k s =
     fold (close_rest k) (l_conns s) (set_mpcb (\<lambda>m. m\<lparr>reinject_queue := []\<rparr>) s)"

section \<open>The send buffer\<close>

fun sum_sndbuf :: "int \<Rightarrow> life_state \<Rightarrow> int \<Rightarrow> sk_ptr list \<Rightarrow> int" where
  "sum_sndbuf wmem s new [] = new"
| "sum_sndbuf wmem s new (sk # sks) =
     (if \<not> mptcp_sk_can_send (l_tp s sk) then sum_sndbuf wmem s new sks
      else let n = s32 (new + sk_sndbuf (l_sub s sk))
           in if n > wmem \<or> n < 0 then wmem else sum_sndbuf wmem s n sks)"

definition mptcp_update_sndbuf :: "int \<Rightarrow> sk_ptr \<Rightarrow> life_state \<Rightarrow> life_state" where
  "mptcp_update_sndbuf wmem meta s =
     (let old = sk_sndbuf (l_sub s meta);
          s1 = set_info meta (\<lambda>i. i\<lparr>sk_sndbuf := max (min (sum_sndbuf wmem s 0 (l_conns s)) wmem) old\<rparr>) s
      in if old \<noteq> sk_sndbuf (l_sub s1 meta) then call Write_Space s1 else s1)"

section \<open>What the operations change\<close>

text \<open>Reinjection changes only the reinject queue of the control block.\<close>

definition only_reinject :: "mptcp_cb \<Rightarrow> mptcp_cb \<Rightarrow> bool" where
  "only_reinject m m' \<longleftrightarrow> (\<exists>q. m' = m\<lparr>reinject_queue := q\<rparr>)"

lemma only_reinject_refl [simp]: "only_reinject m m"
  unfolding only_reinject_def by (rule exI [of _ "reinject_queue m"]) simp

lemma only_reinject_trans: "only_reinject m m1 \<Longrightarrow> only_reinject m1 m2 \<Longrightarrow> only_reinject m m2"
  by (auto simp: only_reinject_def)

lemma only_reinject_set: "only_reinject m (m\<lparr>reinject_queue := q\<rparr>)"
  unfolding only_reinject_def by blast

lemma walk_mapping_only:
  assumes "\<And>x m m'. f x m = Some m' \<Longrightarrow> only_reinject m m'"
  shows "walk_mapping copies f a b xs m = Some m' \<Longrightarrow> only_reinject m m'"
  by (induction xs arbitrary: m) (auto split: if_splits Option.bind_splits intro: only_reinject_trans dest: assms)

lemma reinject_skb_only:
  "mptcp_reinject_skb copies fuel tp queue sent sub skb m = Some m' \<Longrightarrow> only_reinject m m'"
proof (induction fuel arbitrary: sub skb m m')
  case (Suc fuel)
  have "walk_mapping copies (mptcp_reinject_skb copies fuel tp queue sent False) a b queue m = Some m' \<Longrightarrow> only_reinject m m'" for a b
    by (rule walk_mapping_only [OF Suc.IH])
  then show ?case using Suc.prems by (auto split: option.splits if_splits intro: only_reinject_set)
qed simp

lemma reinject_walk_only:
  "reinject_walk ops meta fuel tp queue sent sk clone xs m = Some (ys, m') \<Longrightarrow> only_reinject m m'"
proof (induction xs arbitrary: m ys)
  case (Cons x xs)
  then show ?case
    by (auto simp: Let_def split: if_splits Option.bind_splits intro: only_reinject_trans dest: reinject_skb_only Cons.IH)
qed simp

lemma reinject_data_only:
  assumes "mptcp_reinject_data ops fuel meta queue sent sk clone s = Some s'"
  shows "only_reinject (o_mpcb s) (o_mpcb s')" "path_index (o_socks s' x) = path_index (o_socks s x)"
  using assms
  by (auto simp: mptcp_reinject_data_def split: if_splits Option.bind_splits
      dest!: reinject_walk_only reinject_skb_only) (blast intro: only_reinject_trans)

named_theorems life_sel

lemma set_tp_sel [life_sel]:
  "l_tp (set_tp sk f s) x = (if x = sk then f (l_tp s sk) else l_tp s x)" "l_mpcb (set_tp sk f s) = l_mpcb s"
  "l_sub (set_tp sk f s) = l_sub s" "l_conns (set_tp sk f s) = l_conns s" "o_queue (l_out (set_tp sk f s)) = o_queue (l_out s)"
  by (simp_all add: set_tp_def l_tp_def l_mpcb_def l_conns_def)

lemma set_mpcb_sel [life_sel]:
  "l_mpcb (set_mpcb g s) = g (l_mpcb s)" "l_tp (set_mpcb g s) = l_tp s" "l_sub (set_mpcb g s) = l_sub s"
  "l_conns (set_mpcb g s) = connection_list (g (l_mpcb s))" "o_queue (l_out (set_mpcb g s)) = o_queue (l_out s)"
  by (simp_all add: set_mpcb_def l_tp_def l_mpcb_def l_conns_def fun_eq_iff)

lemma set_info_sel [life_sel]:
  "l_sub (set_info sk f s) = (l_sub s)(sk := f (l_sub s sk))" "l_tp (set_info sk f s) = l_tp s" "l_mpcb (set_info sk f s) = l_mpcb s"
  "l_conns (set_info sk f s) = l_conns s" "l_out (set_info sk f s) = l_out s"
  by (simp_all add: set_info_def l_tp_def l_mpcb_def l_conns_def fun_eq_iff)

lemma call_sel [life_sel]:
  "l_sub (call c s) = l_sub s" "l_tp (call c s) = l_tp s" "l_mpcb (call c s) = l_mpcb s" "l_conns (call c s) = l_conns s"
  "l_out (call c s) = l_out s"
  by (simp_all add: call_def l_tp_def l_mpcb_def l_conns_def fun_eq_iff)

lemma other_sel [life_sel]:
  "l_sub (s\<lparr>l_master := x\<rparr>) = l_sub s" "l_tp (s\<lparr>l_master := x\<rparr>) = l_tp s" "l_mpcb (s\<lparr>l_master := x\<rparr>) = l_mpcb s"
  "l_sub (s\<lparr>meta_refs := y, mpcb_refcnt := z\<rparr>) = l_sub s" "l_tp (s\<lparr>meta_refs := y, mpcb_refcnt := z\<rparr>) = l_tp s"
  "l_mpcb (s\<lparr>meta_refs := y, mpcb_refcnt := z\<rparr>) = l_mpcb s"
  "l_sub (set_queue sk q s) = l_sub s" "l_tp (set_queue sk q s) = l_tp s" "l_mpcb (set_queue sk q s) = l_mpcb s"
  by (simp_all add: l_tp_def l_mpcb_def fun_eq_iff set_queue_def)

section \<open>The invariant\<close>

text \<open>The list of subflows, their numbers and the path indices in use agree.\<close>

definition idx :: "life_state \<Rightarrow> sk_ptr \<Rightarrow> nat" where
  "idx s sk = unat (path_index (l_tp s sk))"

definition life_inv :: "life_state \<Rightarrow> bool" where
  "life_inv s \<longleftrightarrow> distinct (l_conns s) \<and> inj_on (idx s) (set (l_conns s)) \<and> (\<forall>sk\<in>set (l_conns s). 1 \<le> idx s sk \<and> idx s sk < 32) \<and>
     (\<forall>i. bit (path_index_bits (l_mpcb s)) i \<longleftrightarrow> i \<in> idx s ` set (l_conns s)) \<and>
     cnt_subflows (l_mpcb s) = of_nat (length (l_conns s)) \<and>
     cnt_established (l_mpcb s) = of_nat (length (filter (\<lambda>sk. establish_increased (l_sub s sk)) (l_conns s))) \<and>
     (\<forall>sk. has_mptcp (l_sub s sk) \<and> attached (l_sub s sk) \<longleftrightarrow> sk \<in> set (l_conns s))"

text \<open>What the invariant is about.\<close>

definition same_life :: "life_state \<Rightarrow> life_state \<Rightarrow> bool" where
  "same_life s s' \<longleftrightarrow> l_conns s' = l_conns s \<and> path_index_bits (l_mpcb s') = path_index_bits (l_mpcb s) \<and>
     cnt_subflows (l_mpcb s') = cnt_subflows (l_mpcb s) \<and> cnt_established (l_mpcb s') = cnt_established (l_mpcb s) \<and>
     (\<forall>sk. idx s' sk = idx s sk \<and> has_mptcp (l_sub s' sk) = has_mptcp (l_sub s sk) \<and> attached (l_sub s' sk) = attached (l_sub s sk) \<and>
       establish_increased (l_sub s' sk) = establish_increased (l_sub s sk))"

lemma same_life_inv: "same_life s s' \<Longrightarrow> life_inv s \<Longrightarrow> life_inv s'"
  by (simp add: life_inv_def same_life_def inj_on_def image_iff)

lemma same_life_refl [simp]: "same_life s s"
  by (simp add: same_life_def)

lemma same_life_trans: "same_life s s1 \<Longrightarrow> same_life s1 s2 \<Longrightarrow> same_life s s2"
  by (simp add: same_life_def)

lemma life_inv_count: "life_inv s \<Longrightarrow> length (l_conns s) \<le> 31"
proof -
  assume i: "life_inv s"
  have "card (idx s ` set (l_conns s)) = length (l_conns s)"
    using i by (simp add: life_inv_def card_image distinct_card)
  moreover have "idx s ` set (l_conns s) \<subseteq> {1..<32}" using i by (auto simp: life_inv_def)
  ultimately show ?thesis using card_mono [of "{1..<32 :: nat}" "idx s ` set (l_conns s)"] by simp
qed

section \<open>Every operation keeps it\<close>

lemma same_set_tp [intro]: "(\<And>tp. path_index (f tp) = path_index tp) \<Longrightarrow> same_life s (set_tp sk f s)"
  by (simp add: same_life_def life_sel idx_def)

lemma same_set_info [intro]:
  "(\<And>i. has_mptcp (f i) = has_mptcp i \<and> attached (f i) = attached i \<and> establish_increased (f i) = establish_increased i) \<Longrightarrow>
   same_life s (set_info sk f s)"
  by (simp add: same_life_def life_sel idx_def)

lemma same_call [simp]: "same_life s (call c s)"
  by (simp add: same_life_def life_sel idx_def)

lemma same_set_queue [simp]: "same_life s (set_queue sk q s)"
  by (simp add: same_life_def l_conns_def life_sel idx_def)

lemma add_sock_index:
  assumes inv: "life_inv s" and new: "sk \<notin> set (l_conns s)" and i: "i < 32" "free_index (l_mpcb s) i"
    and s': "l_conns s' = sk # l_conns s" "path_index_bits (l_mpcb s') = path_index_bits (l_mpcb s) OR push_bit i 1"
      "cnt_subflows (l_mpcb s') = cnt_subflows (l_mpcb s) + 1" "cnt_established (l_mpcb s') = cnt_established (l_mpcb s)"
      "idx s' sk = i" "\<And>x. x \<noteq> sk \<Longrightarrow> idx s' x = idx s x"
      "has_mptcp (l_sub s' sk)" "attached (l_sub s' sk)" "\<not> establish_increased (l_sub s' sk)"
      "\<And>x. x \<noteq> sk \<Longrightarrow> has_mptcp (l_sub s' x) = has_mptcp (l_sub s x) \<and> attached (l_sub s' x) = attached (l_sub s x) \<and>
         establish_increased (l_sub s' x) = establish_increased (l_sub s x)"
  shows "life_inv s'"
proof -
  let ?c = "l_conns s"
  have old: "x \<noteq> sk" if "x \<in> set ?c" for x using that new by auto
  have bits: "bit (path_index_bits (l_mpcb s)) j \<longleftrightarrow> j \<in> idx s ` set ?c" for j using inv by (simp add: life_inv_def)
  have free: "1 \<le> i" "i \<notin> idx s ` set ?c" using i bits by (simp_all add: free_index_def)
  have img: "idx s' ` set ?c = idx s ` set ?c" using old by (intro image_cong refl s'(6))
  have e: "filter (\<lambda>x. establish_increased (l_sub s' x)) ?c = filter (\<lambda>x. establish_increased (l_sub s x)) ?c"
    using old s'(10) by (intro filter_cong refl) blast
  have inj: "inj_on (idx s') (set ?c)" using inv old s'(6) by (auto simp: life_inv_def inj_on_def)
  have "\<forall>x\<in>set ?c. 1 \<le> idx s' x \<and> idx s' x < 32" using inv old s'(6) by (auto simp: life_inv_def)
  moreover have "bit (path_index_bits (l_mpcb s')) j \<longleftrightarrow> j \<in> insert i (idx s' ` set ?c)" for j
    using i(1) bits [of j] by (auto simp: s'(2) img bit_or_iff bit_exp_iff dest: bit_imp_le_length)
  moreover have "has_mptcp (l_sub s' x) \<and> attached (l_sub s' x) \<longleftrightarrow> x \<in> set (sk # ?c)" for x
    using inv s'(7,8) s'(10) [of x] by (cases "x = sk") (simp_all add: life_inv_def)
  ultimately show ?thesis
    using inv new free i(1) inj e s'(9) by (simp add: life_inv_def s'(1,3,4,5) img)
qed

lemma life_inv_outside:
  assumes inv: "life_inv s" and c: "l_conns s' = l_conns s" "path_index_bits (l_mpcb s') = path_index_bits (l_mpcb s)"
    "cnt_subflows (l_mpcb s') = cnt_subflows (l_mpcb s)" "cnt_established (l_mpcb s') = cnt_established (l_mpcb s)"
    and x: "\<And>x. x \<in> set (l_conns s) \<Longrightarrow> idx s' x = idx s x \<and> establish_increased (l_sub s' x) = establish_increased (l_sub s x)"
    and a: "\<And>x. (has_mptcp (l_sub s' x) \<and> attached (l_sub s' x)) = (has_mptcp (l_sub s x) \<and> attached (l_sub s x))"
  shows "life_inv s'"
proof -
  have img: "idx s' ` set (l_conns s) = idx s ` set (l_conns s)" using x by (intro image_cong refl) blast
  have e: "filter (\<lambda>x. establish_increased (l_sub s' x)) (l_conns s) = filter (\<lambda>x. establish_increased (l_sub s x)) (l_conns s)"
    using x by (intro filter_cong refl) blast
  have "inj_on (idx s') (set (l_conns s))" "\<forall>y\<in>set (l_conns s). 1 \<le> idx s' y \<and> idx s' y < 32"
    using inv x by (auto simp: life_inv_def inj_on_def)
  then show ?thesis using inv by (simp add: life_inv_def c img e a)
qed

lemma inherit_sel [life_sel]:
  "l_conns (mptcp_sub_inherit_sockopts meta sk s) = l_conns s" "l_mpcb (mptcp_sub_inherit_sockopts meta sk s) = l_mpcb s"
  "l_tp (mptcp_sub_inherit_sockopts meta sk s) = l_tp s"
  "l_conns (mptcp_assign_congestion_control k meta sk s) = l_conns s" "l_mpcb (mptcp_assign_congestion_control k meta sk s) = l_mpcb s"
  "l_tp (mptcp_assign_congestion_control k meta sk s) = l_tp s"
  by (simp_all add: mptcp_sub_inherit_sockopts_def mptcp_assign_congestion_control_def Let_def life_sel)

lemma inherit_info [life_sel]:
  "has_mptcp (l_sub (mptcp_sub_inherit_sockopts meta sk s) x) = has_mptcp (l_sub s x)"
  "attached (l_sub (mptcp_sub_inherit_sockopts meta sk s) x) = attached (l_sub s x)"
  "establish_increased (l_sub (mptcp_sub_inherit_sockopts meta sk s) x) = establish_increased (l_sub s x)"
  "has_mptcp (l_sub (mptcp_assign_congestion_control k meta sk s) x) = has_mptcp (l_sub s x)"
  "attached (l_sub (mptcp_assign_congestion_control k meta sk s) x) = attached (l_sub s x)"
  "establish_increased (l_sub (mptcp_assign_congestion_control k meta sk s) x) = establish_increased (l_sub s x)"
  by (simp_all add: mptcp_sub_inherit_sockopts_def mptcp_assign_congestion_control_def Let_def life_sel)

lemma refs_conns [life_sel]: "l_conns (s\<lparr>meta_refs := y, mpcb_refcnt := z\<rparr>) = l_conns s"
  by (simp add: l_conns_def life_sel)

lemma if_call_sel [life_sel]:
  "l_sub (if b then call c s else s) = l_sub s" "l_tp (if b then call c s else s) = l_tp s"
  "l_mpcb (if b then call c s else s) = l_mpcb s" "l_conns (if b then call c s else s) = l_conns s"
  by (simp_all add: life_sel)

lemma add_sock_inv:
  assumes inv: "life_inv s" and new: "sk \<notin> set (l_conns s)" and r: "mptcp_add_sock k si meta sk loc rem s = (e, s')"
  shows "life_inv s'"
proof (cases "lk_alloc k")
  case False
  then show ?thesis using r inv by (simp add: mptcp_add_sock_def)
next
  case True
  let ?s1 = "set_info sk fresh_info (set_tp sk fresh_tp s)"
  have m1: "l_mpcb ?s1 = l_mpcb s" by (simp add: life_sel)
  show ?thesis
  proof (cases "l_mpcb s" rule: set_new_pathindex_cases)
    case full
    let ?s2 = "set_tp sk (\<lambda>tp. tp\<lparr>path_index := of_nat 0\<rparr>) (set_mpcb (\<lambda>_. l_mpcb s) ?s1)"
    have "s' = ?s2" using r True full(1) by (simp add: mptcp_add_sock_def m1 Let_def)
    moreover have "life_inv ?s2"
    proof (rule life_inv_outside [OF inv])
      show "l_conns ?s2 = l_conns s" by (simp add: life_sel) (simp add: l_conns_def)
    qed (use new inv in \<open>auto simp: life_sel idx_def fresh_info_def life_inv_def\<close>)
    ultimately show ?thesis by simp
  next
    case (index i)
    have i0: "i \<noteq> 0" "unat (of_nat i :: u8) = i" using index unat_of_nat_u8 [of i] by (simp_all add: free_index_def)
    have t: "mptcp_set_new_pathindex (l_mpcb s) = (i, snd (take_index i (l_mpcb s)))" using index(1) by (simp add: take_index_def)
    have s': "s' = snd (mptcp_add_sock k si meta sk loc rem s)" using r by simp
    note eqs = s' mptcp_add_sock_def True t i0 Let_def life_sel idx_def take_index_def fresh_info_def l_conns_def
    show ?thesis
    proof (rule add_sock_index [OF inv new index(2,3)])
      show "l_conns s' = sk # l_conns s" "path_index_bits (l_mpcb s') = path_index_bits (l_mpcb s) OR push_bit i 1"
        "cnt_subflows (l_mpcb s') = cnt_subflows (l_mpcb s) + 1" "cnt_established (l_mpcb s') = cnt_established (l_mpcb s)"
        "idx s' sk = i" "has_mptcp (l_sub s' sk)" "attached (l_sub s' sk)" "\<not> establish_increased (l_sub s' sk)"
        by (simp_all add: eqs)
    qed (simp_all add: eqs)
  qed
qed

lemma set_state_inv:
  assumes inv: "life_inv s" and m: "sk \<in> set (l_conns s)" "\<not> establish_increased (l_sub s sk)"
  shows "life_inv (mptcp_set_state meta sk s)"
proof -
  define s1 where "s1 = (if sk_state (l_tp s meta) \<in> {TCP_SYN_SENT, TCP_SYN_RECV} \<and> sk_state (l_tp s sk) = TCP_ESTABLISHED
                then let s' = set_tp meta (\<lambda>tp. tp\<lparr>sk_state := TCP_ESTABLISHED\<rparr>) s
                     in if \<not> sock_dead (l_sub s meta) then call Wake_Out (call State_Change s') else s'
                else s)"
  have same: "same_life s s1" by (auto simp: s1_def Let_def same_life_def life_sel idx_def)
  have inv1: "life_inv s1" using same_life_inv [OF same inv] .
  have m1: "sk \<in> set (l_conns s1)" "\<not> establish_increased (l_sub s1 sk)" using same m by (simp_all add: same_life_def)
  let ?s2 = "set_mpcb (\<lambda>m. m\<lparr>cnt_established := cnt_established m + 1\<rparr>) (set_info sk (\<lambda>i. i\<lparr>establish_increased := True\<rparr>) s1)"
  have c: "l_conns ?s2 = l_conns s1" by (simp add: life_sel) (simp add: l_conns_def)
  have more: "length (filter (\<lambda>x. establish_increased (l_sub ?s2 x)) xs) = length (filter (\<lambda>x. establish_increased (l_sub s1 x)) xs) +
      of_bool (sk \<in> set xs)" if "distinct xs" for xs
    using that m1(2) by (induction xs) (auto simp: life_sel)
  have i: "idx ?s2 = idx s1" by (simp add: idx_def life_sel fun_eq_iff)
  have "life_inv ?s2"
    using inv1 more [of "l_conns s1"] m1(1) by (simp add: life_inv_def c i) (simp add: life_sel)
  then show ?thesis using inv1 unfolding mptcp_set_state_def s1_def [symmetric] Let_def [of s1] by simp
qed

lemma same_reinject:
  assumes "mptcp_reinject_data ops fuel meta queue sent sk c (l_out s) = Some o1"
  shows "same_life s (call x (s\<lparr>l_out := o1\<rparr>))"
  using reinject_data_only [OF assms]
  by (auto simp: same_life_def l_conns_def l_mpcb_def l_tp_def idx_def call_def only_reinject_def)

lemma del_sock_inv:
  assumes inv: "life_inv s" and r: "mptcp_del_sock ops fuel rel meta queue sent sk s = Some s'"
  shows "life_inv s'"
proof (cases "has_mptcp (l_sub s sk) \<and> attached (l_sub s sk)")
  case False
  then show ?thesis using r inv by (simp add: mptcp_del_sock_def)
next
  case True
  define s2 where "s2 = set_mpcb (\<lambda>m. m\<lparr>connection_list := remove1 sk (connection_list m), cnt_subflows := cnt_subflows m - 1,
      cnt_established := (if establish_increased (l_sub s sk) then cnt_established m - 1 else cnt_established m)\<rparr>)
      (if rel then call (Sched_Release sk) s else s)"
  define s3 where "s3 = set_mpcb (\<lambda>m. m\<lparr>path_index_bits := clrf (path_index_bits m) (push_bit (unat (path_index (l_tp s sk))) 1)\<rparr>)
      (set_info sk (\<lambda>i. i\<lparr>attached := False\<rparr>) s2)"
  have mem: "sk \<in> set (l_conns s)" using inv True by (simp add: life_inv_def)
  have d: "distinct (l_conns s)" and inj: "inj_on (idx s) (set (l_conns s))" using inv by (simp_all add: life_inv_def)
  have c3: "l_conns s3 = remove1 sk (l_conns s)" by (simp add: s3_def s2_def life_sel) (simp add: l_conns_def life_sel)
  have set3: "set (l_conns s3) = set (l_conns s) - {sk}" using d by (simp add: c3)
  have i3: "idx s3 = idx s" by (simp add: s3_def s2_def idx_def life_sel fun_eq_iff)
  have e3: "establish_increased (l_sub s3 x) = establish_increased (l_sub s x)" for x by (simp add: s3_def s2_def life_sel)
  have len: "length (l_conns s) = Suc (length (l_conns s3))"
    using mem length_pos_if_in_set [OF mem] by (simp add: c3 length_remove1)
  have est: "length (filter P (remove1 sk xs)) + of_bool (P sk) = length (filter P xs)" if "sk \<in> set xs" for P :: "nat \<Rightarrow> bool" and xs
    using that by (induction xs) auto
  have inv3: "life_inv s3"
  proof -
    have img: "idx s ` (set (l_conns s) - {sk}) = idx s ` set (l_conns s) - {idx s sk}" using inj mem by (auto simp: inj_on_def)
    have b3: "path_index_bits (l_mpcb s3) = clrf (path_index_bits (l_mpcb s)) (push_bit (idx s sk) 1)"
      by (simp add: s3_def s2_def life_sel idx_def)
    have old: "bit (path_index_bits (l_mpcb s)) i \<longleftrightarrow> i \<in> idx s ` set (l_conns s)" for i using inv by (simp add: life_inv_def)
    have bits: "bit (path_index_bits (l_mpcb s3)) i \<longleftrightarrow> i \<in> idx s3 ` set (l_conns s3)" for i
      using bit_imp_le_length [of "path_index_bits (l_mpcb s)" i] unfolding set3 i3 img b3
      by (auto simp: old clrf_def bit_and_iff bit_not_iff_eq bit_exp_iff)
    have cnt: "cnt_subflows (l_mpcb s3) = of_nat (length (l_conns s3))"
    proof -
      have "cnt_subflows (l_mpcb s3) = cnt_subflows (l_mpcb s) - 1" by (simp add: s3_def s2_def life_sel)
      moreover have "cnt_subflows (l_mpcb s) = of_nat (length (l_conns s))" using inv by (simp add: life_inv_def)
      ultimately show ?thesis by (simp add: len)
    qed
    have "cnt_established (l_mpcb s3) = of_nat (length (filter (\<lambda>x. establish_increased (l_sub s3 x)) (l_conns s3)))"
    proof -
      have "cnt_established (l_mpcb s) = of_nat (length (filter (\<lambda>x. establish_increased (l_sub s x)) (l_conns s3)) + of_bool (establish_increased (l_sub s sk)))"
        using inv est [OF mem, of "\<lambda>x. establish_increased (l_sub s x)"] by (simp only: life_inv_def c3)
      then show ?thesis by (simp add: e3) (simp add: s3_def s2_def life_sel)
    qed
    moreover have "has_mptcp (l_sub s3 x) \<and> attached (l_sub s3 x) \<longleftrightarrow> x \<in> set (l_conns s3)" for x
      using inv by (simp add: set3) (auto simp: s3_def s2_def life_sel life_inv_def)
    ultimately show ?thesis
      using bits cnt inv inj d by (simp add: life_inv_def c3 i3 inj_on_diff set3 [unfolded c3])
  qed
  have u: "mptcp_del_sock ops fuel rel meta queue sent sk s =
    (case (if o_queue (l_out s3) sk \<noteq> []
           then map_option (\<lambda>o1. call (Push_Frames meta) (s3\<lparr>l_out := o1\<rparr>))
                  (mptcp_reinject_data ops fuel meta queue sent sk False (l_out s3))
           else Some s3) of
       None \<Rightarrow> None
     | Some s4 \<Rightarrow> Some (set_info sk (\<lambda>i. i\<lparr>inet_opt := False\<rparr>)
         (if is_master_tp (l_tp s4 sk) then s4\<lparr>l_master := None\<rparr>
          else if pre_established (l_tp s4 sk) then call (Stop_Ack_Timer sk) s4 else s4)))"
    using True by (simp only: mptcp_del_sock_def Let_def s2_def s3_def simp_thms if_False cong: option.case_cong)
  obtain s4 where s4: "(if o_queue (l_out s3) sk \<noteq> []
           then map_option (\<lambda>o1. call (Push_Frames meta) (s3\<lparr>l_out := o1\<rparr>))
                  (mptcp_reinject_data ops fuel meta queue sent sk False (l_out s3))
           else Some s3) = Some s4"
      "s' = set_info sk (\<lambda>i. i\<lparr>inet_opt := False\<rparr>)
         (if is_master_tp (l_tp s4 sk) then s4\<lparr>l_master := None\<rparr>
          else if pre_established (l_tp s4 sk) then call (Stop_Ack_Timer sk) s4 else s4)"
    using r [unfolded u] by (auto split: option.splits)
  have "same_life s3 s4" using same_reinject s4(1) by (auto split: if_splits)
  moreover have "same_life s4 s'" unfolding s4(2) by (simp add: same_life_def life_sel idx_def l_conns_def)
  ultimately have "same_life s3 s'" by (rule same_life_trans)
  then show ?thesis using same_life_inv inv3 by blast
qed


text \<open>The calls into the kernel keep the invariant: a kernel function works on one TCP socket, and when that goes
  away, it comes back through \<open>mptcp_del_sock\<close>.\<close>

definition life_keeps :: "life_kernel \<Rightarrow> bool" where
  "life_keeps k \<longleftrightarrow> (\<forall>sk s. life_inv s \<longrightarrow>
       life_inv (lk_tcp_close k sk s) \<and> life_inv (lk_send_fin k sk s) \<and> life_inv (lk_tcp_done k sk s)) \<and>
     (\<forall>tp. path_index (snd (lk_close_state k tp)) = path_index tp)"

lemma inv_set_tp: "life_inv s \<Longrightarrow> (\<And>tp. path_index (f tp) = path_index tp) \<Longrightarrow> life_inv (set_tp sk f s)"
  by (rule same_life_inv [OF same_set_tp])

lemma inv_set_const:
  "life_inv s \<Longrightarrow> path_index tp = path_index (l_tp s sk) \<Longrightarrow> life_inv (set_tp sk (\<lambda>_. tp) s)"
  by (rule same_life_inv [of s]) (simp_all add: same_life_def life_sel idx_def)

lemma inv_set_info:
  "life_inv s \<Longrightarrow> (\<And>i. has_mptcp (f i) = has_mptcp i \<and> attached (f i) = attached i \<and> establish_increased (f i) = establish_increased i) \<Longrightarrow>
   life_inv (set_info sk f s)"
  by (rule same_life_inv [OF same_set_info])

lemma inv_call: "life_inv s \<Longrightarrow> life_inv (call c s)"
  by (rule same_life_inv [OF same_call])

lemma close_now_inv:
  assumes k: "life_keeps k" and inv: "life_inv s"
  shows "life_inv (close_now k sk s)"
proof -
  have "life_inv (set_info sk (\<lambda>i. i\<lparr>closing := True\<rparr>) s)" using inv by (rule inv_set_info) simp
  moreover have "life_inv (set_tp sk (\<lambda>_. snd (lk_close_state k (l_tp s sk))) s)"
    using inv by (rule inv_set_const) (use k in \<open>simp add: life_keeps_def\<close>)
  moreover from this have "life_inv (set_tp sk (\<lambda>tp. tp\<lparr>send_shutdown := True\<rparr>) (set_tp sk (\<lambda>_. snd (lk_close_state k (l_tp s sk))) s))"
    by (rule inv_set_tp) simp
  ultimately show ?thesis using k inv by (auto simp: close_now_def life_keeps_def Let_def split: prod.splits)
qed

lemma send_fin_same: "same_life s (snd (mptcp_sub_send_fin k sk s))"
  by (simp add: mptcp_sub_send_fin_def same_life_def Let_def life_sel idx_def l_conns_def)

lemma fin_before_work_inv:
  assumes k: "life_keeps k" and inv: "life_inv s"
  shows "life_inv (fin_before_work k sk s)"
proof -
  obtain send tp where c: "lk_close_state k (l_tp s sk) = (send, tp)" by fastforce
  let ?s1 = "set_tp sk (\<lambda>_. tp) s"
  have "path_index tp = path_index (l_tp s sk)" using k c by (metis life_keeps_def snd_conv)
  then have i1: "life_inv ?s1" using inv by (intro inv_set_const)
  obtain failed s2 where f: "mptcp_sub_send_fin k sk ?s1 = (failed, s2)" by fastforce
  have "life_inv s2" using same_life_inv [OF send_fin_same [of ?s1 k sk]] i1 f by simp
  moreover from this have "life_inv (set_tp sk (\<lambda>tp. tp\<lparr>sk_state := old\<rparr>) s2)" for old by (rule inv_set_tp) simp
  ultimately show ?thesis using inv i1 by (simp add: fin_before_work_def Let_def c f)
qed

lemma sub_close_inv:
  assumes k: "life_keeps k" and inv: "life_inv s"
  shows "life_inv (mptcp_sub_close k sk delay s)"
proof -
  have q: "life_inv (queue_work k sk delay s1)" if "life_inv s1" for s1
    unfolding queue_work_def using that by (rule inv_set_info) simp
  have c: "life_inv (set_info sk (\<lambda>i. i\<lparr>work_expires := None, sock_refs := sock_refs i - 1\<rparr>) s)"
    using inv by (rule inv_set_info) simp
  show ?thesis
    using q c inv close_now_inv [OF k] fin_before_work_inv [OF k]
    by (auto simp: mptcp_sub_close_def Let_def split: option.splits)
qed

lemma sub_close_wq_inv: "life_keeps k \<Longrightarrow> life_inv s \<Longrightarrow> life_inv (mptcp_sub_close_wq k sk s)"
  unfolding mptcp_sub_close_wq_def by (intro inv_set_info close_now_inv) simp_all

lemma force_close_inv:
  assumes k: "life_keeps k" and inv: "life_inv s"
  shows "life_inv (mptcp_sub_force_close k sk s)"
proof -
  have "life_inv (set_info sk (\<lambda>i. i\<lparr>mp_killed := True\<rparr>) s)" using inv by (rule inv_set_info) simp
  then show ?thesis using k sub_close_inv [OF k] by (simp add: mptcp_sub_force_close_def Let_def life_keeps_def)
qed

lemma error_report_inv:
  assumes k: "life_keeps k" and inv: "life_inv s"
  shows "life_inv (mptcp_sock_def_error_report k meta sk s)"
proof -
  define s1 where "s1 = (if \<not> sock_dead (l_sub s sk) then mptcp_sub_close k sk 0 s else s)"
  have i1: "life_inv s1" using inv sub_close_inv [OF k] by (simp add: s1_def)
  have e: "life_inv (set_info sk (\<lambda>i. i\<lparr>sk_err := 0\<rparr>) s2)" if "life_inv s2" for s2 using that by (rule inv_set_info) simp
  have m: "life_inv (set_info meta (\<lambda>i. i\<lparr>sk_err := a, sk_err_soft := b\<rparr>) s1)" for a b using i1 by (rule inv_set_info) simp
  show ?thesis
    unfolding mptcp_sock_def_error_report_def s1_def [symmetric] Let_def
    using k by (intro e) (simp add: i1 m inv_call life_keeps_def)
qed

lemma close_rest_inv: "life_keeps k \<Longrightarrow> life_inv s \<Longrightarrow> life_inv (close_rest k sk s)"
  by (simp add: close_rest_def sub_close_inv)

lemma destroy_meta_inv:
  assumes k: "life_keeps k" and inv: "life_inv s"
  shows "life_inv (mptcp_destroy_meta k s)"
proof -
  have "life_inv (fold (close_rest k) xs s1)" if "life_inv s1" for xs s1
    using that by (induction xs arbitrary: s1) (simp_all add: close_rest_inv [OF k])
  moreover have "life_inv (set_mpcb (\<lambda>m. m\<lparr>reinject_queue := []\<rparr>) s)"
    by (rule same_life_inv [OF _ inv]) (simp add: same_life_def life_sel idx_def l_conns_def)
  ultimately show ?thesis by (simp add: mptcp_destroy_meta_def)
qed

section \<open>Runs\<close>

text \<open>A step of a connection.  A subflow is added once; the callback for the state finds the subflow established at
  most once, since TCP reports a change of the state.\<close>

inductive life_step :: "life_kernel \<Rightarrow> kernel_ops \<Rightarrow> sk_ptr \<Rightarrow> life_state \<Rightarrow> life_state \<Rightarrow> bool" for k ops meta where
  add: "sk \<notin> set (l_conns s) \<Longrightarrow> mptcp_add_sock k sched_init meta sk loc rem s = (e, s') \<Longrightarrow> life_step k ops meta s s'"
| established: "sk \<in> set (l_conns s) \<Longrightarrow> \<not> establish_increased (l_sub s sk) \<Longrightarrow>
    life_step k ops meta s (mptcp_set_state meta sk s)"
| del: "mptcp_del_sock ops fuel sched_release meta queue sent sk s = Some s' \<Longrightarrow> life_step k ops meta s s'"
| close: "life_step k ops meta s (mptcp_sub_close k sk delay s)"
| close_wq: "life_step k ops meta s (mptcp_sub_close_wq k sk s)"
| force_close: "life_step k ops meta s (mptcp_sub_force_close k sk s)"
| report: "life_step k ops meta s (mptcp_sock_def_error_report k meta sk s)"
| destroy: "life_step k ops meta s (mptcp_destroy_meta k s)"
| sndbuf: "life_step k ops meta s (mptcp_update_sndbuf wmem meta s)"

inductive_cases life_stepE: "life_step k ops meta s s'"

lemma update_sndbuf_same: "same_life s (mptcp_update_sndbuf wmem meta s)"
  by (simp add: mptcp_update_sndbuf_def Let_def same_life_def life_sel idx_def)

lemma life_step_inv:
  assumes "life_keeps k" and "life_inv s" and "life_step k ops meta s s'"
  shows "life_inv s'"
  using assms(3,2,1)
  by (induction rule: life_step.induct)
     (blast intro: add_sock_inv set_state_inv del_sock_inv sub_close_inv sub_close_wq_inv force_close_inv error_report_inv
      destroy_meta_inv same_life_inv [OF update_sndbuf_same])+

definition no_subflows :: "life_state \<Rightarrow> bool" where
  "no_subflows s \<longleftrightarrow> l_conns s = [] \<and> path_index_bits (l_mpcb s) = 0 \<and> cnt_subflows (l_mpcb s) = 0 \<and>
     cnt_established (l_mpcb s) = 0 \<and> (\<forall>sk. \<not> (has_mptcp (l_sub s sk) \<and> attached (l_sub s sk)))"

lemma no_subflows_inv: "no_subflows s \<Longrightarrow> life_inv s"
  by (simp add: no_subflows_def life_inv_def)

lemma life_run_inv:
  assumes "life_keeps k" and "life_inv s" and "(life_step k ops meta)\<^sup>*\<^sup>* s s'"
  shows "life_inv s'"
  using assms(3,2) by (induction rule: rtranclp_induct) (auto intro: life_step_inv [OF assms(1)])

section \<open>Properties\<close>

text \<open>C24. Along every run of a connection, from its creation without subflows, the fields that describe the subflows
  agree: the counters are the number of subflows in the list and the number of the established ones,
  which never exceed 31, no two subflows share a path index, and the bit field has exactly the indices in
  use.\<close>

theorem subflow_fields_agree:
  assumes "life_keeps k" and "no_subflows s0" and "(life_step k ops meta)\<^sup>*\<^sup>* s0 s"
  shows "unat (cnt_subflows (l_mpcb s)) = length (l_conns s) \<and> length (l_conns s) \<le> 31 \<and>
    unat (cnt_established (l_mpcb s)) = card {sk \<in> set (l_conns s). establish_increased (l_sub s sk)} \<and>
    inj_on (\<lambda>sk. path_index (l_tp s sk)) (set (l_conns s)) \<and>
    (\<forall>i. bit (path_index_bits (l_mpcb s)) i \<longleftrightarrow> (\<exists>sk\<in>set (l_conns s). unat (path_index (l_tp s sk)) = i))"
proof -
  have i: "life_inv s" using life_run_inv [OF assms(1) no_subflows_inv [OF assms(2)] assms(3)] .
  let ?e = "filter (\<lambda>sk. establish_increased (l_sub s sk)) (l_conns s)"
  have n: "length (l_conns s) \<le> 31" using life_inv_count [OF i] .
  have "length ?e \<le> length (l_conns s)" by (rule length_filter_le)
  then have le: "length ?e < 256" "length (l_conns s) < 256" using n by linarith+
  have "unat (cnt_subflows (l_mpcb s)) = length (l_conns s)" "unat (cnt_established (l_mpcb s)) = length ?e"
    using i unat_of_nat_u8 [OF le(2)] unat_of_nat_u8 [OF le(1)] by (simp_all add: life_inv_def)
  moreover have "length ?e = card {sk \<in> set (l_conns s). establish_increased (l_sub s sk)}"
    using i distinct_card [of ?e] by (simp add: life_inv_def)
  moreover have "inj_on (\<lambda>sk. path_index (l_tp s sk)) (set (l_conns s))" using i by (simp add: life_inv_def inj_on_def idx_def)
  ultimately show ?thesis using i n by (auto simp: life_inv_def idx_def)
qed

definition sample_life :: life_state where
  "sample_life = \<lparr>l_out = \<lparr>o_socks = (\<lambda>_. sample_sock), o_mpcb = sample_mpcb\<lparr>connection_list := [], cnt_subflows := 0, cnt_established := 0\<rparr>,
       o_queue = (\<lambda>_. [])\<rparr>,
     l_sub = (\<lambda>_. \<lparr>has_mptcp = False, attached = False, establish_increased = False, sub_loc_id = 0, sub_rem_id = 0, mpc = False,
       closing = False, sock_dead = False, mp_killed = False, fclose_sent = False, work_expires = None, sock_refs = 1, sk_sndbuf = 0, sk_rcvbuf = 0, init_rcv_wnd = 0, sub_rcv_isn = 0,
       sk_rmem = 0, sk_err = 0, sk_err_soft = 0, inet_opt = False, ca_ops = ''lia'', ca_priv_cleared = False,
       sub_opts = \<lparr>tos = 0, sk_priority = 0, sk_reuse = 0, sk_userlocks = 0, nonagle = 0, keepopen = False, recverr = False\<rparr>,
       unsent = 0\<rparr>),
     l_master = None, meta_refs = 1, mpcb_refcnt = 1, meta_shutdown = 0, l_calls = []\<rparr>"

section \<open>Closed instances\<close>

definition sample_life_kernel :: life_kernel where
  "sample_life_kernel = \<lparr>lk_alloc = True, lk_close_state = (\<lambda>tp. (False, tp)), lk_skb_alloc = True, lk_tcp_close = (\<lambda>_ s. s),
     lk_send_fin = (\<lambda>_ s. s), lk_tcp_done = (\<lambda>_ s. s), lk_cancel_work = True, lk_in_softirq = True, lk_jiffies = 0,
     lk_has_info = (\<lambda>_. False), lk_module = (\<lambda>_. True)\<rparr>"

theorem subflow_fields_agree_witness:
  "length (l_conns (snd (mptcp_add_sock sample_life_kernel True 0 1 0 0 sample_life))) \<le> 31 \<and>
   l_conns (snd (mptcp_add_sock sample_life_kernel True 0 1 0 0 sample_life)) = [1]"
proof -
  let ?s = "snd (mptcp_add_sock sample_life_kernel True 0 1 0 0 sample_life)"
  have k: "life_keeps sample_life_kernel" by (simp add: life_keeps_def sample_life_kernel_def)
  have n: "no_subflows sample_life" by (simp add: no_subflows_def sample_life_def l_conns_def l_mpcb_def sample_mpcb_def)
  have "life_step sample_life_kernel sample_ops 0 sample_life ?s"
    by (rule life_step.add [of 1]) (use n in \<open>simp add: no_subflows_def\<close>, rule prod.collapse [symmetric])
  then have "(life_step sample_life_kernel sample_ops 0)\<^sup>*\<^sup>* sample_life ?s" by (rule r_into_rtranclp)
  from subflow_fields_agree [OF k n this] have "length (l_conns ?s) \<le> 31" by blast
  moreover have "mptcp_set_new_pathindex (l_mpcb sample_life) = take_index 1 (l_mpcb sample_life)"
    by (simp add: mptcp_set_new_pathindex_def sample_life_def l_mpcb_def sample_mpcb_def free_index_def upt_rec)
  then have "l_conns ?s = [1]"
    using n by (simp add: mptcp_add_sock_def sample_life_kernel_def life_sel Let_def take_index_def no_subflows_def)
      (simp add: l_conns_def)
  ultimately show ?thesis by blast
qed

end
