(* ===== verification/Hmac.thy ===== *)
theory Hmac
  imports Options_RoundTrip
begin

text \<open>
  The hashes of the keys (\<open>net/mptcp/mptcp_ctrl.c\<close>): the token and the initial data sequence number of a key, and
  the message code that authenticates a subflow, which the code computes block by block.  It is compared
  with HMAC as RFC 2104 defines it, over the padding of SHA-1.

  The compression function and the initial words of SHA-1 are kernel functions and so a parameter; of them
  only the number of words is used.
\<close>

section \<open>The code\<close>

record sha =
  sha_init :: "u32 list"
  sha_transform :: "u32 list \<Rightarrow> u8 list \<Rightarrow> u32 list"

definition cpu_to_be32 :: "u32 \<Rightarrow> u32" where
  "cpu_to_be32 w = get_mem32 (be32 w)"

text \<open>The bytes of an array of words in memory.\<close>

definition mem_words :: "u32 list \<Rightarrow> u8 list" where
  "mem_words ws = concat (map mem32 ws)"

definition mptcp_key_sha1 :: "sha \<Rightarrow> u64 \<Rightarrow> u32 \<times> u64" where
  "mptcp_key_sha1 sha key =
     (let input = mem64 key @ [0x80] @ replicate 54 0 @ [0x40];
          h = map cpu_to_be32 (sha_transform sha (sha_init sha) input)
      in (h ! 0, get_mem64 (mem_words (drop 3 h))))"

definition key_block :: "u8 \<Rightarrow> u8 list \<Rightarrow> u8 list \<Rightarrow> u8 list" where
  "key_block pad key_1 key_2 = map (\<lambda>b. pad XOR b) (key_1 @ key_2) @ replicate 48 pad"

definition msg_block :: "u8 list \<Rightarrow> u8 list" where
  "msg_block msg = take 62 (msg @ [0x80] @ replicate (62 - length msg) 0) @ [0x02, of_nat (length msg * 8)]"

definition hash_block :: "u32 list \<Rightarrow> u8 list" where
  "hash_block h = mem_words h @ [0x80] @ replicate 41 0 @ [0x02, 0xA0]"

text \<open>\<open>None\<close> is the \<open>BUG_ON\<close> for a long message.\<close>

definition mptcp_hmac_sha1 :: "sha \<Rightarrow> u8 list \<Rightarrow> u8 list \<Rightarrow> u8 list list \<Rightarrow> u32 list option" where
  "mptcp_hmac_sha1 sha key_1 key_2 msgs =
     (if 64 + length (concat msgs) > 125 then None
      else let inner = map cpu_to_be32 (sha_transform sha (sha_transform sha (sha_init sha) (key_block 0x36 key_1 key_2)) (msg_block (concat msgs)))
           in Some (map cpu_to_be32 (sha_transform sha (sha_transform sha (sha_init sha) (key_block 0x5C key_1 key_2)) (hash_block inner))))"

section \<open>The reference\<close>

text \<open>SHA-1 of a message: padded with a bit, zeros and its length in bits, hashed block by block.\<close>

definition sha_pad :: "u8 list \<Rightarrow> u8 list" where
  "sha_pad bs = bs @ [0x80] @ replicate ((119 - length bs mod 64) mod 64) 0 @ be64 (of_nat (length bs * 8))"

function hash_blocks :: "sha \<Rightarrow> u32 list \<Rightarrow> u8 list \<Rightarrow> u32 list" where
  "hash_blocks sha h bs = (if length bs < 64 then h else hash_blocks sha (sha_transform sha h (take 64 bs)) (drop 64 bs))"
  by pat_completeness auto
termination by (relation "measure (\<lambda>(_, _, bs). length bs)") auto

declare hash_blocks.simps [simp del]

definition sha1 :: "sha \<Rightarrow> u8 list \<Rightarrow> u8 list" where
  "sha1 sha bs = concat (map be32 (hash_blocks sha (sha_init sha) (sha_pad bs)))"

definition hmac_sha1 :: "sha \<Rightarrow> u8 list \<Rightarrow> u8 list \<Rightarrow> u8 list" where
  "hmac_sha1 sha key msg =
     (let key' = key @ replicate (64 - length key) 0
      in sha1 sha (map (\<lambda>b. 0x5C XOR b) key' @ sha1 sha (map (\<lambda>b. 0x36 XOR b) key' @ msg)))"

section \<open>The code computes the reference\<close>

lemma mem32_get_mem32: "length bs = 4 \<Longrightarrow> mem32 (get_mem32 bs) = bs"
proof -
  assume "length bs = 4"
  then obtain a b c d where bs: "bs = [a, b, c, d]" by (auto simp: numeral_eq_Suc length_Suc_conv)
  have "ucast (get_mem32 bs) = a" "ucast (drop_bit 8 (get_mem32 bs)) = b" "ucast (drop_bit 16 (get_mem32 bs)) = c"
    "ucast (drop_bit 24 (get_mem32 bs)) = d"
    by (rule bit_word_eqI, auto simp: bs get_mem32_def bit_simps dest: bit_imp_le_length)+
  then show ?thesis by (simp add: mem32_def bs)
qed

lemma mem_words_be: "mem_words (map cpu_to_be32 ws) = concat (map be32 ws)"
  by (induction ws) (simp_all add: mem_words_def cpu_to_be32_def mem32_get_mem32)

lemma two_blocks:
  assumes "length a = 64" and "length b = 64"
  shows "hash_blocks sha h (a @ b) = sha_transform sha (sha_transform sha h a) b"
  using assms by (simp add: hash_blocks.simps [of sha h "a @ b"] hash_blocks.simps [of sha _ b] hash_blocks.simps [of sha _ "[]"])

lemma key_block_pad:
  assumes "length k1 = 8" and "length k2 = 8"
  shows "key_block pad k1 k2 = map (\<lambda>b. pad XOR b) ((k1 @ k2) @ replicate (64 - length (k1 @ k2)) 0)" "length (key_block pad k1 k2) = 64"
  using assms by (simp_all add: key_block_def)

text \<open>The length in the last block of a message of \<open>64 + n\<close> bytes.\<close>

lemma length_bytes_all: "\<forall>n\<in>set [0..<32]. be64 (of_nat ((64 + n) * 8)) = replicate 6 0 @ [0x02, of_nat (n * 8)]"
  by code_simp

lemma length_bytes: "n \<le> 31 \<Longrightarrow> be64 (of_nat ((64 + n) * 8)) = replicate 6 0 @ [0x02, of_nat (n * 8)]"
  using length_bytes_all by simp

lemma length_msg_block: "length m \<le> 61 \<Longrightarrow> length (msg_block m) = 64"
  by (simp add: msg_block_def)

lemma msg_block_pad:
  assumes "length k = 64" and "length m \<le> 31"
  shows "sha_pad (k @ m) = k @ msg_block m"
proof -
  have "119 - length m = 64 + (55 - length m)" using assms by simp
  then have "(119 - length m) mod 64 = (55 - length m) mod 64" by (simp only: mod_add_self1)
  then have z: "(119 - length m) mod 64 = 55 - length m" by simp
  have "replicate (55 - length m) (0::u8) @ replicate 6 0 = replicate (61 - length m) 0"
    using assms by (simp add: replicate_add [symmetric])
  then have "sha_pad (k @ m) = k @ m @ [0x80] @ replicate (61 - length m) 0 @ [0x02, of_nat (length m * 8)]"
    using assms length_bytes [of "length m"] by (simp add: sha_pad_def z del: append_assoc)
  moreover have "take 62 (m @ [0x80] @ replicate (62 - length m) 0) = m @ [0x80] @ replicate (61 - length m) (0::u8)"
    using assms by (simp add: take_Cons')
  ultimately show ?thesis by (simp add: msg_block_def)
qed

lemma sha1_two:
  assumes "length k = 64" and "length m \<le> 31"
  shows "sha1 sha (k @ m) = concat (map be32 (sha_transform sha (sha_transform sha (sha_init sha) k) (msg_block m)))"
  using two_blocks [OF assms(1) length_msg_block, of m] assms by (simp add: sha1_def msg_block_pad)

lemma hash_block_msg: "length h = 5 \<Longrightarrow> hash_block h = msg_block (mem_words h)"
proof -
  assume "length h = 5"
  then have "length (mem_words h) = 20" by (simp add: mem_words_def length_concat sum_list_triv comp_def)
  then show ?thesis by (simp add: hash_block_def msg_block_def take_Cons' numeral_eq_Suc)
qed

text \<open>The compression function gives five words.\<close>

definition sha_ok :: "sha \<Rightarrow> bool" where
  "sha_ok sha \<longleftrightarrow> (\<forall>h b. length (sha_transform sha h b) = 5)"

lemma hmac_code:
  assumes "sha_ok sha" and "length k1 = 8" and "length k2 = 8" and "length (concat msgs) \<le> 31"
  shows "map_option mem_words (mptcp_hmac_sha1 sha k1 k2 msgs) = Some (hmac_sha1 sha (k1 @ k2) (concat msgs))"
proof -
  let ?tr = "sha_transform sha" and ?m = "concat msgs"
  let ?h = "?tr (?tr (sha_init sha) (key_block 0x36 k1 k2)) (msg_block ?m)"
  have k: "key_block p k1 k2 = map (\<lambda>b. p XOR b) ((k1 @ k2) @ replicate (64 - length (k1 @ k2)) 0)" "length (key_block p k1 k2) = 64"
    for p using key_block_pad [OF assms(2,3)] by blast+
  have inner: "sha1 sha (key_block 0x36 k1 k2 @ ?m) = concat (map be32 ?h)"
    using sha1_two [OF k(2) assms(4)] .
  have five: "length (map cpu_to_be32 ?h) = 5" using assms(1) by (simp add: sha_ok_def)
  have len: "length (concat (map be32 ?h)) \<le> 31"
    using assms(1) by (simp add: sha_ok_def length_concat comp_def sum_list_triv)
  have "hmac_sha1 sha (k1 @ k2) ?m = concat (map be32 (?tr (?tr (sha_init sha) (key_block 0x5C k1 k2)) (msg_block (concat (map be32 ?h)))))"
    unfolding hmac_sha1_def Let_def k(1) [symmetric] inner by (rule sha1_two [OF k(2) len])
  moreover have "mptcp_hmac_sha1 sha k1 k2 msgs = Some (map cpu_to_be32 (?tr (?tr (sha_init sha) (key_block 0x5C k1 k2)) (hash_block (map cpu_to_be32 ?h))))"
    using assms(4) by (simp add: mptcp_hmac_sha1_def Let_def)
  ultimately show ?thesis by (simp add: mem_words_be hash_block_msg [OF five])
qed

text \<open>The token of a key is the first word of its SHA-1 hash.\<close>

lemma key_pad: "sha_pad (mem64 key) = mem64 key @ [0x80] @ replicate 54 0 @ [0x40]"
proof -
  have "be64 (of_nat (8 * 8)) = replicate 7 0 @ [0x40]" by code_simp
  moreover have "replicate 47 (0::u8) @ replicate 7 0 = replicate 54 0" by (simp only: replicate_add [symmetric]) simp
  ultimately show ?thesis by (simp add: sha_pad_def del: append_assoc)
qed

lemma key_token:
  assumes "sha_ok sha"
  shows "mem32 (fst (mptcp_key_sha1 sha key)) = take 4 (sha1 sha (mem64 key))"
proof -
  let ?h = "sha_transform sha (sha_init sha) (sha_pad (mem64 key))"
  have "length (sha_pad (mem64 key)) = 64" by (simp add: key_pad)
  then have s: "sha1 sha (mem64 key) = concat (map be32 ?h)"
    by (simp add: sha1_def hash_blocks.simps [of sha _ "sha_pad (mem64 key)"] hash_blocks.simps [of sha _ "[]"])
  have "length ?h = 5" using assms unfolding sha_ok_def by blast
  then obtain w ws where h: "?h = w # ws" by (cases ?h) auto
  have "mem32 (cpu_to_be32 w) = be32 w" by (simp add: cpu_to_be32_def mem32_get_mem32)
  then show ?thesis using h by (simp add: s mptcp_key_sha1_def Let_def key_pad)
qed

text \<open>The check of the length admits messages of up to 61 bytes, but from 32 bytes on the block has a wrong length
  field.\<close>

lemma long_message_length:
  "msg_block (replicate 32 0) \<noteq> drop 64 (sha_pad (replicate 64 0 @ replicate 32 0))"
  by code_simp

section \<open>Properties\<close>

text \<open>C21. The message code of a subflow is HMAC-SHA1: for keys of eight bytes each and messages of at most 31 bytes
  together, the blocks that the code builds by hand give the value of the definition of RFC 2104 over
  SHA-1 with its padding.\<close>

theorem mptcp_hmac_sha1_equiv:
  assumes "sha_ok sha" and "length k1 = 8" and "length k2 = 8" and "length (concat msgs) \<le> 31"
  shows "map_option mem_words (mptcp_hmac_sha1 sha k1 k2 msgs) = Some (hmac_sha1 sha (k1 @ k2) (concat msgs))"
  using hmac_code [OF assms] .

definition sample_sha :: sha where
  "sample_sha = \<lparr>sha_init = [1, 2, 3, 4, 5], sha_transform = (\<lambda>h b. map (\<lambda>w. w + ucast (hd b)) (take 5 (h @ replicate 5 0)))\<rparr>"

lemma sample_sha_ok: "sha_ok sample_sha"
  by (simp add: sha_ok_def sample_sha_def min_def)

theorem mptcp_hmac_sha1_equiv_witness:
  "map_option mem_words (mptcp_hmac_sha1 sample_sha (mem64 7) (mem64 9) [[1], [2]]) = Some (hmac_sha1 sample_sha (mem64 7 @ mem64 9) [1, 2])"
  using mptcp_hmac_sha1_equiv [OF sample_sha_ok, of "mem64 7" "mem64 9" "[[1], [2]]"] by simp

end
