(* ===== verification/Join.thy ===== *)
theory Join
  imports Hmac Subflows
begin

text \<open>
  Joining a connection with a new subflow: the request on the side that is joined (\<open>net/mptcp/mptcp_ipv4.c\<close>,
  \<open>net/mptcp/mptcp_ctrl.c\<close>), the answer on the side that joins (\<open>net/mptcp/mptcp_input.c\<close>) and the check of
  its acknowledgement.  Both sides authenticate each other by a message code over the keys of the
  connection and the two nonces.

  \<open>md5\<close> is the kernel's hash with the secret of the host; the address identifier of a local address comes
  from the path manager.  A result \<open>None\<close> is a \<open>BUG_ON\<close>.
\<close>

section \<open>The side that is joined\<close>

definition mptcp_v4_get_nonce :: "(u32 list \<Rightarrow> u32 list) \<Rightarrow> u32 \<Rightarrow> u32 \<Rightarrow> u16 \<Rightarrow> u16 \<Rightarrow> u32 \<Rightarrow> u32 \<times> u32" where
  "mptcp_v4_get_nonce md5 sa da sport dport seed =
     (md5 [sa, da, push_bit 16 (ucast sport) + ucast dport, seed] ! 0, seed + 1)"

definition mptcp_v4_get_key :: "(u32 list \<Rightarrow> u32 list) \<Rightarrow> u32 \<Rightarrow> u32 \<Rightarrow> u16 \<Rightarrow> u16 \<Rightarrow> u32 \<Rightarrow> u64" where
  "mptcp_v4_get_key md5 sa da sport dport seed =
     get_mem64 (mem_words (md5 [sa, da, push_bit 16 (ucast sport) + ucast dport, seed]))"

definition mptcp_init_mp_opt :: "options_received \<Rightarrow> options_received" where
  "mptcp_init_mp_opt mopt = mopt\<lparr>saw_mpc := False, rcv_dss_csum := False, drop_me := False, is_mp_join := False, join_ack := False,
     saw_low_prio := 0, rcv_prio := False, saw_add_addr := False, more_add_addr := False, saw_rem_addr := False,
     more_rem_addr := False, mp_fail := False, mp_fclose := False\<rparr>"

text \<open>The code over two nonces.\<close>

definition nonce_mac :: "sha \<Rightarrow> u64 \<Rightarrow> u64 \<Rightarrow> u32 \<Rightarrow> u32 \<Rightarrow> u32 list option" where
  "nonce_mac sha key_1 key_2 nonce_1 nonce_2 = mptcp_hmac_sha1 sha (mem64 key_1) (mem64 key_2) [mem32 nonce_1, mem32 nonce_2]"

definition mptcp_join_reqsk_init ::
  "sha \<Rightarrow> bool \<Rightarrow> opt_sock \<Rightarrow> mptcp_request_sock \<Rightarrow> u8 list \<Rightarrow> parsed \<Rightarrow> mptcp_request_sock option" where
  "mptcp_join_reqsk_init sha sysctl_checksum os mtreq options r =
     (let mopt = fst (tcp_parse_mptcp_options sysctl_checksum options (mptcp_init_mp_opt (fst r), snd r));
          r1 = mtreq\<lparr>is_sub := True, rs_rem_nonce := mptcp_recv_nonce mopt\<rparr>
      in map_option (\<lambda>h. r1\<lparr>rs_hash_tmac := get_mem64 (mem_words h), rs_rem_id := rem_id mopt, rs_rcv_low_prio := rcv_prio mopt\<rparr>)
           (nonce_mac sha (mptcp_loc_key os) (mptcp_rem_key os) (rs_loc_nonce r1) (rs_rem_nonce r1)))"

text \<open>The outer result is the \<open>BUG_ON\<close>, the inner one an unknown local address.\<close>

definition mptcp_v4_join_init_req ::
  "(u32 list \<Rightarrow> u32 list) \<Rightarrow> sha \<Rightarrow> bool \<Rightarrow> (u32 \<Rightarrow> (u8 \<times> bool) option) \<Rightarrow> opt_sock \<Rightarrow> u32 \<Rightarrow> u32 \<Rightarrow> u16 \<Rightarrow> u16 \<Rightarrow> u32 \<Rightarrow> u32 \<Rightarrow>
    mptcp_request_sock \<Rightarrow> u8 list \<Rightarrow> parsed \<Rightarrow> (mptcp_request_sock option \<times> u32) option" where
  "mptcp_v4_join_init_req md5 sha sysctl_checksum get_local_id os sa da sport dport loc_addr seed mtreq options r =
     (case mptcp_v4_get_nonce md5 sa da sport dport seed of (nonce, seed') \<Rightarrow>
        case get_local_id loc_addr of
          None \<Rightarrow> Some (None, seed')
        | Some (ident, low) \<Rightarrow>
            map_option (\<lambda>r. (Some r, seed')) (mptcp_join_reqsk_init sha sysctl_checksum os
              (mtreq\<lparr>rs_loc_nonce := nonce, rs_loc_id := ident, rs_low_prio := low\<rparr>) options r))"

text \<open>The rest of the request socket, and the buffer sizes of the connection.\<close>

record child_req =
  rk_snt_isn :: u32
  rk_rcv_isn :: u32
  rk_rcv_wnd :: int
  orig_sk_sndbuf :: int
  orig_sk_rcvbuf :: int

definition refuse :: "life_kernel \<Rightarrow> sk_ptr \<Rightarrow> life_state \<Rightarrow> bool \<times> life_state" where
  "refuse k child s = (False, lk_tcp_done k child s)"

definition mptcp_check_req_child ::
  "sha \<Rightarrow> life_kernel \<Rightarrow> bool \<Rightarrow> opt_sock \<Rightarrow> options_received \<Rightarrow> mptcp_request_sock \<Rightarrow> child_req \<Rightarrow> sk_ptr \<Rightarrow> sk_ptr \<Rightarrow> life_state \<Rightarrow>
    (bool \<times> life_state) option" where
  "mptcp_check_req_child sha k sched_init os mopt mtreq rk meta child s =
     (if \<not> join_ack mopt then Some (refuse k child s)
      else case nonce_mac sha (mptcp_rem_key os) (mptcp_loc_key os) (rs_rem_nonce mtreq) (rs_loc_nonce mtreq) of
             None \<Rightarrow> None
           | Some h \<Rightarrow>
               if mem_words h \<noteq> mptcp_recv_mac mopt then Some (refuse k child s)
               else case mptcp_add_sock k sched_init meta child (rs_loc_id mtreq) (rs_rem_id mtreq) s of
                      (Some _, s1) \<Rightarrow> Some (refuse k child (set_info child (\<lambda>i. i\<lparr>mpc := False\<rparr>) s1))
                    | (None, s1) \<Rightarrow>
                        Some (True,
                          set_info child (\<lambda>i. i\<lparr>sk_sndbuf := orig_sk_sndbuf rk, sk_rcvbuf := orig_sk_rcvbuf rk,
                              sub_rcv_isn := rk_rcv_isn rk, init_rcv_wnd := rk_rcv_wnd rk\<rparr>)
                            (set_tp child (\<lambda>tp. tp\<lparr>rcv_low_prio := rs_rcv_low_prio mtreq, slave_sk := True, snt_isn := rk_snt_isn rk\<rparr>) s1)))"

section \<open>The side that joins\<close>

text \<open>The SYN/ACK on a subflow that joins; \<open>seq\<close> is its sequence number.\<close>

definition mptcp_rcv_synsent_join ::
  "sha \<Rightarrow> life_kernel \<Rightarrow> options_received \<Rightarrow> u32 \<Rightarrow> sk_ptr \<Rightarrow> opt_sock \<Rightarrow> life_state \<Rightarrow> (nat \<times> opt_sock \<times> life_state) option" where
  "mptcp_rcv_synsent_join sha k mopt seq sk os s =
     (case nonce_mac sha (mptcp_rem_key os) (mptcp_loc_key os) (mptcp_recv_nonce mopt) (os_loc_nonce os) of
        None \<Rightarrow> None
      | Some h \<Rightarrow>
          if take 8 (mem_words h) \<noteq> mem64 (mptcp_recv_tmac mopt) then Some (1, os, mptcp_sub_force_close k sk s)
          else map_option (\<lambda>m. (0, os\<lparr>os_sender_mac := mem_words m\<rparr>,
                 set_info sk (\<lambda>i. i\<lparr>sub_rcv_isn := seq\<rparr>)
                   (set_tp sk (\<lambda>tp. tp\<lparr>pre_established := True, rcv_low_prio := rcv_prio mopt\<rparr>) s)))
               (nonce_mac sha (mptcp_loc_key os) (mptcp_rem_key os) (os_loc_nonce os) (mptcp_recv_nonce mopt)))"

section \<open>The message codes of the two sides\<close>

lemma nonce_mac_Some: "\<exists>h. nonce_mac sha k1 k2 n1 n2 = Some h"
  by (simp add: nonce_mac_def mptcp_hmac_sha1_def Let_def)

lemma length_mac:
  assumes "sha_ok sha" and "nonce_mac sha k1 k2 n1 n2 = Some h"
  shows "length (mem_words h) = 20"
  using assms
  by (auto simp: nonce_mac_def mptcp_hmac_sha1_def Let_def mem_words_def length_concat sum_list_triv comp_def sha_ok_def split: if_splits)

lemma mem64_get_mem64: "8 \<le> length bs \<Longrightarrow> mem64 (get_mem64 bs) = take 8 bs"
proof -
  assume l: "8 \<le> length bs"
  let ?a = "take 4 bs" and ?b = "take 4 (drop 4 bs)"
  have g: "get_mem32 bs = get_mem32 ?a" "get_mem32 (drop 4 bs) = get_mem32 ?b"
    using l by (simp_all add: get_mem32_def)
  have "ucast (get_mem64 bs) = get_mem32 bs" "ucast (drop_bit 32 (get_mem64 bs)) = get_mem32 (drop 4 bs)"
    by (simp_all add: get_mem64_def seq64_low seq64_high)
  then have "mem64 (get_mem64 bs) = mem32 (get_mem32 ?a) @ mem32 (get_mem32 ?b)" by (simp add: mem64_def g)
  also have "\<dots> = ?a @ ?b" using l by (simp add: mem32_get_mem32)
  also have "\<dots> = take 8 bs" using take_add [of 4 4 bs] by simp
  finally show ?thesis .
qed

lemma parse_join_ack_written:
  assumes "length mac = 20" and "bs = [TCPOPT_MPTCP, MPTCP_SUB_LEN_JOIN_ACK, sub_byte MPTCP_SUB_JOIN 0, 0] @ mac"
  shows "tcp_parse_mptcp_options cs bs (mopt, x) = (mopt\<lparr>saw_mpc := True, join_ack := True, mptcp_recv_mac := mac\<rparr>, x)"
proof -
  have len: "length bs = 24" by (simp add: assms)
  have n: "bs ! 2 = sub_byte MPTCP_SUB_JOIN 0" "drop 4 bs = mac" by (simp_all add: assms(2) numeral_2_eq_2)
  have "tcp_parse_mptcp_options cs bs (mopt, x) = mptcp_parse_options cs None bs (length bs) (mopt, x)"
    by (rule parse_single [of bs MPTCP_SUB_LEN_JOIN_ACK "tl (tl bs)"]) (simp_all add: assms MPTCP_SUB_LEN_JOIN_ACK_def)
  also have "\<dots> = (mopt\<lparr>saw_mpc := True, join_ack := True, mptcp_recv_mac := mac\<rparr>, x)"
    using sub_byte_parts [of "0" MPTCP_SUB_JOIN] assms(1)
    by (simp add: mptcp_parse_options_def parse_join_def len n MPTCP_SUB_LEN_JOIN_SYN_def MPTCP_SUB_LEN_JOIN_SYNACK_def
        MPTCP_SUB_LEN_JOIN_ACK_def MPTCP_SUB_CAPABLE_def MPTCP_SUB_JOIN_def [symmetric]) (simp add: MPTCP_SUB_JOIN_def)
  finally show ?thesis .
qed

lemma write_join_ack_only:
  assumes "mptcp_options opts = {MP_JOIN, TYPE_ACK}"
  shows "fst (mptcp_options_write mpcb meta_tp os tp opts b) =
    [TCPOPT_MPTCP, MPTCP_SUB_LEN_JOIN_ACK, sub_byte MPTCP_SUB_JOIN 0, 0] @ take 20 (os_sender_mac os)"
  by (simp add: mptcp_options_write_def write_defs only_opts [OF assms(1)] Let_def)


section \<open>The three packets\<close>

definition syn_bytes :: "mptcp_cb \<Rightarrow> tcp_sock \<Rightarrow> bool \<Rightarrow> opt_sock \<Rightarrow> tcp_sock \<Rightarrow> sk_buff \<Rightarrow> out_options \<Rightarrow> u32 \<Rightarrow> u8 list" where
  "syn_bytes mpcb meta_tp csum os tp b opts room =
     fst (mptcp_options_write mpcb meta_tp os tp (fst (mptcp_syn_options csum os tp opts room)) b)"

definition synack_bytes ::
  "mptcp_cb \<Rightarrow> tcp_sock \<Rightarrow> bool \<Rightarrow> opt_sock \<Rightarrow> tcp_sock \<Rightarrow> mptcp_request_sock \<Rightarrow> sk_buff \<Rightarrow> out_options \<Rightarrow> u32 \<Rightarrow> u8 list" where
  "synack_bytes mpcb meta_tp csum os tp mtreq b opts room =
     fst (mptcp_options_write mpcb meta_tp os tp (fst (mptcp_synack_options csum mtreq opts room)) b)"

definition ack_bytes :: "mptcp_cb \<Rightarrow> tcp_sock \<Rightarrow> opt_sock \<Rightarrow> tcp_sock \<Rightarrow> sk_buff \<Rightarrow> out_options \<Rightarrow> u32 \<Rightarrow> u8 list" where
  "ack_bytes mpcb meta_tp os tp b opts room =
     fst (mptcp_options_write mpcb meta_tp os tp
       (fst (snd (mptcp_established_options None False mpcb tp (Some b) (os, opts, room)))) b)"

lemma parse_syn:
  assumes "mptcp_options opts = {}" and "\<not> is_master_tp tp"
  shows "tcp_parse_mptcp_options cs (syn_bytes mpcb meta_tp csum os tp b opts room) (mopt, x) =
    (mopt\<lparr>is_mp_join := True, saw_mpc := True, rcv_prio := low_prio tp, rem_id := os_loc_id os,
       rcv_rem_token := mptcp_rem_token os, mptcp_recv_nonce := os_loc_nonce os\<rparr>, x)"
  using assms
  by (simp add: syn_bytes_def mptcp_syn_options_def write_join_syn_only add_opts_def parse_join_syn_written del: append_Cons append_Nil)

lemma parse_synack:
  assumes "mptcp_options opts = {}" and "is_sub mtreq"
  shows "tcp_parse_mptcp_options cs (synack_bytes mpcb meta_tp csum os tp mtreq b opts room) (mopt, x) =
    (mopt\<lparr>saw_mpc := True, rcv_prio := rs_low_prio mtreq, rem_id := rs_loc_id mtreq,
       mptcp_recv_tmac := rs_hash_tmac mtreq, mptcp_recv_nonce := rs_loc_nonce mtreq\<rparr>, x)"
  using assms
  by (simp add: synack_bytes_def mptcp_synack_options_def write_join_synack_only add_opts_def parse_join_synack_written
      del: append_Cons append_Nil)

text \<open>The third packet has the authentication only.\<close>

definition quiet :: "opt_sock \<Rightarrow> bool" where
  "quiet os \<longleftrightarrow> \<not> os_mp_fail os \<and> \<not> send_mp_fclose os \<and> \<not> include_mpc os \<and> \<not> send_mp_prio os"

lemma third_ack_options:
  assumes "mptcp_options opts = {}" and "quiet os" and "\<not> infinite_mapping_snd mpcb" and "pre_established tp"
  shows "mptcp_options (fst (snd (mptcp_established_options None False mpcb tp (Some b) (os, opts, room)))) = {MP_JOIN, TYPE_ACK}"
  using assms
  by (simp add: established_cases quiet_def before_prio_def est_fail_def est_capable_def est_join_def est_dss_def est_prio_def
      skips_options_def add_opts_def)

lemma parse_ack:
  assumes "mptcp_options opts = {}" and "quiet os" and "\<not> infinite_mapping_snd mpcb" and "pre_established tp"
    and "length (os_sender_mac os) = 20"
  shows "tcp_parse_mptcp_options cs (ack_bytes mpcb meta_tp os tp b opts room) (mopt, x) =
    (mopt\<lparr>saw_mpc := True, join_ack := True, mptcp_recv_mac := os_sender_mac os\<rparr>, x)"
  using parse_join_ack_written [OF assms(5) refl, of cs mopt x]
    write_join_ack_only [OF third_ack_options [OF assms(1-4), of b room], of mpcb meta_tp os tp b] assms(5)
  by (simp add: ack_bytes_def)

section \<open>The handshake\<close>

lemma inherit_rem_id:
  "sub_rem_id (l_sub (mptcp_sub_inherit_sockopts meta sk s) x) = sub_rem_id (l_sub s x)"
  "sub_rem_id (l_sub (mptcp_assign_congestion_control k meta sk s) x) = sub_rem_id (l_sub s x)"
  by (simp_all add: mptcp_sub_inherit_sockopts_def mptcp_assign_congestion_control_def Let_def life_sel)

lemma add_sock_conns:
  assumes "mptcp_add_sock k si meta sk loc rem s = (None, s1)"
  shows "l_conns s1 = sk # l_conns s \<and> sub_rem_id (l_sub s1 sk) = rem"
proof -
  obtain i m where n: "mptcp_set_new_pathindex (l_mpcb s) = (i, m)" by fastforce
  have c: "connection_list m = connection_list (l_mpcb s)"
    using n by (cases "l_mpcb s" rule: set_new_pathindex_cases) (auto simp: take_index_def)
  have s1: "s1 = snd (mptcp_add_sock k si meta sk loc rem s)" and e: "fst (mptcp_add_sock k si meta sk loc rem s) = None"
    using assms by simp_all
  have k: "lk_alloc k" using e by (cases "lk_alloc k") (simp_all add: mptcp_add_sock_def)
  have "i = 0 \<Longrightarrow> fst (mptcp_add_sock k si meta sk loc rem s) = Some EPERM"
    using n k by (simp add: mptcp_add_sock_def Let_def life_sel)
  then have "i \<noteq> 0" using e by auto
  then show ?thesis
    using n c k by (simp add: s1 mptcp_add_sock_def Let_def life_sel inherit_rem_id) (simp add: l_conns_def)
qed

lemma reqsk_from_syn:
  assumes "mptcp_options opts = {}" and "\<not> is_master_tp tp"
    and "mptcp_join_reqsk_init sha cs server mtreq (syn_bytes mpcb meta_tp csum client tp b opts room) r = Some req"
    and h: "nonce_mac sha (mptcp_loc_key server) (mptcp_rem_key server) (rs_loc_nonce mtreq) (os_loc_nonce client) = Some h"
  shows "is_sub req" "rs_hash_tmac req = get_mem64 (mem_words h)" "rs_loc_nonce req = rs_loc_nonce mtreq"
    "rs_rem_nonce req = os_loc_nonce client" "rs_loc_id req = rs_loc_id mtreq"
  using assms(3) h by (auto simp: mptcp_join_reqsk_init_def parse_syn [OF assms(1,2)] Let_def)

lemma synsent_accepts:
  assumes "nonce_mac sha (mptcp_rem_key client) (mptcp_loc_key client) (mptcp_recv_nonce mopt) (os_loc_nonce client) = Some h"
    and "mptcp_recv_tmac mopt = get_mem64 (mem_words h)" and "length (mem_words h) = 20"
    and "nonce_mac sha (mptcp_loc_key client) (mptcp_rem_key client) (os_loc_nonce client) (mptcp_recv_nonce mopt) = Some m"
  shows "\<exists>s'. mptcp_rcv_synsent_join sha k mopt seq sk client s = Some (0, client\<lparr>os_sender_mac := mem_words m\<rparr>, s') \<and>
    pre_established (l_tp s' sk)"
  using assms mem64_get_mem64 [of "mem_words h"] by (simp add: mptcp_rcv_synsent_join_def life_sel)

text \<open>C15. Two honest ends accept each other.  The side that joins sends the options of a SYN, the side that is joined
  answers with the options of a SYN/ACK, and the third packet is the acknowledgement: over the bytes of
  these packets the side that joins accepts the truncated code of the other one, and with the code of the
  third packet its new subflow is added to the connection, when there is a path index for it.\<close>

theorem mptcp_join_handshake:
  assumes "sha_ok sha"
    and "mptcp_loc_key client = mptcp_rem_key server" and "mptcp_rem_key client = mptcp_loc_key server"
    and "mptcp_options opts = {}" and "quiet client" and "\<not> is_master_tp tp"
    and "mptcp_join_reqsk_init sha cs server mtreq (syn_bytes mpcb meta_tp csum client tp b opts room) ra = Some req"
    and "mopt2 = fst (tcp_parse_mptcp_options cs' (synack_bytes mpcb' meta_tp' csum' server tp' req b' opts room') rb)"
    and "\<not> infinite_mapping_snd mpcb"
    and "fst (mptcp_add_sock k' si meta child (rs_loc_id req) (rs_rem_id req) s2) = None"
  shows "\<exists>client' s'. mptcp_rcv_synsent_join sha k mopt2 seq sk client s = Some (0, client', s') \<and>
    (\<exists>s3. mptcp_check_req_child sha k' si server
       (fst (tcp_parse_mptcp_options cs (ack_bytes mpcb meta_tp client' (l_tp s' sk) b opts room'') rc)) req rk meta child s2 =
       Some (True, s3))"
proof -
  obtain h where h: "nonce_mac sha (mptcp_loc_key server) (mptcp_rem_key server) (rs_loc_nonce mtreq) (os_loc_nonce client) = Some h"
    using nonce_mac_Some by blast
  obtain m where m: "nonce_mac sha (mptcp_loc_key client) (mptcp_rem_key client) (os_loc_nonce client) (rs_loc_nonce mtreq) = Some m"
    using nonce_mac_Some by blast
  note req = reqsk_from_syn [OF assms(4,6,7) h]
  have p2: "mptcp_recv_tmac mopt2 = get_mem64 (mem_words h)" "mptcp_recv_nonce mopt2 = rs_loc_nonce mtreq"
    using parse_synack [OF assms(4) req(1), of cs' mpcb' meta_tp' csum' server tp' b' room' "fst rb" "snd rb"]
    by (simp_all add: assms(8) req)
  obtain s' where s': "mptcp_rcv_synsent_join sha k mopt2 seq sk client s = Some (0, client\<lparr>os_sender_mac := mem_words m\<rparr>, s')"
      "pre_established (l_tp s' sk)"
    using synsent_accepts [of sha client mopt2 h m k seq sk s] h m p2 length_mac [OF assms(1) h] assms(2,3) by auto
  let ?c = "client\<lparr>os_sender_mac := mem_words m\<rparr>"
  have l: "length (os_sender_mac ?c) = 20" using length_mac [OF assms(1) m] by simp
  have q: "quiet ?c" using assms(5) by (simp add: quiet_def)
  obtain s1 where add: "mptcp_add_sock k' si meta child (rs_loc_id req) (rs_rem_id req) s2 = (None, s1)"
    using assms(10) by (cases "mptcp_add_sock k' si meta child (rs_loc_id req) (rs_rem_id req) s2") auto
  have mac: "nonce_mac sha (mptcp_rem_key server) (mptcp_loc_key server) (rs_rem_nonce req) (rs_loc_nonce req) = Some m"
    using m req(3,4) assms(2,3) by simp
  have "\<exists>s3. mptcp_check_req_child sha k' si server
       (fst (tcp_parse_mptcp_options cs (ack_bytes mpcb meta_tp ?c (l_tp s' sk) b opts room'') (fst rc, snd rc))) req rk meta child s2 =
       Some (True, s3)"
    unfolding parse_ack [OF assms(4) q assms(9) s'(2) l] by (simp add: mptcp_check_req_child_def mac add)
  then show ?thesis using s'(1) by auto
qed

text \<open>C16. A subflow joins the connection exactly when its acknowledgement has the message code of RFC 2104 over the
  keys of both sides and the two nonces, and the connection has memory and a path index for it; then it is
  the first subflow of the connection, with the identifiers of the request, and otherwise it is ended.\<close>

theorem mptcp_check_req_child_authenticates:
  assumes "sha_ok sha" and "mptcp_check_req_child sha k si os mopt mtreq rk meta child s = Some (ok, s')"
  shows "(ok \<longleftrightarrow> join_ack mopt \<and>
       mptcp_recv_mac mopt = hmac_sha1 sha (mem64 (mptcp_rem_key os) @ mem64 (mptcp_loc_key os))
         (mem32 (rs_rem_nonce mtreq) @ mem32 (rs_loc_nonce mtreq)) \<and>
       fst (mptcp_add_sock k si meta child (rs_loc_id mtreq) (rs_rem_id mtreq) s) = None) \<and>
     (if ok then l_conns s' = child # l_conns s \<and> sub_rem_id (l_sub s' child) = rs_rem_id mtreq \<and> slave_sk (l_tp s' child)
      else \<exists>s1. s' = lk_tcp_done k child s1)"
proof -
  obtain h where h: "nonce_mac sha (mptcp_rem_key os) (mptcp_loc_key os) (rs_rem_nonce mtreq) (rs_loc_nonce mtreq) = Some h"
    using nonce_mac_Some by blast
  have r: "mem_words h = hmac_sha1 sha (mem64 (mptcp_rem_key os) @ mem64 (mptcp_loc_key os))
         (mem32 (rs_rem_nonce mtreq) @ mem32 (rs_loc_nonce mtreq))"
    using hmac_code [OF assms(1), of "mem64 (mptcp_rem_key os)" "mem64 (mptcp_loc_key os)"
        "[mem32 (rs_rem_nonce mtreq), mem32 (rs_loc_nonce mtreq)]"] h by (simp add: nonce_mac_def)
  obtain e s1 where add: "mptcp_add_sock k si meta child (rs_loc_id mtreq) (rs_rem_id mtreq) s = (e, s1)" by fastforce
  have added: "e = None \<Longrightarrow> l_conns s1 = child # l_conns s \<and> sub_rem_id (l_sub s1 child) = rs_rem_id mtreq"
    using add_sock_conns [of k si meta child "rs_loc_id mtreq" "rs_rem_id mtreq" s s1] add by simp
  show ?thesis using assms(2) added
    by (cases e) (auto simp: mptcp_check_req_child_def h add r [symmetric] refuse_def life_sel split: if_splits)
qed

section \<open>Closed instances\<close>

definition sample_req :: mptcp_request_sock where
  "sample_req = \<lparr>is_sub = False, rs_ver = 1, rs_loc_key = 5, rs_dss_csum = False, rs_hash_tmac = 0, rs_loc_nonce = 21,
     rs_low_prio = False, rs_loc_id = 1, rs_rem_nonce = 0, rs_rem_id = 0, rs_rcv_low_prio = False\<rparr>"

definition sample_rk :: child_req where
  "sample_rk = \<lparr>rk_snt_isn = 0, rk_rcv_isn = 0, rk_rcv_wnd = 0, orig_sk_sndbuf = 0, orig_sk_rcvbuf = 0\<rparr>"

definition sample_peer :: opt_sock where
  "sample_peer = sample_os\<lparr>mptcp_loc_key := 78, mptcp_rem_key := 77\<rparr>"

lemma sample_add: "fst (mptcp_add_sock sample_life_kernel True 0 1 loc rem sample_life) = None"
proof -
  have "mptcp_set_new_pathindex (l_mpcb sample_life) = take_index 1 (l_mpcb sample_life)"
    by (simp add: mptcp_set_new_pathindex_def sample_life_def l_mpcb_def sample_mpcb_def free_index_def upt_rec)
  then show ?thesis by (simp add: mptcp_add_sock_def sample_life_kernel_def life_sel Let_def take_index_def)
qed

theorem mptcp_join_handshake_witness:
  "\<exists>req client' s'. mptcp_rcv_synsent_join sample_sha sample_life_kernel
      (fst (tcp_parse_mptcp_options False (synack_bytes sample_mpcb sample_sock False sample_peer sample_sock req sample_skb sample_opts 40)
        (sample_rcvd, rx_seg 0 0))) 0 1 sample_os sample_life = Some (0, client', s')"
proof -
  let ?tp = "sample_sock\<lparr>slave_sk := True\<rparr>"
  have a: "mptcp_loc_key sample_os = mptcp_rem_key sample_peer" "mptcp_rem_key sample_os = mptcp_loc_key sample_peer"
    "mptcp_options sample_opts = {}" "quiet sample_os" "\<not> is_master_tp ?tp" "\<not> infinite_mapping_snd sample_mpcb"
    by (simp_all add: sample_os_def sample_peer_def sample_opts_def quiet_def is_master_tp_def sample_mpcb_def)
  obtain req where req: "mptcp_join_reqsk_init sample_sha False sample_peer sample_req
      (syn_bytes sample_mpcb sample_sock False sample_os ?tp sample_skb sample_opts 40) (sample_rcvd, rx_seg 0 0) = Some req"
    by (metis (no_types, lifting) mptcp_join_reqsk_init_def nonce_mac_Some option.simps(9))
  show ?thesis
    using mptcp_join_handshake [OF sample_sha_ok a(1-5) req refl a(6) sample_add, where cs' = False and mpcb' = sample_mpcb and
        meta_tp' = sample_sock and csum' = False and tp' = sample_sock and b' = sample_skb and room' = 40 and
        rb = "(sample_rcvd, rx_seg 0 0)" and k = sample_life_kernel and seq = 0 and sk = 1 and s = sample_life] by blast
qed

theorem mptcp_check_req_child_authenticates_witness:
  "\<exists>s'. mptcp_check_req_child sample_sha sample_life_kernel True sample_os sample_rcvd sample_req sample_rk 0 1 sample_life = Some (False, s')"
proof -
  have e: "mptcp_check_req_child sample_sha sample_life_kernel True sample_os sample_rcvd sample_req sample_rk 0 1 sample_life =
      Some (False, lk_tcp_done sample_life_kernel 1 sample_life)"
    by (simp add: mptcp_check_req_child_def refuse_def sample_rcvd_def)
  show ?thesis using mptcp_check_req_child_authenticates [OF sample_sha_ok e] e by blast
qed

end
