(* ===== verification/Tokens.thy ===== *)
theory Tokens
  imports Join
begin

text \<open>
  Tokens (\<open>net/mptcp/mptcp_ctrl.c\<close>, with the hashing of requests in \<open>mptcp_ipv4.c\<close> and \<open>mptcp_ipv6.c\<close>): how a
  connection or a request gets a key with a free token, the hash tables by which a join finds its
  connection, and the data sequence numbers that follow from the keys.

  The tables are functions from the index to the list of the bucket, in its order.  A node that is linked
  out is removed from the bucket it is in.  \<open>md5\<close>, the compression function of SHA-1 and
  \<open>inet_synq_hash\<close> are functions of the kernel.  The operations run as a whole, under
  \<open>mptcp_tk_hashlock\<close> in the code, so the restarts of the walks for concurrent removals do not occur.
\<close>

section \<open>Data\<close>

text \<open>Source and destination address of a packet or a socket, with its family.\<close>

datatype flow = Flow4 u32 u32 | Flow6 "u32 list" "u32 list"

datatype ip_addr = IP4 u32 | IP6 "u32 list"

record token_req = mptcp_request_sock +
  rq_loc_token :: u32
  rq_rem_key :: u64
  rq_saw_mpc :: bool
  mptcp_rqsk :: bool
  ir_num :: u16
  ir_rmt_port :: u16
  ir_loc_addr :: ip_addr
  ir_rmt_addr :: ip_addr
  rq_snt_isn :: u32
  rq_meta :: sk_ptr

record token_sock =
  tk_loc_key :: u64
  mptcp_loc_token :: u32
  inside_tk_table :: bool
  tk_ver :: u8
  sock_net :: nat
  sk_refcnt :: nat
  sk_flow :: flow
  inet_sport :: u16
  inet_dport :: u16

record token_state =
  tk_hashtable :: "u32 \<Rightarrow> sk_ptr list"
  mptcp_reqsk_tk_htb :: "u32 \<Rightarrow> nat list"
  mptcp_reqsk_htb :: "u32 \<Rightarrow> nat list"
  tk_sock :: "sk_ptr \<Rightarrow> token_sock"
  tk_req :: "nat \<Rightarrow> token_req"
  mptcp_seed :: u32

record token_env =
  md5_transform :: "u32 list \<Rightarrow> u32 list \<Rightarrow> u32 list"
  mptcp_secret :: "u32 list"
  te_sha :: sha
  inet_synq_hash :: "ip_addr \<Rightarrow> u16 \<Rightarrow> u32"
  te_checksum :: bool

definition set_sock :: "sk_ptr \<Rightarrow> (token_sock \<Rightarrow> token_sock) \<Rightarrow> token_state \<Rightarrow> token_state" where
  "set_sock sk f s = s\<lparr>tk_sock := (tk_sock s)(sk := f (tk_sock s sk))\<rparr>"

definition set_req :: "nat \<Rightarrow> (token_req \<Rightarrow> token_req) \<Rightarrow> token_state \<Rightarrow> token_state" where
  "set_req r f s = s\<lparr>tk_req := (tk_req s)(r := f (tk_req s r))\<rparr>"

definition link_head :: "u32 \<Rightarrow> nat \<Rightarrow> (u32 \<Rightarrow> nat list) \<Rightarrow> u32 \<Rightarrow> nat list" where
  "link_head h x t = t(h := x # t h)"

definition unlink :: "nat \<Rightarrow> (u32 \<Rightarrow> nat list) \<Rightarrow> u32 \<Rightarrow> nat list" where
  "unlink x t = (\<lambda>h. removeAll x (t h))"

section \<open>The tables\<close>

definition MPTCP_HASH_SIZE :: u32 where "MPTCP_HASH_SIZE = 1024"

definition mptcp_hash_tk :: "u32 \<Rightarrow> u32" where
  "mptcp_hash_tk token = token mod MPTCP_HASH_SIZE"

definition mptcp_reqsk_find_tk :: "u32 \<Rightarrow> token_state \<Rightarrow> bool" where
  "mptcp_reqsk_find_tk token s =
     list_ex (\<lambda>r. token = rq_loc_token (tk_req s r)) (mptcp_reqsk_tk_htb s (mptcp_hash_tk token))"

definition mptcp_reqsk_insert_tk :: "nat \<Rightarrow> u32 \<Rightarrow> token_state \<Rightarrow> token_state" where
  "mptcp_reqsk_insert_tk r token s =
     s\<lparr>mptcp_reqsk_tk_htb := link_head (mptcp_hash_tk token) r (mptcp_reqsk_tk_htb s)\<rparr>"

text \<open>A request has one node for both of its tables.\<close>

definition unlink_req :: "nat \<Rightarrow> token_state \<Rightarrow> token_state" where
  "unlink_req r s = s\<lparr>mptcp_reqsk_tk_htb := unlink r (mptcp_reqsk_tk_htb s), mptcp_reqsk_htb := unlink r (mptcp_reqsk_htb s)\<rparr>"

definition mptcp_reqsk_remove_tk :: "nat \<Rightarrow> token_state \<Rightarrow> token_state" where
  "mptcp_reqsk_remove_tk r s = unlink_req r s"

definition mptcp_hash_request_remove :: "nat \<Rightarrow> token_state \<Rightarrow> token_state" where
  "mptcp_hash_request_remove r s = unlink_req r s"

definition mptcp_reqsk_destructor :: "nat \<Rightarrow> token_state \<Rightarrow> token_state" where
  "mptcp_reqsk_destructor r s =
     (if \<not> is_sub (tk_req s r) then mptcp_reqsk_remove_tk r s else mptcp_hash_request_remove r s)"

definition mptcp_hash_insert :: "sk_ptr \<Rightarrow> u32 \<Rightarrow> token_state \<Rightarrow> token_state" where
  "mptcp_hash_insert sk token s =
     set_sock sk (\<lambda>k. k\<lparr>inside_tk_table := True\<rparr>)
       (s\<lparr>tk_hashtable := link_head (mptcp_hash_tk token) sk (tk_hashtable s)\<rparr>)"

definition mptcp_find_token :: "u32 \<Rightarrow> token_state \<Rightarrow> bool" where
  "mptcp_find_token token s =
     list_ex (\<lambda>k. token = mptcp_loc_token (tk_sock s k)) (tk_hashtable s (mptcp_hash_tk token))"

text \<open>The walk ends without a result at a matching socket that is being freed.\<close>

fun find_walk :: "(sk_ptr \<Rightarrow> token_sock) \<Rightarrow> nat \<Rightarrow> u32 \<Rightarrow> sk_ptr list \<Rightarrow> sk_ptr option" where
  "find_walk t n token [] = None"
| "find_walk t n token (k # ks) =
     (if token = mptcp_loc_token (t k) \<and> n = sock_net (t k)
      then if sk_refcnt (t k) = 0 then None else Some k
      else find_walk t n token ks)"

definition hold :: "sk_ptr \<Rightarrow> token_state \<Rightarrow> token_state" where
  "hold sk s = set_sock sk (\<lambda>k. k\<lparr>sk_refcnt := sk_refcnt k + 1\<rparr>) s"

definition mptcp_hash_find :: "nat \<Rightarrow> u32 \<Rightarrow> token_state \<Rightarrow> sk_ptr option \<times> token_state" where
  "mptcp_hash_find n token s =
     (case find_walk (tk_sock s) n token (tk_hashtable s (mptcp_hash_tk token)) of
        None \<Rightarrow> (None, s)
      | Some k \<Rightarrow> (Some k, hold k s))"

definition mptcp_hash_remove :: "sk_ptr \<Rightarrow> token_state \<Rightarrow> token_state" where
  "mptcp_hash_remove sk s =
     set_sock sk (\<lambda>k. k\<lparr>inside_tk_table := False\<rparr>) (s\<lparr>tk_hashtable := unlink sk (tk_hashtable s)\<rparr>)"

section \<open>Keys\<close>

definition htons :: "u16 \<Rightarrow> u16" where
  "htons x = push_bit 8 x OR drop_bit 8 x"

definition mptcp_v6_get_key ::
  "(u32 list \<Rightarrow> u32 list \<Rightarrow> u32 list) \<Rightarrow> u32 list \<Rightarrow> u32 list \<Rightarrow> u32 list \<Rightarrow> u16 \<Rightarrow> u16 \<Rightarrow> u32 \<Rightarrow> u64" where
  "mptcp_v6_get_key md5 sec sa da sport dport seed =
     get_mem64 (mem_words (md5 (take 4 sa)
       (map (\<lambda>i. sec ! i + da ! i) [0..<4] @ [sec ! 4 + (push_bit 16 (ucast sport) + ucast dport), seed] @ drop 6 sec)))"

fun flow_key :: "token_env \<Rightarrow> flow \<Rightarrow> u16 \<Rightarrow> u16 \<Rightarrow> u32 \<Rightarrow> u64" where
  "flow_key e (Flow4 sa da) sport dport seed =
     mptcp_v4_get_key (\<lambda>h. md5_transform e h (mptcp_secret e)) sa da sport dport seed"
| "flow_key e (Flow6 sa da) sport dport seed =
     mptcp_v6_get_key (md5_transform e) (mptcp_secret e) sa da sport dport seed"

definition mptcp_set_key_reqsk :: "token_env \<Rightarrow> flow \<Rightarrow> u32 \<Rightarrow> token_req \<Rightarrow> token_req" where
  "mptcp_set_key_reqsk e skb seed r =
     (let key = flow_key e skb (htons (ir_num r)) (ir_rmt_port r) seed
      in r\<lparr>rs_loc_key := key, rq_loc_token := fst (mptcp_key_sha1 (te_sha e) key)\<rparr>)"

definition mptcp_set_key_sk :: "token_env \<Rightarrow> sk_ptr \<Rightarrow> token_state \<Rightarrow> token_state" where
  "mptcp_set_key_sk e sk s =
     (let k = tk_sock s sk;
          key = flow_key e (sk_flow k) (inet_sport k) (inet_dport k) (mptcp_seed s)
      in set_sock sk (\<lambda>k. k\<lparr>tk_loc_key := key, mptcp_loc_token := fst (mptcp_key_sha1 (te_sha e) key)\<rparr>)
           (s\<lparr>mptcp_seed := mptcp_seed s + 1\<rparr>))"

definition token_busy :: "u32 \<Rightarrow> token_state \<Rightarrow> bool" where
  "token_busy token s \<longleftrightarrow> mptcp_reqsk_find_tk token s \<or> mptcp_find_token token s"

text \<open>The loop that takes keys until the token of one is free; without a result it does not return.\<close>

partial_function (option) until_free ::
  "(token_state \<Rightarrow> token_state) \<Rightarrow> (token_state \<Rightarrow> u32) \<Rightarrow> token_state \<Rightarrow> token_state option" where
  "until_free set_key tok s =
     (let s1 = set_key s in if token_busy (tok s1) s1 then until_free set_key tok s1 else Some s1)"

definition next_req_key :: "token_env \<Rightarrow> flow \<Rightarrow> nat \<Rightarrow> token_state \<Rightarrow> token_state" where
  "next_req_key e skb r s =
     (set_req r (mptcp_set_key_reqsk e skb (mptcp_seed s)) s)\<lparr>mptcp_seed := mptcp_seed s + 1\<rparr>"

definition mptcp_reqsk_new_mptcp ::
  "token_env \<Rightarrow> nat \<Rightarrow> sk_ptr \<Rightarrow> options_received \<Rightarrow> flow \<Rightarrow> token_state \<Rightarrow> token_state option" where
  "mptcp_reqsk_new_mptcp e r sk mopt skb s =
     (let s1 = set_req r (\<lambda>q. q\<lparr>rq_saw_mpc := True,
                 rs_ver := (if rcv_mptcp_ver mopt \<ge> tk_ver (tk_sock s sk) then tk_ver (tk_sock s sk) else rcv_mptcp_ver mopt)\<rparr>) s
      in map_option (\<lambda>s2. set_req r (\<lambda>q. q\<lparr>rq_rem_key := mptcp_sender_key mopt\<rparr>)
             (mptcp_reqsk_insert_tk r (rq_loc_token (tk_req s2 r)) s2))
           (until_free (next_req_key e skb r) (\<lambda>s. rq_loc_token (tk_req s r)) s1))"

definition mptcp_reqsk_new_cookie ::
  "token_env \<Rightarrow> nat \<Rightarrow> options_received \<Rightarrow> flow \<Rightarrow> token_state \<Rightarrow> bool \<times> token_state" where
  "mptcp_reqsk_new_cookie e r mopt skb s =
     (let s1 = set_req r (mptcp_set_key_reqsk e skb (rq_snt_isn (tk_req s r))) s
      in if token_busy (rq_loc_token (tk_req s1 r)) s1 then (False, s1)
         else (True, set_req r (\<lambda>q. q\<lparr>rq_saw_mpc := True, rq_rem_key := mptcp_sender_key mopt\<rparr>) s1))"

definition mptcp_reqsk_init ::
  "token_env \<Rightarrow> nat \<Rightarrow> sk_ptr \<Rightarrow> flow \<Rightarrow> u8 list \<Rightarrow> parsed \<Rightarrow> bool \<Rightarrow> token_state \<Rightarrow> token_state option" where
  "mptcp_reqsk_init e r sk skb options p want_cookie s =
     (let mopt = fst (tcp_parse_mptcp_options (te_checksum e) options (mptcp_init_mp_opt (fst p), snd p));
          s1 = set_req r (\<lambda>q. q\<lparr>rs_dss_csum := rcv_dss_csum mopt\<rparr>) s
      in if want_cookie
         then case mptcp_reqsk_new_cookie e r mopt skb s1 of
                (False, s2) \<Rightarrow> Some (set_req r (\<lambda>q. q\<lparr>mptcp_rqsk := False\<rparr>) s2)
              | (True, s2) \<Rightarrow> Some s2
         else mptcp_reqsk_new_mptcp e r sk mopt skb s1)"

definition mptcp_cookies_reqsk_init :: "token_env \<Rightarrow> nat \<Rightarrow> options_received \<Rightarrow> token_state \<Rightarrow> token_state" where
  "mptcp_cookies_reqsk_init e r mopt s =
     (let s1 = set_req r (\<lambda>q. q\<lparr>rq_rem_key := mptcp_sender_key mopt, rs_loc_key := mptcp_receiver_key mopt,
                 rq_loc_token := fst (mptcp_key_sha1 (te_sha e) (mptcp_receiver_key mopt))\<rparr>) s
      in if token_busy (rq_loc_token (tk_req s1 r)) s1 then s1
         else set_req r (\<lambda>q. q\<lparr>rq_saw_mpc := True, is_sub := False, mptcp_rqsk := True, rs_dss_csum := rcv_dss_csum mopt\<rparr>) s1)"

definition mptcp_connect_init :: "token_env \<Rightarrow> sk_ptr \<Rightarrow> token_state \<Rightarrow> token_state option" where
  "mptcp_connect_init e sk s =
     map_option (\<lambda>s1. mptcp_hash_insert sk (mptcp_loc_token (tk_sock s1 sk)) s1)
       (until_free (mptcp_set_key_sk e sk) (\<lambda>s. mptcp_loc_token (tk_sock s sk)) s)"

section \<open>Requests of the address families\<close>

text \<open>A request for a new connection in the fresh memory of \<open>r\<close>, which is in no table; the kernel's part of
  it is in the state.\<close>

definition init_request :: "nat \<Rightarrow> token_state \<Rightarrow> token_state" where
  "init_request r s = set_req r (\<lambda>q. q\<lparr>is_sub := False, mptcp_rqsk := True\<rparr>) s"

definition mptcp_v4_init_req ::
  "token_env \<Rightarrow> nat \<Rightarrow> sk_ptr \<Rightarrow> flow \<Rightarrow> u8 list \<Rightarrow> parsed \<Rightarrow> bool \<Rightarrow> token_state \<Rightarrow> token_state option" where
  "mptcp_v4_init_req e r sk skb options p want_cookie s =
     (let s1 = init_request r s
      in if \<not> want_cookie then mptcp_reqsk_init e r sk skb options p False s1 else Some s1)"

definition mptcp_v6_init_req ::
  "token_env \<Rightarrow> nat \<Rightarrow> sk_ptr \<Rightarrow> flow \<Rightarrow> u8 list \<Rightarrow> parsed \<Rightarrow> bool \<Rightarrow> token_state \<Rightarrow> token_state option" where
  "mptcp_v6_init_req e r sk skb options p want_cookie s =
     (let s1 = init_request r s
      in if \<not> want_cookie then mptcp_reqsk_init e r sk skb options p False s1 else Some s1)"

definition mptcp_v4_cookie_init_seq ::
  "token_env \<Rightarrow> u32 \<Rightarrow> nat \<Rightarrow> sk_ptr \<Rightarrow> flow \<Rightarrow> u8 list \<Rightarrow> parsed \<Rightarrow> token_state \<Rightarrow> (u32 \<times> token_state) option" where
  "mptcp_v4_cookie_init_seq e isn r sk skb options p s =
     map_option (Pair isn) (mptcp_reqsk_init e r sk skb options p True (set_req r (\<lambda>q. q\<lparr>rq_snt_isn := isn\<rparr>) s))"

definition mptcp_v6_cookie_init_seq ::
  "token_env \<Rightarrow> u32 \<Rightarrow> nat \<Rightarrow> sk_ptr \<Rightarrow> flow \<Rightarrow> u8 list \<Rightarrow> parsed \<Rightarrow> token_state \<Rightarrow> (u32 \<times> token_state) option" where
  "mptcp_v6_cookie_init_seq e isn r sk skb options p s =
     map_option (Pair isn) (mptcp_reqsk_init e r sk skb options p True (set_req r (\<lambda>q. q\<lparr>rq_snt_isn := isn\<rparr>) s))"

definition mptcp_v6_get_nonce ::
  "(u32 list \<Rightarrow> u32 list \<Rightarrow> u32 list) \<Rightarrow> u32 list \<Rightarrow> u32 list \<Rightarrow> u32 list \<Rightarrow> u16 \<Rightarrow> u16 \<Rightarrow> u32 \<Rightarrow> u32 \<times> u32" where
  "mptcp_v6_get_nonce md5 sec sa da sport dport seed =
     (md5 (take 4 sa)
       (map (\<lambda>i. sec ! i + da ! i) [0..<4] @ [sec ! 4 + (push_bit 16 (ucast sport) + ucast dport), seed] @ drop 6 sec) ! 0,
      seed + 1)"

text \<open>A request of a join is found by the addresses and ports, as the last packet of its handshake has no token.\<close>

definition mptcp_v4_reqsk_queue_hash_add :: "token_env \<Rightarrow> nat \<Rightarrow> token_state \<Rightarrow> token_state" where
  "mptcp_v4_reqsk_queue_hash_add e r s =
     (let h1 = inet_synq_hash e (ir_rmt_addr (tk_req s r)) (ir_rmt_port (tk_req s r))
      in s\<lparr>mptcp_reqsk_htb := link_head h1 r (mptcp_reqsk_htb s)\<rparr>)"

definition mptcp_v6_reqsk_queue_hash_add :: "token_env \<Rightarrow> nat \<Rightarrow> token_state \<Rightarrow> token_state" where
  "mptcp_v6_reqsk_queue_hash_add e r s =
     (let h1 = inet_synq_hash e (ir_rmt_addr (tk_req s r)) (ir_rmt_port (tk_req s r))
      in s\<lparr>mptcp_reqsk_htb := link_head h1 r (mptcp_reqsk_htb s)\<rparr>)"

definition req_matches :: "token_state \<Rightarrow> u16 \<Rightarrow> ip_addr \<Rightarrow> ip_addr \<Rightarrow> nat \<Rightarrow> nat \<Rightarrow> bool" where
  "req_matches s rport raddr laddr n r \<longleftrightarrow>
     ir_rmt_port (tk_req s r) = rport \<and> ir_rmt_addr (tk_req s r) = raddr \<and> ir_loc_addr (tk_req s r) = laddr \<and>
     n = sock_net (tk_sock s (rq_meta (tk_req s r)))"

definition search_result :: "nat option \<Rightarrow> token_state \<Rightarrow> sk_ptr option \<times> token_state" where
  "search_result found s =
     (case found of
        None \<Rightarrow> (None, s)
      | Some r \<Rightarrow> let meta = rq_meta (tk_req s r)
                  in if sk_refcnt (tk_sock s meta) = 0 then (None, s) else (Some meta, hold meta s))"

definition mptcp_v4_search_req :: "token_env \<Rightarrow> u16 \<Rightarrow> u32 \<Rightarrow> u32 \<Rightarrow> nat \<Rightarrow> token_state \<Rightarrow> sk_ptr option \<times> token_state" where
  "mptcp_v4_search_req e rport raddr laddr n s =
     search_result (find (req_matches s rport (IP4 raddr) (IP4 laddr) n)
       (mptcp_reqsk_htb s (inet_synq_hash e (IP4 raddr) rport))) s"

definition mptcp_v6_search_req ::
  "token_env \<Rightarrow> u16 \<Rightarrow> u32 list \<Rightarrow> u32 list \<Rightarrow> nat \<Rightarrow> token_state \<Rightarrow> sk_ptr option \<times> token_state" where
  "mptcp_v6_search_req e rport raddr laddr n s =
     search_result (find (req_matches s rport (IP6 raddr) (IP6 laddr) n)
       (mptcp_reqsk_htb s (inet_synq_hash e (IP6 raddr) rport))) s"

section \<open>From a request to a connection\<close>

text \<open>What \<open>mptcp_create_master_sk\<close> comes to: the memory for the connection is missing, adding its first
  subflow fails after the connection is in the table, or all goes well.\<close>

datatype created = Created | No_Memory | Add_Failed

definition alloc_hash :: "sk_ptr \<Rightarrow> sk_ptr \<Rightarrow> token_state \<Rightarrow> token_state" where
  "alloc_hash meta master s =
     (let s1 = (if \<not> inside_tk_table (tk_sock s meta) then mptcp_hash_insert meta (mptcp_loc_token (tk_sock s meta)) s else s)
      in set_sock master (\<lambda>k. k\<lparr>inside_tk_table := False\<rparr>) s1)"

definition create_master :: "(sk_ptr \<Rightarrow> token_state \<Rightarrow> token_state) \<Rightarrow> created \<Rightarrow> sk_ptr \<Rightarrow> sk_ptr \<Rightarrow> token_state \<Rightarrow> bool \<times> token_state" where
  "create_master fin how meta master s =
     (case how of
        No_Memory \<Rightarrow> (False, s)
      | Add_Failed \<Rightarrow> (False, fin meta (fin master (alloc_hash meta master s)))
      | Created \<Rightarrow> (True, alloc_hash meta master s))"

definition check_req_master ::
  "(sk_ptr \<Rightarrow> token_state \<Rightarrow> token_state) \<Rightarrow> created \<Rightarrow> sk_ptr \<Rightarrow> sk_ptr \<Rightarrow> nat \<Rightarrow> token_state \<Rightarrow> int \<times> token_state" where
  "check_req_master fin how child master r s =
     (let q = tk_req s r
      in if \<not> mptcp_rqsk q then (1, s)
         else if \<not> rq_saw_mpc q then (1, mptcp_reqsk_remove_tk r s)
         else
           let s1 = set_sock child (\<lambda>k. k\<lparr>tk_loc_key := rs_loc_key q, mptcp_loc_token := rq_loc_token q\<rparr>) s
           in case create_master fin how child master s1 of
                (False, s2) \<Rightarrow> (- 105, s2)
              | (True, s2) \<Rightarrow> (0, mptcp_reqsk_remove_tk r s2))"

section \<open>The first data sequence numbers\<close>

record meta_sock = tcp_sock +
  snd_sml :: u32
  pushed_seq :: u32
  snd_up :: u32
  meta_copied :: u32
  meta_rcv_wup :: u32
  snd_wl1 :: u32
  snd_wnd :: u32

text \<open>The control block is cleared when it is allocated.\<close>

definition cleared_mpcb :: mptcp_cb where
  "cleared_mpcb = \<lparr>connection_list = [], snd_high_order = (\<lambda>_. 0), rcv_high_order = (\<lambda>_. 0), send_infinite_mapping = False,
     dss_csum = False, server_side = False, infinite_mapping_rcv = False, infinite_mapping_snd = False,
     dfin_combined = False, passive_close = False, snd_hiseq_index = False, rcv_hiseq_index = False,
     cnt_subflows = 0, cnt_established = 0, reinject_queue = [], infinite_rcv_seq = 0,
     path_index_bits = 0, next_path_index = 0\<rparr>"

definition ntohll :: "u64 \<Rightarrow> u64" where
  "ntohll x = get_be64 (mem64 x)"

definition first_seq :: "sha \<Rightarrow> u64 \<Rightarrow> u64" where
  "first_seq sha key = ntohll (snd (mptcp_key_sha1 sha key)) + 1"

definition alloc_numbers :: "sha \<Rightarrow> u64 \<Rightarrow> u64 \<Rightarrow> u32 \<Rightarrow> meta_sock \<Rightarrow> mptcp_cb \<times> meta_sock" where
  "alloc_numbers sha loc_key remote_key win tp =
     (let idsn = first_seq sha loc_key;
          high = ucast (drop_bit 32 idsn);
          w = ucast idsn;
          idsn' = first_seq sha remote_key;
          high' = ucast (drop_bit 32 idsn');
          r = ucast idsn'
      in (cleared_mpcb\<lparr>snd_high_order := (\<lambda>i. if i then high - 1 else high), rcv_high_order := (\<lambda>i. if i then high' + 1 else high')\<rparr>,
          tp\<lparr>write_seq := w, snd_sml := w, snd_una := w, snd_nxt := w, pushed_seq := w, snd_up := w,
             meta_copied := r, rcv_nxt := r, meta_rcv_wup := r, snd_wl1 := r - 1, snd_wnd := win, packets_out := 0\<rparr>))"

section \<open>Well-formed tables\<close>

definition linked :: "nat \<Rightarrow> token_state \<Rightarrow> bool" where
  "linked r s \<longleftrightarrow> (\<exists>h. r \<in> set (mptcp_reqsk_tk_htb s h) \<or> r \<in> set (mptcp_reqsk_htb s h))"

definition pending :: "token_state \<Rightarrow> nat \<Rightarrow> bool" where
  "pending s r \<longleftrightarrow> r \<in> set (mptcp_reqsk_tk_htb s (mptcp_hash_tk (rq_loc_token (tk_req s r))))"

definition sock_table_wf :: "token_state \<Rightarrow> bool" where
  "sock_table_wf s \<longleftrightarrow>
     (\<forall>h. distinct (tk_hashtable s h)) \<and>
     (\<forall>h k. k \<in> set (tk_hashtable s h) \<longleftrightarrow> inside_tk_table (tk_sock s k) \<and> mptcp_hash_tk (mptcp_loc_token (tk_sock s k)) = h)"

definition req_table_wf :: "token_state \<Rightarrow> bool" where
  "req_table_wf s \<longleftrightarrow>
     (\<forall>h. distinct (mptcp_reqsk_tk_htb s h)) \<and>
     (\<forall>h. \<forall>r\<in>set (mptcp_reqsk_tk_htb s h). \<not> is_sub (tk_req s r) \<and> mptcp_hash_tk (rq_loc_token (tk_req s r)) = h)"

definition join_table_wf :: "token_env \<Rightarrow> token_state \<Rightarrow> bool" where
  "join_table_wf e s \<longleftrightarrow>
     (\<forall>h. distinct (mptcp_reqsk_htb s h)) \<and>
     (\<forall>h. \<forall>r\<in>set (mptcp_reqsk_htb s h). is_sub (tk_req s r) \<and>
        inet_synq_hash e (ir_rmt_addr (tk_req s r)) (ir_rmt_port (tk_req s r)) = h)"

definition tables_wf :: "token_env \<Rightarrow> token_state \<Rightarrow> bool" where
  "tables_wf e s \<longleftrightarrow> sock_table_wf s \<and> req_table_wf s \<and> join_table_wf e s"

text \<open>Who holds a token: a connection of the table or a request.\<close>

fun holds :: "token_state \<Rightarrow> sk_ptr + nat \<Rightarrow> u32 \<Rightarrow> bool" where
  "holds s (Inl k) t \<longleftrightarrow> inside_tk_table (tk_sock s k) \<and> mptcp_loc_token (tk_sock s k) = t"
| "holds s (Inr r) t \<longleftrightarrow> pending s r \<and> rq_loc_token (tk_req s r) = t"

definition tokens_unique :: "token_state \<Rightarrow> bool" where
  "tokens_unique s \<longleftrightarrow> (\<forall>x y t. holds s x t \<and> holds s y t \<longrightarrow> x = y)"

definition tk_inv :: "token_env \<Rightarrow> token_state \<Rightarrow> bool" where
  "tk_inv e s \<longleftrightarrow> tables_wf e s \<and> tokens_unique s"

lemmas wf_defs = tables_wf_def sock_table_wf_def req_table_wf_def join_table_wf_def

lemma find_token_iff:
  "sock_table_wf s \<Longrightarrow> mptcp_find_token t s \<longleftrightarrow> (\<exists>k. inside_tk_table (tk_sock s k) \<and> mptcp_loc_token (tk_sock s k) = t)"
  by (auto simp: mptcp_find_token_def list_ex_iff sock_table_wf_def)

lemma find_req_iff: "mptcp_reqsk_find_tk t s \<longleftrightarrow> (\<exists>r. pending s r \<and> rq_loc_token (tk_req s r) = t)"
  by (auto simp: mptcp_reqsk_find_tk_def list_ex_iff pending_def)

lemma token_busy_iff: "sock_table_wf s \<Longrightarrow> token_busy t s \<longleftrightarrow> (\<exists>x. holds s x t)"
  by (auto simp: token_busy_def find_token_iff find_req_iff split_sum_ex)

lemma state_simps [simp]:
  "tk_hashtable (set_sock k f s) = tk_hashtable s" "mptcp_reqsk_tk_htb (set_sock k f s) = mptcp_reqsk_tk_htb s"
  "mptcp_reqsk_htb (set_sock k f s) = mptcp_reqsk_htb s" "tk_req (set_sock k f s) = tk_req s"
  "tk_sock (set_sock k f s) = (tk_sock s)(k := f (tk_sock s k))" "mptcp_seed (set_sock k f s) = mptcp_seed s"
  "tk_hashtable (set_req r g s) = tk_hashtable s" "mptcp_reqsk_tk_htb (set_req r g s) = mptcp_reqsk_tk_htb s"
  "mptcp_reqsk_htb (set_req r g s) = mptcp_reqsk_htb s" "tk_sock (set_req r g s) = tk_sock s"
  "tk_req (set_req r g s) = (tk_req s)(r := g (tk_req s r))" "mptcp_seed (set_req r g s) = mptcp_seed s"
  by (simp_all add: set_sock_def set_req_def)

lemma unlink_simps [simp]: "set (unlink x t h) = set (t h) - {x}" "distinct (t h) \<Longrightarrow> distinct (unlink x t h)"
  by (auto simp: unlink_def distinct_removeAll)

lemma link_head_set [simp]: "y \<in> set (link_head h x t i) \<longleftrightarrow> (i = h \<and> y = x) \<or> y \<in> set (t i)"
  by (auto simp: link_head_def)

lemma link_head_distinct: "(\<And>i. distinct (t i)) \<Longrightarrow> x \<notin> set (t h) \<Longrightarrow> distinct (link_head h x t i)"
  by (simp add: link_head_def)

text \<open>What does not touch the tables, and the fields they depend on of the sockets and requests in them, keeps the
  invariant.\<close>

definition req_core :: "token_req \<Rightarrow> bool \<times> u32 \<times> ip_addr \<times> u16" where
  "req_core q = (is_sub q, rq_loc_token q, ir_rmt_addr q, ir_rmt_port q)"

definition same_tables :: "token_state \<Rightarrow> token_state \<Rightarrow> bool" where
  "same_tables s s' \<longleftrightarrow>
     tk_hashtable s' = tk_hashtable s \<and> mptcp_reqsk_tk_htb s' = mptcp_reqsk_tk_htb s \<and> mptcp_reqsk_htb s' = mptcp_reqsk_htb s \<and>
     (\<forall>k. inside_tk_table (tk_sock s' k) = inside_tk_table (tk_sock s k)) \<and>
     (\<forall>k. inside_tk_table (tk_sock s k) \<longrightarrow> mptcp_loc_token (tk_sock s' k) = mptcp_loc_token (tk_sock s k)) \<and>
     (\<forall>r. linked r s \<longrightarrow> req_core (tk_req s' r) = req_core (tk_req s r))"

lemma same_tables_refl [simp]: "same_tables s s"
  by (simp add: same_tables_def)

lemma same_tables_trans: "same_tables s s' \<Longrightarrow> same_tables s' s'' \<Longrightarrow> same_tables s s''"
  by (simp add: same_tables_def linked_def)

lemma same_tables_pending: "same_tables s s' \<Longrightarrow> req_table_wf s \<Longrightarrow> pending s' r = pending s r"
  unfolding same_tables_def linked_def pending_def req_table_wf_def req_core_def prod.inject by metis

lemma same_tables_wf: "same_tables s s' \<Longrightarrow> tables_wf e s \<Longrightarrow> tables_wf e s'"
  unfolding wf_defs same_tables_def linked_def req_core_def prod.inject by (intro conjI; metis)

lemma pending_linked: "pending s r \<Longrightarrow> linked r s"
  by (auto simp: pending_def linked_def)

lemma same_tables_holds: "same_tables s s' \<Longrightarrow> tables_wf e s \<Longrightarrow> holds s' x t = holds s x t"
  using same_tables_pending [of s s'] pending_linked [of s]
  by (cases x) (auto simp: same_tables_def tables_wf_def req_core_def)

lemma same_tables_unique: "same_tables s s' \<Longrightarrow> tables_wf e s \<Longrightarrow> tokens_unique s \<Longrightarrow> tokens_unique s'"
  by (simp add: tokens_unique_def same_tables_holds)

lemma same_tables_inv: "same_tables s s' \<Longrightarrow> tk_inv e s \<Longrightarrow> tk_inv e s'"
  using same_tables_wf same_tables_unique by (auto simp: tk_inv_def)

lemma set_req_same: "\<not> linked r s \<Longrightarrow> same_tables s (set_req r f s)"
  by (auto simp: same_tables_def)

lemma set_req_core_same: "req_core (f (tk_req s r)) = req_core (tk_req s r) \<Longrightarrow> same_tables s (set_req r f s)"
  by (auto simp: same_tables_def)

lemma set_sock_same:
  "inside_tk_table (f (tk_sock s k)) = inside_tk_table (tk_sock s k) \<Longrightarrow>
   (inside_tk_table (tk_sock s k) \<Longrightarrow> mptcp_loc_token (f (tk_sock s k)) = mptcp_loc_token (tk_sock s k)) \<Longrightarrow>
   same_tables s (set_sock k f s)"
  by (auto simp: same_tables_def)

lemma linked_same: "same_tables s s' \<Longrightarrow> linked r s' = linked r s"
  by (simp add: same_tables_def linked_def)

section \<open>The operations keep them\<close>

lemma unique_more:
  assumes "tokens_unique s" and "sock_table_wf s" and "\<not> token_busy t s"
    and "\<And>x u. holds s' x u \<Longrightarrow> (x = y \<and> u = t) \<or> holds s x u"
  shows "tokens_unique s'"
  using assms(1,3,4) unfolding tokens_unique_def token_busy_iff [OF assms(2)] by blast

lemma unique_fewer: "tokens_unique s \<Longrightarrow> (\<And>x t. holds s' x t \<Longrightarrow> holds s x t) \<Longrightarrow> tokens_unique s'"
  unfolding tokens_unique_def by blast

lemma hash_insert_inv:
  assumes "tk_inv e s" and "\<not> inside_tk_table (tk_sock s k)" and "\<not> token_busy (mptcp_loc_token (tk_sock s k)) s"
  shows "tk_inv e (mptcp_hash_insert k (mptcp_loc_token (tk_sock s k)) s)"
proof -
  let ?s = "mptcp_hash_insert k (mptcp_loc_token (tk_sock s k)) s"
  have w: "tables_wf e s" and u: "tokens_unique s" using assms(1) by (simp_all add: tk_inv_def)
  have eq: "tk_hashtable ?s = link_head (mptcp_hash_tk (mptcp_loc_token (tk_sock s k))) k (tk_hashtable s)"
    "mptcp_reqsk_tk_htb ?s = mptcp_reqsk_tk_htb s" "mptcp_reqsk_htb ?s = mptcp_reqsk_htb s" "tk_req ?s = tk_req s"
    "tk_sock ?s = (tk_sock s)(k := (tk_sock s k)\<lparr>inside_tk_table := True\<rparr>)"
    by (simp_all add: mptcp_hash_insert_def)
  have "sock_table_wf ?s"
    using w assms(2) unfolding tables_wf_def sock_table_wf_def eq by (auto intro!: link_head_distinct)
  moreover have "req_table_wf ?s" "join_table_wf e ?s" and p: "\<And>r. pending ?s r = pending s r"
    using w by (simp_all add: wf_defs eq pending_def)
  moreover have "tokens_unique ?s"
  proof (rule unique_more [OF u _ assms(3)])
    show "sock_table_wf s" using w by (simp add: tables_wf_def)
    show "(x = Inl k \<and> t = mptcp_loc_token (tk_sock s k)) \<or> holds s x t" if "holds ?s x t" for x t
      using that by (cases x) (auto simp: eq p split: if_splits)
  qed
  ultimately show ?thesis by (simp add: tk_inv_def tables_wf_def)
qed

lemma hash_remove_inv:
  assumes "tk_inv e s"
  shows "tk_inv e (mptcp_hash_remove k s)"
proof -
  let ?s = "mptcp_hash_remove k s"
  have w: "tables_wf e s" and u: "tokens_unique s" using assms(1) by (simp_all add: tk_inv_def)
  have eq: "tk_hashtable ?s = unlink k (tk_hashtable s)"
    "mptcp_reqsk_tk_htb ?s = mptcp_reqsk_tk_htb s" "mptcp_reqsk_htb ?s = mptcp_reqsk_htb s" "tk_req ?s = tk_req s"
    "tk_sock ?s = (tk_sock s)(k := (tk_sock s k)\<lparr>inside_tk_table := False\<rparr>)"
    by (simp_all add: mptcp_hash_remove_def)
  have "sock_table_wf ?s" using w unfolding tables_wf_def sock_table_wf_def eq by auto
  moreover have "req_table_wf ?s" "join_table_wf e ?s" and p: "\<And>r. pending ?s r = pending s r"
    using w by (simp_all add: wf_defs eq pending_def)
  moreover have "tokens_unique ?s"
  proof (rule unique_fewer [OF u])
    show "holds s x t" if "holds ?s x t" for x t using that by (cases x) (auto simp: eq p split: if_splits)
  qed
  ultimately show ?thesis by (simp add: tk_inv_def tables_wf_def)
qed

lemma insert_tk_inv:
  assumes "tk_inv e s" and "\<not> linked r s" and "\<not> is_sub (tk_req s r)" and "\<not> token_busy (rq_loc_token (tk_req s r)) s"
  shows "tk_inv e (mptcp_reqsk_insert_tk r (rq_loc_token (tk_req s r)) s)"
proof -
  let ?s = "mptcp_reqsk_insert_tk r (rq_loc_token (tk_req s r)) s"
  have w: "tables_wf e s" and u: "tokens_unique s" using assms(1) by (simp_all add: tk_inv_def)
  have eq: "tk_hashtable ?s = tk_hashtable s" "mptcp_reqsk_htb ?s = mptcp_reqsk_htb s" "tk_req ?s = tk_req s" "tk_sock ?s = tk_sock s"
    "mptcp_reqsk_tk_htb ?s = link_head (mptcp_hash_tk (rq_loc_token (tk_req s r))) r (mptcp_reqsk_tk_htb s)"
    by (simp_all add: mptcp_reqsk_insert_tk_def)
  have "req_table_wf ?s"
    using w assms(2,3) unfolding tables_wf_def req_table_wf_def eq linked_def by (auto intro!: link_head_distinct)
  moreover have "sock_table_wf ?s" "join_table_wf e ?s" and p: "\<And>r'. pending ?s r' = (r' = r \<or> pending s r')"
    using w by (auto simp: wf_defs eq pending_def)
  moreover have "tokens_unique ?s"
  proof (rule unique_more [OF u _ assms(4)])
    show "sock_table_wf s" using w by (simp add: tables_wf_def)
    show "(x = Inr r \<and> t = rq_loc_token (tk_req s r)) \<or> holds s x t" if "holds ?s x t" for x t
      using that by (cases x) (auto simp: eq p split: if_splits)
  qed
  ultimately show ?thesis by (simp add: tk_inv_def tables_wf_def)
qed

lemma unlink_req_inv:
  assumes "tk_inv e s"
  shows "tk_inv e (unlink_req r s)"
proof -
  let ?s = "unlink_req r s"
  have w: "tables_wf e s" and u: "tokens_unique s" using assms(1) by (simp_all add: tk_inv_def)
  have eq: "tk_hashtable ?s = tk_hashtable s" "tk_req ?s = tk_req s" "tk_sock ?s = tk_sock s"
    "mptcp_reqsk_tk_htb ?s = unlink r (mptcp_reqsk_tk_htb s)" "mptcp_reqsk_htb ?s = unlink r (mptcp_reqsk_htb s)"
    by (simp_all add: unlink_req_def)
  have "sock_table_wf ?s" "req_table_wf ?s" "join_table_wf e ?s" and p: "\<And>r'. pending ?s r' = (r' \<noteq> r \<and> pending s r')"
    using w by (auto simp: wf_defs eq pending_def)
  moreover have "tokens_unique ?s"
  proof (rule unique_fewer [OF u])
    show "holds s x t" if "holds ?s x t" for x t using that by (cases x) (auto simp: eq p)
  qed
  ultimately show ?thesis by (simp add: tk_inv_def tables_wf_def)
qed

lemma join_add_inv:
  assumes "tk_inv e s" and "\<not> linked r s" and "is_sub (tk_req s r)"
  shows "tk_inv e (mptcp_v4_reqsk_queue_hash_add e r s)"
proof -
  let ?s = "mptcp_v4_reqsk_queue_hash_add e r s"
  have w: "tables_wf e s" and u: "tokens_unique s" using assms(1) by (simp_all add: tk_inv_def)
  have eq: "tk_hashtable ?s = tk_hashtable s" "mptcp_reqsk_tk_htb ?s = mptcp_reqsk_tk_htb s" "tk_sock ?s = tk_sock s" "tk_req ?s = tk_req s"
    "mptcp_reqsk_htb ?s = link_head (inet_synq_hash e (ir_rmt_addr (tk_req s r)) (ir_rmt_port (tk_req s r))) r (mptcp_reqsk_htb s)"
    by (simp_all add: mptcp_v4_reqsk_queue_hash_add_def Let_def)
  have "sock_table_wf ?s" "req_table_wf ?s" and p: "\<And>r'. pending ?s r' = pending s r'"
    using w by (simp_all add: wf_defs eq pending_def)
  moreover have "join_table_wf e ?s"
    using w assms(2,3) unfolding tables_wf_def join_table_wf_def eq linked_def by (auto intro!: link_head_distinct)
  moreover have "tokens_unique ?s"
  proof (rule unique_fewer [OF u])
    show "holds s x t" if "holds ?s x t" for x t using that by (cases x) (auto simp: eq p)
  qed
  ultimately show ?thesis by (simp add: tk_inv_def tables_wf_def)
qed

section \<open>The search for a free token\<close>

lemma until_free_Some:
  "until_free f tok s = Some s' \<Longrightarrow>
     \<exists>n. s' = (f ^^ Suc n) s \<and> \<not> token_busy (tok s') s' \<and> (\<forall>m<n. token_busy (tok ((f ^^ Suc m) s)) ((f ^^ Suc m) s))"
proof (induction rule: until_free.raw_induct [rotated, consumes 1])
  case (1 loop f tok s s')
  show ?case
  proof (cases "token_busy (tok (f s)) (f s)")
    case False
    then show ?thesis using 1(2) by (intro exI [of _ 0]) (simp add: Let_def)
  next
    case True
    then have "loop f tok (f s) = Some s'" using 1(2) by (simp add: Let_def)
    from 1(1) [OF this] obtain n where n: "s' = (f ^^ Suc n) (f s)" "\<not> token_busy (tok s') s'"
      "\<And>m. m < n \<Longrightarrow> token_busy (tok ((f ^^ Suc m) (f s))) ((f ^^ Suc m) (f s))" by blast
    have "token_busy (tok ((f ^^ Suc m) s)) ((f ^^ Suc m) s)" if "m < Suc n" for m
      using that True n(3) [of "m - 1"] by (cases m) (simp_all add: funpow_swap1)
    then show ?thesis using n(1,2) by (intro exI [of _ "Suc n"]) (simp add: funpow_swap1)
  qed
qed

lemma until_free_at:
  assumes "\<not> token_busy (tok ((f ^^ Suc n) s)) ((f ^^ Suc n) s)"
    and "\<And>m. m < n \<Longrightarrow> token_busy (tok ((f ^^ Suc m) s)) ((f ^^ Suc m) s)"
  shows "until_free f tok s = Some ((f ^^ Suc n) s)"
  using assms
proof (induction n arbitrary: s)
  case 0
  then show ?case by (subst until_free.simps) simp
next
  case (Suc n)
  have "until_free f tok (f s) = Some ((f ^^ Suc n) (f s))"
    using Suc.prems(1) Suc.prems(2) [of "Suc m" for m] by (intro Suc.IH) (simp_all add: funpow_swap1)
  moreover have "token_busy (tok (f s)) (f s)" using Suc.prems(2) [of 0] by simp
  ultimately show ?case by (subst until_free.simps) (simp add: Let_def funpow_swap1)
qed

lemma until_free_returns:
  "(\<exists>s'. until_free f tok s = Some s') \<longleftrightarrow> (\<exists>n. \<not> token_busy (tok ((f ^^ Suc n) s)) ((f ^^ Suc n) s))"
proof
  assume "\<exists>n. \<not> token_busy (tok ((f ^^ Suc n) s)) ((f ^^ Suc n) s)"
  then obtain n where "\<not> token_busy (tok ((f ^^ Suc n) s)) ((f ^^ Suc n) s)"
    "\<And>m. m < n \<Longrightarrow> token_busy (tok ((f ^^ Suc m) s)) ((f ^^ Suc m) s)"
    using exists_least_iff [of "\<lambda>n. \<not> token_busy (tok ((f ^^ Suc n) s)) ((f ^^ Suc n) s)"] by blast
  then show "\<exists>s'. until_free f tok s = Some s'" using until_free_at by blast
qed (use until_free_Some in blast)

lemma until_free_keeps:
  assumes "until_free f tok s = Some s'" and "P s" and "\<And>s. P s \<Longrightarrow> P (f s)"
  shows "P s' \<and> \<not> token_busy (tok s') s'"
proof -
  have "P ((f ^^ n) s)" for n by (induction n) (simp_all add: assms(2,3))
  then show ?thesis using until_free_Some [OF assms(1)] by blast
qed

text \<open>The token of the key of a seed.\<close>

definition sock_token :: "token_env \<Rightarrow> token_sock \<Rightarrow> u32 \<Rightarrow> u32" where
  "sock_token e k seed = fst (mptcp_key_sha1 (te_sha e) (flow_key e (sk_flow k) (inet_sport k) (inet_dport k) seed))"

definition req_token :: "token_env \<Rightarrow> flow \<Rightarrow> token_req \<Rightarrow> u32 \<Rightarrow> u32" where
  "req_token e skb r seed = fst (mptcp_key_sha1 (te_sha e) (flow_key e skb (htons (ir_num r)) (ir_rmt_port r) seed))"

lemma busy_same: "same_tables s s' \<Longrightarrow> tables_wf e s \<Longrightarrow> token_busy t s' = token_busy t s"
  using same_tables_wf [of s s' e] same_tables_holds [of s s' e]
  by (simp add: token_busy_iff tables_wf_def)

lemma set_key_sk_same: "\<not> inside_tk_table (tk_sock s sk) \<Longrightarrow> same_tables s (mptcp_set_key_sk e sk s)"
  by (auto simp: mptcp_set_key_sk_def same_tables_def Let_def)

lemma next_req_key_same: "\<not> linked r s \<Longrightarrow> same_tables s (next_req_key e skb r s)"
  by (auto simp: next_req_key_def same_tables_def)

lemma set_key_sk_iter:
  assumes "\<not> inside_tk_table (tk_sock s sk)"
  shows "same_tables s ((mptcp_set_key_sk e sk ^^ Suc n) s) \<and>
    mptcp_loc_token (tk_sock ((mptcp_set_key_sk e sk ^^ Suc n) s) sk) = sock_token e (tk_sock s sk) (mptcp_seed s + of_nat n) \<and>
    mptcp_seed ((mptcp_set_key_sk e sk ^^ Suc n) s) = mptcp_seed s + of_nat (Suc n) \<and>
    sk_flow (tk_sock ((mptcp_set_key_sk e sk ^^ Suc n) s) sk) = sk_flow (tk_sock s sk) \<and>
    inet_sport (tk_sock ((mptcp_set_key_sk e sk ^^ Suc n) s) sk) = inet_sport (tk_sock s sk) \<and>
    inet_dport (tk_sock ((mptcp_set_key_sk e sk ^^ Suc n) s) sk) = inet_dport (tk_sock s sk)"
proof (induction n)
  case 0
  then show ?case using set_key_sk_same [OF assms] by (simp add: mptcp_set_key_sk_def sock_token_def Let_def)
next
  case (Suc n)
  obtain s1 where s1: "s1 = (mptcp_set_key_sk e sk ^^ Suc n) s" by blast
  have nx: "(mptcp_set_key_sk e sk ^^ Suc (Suc n)) s = mptcp_set_key_sk e sk s1" by (simp add: s1)
  have IH: "same_tables s s1" "mptcp_seed s1 = mptcp_seed s + of_nat (Suc n)" "sk_flow (tk_sock s1 sk) = sk_flow (tk_sock s sk)"
    "inet_sport (tk_sock s1 sk) = inet_sport (tk_sock s sk)" "inet_dport (tk_sock s1 sk) = inet_dport (tk_sock s sk)"
    using Suc.IH unfolding s1 [symmetric] by blast+
  have "\<not> inside_tk_table (tk_sock s1 sk)" using IH(1) assms by (simp add: same_tables_def)
  then have "same_tables s (mptcp_set_key_sk e sk s1)" using IH(1) set_key_sk_same same_tables_trans by blast
  then show ?case unfolding nx
    by (intro conjI) (simp_all add: mptcp_set_key_sk_def sock_token_def Let_def IH algebra_simps)
qed

lemma all_seeds: "(\<exists>n. P (seed + of_nat n)) \<longleftrightarrow> (\<exists>x::u32. P x)"
proof
  assume "\<exists>x. P x"
  then obtain x where "P x" ..
  then have "P (seed + of_nat (unat (x - seed)))" by simp
  then show "\<exists>n. P (seed + of_nat n)" ..
qed blast

lemma connect_busy:
  assumes "tk_inv e s" and "\<not> inside_tk_table (tk_sock s sk)"
  shows "token_busy (mptcp_loc_token (tk_sock ((mptcp_set_key_sk e sk ^^ Suc n) s) sk)) ((mptcp_set_key_sk e sk ^^ Suc n) s) =
    token_busy (sock_token e (tk_sock s sk) (mptcp_seed s + of_nat n)) s"
proof -
  have w: "tables_wf e s" using assms(1) by (simp add: tk_inv_def)
  obtain s1 where s1: "s1 = (mptcp_set_key_sk e sk ^^ Suc n) s" by blast
  have a: "same_tables s s1" "mptcp_loc_token (tk_sock s1 sk) = sock_token e (tk_sock s sk) (mptcp_seed s + of_nat n)"
    using set_key_sk_iter [where e = e and n = n, OF assms(2)] unfolding s1 [symmetric] by blast+
  show ?thesis using busy_same [OF a(1) w] a(2) unfolding s1 [symmetric] by simp
qed

lemma connect_returns:
  assumes "tk_inv e s" and "\<not> inside_tk_table (tk_sock s sk)"
  shows "(\<exists>s'. mptcp_connect_init e sk s = Some s') \<longleftrightarrow> (\<exists>seed. \<not> token_busy (sock_token e (tk_sock s sk) seed) s)"
proof -
  have "(\<exists>s'. mptcp_connect_init e sk s = Some s') \<longleftrightarrow>
      (\<exists>s1. until_free (mptcp_set_key_sk e sk) (\<lambda>s. mptcp_loc_token (tk_sock s sk)) s = Some s1)"
    by (auto simp: mptcp_connect_init_def)
  also have "\<dots> \<longleftrightarrow> (\<exists>n. \<not> token_busy (sock_token e (tk_sock s sk) (mptcp_seed s + of_nat n)) s)"
    unfolding until_free_returns connect_busy [OF assms] ..
  also have "\<dots> \<longleftrightarrow> (\<exists>seed. \<not> token_busy (sock_token e (tk_sock s sk) seed) s)"
    by (rule all_seeds [where P = "\<lambda>seed. \<not> token_busy (sock_token e (tk_sock s sk) seed) s"])
  finally show ?thesis .
qed

lemma connect_result:
  assumes "tk_inv e s" and "\<not> inside_tk_table (tk_sock s sk)" and "mptcp_connect_init e sk s = Some s'"
  shows "\<exists>s1. same_tables s s1 \<and> s' = mptcp_hash_insert sk (mptcp_loc_token (tk_sock s1 sk)) s1 \<and>
     \<not> token_busy (mptcp_loc_token (tk_sock s1 sk)) s1"
proof -
  obtain s1 where u: "until_free (mptcp_set_key_sk e sk) (\<lambda>s. mptcp_loc_token (tk_sock s sk)) s = Some s1"
      and s': "s' = mptcp_hash_insert sk (mptcp_loc_token (tk_sock s1 sk)) s1"
    using assms(3) by (auto simp: mptcp_connect_init_def)
  have "same_tables s s1 \<and> \<not> token_busy (mptcp_loc_token (tk_sock s1 sk)) s1"
  proof (rule until_free_keeps [where f = "mptcp_set_key_sk e sk" and P = "same_tables s", OF u])
    fix s2 assume "same_tables s s2"
    moreover from this have "\<not> inside_tk_table (tk_sock s2 sk)" using assms(2) by (simp add: same_tables_def)
    ultimately show "same_tables s (mptcp_set_key_sk e sk s2)" using set_key_sk_same same_tables_trans by blast
  qed simp
  with s' show ?thesis by blast
qed

text \<open>C17. Taking a key for a new connection, with the whole range of seeds at hand: the loop of
  \<open>mptcp_connect_init\<close> returns exactly when the key of some seed has a token that no connection and no
  request holds, and then the connection is in the table under such a token, with all other tokens
  where they were.\<close>

theorem mptcp_connect_init_terminates:
  assumes "tk_inv e s" and "\<not> inside_tk_table (tk_sock s sk)"
  shows "((\<exists>s'. mptcp_connect_init e sk s = Some s') \<longleftrightarrow> (\<exists>seed. \<not> token_busy (sock_token e (tk_sock s sk) seed) s)) \<and>
    (\<forall>s'. mptcp_connect_init e sk s = Some s' \<longrightarrow>
       \<not> token_busy (mptcp_loc_token (tk_sock s' sk)) s \<and>
       (\<forall>x t. holds s' x t \<longleftrightarrow> holds s x t \<or> (x = Inl sk \<and> t = mptcp_loc_token (tk_sock s' sk))))"
proof -
  have w: "tables_wf e s" using assms(1) by (simp add: tk_inv_def)
  have B: "\<not> token_busy (mptcp_loc_token (tk_sock s' sk)) s \<and>
      (\<forall>x t. holds s' x t \<longleftrightarrow> holds s x t \<or> (x = Inl sk \<and> t = mptcp_loc_token (tk_sock s' sk)))"
    if conn: "mptcp_connect_init e sk s = Some s'" for s'
  proof -
    obtain s1 where same: "same_tables s s1" and s': "s' = mptcp_hash_insert sk (mptcp_loc_token (tk_sock s1 sk)) s1"
      and free: "\<not> token_busy (mptcp_loc_token (tk_sock s1 sk)) s1"
      using connect_result [OF assms conn] by blast
    have tok: "mptcp_loc_token (tk_sock s' sk) = mptcp_loc_token (tk_sock s1 sk)" by (simp add: s' mptcp_hash_insert_def)
    have "\<not> inside_tk_table (tk_sock s1 sk)" using same assms(2) by (simp add: same_tables_def)
    then have "holds s' x t \<longleftrightarrow> holds s1 x t \<or> (x = Inl sk \<and> t = mptcp_loc_token (tk_sock s1 sk))" for x t
      by (cases x) (auto simp: s' mptcp_hash_insert_def pending_def)
    then show ?thesis using free busy_same [OF same w] same_tables_holds [OF same w] by (simp add: tok)
  qed
  show ?thesis by (intro conjI allI impI connect_returns [OF assms]) (use B in blast)+
qed

section \<open>Runs\<close>

lemma new_mptcp_result:
  assumes "\<not> linked r s" and "mptcp_reqsk_new_mptcp e r sk mopt skb s = Some s'"
  shows "\<exists>s1. same_tables s s1 \<and> is_sub (tk_req s1 r) = is_sub (tk_req s r) \<and> \<not> token_busy (rq_loc_token (tk_req s1 r)) s1 \<and>
     s' = set_req r (\<lambda>q. q\<lparr>rq_rem_key := mptcp_sender_key mopt\<rparr>) (mptcp_reqsk_insert_tk r (rq_loc_token (tk_req s1 r)) s1)"
proof -
  define ver where "ver = (if rcv_mptcp_ver mopt \<ge> tk_ver (tk_sock s sk) then tk_ver (tk_sock s sk) else rcv_mptcp_ver mopt)"
  define s0 where "s0 = set_req r (\<lambda>q. q\<lparr>rq_saw_mpc := True, rs_ver := ver\<rparr>) s"
  have s0: "same_tables s s0" "is_sub (tk_req s0 r) = is_sub (tk_req s r)"
    using set_req_same [OF assms(1)] by (simp_all add: s0_def)
  obtain s1 where u: "until_free (next_req_key e skb r) (\<lambda>s. rq_loc_token (tk_req s r)) s0 = Some s1"
      and s': "s' = set_req r (\<lambda>q. q\<lparr>rq_rem_key := mptcp_sender_key mopt\<rparr>) (mptcp_reqsk_insert_tk r (rq_loc_token (tk_req s1 r)) s1)"
    using assms(2) by (auto simp: mptcp_reqsk_new_mptcp_def Let_def s0_def ver_def)
  let ?P = "\<lambda>s2. same_tables s s2 \<and> is_sub (tk_req s2 r) = is_sub (tk_req s r)"
  have "?P s1 \<and> \<not> token_busy (rq_loc_token (tk_req s1 r)) s1"
  proof (rule until_free_keeps [where P = ?P, OF u])
    fix s2 assume P: "?P s2"
    then have "\<not> linked r s2" using assms(1) linked_same by blast
    then have "same_tables s (next_req_key e skb r s2)" using P next_req_key_same same_tables_trans by blast
    moreover have "is_sub (tk_req (next_req_key e skb r s2) r) = is_sub (tk_req s2 r)"
      by (simp add: next_req_key_def mptcp_set_key_reqsk_def Let_def)
    ultimately show "?P (next_req_key e skb r s2)" using P by simp
  qed (use s0 in simp)
  with s' show ?thesis by blast
qed

lemma new_mptcp_inv:
  assumes "tk_inv e s" and "\<not> linked r s" and "\<not> is_sub (tk_req s r)" and "mptcp_reqsk_new_mptcp e r sk mopt skb s = Some s'"
  shows "tk_inv e s'"
proof -
  obtain s1 where s1: "same_tables s s1" "is_sub (tk_req s1 r) = is_sub (tk_req s r)" "\<not> token_busy (rq_loc_token (tk_req s1 r)) s1"
     "s' = set_req r (\<lambda>q. q\<lparr>rq_rem_key := mptcp_sender_key mopt\<rparr>) (mptcp_reqsk_insert_tk r (rq_loc_token (tk_req s1 r)) s1)"
    using new_mptcp_result [OF assms(2,4)] by blast
  have "tk_inv e (mptcp_reqsk_insert_tk r (rq_loc_token (tk_req s1 r)) s1)"
    using s1(2,3) assms(2,3) linked_same [OF s1(1)] by (intro insert_tk_inv [OF same_tables_inv [OF s1(1) assms(1)]]) simp_all
  then show ?thesis unfolding s1(4) by (rule same_tables_inv [OF set_req_core_same, rotated]) (simp add: req_core_def)
qed

lemma reqsk_init_inv:
  assumes "tk_inv e s" and "\<not> linked r s" and "\<not> is_sub (tk_req s r)"
    and "mptcp_reqsk_init e r sk skb options p want_cookie s = Some s'"
  shows "tk_inv e s'"
proof -
  define mopt where "mopt = fst (tcp_parse_mptcp_options (te_checksum e) options (mptcp_init_mp_opt (fst p), snd p))"
  define s1 where "s1 = set_req r (\<lambda>q. q\<lparr>rs_dss_csum := rcv_dss_csum mopt\<rparr>) s"
  have s1: "tk_inv e s1" "\<not> linked r s1" "\<not> is_sub (tk_req s1 r)"
    using set_req_same [OF assms(2)] assms(1-3) same_tables_inv linked_same unfolding s1_def by (blast, blast, simp)
  show ?thesis
  proof (cases want_cookie)
    case False
    then have "mptcp_reqsk_new_mptcp e r sk mopt skb s1 = Some s'"
      using assms(4) by (simp add: mptcp_reqsk_init_def mopt_def [symmetric] s1_def [symmetric] Let_def)
    with new_mptcp_inv [OF s1] show ?thesis by blast
  next
    case True
    define s2 where "s2 = snd (mptcp_reqsk_new_cookie e r mopt skb s1)"
    have "same_tables s1 s2"
      using same_tables_trans [OF set_req_same set_req_same] s1(2)
      by (auto simp: s2_def mptcp_reqsk_new_cookie_def Let_def same_tables_def)
    moreover have "s' = s2 \<or> s' = set_req r (\<lambda>q. q\<lparr>mptcp_rqsk := False\<rparr>) s2"
      using assms(4) True by (auto simp: mptcp_reqsk_init_def mopt_def [symmetric] s1_def [symmetric] s2_def Let_def split: prod.splits bool.splits)
    ultimately have "same_tables s1 s'"
      using s1(2) linked_same set_req_same same_tables_trans by blast
    then show ?thesis using s1(1) same_tables_inv by blast
  qed
qed

lemma connect_inv:
  assumes "tk_inv e s" and "\<not> inside_tk_table (tk_sock s sk)" and "mptcp_connect_init e sk s = Some s'"
  shows "tk_inv e s'"
proof -
  obtain s1 where same: "same_tables s s1" and s': "s' = mptcp_hash_insert sk (mptcp_loc_token (tk_sock s1 sk)) s1"
    and free: "\<not> token_busy (mptcp_loc_token (tk_sock s1 sk)) s1"
    using connect_result [OF assms] by blast
  have "\<not> inside_tk_table (tk_sock s1 sk)" using same assms(2) by (simp add: same_tables_def)
  then show ?thesis unfolding s' using free by (intro hash_insert_inv [OF same_tables_inv [OF same assms(1)]])
qed

text \<open>A token moves from a request to the connection it becomes.\<close>

lemma check_req_pending_inv:
  assumes "tk_inv e s" and "\<not> inside_tk_table (tk_sock s child)" and "\<not> inside_tk_table (tk_sock s master)" and "child \<noteq> master"
    and "pending s r" and "how \<noteq> Add_Failed"
  shows "tk_inv e (snd (check_req_master fin how child master r s))"
proof -
  let ?t = "rq_loc_token (tk_req s r)"
  define s1 where "s1 = set_sock child (\<lambda>k. k\<lparr>tk_loc_key := rs_loc_key (tk_req s r), mptcp_loc_token := ?t\<rparr>) s"
  define s2 where "s2 = unlink_req r (alloc_hash child master s1)"
  have same: "same_tables s s1" unfolding s1_def using assms(2) by (intro set_sock_same) simp_all
  have inv1: "tk_inv e s1" by (rule same_tables_inv [OF same assms(1)])
  have "tk_inv e (unlink_req r s1)" by (rule unlink_req_inv [OF inv1])
  have child1: "\<not> inside_tk_table (tk_sock s1 child)" "mptcp_loc_token (tk_sock s1 child) = ?t" "tk_req s1 = tk_req s"
    using assms(2) by (simp_all add: s1_def)
  have wf: "sock_table_wf s" "req_table_wf s" using assms(1) by (simp_all add: tk_inv_def tables_wf_def)
  have free: "\<not> token_busy ?t (unlink_req r s1)"
  proof
    assume "token_busy ?t (unlink_req r s1)"
    then obtain x where "holds (unlink_req r s1) x ?t"
      using \<open>tk_inv e (unlink_req r s1)\<close> token_busy_iff by (auto simp: tk_inv_def tables_wf_def)
    then have "holds s1 x ?t" "x \<noteq> Inr r"
      by (cases x; simp add: unlink_req_def pending_def)+
    moreover have "holds s1 (Inr r) ?t"
      using same_tables_pending [OF same wf(2)] assms(5) by (simp add: child1)
    ultimately show False using inv1 by (auto simp: tk_inv_def tokens_unique_def)
  qed
  have comm: "s2 = set_sock master (\<lambda>k. k\<lparr>inside_tk_table := False\<rparr>) (mptcp_hash_insert child ?t (unlink_req r s1))"
    using child1 by (simp add: s2_def alloc_hash_def Let_def unlink_req_def set_sock_def mptcp_hash_insert_def)
  have "tk_inv e (mptcp_hash_insert child (mptcp_loc_token (tk_sock (unlink_req r s1) child)) (unlink_req r s1))"
    using child1 free by (intro hash_insert_inv [OF unlink_req_inv [OF inv1]]) (simp_all add: unlink_req_def)
  then have "tk_inv e (mptcp_hash_insert child ?t (unlink_req r s1))" by (simp add: unlink_req_def child1)
  then have "tk_inv e s2" unfolding comm
    by (rule same_tables_inv [OF set_sock_same, rotated 2])
      (use assms(3,4) child1 in \<open>simp_all add: mptcp_hash_insert_def unlink_req_def s1_def\<close>)
  moreover have "snd (check_req_master fin how child master r s) \<in> {s, unlink_req r s, s1, s2}"
    using assms(6) by (auto simp: check_req_master_def create_master_def s1_def s2_def mptcp_reqsk_remove_tk_def Let_def split: created.splits)
  ultimately show ?thesis using assms(1) inv1 unlink_req_inv by auto
qed

text \<open>The answer to a SYN cookie: the request is built and becomes a connection at once.\<close>

lemma check_req_cookie_inv:
  assumes "tk_inv e s" and "\<not> inside_tk_table (tk_sock s child)" and "\<not> inside_tk_table (tk_sock s master)" and "child \<noteq> master"
    and "\<not> linked r s" and "\<not> mptcp_rqsk (tk_req s r)" and "how \<noteq> Add_Failed"
  shows "tk_inv e (snd (check_req_master fin how child master r (mptcp_cookies_reqsk_init e r mopt s)))"
proof -
  define s1 where "s1 = mptcp_cookies_reqsk_init e r mopt s"
  let ?t = "rq_loc_token (tk_req s1 r)"
  have same: "same_tables s s1"
    using same_tables_trans [OF set_req_same set_req_same] assms(5)
    by (auto simp: s1_def mptcp_cookies_reqsk_init_def Let_def same_tables_def)
  have inv1: "tk_inv e s1" by (rule same_tables_inv [OF same assms(1)])
  have socks: "tk_sock s1 = tk_sock s" "tk_hashtable s1 = tk_hashtable s"
    by (simp_all add: s1_def mptcp_cookies_reqsk_init_def Let_def)
  have free: "\<not> token_busy ?t s1" if rq: "mptcp_rqsk (tk_req s1 r)"
  proof -
    let ?q = "\<lambda>q. q\<lparr>rq_rem_key := mptcp_sender_key mopt, rs_loc_key := mptcp_receiver_key mopt,
      rq_loc_token := fst (mptcp_key_sha1 (te_sha e) (mptcp_receiver_key mopt))\<rparr>"
    have "\<not> token_busy (fst (mptcp_key_sha1 (te_sha e) (mptcp_receiver_key mopt))) (set_req r ?q s)"
      using rq assms(6) by (auto simp: s1_def mptcp_cookies_reqsk_init_def Let_def split: if_splits)
    moreover have "tables_wf e s" using assms(1) by (simp add: tk_inv_def)
    ultimately have "\<not> token_busy (fst (mptcp_key_sha1 (te_sha e) (mptcp_receiver_key mopt))) s"
      using busy_same [OF set_req_same [OF assms(5)]] by blast
    moreover have "?t = fst (mptcp_key_sha1 (te_sha e) (mptcp_receiver_key mopt))"
      by (simp add: s1_def mptcp_cookies_reqsk_init_def Let_def)
    ultimately show ?thesis using busy_same [OF same \<open>tables_wf e s\<close>] by simp
  qed
  define s2 where "s2 = set_sock child (\<lambda>k. k\<lparr>tk_loc_key := rs_loc_key (tk_req s1 r), mptcp_loc_token := ?t\<rparr>) s1"
  have same2: "same_tables s1 s2" unfolding s2_def using assms(2) by (intro set_sock_same) (simp_all add: socks)
  have inv2: "tk_inv e s2" by (rule same_tables_inv [OF same2 inv1])
  have child: "\<not> inside_tk_table (tk_sock s2 child)" "mptcp_loc_token (tk_sock s2 child) = ?t" "\<not> inside_tk_table (tk_sock s2 master)"
    using assms(2,3,4) by (simp_all add: s2_def socks)
  have inv3: "tk_inv e (alloc_hash child master s2)" if rq: "mptcp_rqsk (tk_req s1 r)"
  proof -
    have "\<not> token_busy ?t s2" using free [OF rq] busy_same [OF same2, of e] inv1 by (simp add: tk_inv_def)
    then have "tk_inv e (mptcp_hash_insert child (mptcp_loc_token (tk_sock s2 child)) s2)"
      using child by (intro hash_insert_inv [OF inv2]) simp_all
    then have "tk_inv e (set_sock master (\<lambda>k. k\<lparr>inside_tk_table := False\<rparr>) (mptcp_hash_insert child (mptcp_loc_token (tk_sock s2 child)) s2))"
      by (rule same_tables_inv [OF set_sock_same, rotated 2])
        (use child(3) assms(4) in \<open>simp_all add: mptcp_hash_insert_def\<close>)
    then show ?thesis using child(1) by (simp add: alloc_hash_def Let_def)
  qed
  have "snd (check_req_master fin how child master r s1) \<in> {s1, unlink_req r s1, s2} \<or>
      mptcp_rqsk (tk_req s1 r) \<and> snd (check_req_master fin how child master r s1) = unlink_req r (alloc_hash child master s2)"
    using assms(7) by (auto simp: check_req_master_def create_master_def s2_def mptcp_reqsk_remove_tk_def Let_def split: created.splits)
  then show ?thesis using inv1 inv2 inv3 unlink_req_inv by (auto simp: s1_def [symmetric])
qed

inductive tk_step :: "token_env \<Rightarrow> token_state \<Rightarrow> token_state \<Rightarrow> bool" for e where
  New_Request: "\<not> linked r s \<Longrightarrow> mptcp_v4_init_req e r sk skb options p False s = Some s' \<Longrightarrow> tk_step e s s'"
| Cookie_Request: "\<not> linked r s \<Longrightarrow> \<not> is_sub (tk_req s r) \<Longrightarrow> mptcp_v4_cookie_init_seq e isn r sk skb options p s = Some (i, s') \<Longrightarrow>
    tk_step e s s'"
| Join_Request: "\<not> linked r s \<Longrightarrow> is_sub (f (tk_req s r)) \<Longrightarrow> tk_step e s (mptcp_v4_reqsk_queue_hash_add e r (set_req r f s))"
| Drop_Request: "tk_step e s (mptcp_reqsk_destructor r s)"
| Connect: "\<not> inside_tk_table (tk_sock s sk) \<Longrightarrow> mptcp_connect_init e sk s = Some s' \<Longrightarrow> tk_step e s s'"
| Accept: "child \<noteq> master \<Longrightarrow> \<not> inside_tk_table (tk_sock s child) \<Longrightarrow> \<not> inside_tk_table (tk_sock s master) \<Longrightarrow>
    pending s r \<Longrightarrow> how \<noteq> Add_Failed \<Longrightarrow> tk_step e s (snd (check_req_master fin how child master r s))"
| Accept_Cookie: "child \<noteq> master \<Longrightarrow> \<not> inside_tk_table (tk_sock s child) \<Longrightarrow> \<not> inside_tk_table (tk_sock s master) \<Longrightarrow>
    \<not> linked r s \<Longrightarrow> \<not> mptcp_rqsk (tk_req s r) \<Longrightarrow> how \<noteq> Add_Failed \<Longrightarrow>
    tk_step e s (snd (check_req_master fin how child master r (mptcp_cookies_reqsk_init e r mopt s)))"
| Remove: "tk_step e s (mptcp_hash_remove sk s)"
| Look_Up: "tk_step e s (snd (mptcp_hash_find n t s))"
| Search: "tk_step e s (snd (mptcp_v4_search_req e rport raddr laddr n s))"

text \<open>The operations of IPv6 are those of IPv4 over its addresses.\<close>

lemma v6_same:
  "mptcp_v6_init_req = mptcp_v4_init_req" "mptcp_v6_cookie_init_seq = mptcp_v4_cookie_init_seq"
  "mptcp_v6_reqsk_queue_hash_add = mptcp_v4_reqsk_queue_hash_add"
  by (intro ext; simp add: mptcp_v6_init_req_def mptcp_v4_init_req_def mptcp_v6_cookie_init_seq_def mptcp_v4_cookie_init_seq_def
      mptcp_v6_reqsk_queue_hash_add_def mptcp_v4_reqsk_queue_hash_add_def)+

lemma hold_same: "same_tables s (hold k s)"
  by (simp add: hold_def set_sock_same)

lemma new_request_inv:
  assumes "\<not> linked r s" and "mptcp_v4_init_req e r sk skb options p False s = Some s'" and "tk_inv e s"
  shows "tk_inv e s'"
proof -
  have "mptcp_reqsk_init e r sk skb options p False (init_request r s) = Some s'"
    using assms(2) by (simp add: mptcp_v4_init_req_def)
  moreover have same: "same_tables s (init_request r s)" using assms(1) by (simp add: init_request_def set_req_same)
  moreover have "\<not> linked r (init_request r s)" using assms(1) linked_same [OF same] by simp
  moreover have "\<not> is_sub (tk_req (init_request r s) r)" by (simp add: init_request_def)
  ultimately show ?thesis using reqsk_init_inv same_tables_inv [OF same assms(3)] by blast
qed

lemma cookie_request_inv:
  assumes "\<not> linked r s" and "\<not> is_sub (tk_req s r)" and "mptcp_v4_cookie_init_seq e isn r sk skb options p s = Some (i, s')"
    and "tk_inv e s"
  shows "tk_inv e s'"
proof -
  let ?s = "set_req r (\<lambda>q. q\<lparr>rq_snt_isn := isn\<rparr>) s"
  have "mptcp_reqsk_init e r sk skb options p True ?s = Some s'"
    using assms(3) by (auto simp: mptcp_v4_cookie_init_seq_def)
  moreover have same: "same_tables s ?s" using assms(1) by (simp add: set_req_same)
  moreover have "\<not> linked r ?s" using assms(1) linked_same [OF same] by simp
  moreover have "\<not> is_sub (tk_req ?s r)" using assms(2) by simp
  ultimately show ?thesis using reqsk_init_inv same_tables_inv [OF same assms(4)] by blast
qed

lemma join_request_inv:
  assumes "\<not> linked r s" and "is_sub (f (tk_req s r))" and "tk_inv e s"
  shows "tk_inv e (mptcp_v4_reqsk_queue_hash_add e r (set_req r f s))"
proof -
  have same: "same_tables s (set_req r f s)" using assms(1) by (simp add: set_req_same)
  show ?thesis
  proof (rule join_add_inv [OF same_tables_inv [OF same assms(3)]])
    show "\<not> linked r (set_req r f s)" using assms(1) linked_same [OF same] by simp
    show "is_sub (tk_req (set_req r f s) r)" using assms(2) by simp
  qed
qed

lemma lookup_inv:
  assumes "tk_inv e s"
  shows "tk_inv e (snd (mptcp_hash_find n t s))" "tk_inv e (snd (mptcp_v4_search_req e rport raddr laddr n s))"
  using assms same_tables_inv [OF hold_same assms]
  by (simp_all add: mptcp_hash_find_def mptcp_v4_search_req_def search_result_def Let_def split: option.split)

lemma step_inv: "tk_step e s s' \<Longrightarrow> tk_inv e s \<Longrightarrow> tk_inv e s'"
proof (induction rule: tk_step.induct)
  case (Drop_Request s r)
  then show ?case by (simp add: mptcp_reqsk_destructor_def mptcp_reqsk_remove_tk_def mptcp_hash_request_remove_def unlink_req_inv)
next
  case (Accept child master s r how fin)
  show ?case by (rule check_req_pending_inv) (use Accept in simp_all)
next
  case (Accept_Cookie child master s r how fin mopt)
  show ?case by (rule check_req_cookie_inv) (use Accept_Cookie in simp_all)
qed (blast intro: new_request_inv cookie_request_inv join_request_inv connect_inv hash_remove_inv lookup_inv)+

definition no_tokens :: "token_state \<Rightarrow> bool" where
  "no_tokens s \<longleftrightarrow> (\<forall>h. tk_hashtable s h = [] \<and> mptcp_reqsk_tk_htb s h = [] \<and> mptcp_reqsk_htb s h = []) \<and>
     (\<forall>k. \<not> inside_tk_table (tk_sock s k))"

lemma no_tokens_inv: "no_tokens s \<Longrightarrow> tk_inv e s"
  by (auto simp: no_tokens_def tk_inv_def wf_defs tokens_unique_def pending_def elim!: holds.elims)

lemma run_inv: "(tk_step e)\<^sup>*\<^sup>* s s' \<Longrightarrow> tk_inv e s \<Longrightarrow> tk_inv e s'"
  by (induction rule: rtranclp_induct) (auto intro: step_inv)

lemma find_walk_one:
  assumes "\<And>k k'. k \<in> set ks \<Longrightarrow> k' \<in> set ks \<Longrightarrow> mptcp_loc_token (t k) = token \<Longrightarrow> mptcp_loc_token (t k') = token \<Longrightarrow> k = k'"
  shows "find_walk t n token ks = Some k \<longleftrightarrow>
    k \<in> set ks \<and> mptcp_loc_token (t k) = token \<and> sock_net (t k) = n \<and> sk_refcnt (t k) \<noteq> 0"
  using assms
proof (induction ks)
  case (Cons a ks)
  have IH: "find_walk t n token ks = Some k \<longleftrightarrow>
    k \<in> set ks \<and> mptcp_loc_token (t k) = token \<and> sock_net (t k) = n \<and> sk_refcnt (t k) \<noteq> 0"
    using Cons.prems by (intro Cons.IH) auto
  show ?case
  proof (cases "mptcp_loc_token (t a) = token")
    case True
    have "k = a" if "k \<in> set (a # ks)" "mptcp_loc_token (t k) = token" using Cons.prems [of k a] that True by simp
    then show ?thesis using True IH by (cases "k = a") auto
  next
    case False
    then show ?thesis using IH by auto
  qed
qed simp

lemma hash_find_exact:
  assumes "tk_inv e s"
  shows "fst (mptcp_hash_find n t s) = Some k \<longleftrightarrow>
    inside_tk_table (tk_sock s k) \<and> mptcp_loc_token (tk_sock s k) = t \<and> sock_net (tk_sock s k) = n \<and> sk_refcnt (tk_sock s k) \<noteq> 0"
proof -
  have mem: "k \<in> set (tk_hashtable s h) \<longleftrightarrow> inside_tk_table (tk_sock s k) \<and> mptcp_hash_tk (mptcp_loc_token (tk_sock s k)) = h" for h k
    using assms by (simp add: tk_inv_def tables_wf_def sock_table_wf_def)
  have uniq: "x = y" if "holds s x t" "holds s y t" for x y
    using that assms by (auto simp: tk_inv_def tokens_unique_def)
  have "find_walk (tk_sock s) n t (tk_hashtable s (mptcp_hash_tk t)) = Some k \<longleftrightarrow>
      k \<in> set (tk_hashtable s (mptcp_hash_tk t)) \<and> mptcp_loc_token (tk_sock s k) = t \<and> sock_net (tk_sock s k) = n \<and> sk_refcnt (tk_sock s k) \<noteq> 0"
    by (rule find_walk_one) (use uniq [of "Inl a" "Inl b" for a b] in \<open>auto simp: mem\<close>)
  then show ?thesis by (auto simp: mptcp_hash_find_def mem split: option.split)
qed

text \<open>C18. On every run of connections that open, requests that come and are accepted, dropped or answered by
  cookies, and connections that are removed, from empty tables: every bucket lists each of its
  members once and only under the hash of its token or of its address and port, the connections of the
  token table are exactly those that are marked as inside, and a request for a join is never among
  the requests for a connection.\<close>

theorem hash_tables_well_formed:
  assumes "no_tokens s0" and "(tk_step e)\<^sup>*\<^sup>* s0 s"
  shows "tables_wf e s"
  using run_inv [OF assms(2) no_tokens_inv [OF assms(1)]] by (simp add: tk_inv_def)

text \<open>C19. On every such run no token belongs to two connections, to two requests or to a connection and a
  request; so a join with a token finds the one connection in its network name space with this token
  that is alive, and nothing when there is none.\<close>

theorem mptcp_hash_find_finds_the_connection:
  assumes "no_tokens s0" and "(tk_step e)\<^sup>*\<^sup>* s0 s"
  shows "(\<forall>x y t. holds s x t \<and> holds s y t \<longrightarrow> x = y) \<and>
    (\<forall>k. fst (mptcp_hash_find n t s) = Some k \<longleftrightarrow> inside_tk_table (tk_sock s k) \<and> mptcp_loc_token (tk_sock s k) = t \<and>
       sock_net (tk_sock s k) = n \<and> sk_refcnt (tk_sock s k) \<noteq> 0)"
proof -
  have "tk_inv e s" using run_inv [OF assms(2) no_tokens_inv [OF assms(1)]] .
  then show ?thesis using hash_find_exact [of e s n t] by (auto simp: tk_inv_def tokens_unique_def)
qed

text \<open>A request of a cookie holds no token.  Between its check and the insertion of the connection another
  connection can take the token, and then two connections have it.\<close>

lemma cookie_token_not_reserved:
  assumes "tk_inv e s" and "\<not> linked r s"
  shows "\<not> holds (mptcp_cookies_reqsk_init e r mopt s) (Inr r) t"
  using assms(2) by (auto simp: pending_def linked_def mptcp_cookies_reqsk_init_def Let_def)

lemma cookie_race:
  assumes "mptcp_rqsk (tk_req s r)" and "rq_saw_mpc (tk_req s r)" and "inside_tk_table (tk_sock s k)"
    and "mptcp_loc_token (tk_sock s k) = rq_loc_token (tk_req s r)"
    and "\<not> inside_tk_table (tk_sock s child)" and "k \<noteq> master" and "child \<noteq> master"
  shows "\<not> tokens_unique (snd (check_req_master fin Created child master r s))"
proof -
  let ?s = "snd (check_req_master fin Created child master r s)"
  have "child \<noteq> k" using assms(3,5) by auto
  then have "holds ?s (Inl child) (rq_loc_token (tk_req s r))" "holds ?s (Inl k) (rq_loc_token (tk_req s r))"
    using assms by (auto simp: check_req_master_def create_master_def alloc_hash_def Let_def mptcp_hash_insert_def mptcp_reqsk_remove_tk_def unlink_req_def)
  then show ?thesis using \<open>child \<noteq> k\<close> unfolding tokens_unique_def by blast
qed

text \<open>The request of a join is found by its addresses, port and name space, as long as its connection is alive.\<close>

lemma mptcp_v4_search_req_finds:
  assumes "tk_inv e s"
  shows "(\<exists>r h. r \<in> set (mptcp_reqsk_htb s h) \<and> req_matches s rport (IP4 raddr) (IP4 laddr) n r) \<longleftrightarrow>
      find (req_matches s rport (IP4 raddr) (IP4 laddr) n) (mptcp_reqsk_htb s (inet_synq_hash e (IP4 raddr) rport)) \<noteq> None"
    and "fst (mptcp_v4_search_req e rport raddr laddr n s) = Some k \<Longrightarrow>
      sk_refcnt (tk_sock s k) \<noteq> 0 \<and> sock_net (tk_sock s k) = n \<and>
      (\<exists>r h. r \<in> set (mptcp_reqsk_htb s h) \<and> rq_meta (tk_req s r) = k \<and> req_matches s rport (IP4 raddr) (IP4 laddr) n r)"
proof -
  have "r \<in> set (mptcp_reqsk_htb s h) \<Longrightarrow> inet_synq_hash e (ir_rmt_addr (tk_req s r)) (ir_rmt_port (tk_req s r)) = h" for r h
    using assms by (simp add: tk_inv_def tables_wf_def join_table_wf_def)
  then show "(\<exists>r h. r \<in> set (mptcp_reqsk_htb s h) \<and> req_matches s rport (IP4 raddr) (IP4 laddr) n r) \<longleftrightarrow>
      find (req_matches s rport (IP4 raddr) (IP4 laddr) n) (mptcp_reqsk_htb s (inet_synq_hash e (IP4 raddr) rport)) \<noteq> None"
    by (auto simp: find_None_iff req_matches_def) metis
  show "fst (mptcp_v4_search_req e rport raddr laddr n s) = Some k \<Longrightarrow>
      sk_refcnt (tk_sock s k) \<noteq> 0 \<and> sock_net (tk_sock s k) = n \<and>
      (\<exists>r h. r \<in> set (mptcp_reqsk_htb s h) \<and> rq_meta (tk_req s r) = k \<and> req_matches s rport (IP4 raddr) (IP4 laddr) n r)"
    by (auto simp: mptcp_v4_search_req_def search_result_def Let_def find_Some_iff req_matches_def split: option.splits if_splits)
      (metis nth_mem)
qed

section \<open>Both ends count from the same numbers\<close>

lemma seq64_parts: "seq64 (ucast (drop_bit 32 (x::u64))) (ucast x) = x"
  by (rule bit_word_eqI) (auto simp: seq64_def bit_simps)

lemma alloc_numbers_parts:
  assumes "alloc_numbers sha k1 k2 w tp = (m, tp')"
  shows "snd_nxt_64 m (tcp_sock.truncate tp') = first_seq sha k1" "mptcp_get_rcv_nxt_64 m (tcp_sock.truncate tp') = first_seq sha k2"
    "snd_high_inv m" "rcv_high_inv m" "write_seq tp' = snd_nxt tp'" "snd_una tp' = snd_nxt tp'" "meta_copied tp' = rcv_nxt tp'"
  using assms
  by (auto simp: alloc_numbers_def Let_def snd_nxt_64_def mptcp_get_rcv_nxt_64_def mptcp_get_data_seq_64_def cleared_mpcb_def
      snd_high_inv_def rcv_high_inv_def tcp_sock.defs seq64_parts)

text \<open>C20. When the two ends of a connection have each other's key, the 64-bit number of the first byte that
  one end sends is the number that the other end expects, in both directions; and each end starts with
  the relations between its pairs of high-order words that the wrap checks keep.\<close>

theorem first_numbers_agree:
  "case alloc_numbers sha key_a key_b win_a tp_a of (ma, ta) \<Rightarrow> case alloc_numbers sha key_b key_a win_b tp_b of (mb, tb) \<Rightarrow>
     snd_nxt_64 ma (tcp_sock.truncate ta) = mptcp_get_rcv_nxt_64 mb (tcp_sock.truncate tb) \<and>
     snd_nxt_64 mb (tcp_sock.truncate tb) = mptcp_get_rcv_nxt_64 ma (tcp_sock.truncate ta) \<and>
     snd_high_inv ma \<and> rcv_high_inv ma \<and> snd_high_inv mb \<and> rcv_high_inv mb"
  by (auto simp: alloc_numbers_parts split: prod.split)

section \<open>Closed instances\<close>

definition sample_env :: token_env where
  "sample_env = \<lparr>md5_transform = (\<lambda>h s. map2 (+) h s @ [0, 0, 0, 0]), mptcp_secret = [3, 5, 7, 11], te_sha = sample_sha,
     inet_synq_hash = (\<lambda>a p. ucast p mod 1024), te_checksum = False\<rparr>"

definition sample_tokens :: token_state where
  "sample_tokens = \<lparr>tk_hashtable = (\<lambda>_. []), mptcp_reqsk_tk_htb = (\<lambda>_. []), mptcp_reqsk_htb = (\<lambda>_. []),
     tk_sock = (\<lambda>_. \<lparr>tk_loc_key = 0, mptcp_loc_token = 0, inside_tk_table = False, tk_ver = 0, sock_net = 1, sk_refcnt = 1,
        sk_flow = Flow4 1 2, inet_sport = 80, inet_dport = 1024\<rparr>),
     tk_req = (\<lambda>_. undefined), mptcp_seed = 0\<rparr>"

lemma sample_no_tokens: "no_tokens sample_tokens"
  by (simp add: no_tokens_def sample_tokens_def)

lemma sample_outside: "\<not> inside_tk_table (tk_sock sample_tokens 4)"
  by (simp add: sample_tokens_def)

lemma sample_free: "\<not> token_busy t sample_tokens"
  by (simp add: token_busy_def mptcp_reqsk_find_tk_def mptcp_find_token_def sample_tokens_def)

theorem mptcp_connect_init_terminates_witness:
  "\<exists>s'. mptcp_connect_init sample_env 4 sample_tokens = Some s'"
  using mptcp_connect_init_terminates [OF no_tokens_inv [OF sample_no_tokens, of sample_env] sample_outside] sample_free by blast

lemma sample_connect: "\<exists>s'. mptcp_connect_init sample_env 4 sample_tokens = Some s' \<and> (tk_step sample_env)\<^sup>*\<^sup>* sample_tokens s'"
  using connect_returns [OF no_tokens_inv [OF sample_no_tokens, of sample_env] sample_outside] sample_free
    Connect [OF sample_outside] by blast

theorem hash_tables_well_formed_witness:
  "\<exists>s'. mptcp_connect_init sample_env 4 sample_tokens = Some s' \<and> tables_wf sample_env s'"
  using sample_connect hash_tables_well_formed [OF sample_no_tokens] by blast

theorem mptcp_hash_find_finds_the_connection_witness:
  "\<exists>s'. mptcp_connect_init sample_env 4 sample_tokens = Some s' \<and>
     fst (mptcp_hash_find 1 (mptcp_loc_token (tk_sock s' 4)) s') = Some 4"
proof -
  obtain s' where s': "mptcp_connect_init sample_env 4 sample_tokens = Some s'" "(tk_step sample_env)\<^sup>*\<^sup>* sample_tokens s'"
    using sample_connect by blast
  obtain n where "s' = mptcp_hash_insert 4 (mptcp_loc_token (tk_sock ((mptcp_set_key_sk sample_env 4 ^^ Suc n) sample_tokens) 4))
      ((mptcp_set_key_sk sample_env 4 ^^ Suc n) sample_tokens)"
    using s'(1) until_free_Some unfolding mptcp_connect_init_def by fastforce
  moreover have "sock_net (tk_sock ((mptcp_set_key_sk sample_env 4 ^^ m) sample_tokens) 4) = 1 \<and>
      sk_refcnt (tk_sock ((mptcp_set_key_sk sample_env 4 ^^ m) sample_tokens) 4) = 1" for m
    by (induction m) (simp_all add: sample_tokens_def mptcp_set_key_sk_def Let_def)
  ultimately have "inside_tk_table (tk_sock s' 4) \<and> sock_net (tk_sock s' 4) = 1 \<and> sk_refcnt (tk_sock s' 4) \<noteq> 0"
    by (simp add: mptcp_hash_insert_def del: funpow.simps)
  then show ?thesis using s'(1) mptcp_hash_find_finds_the_connection [OF sample_no_tokens s'(2)] by blast
qed

end
