(* ===== verification/Red_Frame.thy ===== *)
theory Red_Frame
  imports Red_Send
begin

text \<open>
  What sending a segment with rMPTCP leaves alone: the numbers of the segment, the sockets that are neither in
  the register nor among the subflows (the connection itself, above all), and the control block but for the
  start of an infinite mapping.
\<close>

section \<open>The register holds known subflows\<close>

lemma update_bw_sks:
  assumes "reg_inv socks r" and "rmptcp_update_bw sc socks' t c r = Some r'"
  shows "reg_sks r' = reg_sks r"
proof (cases "r' = r")
  case False
  then have r': "sk_list r' = sk_list (bw_subflows socks' (ktime_us_delta t (last_update r)) c r)"
    "sk_list_size r' = sk_list_size r"
    using assms(2) by (auto simp: rmptcp_update_bw_def Let_def split: if_splits)
  have wf: "reg_wf r" using assms(1) by (rule reg_inv_wf)
  then have wf': "reg_wf r'" by (simp add: reg_wf_def r' bw_subflows_def Let_def)
  show ?thesis
    by (rule reg_sks_eqI [OF wf wf' r'(2)])
       (simp add: r'(1) bw_subflows_def Let_def loop_simps reg_wf_size wf)
qed simp

lemma update_main_sks:
  assumes "reg_inv socks r" and "rmptcp_update_main_sk sc socks' r = Some r'"
  shows "reg_sks r' = reg_sks r \<and> reg_inv socks r'"
proof -
  have wf: "reg_wf r" using assms(1) by (rule reg_inv_wf)
  have "r' \<in> {rmptcp_set_all_main r, rmptcp_set_all_uncong_main r,
      rmptcp_set_all_uncong_main (marked sc socks' r), marked sc socks' r}"
    using assms(2) by (auto simp: rmptcp_update_main_sk_def split: if_splits option.splits)
  then have "reg_wf r'" "reg_sks r' = reg_sks r" using wf by (auto simp: reg_wf_set reg_wf_marked)
  then show ?thesis using reg_inv_same_sks [OF assms(1)] by blast
qed

lemma update_sk_list_sks:
  assumes "reg_inv socks r" and "rmptcp_update_sk_list socks conns t skb r = Some r'"
  shows "set (reg_sks r') \<subseteq> set (reg_sks r) \<union> set conns \<and> reg_inv socks r'"
proof (cases "has (reg_state r) REDF_Cong")
  case True
  then show ?thesis using assms by (simp add: rmptcp_update_sk_list_def)
next
  case False
  then obtain r1 where r1: "add_new_sks socks t skb conns r = Some r1" "r' = rmptcp_set_enable_flag r1"
    using assms(2) by (auto simp: rmptcp_update_sk_list_def bind_eq_Some_conv)
  have inv: "reg_inv socks r1" "set (reg_sks r1) = set (reg_sks r) \<union> {sk \<in> set conns. usable_now socks skb sk}"
    using add_new_sks_inv [OF assms(1) r1(1)] by blast+
  have "reg_sks r' = reg_sks r1" using reg_inv_wf [OF inv(1)] by (simp add: r1(2) reg_wf_set)
  moreover have "reg_inv socks r'"
    by (rule reg_inv_same_sks [OF inv(1)]) (use reg_inv_wf [OF inv(1)] in \<open>simp_all add: r1(2) reg_wf_set\<close>)
  ultimately show ?thesis using inv(2) by auto
qed

section \<open>The choice of the subflows\<close>

abbreviation w_conns :: "red_world \<Rightarrow> sk_ptr list" where
  "w_conns w \<equiv> connection_list (o_mpcb (s_out (w_send w)))"

definition red_frame :: "red_world \<Rightarrow> red_world \<Rightarrow> bool" where
  "red_frame w w' \<longleftrightarrow> s_out (w_send w') = s_out (w_send w) \<and> s_skb (w_send w') = s_skb (w_send w) \<and>
     set (reg_sks (w_reg w')) \<subseteq> set (reg_sks (w_reg w)) \<union> set (w_conns w) \<and>
     sane (w_sc w') = sane (w_sc w) \<and> (sysctl_runpathcheck (w_sc w) = 0 \<longrightarrow> sysctl_runpathcheck (w_sc w') = 0)"

lemma red_frame_trans: "red_frame w1 w2 \<Longrightarrow> red_frame w2 w3 \<Longrightarrow> red_frame w1 w3"
  by (auto simp: red_frame_def)

lemma update_sysctl_quiet:
  "rmptcp_update_sysctl sc pI r = (sc', pI', r') \<Longrightarrow> sysctl_runpathcheck sc' = sysctl_runpathcheck sc"
  unfolding rmptcp_update_sysctl_def Let_def by (auto simp: next_path_def Let_def split_beta split: if_splits)

lemma periodic_update_frame:
  assumes inv: "red_inv w" and res: "periodic_update t w = Some w'"
  shows "red_frame w w' \<and> reg_inv (w_socks w) (w_reg w')"
proof (cases "s64 (t - last_update (w_reg w)) > sk_reg_update_period (w_reg w)")
  case False
  then show ?thesis using inv res by (simp add: periodic_update_def red_frame_def red_inv_def)
next
  case True
  obtain sc pI r where upd: "rmptcp_update_sysctl (w_sc w) (w_pI w) (w_reg w) = (sc, pI, r)"
    by (cases "rmptcp_update_sysctl (w_sc w) (w_pI w) (w_reg w)")
  note u = update_sysctl_ok [OF upd]
  have k: "keeps (w_socks w) (w_reg w) r"
    using inv u by (intro keeps_list) (auto simp: red_inv_def)
  have sks: "reg_sks r = reg_sks (w_reg w)" using u by (simp add: reg_sks_def entries_def)
  obtain r1 r2 r3 where r1: "rmptcp_update_sk_list (w_socks w) (w_conns w) t (s_skb (w_send w)) r = Some r1"
    and r2: "rmptcp_update_bw sc (w_socks w) t True r1 = Some r2"
    and r3: "rmptcp_update_main_sk sc (w_socks w) r2 = Some r3"
    and w': "w' = set_reg r3 (w\<lparr>w_sc := sc, w_pI := pI\<rparr>)"
    using res True upd by (auto simp: periodic_update_def bind_eq_Some_conv)
  note s1 = update_sk_list_sks [OF keeps_inv [OF k] r1]
  have i2: "reg_inv (w_socks w) r2" using update_bw_inv [OF conjunct2 [OF s1] r2] .
  have "set (reg_sks r3) \<subseteq> set (reg_sks (w_reg w)) \<union> set (w_conns w)"
    using s1 update_bw_sks [OF conjunct2 [OF s1] r2] update_main_sks [OF i2 r3] sks by auto
  then show ?thesis using u(4) update_sysctl_quiet [OF upd] update_main_sks [OF i2 r3]
    by (simp add: w' red_frame_def set_reg_def)
qed

lemma run_scheduler_frame:
  assumes inv: "red_inv w" and res: "run_scheduler t w = Some w'"
  shows "red_frame w w' \<and> reg_inv (w_socks w) (w_reg w')"
proof -
  obtain w1 where w1: "periodic_update t w = Some w1" using res by (auto simp: run_scheduler_def bind_eq_Some_conv)
  have f1: "red_frame w w1" "reg_inv (w_socks w) (w_reg w1)" using periodic_update_frame [OF inv w1] by blast+
  define r1 where "r1 = (if sysctl_adaptivPath_enable (w_sc w1) \<noteq> 0 then rmptcp_adaptPath (w_socks w1) (w_reg w1) else w_reg w1)"
  have k1: "keeps (w_socks w) (w_reg w1) r1"
    using adaptPath_ok [OF f1(2), of "w_socks w1"] f1(2) by (auto simp: r1_def keeps_def)
  obtain r2 where r2: "(if sysctl_adaptivR_enable (w_sc w1) \<noteq> 0
      then rmptcp_update_main_sk (w_sc w1) (w_socks w1) (rmptcp_adaptR (w_sc w1) t r1) else Some (rmptcp_setQ r1)) = Some r2"
    and w': "w' = set_reg (rmptcp_calc_controlQ (r2\<lparr>cong_flag := 0\<rparr>)) w1"
    using res w1 unfolding r1_def by (auto simp: run_scheduler_def bind_eq_Some_conv Let_def)
  have kR: "keeps (w_socks w) r1 (rmptcp_adaptR (w_sc w1) t r1)" "keeps (w_socks w) r1 (rmptcp_setQ r1)"
    using adaptR_ok setQ_ok keeps_inv [OF k1] by blast+
  have i2: "reg_inv (w_socks w) r2 \<and> set (reg_sks r2) \<subseteq> set (reg_sks r1)"
    using r2 kR update_main_sks [OF keeps_inv [OF kR(1)]] by (auto simp: keeps_def split: if_splits)
  then have kc: "keeps (w_socks w) r2 (rmptcp_calc_controlQ (r2\<lparr>cong_flag := 0\<rparr>))" using calc_controlQ_ok by blast
  then have "set (reg_sks (w_reg w')) \<subseteq> set (reg_sks (w_reg w1))" "reg_inv (w_socks w) (w_reg w')"
    using i2 k1 by (auto simp: w' set_reg_def keeps_def)
  then show ?thesis using f1(1) by (auto simp: w' red_frame_def set_reg_def)
qed

section \<open>The transmission\<close>

definition out_frame :: "sk_ptr set \<Rightarrow> out_state \<Rightarrow> out_state \<Rightarrow> bool" where
  "out_frame P out out' \<longleftrightarrow> (\<forall>p. p \<notin> P \<longrightarrow> o_socks out' p = o_socks out p \<and> o_queue out' p = o_queue out p) \<and>
     (\<exists>b. o_mpcb out' = (o_mpcb out)\<lparr>infinite_mapping_snd := b\<rparr>)"

lemma out_frame_refl [simp]: "out_frame P out out"
  unfolding out_frame_def by (auto intro: exI [of _ "infinite_mapping_snd (o_mpcb out)"])

lemma out_frame_trans: "out_frame P a b \<Longrightarrow> out_frame P b c \<Longrightarrow> out_frame P a c"
  by (auto simp: out_frame_def)

lemma entail_frame:
  assumes "mptcp_skb_entail ops meta sk skb reinject s = (ok, skb', s')" and "sk \<in> P"
  shows "same_data skb' skb \<and> out_frame P s s'"
proof -
  have c: "same_data b' b \<and> out_frame P s s'" if "entail_copy ops meta sk b s = (ok, b', s')" for b b'
    using that assms(2)
    by (auto simp: entail_copy_def Let_def split_beta same_data_def out_frame_def split: if_splits
        intro: exI [of _ "infinite_mapping_snd (o_mpcb s)"])
  show ?thesis using c assms(1) unfolding mptcp_skb_entail_def by (auto simp: same_data_def split: if_splits)
qed

lemma same_data_trans: "same_data a b \<Longrightarrow> same_data b c \<Longrightarrow> same_data a c"
  by (simp add: same_data_def)

lemma send_loop_frame:
  assumes "send_loop ops meta reinject mss t is s = (ok, s')"
    and "\<forall>i\<in>set is. rs_sk (sk_list (s_reg s) ! i) \<in> P" and "set is \<subseteq> {..<length (sk_list (s_reg s))}"
  shows "same_data (s_skb s') (s_skb s) \<and> out_frame P (s_out s) (s_out s')"
  using assms
proof (induction "is" arbitrary: s)
  case Nil
  then show ?case by (simp add: same_data_def)
next
  case (Cons i "is")
  let ?e = "sk_list (s_reg s) ! i"
  let ?r = "(s_reg s)\<lparr>sk_list := (sk_list (s_reg s))[i := count_entry t (skb_len (s_skb s)) ?e]\<rparr>"
  have sk: "rs_sk (sk_list ?r ! j) = rs_sk (sk_list (s_reg s) ! j)" if "j < length (sk_list (s_reg s))" for j
    using that by (cases "j = i") (simp_all add: count_entry_def)
  have P: "\<forall>j\<in>set is. rs_sk (sk_list ?r ! j) \<in> P" "set is \<subseteq> {..<length (sk_list ?r)}"
    using Cons.prems(2,3) sk by (auto simp: subset_iff)
  show ?case
  proof (cases "has (rs_state ?e) REDF_SK_Available")
    case False
    then show ?thesis using Cons.prems by (intro Cons.IH) auto
  next
    case True
    obtain ok1 skb1 out1 where ent: "mptcp_skb_entail ops meta (rs_sk ?e) (s_skb s) reinject (s_out s) = (ok1, skb1, out1)"
      by (cases "mptcp_skb_entail ops meta (rs_sk ?e) (s_skb s) reinject (s_out s)")
    have f: "same_data skb1 (s_skb s)" "out_frame P (s_out s) out1"
      using entail_frame [OF ent, of P] Cons.prems(2) by auto
    show ?thesis
    proof (cases ok1)
      case False
      then show ?thesis using Cons.prems(1) True ent f by auto
    next
      case ok: True
      let ?s1 = "\<lparr>s_reg = ?r, s_skb = skb1, s_out = push_frames ops mss (rs_sk ?e) out1\<rparr>"
      have "send_loop ops meta reinject mss t is ?s1 = (ok, s')"
        using Cons.prems(1) True ent ok by (simp add: Let_def)
      from Cons.IH [OF this] P have IH: "same_data (s_skb s') skb1" "out_frame P (push_frames ops mss (rs_sk ?e) out1) (s_out s')"
        by simp_all
      have "out_frame P out1 (push_frames ops mss (rs_sk ?e) out1)"
        using Cons.prems(2) by (auto simp: push_frames_def out_frame_def intro: exI [of _ "infinite_mapping_snd (o_mpcb out1)"])
      then show ?thesis using IH f same_data_trans out_frame_trans by blast
    qed
  qed
qed

lemma nth_reg_in: "reg_wf r \<Longrightarrow> i < sk_list_size r \<Longrightarrow> rs_sk (sk_list r ! i) \<in> set (reg_sks r)"
  using nth_mem [of i "reg_sks r"] by (simp add: reg_sks_def entries_def reg_wf_def)

lemma send_segment_frame:
  assumes inv: "red_inv w" and res: "send_segment ops meta reinject mss t w = Some (ok, w')"
  shows "same_data (s_skb (w_send w')) (s_skb (w_send w)) \<and> out_frame (set (reg_sks (w_reg w))) (s_out (w_send w)) (s_out (w_send w')) \<and>
    set (reg_sks (w_reg w')) \<subseteq> set (reg_sks (w_reg w)) \<and> w_sc w' = w_sc w"
proof -
  let ?socks = "w_socks w" and ?sc = "w_sc w"
  have reg: "reg_inv ?socks (w_reg w)" using inv by (simp add: red_inv_def)
  obtain go r1 where av: "rmptcp_check_avail_sk ?sc ?socks (s_skb (w_send w)) t (w_reg w) = (go, r1)"
    by (cases "rmptcp_check_avail_sk ?sc ?socks (s_skb (w_send w)) t (w_reg w)")
  have k1: "keeps ?socks (w_reg w) r1" using check_avail_ok [OF reg av] .
  show ?thesis
  proof (cases go)
    case False
    then show ?thesis using res av k1 by (auto simp: send_segment_def set_reg_def same_data_def keeps_def)
  next
    case True
    let ?p = "rmptcp_calc_sendPeriod ?sc t r1"
    have kp: "keeps ?socks r1 ?p" by (rule calc_sendPeriod_ok [OF keeps_inv [OF k1]])
    obtain q where q: "reg_state ?p = phase_flag q"
      using inv k1 kp by (auto simp: red_inv_def keeps_def ctl_def)
    obtain r2 where r2: "rmptcp_check_failure ?sc ?socks t ?p = Some r2"
      using res av True by (auto simp: send_segment_def bind_eq_Some_conv)
    obtain ok0 s' where send0: "rmptcp_send_skb ops meta reinject mss t ((w_send w)\<lparr>s_reg := r2\<lparr>timeout := 0\<rparr>\<rparr>) = (ok0, s')"
      by (cases "rmptcp_send_skb ops meta reinject mss t ((w_send w)\<lparr>s_reg := r2\<lparr>timeout := 0\<rparr>\<rparr>)")
    then have send: "rmptcp_send_skb ops meta reinject mss t ((w_send w)\<lparr>s_reg := r2\<lparr>timeout := 0\<rparr>\<rparr>) = (ok, s')"
      and w': "w' = w\<lparr>w_send := s'\<rparr>"
      using res av True r2 by (simp_all add: send_segment_def Let_def)
    note same = check_failure_ptrs [OF r2 q]
    let ?s = "(w_send w)\<lparr>s_reg := r2\<lparr>timeout := 0\<rparr>\<rparr>"
    let ?is = "[0..<sk_list_size r2]"
    have wf: "reg_wf r2" using ptrs_wf [OF same] keeps_inv [OF kp] reg_inv_wf by blast
    have sub: "set (reg_sks r2) \<subseteq> set (reg_sks (w_reg w))"
      using ptrs_sks [OF same] k1 kp by (auto simp: keeps_def)
    obtain ok1 s1 where loop: "send_loop ops meta reinject mss t ?is ?s = (ok1, s1)"
      by (cases "send_loop ops meta reinject mss t ?is ?s")
    have s1: "s_skb s' = s_skb s1" "s_out s' = s_out s1" "sk_list (s_reg s') = sk_list (s_reg s1)"
      "sk_list_size (s_reg s') = sk_list_size (s_reg s1)"
      using send loop by (auto simp: rmptcp_send_skb_def split: if_splits)
    have len: "set ?is \<subseteq> {..<length (sk_list (s_reg ?s))}" using wf by (auto simp: reg_wf_def)
    have "same_data (s_skb s1) (s_skb ?s) \<and> out_frame (set (reg_sks (w_reg w))) (s_out ?s) (s_out s1)"
      using sub nth_reg_in [OF wf] by (intro send_loop_frame [OF loop _ len]) auto
    moreover obtain xs where xs: "s_reg s1 = (s_reg ?s)\<lparr>sk_list := xs\<rparr>" "length xs = length (sk_list (s_reg ?s))"
      "\<forall>i < length xs. rs_sk (xs ! i) = rs_sk (sk_list (s_reg ?s) ! i)"
      using send_loop_reg [OF loop len] by blast
    have "map rs_sk xs = map rs_sk (sk_list r2)"
      using xs by (intro nth_equalityI) auto
    then have "reg_sks (s_reg s') = reg_sks r2"
      using s1 xs(1) by (simp add: reg_sks_def entries_def flip: take_map)
    ultimately show ?thesis using sub s1 by (simp add: w')
  qed
qed

text \<open>Outside the path check.\<close>

lemma rmptcp_send_frame:
  assumes inv: "red_inv w" and quiet: "sysctl_runpathcheck (w_sc w) = 0" and sane: "sane (w_sc w)"
    and few: "card (set (reg_sks (w_reg w)) \<union> set (w_conns w)) \<le> MAX_NUM_RED_SK"
    and res: "rmptcp_send_next_segment ops meta reinject mss t w = Some (ok, w')"
  shows "same_data (s_skb (w_send w')) (s_skb (w_send w)) \<and>
    out_frame (set (reg_sks (w_reg w)) \<union> set (w_conns w)) (s_out (w_send w)) (s_out (w_send w')) \<and>
    set (reg_sks (w_reg w')) \<subseteq> set (reg_sks (w_reg w)) \<union> set (w_conns w) \<and>
    sane (w_sc w') = sane (w_sc w) \<and> sysctl_runpathcheck (w_sc w') = 0"
proof -
  let ?w = "check_meta meta w"
  have w: "red_inv ?w" by (rule check_meta_inv [OF inv])
  have fm: "red_frame w ?w" "sysctl_runpathcheck (w_sc ?w) = 0"
    using quiet by (auto simp: check_meta_def rmptcp_reset_meta_def set_reg_def sane_def red_frame_def reg_sks_def entries_def)
  obtain w2 where w2: "run_scheduler t ?w = Some w2" and send: "send_segment ops meta reinject mss t w2 = Some (ok, w')"
    using res fm(2) by (auto simp: rmptcp_send_next_segment_def bind_eq_Some_conv Let_def)
  have f2: "red_frame w w2" using red_frame_trans [OF fm(1)] run_scheduler_frame [OF w w2] by blast
  have "set (reg_sks (w_reg ?w)) \<subseteq> set (reg_sks (w_reg w)) \<union> set (w_conns w)" using fm(1) by (simp add: red_frame_def)
  then have "card (set (reg_sks (w_reg ?w)) \<union> set (w_conns ?w)) \<le> MAX_NUM_RED_SK"
    using fm(1) by (intro order_trans [OF card_mono few]) (auto simp: red_frame_def)
  then have "red_inv w2" using run_scheduler_ok [OF w, of t] fm(1) sane w2 by (auto simp: red_frame_def)
  from send_segment_frame [OF this send] show ?thesis using f2 quiet
    by (auto simp: red_frame_def out_frame_def subset_iff)
qed

end
