(* ===== verification/Mss.thy ===== *)
theory Mss
  imports Mpcb
begin

text \<open>
  Sizes (\<open>net/mptcp/mptcp_output.c\<close>): the window that is announced, the segment size that gives the
  highest rate over all subflows, and the sizes of segments and of the send buffer.

  What the kernel computes about a socket (\<open>tcp_space\<close>, \<open>tcp_full_space\<close>, \<open>tcp_xmit_size_goal\<close>,
  \<open>tcp_select_window\<close>, ...) is an input.  A C int is of type \<open>int\<close>; \<open>None\<close> is a division by zero.
\<close>

section \<open>The announced window\<close>

record win_state =
  rcv_mss :: u16
  quick :: u8
  rcv_wscale :: nat
  sub_rcv_wnd :: u32
  window_clamp :: u32
  meta_rcv_nxt :: u32
  meta_copied_to :: u32
  rcv_ssthresh :: u32
  advmss :: u16
  meta_rcv_wnd :: u32
  meta_wup :: u32

definition scaled_window :: "int \<Rightarrow> nat \<Rightarrow> int" where
  "scaled_window free_space wscale =
     (if push_bit wscale (drop_bit wscale free_space) \<noteq> free_space
      then push_bit wscale (drop_bit wscale free_space + 1) else free_space)"

definition unscaled_window :: "int \<Rightarrow> int \<Rightarrow> int \<Rightarrow> int \<Rightarrow> int option" where
  "unscaled_window win free_space full_space mss =
     (if win \<le> free_space - mss \<or> win > free_space
      then if mss = 0 then None else Some (free_space sdiv mss * mss)
      else if mss = full_space \<and> free_space > win + drop_bit 1 full_space then Some free_space
      else Some win)"

text \<open>A comparison of a C int with an unsigned number is unsigned.\<close>

definition above_ssthresh :: "int \<Rightarrow> u32 \<Rightarrow> bool" where
  "above_ssthresh free_space ssthresh \<longleftrightarrow> word_of_int free_space > ssthresh"

definition low_space :: "bool \<Rightarrow> int \<Rightarrow> int \<Rightarrow> win_state \<Rightarrow> win_state" where
  "low_space tcp_memory_pressure free_space full_space s =
     (let s1 = (if meta_rcv_nxt s - meta_copied_to s > word_of_int (drop_bit 1 (full_space - free_space))
                then s\<lparr>quick := 0\<rparr> else s)
      in if tcp_memory_pressure then s1\<lparr>rcv_ssthresh := min (rcv_ssthresh s1) (4 * ucast (advmss s1))\<rparr> else s1)"

definition select_window :: "bool \<Rightarrow> int \<Rightarrow> int \<Rightarrow> win_state \<Rightarrow> (int \<times> win_state) option" where
  "select_window tcp_memory_pressure tcp_space tcp_full_space s =
     (let full_space = min (sint (window_clamp s)) tcp_full_space;
          mss = (if uint (rcv_mss s) > full_space then full_space else uint (rcv_mss s));
          low = tcp_space < drop_bit 1 full_space;
          s1 = (if low then low_space tcp_memory_pressure tcp_space full_space s else s)
      in if low \<and> tcp_space < mss then Some (0, s1)
         else
           let free_space = (if above_ssthresh tcp_space (rcv_ssthresh s1) then sint (rcv_ssthresh s1) else tcp_space)
           in map_option (\<lambda>w. (w, s1))
                (if rcv_wscale s1 \<noteq> 0 then Some (scaled_window free_space (rcv_wscale s1))
                 else unscaled_window (sint (meta_rcv_wnd s1)) free_space full_space mss))"

definition mptcp_select_window :: "u16 \<Rightarrow> u32 \<Rightarrow> win_state \<Rightarrow> u16 \<times> win_state" where
  "mptcp_select_window new_win rcv_wnd s =
     (new_win, s\<lparr>sub_rcv_wnd := rcv_wnd, meta_rcv_wnd := rcv_wnd, meta_wup := meta_rcv_nxt s\<rparr>)"

text \<open>The window of a new subflow is the one the connection started with; \<open>rest\<close> is
  \<open>tcp_select_initial_window\<close>.\<close>

definition mptcp_select_initial_window :: "(int \<Rightarrow> int) \<Rightarrow> (int \<Rightarrow> u32 \<Rightarrow> 'a) \<Rightarrow> u32 \<Rightarrow> int \<Rightarrow> 'a" where
  "mptcp_select_initial_window tcp_win_from_space rest orig_window_clamp orig_sk_rcvbuf =
     rest (tcp_win_from_space orig_sk_rcvbuf) orig_window_clamp"

section \<open>The segment size\<close>

definition div64_u64 :: "u64 \<Rightarrow> u64 \<Rightarrow> u64 option" where
  "div64_u64 a b = (if b = 0 then None else Some (a div b))"

definition DIV_ROUND_UP :: "u32 \<Rightarrow> u32 \<Rightarrow> u32 option" where
  "DIV_ROUND_UP n d = (if d = 0 then None else Some ((n + d - 1) div d))"

definition sub_rate :: "u32 \<Rightarrow> u32 \<Rightarrow> tcp_sock \<Rightarrow> u64 option" where
  "sub_rate mss this_mss tp =
     do { parts \<leftarrow> DIV_ROUND_UP mss this_mss;
          div64_u64 (ucast mss * ucast mss * 8000000 * ucast (max (snd_cwnd tp) (packets_out tp)))
            (ucast (srtt_us tp) * ucast parts * ucast this_mss) }"

fun rate_sum :: "(sk_ptr \<Rightarrow> tcp_sock) \<Rightarrow> (tcp_sock \<Rightarrow> u32) \<Rightarrow> u32 \<Rightarrow> sk_ptr list \<Rightarrow> u64 \<Rightarrow> u64 option" where
  "rate_sum socks mss_cb mss [] rate = Some rate"
| "rate_sum socks mss_cb mss (sk # sks) rate =
     (if \<not> mptcp_sk_can_send (socks sk) \<or> srtt_us (socks sk) = 0 then rate_sum socks mss_cb mss sks rate
      else do { this_rate \<leftarrow> sub_rate mss (mss_cb (socks sk)) (socks sk);
                rate_sum socks mss_cb mss sks (rate + this_rate) })"

definition mptcp_calc_rate :: "(sk_ptr \<Rightarrow> tcp_sock) \<Rightarrow> mptcp_cb \<Rightarrow> u32 \<Rightarrow> (tcp_sock \<Rightarrow> u32) \<Rightarrow> u64 option" where
  "mptcp_calc_rate socks mpcb mss mss_cb = rate_sum socks mss_cb mss (connection_list mpcb) 0"

fun best_mss :: "(u32 \<Rightarrow> u64 option) \<Rightarrow> (sk_ptr \<Rightarrow> tcp_sock) \<Rightarrow> (tcp_sock \<Rightarrow> u32) \<Rightarrow> sk_ptr list \<Rightarrow> u32 \<times> u64 \<Rightarrow> (u32 \<times> u64) option" where
  "best_mss rate_of socks mss_cb [] r = Some r"
| "best_mss rate_of socks mss_cb (sk # sks) (mss, rate) =
     (if \<not> mptcp_sk_can_send (socks sk) \<or> mss_cb (socks sk) = mss then best_mss rate_of socks mss_cb sks (mss, rate)
      else do { this_rate \<leftarrow> rate_of (mss_cb (socks sk));
                best_mss rate_of socks mss_cb sks
                  (if this_rate \<ge> rate then (mss_cb (socks sk), this_rate) else (mss, rate)) })"

definition chosen_mss :: "(sk_ptr \<Rightarrow> tcp_sock) \<Rightarrow> mptcp_cb \<Rightarrow> (tcp_sock \<Rightarrow> u32) \<Rightarrow> u32 option" where
  "chosen_mss socks mpcb mss_cb =
     map_option fst (best_mss (\<lambda>mss. mptcp_calc_rate socks mpcb mss mss_cb) socks mss_cb (connection_list mpcb) (0, 0))"

definition mptcp_current_mss :: "(sk_ptr \<Rightarrow> tcp_sock) \<Rightarrow> mptcp_cb \<Rightarrow> tcp_sock \<Rightarrow> u32 option" where
  "mptcp_current_mss socks mpcb meta =
     map_option (\<lambda>mss. if mss = 0 then tcp_current_mss meta else mss) (chosen_mss socks mpcb tcp_current_mss)"

definition mptcp_select_size_mss :: "tcp_sock \<Rightarrow> u32" where
  "mptcp_select_size_mss tp = mss_cache tp"

text \<open>Sizes of the kernel's buffers: \<open>SKB_WITH_OVERHEAD(2048 - MAX_TCP_HEADER)\<close>, \<open>SKB_MAX_HEAD(MAX_TCP_HEADER)\<close> and
  the length of the page fragments.\<close>

record buf_sizes =
  small_head :: u32
  max_head :: u32
  frags_len :: u32

definition mptcp_select_size :: "buf_sizes \<Rightarrow> (sk_ptr \<Rightarrow> tcp_sock) \<Rightarrow> mptcp_cb \<Rightarrow> tcp_sock \<Rightarrow> bool \<Rightarrow> u32 option" where
  "mptcp_select_size z socks mpcb meta sg =
     map_option (\<lambda>mss0.
         let mss = (if sg then if mptcp_sk_can_gso socks mpcb then small_head z
                               else if mss0 \<ge> max_head z \<and> mss0 \<le> max_head z + frags_len z then max_head z else mss0
                    else mss0)
         in if mss = 0 then mss_cache meta else mss)
       (chosen_mss socks mpcb mptcp_select_size_mss)"

definition max_rtt :: "(sk_ptr \<Rightarrow> tcp_sock) \<Rightarrow> sk_ptr list \<Rightarrow> u32 \<Rightarrow> u32" where
  "max_rtt socks sks r = fold (\<lambda>sk m. if mptcp_sk_can_send (socks sk) \<and> m < srtt_us (socks sk) then srtt_us (socks sk) else m) sks r"

definition mptcp_check_snd_buf :: "(sk_ptr \<Rightarrow> tcp_sock) \<Rightarrow> mptcp_cb \<Rightarrow> tcp_sock \<Rightarrow> u32 \<Rightarrow> u32" where
  "mptcp_check_snd_buf socks mpcb tp reordering =
     (if srtt_us tp = 0 then reordering + 1
      else let bw_est = push_bit 16 (ucast (snd_cwnd tp) * ucast (max_rtt socks (connection_list mpcb) (srtt_us tp)) :: u64) div ucast (srtt_us tp)
           in max (ucast (drop_bit 16 bw_est)) (reordering + 1))"

text \<open>\<open>goal\<close> is \<open>tcp_xmit_size_goal\<close> of a subflow.  The comparison with the unsigned maximum is unsigned.\<close>

definition mptcp_xmit_size_goal :: "(tcp_sock \<Rightarrow> u32) \<Rightarrow> (sk_ptr \<Rightarrow> tcp_sock) \<Rightarrow> mptcp_cb \<Rightarrow> u32 \<Rightarrow> bool \<Rightarrow> u32" where
  "mptcp_xmit_size_goal goal socks mpcb mss_now large_allowed =
     max (if large_allowed \<and> mptcp_sk_can_gso socks mpcb
          then fold (\<lambda>sk m. if mptcp_sk_can_send (socks sk) \<and> goal (socks sk) > m then goal (socks sk) else m) (connection_list mpcb) 0
          else 0) mss_now"

section \<open>The window is within the space\<close>

lemma scaled_window_bounds:
  assumes "0 \<le> free_space"
  shows "free_space \<le> scaled_window free_space n \<and> scaled_window free_space n < free_space + 2 ^ n \<and> 2 ^ n dvd scaled_window free_space n"
proof -
  have d: "push_bit n (drop_bit n free_space) = free_space div 2 ^ n * 2 ^ n"
    "push_bit n (drop_bit n free_space + 1) = (free_space div 2 ^ n + 1) * 2 ^ n"
    by (simp_all add: push_bit_eq_mult drop_bit_eq_div)
  have m: "free_space = free_space div 2 ^ n * 2 ^ n + free_space mod 2 ^ n" by (rule div_mult_mod_eq [symmetric])
  have b: "0 \<le> free_space mod 2 ^ n" "free_space mod 2 ^ n < 2 ^ n" by simp_all
  show ?thesis
  proof (cases "free_space mod 2 ^ n = 0")
    case True
    then have "free_space div 2 ^ n * 2 ^ n = free_space" using m by linarith
    then show ?thesis using True unfolding scaled_window_def d by (simp add: mod_eq_0_iff_dvd)
  next
    case False
    then have "free_space div 2 ^ n * 2 ^ n \<noteq> free_space" using m by linarith
    then have w: "scaled_window free_space n = (free_space div 2 ^ n + 1) * 2 ^ n" unfolding scaled_window_def d by simp
    moreover have "(free_space div 2 ^ n + 1) * 2 ^ n = free_space - free_space mod 2 ^ n + 2 ^ n"
      unfolding distrib_right using m by linarith
    ultimately have w: "scaled_window free_space n = free_space - free_space mod 2 ^ n + 2 ^ n" "2 ^ n dvd scaled_window free_space n"
      using w by simp_all
    have "0 < free_space mod 2 ^ n" using False b(1) by linarith
    then show ?thesis using w b(2) by (intro conjI; linarith)
  qed
qed

lemma unscaled_window_value:
  assumes "0 \<le> free_space" and "0 < mss"
  shows "\<exists>w. unscaled_window win free_space full_space mss = Some w \<and>
    w = (if win \<le> free_space - mss \<or> win > free_space then free_space div mss * mss
         else if mss = full_space \<and> free_space > win + full_space div 2 then free_space else win) \<and>
    free_space - mss < w \<and> w \<le> free_space"
proof -
  have "free_space sdiv mss * mss = free_space div mss * mss"
    using assms by (cases "free_space = 0") (simp_all add: signed_divide_int_def)
  moreover have "free_space div mss * mss \<le> free_space" "free_space - mss < free_space div mss * mss"
    using assms minus_mod_eq_div_mult [of free_space mss] pos_mod_sign [of mss free_space] pos_mod_bound [of mss free_space]
    by linarith+
  ultimately show ?thesis using assms by (auto simp: unscaled_window_def drop_bit_eq_div)
qed

lemma sint_small: "uint (t::u32) < 2 ^ 31 \<Longrightarrow> sint t = uint t"
proof -
  assume a: "uint t < 2 ^ 31"
  have "signed_take_bit 31 (uint t) = uint t"
    by (rule signed_take_bit_int_eq_self) (use a uint_ge_0 [of t] in linarith)+
  then show ?thesis by (simp add: sint_uint)
qed

lemma above_ssthresh_int:
  assumes "0 \<le> f" and "f < 2 ^ 31" and "uint (t::u32) < 2 ^ 31"
  shows "above_ssthresh f t \<longleftrightarrow> f > sint t"
proof -
  have "uint (word_of_int f :: u32) = f" using assms by (simp add: uint_word_of_int)
  moreover have "uint t = sint t" using assms(3) by (simp add: sint_small)
  ultimately show ?thesis by (simp add: above_ssthresh_def word_less_def)
qed

lemma low_space_sel [simp]:
  "rcv_wscale (low_space p f full s) = rcv_wscale s" "meta_rcv_wnd (low_space p f full s) = meta_rcv_wnd s"
  by (simp_all add: low_space_def Let_def)

text \<open>C11. The announced window, for a receiver whose buffer and segment size are not empty, with the free space, the threshold and
  the last window below half of the sequence space: the computation never divides by zero.  When less than half of the buffer and less than a segment
  is free, the window is zero.  Otherwise what is announced is the smaller one of the free space and the
  threshold (under memory pressure, with less than half of the buffer free, limited to four segments first): with window scaling it is that number
  rounded up to a multiple of the unit of the scale, which may be above the free space, but by less than one unit; without scaling it is not above it and less than one
  segment below it, the last window where that fits, and else whole segments.\<close>

theorem select_window_bounds:
  assumes "0 < tcp_full_space" and "0 < sint (window_clamp s)" and "rcv_mss s \<noteq> 0" and "0 \<le> space" and "space < 2 ^ 31"
    and "uint (rcv_ssthresh s) < 2 ^ 31" and "0 \<le> sint (meta_rcv_wnd s)"
    and full: "full = min (sint (window_clamp s)) tcp_full_space" and mss: "mss = min (uint (rcv_mss s)) full"
    and thresh: "thresh = (if pressure \<and> space < full div 2 then min (rcv_ssthresh s) (4 * ucast (advmss s)) else rcv_ssthresh s)"
    and free: "free = min space (uint thresh)" and win: "win = sint (meta_rcv_wnd s)"
  shows "\<exists>w s'. select_window pressure space tcp_full_space s = Some (w, s') \<and> rcv_ssthresh s' = thresh \<and>
    (if space < full div 2 \<and> space < mss then w = 0
     else if rcv_wscale s \<noteq> 0 then free \<le> w \<and> w < free + 2 ^ rcv_wscale s \<and> 2 ^ rcv_wscale s dvd w
     else free - mss < w \<and> w \<le> free \<and>
       w = (if win \<le> free - mss \<or> win > free then free div mss * mss
            else if mss = full \<and> free > win + full div 2 then free else win))"
proof -
  have mss': "(if uint (rcv_mss s) > full then full else uint (rcv_mss s)) = mss" by (simp add: mss)
  have pos: "0 < mss" using assms(1-3) uint_pos [of "rcv_mss s"] by (simp add: mss full)
  define low where "low = (space < drop_bit 1 full)"
  have low': "low \<longleftrightarrow> space < full div 2" by (simp add: low_def drop_bit_eq_div)
  define s1 where "s1 = (if low then low_space pressure space full s else s)"
  have s1: "rcv_wscale s1 = rcv_wscale s" "meta_rcv_wnd s1 = meta_rcv_wnd s" "rcv_ssthresh s1 = thresh"
    by (auto simp: s1_def low_space_def Let_def thresh low')
  have "thresh \<le> rcv_ssthresh s" by (simp add: thresh)
  then have small: "uint thresh < 2 ^ 31" using assms(6) by (simp add: word_le_def)
  have free': "(if above_ssthresh space thresh then sint thresh else space) = free"
    using above_ssthresh_int [OF assms(4,5) small] sint_small [OF small] by (simp add: free min_def)
  have free0: "0 \<le> free" using assms(4) by (simp add: free)
  have eq: "select_window pressure space tcp_full_space s =
      (if low \<and> space < mss then Some (0, s1)
       else map_option (\<lambda>w. (w, s1)) (if rcv_wscale s \<noteq> 0 then Some (scaled_window free (rcv_wscale s))
                else unscaled_window win free full mss))"
    unfolding select_window_def Let_def full [symmetric] mss' low_def [symmetric] s1_def [symmetric] s1 free' win [symmetric] ..
  obtain w where w: "unscaled_window win free full mss = Some w" "free - mss < w" "w \<le> free"
    "w = (if win \<le> free - mss \<or> win > free then free div mss * mss
         else if mss = full \<and> free > win + full div 2 then free else win)"
    using unscaled_window_value [OF free0 pos, of win full] by blast
  consider (none) "space < full div 2 \<and> space < mss" | (scaled) "\<not> (space < full div 2 \<and> space < mss)" "rcv_wscale s \<noteq> 0"
    | (plain) "\<not> (space < full div 2 \<and> space < mss)" "rcv_wscale s = 0" by blast
  then show ?thesis
  proof cases
    case scaled
    then show ?thesis using scaled_window_bounds [OF free0, of "rcv_wscale s"] s1(3) unfolding eq low' by auto
  next
    case plain
    have "select_window pressure space tcp_full_space s = Some (w, s1)" using plain w(1) unfolding eq low' by auto
    then show ?thesis using plain w(2-4) s1(3) by (intro exI [of _ w] exI [of _ s1]) auto
  qed (use s1(3) in \<open>simp add: eq low'\<close>)
qed

text \<open>Without any buffer and without scaling the code divides by zero.\<close>

lemma select_window_no_space:
  assumes "tcp_full_space = 0" and "0 \<le> sint (window_clamp s)" and "rcv_wscale s = 0"
  shows "select_window p 0 tcp_full_space s = None"
proof -
  have "0 < uint (rcv_mss s) \<or> uint (rcv_mss s) = 0" using uint_ge_0 [of "rcv_mss s"] by linarith
  then show ?thesis using assms
    by (elim disjE) (auto simp: select_window_def Let_def unscaled_window_def above_ssthresh_def min_def)
qed

section \<open>The segment size is the best one\<close>

lemma best_mss_step:
  assumes "best_mss rate_of socks mss_cb sks (m0, r0) = Some (m, r)"
    and "m0 \<noteq> 0 \<Longrightarrow> rate_of m0 = Some r0"
    and "\<And>sk. sk \<in> set sks \<Longrightarrow> mptcp_sk_can_send (socks sk) \<Longrightarrow> mss_cb (socks sk) \<noteq> 0"
  shows "r0 \<le> r \<and> (m \<noteq> 0 \<longrightarrow> rate_of m = Some r) \<and>
    (\<forall>sk\<in>set sks. \<forall>x. mptcp_sk_can_send (socks sk) \<and> rate_of (mss_cb (socks sk)) = Some x \<longrightarrow> x \<le> r) \<and>
    (m = m0 \<or> (\<exists>sk\<in>set sks. mptcp_sk_can_send (socks sk) \<and> mss_cb (socks sk) = m))"
  using assms
proof (induction sks arbitrary: m0 r0)
  case (Cons sk sks)
  show ?case
  proof (cases "\<not> mptcp_sk_can_send (socks sk) \<or> mss_cb (socks sk) = m0")
    case True
    then have "best_mss rate_of socks mss_cb sks (m0, r0) = Some (m, r)" using Cons.prems(1) by auto
    from Cons.IH [OF this Cons.prems(2)] Cons.prems(3) have IH: "r0 \<le> r" "m \<noteq> 0 \<longrightarrow> rate_of m = Some r"
      "\<forall>sk\<in>set sks. \<forall>x. mptcp_sk_can_send (socks sk) \<and> rate_of (mss_cb (socks sk)) = Some x \<longrightarrow> x \<le> r"
      "m = m0 \<or> (\<exists>sk\<in>set sks. mptcp_sk_can_send (socks sk) \<and> mss_cb (socks sk) = m)" by auto
    have "x \<le> r" if "mptcp_sk_can_send (socks sk)" "rate_of (mss_cb (socks sk)) = Some x" for x
      using that True Cons.prems(2,3) IH(1) by auto
    then show ?thesis using IH by auto
  next
    case False
    then obtain q where q: "rate_of (mss_cb (socks sk)) = Some q"
        "best_mss rate_of socks mss_cb sks (if q \<ge> r0 then (mss_cb (socks sk), q) else (m0, r0)) = Some (m, r)"
      using Cons.prems(1) by (auto simp: bind_eq_Some_conv)
    obtain m1 r1 where 1: "(if q \<ge> r0 then (mss_cb (socks sk), q) else (m0, r0)) = (m1, r1)" by force
    then have m1: "m1 \<noteq> 0 \<Longrightarrow> rate_of m1 = Some r1" "r0 \<le> r1" "q \<le> r1" "m1 = m0 \<or> m1 = mss_cb (socks sk)"
      using q(1) Cons.prems(2) by (auto split: if_splits)
    from Cons.IH [OF q(2) [unfolded 1] m1(1)] Cons.prems(3) have IH: "r1 \<le> r" "m \<noteq> 0 \<longrightarrow> rate_of m = Some r"
      "\<forall>sk\<in>set sks. \<forall>x. mptcp_sk_can_send (socks sk) \<and> rate_of (mss_cb (socks sk)) = Some x \<longrightarrow> x \<le> r"
      "m = m1 \<or> (\<exists>sk\<in>set sks. mptcp_sk_can_send (socks sk) \<and> mss_cb (socks sk) = m)" by auto
    then show ?thesis using m1 q(1) False by auto
  qed
qed simp

lemma best_mss_nonzero:
  assumes "best_mss rate_of socks mss_cb sks (a, b) = Some (m, r)" and "a \<noteq> 0"
    and "\<And>sk. sk \<in> set sks \<Longrightarrow> mptcp_sk_can_send (socks sk) \<Longrightarrow> mss_cb (socks sk) \<noteq> 0"
  shows "m \<noteq> 0"
  using assms
proof (induction sks arbitrary: a b)
  case (Cons sk sks)
  show ?case
  proof (cases "\<not> mptcp_sk_can_send (socks sk) \<or> mss_cb (socks sk) = a")
    case True
    then have "best_mss rate_of socks mss_cb sks (a, b) = Some (m, r)" using Cons.prems(1) by auto
    from Cons.IH [OF this Cons.prems(2)] show ?thesis using Cons.prems(3) by simp
  next
    case False
    then obtain q where q: "best_mss rate_of socks mss_cb sks (if q \<ge> b then (mss_cb (socks sk), q) else (a, b)) = Some (m, r)"
      using Cons.prems(1) by (auto simp: bind_eq_Some_conv)
    moreover have "mss_cb (socks sk) \<noteq> 0" using Cons.prems(3) False by simp
    ultimately obtain a' b' where "best_mss rate_of socks mss_cb sks (a', b') = Some (m, r)" "a' \<noteq> 0"
      using Cons.prems(2) by (cases "q \<ge> b") auto
    from Cons.IH [OF this] show ?thesis using Cons.prems(3) by simp
  qed
qed simp

lemma best_mss_chosen:
  assumes "best_mss rate_of socks mss_cb sks (0, 0) = Some (m, r)" and "\<exists>sk\<in>set sks. mptcp_sk_can_send (socks sk)"
    and "\<And>sk. sk \<in> set sks \<Longrightarrow> mptcp_sk_can_send (socks sk) \<Longrightarrow> mss_cb (socks sk) \<noteq> 0"
  shows "m \<noteq> 0"
  using assms
proof (induction sks)
  case (Cons sk sks)
  show ?case
  proof (cases "mptcp_sk_can_send (socks sk)")
    case False
    then show ?thesis using Cons.prems by (intro Cons.IH) auto
  next
    case True
    then have nz: "mss_cb (socks sk) \<noteq> 0" using Cons.prems(3) by simp
    then obtain q where "best_mss rate_of socks mss_cb sks (mss_cb (socks sk), q) = Some (m, r)"
      using Cons.prems(1) True by (auto simp: bind_eq_Some_conv)
    from best_mss_nonzero [OF this nz] show ?thesis using Cons.prems(3) by simp
  qed
qed simp

text \<open>The segment size of the connection is that of a subflow that can send, if there is one, and no size of another
  such subflow gives a higher rate over all subflows.\<close>

lemma chosen_mss_best:
  assumes "chosen_mss socks mpcb mss_cb = Some m"
    and "\<forall>sk\<in>set (connection_list mpcb). mptcp_sk_can_send (socks sk) \<longrightarrow> mss_cb (socks sk) \<noteq> 0"
  shows "(m = 0 \<longleftrightarrow> \<not> (\<exists>sk\<in>set (connection_list mpcb). mptcp_sk_can_send (socks sk))) \<and>
    (m \<noteq> 0 \<longrightarrow> (\<exists>sk\<in>set (connection_list mpcb). mptcp_sk_can_send (socks sk) \<and> mss_cb (socks sk) = m) \<and>
       (\<exists>r. mptcp_calc_rate socks mpcb m mss_cb = Some r \<and>
          (\<forall>sk\<in>set (connection_list mpcb). \<forall>x. mptcp_sk_can_send (socks sk) \<and>
             mptcp_calc_rate socks mpcb (mss_cb (socks sk)) mss_cb = Some x \<longrightarrow> x \<le> r)))"
proof -
  let ?rate = "\<lambda>mss. mptcp_calc_rate socks mpcb mss mss_cb"
  obtain r where r: "best_mss ?rate socks mss_cb (connection_list mpcb) (0, 0) = Some (m, r)"
    using assms(1) by (auto simp: chosen_mss_def)
  have nz: "sk \<in> set (connection_list mpcb) \<Longrightarrow> mptcp_sk_can_send (socks sk) \<Longrightarrow> mss_cb (socks sk) \<noteq> 0" for sk
    using assms(2) by simp
  note best = best_mss_step [OF r, simplified, OF nz]
  show ?thesis
  proof (intro conjI impI iffI notI)
    assume "m = 0" "\<exists>sk\<in>set (connection_list mpcb). mptcp_sk_can_send (socks sk)"
    with best_mss_chosen [OF r _ nz] show False by simp
  next
    assume none: "\<not> (\<exists>sk\<in>set (connection_list mpcb). mptcp_sk_can_send (socks sk))"
    then show "m = 0" using best by auto
  next
    assume "m \<noteq> 0"
    then show "\<exists>sk\<in>set (connection_list mpcb). mptcp_sk_can_send (socks sk) \<and> mss_cb (socks sk) = m" using best by auto
    show "\<exists>r. mptcp_calc_rate socks mpcb m mss_cb = Some r \<and>
          (\<forall>sk\<in>set (connection_list mpcb). \<forall>x. mptcp_sk_can_send (socks sk) \<and>
             mptcp_calc_rate socks mpcb (mss_cb (socks sk)) mss_cb = Some x \<longrightarrow> x \<le> r)"
      using best \<open>m \<noteq> 0\<close> by auto
  qed
qed

text \<open>With the segments of the loopback device the numerator of the rate does not fit into 64 bits.\<close>

lemma sub_rate_overflows:
  "sub_rate 65483 65483 (sample_sock\<lparr>snd_cwnd := 600, packets_out := 0, srtt_us := 8000\<rparr>) = Some 4076950722"
  "(4076950722::nat) < 65483 * 65483 * 8000000 * 600 div (8000 * 65483)"
  by (simp add: sub_rate_def DIV_ROUND_UP_def div64_u64_def, simp)

section \<open>The send buffer\<close>

text \<open>The estimate of the send buffer counts with the round-trip time of the slowest subflow.\<close>

lemma max_rtt_ge: "r \<le> max_rtt socks sks r"
proof (induction sks arbitrary: r)
  case (Cons sk sks)
  have "r \<le> (if mptcp_sk_can_send (socks sk) \<and> r < srtt_us (socks sk) then srtt_us (socks sk) else r)" by auto
  from order_trans [OF this Cons.IH] show ?case by (simp add: max_rtt_def)
qed (simp add: max_rtt_def)

section \<open>A closed instance\<close>

theorem select_window_bounds_witness:
  "\<exists>w s'. select_window False 3000 8000 \<lparr>rcv_mss = 1460, quick = 1, rcv_wscale = 0, sub_rcv_wnd = 0, window_clamp = 10000,
     meta_rcv_nxt = 0, meta_copied_to = 0, rcv_ssthresh = 5000, advmss = 1460, meta_rcv_wnd = 4000, meta_wup = 0\<rparr> = Some (w, s') \<and> w = 2920"
  using select_window_bounds [where tcp_full_space = 8000 and space = 3000 and pressure = False and
      s = "\<lparr>rcv_mss = 1460, quick = 1, rcv_wscale = 0, sub_rcv_wnd = 0, window_clamp = 10000, meta_rcv_nxt = 0,
        meta_copied_to = 0, rcv_ssthresh = 5000, advmss = 1460, meta_rcv_wnd = 4000, meta_wup = 0\<rparr>",
      OF _ _ _ _ _ _ _ refl refl refl refl refl]
  by auto

end
