(* ===== verification/Meta_Output.thy ===== *)
theory Meta_Output
  imports Red_Frame Subflows Mss
begin

text \<open>
  Sending at the level of the connection (\<open>net/mptcp/mptcp_output.c\<close>): splitting a segment, the loop that
  takes segments from the scheduler and hands them to rMPTCP, window probes, the data-FIN, the reset of a
  connection, retransmission and the timers.

  The write queue of the connection is a list, its first \<open>m_sent\<close> segments are before the send head.
  Functions of the TCP stack and the function pointers of the scheduler are fields of \<open>meta_kernel\<close> (Meta_Sched
  fills the latter with the default scheduler); the scheduler gets the place of a segment, since it may write its path mask.  Calls
  that do not change this state are recorded in \<open>m_calls\<close>.  \<open>rmptcp_send_next_segment\<close> is the one of
  Red_Send, on the sockets of this state.
\<close>

section \<open>State\<close>

datatype meta_call =
    Push_Meta u32 u8 | Push_Sub sk_ptr u32 | Probe sk_ptr bool | Cwnd_Validate sk_ptr bool | Minshall u32 | Xmit_Timer u32
  | Ack_Timer sk_ptr u64 | Reset_Sub sk_ptr | Send_Ack sk_ptr | Keepalive sk_ptr u32 | Write_Err | Dst_Reset sk_ptr | Push_Pending
  | Rearm_Rto | Ack_Probe | Pm_Fully_Established | Meta_State_Change | Dst_Confirm sk_ptr | Keepalive_Meta int | Wake_Writers

record meta_state =
  m_life :: life_state
  m_red :: red_world
  m_queue :: "sk_buff list"
  m_sent :: nat
  m_pushed_seq :: u32
  m_snd_up :: u32
  m_snd_wnd :: u32
  m_wl1 :: u32
  m_max_window :: u32
  m_retrans_stamp :: u32
  m_rcv_tstamp :: u32
  m_probes_out :: u8
  m_fclose :: bool
  m_rbuf_opti :: "sk_ptr \<Rightarrow> u32"
  m_calls :: "meta_call list"

text \<open>Where the segment to send is: at the head of the reinject queue, at the send head, or a sent segment that is
  sent once more.\<close>

datatype seg_ref = In_Reinject | Send_Head | In_Queue nat

record meta_kernel =
  mk_ops :: kernel_ops
  mk_life :: life_kernel
  mk_now :: ktime
  mk_stamp :: u32
  mk_jiffies :: u64
  mk_next :: "meta_state \<Rightarrow> (seg_ref \<times> sk_ptr \<times> u32) option \<times> meta_state"
  mk_get_subflow :: "seg_ref option \<Rightarrow> bool \<Rightarrow> meta_state \<Rightarrow> sk_ptr option \<times> meta_state"
  mk_ack_sock :: "meta_state \<Rightarrow> sk_ptr option"
  mk_mss :: "tcp_sock \<Rightarrow> u32"
  mk_unclone :: "sk_buff \<Rightarrow> bool"
  mk_wnd_test :: "tcp_sock \<Rightarrow> sk_buff \<Rightarrow> u32 \<Rightarrow> bool"
  mk_nagle_test :: "tcp_sock \<Rightarrow> sk_buff \<Rightarrow> u32 \<Rightarrow> u8 \<Rightarrow> bool"
  mk_split_point :: "sk_buff \<Rightarrow> u32 \<Rightarrow> u8 \<Rightarrow> u32"
  mk_urg :: "tcp_sock \<Rightarrow> bool"
  mk_fragment :: "u32 \<Rightarrow> sk_buff \<Rightarrow> tcp_sock \<Rightarrow> (sk_buff \<times> sk_buff \<times> tcp_sock) option"
  mk_pcount :: "sk_buff \<Rightarrow> u32"
  mk_adjust :: "int \<Rightarrow> tcp_sock \<Rightarrow> tcp_sock"
  mk_new_data :: "sk_buff \<Rightarrow> tcp_sock \<Rightarrow> tcp_sock"
  mk_probe :: "sk_ptr \<Rightarrow> bool \<Rightarrow> int"
  mk_need_reset :: "tcp_state \<Rightarrow> bool"
  mk_write_timeout :: "meta_state \<Rightarrow> bool"
  mk_send_full :: "meta_state \<Rightarrow> bool"
  mk_rto_max :: u32
  mk_thin :: "meta_state \<Rightarrow> bool"
  mk_thin_retries :: u8

abbreviation m_tp :: "meta_state \<Rightarrow> sk_ptr \<Rightarrow> tcp_sock" where
  "m_tp s sk \<equiv> l_tp (m_life s) sk"

abbreviation m_mpcb :: "meta_state \<Rightarrow> mptcp_cb" where
  "m_mpcb s \<equiv> l_mpcb (m_life s)"

definition m_set_tp :: "sk_ptr \<Rightarrow> (tcp_sock \<Rightarrow> tcp_sock) \<Rightarrow> meta_state \<Rightarrow> meta_state" where
  "m_set_tp sk f s = s\<lparr>m_life := set_tp sk f (m_life s)\<rparr>"

definition m_set_mpcb :: "(mptcp_cb \<Rightarrow> mptcp_cb) \<Rightarrow> meta_state \<Rightarrow> meta_state" where
  "m_set_mpcb f s = s\<lparr>m_life := set_mpcb f (m_life s)\<rparr>"

definition m_call :: "meta_call \<Rightarrow> meta_state \<Rightarrow> meta_state" where
  "m_call c s = s\<lparr>m_calls := m_calls s @ [c]\<rparr>"

text \<open>\<open>tcp_current_mss\<close> is a function of TCP; where a model of another part reads it as a field, it is put there.\<close>

definition with_mss :: "(tcp_sock \<Rightarrow> u32) \<Rightarrow> tcp_sock \<Rightarrow> tcp_sock" where
  "with_mss mss tp = tp\<lparr>tcp_current_mss := mss tp\<rparr>"

definition has_head :: "meta_state \<Rightarrow> bool" where
  "has_head s \<longleftrightarrow> m_sent s < length (m_queue s)"

definition seg_at :: "seg_ref \<Rightarrow> meta_state \<Rightarrow> sk_buff" where
  "seg_at ref s = (case ref of In_Reinject \<Rightarrow> hd (reinject_queue (m_mpcb s)) | Send_Head \<Rightarrow> m_queue s ! m_sent s
     | In_Queue i \<Rightarrow> m_queue s ! i)"

text \<open>A segment gives way to others, in its place.\<close>

definition splice :: "nat \<Rightarrow> 'a list \<Rightarrow> 'a list \<Rightarrow> 'a list" where
  "splice i xs q = take i q @ xs @ drop (Suc i) q"

definition put_segs :: "seg_ref \<Rightarrow> sk_buff list \<Rightarrow> meta_state \<Rightarrow> meta_state" where
  "put_segs ref xs s =
     (case ref of
        In_Reinject \<Rightarrow> m_set_mpcb (\<lambda>m. m\<lparr>reinject_queue := xs @ tl (reinject_queue m)\<rparr>) s
      | Send_Head \<Rightarrow> s\<lparr>m_queue := splice (m_sent s) xs (m_queue s)\<rparr>
      | In_Queue i \<Rightarrow> s\<lparr>m_queue := splice i xs (m_queue s), m_sent := (if i < m_sent s then m_sent s + length xs - 1 else m_sent s)\<rparr>)"

section \<open>Splitting a segment\<close>

definition TCPHDR_PSH :: u8 where "TCPHDR_PSH = 0x08"
definition TCP_NAGLE_PUSH_FLAG :: u8 where "TCP_NAGLE_PUSH_FLAG = 4"
definition TCP_NAGLE_OFF_FLAG :: u8 where "TCP_NAGLE_OFF_FLAG = 1"

text \<open>The two parts and the counters of the connection; \<open>reinject\<close> tells that the segment is in the reinject queue,
  whose packets are not counted.\<close>

definition mptcp_fragment ::
  "meta_kernel \<Rightarrow> sk_buff \<Rightarrow> u32 \<Rightarrow> bool \<Rightarrow> tcp_sock \<Rightarrow> (sk_buff \<times> sk_buff \<times> tcp_sock) option" where
  "mptcp_fragment k skb len reinject meta_tp =
     (case mk_fragment k len skb meta_tp of
        None \<Rightarrow> None
      | Some (a, b, tp) \<Rightarrow>
          let flags = mptcp_flags a;
              a' = a\<lparr>mptcp_flags := clrf flags MPTCPHDR_FIN\<rparr>;
              b' = b\<lparr>mptcp_flags := flags, path_mask := path_mask a\<rparr>;
              undo = sint (mk_pcount k skb - mk_pcount k a' - mk_pcount k b')
          in Some (a', b', if reinject \<and> \<not> before (snd_nxt tp) (skb_end_seq b') \<and> undo \<noteq> 0 then mk_adjust k (- undo) tp else tp))"

definition fragment_at :: "meta_kernel \<Rightarrow> sk_ptr \<Rightarrow> seg_ref \<Rightarrow> u32 \<Rightarrow> meta_state \<Rightarrow> meta_state option" where
  "fragment_at k meta ref len s =
     (case mptcp_fragment k (seg_at ref s) len (ref = In_Reinject) (m_tp s meta) of
        None \<Rightarrow> None
      | Some (a, b, tp) \<Rightarrow> Some (m_set_tp meta (\<lambda>_. tp) (put_segs ref [a, b] s)))"

section \<open>The transmission loop\<close>

text \<open>A segment of the send head was sent: the counters and the send head move on.\<close>

definition new_data_sent :: "meta_kernel \<Rightarrow> sk_ptr \<Rightarrow> sk_buff \<Rightarrow> meta_state \<Rightarrow> meta_state" where
  "new_data_sent k meta skb s =
     (let s1 = m_set_mpcb (mptcp_check_sndseq_wrap (m_tp s meta) (sint (skb_end_seq skb - skb_seq skb))) s
      in (m_set_tp meta (mk_new_data k skb) s1)\<lparr>m_sent := m_sent s1 + 1\<rparr>)"

definition send_red ::
  "meta_kernel \<Rightarrow> sk_ptr \<Rightarrow> bool \<Rightarrow> u32 \<Rightarrow> sk_buff \<Rightarrow> meta_state \<Rightarrow> (bool \<times> sk_buff \<times> meta_state) option" where
  "send_red k meta reinject mss_now skb s =
     (let w = (m_red s)\<lparr>w_send := (w_send (m_red s))\<lparr>s_skb := skb, s_out := l_out (m_life s)\<rparr>\<rparr>
      in map_option (\<lambda>(ok, w'). (ok, s_skb (w_send w'),
             s\<lparr>m_red := w', m_life := (m_life s)\<lparr>l_out := s_out (w_send w')\<rparr>\<rparr>))
           (rmptcp_send_next_segment (mk_ops k) meta reinject mss_now (mk_now k) w))"

datatype xmit_step = Go_On | Break

text \<open>Sending a segment that has the right size, and what follows.\<close>

definition xmit_segment ::
  "meta_kernel \<Rightarrow> sk_ptr \<Rightarrow> bool \<Rightarrow> seg_ref \<Rightarrow> sk_ptr \<Rightarrow> u32 \<Rightarrow> u32 \<Rightarrow> meta_state \<Rightarrow> (xmit_step \<times> u32 \<times> meta_state) option" where
  "xmit_segment k meta push_one ref subsk mss_now mask0 s =
     (case send_red k meta (ref \<noteq> Send_Head) mss_now (seg_at ref s) s of
        None \<Rightarrow> None
      | Some (False, skb, s1) \<Rightarrow> Some (Break, mask0, put_segs ref [skb] s1)
      | Some (True, skb, s1) \<Rightarrow>
          let paths = mask0 OR mptcp_pi_to_flag (path_index (m_tp s1 subsk));
              s2 = put_segs ref [skb] s1;
              s3 = (if ref = Send_Head then new_data_sent k meta skb s2 else s2);
              s4 = m_call (Minshall mss_now) s3;
              s5 = (if ref = In_Reinject then m_set_mpcb (\<lambda>m. m\<lparr>reinject_queue := tl (reinject_queue m)\<rparr>) s4 else s4)
          in Some (if push_one then Break else Go_On, paths, s5))"

definition segment_room :: "meta_kernel \<Rightarrow> sk_ptr \<Rightarrow> u8 \<Rightarrow> sk_buff \<Rightarrow> u32 \<Rightarrow> u32 \<Rightarrow> meta_state \<Rightarrow> u32" where
  "segment_room k meta nagle skb mss_now sublimit s =
     (let limit = (if skb_len skb > mss_now \<and> \<not> mk_urg k (m_tp s meta) then mk_split_point k skb mss_now nagle else mss_now)
      in if sublimit \<noteq> 0 then min limit sublimit else limit)"

definition xmit_once ::
  "meta_kernel \<Rightarrow> sk_ptr \<Rightarrow> u8 \<Rightarrow> bool \<Rightarrow> u32 \<Rightarrow> meta_state \<Rightarrow> (xmit_step \<times> u32 \<times> meta_state) option" where
  "xmit_once k meta nagle push_one mask0 s =
     (case mk_next k s of
        (None, s1) \<Rightarrow> Some (Break, mask0, s1)
      | (Some (ref, subsk, sublimit), s1) \<Rightarrow>
          let mss_now = mk_mss k (m_tp s1 subsk);
              skb = seg_at ref s1;
              is_last = (ref \<noteq> In_Reinject \<and> (case ref of In_Queue i \<Rightarrow> i | _ \<Rightarrow> m_sent s1) = length (m_queue s1) - 1)
          in if ref = In_Reinject \<and> \<not> after (skb_end_seq skb) (snd_una (m_tp s1 meta))
             then Some (Go_On, mask0, put_segs In_Reinject [] s1)
             else if mk_unclone k skb then Some (Break, mask0, s1)
             else if \<not> mk_wnd_test k (m_tp s1 meta) skb mss_now then Some (Break, mask0, s1)
             else if \<not> mk_nagle_test k (m_tp s1 meta) skb mss_now (if is_last then nagle else TCP_NAGLE_PUSH_FLAG)
             then Some (Break, mask0, s1)
             else
               let limit = segment_room k meta nagle skb mss_now sublimit s1
               in case (if skb_len skb > limit then fragment_at k meta ref limit s1 else Some s1) of
                    None \<Rightarrow> Some (Break, mask0, s1)
                  | Some s2 \<Rightarrow> xmit_segment k meta push_one ref subsk mss_now mask0 s2)"

text \<open>\<open>None\<close> is a fault or a fuel that was too small.\<close>

fun xmit_loop ::
  "nat \<Rightarrow> meta_kernel \<Rightarrow> sk_ptr \<Rightarrow> u8 \<Rightarrow> bool \<Rightarrow> u32 \<Rightarrow> meta_state \<Rightarrow> (u32 \<times> meta_state) option" where
  "xmit_loop 0 k meta nagle push_one mask0 s = None"
| "xmit_loop (Suc n) k meta nagle push_one mask0 s =
     (case xmit_once k meta nagle push_one mask0 s of
        None \<Rightarrow> None
      | Some (Break, paths, s') \<Rightarrow> Some (paths, s')
      | Some (Go_On, paths, s') \<Rightarrow> xmit_loop n k meta nagle push_one paths s')"

definition validate_cwnd :: "u32 \<Rightarrow> sk_ptr \<Rightarrow> meta_state \<Rightarrow> meta_state" where
  "validate_cwnd paths sk s =
     (let tp = m_tp s sk
      in if paths AND mptcp_pi_to_flag (path_index tp) = 0 then s
         else m_call (Cwnd_Validate sk (tcp_packets_in_flight tp \<ge> snd_cwnd tp)) s)"

definition mptcp_write_xmit :: "nat \<Rightarrow> meta_kernel \<Rightarrow> sk_ptr \<Rightarrow> u8 \<Rightarrow> bool \<Rightarrow> meta_state \<Rightarrow> (bool \<times> meta_state) option" where
  "mptcp_write_xmit n k meta nagle push_one s =
     (case xmit_loop n k meta nagle push_one 0 s of
        None \<Rightarrow> None
      | Some (paths, s1) \<Rightarrow>
          let s2 = fold (validate_cwnd paths) (l_conns (m_life s1)) s1
          in Some (packets_out (m_tp s2 meta) = 0 \<and> has_head s2, s2))"

section \<open>Window probes\<close>

definition between :: "u32 \<Rightarrow> u32 \<Rightarrow> u32 \<Rightarrow> bool" where
  "between seq1 seq2 seq3 \<longleftrightarrow> seq3 - seq2 \<ge> seq1 - seq2"

definition probe_all :: "meta_kernel \<Rightarrow> bool \<Rightarrow> meta_state \<Rightarrow> int \<times> meta_state" where
  "probe_all k urgent s =
     fold (\<lambda>sk (ans, s). if \<not> mptcp_sk_can_send_ack (m_tp s sk) then (ans, s)
             else let ret = mk_probe k sk urgent in (if ret > 0 then ret else ans, m_call (Probe sk urgent) s))
       (l_conns (m_life s)) (0, s)"

definition window_probe :: "meta_kernel \<Rightarrow> sk_ptr \<Rightarrow> meta_state \<Rightarrow> int \<times> meta_state" where
  "window_probe k meta s =
     (let una = snd_una (m_tp s meta);
          s1 = (if between (m_snd_up s) (una + 1) (una + 0xFFFF) then snd (probe_all k True s) else s)
      in probe_all k False s1)"

definition entail_at :: "meta_kernel \<Rightarrow> sk_ptr \<Rightarrow> sk_ptr \<Rightarrow> seg_ref \<Rightarrow> bool \<Rightarrow> meta_state \<Rightarrow> bool \<times> meta_state" where
  "entail_at k meta sk ref reinject s =
     (case mptcp_skb_entail (mk_ops k) meta sk (seg_at ref s) reinject (l_out (m_life s)) of
        (ok, skb, out) \<Rightarrow> (ok, put_segs ref [skb] (s\<lparr>m_life := (m_life s)\<lparr>l_out := out\<rparr>\<rparr>)))"

definition push_psh :: "sk_buff \<Rightarrow> sk_buff" where
  "push_psh b = b\<lparr>tcp_flags := setf (tcp_flags b) TCPHDR_PSH\<rparr>"

definition wakeup_send :: "meta_kernel \<Rightarrow> sk_ptr \<Rightarrow> sk_ptr \<Rightarrow> u32 \<Rightarrow> meta_state \<Rightarrow> int \<times> meta_state" where
  "wakeup_send k meta subsk mss s =
     (case entail_at k meta subsk Send_Head False (put_segs Send_Head [push_psh (seg_at Send_Head s)] s) of
        (False, s1) \<Rightarrow> (- 1, s1)
      | (True, s1) \<Rightarrow> (0, m_call (Push_Sub subsk mss) (new_data_sent k meta (seg_at Send_Head s1) s1)))"

definition mptcp_write_wakeup :: "meta_kernel \<Rightarrow> sk_ptr \<Rightarrow> meta_state \<Rightarrow> int \<times> meta_state" where
  "mptcp_write_wakeup k meta s =
     (if sk_state (m_tp s meta) = TCP_CLOSE then (- 1, s)
      else if has_head s \<and> before (skb_seq (seg_at Send_Head s)) (tcp_wnd_end (m_tp s meta))
      then
        case mk_get_subflow k (Some Send_Head) True s of
          (None, s1) \<Rightarrow> window_probe k meta s1
        | (Some subsk, s1) \<Rightarrow>
            let skb = seg_at Send_Head s1;
                mss = mk_mss k (m_tp s1 subsk);
                seg_size = min (tcp_wnd_end (m_tp s1 meta) - skb_seq skb)
                             (tcp_wnd_end (m_tp s1 subsk) - write_seq (m_tp s1 subsk));
                s2 = (if before (m_pushed_seq s1) (skb_end_seq skb) then s1\<lparr>m_pushed_seq := skb_end_seq skb\<rparr> else s1)
            in if seg_size < skb_end_seq skb - skb_seq skb \<or> skb_len skb > mss
               then let s3 = put_segs Send_Head [push_psh skb] s2
                    in case fragment_at k meta Send_Head (min seg_size mss) s3 of
                         None \<Rightarrow> (- 1, s3)
                       | Some s4 \<Rightarrow> wakeup_send k meta subsk mss s4
               else wakeup_send k meta subsk mss s2
      else window_probe k meta s)"

section \<open>The data-FIN\<close>

text \<open>A segment without data, as \<open>tcp_init_nondata_skb\<close> makes it, with the number of the data-FIN.  The loop that
  waits for memory returns when there is some.\<close>

definition dfin_segment :: "u32 \<Rightarrow> sk_buff" where
  "dfin_segment seq = \<lparr>skb_seq = seq, skb_end_seq = seq + 1, skb_len = 0, path_mask = 0, mptcp_flags = setf 0 MPTCPHDR_FIN,
     tcp_flags = TCPHDR_ACK, dss_hdr = no_dss, dss_words = []\<rparr>"

definition add_dfin :: "sk_buff \<Rightarrow> sk_buff" where
  "add_dfin b = b\<lparr>mptcp_flags := setf (mptcp_flags b) MPTCPHDR_FIN, skb_end_seq := skb_end_seq b + 1\<rparr>"

definition mptcp_send_fin :: "meta_kernel \<Rightarrow> sk_ptr \<Rightarrow> meta_state \<Rightarrow> meta_state option" where
  "mptcp_send_fin k meta s =
     (let s1 = (if sk_state (m_tp s meta) \<in> {TCP_CLOSE_WAIT, TCP_LAST_ACK} then m_set_mpcb (\<lambda>m. m\<lparr>passive_close := True\<rparr>) s else s);
          tp = m_tp s1 meta
      in map_option (\<lambda>mss_now.
             m_call (Push_Meta mss_now TCP_NAGLE_OFF_FLAG)
               (m_set_tp meta (\<lambda>tp. tp\<lparr>write_seq := write_seq tp + 1\<rparr>)
                 (if has_head s1 then s1\<lparr>m_queue := last_segment add_dfin (m_queue s1)\<rparr>
                  else s1\<lparr>m_queue := m_queue s1 @ [dfin_segment (write_seq tp)]\<rparr>)))
           (mptcp_current_mss (\<lambda>sk. with_mss (mk_mss k) (m_tp s1 sk)) (m_mpcb s1) (with_mss (mk_mss k) tp)))"

section \<open>Reset of the connection\<close>

definition mptcp_send_reset :: "meta_kernel \<Rightarrow> sk_ptr \<Rightarrow> meta_state \<Rightarrow> meta_state" where
  "mptcp_send_reset k sk s =
     (let s1 = (if mk_need_reset k (sk_state (m_tp s sk)) then m_call (Reset_Sub sk) s else s)
      in s1\<lparr>m_life := mptcp_sub_force_close (mk_life k) sk (m_life s1)\<rparr>)"

definition sub_force_close_all :: "meta_kernel \<Rightarrow> sk_ptr option \<Rightarrow> meta_state \<Rightarrow> meta_state" where
  "sub_force_close_all k except s =
     fold (\<lambda>sk s. if Some sk \<noteq> except then mptcp_send_reset k sk s else s) (l_conns (m_life s)) s"

definition mptcp_send_active_reset :: "meta_kernel \<Rightarrow> meta_state \<Rightarrow> meta_state" where
  "mptcp_send_active_reset k s =
     (if cnt_subflows (m_mpcb s) = 0 then s
      else case mk_ack_sock k s of
             None \<Rightarrow> sub_force_close_all k None s
           | Some sk \<Rightarrow>
               if infinite_mapping_snd (m_mpcb s) \<or> send_infinite_mapping (m_mpcb s) \<or> infinite_mapping_rcv (m_mpcb s)
               then sub_force_close_all k None s
               else
                 let s1 = s\<lparr>m_life := set_info sk (\<lambda>i. i\<lparr>fclose_sent := True\<rparr>) (m_life s)\<rparr>;
                     s2 = sub_force_close_all k (Some sk) s1
                 in (m_call (Keepalive sk (icsk_rto (m_tp s2 sk))) (m_call (Send_Ack sk) s2))\<lparr>m_fclose := True\<rparr>)"

section \<open>The timer for the acknowledgement of a join\<close>

text \<open>What the kernel says on the way: no route, time-out of the socket, no memory, the result of the transmission and
  whether the retransmissions timed out.\<close>

record ack_try =
  at_rebuild_fails :: bool
  at_write_timeout :: bool
  at_no_memory :: bool
  at_transmit :: int
  at_timed_out :: bool

definition double_rto :: "u32 \<Rightarrow> u32 \<Rightarrow> u32" where
  "double_rto rto_max rto = min (push_bit 1 rto) rto_max"

definition mptcp_ack_retransmit_timer :: "meta_kernel \<Rightarrow> ack_try \<Rightarrow> sk_ptr \<Rightarrow> meta_state \<Rightarrow> meta_state" where
  "mptcp_ack_retransmit_timer k a sk s =
     (let again = (\<lambda>s. m_call (Ack_Timer sk (mk_jiffies k + ucast (icsk_rto (m_tp s sk)))) s)
      in if at_rebuild_fails a then s
         else if at_write_timeout a
         then m_call (Reset_Sub sk)
                (s\<lparr>m_life := call (Stop_Ack_Timer sk) (set_tp sk (\<lambda>tp. tp\<lparr>pre_established := False\<rparr>) (m_life s))\<rparr>)
         else if at_no_memory a then again s
         else if at_transmit a > 0
         then again (m_set_tp sk (\<lambda>tp. if icsk_retransmits tp = 0 then tp\<lparr>icsk_retransmits := 1\<rparr> else tp) s)
         else
           let s1 = again (m_set_tp sk (\<lambda>tp. tp\<lparr>icsk_retransmits := icsk_retransmits tp + 1,
                      icsk_rto := double_rto (mk_rto_max k) (icsk_rto tp)\<rparr>) s)
           in if at_timed_out a then m_call (Dst_Reset sk) s1 else s1)"

definition mptcp_ack_handler :: "meta_kernel \<Rightarrow> u64 \<Rightarrow> bool \<Rightarrow> ack_try \<Rightarrow> sk_ptr \<Rightarrow> meta_state \<Rightarrow> meta_state" where
  "mptcp_ack_handler k hz owned a sk s =
     (if owned then m_call (Ack_Timer sk (mk_jiffies k + hz div 20)) s
      else if sk_state (m_tp s sk) = TCP_CLOSE then s
      else if \<not> pre_established (m_tp s sk) then s
      else mptcp_ack_retransmit_timer k a sk s)"

section \<open>Retransmission\<close>

definition EAGAIN :: int where "EAGAIN = 11"
definition ENOMEM_NR :: int where "ENOMEM_NR = 12"

text \<open>\<open>None\<close> is the \<open>BUG_ON\<close> for a segment that was never sent.\<close>

definition mptcp_retransmit_skb :: "meta_kernel \<Rightarrow> sk_ptr \<Rightarrow> nat \<Rightarrow> meta_state \<Rightarrow> (int \<times> meta_state) option" where
  "mptcp_retransmit_skb k meta i s =
     (if mk_send_full k s then Some (- EAGAIN, s)
      else case mk_get_subflow k (Some (In_Queue i)) False s of
             (None, s1) \<Rightarrow> Some (0, s1)
           | (Some subsk, s1) \<Rightarrow>
               let skb = m_queue s1 ! i;
                   mss_now = mk_mss k (m_tp s1 subsk)
               in if mk_unclone k skb then Some (- ENOMEM_NR, s1)
                  else if mk_pcount k skb = 0 then None
                  else
                    let limit = (if skb_len skb > mss_now \<and> \<not> mk_urg k (m_tp s1 meta)
                                 then mk_split_point k skb mss_now TCP_NAGLE_OFF_FLAG else mss_now)
                    in case (if skb_len skb > limit
                             then case mptcp_fragment k skb limit False (m_tp s1 meta) of
                                    None \<Rightarrow> None
                                  | Some (a, b, tp) \<Rightarrow> Some (m_set_tp meta (\<lambda>_. tp) (put_segs (In_Queue i) [a, b] s1))
                             else Some s1) of
                         None \<Rightarrow> Some (- 1, s1)
                       | Some s2 \<Rightarrow>
                           (case entail_at k meta subsk (In_Queue i) True s2 of
                              (False, s3) \<Rightarrow> Some (- 1, s3)
                            | (True, s3) \<Rightarrow>
                                Some (0, m_call (Push_Sub subsk mss_now)
                                  (if m_retrans_stamp s3 = 0 then s3\<lparr>m_retrans_stamp := mk_stamp k\<rparr> else s3))))"

definition restart_timer :: "meta_kernel \<Rightarrow> sk_ptr \<Rightarrow> meta_state \<Rightarrow> meta_state" where
  "restart_timer k meta s =
     (let s1 = (if sk_state (m_tp s meta) = TCP_ESTABLISHED \<and> mk_thin k s \<and> icsk_retransmits (m_tp s meta) \<le> mk_thin_retries k
                then m_set_tp meta (\<lambda>_. mptcp_set_rto (o_socks (l_out (m_life s))) (m_mpcb s) ((m_tp s meta)\<lparr>icsk_backoff := 0\<rparr>)) s
                else m_set_tp meta (\<lambda>tp. tp\<lparr>icsk_rto := double_rto (mk_rto_max k) (icsk_rto tp)\<rparr>) s)
      in m_call (Xmit_Timer (icsk_rto (m_tp s1 meta))) s1)"

text \<open>\<open>probe_interval\<close> is \<open>TCP_RESOURCE_PROBE_INTERVAL\<close>.\<close>

definition mptcp_meta_retransmit_timer :: "meta_kernel \<Rightarrow> u32 \<Rightarrow> sk_ptr \<Rightarrow> meta_state \<Rightarrow> meta_state option" where
  "mptcp_meta_retransmit_timer k probe_interval meta s =
     (let tp = m_tp s meta
      in if packets_out tp = 0 \<or> infinite_mapping_snd (m_mpcb s) then Some s
         else if m_snd_wnd s = 0 \<and> \<not> sock_dead (l_sub (m_life s) meta) \<and> sk_state tp \<notin> {TCP_SYN_SENT, TCP_SYN_RECV}
         then if mk_stamp k - m_rcv_tstamp s > mk_rto_max k then Some (m_call Write_Err s)
              else map_option (\<lambda>(_, s1). restart_timer k meta s1) (mptcp_retransmit_skb k meta 0 s)
         else if mk_write_timeout k s then Some s
         else
           case mptcp_retransmit_skb k meta 0 (m_set_tp meta (\<lambda>tp. tp\<lparr>icsk_ca_state := TCP_CA_Loss\<rparr>) s) of
             None \<Rightarrow> None
           | Some (err, s1) \<Rightarrow>
               if err > 0
               then let s2 = m_set_tp meta (\<lambda>tp. if icsk_retransmits tp = 0 then tp\<lparr>icsk_retransmits := 1\<rparr> else tp) s1
                    in Some (m_call (Xmit_Timer (min (icsk_rto (m_tp s2 meta)) probe_interval)) s2)
               else Some (restart_timer k meta (m_set_tp meta
                      (\<lambda>tp. tp\<lparr>icsk_backoff := icsk_backoff tp + 1, icsk_retransmits := icsk_retransmits tp + 1\<rparr>) s1)))"

text \<open>\<open>tcp_retransmit_timer\<close> of the subflow comes first.\<close>

definition mptcp_sub_retransmit_timer ::
  "meta_kernel \<Rightarrow> nat \<Rightarrow> (sk_ptr \<Rightarrow> meta_state \<Rightarrow> meta_state) \<Rightarrow> bool \<Rightarrow> sk_ptr \<Rightarrow> sk_ptr \<Rightarrow> meta_state \<Rightarrow> meta_state option" where
  "mptcp_sub_retransmit_timer k fuel timer fastopen meta sk s =
     (let s1 = timer sk s
      in if fastopen then Some s1
         else map_option (\<lambda>out.
             let s2 = s1\<lparr>m_life := (m_life s1)\<lparr>l_out := out\<rparr>\<rparr>;
                 s3 = (if sk_state (m_tp s1 meta) = TCP_CLOSE then s2 else m_call Push_Pending s2)
             in m_set_tp meta (\<lambda>tp. mptcp_set_rto (o_socks out) (o_mpcb out) tp) s3)
           (mptcp_reinject_data (mk_ops k) fuel meta (m_queue s1) (take (m_sent s1) (m_queue s1)) sk True (l_out (m_life s1))))"

end
