(* ===== verification/Meta_Sched.thy ===== *)
theory Meta_Sched
  imports Meta_Output Sched_Default
begin

text \<open>
  What the transmission loop, the window probe and a retransmission rely on when they call the scheduler through
  \<open>mpcb->sched_ops\<close>, as a locale, and the default scheduler of \<open>net/mptcp/mptcp_sched.c\<close> as its provider.

  A scheduler may write path masks of queued segments and windows of subflows, as the default one does.  It keeps the data
  of the segments, the connection and the addresses of the subflows, and it offers segments that are there.  The
  scheduler's model addresses segments by pointers; here the pointer of a segment is its position, first the write queue, then
  the reinject queue.
\<close>

section \<open>The contract\<close>

definition same_meta :: "sk_ptr \<Rightarrow> meta_state \<Rightarrow> meta_state \<Rightarrow> bool" where
  "same_meta meta s s' \<longleftrightarrow> list_all2 same_data (m_queue s') (m_queue s) \<and> m_sent s' = m_sent s \<and> m_red s' = m_red s \<and>
     list_all2 same_data (reinject_queue (m_mpcb s')) (reinject_queue (m_mpcb s)) \<and>
     m_mpcb s' = (m_mpcb s)\<lparr>reinject_queue := reinject_queue (m_mpcb s')\<rparr> \<and>
     m_tp s' meta = m_tp s meta \<and> (\<forall>p. sk_key (m_tp s' p) = sk_key (m_tp s p))"

definition ref_ok :: "seg_ref \<Rightarrow> meta_state \<Rightarrow> bool" where
  "ref_ok ref s \<longleftrightarrow> (case ref of In_Reinject \<Rightarrow> reinject_queue (m_mpcb s) \<noteq> [] | Send_Head \<Rightarrow> has_head s | In_Queue i \<Rightarrow> i < m_sent s)"

lemma same_data_refl [simp]: "same_data b b"
  by (simp add: same_data_def)

lemma same_datas_refl [simp]: "list_all2 same_data q q"
  by (simp add: list.rel_refl)

lemma same_metaI:
  assumes "m_queue s' = m_queue s" "m_sent s' = m_sent s" "m_red s' = m_red s" "m_mpcb s' = m_mpcb s" "m_tp s' meta = m_tp s meta"
    and "\<And>p. sk_key (m_tp s' p) = sk_key (m_tp s p)"
  shows "same_meta meta s s'"
  using assms by (simp add: same_meta_def)

lemma same_meta_refl [simp]: "same_meta meta s s"
  by (rule same_metaI) simp_all

lemma same_datas_trans: "list_all2 same_data p q \<Longrightarrow> list_all2 same_data q r \<Longrightarrow> list_all2 same_data p r"
  by (rule list_all2_trans [where ?P1.0 = same_data and ?P2.0 = same_data]) (auto simp: same_data_def)

lemma same_meta_trans: "same_meta meta a b \<Longrightarrow> same_meta meta b c \<Longrightarrow> same_meta meta a c"
  unfolding same_meta_def using same_datas_trans by (auto) (metis mptcp_cb.surjective mptcp_cb.update_convs(15))

lemma same_meta_conns: "same_meta meta s s' \<Longrightarrow> l_conns (m_life s') = l_conns (m_life s)"
  unfolding same_meta_def l_conns_def by (metis mptcp_cb.select_convs(1) mptcp_cb.surjective mptcp_cb.update_convs(15))

lemma same_meta_ref: "same_meta meta s s' \<Longrightarrow> ref_ok ref s' = ref_ok ref s"
  by (auto simp: same_meta_def ref_ok_def has_head_def dest: list_all2_lengthD split: seg_ref.splits)

locale segment_scheduler =
  fixes nxt :: "meta_state \<Rightarrow> (seg_ref \<times> sk_ptr \<times> u32) option \<times> meta_state"
    and get :: "seg_ref option \<Rightarrow> bool \<Rightarrow> meta_state \<Rightarrow> sk_ptr option \<times> meta_state"
    and meta :: sk_ptr
  assumes nxt_frame: "meta \<notin> set (l_conns (m_life s)) \<Longrightarrow> nxt s = (r, s') \<Longrightarrow> same_meta meta s s'"
    and nxt_ref: "meta \<notin> set (l_conns (m_life s)) \<Longrightarrow> nxt s = (Some (ref, sk, l), s') \<Longrightarrow> ref_ok ref s'"
    and get_frame: "meta \<notin> set (l_conns (m_life s)) \<Longrightarrow> get b z s = (c, s') \<Longrightarrow> same_meta meta s s'"
    and get_sub: "meta \<notin> set (l_conns (m_life s)) \<Longrightarrow> get b z s = (Some sk, s') \<Longrightarrow> sk \<in> set (l_conns (m_life s))"
begin

lemma get_not_meta: "meta \<notin> set (l_conns (m_life s)) \<Longrightarrow> get b z s = (Some sk, s') \<Longrightarrow> sk \<noteq> meta"
  using get_sub by blast

text \<open>A place stays a place over calls of the scheduler.\<close>

lemma get_ref: "meta \<notin> set (l_conns (m_life s)) \<Longrightarrow> get b z s = (r, s') \<Longrightarrow> ref_ok ref s' = ref_ok ref s"
  using get_frame same_meta_ref by blast

end

section \<open>The default scheduler\<close>

text \<open>What the scheduler reads outside the state of this model.\<close>

record sched_inputs =
  si_cwnd_test :: "tcp_sock \<Rightarrow> sk_buff \<Rightarrow> u32"
  si_usecs_to_jiffies :: "u32 \<Rightarrow> u32"
  si_dfin_path_index :: "meta_state \<Rightarrow> u8"
  si_has_socket :: "meta_state \<Rightarrow> bool"
  si_nospace :: "meta_state \<Rightarrow> bool"
  si_wspace :: "meta_state \<Rightarrow> int"
  si_min_wspace :: "meta_state \<Rightarrow> int"
  si_memory_free :: "meta_state \<Rightarrow> bool"

definition RCV_SHUTDOWN :: u8 where "RCV_SHUTDOWN = 1"

definition sched_of :: "meta_kernel \<Rightarrow> sched_inputs \<Rightarrow> sk_ptr \<Rightarrow> meta_state \<Rightarrow> sched_state" where
  "sched_of k i meta s =
     (let n = length (m_queue s)
      in \<lparr>ss_socks = \<lambda>sk. with_mss (mk_mss k) (m_tp s sk), ss_skbs = (\<lambda>p. (m_queue s @ reinject_queue (m_mpcb s)) ! p),
          ss_meta = m_tp s meta, ss_conns = l_conns (m_life s), ss_cnt_subflows = cnt_subflows (m_mpcb s),
          ss_infinite_snd = infinite_mapping_snd (m_mpcb s), ss_send_infinite = send_infinite_mapping (m_mpcb s),
          ss_dfin_path_index = si_dfin_path_index i s, ss_rcv_shutdown = has (meta_shutdown (m_life s)) RCV_SHUTDOWN,
          write_queue = [0..<n], send_head = (if has_head s then Some (m_sent s) else None),
          reinject_q = [n..<n + length (reinject_queue (m_mpcb s))],
          ss_has_socket = si_has_socket i s, ss_sock_nospace = si_nospace i s, ss_stream_wspace = si_wspace i s,
          ss_stream_min_wspace = si_min_wspace i s, ss_memory_free = si_memory_free i s, ss_time_stamp = mk_stamp k,
          last_rbuf_opti = m_rbuf_opti s, rr_quota = \<lambda>_. 0, rs_skb = \<lambda>_. None, rs_skb_end_seq = \<lambda>_. 0, next_subflow = None\<rparr>)"

text \<open>What the scheduler has written: path masks, windows and thresholds of subflows, and its private data.\<close>

definition put_sched :: "sched_state \<Rightarrow> meta_state \<Rightarrow> meta_state" where
  "put_sched t s =
     (let n = length (m_queue s); r = length (reinject_queue (m_mpcb s)); out = l_out (m_life s)
      in s\<lparr>m_queue := map (ss_skbs t) [0..<n],
           m_life := (m_life s)\<lparr>l_out := out\<lparr>
             o_socks := \<lambda>sk. (o_socks out sk)\<lparr>snd_cwnd := snd_cwnd (ss_socks t sk), snd_ssthresh := snd_ssthresh (ss_socks t sk)\<rparr>,
             o_mpcb := (o_mpcb out)\<lparr>reinject_queue := map (ss_skbs t) [n..<n + r]\<rparr>\<rparr>\<rparr>,
           m_rbuf_opti := last_rbuf_opti t\<rparr>)"

definition sched_tests :: "meta_kernel \<Rightarrow> sched_inputs \<Rightarrow> sched_kernel" where
  "sched_tests k i = \<lparr>k_snd_wnd_test = mk_wnd_test k, k_cwnd_test = si_cwnd_test i, k_usecs_to_jiffies = si_usecs_to_jiffies i\<rparr>"

text \<open>The value of \<open>reinject\<close> tells where the segment is.\<close>

definition offered :: "next_seg \<Rightarrow> seg_ref \<times> sk_ptr \<times> u32" where
  "offered ns = (if ns_reinject ns = 1 then In_Reinject else if ns_reinject ns = 0 then Send_Head else In_Queue (ns_skb ns),
     ns_subsk ns, ns_limit ns)"

definition default_next ::
  "meta_kernel \<Rightarrow> sched_inputs \<Rightarrow> sk_ptr \<Rightarrow> meta_state \<Rightarrow> (seg_ref \<times> sk_ptr \<times> u32) option \<times> meta_state" where
  "default_next k i meta s =
     (case mptcp_next_segment (sched_tests k i) (sched_of k i meta s) of (r, t) \<Rightarrow> (map_option offered r, put_sched t s))"

definition place :: "meta_state \<Rightarrow> seg_ref \<Rightarrow> skb_ptr" where
  "place s ref = (case ref of In_Reinject \<Rightarrow> length (m_queue s) | Send_Head \<Rightarrow> m_sent s | In_Queue i \<Rightarrow> i)"

definition default_get :: "meta_kernel \<Rightarrow> sched_inputs \<Rightarrow> sk_ptr \<Rightarrow> seg_ref option \<Rightarrow> bool \<Rightarrow> meta_state \<Rightarrow> sk_ptr option \<times> meta_state" where
  "default_get k i meta b z s =
     (case get_available_subflow (map_option (place s) b) z (sched_of k i meta s) of (r, t) \<Rightarrow> (r, put_sched t s))"

definition default_kernel :: "sched_inputs \<Rightarrow> sk_ptr \<Rightarrow> meta_kernel \<Rightarrow> meta_kernel" where
  "default_kernel i meta k = k\<lparr>mk_next := default_next k i meta, mk_get_subflow := default_get k i meta\<rparr>"

section \<open>The default scheduler keeps the contract\<close>

lemma put_sched_frame:
  assumes keeps: "sched_keeps (sched_of k i meta s) t" and m: "meta \<notin> set (l_conns (m_life s))"
  shows "same_meta meta s (put_sched t s)"
proof -
  let ?u = "sched_of k i meta s" and ?q = "m_queue s @ reinject_queue (m_mpcb s)"
  have skb: "same_data (ss_skbs t p) (?q ! p)" for p
  proof -
    have "(ss_skbs t p)\<lparr>path_mask := 0\<rparr> = (?q ! p)\<lparr>path_mask := 0\<rparr>" using keeps by (simp add: sched_keeps_def sched_of_def Let_def)
    then have "same_data ((ss_skbs t p)\<lparr>path_mask := 0\<rparr>) ((?q ! p)\<lparr>path_mask := 0\<rparr>)" by simp
    then show ?thesis by (simp add: same_data_def)
  qed
  have "same_data (ss_skbs t p) (m_queue s ! p)" if "p < length (m_queue s)" for p
    using skb [of p] that by (simp add: nth_append)
  then have q: "list_all2 same_data (map (ss_skbs t) [0..<length (m_queue s)]) (m_queue s)"
    by (simp add: list_all2_conv_all_nth)
  have "same_data (ss_skbs t (length (m_queue s) + p)) (reinject_queue (m_mpcb s) ! p)" for p
    using skb [of "length (m_queue s) + p"] by simp
  then have r: "list_all2 same_data (map (ss_skbs t) [length (m_queue s)..<length (m_queue s) + length (reinject_queue (m_mpcb s))])
      (reinject_queue (m_mpcb s))"
    by (simp add: list_all2_conv_all_nth)
  have "ss_socks t meta = with_mss (mk_mss k) (m_tp s meta)"
    using keeps m by (simp add: sched_keeps_def sched_of_def Let_def)
  then have "(m_tp s meta)\<lparr>snd_cwnd := snd_cwnd (ss_socks t meta), snd_ssthresh := snd_ssthresh (ss_socks t meta)\<rparr> = m_tp s meta"
    by (simp add: with_mss_def)
  then show ?thesis using q r by (simp add: same_meta_def put_sched_def Let_def l_tp_def l_mpcb_def sk_key_def)
qed

lemma default_next_ref:
  assumes "mptcp_next_segment (sched_tests k i) (sched_of k i meta s) = (Some ns, t)"
  shows "ref_ok (fst (offered ns)) s"
proof -
  let ?u = "sched_of k i meta s"
  note v = next_segment_valid [OF assms refl refl refl refl, THEN conjunct2, THEN conjunct2, THEN conjunct2, THEN conjunct2]
  have u: "reinject_q ?u \<noteq> [] \<longleftrightarrow> reinject_queue (m_mpcb s) \<noteq> []" "write_queue ?u = [0..<length (m_queue s)]"
    "send_head ?u = (if has_head s then Some (m_sent s) else None)"
    by (auto simp: sched_of_def Let_def)
  show ?thesis
  proof (cases "\<not> ss_infinite_snd ?u \<and> \<not> ss_send_infinite ?u \<and> reinject_q ?u \<noteq> []")
    case True
    then show ?thesis using v u(1) by (simp add: offered_def ref_ok_def)
  next
    case False
    note w = v [unfolded if_not_P [OF False]]
    show ?thesis
    proof (cases "ns_reinject ns = 0")
      case True
      then show ?thesis using w u(3) by (simp add: offered_def ref_ok_def split: if_splits)
    next
      case again: False
      then have r: "ns_reinject ns = -1" and q: "m_queue s \<noteq> []" "ns_skb ns = hd [0..<length (m_queue s)]"
        and h: "send_head ?u \<noteq> Some (ns_skb ns)"
        using w u(2) by auto
      have z: "ns_skb ns = 0" "0 < length (m_queue s)" using q by (simp_all add: upt_conv_Cons)
      then have "0 < m_sent s" using h u(3) by (cases "m_sent s") (auto simp: has_head_def)
      then show ?thesis using r z by (simp add: offered_def ref_ok_def)
    qed
  qed
qed

interpretation default_segments: segment_scheduler "default_next k i meta" "default_get k i meta" meta for k i meta
proof unfold_locales
  fix s r s' assume m: "meta \<notin> set (l_conns (m_life s))" and "default_next k i meta s = (r, s')"
  then obtain r' t where "mptcp_next_segment (sched_tests k i) (sched_of k i meta s) = (r', t)" "s' = put_sched t s"
    by (auto simp: default_next_def split: prod.splits)
  then show "same_meta meta s s'" using put_sched_frame [OF sched_keeps_next m] by blast
next
  fix s ref sk l s' assume m: "meta \<notin> set (l_conns (m_life s))" and "default_next k i meta s = (Some (ref, sk, l), s')"
  then obtain ns t where n: "mptcp_next_segment (sched_tests k i) (sched_of k i meta s) = (Some ns, t)" "s' = put_sched t s" "ref = fst (offered ns)"
    by (auto simp: default_next_def split: prod.splits)
  then show "ref_ok ref s'" using default_next_ref [OF n(1)] same_meta_ref [OF put_sched_frame [OF sched_keeps_next [OF n(1)] m]] by simp
next
  fix s b z r s' assume m: "meta \<notin> set (l_conns (m_life s))" and "default_get k i meta b z s = (r, s')"
  then obtain t where "get_available_subflow (map_option (place s) b) z (sched_of k i meta s) = (r, t)" "s' = put_sched t s"
    by (auto simp: default_get_def split: prod.splits)
  then show "same_meta meta s s'" using put_sched_frame [OF sched_keeps_get m] by blast
next
  fix s b z sk s' assume "default_get k i meta b z s = (Some sk, s')"
  then obtain t where "get_available_subflow (map_option (place s) b) z (sched_of k i meta s) = (Some sk, t)"
    by (auto simp: default_get_def split: prod.splits)
  from get_available_chosen [OF this] show "sk \<in> set (l_conns (m_life s))" by (simp add: sched_of_def Let_def)
qed

text \<open>When the send window has room for every segment and the writer is not blocked, the default scheduler does not repeat segments.\<close>

lemma default_no_repeat:
  assumes "default_next k i meta s = (Some (ref, sk, l), s')" and "\<And>tp b mss. mk_wnd_test k tp b mss" and "\<not> si_nospace i s"
  shows "ref = Send_Head \<or> ref = In_Reinject"
proof -
  obtain ns t where n: "mptcp_next_segment (sched_tests k i) (sched_of k i meta s) = (Some ns, t)" "ref = fst (offered ns)"
    using assms(1) by (auto simp: default_next_def split: prod.splits)
  then show ?thesis using next_segment_valid [OF n(1) refl refl refl refl] assms(2,3)
    by (auto simp: offered_def sched_of_def sched_tests_def Let_def split: if_splits option.splits)
qed

end
