(* ===== verification/Meta_Xmit.thy ===== *)
theory Meta_Xmit
  imports Meta_Sched
begin

text \<open>
  The transmission loop of the connection: whatever a scheduler with the contract of Meta_Sched picks, the write queue stays
  one chain of data, the send head is where the next data sequence number is, and the 64-bit counter moves by the
  bytes that were sent; and the loop ends.  The default scheduler has the contract.
\<close>

section \<open>Chains of segments\<close>

fun chain :: "u32 \<Rightarrow> sk_buff list \<Rightarrow> u32 \<Rightarrow> bool" where
  "chain a [] b \<longleftrightarrow> a = b"
| "chain a (x # q) b \<longleftrightarrow> skb_seq x = a \<and> chain (skb_end_seq x) q b"

definition bytes :: "sk_buff list \<Rightarrow> nat" where
  "bytes q = sum_list (map (\<lambda>b. unat (skb_end_seq b - skb_seq b)) q)"

text \<open>A segment is below half of the sequence space and has its data, and maybe one number for the data-FIN.\<close>

definition seg_fits :: "sk_buff \<Rightarrow> bool" where
  "seg_fits b \<longleftrightarrow> unat (skb_end_seq b - skb_seq b) < 2 ^ 31 \<and> skb_len b \<le> skb_end_seq b - skb_seq b \<and>
     unat (skb_end_seq b - skb_seq b) \<le> unat (skb_len b) + 1"

lemma bytes_simps [simp]:
  "bytes [] = 0" "bytes (x # q) = unat (skb_end_seq x - skb_seq x) + bytes q" "bytes (p @ q) = bytes p + bytes q"
  by (simp_all add: bytes_def)

lemma chain_append: "chain a (p @ q) c \<longleftrightarrow> (\<exists>b. chain a p b \<and> chain b q c)"
  by (induction p arbitrary: a) auto

lemma splice_take_drop:
  assumes "i < length q"
  shows "take i (splice i xs q) = take i q" "drop i (splice i xs q) = xs @ drop (Suc i) q" "length (splice i xs q) = length q + length xs - 1"
  using assms by (simp_all add: splice_def)

lemma chain_splice:
  assumes "i < length q" and "chain a q b" and "\<And>c d. chain c [q ! i] d \<Longrightarrow> chain c xs d"
  shows "chain a (splice i xs q) b"
proof -
  have "q = take i q @ [q ! i] @ drop (Suc i) q" using assms(1) by (simp add: Cons_nth_drop_Suc)
  then obtain c d where "chain a (take i q) c" "chain c [q ! i] d" "chain d (drop (Suc i) q) b"
    using assms(2) by (metis chain_append)
  then show ?thesis using assms(3) unfolding splice_def chain_append by blast
qed

lemma bytes_splice: "i < length q \<Longrightarrow> bytes (splice i xs q) + bytes [q ! i] = bytes q + bytes xs"
  using arg_cong [OF id_take_nth_drop [of i q], of bytes] by (simp add: splice_def)

lemma set_splice: "set (splice i xs q) \<subseteq> set q \<union> set xs"
  by (auto simp: splice_def dest: in_set_takeD in_set_dropD)

section \<open>The invariant\<close>

abbreviation unsent_segs :: "meta_state \<Rightarrow> sk_buff list" where
  "unsent_segs s \<equiv> drop (m_sent s) (m_queue s)"

abbreviation rq :: "meta_state \<Rightarrow> sk_buff list" where
  "rq s \<equiv> reinject_queue (m_mpcb s)"

abbreviation nxt64 :: "sk_ptr \<Rightarrow> meta_state \<Rightarrow> u64" where
  "nxt64 meta s \<equiv> snd_nxt_64 (m_mpcb s) (m_tp s meta)"

definition queue_ok :: "u32 \<Rightarrow> sk_ptr \<Rightarrow> meta_state \<Rightarrow> bool" where
  "queue_ok a meta s \<longleftrightarrow> m_sent s \<le> length (m_queue s) \<and>
     chain a (take (m_sent s) (m_queue s)) (snd_nxt (m_tp s meta)) \<and>
     chain (snd_nxt (m_tp s meta)) (unsent_segs s) (write_seq (m_tp s meta)) \<and>
     (\<forall>b\<in>set (m_queue s) \<union> set (rq s). seg_fits b) \<and> snd_high_inv (m_mpcb s)"

definition red_of :: "meta_state \<Rightarrow> red_world" where
  "red_of s = (m_red s)\<lparr>w_send := (w_send (m_red s))\<lparr>s_out := l_out (m_life s)\<rparr>\<rparr>"

definition known :: "meta_state \<Rightarrow> sk_ptr set" where
  "known s = set (reg_sks (w_reg (m_red s))) \<union> set (l_conns (m_life s))"

definition red_ok :: "sk_ptr \<Rightarrow> meta_state \<Rightarrow> bool" where
  "red_ok meta s \<longleftrightarrow> red_inv (red_of s) \<and> sane (w_sc (m_red s)) \<and> sysctl_runpathcheck (w_sc (m_red s)) = 0 \<and>
     card (known s) \<le> MAX_NUM_RED_SK \<and> meta \<notin> known s"

definition xmit_inv :: "u32 \<Rightarrow> sk_ptr \<Rightarrow> meta_state \<Rightarrow> bool" where
  "xmit_inv a meta s \<longleftrightarrow> queue_ok a meta s \<and> red_ok meta s"

definition work :: "meta_state \<Rightarrow> nat" where
  "work s = 2 * bytes (unsent_segs s) + length (unsent_segs s) + 2 * bytes (rq s) + length (rq s)"

definition advances :: "sk_ptr \<Rightarrow> meta_state \<Rightarrow> meta_state \<Rightarrow> bool" where
  "advances meta s s' \<longleftrightarrow> (\<exists>n. nxt64 meta s' = nxt64 meta s + of_nat n \<and> bytes (unsent_segs s) = n + bytes (unsent_segs s')) \<and>
     write_seq (m_tp s' meta) = write_seq (m_tp s meta) \<and> snd_una (m_tp s' meta) = snd_una (m_tp s meta)"

lemma advances_refl [simp]: "advances meta s s"
  by (auto simp: advances_def intro: exI [of _ 0])

lemma advances_trans:
  assumes "advances meta s1 s2" and "advances meta s2 s3"
  shows "advances meta s1 s3"
proof -
  obtain n m where "nxt64 meta s2 = nxt64 meta s1 + of_nat n" "bytes (unsent_segs s1) = n + bytes (unsent_segs s2)"
    "nxt64 meta s3 = nxt64 meta s2 + of_nat m" "bytes (unsent_segs s2) = m + bytes (unsent_segs s3)"
    using assms unfolding advances_def by blast
  then have "nxt64 meta s3 = nxt64 meta s1 + of_nat (n + m) \<and> bytes (unsent_segs s1) = (n + m) + bytes (unsent_segs s3)" by simp
  then show ?thesis using assms unfolding advances_def by (metis (no_types, lifting))
qed

text \<open>What the kernel has to respect besides the contract of the scheduler: a split cuts the data at the given length; sending
  new data moves \<open>snd_nxt\<close> to its end.\<close>

definition same_seqs :: "tcp_sock \<Rightarrow> tcp_sock \<Rightarrow> bool" where
  "same_seqs tp tp' \<longleftrightarrow> snd_nxt tp' = snd_nxt tp \<and> write_seq tp' = write_seq tp \<and> snd_una tp' = snd_una tp \<and> sk_key tp' = sk_key tp"

definition splits :: "meta_kernel \<Rightarrow> bool" where
  "splits k \<longleftrightarrow> (\<forall>len skb tp a b tp'. mk_fragment k len skb tp = Some (a, b, tp') \<longrightarrow>
     skb_seq a = skb_seq skb \<and> skb_end_seq a = skb_seq skb + len \<and> skb_seq b = skb_seq skb + len \<and>
     skb_end_seq b = skb_end_seq skb \<and> skb_len a = len \<and> skb_len b = skb_len skb - len \<and> same_seqs tp tp') \<and>
     (\<forall>n tp. same_seqs tp (mk_adjust k n tp))"

definition sends_new :: "meta_kernel \<Rightarrow> bool" where
  "sends_new k \<longleftrightarrow> (\<forall>skb tp. snd_nxt (mk_new_data k skb tp) = skb_end_seq skb \<and> write_seq (mk_new_data k skb tp) = write_seq tp \<and>
     snd_una (mk_new_data k skb tp) = snd_una tp \<and> sk_key (mk_new_data k skb tp) = sk_key tp)"

definition xmit_kernel :: "meta_kernel \<Rightarrow> sk_ptr \<Rightarrow> bool" where
  "xmit_kernel k meta \<longleftrightarrow> segment_scheduler (mk_next k) (mk_get_subflow k) meta \<and> splits k \<and> sends_new k \<and> keeps_keys (mk_ops k)"

section \<open>The register\<close>

lemma life_out:
  "o_socks (l_out x) = l_tp x" "o_mpcb (l_out x) = l_mpcb x"
  by (simp_all add: l_tp_def l_mpcb_def fun_eq_iff)

lemma red_ok_cong:
  assumes "red_ok meta s" and "m_red s' = m_red s" and "l_conns (m_life s') = l_conns (m_life s)"
    and "\<And>p. sk_key (m_tp s' p) = sk_key (m_tp s p)"
  shows "red_ok meta s'"
  using assms reg_inv_keys [of "l_tp (m_life s')" "l_tp (m_life s)"]
  by (simp add: red_ok_def red_inv_def red_of_def known_def life_out)

lemma m_sel [simp]:
  "m_queue (m_set_tp sk f s) = m_queue s" "m_sent (m_set_tp sk f s) = m_sent s" "m_red (m_set_tp sk f s) = m_red s"
  "l_mpcb (m_life (m_set_tp sk f s)) = m_mpcb s" "l_conns (m_life (m_set_tp sk f s)) = l_conns (m_life s)"
  "l_tp (m_life (m_set_tp sk f s)) p = (if p = sk then f (m_tp s sk) else m_tp s p)"
  "m_queue (m_set_mpcb g s) = m_queue s" "m_sent (m_set_mpcb g s) = m_sent s" "m_red (m_set_mpcb g s) = m_red s"
  "l_mpcb (m_life (m_set_mpcb g s)) = g (m_mpcb s)" "l_tp (m_life (m_set_mpcb g s)) = l_tp (m_life s)"
  "l_conns (m_life (m_set_mpcb g s)) = connection_list (g (m_mpcb s))"
  "m_queue (m_call c s) = m_queue s" "m_sent (m_call c s) = m_sent s" "m_red (m_call c s) = m_red s" "m_life (m_call c s) = m_life s"
  by (simp_all add: m_set_tp_def m_set_mpcb_def m_call_def life_sel)

lemma conns_mpcb: "connection_list (m_mpcb s) = l_conns (m_life s)"
  by (simp add: l_conns_def)

text \<open>Queues with the same data are the same chains.\<close>

lemma same_data_chain: "list_all2 same_data p q \<Longrightarrow> chain a p b = chain a q b"
  by (induction arbitrary: a rule: list_all2_induct) (simp_all add: same_data_def)

lemma same_data_bytes: "list_all2 same_data p q \<Longrightarrow> bytes p = bytes q"
  by (induction rule: list_all2_induct) (simp_all add: same_data_def)

lemma same_data_fits: "list_all2 same_data p q \<Longrightarrow> (\<forall>b\<in>set p. seg_fits b) = (\<forall>b\<in>set q. seg_fits b)"
  by (induction rule: list_all2_induct) (simp_all add: same_data_def seg_fits_def)

lemmas same_data_queue = same_data_chain same_data_bytes same_data_fits list_all2_lengthD

lemma same_meta_parts:
  assumes "same_meta meta s s'"
  shows "list_all2 same_data (take n (m_queue s')) (take n (m_queue s))" "list_all2 same_data (drop n (m_queue s')) (drop n (m_queue s))"
    "length (m_queue s') = length (m_queue s)" "list_all2 same_data (m_queue s') (m_queue s)" "list_all2 same_data (rq s') (rq s)"
    "snd_high_inv (m_mpcb s') = snd_high_inv (m_mpcb s)" "snd_nxt_64 (m_mpcb s') = snd_nxt_64 (m_mpcb s)"
proof -
  have q: "list_all2 same_data (m_queue s') (m_queue s)" using assms by (simp add: same_meta_def)
  then show "list_all2 same_data (take n (m_queue s')) (take n (m_queue s))" "list_all2 same_data (drop n (m_queue s')) (drop n (m_queue s))"
    "length (m_queue s') = length (m_queue s)" "list_all2 same_data (m_queue s') (m_queue s)"
    by (simp_all add: list_all2_takeI list_all2_dropI list_all2_lengthD)
  show "list_all2 same_data (rq s') (rq s)" using assms by (simp add: same_meta_def)
  obtain r where "m_mpcb s' = (m_mpcb s)\<lparr>reinject_queue := r\<rparr>" using assms unfolding same_meta_def by blast
  then show "snd_high_inv (m_mpcb s') = snd_high_inv (m_mpcb s)" "snd_nxt_64 (m_mpcb s') = snd_nxt_64 (m_mpcb s)"
    by (simp_all add: snd_high_inv_def snd_nxt_64_def fun_eq_iff)
qed

lemma same_meta_inv:
  assumes same: "same_meta meta s s'" and inv: "xmit_inv a meta s"
  shows "xmit_inv a meta s'"
proof -
  have eqs: "m_sent s' = m_sent s" "m_tp s' meta = m_tp s meta" "m_red s' = m_red s" "\<And>p. sk_key (m_tp s' p) = sk_key (m_tp s p)"
    using same by (simp_all add: same_meta_def)
  note p = same_meta_parts [OF same]
  have "queue_ok a meta s'"
    using inv same_data_chain [OF p(1)] same_data_chain [OF p(2)] same_data_fits [OF p(4)] same_data_fits [OF p(5)] p(3,6)
    by (simp add: xmit_inv_def queue_ok_def eqs ball_Un)
  moreover have "red_ok meta s'"
    by (rule red_ok_cong [of meta s]) (use inv eqs same_meta_conns [OF same] in \<open>simp_all add: xmit_inv_def\<close>)
  ultimately show ?thesis by (simp add: xmit_inv_def)
qed

lemma same_meta_advances:
  assumes same: "same_meta meta s s'"
  shows "advances meta s s' \<and> work s' = work s"
proof -
  note p = same_meta_parts [OF same]
  have eqs: "m_sent s' = m_sent s" "m_tp s' meta = m_tp s meta" using same by (simp_all add: same_meta_def)
  have "bytes (unsent_segs s') = bytes (unsent_segs s)" "bytes (rq s') = bytes (rq s)" "length (rq s') = length (rq s)"
    using same_data_bytes [OF p(2)] same_data_bytes [OF p(5)] list_all2_lengthD [OF p(5)] by (simp_all add: eqs)
  then show ?thesis using p(3,7) by (auto simp: advances_def work_def eqs intro: exI [of _ 0])
qed

lemma no_meta_conns: "xmit_inv a meta s \<Longrightarrow> meta \<notin> set (l_conns (m_life s))"
  by (simp add: xmit_inv_def red_ok_def known_def)

context segment_scheduler
begin

lemma nxt_ok:
  assumes "nxt s = (r, s')" and "xmit_inv a meta s"
  shows "xmit_inv a meta s'" "advances meta s s'" "work s' = work s" "m_sent s' = m_sent s"
  using nxt_frame [OF no_meta_conns [OF assms(2)] assms(1)] same_meta_inv [OF _ assms(2)] same_meta_advances
  by (auto simp: same_meta_def)

lemma get_ok:
  assumes "get b z s = (r, s')" and "xmit_inv a meta s"
  shows "xmit_inv a meta s' \<and> advances meta s s' \<and> m_sent s' = m_sent s \<and> list_all2 same_data (m_queue s') (m_queue s) \<and>
    ref_ok ref s' = ref_ok ref s \<and> r \<noteq> Some meta"
proof -
  note f = get_frame [OF no_meta_conns [OF assms(2)] assms(1)]
  have "r \<noteq> Some meta" using get_not_meta [OF no_meta_conns [OF assms(2)]] assms(1) by blast
  then show ?thesis using same_meta_inv [OF f assms(2)] same_meta_advances [OF f] same_meta_ref [OF f] f by (simp add: same_meta_def)
qed

end

lemma xmit_kernelD:
  "xmit_kernel k meta \<Longrightarrow> segment_scheduler (mk_next k) (mk_get_subflow k) meta"
  "xmit_kernel k meta \<Longrightarrow> splits k" "xmit_kernel k meta \<Longrightarrow> sends_new k" "xmit_kernel k meta \<Longrightarrow> keeps_keys (mk_ops k)"
  by (simp_all add: xmit_kernel_def)

section \<open>Segments in their place\<close>

lemma drop_sent: "has_head s \<Longrightarrow> unsent_segs s = seg_at Send_Head s # drop (Suc (m_sent s)) (m_queue s)"
  by (simp add: has_head_def seg_at_def Cons_nth_drop_Suc)

lemma put_segs_simps:
  "m_tp (put_segs ref xs s) = m_tp s" "m_red (put_segs ref xs s) = m_red s" "l_conns (m_life (put_segs ref xs s)) = l_conns (m_life s)"
  "snd_nxt_64 (m_mpcb (put_segs ref xs s)) tp = snd_nxt_64 (m_mpcb s) tp" "snd_high_inv (m_mpcb (put_segs ref xs s)) = snd_high_inv (m_mpcb s)"
  by (cases ref; simp add: put_segs_def snd_nxt_64_def snd_high_inv_def conns_mpcb)+

lemma put_segs_unsent:
  assumes "ref_ok ref s"
  shows "unsent_segs (put_segs ref xs s) = (if ref = Send_Head then xs @ tl (unsent_segs s)
      else unsent_segs (if \<exists>i. ref = In_Queue i \<and> xs = [] then put_segs ref xs s else s))"
    and "rq (put_segs ref xs s) = (if ref = In_Reinject then xs @ tl (rq s) else rq s)"
proof -
  show "unsent_segs (put_segs ref xs s) = (if ref = Send_Head then xs @ tl (unsent_segs s)
      else unsent_segs (if \<exists>i. ref = In_Queue i \<and> xs = [] then put_segs ref xs s else s))"
  proof (cases ref)
    case Send_Head
    then show ?thesis using assms drop_sent [of s]
      by (simp add: put_segs_def ref_ok_def has_head_def splice_take_drop drop_Suc tl_drop)
  next
    case (In_Queue i)
    show ?thesis
    proof (cases "xs = []")
      case False
      then have "Suc i \<le> m_sent s" "m_sent s + length xs - 1 = i + (length xs + (m_sent s - Suc i))"
        using assms In_Queue by (cases xs; simp add: ref_ok_def Suc_le_eq)+
      then show ?thesis using assms In_Queue False
        by (cases "i < length (m_queue s)") (simp_all add: put_segs_def ref_ok_def splice_def)
    qed (simp add: In_Queue)
  qed (simp add: put_segs_def)
  show "rq (put_segs ref xs s) = (if ref = In_Reinject then xs @ tl (rq s) else rq s)"
    by (cases ref) (simp_all add: put_segs_def)
qed

text \<open>A segment that is replaced by others that make the same piece of a chain.\<close>

definition replaces :: "sk_buff list \<Rightarrow> sk_buff \<Rightarrow> bool" where
  "replaces xs b \<longleftrightarrow> xs \<noteq> [] \<and> (\<forall>c d. chain c [b] d \<longrightarrow> chain c xs d) \<and> bytes xs = bytes [b] \<and> (\<forall>x\<in>set xs. seg_fits x)"

lemma put_segs_ok:
  assumes "queue_ok a meta s" and "ref_ok ref s" and "replaces xs (seg_at ref s)"
  shows "queue_ok a meta (put_segs ref xs s)" and "advances meta s (put_segs ref xs s)"
    and "ref_ok ref (put_segs ref xs s)"
proof -
  let ?s = "put_segs ref xs s"
  have xs: "xs \<noteq> []" "\<And>c d. chain c [seg_at ref s] d \<Longrightarrow> chain c xs d" "bytes xs = bytes [seg_at ref s]" "\<forall>x\<in>set xs. seg_fits x"
    using assms(3) unfolding replaces_def by blast+
  have len: "m_sent s \<le> length (m_queue s)" using assms(1) by (simp add: queue_ok_def)
  have tak: "chain a (take (m_sent ?s) (m_queue ?s)) (snd_nxt (m_tp s meta)) \<and> m_sent ?s \<le> length (m_queue ?s)"
  proof (cases ref)
    case (In_Queue i)
    then have i: "i < m_sent s" "i < length (take (m_sent s) (m_queue s))" using assms(2) len by (simp_all add: ref_ok_def)
    have "take (m_sent ?s) (m_queue ?s) = splice i xs (take (m_sent s) (m_queue s))"
    proof -
      have "m_sent s + length xs - 1 = i + (length xs + (m_sent s - Suc i))" using i xs(1) by (cases xs) simp_all
      then show ?thesis using i len
        by (simp add: In_Queue put_segs_def splice_def min_absorb1 take_drop)
    qed
    moreover have "chain a (splice i xs (take (m_sent s) (m_queue s))) (snd_nxt (m_tp s meta))"
      by (rule chain_splice [OF i(2)]) (use assms(1) xs(2) i In_Queue in \<open>simp_all add: queue_ok_def seg_at_def\<close>)
    moreover have "m_sent ?s \<le> length (m_queue ?s)"
      using i len xs(1) by (cases xs) (simp_all add: In_Queue put_segs_def splice_def)
    ultimately show ?thesis by simp
  next
    case Send_Head
    then show ?thesis using assms(1,2) xs(1)
      by (cases xs) (simp_all add: put_segs_def ref_ok_def has_head_def splice_take_drop queue_ok_def)
  qed (use assms(1) in \<open>simp add: put_segs_def queue_ok_def\<close>)
  have uns: "unsent_segs ?s = (if ref = Send_Head then xs @ tl (unsent_segs s) else unsent_segs s)"
    using put_segs_unsent(1) [OF assms(2), of xs] xs(1) by simp
  have head: "ref = Send_Head \<Longrightarrow> unsent_segs s = seg_at ref s # tl (unsent_segs s)"
    using drop_sent [of s] assms(2) by (simp add: ref_ok_def)
  have drp: "chain (snd_nxt (m_tp s meta)) (unsent_segs ?s) (write_seq (m_tp s meta))"
  proof (cases "ref = Send_Head")
    case True
    have "chain (snd_nxt (m_tp s meta)) ([seg_at ref s] @ tl (unsent_segs s)) (write_seq (m_tp s meta))"
      using assms(1) head [OF True] by (simp add: queue_ok_def)
    then obtain c where "chain (snd_nxt (m_tp s meta)) [seg_at ref s] c" "chain c (tl (unsent_segs s)) (write_seq (m_tp s meta))"
      unfolding chain_append by blast
    then have "chain (snd_nxt (m_tp s meta)) (xs @ tl (unsent_segs s)) (write_seq (m_tp s meta))"
      unfolding chain_append using xs(2) by blast
    then show ?thesis using uns True by simp
  qed (use assms(1) uns in \<open>simp add: queue_ok_def\<close>)
  have tl: "set (tl (rq s)) \<subseteq> set (rq s)" by (cases "rq s") auto
  have "set (m_queue ?s) \<subseteq> set (m_queue s) \<union> set xs \<and> set (rq ?s) \<subseteq> set (rq s) \<union> set xs"
  proof (cases ref)
    case In_Reinject
    then show ?thesis using tl by (simp add: put_segs_def) blast
  qed (simp_all add: put_segs_def set_splice le_supI1)
  then have fits: "\<forall>b\<in>set (m_queue ?s) \<union> set (rq ?s). seg_fits b"
    using assms(1) xs(4) by (auto simp: queue_ok_def)
  show "queue_ok a meta ?s" using tak drp fits assms(1) by (simp add: queue_ok_def put_segs_simps)
  have "bytes (unsent_segs ?s) = bytes (unsent_segs s)"
    using uns xs(3) arg_cong [OF head, of bytes] by (cases "ref = Send_Head") simp_all
  then show "advances meta s ?s" by (auto simp: advances_def put_segs_simps intro: exI [of _ 0])
  show "ref_ok ref ?s"
    using assms(2) xs(1) len by (cases ref; cases xs) (auto simp: ref_ok_def put_segs_def has_head_def splice_def)
qed


lemma replaces_same: "same_data x b \<Longrightarrow> seg_fits b \<Longrightarrow> replaces [x] b"
  by (auto simp: replaces_def same_data_def seg_fits_def)

lemma seg_at_fits: "queue_ok a meta s \<Longrightarrow> ref_ok ref s \<Longrightarrow> seg_fits (seg_at ref s)"
  by (cases ref) (auto simp: queue_ok_def ref_ok_def seg_at_def has_head_def)

lemma splits_adjust: "splits k \<Longrightarrow> same_seqs tp (mk_adjust k n tp)"
  by (simp add: splits_def)

lemma same_seqs_refl: "same_seqs tp tp"
  by (simp add: same_seqs_def)

lemma fragment_replaces:
  assumes "mptcp_fragment k skb len r tp = Some (x, y, tp')" and "splits k" and "seg_fits skb" and "len \<le> skb_len skb"
  shows "replaces [x, y] skb" and "same_seqs tp tp'" and "skb_end_seq x - skb_seq x = len"
proof -
  obtain x0 y0 tp0 where f: "mk_fragment k len skb tp = Some (x0, y0, tp0)"
    and x: "skb_seq x = skb_seq x0" "skb_end_seq x = skb_end_seq x0" "skb_len x = skb_len x0"
    and y: "skb_seq y = skb_seq y0" "skb_end_seq y = skb_end_seq y0" "skb_len y = skb_len y0"
    and tp': "same_seqs tp0 tp'"
    using assms(1) splits_adjust [OF assms(2)]
    by (auto simp: mptcp_fragment_def Let_def same_seqs_refl split: option.splits if_splits prod.splits)
  note sp = assms(2) [unfolded splits_def, THEN conjunct1, rule_format, OF f]
  have len: "len \<le> skb_end_seq skb - skb_seq skb" using assms(3,4) unfolding seg_fits_def by (meson order_trans)
  have ua: "unat (skb_end_seq skb - (skb_seq skb + len)) = unat (skb_end_seq skb - skb_seq skb) - unat len"
    using len unat_sub [of len "skb_end_seq skb - skb_seq skb"] by (simp add: algebra_simps)
  have "unat len \<le> unat (skb_end_seq skb - skb_seq skb)" using len by (simp add: word_le_nat_alt)
  moreover have "unat (skb_len skb - len) = unat (skb_len skb) - unat len" "unat len \<le> unat (skb_len skb)"
    using assms(4) unat_sub [OF assms(4)] by (simp_all add: word_le_nat_alt)
  moreover have "unat (skb_len skb) \<le> unat (skb_end_seq skb - skb_seq skb)" "unat (skb_end_seq skb - skb_seq skb) \<le> unat (skb_len skb) + 1"
    "unat (skb_end_seq skb - skb_seq skb) < 2 ^ 31"
    using assms(3) by (simp_all add: seg_fits_def word_le_nat_alt)
  ultimately have "seg_fits x" "seg_fits y"
    using sp x y ua by (auto simp: seg_fits_def word_le_nat_alt)
  then show "replaces [x, y] skb" using sp x y ua \<open>unat len \<le> unat (skb_end_seq skb - skb_seq skb)\<close> by (auto simp: replaces_def)
  show "same_seqs tp tp'" using sp tp' by (simp add: same_seqs_def)
  show "skb_end_seq x - skb_seq x = len" using sp x by simp
qed

section \<open>Sending through rMPTCP\<close>

lemma red_sks_known: "set (reg_sks (w_reg (red_of s))) \<union> set (w_conns (red_of s)) = known s"
  by (simp add: red_of_def known_def conns_mpcb life_out)

lemma send_red_ok:
  assumes ok: "red_ok meta s" and keys: "keeps_keys (mk_ops k)"
  shows "\<exists>ok skb s1. send_red k meta r mss b s = Some (ok, skb, s1) \<and> same_data skb b \<and> red_ok meta s1 \<and>
    m_queue s1 = m_queue s \<and> m_sent s1 = m_sent s \<and> m_tp s1 meta = m_tp s meta \<and>
    (\<exists>i. m_mpcb s1 = (m_mpcb s)\<lparr>infinite_mapping_snd := i\<rparr>)"
proof -
  let ?w = "(m_red s)\<lparr>w_send := (w_send (m_red s))\<lparr>s_skb := b, s_out := l_out (m_life s)\<rparr>\<rparr>"
  have w: "red_inv ?w" "sane (w_sc ?w)" "sysctl_runpathcheck (w_sc ?w) = 0"
    "set (reg_sks (w_reg ?w)) \<union> set (w_conns ?w) = known s"
    using ok red_sks_known [of s] by (simp_all add: red_ok_def red_inv_def red_of_def)
  have few: "card (set (reg_sks (w_reg ?w)) \<union> set (w_conns ?w)) \<le> MAX_NUM_RED_SK" using ok w(4) by (simp add: red_ok_def)
  obtain ok1 w' where w': "rmptcp_send_next_segment (mk_ops k) meta r mss (mk_now k) ?w = Some (ok1, w')" "red_inv w'"
    using next_segment_ok [OF w(1) keys w(2,3) few] by blast
  note f = rmptcp_send_frame [OF w(1,3,2) few w'(1), unfolded w(4)]
  let ?s = "s\<lparr>m_red := w', m_life := (m_life s)\<lparr>l_out := s_out (w_send w')\<rparr>\<rparr>"
  have mt: "meta \<notin> known s" using ok by (simp add: red_ok_def)
  obtain i where i: "m_mpcb ?s = (m_mpcb s)\<lparr>infinite_mapping_snd := i\<rparr>"
    using f by (auto simp: out_frame_def l_mpcb_def)
  then have "l_conns (m_life ?s) = l_conns (m_life s)" by (simp add: l_conns_def)
  then have "known ?s \<subseteq> known s" using f by (auto simp: known_def)
  then have "card (known ?s) \<le> card (known s)" "meta \<notin> known ?s"
    using mt by (auto intro: card_mono simp: known_def)
  then have "red_ok meta ?s" using ok w'(2) f w(2) by (auto simp: red_ok_def red_of_def)
  moreover have "m_tp ?s meta = m_tp s meta" using f mt by (auto simp: out_frame_def l_tp_def)
  ultimately show ?thesis using w'(1) i f by (auto simp: send_red_def Let_def)
qed

lemma send_red_keeps:
  assumes "m_queue s1 = m_queue s" and "m_sent s1 = m_sent s" and "m_tp s1 meta = m_tp s meta"
    and "m_mpcb s1 = (m_mpcb s)\<lparr>infinite_mapping_snd := i\<rparr>"
  shows "queue_ok a meta s1 = queue_ok a meta s" "advances meta s s1" "work s1 = work s" "ref_ok ref s1 = ref_ok ref s"
    "seg_at ref s1 = seg_at ref s"
  using assms by (auto simp: queue_ok_def advances_def work_def ref_ok_def has_head_def seg_at_def snd_nxt_64_def snd_high_inv_def
      split: seg_ref.splits intro: exI [of _ 0])

section \<open>New data\<close>

lemma new_data_sent_ok:
  assumes q: "queue_ok a meta s" and h: "has_head s" and new: "sends_new k" and skb: "b = seg_at Send_Head s"
  shows "queue_ok a meta (new_data_sent k meta b s) \<and> advances meta s (new_data_sent k meta b s) \<and>
    (\<forall>r. red_ok meta s \<longrightarrow> red_ok meta (new_data_sent k meta b s)) \<and>
    work (new_data_sent k meta b s) + 2 * unat (skb_end_seq b - skb_seq b) + 1 = work s"
proof -
  let ?s = "new_data_sent k meta b s"
  let ?d = "skb_end_seq b - skb_seq b"
  let ?inc = "sint ?d" and ?tp = "m_tp s meta"
  have fits: "unat ?d < 2 ^ 31" using seg_at_fits [OF q, of Send_Head] h skb by (simp add: ref_ok_def seg_fits_def)
  have inc: "?inc = int (unat ?d)" "0 \<le> ?inc" "?inc < 2 ^ 31"
    using fits uint_less31 [of ?d] sint_small32 [of ?d] by simp_all
  have un: "unsent_segs s = b # unsent_segs ?s" using drop_sent [OF h] skb by (simp add: new_data_sent_def Let_def)
  have seq: "skb_seq b = snd_nxt ?tp" "chain (skb_end_seq b) (unsent_segs ?s) (write_seq ?tp)"
    using q un by (simp_all add: queue_ok_def)
  have nxt: "snd_nxt (m_tp ?s meta) = skb_end_seq b" "write_seq (m_tp ?s meta) = write_seq ?tp" "snd_una (m_tp ?s meta) = snd_una ?tp"
    "m_queue ?s = m_queue s" "m_sent ?s = m_sent s + 1"
    "m_mpcb ?s = mptcp_check_sndseq_wrap ?tp ?inc (m_mpcb s)"
    using new by (simp_all add: new_data_sent_def Let_def sends_new_def)
  have d: "word_of_int ?inc = ?d" "(word_of_int ?inc :: u64) = of_nat (unat ?d)" using inc(1) by simp_all
  note st = sndseq_wrap_step [of "m_mpcb s" ?inc ?tp, OF _ inc(2,3)]
  have high: "snd_high_inv (m_mpcb s)" using q by (simp add: queue_ok_def)
  have adv: "nxt64 meta ?s = nxt64 meta s + of_nat (unat ?d)" "snd_high_inv (m_mpcb ?s)"
    using st [OF high] seq(1) nxt(1,6) d by (simp_all add: snd_nxt_64_def)
  have rest: "rq ?s = rq s" "l_conns (m_life ?s) = l_conns (m_life s)" "m_red ?s = m_red s"
    "\<And>p. sk_key (m_tp ?s p) = sk_key (m_tp s p)"
    using new by (simp_all add: new_data_sent_def Let_def mptcp_check_sndseq_wrap_def sends_new_def conns_mpcb)
  have tk: "take (m_sent ?s) (m_queue ?s) = take (m_sent s) (m_queue s) @ [b]"
    using h skb nxt(4,5) by (simp add: has_head_def take_Suc_conv_app_nth seg_at_def)
  have "queue_ok a meta ?s"
    using q h seq nxt(1,2,4,5) adv(2) rest(1) unfolding queue_ok_def tk chain_append has_head_def
    by (metis Suc_eq_plus1 Suc_leI chain.simps)
  moreover have "advances meta s ?s" using adv(1) un nxt(2,3) by (auto simp: advances_def intro: exI [of _ "unat ?d"])
  moreover have "work ?s + 2 * unat ?d + 1 = work s" using un rest(1) by (simp add: work_def)
  ultimately show ?thesis using red_ok_cong [of meta s ?s] rest by blast
qed

section \<open>One turn of the loop\<close>

definition sent_before :: "seg_ref \<Rightarrow> bool" where
  "sent_before ref \<longleftrightarrow> (case ref of In_Queue _ \<Rightarrow> True | _ \<Rightarrow> False)"

lemma sent_before_simps [simp]: "\<not> sent_before In_Reinject" "\<not> sent_before Send_Head" "sent_before (In_Queue i)"
  by (simp_all add: sent_before_def)

lemma put_segs_work:
  assumes "ref_ok ref s" and "xs \<noteq> []" and "bytes xs = bytes [seg_at ref s]" and "m_sent s \<le> length (m_queue s)"
  shows "work (put_segs ref xs s) + 1 = work s + (case ref of In_Queue _ \<Rightarrow> 1 | _ \<Rightarrow> length xs)"
proof (cases ref)
  case In_Reinject
  then have eq: "rq s = seg_at ref s # tl (rq s)" using assms(1) by (cases "rq s") (simp_all add: ref_ok_def seg_at_def)
  show ?thesis using In_Reinject assms(3) arg_cong [OF eq, of bytes] arg_cong [OF eq, of length]
    unfolding work_def put_segs_unsent [OF assms(1)] by simp
next
  case Send_Head
  then have eq: "unsent_segs s = seg_at ref s # tl (unsent_segs s)" using drop_sent [of s] assms(1) by (simp add: ref_ok_def)
  show ?thesis using Send_Head assms(3) arg_cong [OF eq, of bytes] arg_cong [OF eq, of length]
    unfolding work_def put_segs_unsent [OF assms(1)] by simp
next
  case (In_Queue i)
  then show ?thesis using assms(2) unfolding work_def put_segs_unsent [OF assms(1)] by simp
qed

lemma drop_reinject_ok:
  assumes "queue_ok a meta s" and "rq s \<noteq> []"
  defines "s' \<equiv> m_set_mpcb (\<lambda>m. m\<lparr>reinject_queue := tl (reinject_queue m)\<rparr>) s"
  shows "queue_ok a meta s'" "advances meta s s'" "red_ok meta s \<longrightarrow> red_ok meta s'"
    "work s' + 2 * unat (skb_end_seq (hd (rq s)) - skb_seq (hd (rq s))) + 1 = work s"
proof -
  obtain b q where q: "rq s = b # q" using assms(2) by (cases "rq s") auto
  show "queue_ok a meta s'" using assms(1) q by (simp add: s'_def queue_ok_def snd_high_inv_def)
  show "advances meta s s'" by (auto simp: s'_def advances_def snd_nxt_64_def intro: exI [of _ 0])
  show "red_ok meta s \<longrightarrow> red_ok meta s'" using red_ok_cong [of meta s s'] by (simp add: s'_def conns_mpcb)
  show "work s' + 2 * unat (skb_end_seq (hd (rq s)) - skb_seq (hd (rq s))) + 1 = work s"
    using q by (simp add: s'_def work_def)
qed

lemma m_call_ok: "queue_ok a meta (m_call c s) = queue_ok a meta s" "red_ok meta (m_call c s) = red_ok meta s"
  "advances meta s1 (m_call c s) = advances meta s1 s" "work (m_call c s) = work s"
  by (simp_all add: queue_ok_def red_ok_def red_of_def known_def advances_def work_def)

lemma seg_at_put:
  assumes "ref_ok ref s" and "m_sent s \<le> length (m_queue s)"
  shows "seg_at ref (put_segs ref (x # xs) s) = x"
  using assms by (cases ref) (simp_all add: ref_ok_def has_head_def seg_at_def put_segs_def splice_def nth_append)

lemma xmit_segment_ok:
  assumes inv: "xmit_inv a meta s" and ref: "ref_ok ref s" and k: "xmit_kernel k meta"
  defines "d \<equiv> unat (skb_end_seq (seg_at ref s) - skb_seq (seg_at ref s))"
  shows "\<exists>st p s'. xmit_segment k meta one ref subsk mss p0 s = Some (st, p, s') \<and> xmit_inv a meta s' \<and> advances meta s s' \<and>
    (st = Go_On \<longrightarrow> work s' + (if sent_before ref then 0 else 2 * d + 1) = work s)"
proof -
  have q: "queue_ok a meta s" and r: "red_ok meta s" using inv by (simp_all add: xmit_inv_def)
  have keys: "keeps_keys (mk_ops k)" and new: "sends_new k" using k by (simp_all add: xmit_kernel_def)
  obtain ok skb s1 where send: "send_red k meta (ref \<noteq> Send_Head) mss (seg_at ref s) s = Some (ok, skb, s1)"
    and same: "same_data skb (seg_at ref s)" and r1: "red_ok meta s1"
    and eqs: "m_queue s1 = m_queue s" "m_sent s1 = m_sent s" "m_tp s1 meta = m_tp s meta"
      "\<exists>i. m_mpcb s1 = (m_mpcb s)\<lparr>infinite_mapping_snd := i\<rparr>"
    using send_red_ok [OF r keys, of "ref \<noteq> Send_Head" mss "seg_at ref s"] by blast
  obtain i where i: "m_mpcb s1 = (m_mpcb s)\<lparr>infinite_mapping_snd := i\<rparr>" using eqs(4) by blast
  note keep = send_red_keeps [OF eqs(1-3) i]
  have q1: "queue_ok a meta s1" "ref_ok ref s1" "seg_at ref s1 = seg_at ref s" using keep q ref by simp_all
  have rep: "replaces [skb] (seg_at ref s1)" using replaces_same [OF same seg_at_fits [OF q ref]] q1(3) by simp
  let ?s2 = "put_segs ref [skb] s1"
  note p2 = put_segs_ok [OF q1(1,2) rep]
  have r2: "red_ok meta ?s2" by (rule red_ok_cong [OF r1]) (simp_all add: put_segs_simps)
  have w2: "work ?s2 = work s"
    using put_segs_work [OF q1(2), of "[skb]"] rep q1(1) keep(3) by (cases ref) (simp_all add: replaces_def queue_ok_def)
  have adv2: "advances meta s ?s2" using advances_trans [OF keep(2) p2(2)] .
  have seg: "seg_at ref ?s2 = skb" by (rule seg_at_put [OF q1(2)]) (use q1(1) in \<open>simp add: queue_ok_def\<close>)
  have d: "d = unat (skb_end_seq skb - skb_seq skb)" using same by (simp add: d_def same_data_def)
  show ?thesis
  proof (cases ok)
    case False
    then show ?thesis using send p2(1) r2 adv2 by (simp add: xmit_segment_def xmit_inv_def)
  next
    case True
    let ?st = "if one then Break else Go_On"
    let ?paths = "p0 OR mptcp_pi_to_flag (path_index (m_tp s1 subsk))"
    show ?thesis
    proof (cases ref)
      case In_Reinject
      let ?s3 = "m_call (Minshall mss) ?s2"
      have ne: "rq ?s3 \<noteq> []" "hd (rq ?s3) = skb" using p2(3) seg In_Reinject by (simp_all add: ref_ok_def seg_at_def)
      have q3: "queue_ok a meta ?s3" "red_ok meta ?s3" "advances meta s ?s3" "work ?s3 = work s"
        using p2(1) r2 adv2 w2 by (simp_all add: m_call_ok)
      note dr = drop_reinject_ok [OF q3(1) ne(1)]
      have "work (m_set_mpcb (\<lambda>m. m\<lparr>reinject_queue := tl (reinject_queue m)\<rparr>) ?s3) + 2 * d + 1 = work s"
        using dr(4) unfolding ne(2) d q3(4) .
      then show ?thesis using dr(1,3) q3(2) advances_trans [OF q3(3) dr(2)] send True In_Reinject
        by (simp add: xmit_segment_def xmit_inv_def Let_def)
    next
      case Send_Head
      have "has_head ?s2" using p2(3) Send_Head by (simp add: ref_ok_def)
      from new_data_sent_ok [OF p2(1) this new, of skb] seg Send_Head
      have n: "queue_ok a meta (new_data_sent k meta skb ?s2)" "advances meta ?s2 (new_data_sent k meta skb ?s2)"
        "red_ok meta (new_data_sent k meta skb ?s2)" "work (new_data_sent k meta skb ?s2) + 2 * d + 1 = work s"
        using r2 d w2 by simp_all
      then show ?thesis using advances_trans [OF adv2 n(2)] send True Send_Head
        by (simp add: xmit_segment_def xmit_inv_def Let_def m_call_ok)
    next
      case (In_Queue j)
      then show ?thesis using p2(1) r2 adv2 w2 send True
        by (simp add: xmit_segment_def xmit_inv_def Let_def m_call_ok)
    qed
  qed
qed

lemma fragment_at_ok:
  assumes inv: "xmit_inv a meta s" and ref: "ref_ok ref s" and k: "splits k" and len: "len \<le> skb_len (seg_at ref s)"
    and res: "fragment_at k meta ref len s = Some s'"
  shows "xmit_inv a meta s' \<and> advances meta s s' \<and> ref_ok ref s' \<and>
    unat (skb_end_seq (seg_at ref s') - skb_seq (seg_at ref s')) = unat len \<and>
    work s' = work s + (if sent_before ref then 0 else 1)"
proof -
  obtain x y tp where f: "mptcp_fragment k (seg_at ref s) len (ref = In_Reinject) (m_tp s meta) = Some (x, y, tp)"
    and s': "s' = m_set_tp meta (\<lambda>_. tp) (put_segs ref [x, y] s)"
    using res by (auto simp: fragment_at_def split: option.splits)
  have q: "queue_ok a meta s" "red_ok meta s" "m_sent s \<le> length (m_queue s)" using inv by (simp_all add: xmit_inv_def queue_ok_def)
  note fr = fragment_replaces [OF f k seg_at_fits [OF q(1) ref] len]
  let ?p = "put_segs ref [x, y] s"
  note p = put_segs_ok [OF q(1) ref fr(1)]
  have tp: "snd_nxt tp = snd_nxt (m_tp s meta)" "write_seq tp = write_seq (m_tp s meta)" "sk_key tp = sk_key (m_tp s meta)"
    "snd_una tp = snd_una (m_tp s meta)"
    using fr(2) by (simp_all add: same_seqs_def)
  have "queue_ok a meta s'" using p(1) tp by (simp add: s' queue_ok_def put_segs_simps)
  moreover have "red_ok meta s'" by (rule red_ok_cong [OF q(2)]) (simp_all add: s' put_segs_simps tp)
  moreover have "advances meta s s'" using p(2) tp by (simp add: s' advances_def put_segs_simps snd_nxt_64_def)
  moreover have "ref_ok ref s'" using p(3) by (simp add: s' ref_ok_def has_head_def split: seg_ref.splits)
  moreover have "seg_at ref s' = x"
    using seg_at_put [OF ref q(3), of x "[y]"] by (simp add: s' seg_at_def split: seg_ref.splits)
  moreover have "work s' = work s + (if sent_before ref then 0 else 1)"
  proof -
    have "bytes [x, y] = bytes [seg_at ref s]" using fr(1) unfolding replaces_def by blast
    from put_segs_work [OF ref _ this q(3)] have "work ?p = work s + (if sent_before ref then 0 else 1)" by (cases ref) simp_all
    moreover have "work s' = work ?p" by (simp add: s' work_def)
    ultimately show ?thesis by simp
  qed
  ultimately show ?thesis using fr(3) by (simp add: xmit_inv_def)
qed

text \<open>Segment sizes and split points are not zero.\<close>

definition sizes :: "meta_kernel \<Rightarrow> bool" where
  "sizes k \<longleftrightarrow> (\<forall>tp. mk_mss k tp \<noteq> 0) \<and> (\<forall>skb mss nagle. mss \<noteq> 0 \<and> mss < skb_len skb \<longrightarrow> mk_split_point k skb mss nagle \<noteq> 0)"

lemma segment_room_pos:
  "sizes k \<Longrightarrow> mss \<noteq> 0 \<Longrightarrow> segment_room k meta nagle skb mss sublimit s \<noteq> 0"
  by (auto simp: segment_room_def Let_def sizes_def min_def)

text \<open>The scheduler offers a segment that was sent before.\<close>

definition offers_sent :: "meta_kernel \<Rightarrow> meta_state \<Rightarrow> bool" where
  "offers_sent k s \<longleftrightarrow> (case fst (mk_next k s) of None \<Rightarrow> False | Some (ref, _, _) \<Rightarrow> sent_before ref)"

lemma three_checks:
  "(if a then x else if \<not> b then x else if \<not> c then x else y) = x \<or> (if a then x else if \<not> b then x else if \<not> c then x else y) = y"
  by simp

lemma xmit_once_fresh:
  assumes "mk_next k s = (Some (ref, subsk, sub), s1)"
    and "\<not> (ref = In_Reinject \<and> \<not> after (skb_end_seq (seg_at ref s1)) (snd_una (m_tp s1 meta)))"
    and mss: "mss = mk_mss k (m_tp s1 subsk)" and l: "l = segment_room k meta nagle (seg_at ref s1) mss sub s1"
  shows "xmit_once k meta nagle one p0 s = Some (Break, p0, s1) \<or>
    xmit_once k meta nagle one p0 s =
      (case (if skb_len (seg_at ref s1) > l then fragment_at k meta ref l s1 else Some s1) of
         None \<Rightarrow> Some (Break, p0, s1) | Some s2 \<Rightarrow> xmit_segment k meta one ref subsk mss p0 s2)"
  unfolding xmit_once_def assms(1) prod.case option.case Let_def if_not_P [OF assms(2)] mss l
  by (rule three_checks)

lemma xmit_once_ok:
  assumes inv: "xmit_inv a meta s" and k: "xmit_kernel k meta"
  shows "\<exists>st p s'. xmit_once k meta nagle one p0 s = Some (st, p, s') \<and> xmit_inv a meta s' \<and> advances meta s s' \<and>
    (sizes k \<and> st = Go_On \<longrightarrow> work s' + 1 \<le> work s + of_bool (offers_sent k s))"
proof -
  obtain r s1 where nx: "mk_next k s = (r, s1)" by (cases "mk_next k s")
  note i1 = segment_scheduler.nxt_ok [OF xmit_kernelD(1) [OF k] nx inv]
  show ?thesis
  proof (cases r)
    case None
    then show ?thesis using nx i1 by (simp add: xmit_once_def)
  next
    case (Some c)
    obtain ref subsk sub where c: "r = Some (ref, subsk, sub)" using Some by (cases c) auto
    have ref: "ref_ok ref s1" using segment_scheduler.nxt_ref [OF xmit_kernelD(1) [OF k] no_meta_conns [OF inv]] nx c by blast
    have os: "offers_sent k s = sent_before ref" using nx c by (simp add: offers_sent_def)
    let ?b = "seg_at ref s1" and ?mss = "mk_mss k (m_tp s1 subsk)"
    let ?l = "segment_room k meta nagle ?b ?mss sub s1"
    have stop: ?thesis if "xmit_once k meta nagle one p0 s = Some (Break, p0, s1)" using that i1 by simp
    show ?thesis
    proof (cases "ref = In_Reinject \<and> \<not> after (skb_end_seq ?b) (snd_una (m_tp s1 meta))")
      case True
      then have ri: "ref = In_Reinject" and old: "\<not> after (skb_end_seq (seg_at In_Reinject s1)) (snd_una (m_tp s1 meta))"
        by auto
      then have ne: "rq s1 \<noteq> []" using ref by (simp add: ref_ok_def)
      have q1: "queue_ok a meta s1" "red_ok meta s1" using i1(1) by (simp_all add: xmit_inv_def)
      let ?s2 = "m_set_mpcb (\<lambda>m. m\<lparr>reinject_queue := tl (reinject_queue m)\<rparr>) s1"
      note dr = drop_reinject_ok [OF q1(1) ne]
      have "xmit_inv a meta ?s2" "work ?s2 + 1 \<le> work s" using dr q1(2) i1(3) by (simp_all add: xmit_inv_def)
      moreover have "xmit_once k meta nagle one p0 s = Some (Go_On, p0, ?s2)"
        using nx c ri old by (simp add: xmit_once_def Let_def put_segs_def)
      ultimately show ?thesis using advances_trans [OF i1(2) dr(2)] by (simp add: trans_le_add1)
    next
      case fresh: False
      have send: ?thesis if x: "xmit_once k meta nagle one p0 s = xmit_segment k meta one ref subsk ?mss p0 s2"
        and i2: "xmit_inv a meta s2" "advances meta s1 s2" "ref_ok ref s2"
        and w: "sizes k \<longrightarrow> (if sent_before ref then work s2 = work s1
          else work s2 < work s1 + 2 * unat (skb_end_seq (seg_at ref s2) - skb_seq (seg_at ref s2)) + 1)" for s2
        using xmit_segment_ok [OF i2(1,3) k, of one subsk ?mss p0] x advances_trans [OF advances_trans [OF i1(2) i2(2)]] w i1(3) os
        by (cases "sent_before ref") fastforce+
      have "?thesis \<or> xmit_once k meta nagle one p0 s =
          (case (if skb_len ?b > ?l then fragment_at k meta ref ?l s1 else Some s1) of
             None \<Rightarrow> Some (Break, p0, s1) | Some s2 \<Rightarrow> xmit_segment k meta one ref subsk ?mss p0 s2)"
        using stop xmit_once_fresh [OF _ fresh refl refl] nx c by blast
      then show ?thesis
      proof
        assume x: "xmit_once k meta nagle one p0 s =
          (case (if skb_len ?b > ?l then fragment_at k meta ref ?l s1 else Some s1) of
             None \<Rightarrow> Some (Break, p0, s1) | Some s2 \<Rightarrow> xmit_segment k meta one ref subsk ?mss p0 s2)"
        show ?thesis
        proof (cases "skb_len ?b > ?l")
          case False
          then show ?thesis using send [of s1] x i1(1) ref by simp
        next
          case long: True
          show ?thesis
          proof (cases "fragment_at k meta ref ?l s1")
            case None
            then show ?thesis using stop x long by simp
          next
            case (Some s2)
            note f = fragment_at_ok [OF i1(1) ref xmit_kernelD(2) [OF k] order_less_imp_le [OF long] Some]
            have "sizes k \<longrightarrow> ?l \<noteq> 0" using segment_room_pos [of k ?mss] unfolding sizes_def by blast
            then have "sizes k \<longrightarrow> 0 < unat ?l" by (simp add: unat_gt_0)
            then show ?thesis using send [of s2] x long Some f by (cases "sent_before ref") simp_all
          qed
        qed
      qed
    qed
  qed
qed

section \<open>The loop\<close>

lemma xmit_loop_ok:
  assumes "xmit_loop n k meta nagle one p0 s = Some (p, s')" and "xmit_inv a meta s" and "xmit_kernel k meta"
  shows "xmit_inv a meta s' \<and> advances meta s s'"
  using assms(1,2)
proof (induction n arbitrary: p0 s)
  case (Suc n)
  obtain st p1 s1 where o: "xmit_once k meta nagle one p0 s = Some (st, p1, s1)" "xmit_inv a meta s1" "advances meta s s1"
    using xmit_once_ok [OF Suc.prems(2) assms(3)] by blast
  then show ?case using Suc advances_trans [OF o(3)] by (cases st) auto
qed simp

text \<open>How many of the first \<open>n\<close> turns offer a segment that was sent before.\<close>

fun repeats :: "nat \<Rightarrow> meta_kernel \<Rightarrow> sk_ptr \<Rightarrow> u8 \<Rightarrow> bool \<Rightarrow> u32 \<Rightarrow> meta_state \<Rightarrow> nat" where
  "repeats 0 k meta nagle push_one mask0 s = 0"
| "repeats (Suc n) k meta nagle push_one mask0 s = of_bool (offers_sent k s) +
     (case xmit_once k meta nagle push_one mask0 s of
        Some (Go_On, paths, s') \<Rightarrow> repeats n k meta nagle push_one paths s'
      | _ \<Rightarrow> 0)"

lemma repeats_none: "(\<And>s. \<not> offers_sent k s) \<Longrightarrow> repeats n k meta nagle push_one mask0 s = 0"
  by (induction n arbitrary: mask0 s) (simp_all split: option.split xmit_step.split)

lemma xmit_loop_ends:
  assumes "work s + repeats n k meta nagle one p0 s < n" and "xmit_inv a meta s" and "xmit_kernel k meta" and "sizes k"
  shows "xmit_loop n k meta nagle one p0 s \<noteq> None"
  using assms(1,2)
proof (induction n arbitrary: p0 s)
  case (Suc n)
  obtain st p1 s1 where o: "xmit_once k meta nagle one p0 s = Some (st, p1, s1)" "xmit_inv a meta s1"
    "st = Go_On \<longrightarrow> work s1 + 1 \<le> work s + of_bool (offers_sent k s)"
    using xmit_once_ok [OF Suc.prems(2) assms(3)] assms(4) by blast
  then show ?case using Suc by (cases st) auto
qed simp

lemma validate_cwnd_same:
  "m_queue (fold (validate_cwnd p) sks s) = m_queue s \<and> m_sent (fold (validate_cwnd p) sks s) = m_sent s \<and>
   m_red (fold (validate_cwnd p) sks s) = m_red s \<and> m_life (fold (validate_cwnd p) sks s) = m_life s"
  by (induction sks arbitrary: s) (simp_all add: validate_cwnd_def Let_def)

lemma write_xmit_ok:
  assumes "mptcp_write_xmit n k meta nagle push_one s = Some (again, s')" and "xmit_inv a meta s" and "xmit_kernel k meta"
  shows "xmit_inv a meta s' \<and> advances meta s s'"
proof -
  obtain p s1 where l: "xmit_loop n k meta nagle push_one 0 s = Some (p, s1)"
    and s': "s' = fold (validate_cwnd p) (l_conns (m_life s1)) s1"
    using assms(1) by (auto simp: mptcp_write_xmit_def Let_def split: option.splits)
  have i: "xmit_inv a meta s1" "advances meta s s1" using xmit_loop_ok [OF l assms(2,3)] by blast+
  have "same_meta meta s1 s'" by (rule same_metaI) (use validate_cwnd_same [of p] in \<open>simp_all add: s'\<close>)
  then show ?thesis using same_meta_inv [OF _ i(1)] same_meta_advances advances_trans [OF i(2)] by blast
qed

text \<open>C8. Sending on the connection, with any scheduler that has the contract of Meta_Sched, as the default one has (it may clear path masks
  of queued segments and reduce windows of subflows; it offers a segment to reinject, the next new one or one that is
  sent again), whatever the window, Nagle and memory checks of TCP answer and however often a segment is
  split: the write queue stays one chain of sequence numbers whose sent part ends at \<open>snd_nxt\<close> and whose rest ends at
  \<open>write_seq\<close>, rMPTCP's register stays well formed, and the 64-bit number of the next byte
  (the high half that \<open>mptcp_check_sndseq_wrap\<close> keeps, put before \<open>snd_nxt\<close>) advances by exactly the
  bytes that left the unsent part.\<close>

theorem mptcp_write_xmit_keeps_chain:
  assumes "mptcp_write_xmit n k meta nagle push_one s = Some (again, s')" and "xmit_inv a meta s" and "xmit_kernel k meta"
  shows "xmit_inv a meta s' \<and> advances meta s s'"
  by (rule write_xmit_ok [OF assms])

lemma write_xmit_ends:
  assumes "xmit_inv a meta s" and "xmit_kernel k meta" and "sizes k" and "work s + repeats n k meta nagle push_one 0 s < n"
  shows "\<exists>again s'. mptcp_write_xmit n k meta nagle push_one s = Some (again, s')"
  using xmit_loop_ends [OF assms(4,1,2,3)] by (auto simp: mptcp_write_xmit_def Let_def)


section \<open>With the default scheduler\<close>

lemma default_kernel_simps [simp]:
  "mk_next (default_kernel i meta k) = default_next k i meta" "mk_get_subflow (default_kernel i meta k) = default_get k i meta"
  "splits (default_kernel i meta k) = splits k" "sends_new (default_kernel i meta k) = sends_new k"
  "mk_ops (default_kernel i meta k) = mk_ops k" "sizes (default_kernel i meta k) = sizes k"
  by (simp_all add: default_kernel_def splits_def sends_new_def sizes_def)

lemma default_xmit_kernel:
  "splits k \<Longrightarrow> sends_new k \<Longrightarrow> keeps_keys (mk_ops k) \<Longrightarrow> xmit_kernel (default_kernel i meta k) meta"
  by (simp add: xmit_kernel_def default_segments.segment_scheduler_axioms)

text \<open>With room in the send window and a writer that is not blocked, nothing is repeated and the waiting data bound the turns.\<close>

lemma default_repeats:
  assumes "\<And>tp b mss. mk_wnd_test k tp b mss" and "\<And>s. \<not> si_nospace i s"
  shows "repeats n (default_kernel i meta k) meta nagle push_one mask0 s = 0"
proof (rule repeats_none)
  fix s
  obtain r s' where n: "default_next k i meta s = (r, s')" by fastforce
  have "\<not> sent_before ref" if "r = Some (ref, sk, l)" for ref sk l
    using default_no_repeat [OF n [unfolded that] assms] by auto
  then show "\<not> offers_sent (default_kernel i meta k) s" using n by (auto simp: offers_sent_def split: option.splits)
qed

section \<open>Closed instances\<close>

definition sample_segs :: "sk_buff list" where
  "sample_segs = [sample_skb, sample_skb\<lparr>skb_seq := 100, skb_end_seq := 301, skb_len := 200\<rparr>]"

definition sample_meta :: meta_state where
  "sample_meta = \<lparr>m_life = sample_life\<lparr>l_out := sample_out\<lparr>o_socks := (\<lambda>_. sample_sock)(0 := sample_sock\<lparr>snd_nxt := 100, write_seq := 301\<rparr>)\<rparr>\<rparr>,
     m_red = sample_world, m_queue = sample_segs, m_sent = 1, m_pushed_seq = 0, m_snd_up = 0, m_snd_wnd = 1000, m_wl1 = 0, m_max_window = 1000,
     m_retrans_stamp = 0, m_rcv_tstamp = 0, m_probes_out = 0, m_fclose = False, m_rbuf_opti = (\<lambda>_. 0), m_calls = []\<rparr>"

text \<open>The default scheduler on a TCP that cuts segments at the wanted length.\<close>

definition sample_inputs :: sched_inputs where
  "sample_inputs = \<lparr>si_cwnd_test = (\<lambda>_ _. 10), si_usecs_to_jiffies = id, si_dfin_path_index = (\<lambda>_. 0), si_has_socket = (\<lambda>_. True),
     si_nospace = (\<lambda>_. False), si_wspace = (\<lambda>_. 0), si_min_wspace = (\<lambda>_. 0), si_memory_free = (\<lambda>_. True)\<rparr>"

definition sample_tcp :: meta_kernel where
  "sample_tcp = \<lparr>mk_ops = sample_ops, mk_life = sample_life_kernel, mk_now = 5, mk_stamp = 1, mk_jiffies = 10,
     mk_next = (\<lambda>s. (None, s)), mk_get_subflow = (\<lambda>_ _ s. (None, s)), mk_ack_sock = (\<lambda>_. Some 1), mk_mss = (\<lambda>_. 100),
     mk_unclone = (\<lambda>_. False), mk_wnd_test = (\<lambda>_ _ _. True),
     mk_nagle_test = (\<lambda>_ _ _ _. True), mk_split_point = (\<lambda>_ mss _. mss), mk_urg = (\<lambda>_. False),
     mk_fragment = (\<lambda>n b tp. Some (b\<lparr>skb_end_seq := skb_seq b + n, skb_len := n\<rparr>, b\<lparr>skb_seq := skb_seq b + n, skb_len := skb_len b - n\<rparr>, tp)),
     mk_pcount = (\<lambda>_. 1), mk_adjust = (\<lambda>_ tp. tp), mk_new_data = (\<lambda>b tp. tp\<lparr>snd_nxt := skb_end_seq b\<rparr>), mk_probe = (\<lambda>_ _. 0),
     mk_need_reset = (\<lambda>_. True), mk_write_timeout = (\<lambda>_. False), mk_send_full = (\<lambda>_. False), mk_rto_max = 120000,
     mk_thin = (\<lambda>_. False), mk_thin_retries = 6\<rparr>"

definition sample_meta_kernel :: meta_kernel where
  "sample_meta_kernel = default_kernel sample_inputs 0 sample_tcp"

lemma sample_meta_kernel_ok: "xmit_kernel sample_meta_kernel 0" "sizes sample_meta_kernel"
proof -
  have "splits sample_tcp" "sends_new sample_tcp" "keeps_keys (mk_ops sample_tcp)"
    by (auto simp: sample_tcp_def splits_def sends_new_def keeps_keys_def sample_ops_def same_seqs_def sk_key_def)
  then show "xmit_kernel sample_meta_kernel 0" unfolding sample_meta_kernel_def by (rule default_xmit_kernel)
  show "sizes sample_meta_kernel" by (simp add: sample_meta_kernel_def) (simp add: sample_tcp_def sizes_def)
qed

lemma sample_repeats: "repeats n sample_meta_kernel 0 nagle push_one mask0 s = 0"
  unfolding sample_meta_kernel_def by (rule default_repeats) (simp_all add: sample_tcp_def sample_inputs_def)

lemma sample_meta_inv: "xmit_inv 0 0 sample_meta" "work sample_meta = 403"
proof -
  have "reg_state (w_reg sample_world) = phase_flag Open"
    by (simp add: sample_world_def sample_send_def sample_reg_def phase_flag_def)
  moreover have "unat (previous_skevent_i (w_reg sample_world)) < MAX_NUM_RED_SK"
    by (simp add: sample_world_def sample_send_def sample_reg_def MAX_NUM_RED_SK_def)
  moreover have "known sample_meta = {1, 2, 3}"
    by (auto simp: known_def sample_meta_def l_conns_def l_mpcb_def sample_world_def sample_send_simps sample_out_def sample_mpcb_def)
  ultimately have "red_ok 0 sample_meta"
    by (auto simp: red_ok_def red_inv_def reg_inv_def reg_sorted_def red_of_def sample_meta_def sample_world_def sample_send_simps
        sane_def sample_sysctls_def MAX_NUM_RED_SK_def)
  moreover have "queue_ok 0 0 sample_meta"
    by (simp add: queue_ok_def sample_meta_def sample_segs_def l_tp_def l_mpcb_def seg_fits_def sample_skb_def sample_out_def
        sample_mpcb_def snd_high_inv_def)
  ultimately show "xmit_inv 0 0 sample_meta" by (simp add: xmit_inv_def)
  show "work sample_meta = 403"
    by (simp add: work_def sample_meta_def sample_segs_def l_mpcb_def sample_skb_def sample_out_def sample_mpcb_def)
qed


theorem mptcp_write_xmit_keeps_chain_witness:
  "\<exists>again s'. mptcp_write_xmit 404 sample_meta_kernel 0 0 False sample_meta = Some (again, s') \<and> xmit_inv 0 0 s' \<and> advances 0 sample_meta s'"
proof -
  obtain again s' where r: "mptcp_write_xmit 404 sample_meta_kernel 0 0 False sample_meta = Some (again, s')"
    using write_xmit_ends [OF sample_meta_inv(1) sample_meta_kernel_ok, of 404 0 False] by (auto simp: sample_meta_inv(2) sample_repeats)
  then show ?thesis using mptcp_write_xmit_keeps_chain [OF r sample_meta_inv(1) sample_meta_kernel_ok(1)] by blast
qed

end
