(* ===== verification/Meta_Steps.thy ===== *)
theory Meta_Steps
  imports Meta_Xmit
begin

text \<open>
  The operations of the connection that touch the write queue as a step relation: sending, the window probe, a
  retransmission and the data-FIN.  In every state that they reach the queue is one chain of sequence numbers around \<open>snd_nxt\<close>.
\<close>

section \<open>Segments on a subflow\<close>

lemma entail_at_ok:
  assumes inv: "xmit_inv a meta s" and ref: "ref_ok ref s" and sk: "sk \<noteq> meta" and keys: "keeps_keys (mk_ops k)"
    and res: "entail_at k meta sk ref r s = (ok, s')"
  shows "xmit_inv a meta s' \<and> advances meta s s' \<and> ref_ok ref s'"
proof -
  obtain skb out where e: "mptcp_skb_entail (mk_ops k) meta sk (seg_at ref s) r (l_out (m_life s)) = (ok, skb, out)"
    and s': "s' = put_segs ref [skb] (s\<lparr>m_life := (m_life s)\<lparr>l_out := out\<rparr>\<rparr>)"
    using res by (auto simp: entail_at_def split: prod.splits)
  let ?s = "s\<lparr>m_life := (m_life s)\<lparr>l_out := out\<rparr>\<rparr>"
  have q: "queue_ok a meta s" "red_ok meta s" using inv by (simp_all add: xmit_inv_def)
  have fr: "same_data skb (seg_at ref s)" "out_frame {sk} (l_out (m_life s)) out" using entail_frame [OF e, of "{sk}"] by auto
  have tp: "m_tp ?s meta = m_tp s meta" using fr(2) sk by (auto simp: out_frame_def l_tp_def)
  obtain i where i: "m_mpcb ?s = (m_mpcb s)\<lparr>infinite_mapping_snd := i\<rparr>" using fr(2) by (auto simp: out_frame_def l_mpcb_def)
  have key: "sk_key (m_tp ?s p) = sk_key (m_tp s p)" for p using entail_key [OF keys e] by (simp add: l_tp_def)
  note keep = send_red_keeps [of ?s s meta i, OF _ _ tp i, simplified]
  have q1: "queue_ok a meta ?s" "ref_ok ref ?s" "seg_at ref ?s = seg_at ref s" using keep q(1) ref by simp_all
  have "replaces [skb] (seg_at ref ?s)" using replaces_same [OF fr(1) seg_at_fits [OF q(1) ref]] q1(3) by simp
  note p = put_segs_ok [OF q1(1,2) this]
  have "l_conns (m_life ?s) = l_conns (m_life s)" using i by (simp add: l_conns_def)
  then have "red_ok meta ?s" using red_ok_cong [OF q(2), of ?s] key by simp
  then have "red_ok meta s'" unfolding s' by (rule red_ok_cong) (simp_all add: put_segs_simps)
  then show ?thesis using p advances_trans [OF _ p(2)] keep(2) by (simp add: s' xmit_inv_def)
qed

lemma picks_ok:
  assumes "xmit_kernel k meta" and "mk_get_subflow k b z s = (r, s')" and "xmit_inv a meta s"
  shows "xmit_inv a meta s' \<and> advances meta s s' \<and> m_sent s' = m_sent s \<and> list_all2 same_data (m_queue s') (m_queue s) \<and>
    ref_ok ref s' = ref_ok ref s \<and> r \<noteq> Some meta"
  by (rule segment_scheduler.get_ok [OF xmit_kernelD(1) [OF assms(1)] assms(2,3)])

section \<open>Probes\<close>

lemma probe_all_same:
  "m_queue (snd (probe_all k u s)) = m_queue s \<and> m_sent (snd (probe_all k u s)) = m_sent s \<and>
   m_red (snd (probe_all k u s)) = m_red s \<and> m_life (snd (probe_all k u s)) = m_life s"
proof -
  let ?f = "\<lambda>sk (ans, s). if \<not> mptcp_sk_can_send_ack (m_tp s sk) then (ans, s)
             else let ret = mk_probe k sk u in (if ret > 0 then ret else ans, m_call (Probe sk u) s)"
  have "m_queue (snd (fold ?f sks r)) = m_queue (snd r) \<and> m_sent (snd (fold ?f sks r)) = m_sent (snd r) \<and>
    m_red (snd (fold ?f sks r)) = m_red (snd r) \<and> m_life (snd (fold ?f sks r)) = m_life (snd r)" for sks r
    by (induction sks arbitrary: r) (simp_all add: split_beta Let_def)
  then show ?thesis unfolding probe_all_def by simp
qed

lemma window_probe_same: "same_meta meta s (snd (window_probe k meta s))"
  by (rule same_metaI) (use probe_all_same in \<open>simp_all add: window_probe_def Let_def\<close>)

lemma wakeup_send_ok:
  assumes inv: "xmit_inv a meta s" and h: "has_head s" and sk: "sk \<noteq> meta" and k: "xmit_kernel k meta"
  shows "xmit_inv a meta (snd (wakeup_send k meta sk mss s)) \<and> advances meta s (snd (wakeup_send k meta sk mss s))"
proof -
  have q: "queue_ok a meta s" "red_ok meta s" "ref_ok Send_Head s" using inv h by (simp_all add: xmit_inv_def ref_ok_def)
  have keys: "keeps_keys (mk_ops k)" and new: "sends_new k" using k by (simp_all add: xmit_kernel_def)
  let ?s0 = "put_segs Send_Head [push_psh (seg_at Send_Head s)] s"
  have "same_data (push_psh (seg_at Send_Head s)) (seg_at Send_Head s)" by (simp add: same_data_def push_psh_def)
  note p = put_segs_ok [OF q(1,3) replaces_same [OF this seg_at_fits [OF q(1,3)]]]
  have "red_ok meta ?s0" by (rule red_ok_cong [OF q(2)]) (simp_all add: put_segs_simps)
  then have i0: "xmit_inv a meta ?s0" using p(1) by (simp add: xmit_inv_def)
  obtain ok s1 where e: "entail_at k meta sk Send_Head False ?s0 = (ok, s1)" by (cases "entail_at k meta sk Send_Head False ?s0")
  have i1: "xmit_inv a meta s1" "advances meta s s1" "has_head s1"
    using entail_at_ok [OF i0 p(3) sk keys e] advances_trans [OF p(2)] by (simp_all add: ref_ok_def)
  then have q1: "queue_ok a meta s1" "red_ok meta s1" by (simp_all add: xmit_inv_def)
  show ?thesis
    using new_data_sent_ok [OF q1(1) i1(3) new refl] q1(2) i1 e advances_trans [OF i1(2)]
    by (cases ok) (simp_all add: wakeup_send_def xmit_inv_def m_call_ok)
qed

lemma wakeup_split_ok:
  assumes inv: "xmit_inv a meta s" and h: "has_head s" and sk: "sk \<noteq> meta" and k: "xmit_kernel k meta"
    and len: "len \<le> skb_len (seg_at Send_Head s)"
    and s1: "s1 = put_segs Send_Head [push_psh (seg_at Send_Head s)] s"
    and r: "r = (case fragment_at k meta Send_Head len s1 of None \<Rightarrow> (- 1, s1) | Some s2 \<Rightarrow> wakeup_send k meta sk mss s2)"
  shows "xmit_inv a meta (snd r) \<and> advances meta s (snd r)"
proof -
  have q: "queue_ok a meta s" "red_ok meta s" "ref_ok Send_Head s" using inv h by (simp_all add: xmit_inv_def ref_ok_def)
  have "same_data (push_psh (seg_at Send_Head s)) (seg_at Send_Head s)" by (simp add: same_data_def push_psh_def)
  note p = put_segs_ok [OF q(1,3) replaces_same [OF this seg_at_fits [OF q(1,3)]], folded s1]
  have "red_ok meta s1" unfolding s1 by (rule red_ok_cong [OF q(2)]) (simp_all add: put_segs_simps)
  then have i1: "xmit_inv a meta s1" using p(1) by (simp add: xmit_inv_def)
  have "seg_at Send_Head s1 = push_psh (seg_at Send_Head s)"
    unfolding s1 by (rule seg_at_put [OF q(3)]) (use q(1) in \<open>simp add: queue_ok_def\<close>)
  then have l: "len \<le> skb_len (seg_at Send_Head s1)" using len by (simp add: push_psh_def)
  have sp: "splits k" using k by (simp add: xmit_kernel_def)
  show ?thesis
  proof (cases "fragment_at k meta Send_Head len s1")
    case None
    then show ?thesis using i1 p(2) by (simp add: r)
  next
    case (Some s2)
    have f: "xmit_inv a meta s2" "advances meta s s2" "has_head s2"
      using fragment_at_ok [OF i1 p(3) sp l Some] advances_trans [OF p(2)] by (simp_all add: ref_ok_def)
    then show ?thesis using wakeup_send_ok [OF f(1,3) sk k, of mss] advances_trans [OF f(2)] Some by (simp add: r)
  qed
qed

lemma write_wakeup_ok:
  assumes inv: "xmit_inv a meta s" and k: "xmit_kernel k meta"
  shows "xmit_inv a meta (snd (mptcp_write_wakeup k meta s)) \<and> advances meta s (snd (mptcp_write_wakeup k meta s))"
proof -
  have wp: "xmit_inv a meta (snd (window_probe k meta t)) \<and> advances meta t (snd (window_probe k meta t))"
    if "xmit_inv a meta t" for t
    using same_meta_inv [OF window_probe_same that] same_meta_advances [OF window_probe_same] by blast
  consider (closed) "sk_state (m_tp s meta) = TCP_CLOSE"
    | (idle) "sk_state (m_tp s meta) \<noteq> TCP_CLOSE" "\<not> (has_head s \<and> before (skb_seq (seg_at Send_Head s)) (tcp_wnd_end (m_tp s meta)))"
    | (send) "sk_state (m_tp s meta) \<noteq> TCP_CLOSE" "has_head s" "before (skb_seq (seg_at Send_Head s)) (tcp_wnd_end (m_tp s meta))"
    by blast
  then show ?thesis
  proof cases
    case idle
    then have "mptcp_write_wakeup k meta s = window_probe k meta s" unfolding mptcp_write_wakeup_def by (simp only: if_False)
    then show ?thesis using wp [OF inv] by simp
  next
    case send
    obtain r s1 where g: "mk_get_subflow k (Some Send_Head) True s = (r, s1)" by fastforce
    have pk: "xmit_inv a meta s1" "advances meta s s1" "has_head s1" "r \<noteq> Some meta"
      using picks_ok [OF k g inv, of Send_Head] send(2) by (simp_all add: ref_ok_def)
    show ?thesis
    proof (cases r)
      case None
      then show ?thesis using send g wp [OF pk(1)] advances_trans [OF pk(2)] by (simp add: mptcp_write_wakeup_def)
    next
      case (Some sk)
      let ?b = "seg_at Send_Head s1" and ?mss = "mk_mss k (m_tp s1 sk)"
      let ?size = "min (tcp_wnd_end (m_tp s1 meta) - skb_seq ?b) (tcp_wnd_end (m_tp s1 sk) - write_seq (m_tp s1 sk))"
      define s2 where "s2 = (if before (m_pushed_seq s1) (skb_end_seq ?b) then s1\<lparr>m_pushed_seq := skb_end_seq ?b\<rparr> else s1)"
      have same: "same_meta meta s1 s2" by (rule same_metaI) (simp_all add: s2_def)
      have i2: "xmit_inv a meta s2" "advances meta s s2" "has_head s2" "sk \<noteq> meta" and b2: "seg_at Send_Head s2 = ?b"
        using same_meta_inv [OF same pk(1)] same_meta_advances [OF same] advances_trans [OF pk(2)] pk(3,4) Some
        by (auto simp: has_head_def seg_at_def s2_def)
      show ?thesis
      proof (cases "?size < skb_end_seq ?b - skb_seq ?b \<or> skb_len ?b > ?mss")
        case False
        then have "mptcp_write_wakeup k meta s = wakeup_send k meta sk ?mss s2"
          using send g Some by (simp add: mptcp_write_wakeup_def Let_def s2_def)
        then show ?thesis using wakeup_send_ok [OF i2(1,3,4) k, of ?mss] advances_trans [OF i2(2)] by simp
      next
        case True
        have "unat (skb_end_seq ?b - skb_seq ?b) \<le> unat (skb_len ?b) + 1"
          using seg_at_fits [of a meta s2 Send_Head] i2(1,3) b2 by (simp add: xmit_inv_def ref_ok_def seg_fits_def)
        then have len: "min ?size ?mss \<le> skb_len (seg_at Send_Head s2)"
          using True b2 by (auto simp: word_less_nat_alt word_le_nat_alt min_def)
        have "mptcp_write_wakeup k meta s = (let s3 = put_segs Send_Head [push_psh (seg_at Send_Head s2)] s2
            in case fragment_at k meta Send_Head (min ?size ?mss) s3 of None \<Rightarrow> (- 1, s3) | Some s4 \<Rightarrow> wakeup_send k meta sk ?mss s4)"
          using True send g Some b2 by (simp add: mptcp_write_wakeup_def Let_def s2_def)
        then show ?thesis using wakeup_split_ok [OF i2(1,3,4) k len refl refl, of ?mss] advances_trans [OF i2(2)] by (simp add: Let_def)
      qed
    qed
  qed (simp add: mptcp_write_wakeup_def inv)
qed

section \<open>Retransmission\<close>

lemma retransmit_result: "mptcp_retransmit_skb k meta i s = Some (err, s') \<Longrightarrow> err \<le> 0"
  by (auto simp: mptcp_retransmit_skb_def Let_def EAGAIN_def ENOMEM_NR_def split: if_splits option.splits prod.splits bool.splits)

lemma retransmit_ok:
  assumes inv: "xmit_inv a meta s" and sent: "i < m_sent s" and k: "xmit_kernel k meta"
    and res: "mptcp_retransmit_skb k meta i s = Some (err, s')"
  shows "xmit_inv a meta s' \<and> advances meta s s'"
proof (cases "mk_send_full k s")
  case True
  then show ?thesis using res inv by (simp add: mptcp_retransmit_skb_def)
next
  case full: False
  obtain r s1 where g: "mk_get_subflow k (Some (In_Queue i)) False s = (r, s1)" by fastforce
  have i1: "xmit_inv a meta s1" "advances meta s s1" "ref_ok (In_Queue i) s1" "r \<noteq> Some meta"
    using picks_ok [OF k g inv, of "In_Queue i"] sent by (simp_all add: ref_ok_def)
  have k': "splits k" "keeps_keys (mk_ops k)" using k by (simp_all add: xmit_kernel_def)
  show ?thesis
  proof (cases r)
    case None
    then show ?thesis using res full g i1 by (simp add: mptcp_retransmit_skb_def)
  next
    case (Some sk)
    let ?b = "m_queue s1 ! i" and ?mss = "mk_mss k (m_tp s1 sk)"
    define l where "l = (if skb_len ?b > ?mss \<and> \<not> mk_urg k (m_tp s1 meta) then mk_split_point k ?b ?mss TCP_NAGLE_OFF_FLAG else ?mss)"
    define cut where "cut = (if skb_len ?b > l then fragment_at k meta (In_Queue i) l s1 else Some s1)"
    have cut': "(if skb_len ?b > l then case mptcp_fragment k ?b l False (m_tp s1 meta) of None \<Rightarrow> None
        | Some (a, b, tp) \<Rightarrow> Some (m_set_tp meta (\<lambda>_. tp) (put_segs (In_Queue i) [a, b] s1)) else Some s1) = cut"
      by (simp add: cut_def fragment_at_def seg_at_def)
    have "s' = s1 \<or> (\<exists>s2 ok s3. cut = Some s2 \<and> entail_at k meta sk (In_Queue i) True s2 = (ok, s3) \<and> same_meta meta s3 s')"
      using res full g Some unfolding mptcp_retransmit_skb_def
      by (auto simp: Let_def cut' intro!: same_metaI simp flip: l_def split: if_splits option.splits prod.splits bool.splits)
    then show ?thesis
    proof
      assume "s' = s1"
      then show ?thesis using i1 by simp
    next
      assume "\<exists>s2 ok s3. cut = Some s2 \<and> entail_at k meta sk (In_Queue i) True s2 = (ok, s3) \<and> same_meta meta s3 s'"
      then obtain s2 ok s3 where c: "cut = Some s2" "entail_at k meta sk (In_Queue i) True s2 = (ok, s3)" "same_meta meta s3 s'"
        by blast
      have i2: "xmit_inv a meta s2 \<and> advances meta s s2 \<and> ref_ok (In_Queue i) s2"
        using c(1) i1 fragment_at_ok [OF i1(1,3) k'(1), of l s2] advances_trans [OF i1(2)]
        by (auto simp: cut_def seg_at_def split: if_splits)
      have "sk \<noteq> meta" using i1(4) Some by simp
      note e = entail_at_ok [OF _ _ this k'(2) c(2)]
      have "xmit_inv a meta s3" "advances meta s s3" using e i2 advances_trans [of meta s s2] by blast+
      then show ?thesis using same_meta_inv [OF c(3)] same_meta_advances [OF c(3)] advances_trans [of meta s s3] by blast
    qed
  qed
qed

section \<open>The data-FIN\<close>

lemma chain_last: "q \<noteq> [] \<Longrightarrow> chain a q b \<Longrightarrow> chain a (last_segment add_dfin q) (b + 1)"
proof (induction q arbitrary: a)
  case (Cons x q)
  then show ?case by (cases "q = []") (auto simp: last_segment_def add_dfin_def)
qed simp

lemma drop_last_segment: "n < length q \<Longrightarrow> drop n (last_segment f q) = last_segment f (drop n q) \<and> take n (last_segment f q) = take n q"
  by (cases q rule: rev_cases) (auto simp: last_segment_def drop_append butlast_append)

text \<open>The last waiting segment, if there is one, does not carry a FIN yet and is not of the greatest size.\<close>

definition room_for_fin :: "meta_state \<Rightarrow> bool" where
  "room_for_fin s \<longleftrightarrow> (has_head s \<longrightarrow>
     (let b = last (m_queue s) in skb_end_seq b - skb_seq b = skb_len b \<and> unat (skb_len b) + 1 < 2 ^ 31))"

lemma add_dfin_fits:
  assumes "skb_end_seq b - skb_seq b = skb_len b" and "unat (skb_len b) + 1 < 2 ^ 31"
  shows "seg_fits (add_dfin b)"
proof -
  have e: "skb_end_seq (add_dfin b) - skb_seq (add_dfin b) = skb_len b + 1" "skb_len (add_dfin b) = skb_len b"
    using assms(1) by (simp_all add: add_dfin_def algebra_simps)
  have u: "unat (skb_len b + 1) = unat (skb_len b) + 1" using assms(2) unat_bound [of "skb_len b"] by (simp add: unat_word_ariths)
  show ?thesis using assms(2) unfolding seg_fits_def word_le_nat_alt e u by simp
qed

lemma dfin_segment_fits: "seg_fits (dfin_segment n)"
  by (simp add: seg_fits_def dfin_segment_def)

lemma send_fin_ok:
  assumes inv: "xmit_inv a meta s" and room: "room_for_fin s" and res: "mptcp_send_fin k meta s = Some s'"
  shows "xmit_inv a meta s' \<and> nxt64 meta s' = nxt64 meta s"
proof -
  define s1 where "s1 = (if sk_state (m_tp s meta) \<in> {TCP_CLOSE_WAIT, TCP_LAST_ACK} then m_set_mpcb (\<lambda>m. m\<lparr>passive_close := True\<rparr>) s else s)"
  have s1: "m_queue s1 = m_queue s" "m_sent s1 = m_sent s" "m_red s1 = m_red s" "rq s1 = rq s" "l_tp (m_life s1) = l_tp (m_life s)"
    "l_conns (m_life s1) = l_conns (m_life s)" "snd_nxt_64 (m_mpcb s1) = snd_nxt_64 (m_mpcb s)"
    "snd_high_inv (m_mpcb s1) = snd_high_inv (m_mpcb s)"
    by (auto simp: s1_def conns_mpcb snd_nxt_64_def fun_eq_iff snd_high_inv_def)
  define q where "q = (if has_head s then last_segment add_dfin (m_queue s) else m_queue s @ [dfin_segment (write_seq (m_tp s meta))])"
  have "\<exists>mss. s' = m_call (Push_Meta mss TCP_NAGLE_OFF_FLAG) (m_set_tp meta (\<lambda>tp. tp\<lparr>write_seq := write_seq tp + 1\<rparr>) (s1\<lparr>m_queue := q\<rparr>))"
    using res unfolding mptcp_send_fin_def Let_def s1_def [symmetric]
    by (auto simp: q_def has_head_def s1(1,2,5) split: if_splits)
  then have s': "m_queue s' = q" "m_sent s' = m_sent s" "m_red s' = m_red s" "rq s' = rq s" "snd_nxt (m_tp s' meta) = snd_nxt (m_tp s meta)"
    "write_seq (m_tp s' meta) = write_seq (m_tp s meta) + 1" "l_conns (m_life s') = l_conns (m_life s)"
    "\<And>p. sk_key (m_tp s' p) = sk_key (m_tp s p)" "snd_high_inv (m_mpcb s') = snd_high_inv (m_mpcb s)"
    "snd_nxt_64 (m_mpcb s') = snd_nxt_64 (m_mpcb s)"
    using s1 by (auto simp: sk_key_def)
  have nxt: "nxt64 meta s' = nxt64 meta s" using s'(5) unfolding s'(10) by (simp add: snd_nxt_64_def)
  have qs: "queue_ok a meta s" "red_ok meta s" "m_sent s \<le> length (m_queue s)" using inv by (simp_all add: xmit_inv_def queue_ok_def)
  have parts: "take (m_sent s) q = take (m_sent s) (m_queue s) \<and> m_sent s \<le> length q \<and>
    chain (snd_nxt (m_tp s meta)) (drop (m_sent s) q) (write_seq (m_tp s meta) + 1)"
  proof (cases "has_head s")
    case True
    then have "chain (snd_nxt (m_tp s meta)) (last_segment add_dfin (unsent_segs s)) (write_seq (m_tp s meta) + 1)"
      using qs(1) by (intro chain_last) (auto simp: has_head_def queue_ok_def)
    then show ?thesis using True drop_last_segment [of "m_sent s" "m_queue s" add_dfin] qs(3)
      by (auto simp: has_head_def q_def last_segment_def)
  next
    case False
    then have "m_sent s = length (m_queue s)" using qs(3) by (simp add: has_head_def)
    then show ?thesis using qs(1) by (simp add: q_def has_head_def queue_ok_def dfin_segment_def)
  qed
  have "\<forall>b\<in>set q. seg_fits b"
  proof (cases "has_head s")
    case True
    then have "seg_fits (add_dfin (last (m_queue s)))" using room by (intro add_dfin_fits) (simp_all add: room_for_fin_def Let_def)
    then show ?thesis using qs(1) True by (auto simp: q_def last_segment_def queue_ok_def dest: in_set_butlastD split: if_splits)
  next
    case False
    then show ?thesis using qs(1) dfin_segment_fits by (auto simp: q_def queue_ok_def)
  qed
  then have "queue_ok a meta s'" using parts qs(1) s' by (auto simp: queue_ok_def)
  then show ?thesis using red_ok_cong [OF qs(2), of s'] s' nxt by (simp add: xmit_inv_def)
qed

section \<open>Reachable states\<close>

inductive meta_step :: "meta_kernel \<Rightarrow> sk_ptr \<Rightarrow> meta_state \<Rightarrow> meta_state \<Rightarrow> bool" for k meta where
  Write: "mptcp_write_xmit n k meta nagle push_one s = Some (again, s') \<Longrightarrow> meta_step k meta s s'"
| Wakeup: "meta_step k meta s (snd (mptcp_write_wakeup k meta s))"
| Retransmit: "i < m_sent s \<Longrightarrow> mptcp_retransmit_skb k meta i s = Some (err, s') \<Longrightarrow> meta_step k meta s s'"
| Fin: "room_for_fin s \<Longrightarrow> mptcp_send_fin k meta s = Some s' \<Longrightarrow> meta_step k meta s s'"

inductive_cases meta_stepE: "meta_step k meta s s'"

lemma meta_step_ok:
  assumes "meta_step k meta s s'" and "xmit_inv a meta s" and "xmit_kernel k meta"
  shows "xmit_inv a meta s'"
  using assms(1)
proof cases
  case (Write n nagle push_one again)
  then show ?thesis using write_xmit_ok assms(2,3) by blast
next
  case Wakeup
  then show ?thesis using write_wakeup_ok assms(2,3) by blast
next
  case (Retransmit i err)
  then show ?thesis using retransmit_ok assms(2,3) by blast
next
  case Fin
  then show ?thesis using send_fin_ok assms(2) by blast
qed

text \<open>C10. In every state that sending, window probes, retransmissions and the data-FIN reach in any order, with any scheduler
  that has the contract of Meta_Sched, as the default one has, the segment
  at the send head starts at \<open>snd_nxt\<close>, and without one everything up to \<open>write_seq\<close> was sent; the
  invariant of the queue, the 64-bit counters and rMPTCP's register holds.\<close>

theorem send_head_is_snd_nxt:
  assumes "(meta_step k meta)\<^sup>*\<^sup>* s s'" and "xmit_inv a meta s" and "xmit_kernel k meta"
  shows "xmit_inv a meta s' \<and> snd_nxt (m_tp s' meta) = (if has_head s' then skb_seq (seg_at Send_Head s') else write_seq (m_tp s' meta))"
proof -
  have i: "xmit_inv a meta s'" using assms(1,2)
    by (induction rule: rtranclp_induct) (blast intro: meta_step_ok [OF _ _ assms(3)])+
  then have c: "chain (snd_nxt (m_tp s' meta)) (unsent_segs s') (write_seq (m_tp s' meta))" by (simp add: xmit_inv_def queue_ok_def)
  then show ?thesis using i drop_sent [of s'] by (cases "has_head s'") (auto simp: has_head_def)
qed

theorem send_head_is_snd_nxt_witness:
  "let s1 = snd (mptcp_write_wakeup sample_meta_kernel 0 sample_meta); s2 = snd (mptcp_write_wakeup sample_meta_kernel 0 s1)
   in xmit_inv 0 0 s2 \<and> snd_nxt (m_tp s2 0) = (if has_head s2 then skb_seq (seg_at Send_Head s2) else write_seq (m_tp s2 0))"
proof -
  let ?s1 = "snd (mptcp_write_wakeup sample_meta_kernel 0 sample_meta)"
  have "meta_step sample_meta_kernel 0 sample_meta ?s1"
    "meta_step sample_meta_kernel 0 ?s1 (snd (mptcp_write_wakeup sample_meta_kernel 0 ?s1))" by (rule Wakeup)+
  then have "(meta_step sample_meta_kernel 0)\<^sup>*\<^sup>* sample_meta (snd (mptcp_write_wakeup sample_meta_kernel 0 ?s1))"
    by (meson converse_rtranclp_into_rtranclp r_into_rtranclp)
  then show ?thesis
    using send_head_is_snd_nxt [OF _ sample_meta_inv(1) sample_meta_kernel_ok(1)] by (simp add: Let_def)
qed

end
