(* ===== verification/Data_Ack.thy ===== *)
theory Data_Ack
  imports Meta_Steps
begin

text \<open>
  The data acknowledgement (\<open>net/mptcp/mptcp_input.c\<close>): what a packet says about the data that the connection
  sent.  The window is updated, acknowledged segments leave the write and the reinject queue, a
  connection in loss sends its queue again, and the closing states go on.

  The state is that of Meta_Output.  \<open>tcp_wnd_end\<close>, an input of other parts, is kept up to date here.
\<close>

section \<open>Packets and kernel\<close>

record ack_pkt =
  pk_syn :: bool
  pk_ack :: bool
  pk_data_ack :: u32
  pk_has_seq :: bool
  pk_data_seq :: u32
  pk_data_len :: u16
  pk_seq :: u32
  pk_end_seq :: u32
  pk_ack_seq :: u32
  pk_fin :: bool
  pk_window :: u16
  pk_snd_wscale :: nat
  pk_dfin2 :: bool

text \<open>\<open>ae_may_update\<close> is \<open>tcp_may_update_window\<close>, \<open>ae_update_wl\<close> the new \<open>snd_wl1\<close> of \<open>tcp_update_wl\<close>, \<open>ae_tso_acked\<close> is
  \<open>tcp_tso_acked\<close> for a given \<open>snd_una\<close>, with the segment that it leaves.\<close>

record ack_env =
  ae_may_update :: "meta_state \<Rightarrow> u32 \<Rightarrow> u32 \<Rightarrow> u32 \<Rightarrow> bool"
  ae_update_wl :: "u32 \<Rightarrow> u32"
  ae_tso_acked :: "u32 \<Rightarrow> sk_buff \<Rightarrow> u32 \<times> sk_buff"
  ae_shrunk_nospace :: bool
  ae_dst :: bool
  ae_linger2_neg :: bool
  ae_fin_time :: int
  ae_timewait_len :: int
  ae_owned :: bool
  ae_time_wait :: "sk_ptr \<Rightarrow> int \<Rightarrow> meta_state \<Rightarrow> meta_state"
  ae_tcp_reset :: "sk_ptr \<Rightarrow> meta_state \<Rightarrow> meta_state"

definition SEND_SHUTDOWN :: u8 where "SEND_SHUTDOWN = 2"

definition mptcp_push_pending_frames :: "sk_ptr \<Rightarrow> meta_state \<Rightarrow> meta_state" where
  "mptcp_push_pending_frames meta s = (if packets_out (m_tp s meta) \<noteq> 0 \<or> has_head s then m_call Push_Pending s else s)"

definition meta_done :: "meta_kernel \<Rightarrow> sk_ptr \<Rightarrow> meta_state \<Rightarrow> meta_state" where
  "meta_done k meta s = s\<lparr>m_life := lk_tcp_done (mk_life k) meta (m_life s)\<rparr>"

definition refresh_wnd_end :: "sk_ptr \<Rightarrow> meta_state \<Rightarrow> meta_state" where
  "refresh_wnd_end meta s = m_set_tp meta (\<lambda>tp. tp\<lparr>tcp_wnd_end := snd_una tp + m_snd_wnd s\<rparr>) s"

section \<open>Cleaning the queues\<close>

text \<open>\<open>None\<close> is one of the two last \<open>BUG_ON\<close>s; the first one never applies, the caller has compared.\<close>

definition mptcp_tso_acked_reinject :: "meta_kernel \<Rightarrow> u32 \<Rightarrow> sk_buff \<Rightarrow> (u32 \<times> sk_buff) option" where
  "mptcp_tso_acked_reinject k una skb =
     (if \<not> after (skb_end_seq skb) una then None
      else if mk_unclone k skb then Some (0, skb)
      else
        let len = una - skb_seq skb;
            skb' = skb\<lparr>skb_seq := skb_seq skb + len, skb_len := skb_len skb - len\<rparr>;
            packets = mk_pcount k skb - mk_pcount k skb'
        in if packets \<noteq> 0 \<and> (mk_pcount k skb' = 0 \<or> \<not> before (skb_seq skb') (skb_end_seq skb')) then None
           else Some (packets, skb'))"

definition note_acked :: "sk_ptr \<Rightarrow> u32 \<Rightarrow> meta_state \<Rightarrow> meta_state" where
  "note_acked meta n s = (m_set_tp meta (\<lambda>tp. tp\<lparr>packets_out := packets_out tp - n\<rparr>) s)\<lparr>m_retrans_stamp := 0\<rparr>"

text \<open>The delay is computed in 32 bits.\<close>

definition close_after_fin :: "meta_kernel \<Rightarrow> meta_state \<Rightarrow> meta_state" where
  "close_after_fin k s =
     fold (\<lambda>sk s.
         let delay = (if passive_close (m_mpcb s) \<and> sk_state (m_tp s sk) = TCP_ESTABLISHED then push_bit 3 (icsk_rto (m_tp s sk)) else 0)
         in s\<lparr>m_life := mptcp_sub_close (mk_life k) sk (ucast delay) (m_life s)\<rparr>)
       (l_conns (m_life s)) s"

text \<open>The sent segments, at most as many as there are.\<close>

fun clean_sent :: "nat \<Rightarrow> ack_env \<Rightarrow> meta_kernel \<Rightarrow> sk_ptr \<Rightarrow> bool \<Rightarrow> meta_state \<Rightarrow> bool \<times> meta_state" where
  "clean_sent 0 e k meta acked s = (acked, s)"
| "clean_sent (Suc n) e k meta acked s =
     (let skb = hd (m_queue s); una = snd_una (m_tp s meta)
      in if before una (skb_end_seq skb)
         then if mk_pcount k skb = 1 \<or> \<not> after una (skb_seq skb) then (acked, s)
              else case ae_tso_acked e una skb of
                     (pkts, skb') \<Rightarrow>
                       let s1 = s\<lparr>m_queue := skb' # tl (m_queue s)\<rparr>
                       in if pkts = 0 then (acked, s1) else (True, note_acked meta pkts s1)
         else
           let s1 = note_acked meta (mk_pcount k skb) s;
               s2 = s1\<lparr>m_queue := tl (m_queue s1), m_sent := m_sent s1 - 1\<rparr>
           in clean_sent n e k meta True (if mptcp_is_data_fin skb then close_after_fin k s2 else s2))"

fun clean_reinject :: "meta_kernel \<Rightarrow> u32 \<Rightarrow> sk_buff list \<Rightarrow> sk_buff list option" where
  "clean_reinject k una [] = Some []"
| "clean_reinject k una (skb # q) =
     (if before una (skb_end_seq skb)
      then if mk_pcount k skb = 1 \<or> \<not> after una (skb_seq skb) then Some (skb # q)
           else map_option (\<lambda>(_, skb'). skb' # q) (mptcp_tso_acked_reinject k una skb)
      else clean_reinject k una q)"

definition mptcp_clean_rtx_queue :: "ack_env \<Rightarrow> meta_kernel \<Rightarrow> sk_ptr \<Rightarrow> u32 \<Rightarrow> meta_state \<Rightarrow> meta_state option" where
  "mptcp_clean_rtx_queue e k meta prior_snd_una s =
     (case clean_sent (m_sent s) e k meta False s of
        (acked, s1) \<Rightarrow>
          let una = snd_una (m_tp s1 meta)
          in map_option (\<lambda>q.
               let s2 = m_set_mpcb (\<lambda>m. m\<lparr>reinject_queue := q\<rparr>) s1;
                   s3 = (if between (m_snd_up s2) prior_snd_una una then s2\<lparr>m_snd_up := una\<rparr> else s2)
               in if acked then m_set_tp meta (\<lambda>tp. tp\<lparr>icsk_retransmits := 0\<rparr>) (m_call Rearm_Rto s3) else s3)
             (clean_reinject k una (reinject_queue (m_mpcb s1))))"

section \<open>Sending the queue again\<close>

fun retransmit_rest :: "nat \<Rightarrow> meta_kernel \<Rightarrow> sk_ptr \<Rightarrow> nat \<Rightarrow> meta_state \<Rightarrow> meta_state option" where
  "retransmit_rest 0 k meta i s = None"
| "retransmit_rest (Suc n) k meta i s =
     (if i \<ge> m_sent s then Some s
      else case mptcp_retransmit_skb k meta i s of
             None \<Rightarrow> None
           | Some (err, s1) \<Rightarrow>
               if err \<noteq> 0 then Some s1
               else retransmit_rest n k meta (Suc i) (if i = 0 then m_call (Xmit_Timer (icsk_rto (m_tp s1 meta))) s1 else s1))"

definition mptcp_xmit_retransmit_queue :: "nat \<Rightarrow> meta_kernel \<Rightarrow> sk_ptr \<Rightarrow> meta_state \<Rightarrow> meta_state option" where
  "mptcp_xmit_retransmit_queue n k meta s = (if packets_out (m_tp s meta) = 0 then Some s else retransmit_rest n k meta 0 s)"

section \<open>Closing states\<close>

text \<open>\<open>True\<close> says that the connection is gone.\<close>

definition fin_wait1_acked :: "ack_env \<Rightarrow> meta_kernel \<Rightarrow> sk_ptr \<Rightarrow> sk_ptr \<Rightarrow> ack_pkt \<Rightarrow> u32 \<Rightarrow> u16 \<Rightarrow> meta_state \<Rightarrow> bool \<times> meta_state" where
  "fin_wait1_acked e k meta sk p data_seq data_len s =
     (let s1 = m_set_tp meta (\<lambda>tp. tp\<lparr>sk_state := TCP_FIN_WAIT2\<rparr>) s;
          s2 = s1\<lparr>m_life := (m_life s1)\<lparr>meta_shutdown := setf (meta_shutdown (m_life s1)) SEND_SHUTDOWN\<rparr>\<rparr>;
          s3 = (if ae_dst e then m_call (Dst_Confirm sk) s2 else s2);
          tmo = ae_fin_time e
      in if \<not> sock_dead (l_sub (m_life s3) meta) then (False, m_call Meta_State_Change s3)
         else if ae_linger2_neg e \<or> data_len \<noteq> 0 \<and> after (data_seq + ucast data_len - (if pk_dfin2 p then 1 else 0)) (rcv_nxt (m_tp s3 meta))
         then (True, meta_done k meta (mptcp_send_active_reset k s3))
         else if tmo > ae_timewait_len e then (False, m_call (Keepalive_Meta (tmo - ae_timewait_len e)) s3)
         else if pk_dfin2 p \<or> ae_owned e then (False, m_call (Keepalive_Meta tmo) s3)
         else (False, ae_time_wait e meta tmo s3))"

definition fin_acked :: "ack_env \<Rightarrow> meta_kernel \<Rightarrow> sk_ptr \<Rightarrow> sk_ptr \<Rightarrow> ack_pkt \<Rightarrow> u32 \<Rightarrow> u16 \<Rightarrow> meta_state \<Rightarrow> bool \<times> meta_state" where
  "fin_acked e k meta sk p data_seq data_len s =
     (let tp = m_tp s meta
      in if snd_una tp \<noteq> write_seq tp then (False, s)
         else if sk_state tp = TCP_FIN_WAIT1 then fin_wait1_acked e k meta sk p data_seq data_len s
         else if sk_state tp \<in> {TCP_CLOSING, TCP_LAST_ACK} then (True, meta_done k meta s)
         else (False, s))"

definition mptcp_rcv_state_process :: "ack_env \<Rightarrow> meta_kernel \<Rightarrow> sk_ptr \<Rightarrow> sk_ptr \<Rightarrow> ack_pkt \<Rightarrow> u32 \<Rightarrow> u16 \<Rightarrow> meta_state \<Rightarrow> bool \<times> meta_state" where
  "mptcp_rcv_state_process e k meta sk p data_seq data_len s =
     (case fin_acked e k meta sk p data_seq data_len s of
        (True, s1) \<Rightarrow> (True, s1)
      | (False, s1) \<Rightarrow>
          if sk_state (m_tp s1 meta) \<in> {TCP_FIN_WAIT1, TCP_FIN_WAIT2} \<and> has (meta_shutdown (m_life s1)) RCV_SHUTDOWN \<and>
             pk_end_seq p \<noteq> pk_seq p \<and> after (pk_end_seq p - (if pk_fin p then 1 else 0)) (rcv_nxt (m_tp s1 sk)) \<and> \<not> pk_dfin2 p
          then (True, ae_tcp_reset e meta (mptcp_send_active_reset k s1))
          else (False, s1))"

section \<open>The acknowledgement\<close>

definition fully_estab :: "sk_ptr \<Rightarrow> meta_state \<Rightarrow> meta_state" where
  "fully_estab sk s =
     (let s1 = m_set_tp sk (\<lambda>tp. tp\<lparr>fully_established := True\<rparr>) s
      in if is_master_tp (m_tp s1 sk) then m_call Pm_Fully_Established s1 else s1)"

definition operational :: "sk_ptr \<Rightarrow> ack_pkt \<Rightarrow> meta_state \<Rightarrow> meta_state" where
  "operational sk p s =
     (let s1 = m_set_tp sk (\<lambda>tp. tp\<lparr>pf := False\<rparr>) s
      in if pre_established (m_tp s1 sk) \<and> \<not> pk_syn p
         then let s2 = m_set_tp sk (\<lambda>tp. tp\<lparr>pre_established := False\<rparr>) s1 in s2\<lparr>m_life := call (Stop_Ack_Timer sk) (m_life s2)\<rparr>
         else s1)"

definition update_window :: "ack_env \<Rightarrow> sk_ptr \<Rightarrow> u32 \<Rightarrow> u32 \<Rightarrow> u32 \<Rightarrow> meta_state \<Rightarrow> meta_state" where
  "update_window e meta data_ack data_seq nwin s =
     (if \<not> ae_may_update e s data_ack data_seq nwin then s
      else
        let s1 = s\<lparr>m_wl1 := ae_update_wl e data_seq\<rparr>
        in if m_snd_wnd s1 \<noteq> nwin \<and> \<not> before (data_ack + nwin) (snd_una (m_tp s1 meta) + m_snd_wnd s1)
           then s1\<lparr>m_snd_wnd := nwin, m_max_window := max (m_max_window s1) nwin\<rparr>
           else s1)"

text \<open>With data in flight.\<close>

definition ack_data ::
  "nat \<Rightarrow> ack_env \<Rightarrow> meta_kernel \<Rightarrow> sk_ptr \<Rightarrow> sk_ptr \<Rightarrow> ack_pkt \<Rightarrow> u32 \<Rightarrow> u32 \<Rightarrow> u16 \<Rightarrow> meta_state \<Rightarrow> meta_state option" where
  "ack_data n e k meta sk p data_ack data_seq data_len s =
     (let prior = snd_una (m_tp s meta);
          s1 = refresh_wnd_end meta (m_set_tp meta (\<lambda>tp. tp\<lparr>snd_una := data_ack\<rparr>) s)
      in do {
           s2 \<leftarrow> mptcp_clean_rtx_queue e k meta prior s1;
           s3 \<leftarrow> (if icsk_ca_state (m_tp s2 meta) = TCP_CA_Loss \<and> after data_ack prior
                   then map_option (m_set_tp meta (\<lambda>tp. tp\<lparr>icsk_ca_state := TCP_CA_Open\<rparr>)) (mptcp_xmit_retransmit_queue n k meta s2)
                   else Some s2);
           let s4 = (if ae_shrunk_nospace e then m_call Wake_Writers s3 else s3);
           if sk_state (m_tp s4 meta) = TCP_ESTABLISHED then Some (mptcp_push_pending_frames meta s4)
           else case mptcp_rcv_state_process e k meta sk p data_seq data_len s4 of
                  (True, s5) \<Rightarrow> Some s5
                | (False, s5) \<Rightarrow> Some (mptcp_push_pending_frames meta s5) })"

definition mptcp_data_ack ::
  "nat \<Rightarrow> ack_env \<Rightarrow> meta_kernel \<Rightarrow> sk_ptr \<Rightarrow> sk_ptr \<Rightarrow> ack_pkt \<Rightarrow> meta_state \<Rightarrow> meta_state option" where
  "mptcp_data_ack n e k meta sk p s =
     (let s2 = operational sk p s
      in if \<not> pk_ack p \<and> \<not> infinite_mapping_snd (m_mpcb s2) then Some (mptcp_push_pending_frames meta s2)
         else
           let s3 = (if \<not> fully_established (m_tp s2 sk) \<and> snt_isn (m_tp s2 sk) + 1 \<noteq> pk_ack_seq p then fully_estab sk s2 else s2);
               data_ack = pk_data_ack p;
               data_seq = (if pk_has_seq p then pk_data_seq p else m_wl1 s3);
               data_len = (if pk_has_seq p then pk_data_len p else 0);
               nwin = (if pk_syn p then ucast (pk_window p) else push_bit (pk_snd_wscale p) (ucast (pk_window p)))
           in if before data_ack (snd_una (m_tp s3 meta)) \<or> after data_ack (snd_nxt (m_tp s3 meta))
              then Some (mptcp_push_pending_frames meta s3)
              else
                let s4 = refresh_wnd_end meta (update_window e meta data_ack data_seq nwin s3);
                    s5 = (s4\<lparr>m_life := set_info sk (\<lambda>i. i\<lparr>sk_err_soft := 0\<rparr>) (m_life s4)\<rparr>)\<lparr>m_probes_out := 0, m_rcv_tstamp := mk_stamp k\<rparr>
                in if packets_out (m_tp s5 meta) = 0
                   then Some (mptcp_push_pending_frames meta (if has_head s5 then m_call Ack_Probe s5 else s5))
                   else ack_data n e k meta sk p data_ack data_seq data_len s5)"

definition mptcp_clean_rtx_infinite ::
  "nat \<Rightarrow> ack_env \<Rightarrow> meta_kernel \<Rightarrow> sk_ptr \<Rightarrow> sk_ptr \<Rightarrow> ack_pkt \<Rightarrow> meta_state \<Rightarrow> meta_state option" where
  "mptcp_clean_rtx_infinite n e k meta sk p s =
     (if \<not> infinite_mapping_snd (m_mpcb s) then Some s
      else mptcp_data_ack n e k meta sk (p\<lparr>pk_data_ack := snd_nxt (m_tp s meta) - snd_nxt (m_tp s sk) + snd_una (m_tp s sk)\<rparr>) s)"

end
