(* ===== verification/Data_Ack_Safe.thy ===== *)
theory Data_Ack_Safe
  imports Data_Ack
begin

text \<open>
  A data acknowledgement takes exactly the acknowledged segments out of the queue of the connection, moves \<open>snd_una\<close> only
  forward and never beyond \<open>snd_nxt\<close>, and keeps the queue one chain.
\<close>

section \<open>What closing a subflow leaves alone\<close>

definition same_numbers :: "tcp_sock \<Rightarrow> tcp_sock \<Rightarrow> bool" where
  "same_numbers tp tp' \<longleftrightarrow> snd_nxt tp' = snd_nxt tp \<and> write_seq tp' = write_seq tp \<and> snd_una tp' = snd_una tp"

definition keeps_numbers :: "sk_ptr \<Rightarrow> life_state \<Rightarrow> life_state \<Rightarrow> bool" where
  "keeps_numbers meta l l' \<longleftrightarrow> same_numbers (l_tp l meta) (l_tp l' meta) \<and> (\<forall>p. sk_key (l_tp l' p) = sk_key (l_tp l p)) \<and>
     snd_high_order (l_mpcb l') = snd_high_order (l_mpcb l) \<and> snd_hiseq_index (l_mpcb l') = snd_hiseq_index (l_mpcb l) \<and>
     set (l_conns l') \<subseteq> set (l_conns l) \<and>
     ((\<forall>b\<in>set (reinject_queue (l_mpcb l)). seg_fits b) \<longrightarrow> (\<forall>b\<in>set (reinject_queue (l_mpcb l')). seg_fits b))"

lemma keeps_numbers_refl [simp]: "keeps_numbers meta l l"
  by (simp add: keeps_numbers_def same_numbers_def)

lemma keeps_numbers_trans: "keeps_numbers meta a b \<Longrightarrow> keeps_numbers meta b c \<Longrightarrow> keeps_numbers meta a c"
  by (auto simp: keeps_numbers_def same_numbers_def)

lemma keeps_numbers_step:
  "keeps_numbers meta l (call c l)" "keeps_numbers meta l (set_info sk f l)" "keeps_numbers meta l (set_queue sk q l)"
  "sk \<noteq> meta \<Longrightarrow> (\<And>tp. sk_key (g tp) = sk_key tp) \<Longrightarrow> keeps_numbers meta l (set_tp sk g l)"
  by (simp_all add: keeps_numbers_def same_numbers_def call_def set_info_def set_queue_def set_tp_def l_tp_def l_mpcb_def l_conns_def)

text \<open>The kernel closes one socket at a time and does not touch the sequence numbers of the connection.\<close>

definition closes :: "meta_kernel \<Rightarrow> sk_ptr \<Rightarrow> bool" where
  "closes k meta \<longleftrightarrow> (\<forall>sk l. keeps_numbers meta l (lk_tcp_close (mk_life k) sk l) \<and> keeps_numbers meta l (lk_send_fin (mk_life k) sk l) \<and>
       keeps_numbers meta l (lk_tcp_done (mk_life k) sk l)) \<and>
     (\<forall>tp. sk_key (snd (lk_close_state (mk_life k) tp)) = sk_key tp)"

lemma set_close_state:
  assumes "closes k meta" and "sk \<noteq> meta" and "lk_close_state (mk_life k) (l_tp l sk) = (b, tp)"
  shows "keeps_numbers meta l (set_tp sk (\<lambda>_. tp) l)"
proof -
  have "sk_key tp = sk_key (l_tp l sk)" using assms(1,3) unfolding closes_def by (metis snd_conv)
  then show ?thesis using assms(2)
    by (simp add: keeps_numbers_def same_numbers_def set_tp_def l_tp_def l_mpcb_def l_conns_def)
qed

lemma close_now_keeps:
  assumes k: "closes k meta" and sk: "sk \<noteq> meta"
  shows "keeps_numbers meta l (close_now (mk_life k) sk l)"
proof -
  obtain b tp where c: "lk_close_state (mk_life k) (l_tp l sk) = (b, tp)" by fastforce
  let ?l1 = "set_tp sk (\<lambda>_. tp) l"
  let ?l2 = "set_tp sk (\<lambda>tp. tp\<lparr>send_shutdown := True\<rparr>) ?l1" and ?l3 = "set_info sk (\<lambda>i. i\<lparr>closing := True\<rparr>) l"
  have 1: "keeps_numbers meta l ?l1" by (rule set_close_state [OF k sk c])
  have "keeps_numbers meta ?l1 ?l2" by (rule keeps_numbers_step(4) [OF sk]) (simp add: sk_key_def)
  moreover have "keeps_numbers meta ?l2 (lk_send_fin (mk_life k) sk ?l2)" "keeps_numbers meta ?l3 (lk_tcp_close (mk_life k) sk ?l3)"
    using k by (simp_all add: closes_def)
  ultimately have "keeps_numbers meta l (lk_send_fin (mk_life k) sk ?l2)" "keeps_numbers meta l (lk_tcp_close (mk_life k) sk ?l3)"
    using keeps_numbers_trans [OF keeps_numbers_trans [OF 1]] keeps_numbers_trans [OF keeps_numbers_step(2)] by blast+
  then show ?thesis using 1 by (simp add: close_now_def c Let_def)
qed

lemma send_fin_keeps: "sk \<noteq> meta \<Longrightarrow> keeps_numbers meta l (snd (mptcp_sub_send_fin (mk_life k) sk l))"
  by (auto simp: mptcp_sub_send_fin_def Let_def sk_key_def intro!: keeps_numbers_trans [OF _ keeps_numbers_step(1)]
      keeps_numbers_trans [OF _ keeps_numbers_step(4)] keeps_numbers_trans [OF _ keeps_numbers_step(2)] keeps_numbers_step(3))

lemma fin_before_work_keeps:
  assumes k: "closes k meta" and sk: "sk \<noteq> meta"
  shows "keeps_numbers meta l (fin_before_work (mk_life k) sk l)"
proof -
  obtain b tp where c: "lk_close_state (mk_life k) (l_tp l sk) = (b, tp)" by fastforce
  let ?l1 = "set_tp sk (\<lambda>_. tp) l"
  obtain f l2 where f: "mptcp_sub_send_fin (mk_life k) sk ?l1 = (f, l2)" by fastforce
  have 1: "keeps_numbers meta l ?l1" by (rule set_close_state [OF k sk c])
  have 2: "keeps_numbers meta l l2" using send_fin_keeps [OF sk, of ?l1 k] f keeps_numbers_trans [OF 1] by simp
  have "keeps_numbers meta l2 (set_tp sk (\<lambda>tp. tp\<lparr>sk_state := z\<rparr>) l2)" for z
    by (rule keeps_numbers_step(4) [OF sk]) (simp add: sk_key_def)
  then show ?thesis using 1 2 c f keeps_numbers_trans [OF 2] by (auto simp: fin_before_work_def Let_def)
qed

lemma sub_close_keeps:
  assumes k: "closes k meta" and sk: "sk \<noteq> meta"
  shows "keeps_numbers meta l (mptcp_sub_close (mk_life k) sk d l)"
proof -
  have q: "keeps_numbers meta l (queue_work (mk_life k) sk d l1)" if "keeps_numbers meta l l1" for l1
    unfolding queue_work_def by (rule keeps_numbers_trans [OF that keeps_numbers_step(2)])
  let ?l = "set_info sk (\<lambda>i. i\<lparr>work_expires := None, sock_refs := sock_refs i - 1\<rparr>) l"
  have l: "keeps_numbers meta l ?l" by (rule keeps_numbers_step)
  note c = close_now_keeps [OF k sk] and f = fin_before_work_keeps [OF k sk]
  show ?thesis
    using c [of l] f [of l] c [of ?l] f [of ?l] q keeps_numbers_trans [OF l] l
    by (auto simp: mptcp_sub_close_def Let_def split: option.splits)
qed

lemma inv_life:
  assumes "xmit_inv a meta s" and "keeps_numbers meta (m_life s) l"
  shows "xmit_inv a meta (s\<lparr>m_life := l\<rparr>)"
proof -
  let ?s = "s\<lparr>m_life := l\<rparr>"
  have ok: "red_ok meta s" using assms(1) by (simp add: xmit_inv_def)
  have "red_inv (red_of ?s) = red_inv (red_of s)"
    using assms(2) reg_inv_keys [of "l_tp l" "l_tp (m_life s)"] by (simp add: red_inv_def red_of_def life_out keeps_numbers_def)
  moreover have "known ?s \<subseteq> known s" using assms(2) by (auto simp: known_def keeps_numbers_def)
  then have "card (known ?s) \<le> card (known s)" "meta \<notin> known ?s" using ok by (auto intro: card_mono simp: known_def red_ok_def)
  ultimately have "red_ok meta ?s" using ok by (simp add: red_ok_def)
  moreover have "queue_ok a meta ?s"
    using assms by (simp add: xmit_inv_def queue_ok_def keeps_numbers_def same_numbers_def snd_high_inv_def ball_Un)
  ultimately show ?thesis by (simp add: xmit_inv_def)
qed

text \<open>The closing of all subflows after the data-FIN was acknowledged.\<close>

lemma fold_life:
  assumes "\<And>x t. x \<in> set xs \<Longrightarrow> \<exists>l. f x t = t\<lparr>m_life := l\<rparr> \<and> keeps_numbers meta (m_life t) l"
  shows "\<exists>l. fold f xs s = s\<lparr>m_life := l\<rparr> \<and> keeps_numbers meta (m_life s) l"
  using assms
proof (induction xs arbitrary: s)
  case Nil
  then show ?case by (intro exI [of _ "m_life s"]) simp
next
  case (Cons x xs)
  obtain l where l: "f x s = s\<lparr>m_life := l\<rparr>" "keeps_numbers meta (m_life s) l" using Cons.prems [of x s] by auto
  obtain l' where "fold f xs (f x s) = (f x s)\<lparr>m_life := l'\<rparr>" "keeps_numbers meta (m_life (f x s)) l'"
    using Cons.IH [of "f x s"] Cons.prems by (meson list.set_intros(2))
  then show ?case using l keeps_numbers_trans [OF l(2)] by auto
qed

lemma close_after_fin_keeps:
  assumes k: "closes k meta" and inv: "meta \<notin> set (l_conns (m_life s))"
  shows "\<exists>l. close_after_fin k s = s\<lparr>m_life := l\<rparr> \<and> keeps_numbers meta (m_life s) l"
  unfolding close_after_fin_def
proof (rule fold_life)
  fix sk t
  assume "sk \<in> set (l_conns (m_life s))"
  then have "sk \<noteq> meta" using inv by blast
  then show "\<exists>l. (let delay = (if passive_close (m_mpcb t) \<and> sk_state (m_tp t sk) = TCP_ESTABLISHED then push_bit 3 (icsk_rto (m_tp t sk)) else 0)
      in t\<lparr>m_life := mptcp_sub_close (mk_life k) sk (ucast delay) (m_life t)\<rparr>) = t\<lparr>m_life := l\<rparr> \<and> keeps_numbers meta (m_life t) l"
    using sub_close_keeps [OF k] unfolding Let_def by blast
qed

section \<open>Distances\<close>

lemma sint_nonneg: "0 \<le> sint (w::u32) \<longleftrightarrow> unat w < 2 ^ 31"
proof
  assume "unat w < 2 ^ 31"
  then show "0 \<le> sint w" by (simp add: sint_small32)
next
  assume a: "0 \<le> sint w"
  show "unat w < 2 ^ 31"
  proof (rule ccontr)
    assume "\<not> unat w < 2 ^ 31"
    then have u: "2 ^ 31 \<le> uint w" by (simp add: unat_less_iff_uint)
    have "uint w < 2 ^ 32" using uint_lt2p [of w] by simp
    then have "uint w div 2 ^ 31 = 1" using u by simp
    then have "bit (uint w) 31" by (simp add: bit_iff_odd)
    then show False using a by (simp add: sint_uint signed_take_bit_nonnegative_iff)
  qed
qed

lemma not_before: "\<not> before a b \<longleftrightarrow> unat (a - b) < 2 ^ 31"
  using sint_nonneg [of "a - b"] by (simp add: before_def not_less)

lemma ack_in_window:
  assumes "\<not> before ack una" and "\<not> after ack nxt" and "unat (nxt - una) < 2 ^ 31"
  shows "unat (ack - una) \<le> unat (nxt - una)"
proof -
  have "unat (ack - una) < 2 ^ 31" using assms(1) not_before by blast
  from before_window [OF assms(3) this] assms(2) show ?thesis unfolding after_def by linarith
qed

lemma unat_minus_add: "(x::u32) \<noteq> 0 \<Longrightarrow> unat (- x) + unat x = 2 ^ 32"
proof -
  assume "x \<noteq> 0"
  then have pos: "0 < unat x" by (simp add: unat_gt_0)
  have "(unat (- x) + unat x) mod 2 ^ 32 = 0" using unat_word_ariths(1) [of "- x" x] by simp
  then obtain q where q: "unat (- x) + unat x = 2 ^ 32 * q" by (metis mod_eq_0_iff_dvd dvdE)
  have "unat (- x) + unat x < 2 ^ 32 * 2" using unat_bound [of x] unat_bound [of "- x"] by simp
  then have "q < 2" "0 < q" using q pos by (simp, cases q, simp_all)
  then show ?thesis using q by simp
qed

lemma inside_segment:
  assumes "after una (skb_seq b)" and "before una (skb_end_seq b)" and "seg_fits b" and "skb_len b \<noteq> 0"
  shows "0 < unat (una - skb_seq b)" and "unat (una - skb_seq b) < unat (skb_end_seq b - skb_seq b)"
proof -
  let ?x = "una - skb_seq b" and ?d = "skb_end_seq b - skb_seq b"
  have d: "unat ?d < 2 ^ 31" "?d \<noteq> 0" using assms(3,4) by (auto simp: seg_fits_def)
  have "una \<noteq> skb_seq b" using assms(1) by auto
  then show "0 < unat ?x" by (simp add: unat_gt_0)
  have neg: "2 ^ 31 \<le> unat (- ?x)" using assms(1) not_before [of "skb_seq b" una] by (simp add: after_def)
  have "unat (- ?x) + unat ?x = 2 ^ 32" by (rule unat_minus_add) (use \<open>una \<noteq> skb_seq b\<close> in simp)
  then have x: "unat ?x \<le> 2 ^ 31" using neg by simp
  show "unat ?x < unat ?d"
  proof (rule ccontr)
    assume "\<not> unat ?x < unat ?d"
    then have le: "?d \<le> ?x" by (simp add: word_le_nat_alt)
    have "una - skb_end_seq b = ?x - ?d" by simp
    then have "unat (una - skb_end_seq b) = unat ?x - unat ?d" using unat_sub [OF le] by simp
    moreover have "0 < unat ?d" using d(2) by (simp add: unat_gt_0)
    ultimately have "unat (una - skb_end_seq b) < 2 ^ 31" using x by simp
    then show False using assms(2) not_before by blast
  qed
qed

text \<open>TCP counts at least one packet per segment and more than one only with data.\<close>

definition counts :: "meta_kernel \<Rightarrow> bool" where
  "counts k \<longleftrightarrow> (\<forall>b. mk_pcount k b \<noteq> 0 \<and> (skb_len b = 0 \<longrightarrow> mk_pcount k b = 1))"

lemma tso_acked_reinject_ok:
  assumes fits: "seg_fits b" and una: "before una (skb_end_seq b)" "after una (skb_seq b)" and k: "counts k" and n: "mk_pcount k b \<noteq> 1"
  shows "\<exists>r b'. mptcp_tso_acked_reinject k una b = Some (r, b') \<and> seg_fits b'"
proof (cases "mk_unclone k b")
  case True
  then show ?thesis using fits una by (simp add: mptcp_tso_acked_reinject_def after_def)
next
  case False
  let ?x = "una - skb_seq b" and ?d = "skb_end_seq b - skb_seq b"
  let ?b = "b\<lparr>skb_seq := skb_seq b + ?x, skb_len := skb_len b - ?x\<rparr>"
  have len: "skb_len b \<noteq> 0" using k n by (auto simp: counts_def)
  note x = inside_segment [OF una(2,1) fits len]
  have d: "unat ?d < 2 ^ 31" "unat (skb_len b) \<le> unat ?d" "unat ?d \<le> unat (skb_len b) + 1"
    using fits by (simp_all add: seg_fits_def word_le_nat_alt)
  then have "?x \<le> skb_len b" "?x \<le> ?d" using x by (simp_all add: word_le_nat_alt)
  then have u: "unat (skb_len b - ?x) = unat (skb_len b) - unat ?x" "unat (?d - ?x) = unat ?d - unat ?x"
    by (simp_all only: unat_sub)
  have "skb_end_seq b - (skb_seq b + ?x) = ?d - ?x" by simp
  moreover have "unat ?d - unat ?x < 2 ^ 31" "unat (skb_len b) - unat ?x \<le> unat ?d - unat ?x"
    "unat ?d - unat ?x \<le> unat (skb_len b) - unat ?x + 1" using d x by linarith+
  ultimately have "seg_fits ?b" using u by (simp add: seg_fits_def word_le_nat_alt)
  moreover have "mk_pcount k ?b \<noteq> 0" "before (skb_seq ?b) (skb_end_seq ?b)" using k una(1) by (simp_all add: counts_def)
  ultimately show ?thesis using False una(1) by (simp add: mptcp_tso_acked_reinject_def after_def Let_def)
qed

lemma clean_reinject_ok:
  assumes "counts k" and "\<forall>b\<in>set q. seg_fits b"
  shows "\<exists>q'. clean_reinject k una q = Some q' \<and> (\<forall>b\<in>set q'. seg_fits b)"
  using assms(2)
proof (induction q)
  case (Cons b q)
  consider (acked) "\<not> before una (skb_end_seq b)" | (stop) "before una (skb_end_seq b)" "mk_pcount k b = 1 \<or> \<not> after una (skb_seq b)"
    | (trim) "before una (skb_end_seq b)" "mk_pcount k b \<noteq> 1" "after una (skb_seq b)" by blast
  then show ?case
  proof cases
    case trim
    then show ?thesis using tso_acked_reinject_ok [OF _ trim(1,3) assms(1) trim(2)] Cons.prems by auto
  qed (use Cons in auto)
qed simp

section \<open>The write queue\<close>

abbreviation sent_segs :: "meta_state \<Rightarrow> sk_buff list" where
  "sent_segs s \<equiv> take (m_sent s) (m_queue s)"

text \<open>A trimmed segment keeps its end.\<close>

definition trims :: "ack_env \<Rightarrow> bool" where
  "trims e \<longleftrightarrow> (\<forall>una b. skb_end_seq (snd (ae_tso_acked e una b)) = skb_end_seq b \<and> (seg_fits b \<longrightarrow> seg_fits (snd (ae_tso_acked e una b))) \<and>
     bytes [snd (ae_tso_acked e una b)] \<le> bytes [b])"

definition left :: "nat \<Rightarrow> meta_state \<Rightarrow> nat" where
  "left i s = bytes (drop i (sent_segs s)) + (m_sent s - i)"

lemma left_same_data:
  assumes "list_all2 same_data (m_queue s') (m_queue s)" and "m_sent s' = m_sent s"
  shows "left i s' = left i s"
proof -
  have "list_all2 same_data (drop i (sent_segs s')) (drop i (sent_segs s))"
    using assms by (simp add: list_all2_takeI list_all2_dropI)
  from same_data_bytes [OF this] show ?thesis using assms(2) by (simp add: left_def)
qed

lemma left_same: "m_queue s' = m_queue s \<Longrightarrow> m_sent s' = m_sent s \<Longrightarrow> left i s' = left i s"
  by (rule left_same_data) simp_all

definition cleaned :: "sk_ptr \<Rightarrow> u32 \<Rightarrow> meta_state \<Rightarrow> meta_state \<Rightarrow> bool" where
  "cleaned meta una s s' \<longleftrightarrow> (\<exists>gone rest. sent_segs s = gone @ rest \<and> (\<forall>b\<in>set gone. \<not> before una (skb_end_seq b)) \<and>
     (rest \<noteq> [] \<longrightarrow> before una (skb_end_seq (hd rest))) \<and> map skb_end_seq (sent_segs s') = map skb_end_seq rest \<and>
     tl (sent_segs s') = tl rest \<and> unsent_segs s' = unsent_segs s) \<and> left 0 s' \<le> left 0 s"

lemma note_acked_inv: "xmit_inv a meta s \<Longrightarrow> xmit_inv a meta (note_acked meta n s)"
proof -
  assume i: "xmit_inv a meta s"
  have "red_ok meta (note_acked meta n s)"
    by (rule red_ok_cong [of meta s]) (use i in \<open>simp_all add: xmit_inv_def note_acked_def sk_key_def\<close>)
  then show ?thesis using i by (simp add: xmit_inv_def note_acked_def queue_ok_def)
qed

lemma replace_head_inv:
  assumes "xmit_inv a meta s" and "0 < m_sent s" and "m_queue s = b # q" and "skb_end_seq b' = skb_end_seq b" and "seg_fits b'"
  shows "xmit_inv (skb_seq b') meta (s\<lparr>m_queue := b' # q\<rparr>)"
proof -
  have "red_ok meta (s\<lparr>m_queue := b' # q\<rparr>)" by (rule red_ok_cong [of meta s]) (use assms(1) in \<open>simp_all add: xmit_inv_def\<close>)
  then show ?thesis using assms by (cases "m_sent s") (auto simp: xmit_inv_def queue_ok_def)
qed

lemma drop_head_inv:
  assumes "xmit_inv a meta s" and "0 < m_sent s" and "m_queue s = b # q"
  shows "xmit_inv (skb_end_seq b) meta (s\<lparr>m_queue := q, m_sent := m_sent s - 1\<rparr>)"
proof -
  have "red_ok meta (s\<lparr>m_queue := q, m_sent := m_sent s - 1\<rparr>)" by (rule red_ok_cong [of meta s]) (use assms(1) in \<open>simp_all add: xmit_inv_def\<close>)
  then show ?thesis using assms by (cases "m_sent s") (auto simp: xmit_inv_def queue_ok_def)
qed

text \<open>What the loop over the sent segments leaves alone.\<close>

definition same_send :: "sk_ptr \<Rightarrow> meta_state \<Rightarrow> meta_state \<Rightarrow> bool" where
  "same_send meta s s' \<longleftrightarrow> same_numbers (m_tp s meta) (m_tp s' meta) \<and> nxt64 meta s' = nxt64 meta s \<and>
     set (l_conns (m_life s')) \<subseteq> set (l_conns (m_life s))"

lemma same_send_refl [simp]: "same_send meta s s"
  by (simp add: same_send_def same_numbers_def)

lemma same_send_trans: "same_send meta a b \<Longrightarrow> same_send meta b c \<Longrightarrow> same_send meta a c"
  by (auto simp: same_send_def same_numbers_def)

lemma keeps_same_send: "keeps_numbers meta (m_life s) l \<Longrightarrow> same_send meta s (s\<lparr>m_life := l\<rparr>)"
  by (simp add: same_send_def keeps_numbers_def same_numbers_def snd_nxt_64_def)

lemma cleaned_head:
  assumes "before una (skb_end_seq b)" and "m_queue s = b # q" and "m_sent s = Suc n"
    and "m_queue s' = b' # q" and "m_sent s' = m_sent s" and "skb_end_seq b' = skb_end_seq b" and "bytes [b'] \<le> bytes [b]"
  shows "cleaned meta una s s'"
  unfolding cleaned_def
  by (rule conjI, rule exI [of _ "[]"], rule exI [of _ "sent_segs s"]) (use assms in \<open>simp_all add: left_def\<close>)

lemma cleaned_step:
  assumes "\<not> before una (skb_end_seq b)" and "m_queue s = b # q" and "m_sent s = Suc n"
    and "m_queue s1 = q" and "m_sent s1 = n" and "cleaned meta una s1 s'"
  shows "cleaned meta una s s'"
proof -
  obtain gone rest where g: "sent_segs s1 = gone @ rest" "\<forall>b\<in>set gone. \<not> before una (skb_end_seq b)"
    "rest \<noteq> [] \<longrightarrow> before una (skb_end_seq (hd rest))" "map skb_end_seq (sent_segs s') = map skb_end_seq rest"
    "tl (sent_segs s') = tl rest" "unsent_segs s' = unsent_segs s1"
    using assms(6) unfolding cleaned_def by blast
  have "left 0 s' \<le> left 0 s1" using assms(6) by (simp add: cleaned_def)
  then have "left 0 s' \<le> left 0 s" using assms(2-5) by (simp add: left_def)
  then show ?thesis unfolding cleaned_def
    by (intro conjI exI [of _ "b # gone"] exI [of _ rest]) (use assms(1-5) g in simp_all)
qed

lemma clean_sent_ok:
  assumes "clean_sent n e k meta acked s = (acked', s')" and "xmit_inv a meta s" and "n = m_sent s"
    and "closes k meta" and "trims e"
  shows "(\<exists>a'. xmit_inv a' meta s') \<and> same_send meta s s' \<and> cleaned meta (snd_una (m_tp s meta)) s s'"
  using assms(1-3)
proof (induction n arbitrary: acked a s)
  case 0
  then show ?case by (auto simp: cleaned_def)
next
  case (Suc n)
  let ?una = "snd_una (m_tp s meta)"
  obtain b q where q: "m_queue s = b # q" using Suc.prems(2,3) by (cases "m_queue s") (auto simp: xmit_inv_def queue_ok_def)
  have n: "m_sent s = Suc n" "0 < m_sent s" using Suc.prems(3) by simp_all
  have fits: "seg_fits b" using Suc.prems(2) q by (simp add: xmit_inv_def queue_ok_def)
  show ?case
  proof (cases "before ?una (skb_end_seq b)")
    case True
    obtain pkts b' where t: "ae_tso_acked e ?una b = (pkts, b')" by fastforce
    have b': "skb_end_seq b' = skb_end_seq b" "seg_fits b'" "bytes [b'] \<le> bytes [b]" using assms(5) fits t unfolding trims_def by (metis snd_conv)+
    let ?s1 = "s\<lparr>m_queue := b' # q\<rparr>"
    have i1: "xmit_inv (skb_seq b') meta ?s1" by (rule replace_head_inv [OF Suc.prems(2) n(2) q b'(1,2)])
    have c: "cleaned meta ?una s s" "cleaned meta ?una s ?s1" "cleaned meta ?una s (note_acked meta pkts ?s1)"
      using cleaned_head [OF True q n(1), of s b] cleaned_head [OF True q n(1), of ?s1 b']
        cleaned_head [OF True q n(1), of "note_acked meta pkts ?s1" b'] b'(3) by (simp_all add: q b'(1) note_acked_def)
    have same: "same_send meta s ?s1" "same_send meta s (note_acked meta pkts ?s1)"
      by (simp_all add: same_send_def same_numbers_def note_acked_def snd_nxt_64_def)
    have "s' \<in> {s, ?s1, note_acked meta pkts ?s1}"
      using Suc.prems(1) True q t by (auto simp: Let_def split: if_splits)
    then show ?thesis using Suc.prems(2) i1 note_acked_inv [OF i1] c same by auto
  next
    case False
    define s1 where "s1 = note_acked meta (mk_pcount k b) s"
    define s2 where "s2 = s1\<lparr>m_queue := q, m_sent := n\<rparr>"
    define s3 where "s3 = (if mptcp_is_data_fin b then close_after_fin k s2 else s2)"
    have s1: "m_queue s1 = b # q" "m_sent s1 = Suc n" "xmit_inv a meta s1" "same_send meta s s1"
      using q n note_acked_inv [OF Suc.prems(2)] by (simp_all add: s1_def note_acked_def same_send_def same_numbers_def snd_nxt_64_def)
    have s2': "s2 = s1\<lparr>m_queue := tl (m_queue s1), m_sent := m_sent s1 - Suc 0\<rparr>" by (simp add: s2_def s1)
    have i2: "xmit_inv (skb_end_seq b) meta s2" using drop_head_inv [OF s1(3) _ s1(1)] s1(2) by (simp add: s2_def)
    have same2: "same_send meta s s2" using s1(4) by (simp add: s2_def same_send_def same_numbers_def)
    have "meta \<notin> set (l_conns (m_life s2))" using i2 by (simp add: xmit_inv_def red_ok_def known_def)
    then obtain l where "close_after_fin k s2 = s2\<lparr>m_life := l\<rparr>" "keeps_numbers meta (m_life s2) l"
      using close_after_fin_keeps [OF assms(4)] by blast
    then have s3: "xmit_inv (skb_end_seq b) meta s3" "same_send meta s2 s3" "m_queue s3 = q" "m_sent s3 = n"
      using i2 inv_life [OF i2] keeps_same_send [of meta s2] by (auto simp: s3_def) (simp_all add: s2_def)
    have "clean_sent n e k meta True s3 = (acked', s')"
      using Suc.prems(1) False q unfolding s3_def s2' by (simp add: Let_def flip: s1_def split del: if_split)
    from Suc.IH [OF this s3(1)] s3(4)
    have IH: "\<exists>a'. xmit_inv a' meta s'" "same_send meta s3 s'" "cleaned meta (snd_una (m_tp s3 meta)) s3 s'" by simp_all
    have same: "same_send meta s s3" using same_send_trans [OF same2 s3(2)] .
    then have "snd_una (m_tp s3 meta) = ?una" by (simp add: same_send_def same_numbers_def)
    then have "cleaned meta ?una s s'" using cleaned_step [OF False q n(1) s3(3,4)] IH(3) by simp
    then show ?thesis using IH(1) same_send_trans [OF same IH(2)] by blast
  qed
qed

lemma reinject_inv:
  assumes "xmit_inv a meta s" and "\<forall>b\<in>set q. seg_fits b"
  shows "xmit_inv a meta (m_set_mpcb (\<lambda>m. m\<lparr>reinject_queue := q\<rparr>) s)"
proof -
  have "red_ok meta (m_set_mpcb (\<lambda>m. m\<lparr>reinject_queue := q\<rparr>) s)"
    by (rule red_ok_cong [of meta s]) (use assms(1) in \<open>simp_all add: xmit_inv_def conns_mpcb\<close>)
  then show ?thesis using assms by (auto simp: xmit_inv_def queue_ok_def snd_high_inv_def)
qed

lemma same_meta_fields_inv:
  assumes "xmit_inv a meta s" and "m_queue s' = m_queue s" "m_sent s' = m_sent s" "m_red s' = m_red s" "m_mpcb s' = m_mpcb s"
    and "same_numbers (m_tp s meta) (m_tp s' meta)" and "\<And>p. sk_key (m_tp s' p) = sk_key (m_tp s p)"
  shows "xmit_inv a meta s'"
proof -
  have "red_ok meta s'"
    by (rule red_ok_cong [of meta s]) (use assms in \<open>simp_all add: xmit_inv_def flip: conns_mpcb\<close>)
  then show ?thesis using assms by (auto simp: xmit_inv_def queue_ok_def same_numbers_def)
qed

lemma clean_rtx_ok:
  assumes inv: "xmit_inv a meta s" and k: "closes k meta" "counts k" and e: "trims e"
  shows "\<exists>s' a'. mptcp_clean_rtx_queue e k meta prior s = Some s' \<and> xmit_inv a' meta s' \<and> same_send meta s s' \<and>
    cleaned meta (snd_una (m_tp s meta)) s s'"
proof -
  obtain acked s1 where c: "clean_sent (m_sent s) e k meta False s = (acked, s1)" by fastforce
  obtain a' where 1: "xmit_inv a' meta s1" "same_send meta s s1" "cleaned meta (snd_una (m_tp s meta)) s s1"
    using clean_sent_ok [OF c inv refl k(1) e] by blast
  have "\<forall>b\<in>set (rq s1). seg_fits b" using 1(1) by (simp add: xmit_inv_def queue_ok_def)
  then obtain q where q: "clean_reinject k (snd_una (m_tp s1 meta)) (rq s1) = Some q" "\<forall>b\<in>set q. seg_fits b"
    using clean_reinject_ok [OF k(2)] by blast
  let ?s2 = "m_set_mpcb (\<lambda>m. m\<lparr>reinject_queue := q\<rparr>) s1"
  have 2: "xmit_inv a' meta ?s2" by (rule reinject_inv [OF 1(1) q(2)])
  define s3 where "s3 = (if between (m_snd_up ?s2) prior (snd_una (m_tp s1 meta)) then ?s2\<lparr>m_snd_up := snd_una (m_tp s1 meta)\<rparr> else ?s2)"
  define s4 where "s4 = (if acked then m_set_tp meta (\<lambda>tp. tp\<lparr>icsk_retransmits := 0\<rparr>) (m_call Rearm_Rto s3) else s3)"
  have eq: "mptcp_clean_rtx_queue e k meta prior s = Some s4"
    using c q(1) by (simp add: mptcp_clean_rtx_queue_def Let_def s4_def s3_def)
  have f: "m_queue s4 = m_queue ?s2" "m_sent s4 = m_sent ?s2" "m_red s4 = m_red ?s2" "m_mpcb s4 = m_mpcb ?s2"
    "same_numbers (m_tp ?s2 meta) (m_tp s4 meta)" "\<And>p. sk_key (m_tp s4 p) = sk_key (m_tp ?s2 p)"
    by (simp_all add: s4_def s3_def same_numbers_def sk_key_def)
  have "xmit_inv a' meta s4" by (rule same_meta_fields_inv [OF 2 f])
  moreover have "same_send meta s1 s4" using f by (simp add: same_send_def same_numbers_def snd_nxt_64_def conns_mpcb flip: conns_mpcb)
  moreover have "cleaned meta (snd_una (m_tp s meta)) s s4" using 1(3) f(1,2) left_same [of s4 s1 0] by (simp add: cleaned_def)
  ultimately show ?thesis using eq same_send_trans [OF 1(2)] by blast
qed

section \<open>Sending the queue again ends\<close>

lemma left_head: "i < m_sent s \<Longrightarrow> m_sent s \<le> length (m_queue s) \<Longrightarrow> left (Suc i) s + bytes [m_queue s ! i] + 1 = left i s"
proof -
  assume i: "i < m_sent s" "m_sent s \<le> length (m_queue s)"
  then have "drop i (sent_segs s) = m_queue s ! i # drop (Suc i) (sent_segs s)"
    using Cons_nth_drop_Suc [of i "sent_segs s"] by simp
  then show ?thesis using i by (simp add: left_def)
qed

lemma left_put:
  assumes "i < m_sent s" and "m_sent s \<le> length (m_queue s)"
  shows "left (Suc i) (put_segs (In_Queue i) (x # xs) s) = left (Suc i) s + bytes xs + length xs"
proof -
  have "m_sent s + length xs - i = Suc (length xs + (m_sent s - Suc i))" using assms by simp
  then have "sent_segs (put_segs (In_Queue i) (x # xs) s) = splice i (x # xs) (sent_segs s)"
    using assms by (simp add: put_segs_def splice_def min_absorb1 take_drop)
  then have "drop (Suc i) (sent_segs (put_segs (In_Queue i) (x # xs) s)) = xs @ drop (Suc i) (sent_segs s)"
    using assms by (simp add: splice_def)
  moreover have "m_sent (put_segs (In_Queue i) (x # xs) s) = m_sent s + length xs" using assms by (simp add: put_segs_def)
  ultimately show ?thesis using assms by (simp add: left_def)
qed

lemma left_fragment:
  assumes inv: "xmit_inv a meta s" and i: "i < m_sent s" and k: "splits k" and len: "len \<le> skb_len (m_queue s ! i)" "len \<noteq> 0"
    and res: "fragment_at k meta (In_Queue i) len s = Some s'"
  shows "left (Suc i) s' < left i s"
proof -
  obtain x y tp where f: "mptcp_fragment k (m_queue s ! i) len False (m_tp s meta) = Some (x, y, tp)"
    and s': "s' = m_set_tp meta (\<lambda>_. tp) (put_segs (In_Queue i) [x, y] s)"
    using res by (auto simp: fragment_at_def seg_at_def split: option.splits)
  have q: "queue_ok a meta s" "m_sent s \<le> length (m_queue s)" using inv by (simp_all add: xmit_inv_def queue_ok_def)
  have "seg_fits (m_queue s ! i)" using seg_at_fits [OF q(1), of "In_Queue i"] i by (simp add: ref_ok_def seg_at_def)
  note fr = fragment_replaces [OF f k this len(1)]
  have "bytes [x, y] = bytes [m_queue s ! i]" using fr(1) unfolding replaces_def by blast
  moreover have "bytes [x] = unat len" using fr(3) by simp
  moreover have "0 < unat len" using len(2) by (simp add: unat_gt_0)
  moreover have "left (Suc i) s' = left (Suc i) s + bytes [y] + 1"
    using left_put [OF i q(2), of x "[y]"] left_same [of s' "put_segs (In_Queue i) [x, y] s"] by (simp add: s')
  ultimately show ?thesis using left_head [OF i q(2)] by simp
qed

lemma retransmit_cases:
  assumes g: "mk_get_subflow k (Some (In_Queue i)) False s = (Some sk, s1)" and full: "\<not> mk_send_full k s"
    and n: "mk_pcount k (m_queue s1 ! i) \<noteq> 0" and mss: "mss = mk_mss k (m_tp s1 sk)"
    and l: "l = (if skb_len (m_queue s1 ! i) > mss \<and> \<not> mk_urg k (m_tp s1 meta) then mk_split_point k (m_queue s1 ! i) mss TCP_NAGLE_OFF_FLAG else mss)"
    and c: "piece = (if skb_len (m_queue s1 ! i) > l then fragment_at k meta (In_Queue i) l s1 else Some s1)"
  shows "\<exists>err s'. mptcp_retransmit_skb k meta i s = Some (err, s') \<and>
    (err = 0 \<longrightarrow> (\<exists>s2 s3. piece = Some s2 \<and> entail_at k meta sk (In_Queue i) True s2 = (True, s3) \<and> same_meta meta s3 s'))"
proof -
  have piece': "(if skb_len (m_queue s1 ! i) > l then case mptcp_fragment k (m_queue s1 ! i) l False (m_tp s1 meta) of None \<Rightarrow> None
      | Some (a, b, tp) \<Rightarrow> Some (m_set_tp meta (\<lambda>_. tp) (put_segs (In_Queue i) [a, b] s1)) else Some s1) = piece"
    by (simp add: c fragment_at_def seg_at_def)
  show ?thesis
  proof (cases "mk_unclone k (m_queue s1 ! i) \<or> piece = None")
    case True
    then show ?thesis
      unfolding mptcp_retransmit_skb_def Let_def g prod.case option.case if_not_P [OF full] if_not_P [OF n] mss [symmetric] l [symmetric] piece'
      by (auto simp: ENOMEM_NR_def)
  next
    case False
    then obtain s2 where s2: "piece = Some s2" "\<not> mk_unclone k (m_queue s1 ! i)" by blast
    obtain ok s3 where e: "entail_at k meta sk (In_Queue i) True s2 = (ok, s3)" by fastforce
    show ?thesis
      unfolding mptcp_retransmit_skb_def Let_def g prod.case option.case if_not_P [OF full] if_not_P [OF n] mss [symmetric] l [symmetric] piece'
      using s2 e by (cases ok) (auto intro!: same_metaI)
  qed
qed

lemma entail_left:
  assumes "entail_at k meta sk (In_Queue i) r s = (ok, s')" and "i < m_sent s" and "m_sent s \<le> length (m_queue s)"
  shows "left (Suc i) s' = left (Suc i) s"
proof -
  obtain skb out where "s' = put_segs (In_Queue i) [skb] (s\<lparr>m_life := (m_life s)\<lparr>l_out := out\<rparr>\<rparr>)"
    using assms(1) by (auto simp: entail_at_def split: prod.splits)
  then show ?thesis using left_put [of i "s\<lparr>m_life := (m_life s)\<lparr>l_out := out\<rparr>\<rparr>" skb "[]"] assms(2,3)
      left_same [of "s\<lparr>m_life := (m_life s)\<lparr>l_out := out\<rparr>\<rparr>" s "Suc i"] by simp
qed

lemma retransmit_ends:
  assumes inv: "xmit_inv a meta s" and i: "i < m_sent s" and k: "xmit_kernel k meta" "counts k" "sizes k"
  shows "\<exists>err s'. mptcp_retransmit_skb k meta i s = Some (err, s') \<and> (err = 0 \<longrightarrow> left (Suc i) s' < left i s)"
proof (cases "mk_send_full k s")
  case True
  then show ?thesis by (simp add: mptcp_retransmit_skb_def EAGAIN_def)
next
  case full: False
  obtain r s1 where g: "mk_get_subflow k (Some (In_Queue i)) False s = (r, s1)" by fastforce
  have p: "xmit_inv a meta s1" "m_sent s1 = m_sent s" "left j s1 = left j s" for j
    using picks_ok [OF k(1) g inv] left_same_data [of s1 s j] by simp_all
  have len: "m_sent s1 \<le> length (m_queue s1)" using p(1) by (simp add: xmit_inv_def queue_ok_def)
  have head: "left (Suc i) s1 < left i s" using left_head [of i s1] i p len by simp
  show ?thesis
  proof (cases r)
    case None
    then show ?thesis using full g head by (simp add: mptcp_retransmit_skb_def)
  next
    case (Some sk)
    let ?b = "m_queue s1 ! i"
    define mss where "mss = mk_mss k (m_tp s1 sk)"
    define l where "l = (if skb_len ?b > mss \<and> \<not> mk_urg k (m_tp s1 meta) then mk_split_point k ?b mss TCP_NAGLE_OFF_FLAG else mss)"
    define piece where "piece = (if skb_len ?b > l then fragment_at k meta (In_Queue i) l s1 else Some s1)"
    have l0: "l \<noteq> 0" using k(3) by (auto simp: sizes_def l_def mss_def)
    have sp: "splits k" using k(1) by (simp add: xmit_kernel_def)
    have i1: "i < m_sent s1" "ref_ok (In_Queue i) s1" using i p by (simp_all add: ref_ok_def)
    have piece_ok: "left (Suc i) s2 < left i s \<and> i < m_sent s2 \<and> m_sent s2 \<le> length (m_queue s2)" if "piece = Some s2" for s2
    proof (cases "skb_len ?b > l")
      case True
      then have f: "fragment_at k meta (In_Queue i) l s1 = Some s2" "l \<le> skb_len ?b" "l \<le> skb_len (seg_at (In_Queue i) s1)"
        using that by (simp_all add: piece_def seg_at_def)
      have "left (Suc i) s2 < left i s1" by (rule left_fragment [OF p(1) i1(1) sp f(2) l0 f(1)])
      moreover have "xmit_inv a meta s2" "ref_ok (In_Queue i) s2" using fragment_at_ok [OF p(1) i1(2) sp f(3,1)] by simp_all
      ultimately show ?thesis using p by (simp add: xmit_inv_def queue_ok_def ref_ok_def)
    next
      case False
      then show ?thesis using that head i1 len by (simp add: piece_def)
    qed
    have "mk_pcount k ?b \<noteq> 0" using k(2) by (simp add: counts_def)
    from retransmit_cases [OF g [unfolded Some] full this mss_def l_def piece_def]
    obtain err s' where e: "mptcp_retransmit_skb k meta i s = Some (err, s')"
      "err = 0 \<longrightarrow> (\<exists>s2 s3. piece = Some s2 \<and> entail_at k meta sk (In_Queue i) True s2 = (True, s3) \<and> same_meta meta s3 s')" by blast
    have "left (Suc i) s' < left i s" if z: "err = 0"
    proof -
      obtain s2 s3 where c: "piece = Some s2" "entail_at k meta sk (In_Queue i) True s2 = (True, s3)" "same_meta meta s3 s'" using e(2) z by blast
      then show ?thesis using piece_ok [OF c(1)] entail_left [OF c(2)] left_same_data [of s' s3 "Suc i"] by (simp add: same_meta_def)
    qed
    then show ?thesis using e(1) by blast
  qed
qed

lemma retransmit_rest_ok:
  assumes "left i s < n" and "xmit_inv a meta s" and k: "xmit_kernel k meta" "counts k" "sizes k"
  shows "\<exists>s'. retransmit_rest n k meta i s = Some s' \<and> xmit_inv a meta s' \<and> advances meta s s'"
  using assms(1,2)
proof (induction n arbitrary: i s)
  case (Suc n)
  show ?case
  proof (cases "i < m_sent s")
    case False
    then show ?thesis using Suc.prems by simp
  next
    case True
    obtain err s1 where r: "mptcp_retransmit_skb k meta i s = Some (err, s1)" "err = 0 \<longrightarrow> left (Suc i) s1 < left i s"
      using retransmit_ends [OF Suc.prems(2) True k] by blast
    have 1: "xmit_inv a meta s1" "advances meta s s1" using retransmit_ok [OF Suc.prems(2) True k(1) r(1)] by blast+
    define s2 where "s2 = (if i = 0 then m_call (Xmit_Timer (icsk_rto (m_tp s1 meta))) s1 else s1)"
    have 2: "xmit_inv a meta s2" "advances meta s s2" "left (Suc i) s2 = left (Suc i) s1"
      using 1 left_same [of s2 s1 "Suc i"] by (simp_all add: s2_def xmit_inv_def m_call_ok)
    show ?thesis
    proof (cases "err = 0")
      case False
      then show ?thesis using True r 1 by simp
    next
      case zero: True
      then have "left (Suc i) s2 < n" using r(2) 2(3) Suc.prems(1) by simp
      from Suc.IH [OF this 2(1)] show ?thesis
        using True r(1) zero advances_trans [OF 2(2)] by (auto simp: s2_def)
    qed
  qed
qed simp

section \<open>Operations that leave the queue alone\<close>

definition quiet_step :: "sk_ptr \<Rightarrow> meta_state \<Rightarrow> meta_state \<Rightarrow> bool" where
  "quiet_step meta s s' \<longleftrightarrow> m_queue s' = m_queue s \<and> m_sent s' = m_sent s \<and> m_red s' = m_red s \<and> keeps_numbers meta (m_life s) (m_life s')"

lemma quiet_refl [simp]: "quiet_step meta s s"
  by (simp add: quiet_step_def)

lemma quiet_trans: "quiet_step meta a b \<Longrightarrow> quiet_step meta b c \<Longrightarrow> quiet_step meta a c"
  unfolding quiet_step_def using keeps_numbers_trans by auto

lemma quiet_inv:
  assumes "quiet_step meta s s'" and "xmit_inv a meta s"
  shows "xmit_inv a meta s'"
proof -
  have "xmit_inv a meta (s\<lparr>m_life := m_life s'\<rparr>)" using assms by (intro inv_life) (simp_all add: quiet_step_def)
  then show ?thesis using assms(1) by (simp add: xmit_inv_def queue_ok_def red_ok_def red_of_def known_def quiet_step_def)
qed

text \<open>The numbers after an acknowledgement, without \<open>snd_una\<close>.\<close>

definition moves :: "sk_ptr \<Rightarrow> meta_state \<Rightarrow> meta_state \<Rightarrow> bool" where
  "moves meta s s' \<longleftrightarrow> (\<exists>n. nxt64 meta s' = nxt64 meta s + of_nat n \<and> bytes (unsent_segs s) = n + bytes (unsent_segs s')) \<and>
     write_seq (m_tp s' meta) = write_seq (m_tp s meta)"

lemma advances_moves: "advances meta s s' \<longleftrightarrow> moves meta s s' \<and> snd_una (m_tp s' meta) = snd_una (m_tp s meta)"
  by (auto simp: advances_def moves_def)

lemma quiet_advances: "quiet_step meta s s' \<Longrightarrow> advances meta s s'"
  by (auto simp: quiet_step_def advances_def keeps_numbers_def same_numbers_def snd_nxt_64_def intro: exI [of _ 0])

lemma quiet_steps:
  "quiet_step meta s (m_call c s)"
  "(\<And>tp. sk_key (f tp) = sk_key tp) \<Longrightarrow> sk \<noteq> meta \<or> (\<forall>tp. same_numbers tp (f tp)) \<Longrightarrow> quiet_step meta s (m_set_tp sk f s)"
  "keeps_numbers meta (m_life s) l \<Longrightarrow> quiet_step meta s (s\<lparr>m_life := l\<rparr>)"
  by (auto simp: quiet_step_def m_call_def m_set_tp_def keeps_numbers_def same_numbers_def set_tp_def l_tp_def l_mpcb_def l_conns_def)

lemma push_pending_quiet: "quiet_step meta s (mptcp_push_pending_frames meta s)"
  by (simp add: mptcp_push_pending_frames_def quiet_steps(1))

lemma refresh_quiet: "quiet_step meta s (refresh_wnd_end meta s)"
  unfolding refresh_wnd_end_def by (rule quiet_steps(2)) (simp_all add: sk_key_def same_numbers_def)

lemma update_window_quiet: "quiet_step meta s (update_window e meta x y z s)"
  by (simp add: update_window_def quiet_step_def Let_def)

lemma operational_quiet: "sk \<noteq> meta \<Longrightarrow> quiet_step meta s (operational sk p s)"
proof -
  assume sk: "sk \<noteq> meta"
  let ?s1 = "m_set_tp sk (\<lambda>tp. tp\<lparr>pf := False\<rparr>) s"
  let ?s2 = "m_set_tp sk (\<lambda>tp. tp\<lparr>pre_established := False\<rparr>) ?s1"
  have 1: "quiet_step meta s ?s1" by (rule quiet_steps(2)) (use sk in \<open>simp_all add: sk_key_def\<close>)
  have 2: "quiet_step meta ?s1 ?s2" by (rule quiet_steps(2)) (use sk in \<open>simp_all add: sk_key_def\<close>)
  have 3: "quiet_step meta ?s2 (?s2\<lparr>m_life := call (Stop_Ack_Timer sk) (m_life ?s2)\<rparr>)" by (rule quiet_steps(3) [OF keeps_numbers_step(1)])
  show ?thesis using 1 quiet_trans [OF quiet_trans [OF 1 2] 3] by (simp add: operational_def Let_def)
qed

lemma fully_estab_quiet: "sk \<noteq> meta \<Longrightarrow> quiet_step meta s (fully_estab sk s)"
proof -
  assume sk: "sk \<noteq> meta"
  let ?s1 = "m_set_tp sk (\<lambda>tp. tp\<lparr>fully_established := True\<rparr>) s"
  have 1: "quiet_step meta s ?s1" by (rule quiet_steps(2)) (use sk in \<open>simp_all add: sk_key_def\<close>)
  show ?thesis using 1 quiet_trans [OF 1 quiet_steps(1)] by (simp add: fully_estab_def Let_def)
qed

lemma meta_done_quiet: "closes k meta \<Longrightarrow> quiet_step meta s (meta_done k meta s)"
  unfolding meta_done_def by (rule quiet_steps(3)) (simp add: closes_def)

lemma send_reset_quiet:
  assumes k: "closes k meta" and sk: "sk \<noteq> meta"
  shows "quiet_step meta s (mptcp_send_reset k sk s)"
proof -
  have "keeps_numbers meta l (mptcp_sub_force_close (mk_life k) sk l)" for l
  proof -
    let ?l1 = "set_info sk (\<lambda>i. i\<lparr>mp_killed := True\<rparr>) l"
    let ?l2 = "lk_tcp_done (mk_life k) sk ?l1"
    have 1: "keeps_numbers meta l ?l1" by (rule keeps_numbers_step)
    have 2: "keeps_numbers meta l ?l2" using keeps_numbers_trans [OF 1] k by (simp add: closes_def)
    show ?thesis
      using 1 2 keeps_numbers_trans [OF 1 sub_close_keeps [OF k sk]] keeps_numbers_trans [OF 2 sub_close_keeps [OF k sk]]
      by (simp add: mptcp_sub_force_close_def Let_def)
  qed
  note f = quiet_steps(3) [OF this]
  show ?thesis using f [of s] quiet_trans [OF quiet_steps(1) f] by (simp add: mptcp_send_reset_def Let_def)
qed

lemma force_close_quiet:
  assumes "closes k meta" and "meta \<notin> set (l_conns (m_life s))"
  shows "quiet_step meta s (sub_force_close_all k x s)"
proof -
  have "meta \<notin> set sks \<Longrightarrow> quiet_step meta t (fold (\<lambda>sk s. if Some sk \<noteq> x then mptcp_send_reset k sk s else s) sks t)" for sks t
  proof (induction sks arbitrary: t)
    case (Cons sk sks)
    then show ?case using quiet_trans [OF send_reset_quiet [OF assms(1), of sk t]] by auto
  qed simp
  then show ?thesis using assms(2) by (simp add: sub_force_close_all_def)
qed

lemma active_reset_quiet:
  assumes k: "closes k meta" and m: "meta \<notin> set (l_conns (m_life s))"
  shows "quiet_step meta s (mptcp_send_active_reset k s)"
proof -
  have q: "quiet_step meta s (s3\<lparr>m_fclose := True\<rparr>)" if "quiet_step meta s s3" for s3 using that by (simp add: quiet_step_def)
  let ?s1 = "\<lambda>sk. s\<lparr>m_life := set_info sk (\<lambda>i. i\<lparr>fclose_sent := True\<rparr>) (m_life s)\<rparr>"
  have 1: "quiet_step meta s (?s1 sk)" for sk by (rule quiet_steps(3) [OF keeps_numbers_step(2)])
  have nm: "meta \<notin> set (l_conns (m_life (?s1 sk)))" for sk using m by (simp add: set_info_def l_conns_def l_mpcb_def)
  have 2: "quiet_step meta s (sub_force_close_all k x (?s1 sk))" for x sk by (rule quiet_trans [OF 1 force_close_quiet [OF k nm]])
  have "quiet_step meta s (m_call c2 (m_call c1 (sub_force_close_all k x (?s1 sk))))" for c1 c2 x sk
    using quiet_trans [OF quiet_trans [OF 2 quiet_steps(1)] quiet_steps(1)] .
  note 3 = q [OF this]
  show ?thesis using force_close_quiet [OF k m] 3
    by (simp add: mptcp_send_active_reset_def Let_def split: option.split)
qed

text \<open>Time-wait and the reset of the connection do not touch the numbers and the queue either.\<close>

definition finals :: "ack_env \<Rightarrow> sk_ptr \<Rightarrow> bool" where
  "finals e meta \<longleftrightarrow> (\<forall>s t. quiet_step meta s (ae_time_wait e meta t s)) \<and> (\<forall>s. quiet_step meta s (ae_tcp_reset e meta s))"

lemma fin_wait1_quiet:
  assumes k: "closes k meta" and e: "finals e meta" and m: "meta \<notin> set (l_conns (m_life s))"
  shows "quiet_step meta s (snd (fin_wait1_acked e k meta sk p x y s))"
proof -
  let ?s1 = "m_set_tp meta (\<lambda>tp. tp\<lparr>sk_state := TCP_FIN_WAIT2\<rparr>) s"
  let ?s2 = "?s1\<lparr>m_life := (m_life ?s1)\<lparr>meta_shutdown := setf (meta_shutdown (m_life ?s1)) SEND_SHUTDOWN\<rparr>\<rparr>"
  define s3 where "s3 = (if ae_dst e then m_call (Dst_Confirm sk) ?s2 else ?s2)"
  have 1: "quiet_step meta s ?s1" by (rule quiet_steps(2)) (simp_all add: sk_key_def same_numbers_def)
  have 2: "quiet_step meta ?s1 ?s2"
    by (rule quiet_steps(3)) (simp add: keeps_numbers_def same_numbers_def l_tp_def l_mpcb_def l_conns_def)
  have q: "quiet_step meta s s3" using quiet_trans [OF 1 2] quiet_trans [OF _ quiet_steps(1)] by (simp add: s3_def)
  then have m3: "meta \<notin> set (l_conns (m_life s3))" using m by (auto simp: quiet_step_def keeps_numbers_def)
  have "quiet_step meta s (m_call c s3)" for c by (rule quiet_trans [OF q quiet_steps(1)])
  moreover have "quiet_step meta s (meta_done k meta (mptcp_send_active_reset k s3))"
    by (rule quiet_trans [OF quiet_trans [OF q active_reset_quiet [OF k m3]] meta_done_quiet [OF k]])
  moreover have "quiet_step meta s (ae_time_wait e meta t s3)" for t using quiet_trans [OF q] e by (simp add: finals_def)
  ultimately show ?thesis unfolding fin_wait1_acked_def Let_def s3_def [symmetric] by simp
qed

lemma rcv_state_quiet:
  assumes k: "closes k meta" and e: "finals e meta" and m: "meta \<notin> set (l_conns (m_life s))"
  shows "quiet_step meta s (snd (mptcp_rcv_state_process e k meta sk p x y s))"
proof -
  obtain b s1 where f: "fin_acked e k meta sk p x y s = (b, s1)" by fastforce
  have "quiet_step meta s (snd (fin_acked e k meta sk p x y s))"
    using fin_wait1_quiet [OF assms] meta_done_quiet [OF k] by (simp add: fin_acked_def Let_def)
  then have q: "quiet_step meta s s1" using f by simp
  then have "meta \<notin> set (l_conns (m_life s1))" using m by (auto simp: quiet_step_def keeps_numbers_def)
  from quiet_trans [OF q active_reset_quiet [OF k this]]
  have "quiet_step meta s (ae_tcp_reset e meta (mptcp_send_active_reset k s1))" using quiet_trans e unfolding finals_def by blast
  then show ?thesis using f q by (cases b) (simp_all add: mptcp_rcv_state_process_def)
qed

section \<open>The acknowledgement\<close>

definition ack_kernel :: "ack_env \<Rightarrow> meta_kernel \<Rightarrow> sk_ptr \<Rightarrow> bool" where
  "ack_kernel e k meta \<longleftrightarrow> xmit_kernel k meta \<and> counts k \<and> sizes k \<and> closes k meta \<and> trims e \<and> finals e meta"

lemma set_una_inv:
  assumes "xmit_inv a meta s"
  shows "xmit_inv a meta (m_set_tp meta (\<lambda>tp. tp\<lparr>snd_una := x\<rparr>) s)" "moves meta s (m_set_tp meta (\<lambda>tp. tp\<lparr>snd_una := x\<rparr>) s)"
proof -
  let ?s = "m_set_tp meta (\<lambda>tp. tp\<lparr>snd_una := x\<rparr>) s"
  have "red_ok meta ?s" by (rule red_ok_cong [of meta s]) (use assms in \<open>simp_all add: xmit_inv_def sk_key_def\<close>)
  then show "xmit_inv a meta ?s" using assms by (simp add: xmit_inv_def queue_ok_def)
  show "moves meta s ?s" by (auto simp: moves_def snd_nxt_64_def intro: exI [of _ 0])
qed

lemma moves_trans:
  assumes "moves meta s1 s2" and "moves meta s2 s3"
  shows "moves meta s1 s3"
proof -
  obtain n m where "nxt64 meta s2 = nxt64 meta s1 + of_nat n" "bytes (unsent_segs s1) = n + bytes (unsent_segs s2)"
    "nxt64 meta s3 = nxt64 meta s2 + of_nat m" "bytes (unsent_segs s2) = m + bytes (unsent_segs s3)"
    using assms unfolding moves_def by blast
  then have "nxt64 meta s3 = nxt64 meta s1 + of_nat (n + m) \<and> bytes (unsent_segs s1) = (n + m) + bytes (unsent_segs s3)" by simp
  then show ?thesis using assms unfolding moves_def by (metis (no_types, lifting))
qed

lemma ack_data_ok:
  assumes inv: "xmit_inv a meta s" and k: "ack_kernel e k meta" and fuel: "left 0 s < n"
  shows "\<exists>s' a'. ack_data n e k meta sk p x y z s = Some s' \<and> xmit_inv a' meta s' \<and> moves meta s s' \<and> snd_una (m_tp s' meta) = x"
proof -
  have ks: "xmit_kernel k meta" "counts k" "sizes k" "closes k meta" "trims e" "finals e meta"
    using k by (simp_all add: ack_kernel_def)
  let ?s0 = "m_set_tp meta (\<lambda>tp. tp\<lparr>snd_una := x\<rparr>) s"
  define s1 where "s1 = refresh_wnd_end meta ?s0"
  have i1: "xmit_inv a meta s1" unfolding s1_def by (rule quiet_inv [OF refresh_quiet set_una_inv(1) [OF inv]])
  have m1: "moves meta s s1" "snd_una (m_tp s1 meta) = x" "left 0 s1 = left 0 s"
    using moves_trans [OF set_una_inv(2) [OF inv, of x]] quiet_advances [OF refresh_quiet, of meta ?s0]
    by (simp_all add: s1_def advances_moves refresh_wnd_end_def left_def)
  obtain s2 a' where c: "mptcp_clean_rtx_queue e k meta (snd_una (m_tp s meta)) s1 = Some s2" "xmit_inv a' meta s2" "same_send meta s1 s2"
    "cleaned meta x s1 s2"
    using clean_rtx_ok [OF i1 ks(4,2,5)] m1(2) by metis
  have m2: "moves meta s s2" "snd_una (m_tp s2 meta) = x" "left 0 s2 < n"
  proof -
    have "moves meta s1 s2" using c(3,4) by (auto simp: moves_def same_send_def same_numbers_def cleaned_def intro!: exI [of _ 0])
    then show "moves meta s s2" using moves_trans [OF m1(1)] by blast
    show "snd_una (m_tp s2 meta) = x" using c(3) m1(2) by (simp add: same_send_def same_numbers_def)
    show "left 0 s2 < n" using c(4) fuel m1(3) by (simp add: cleaned_def)
  qed
  define r where "r = (if icsk_ca_state (m_tp s2 meta) = TCP_CA_Loss \<and> after x (snd_una (m_tp s meta))
    then map_option (m_set_tp meta (\<lambda>tp. tp\<lparr>icsk_ca_state := TCP_CA_Open\<rparr>)) (mptcp_xmit_retransmit_queue n k meta s2) else Some s2)"
  have "\<exists>s3. r = Some s3 \<and> xmit_inv a' meta s3 \<and> moves meta s s3 \<and> snd_una (m_tp s3 meta) = x"
  proof -
    obtain t where t: "retransmit_rest n k meta 0 s2 = Some t" "xmit_inv a' meta t" "advances meta s2 t"
      using retransmit_rest_ok [OF m2(3) c(2) ks(1-3)] by blast
    obtain u where u: "mptcp_xmit_retransmit_queue n k meta s2 = Some u" "xmit_inv a' meta u" "advances meta s2 u"
      using t c(2) by (cases "packets_out (m_tp s2 meta) = 0") (simp_all add: mptcp_xmit_retransmit_queue_def)
    let ?v = "m_set_tp meta (\<lambda>tp. tp\<lparr>icsk_ca_state := TCP_CA_Open\<rparr>) u"
    have "quiet_step meta u ?v" by (rule quiet_steps(2)) (simp_all add: sk_key_def same_numbers_def)
    then have v: "xmit_inv a' meta ?v" "advances meta s2 ?v"
      using quiet_inv [OF _ u(2)] quiet_advances advances_trans [OF u(3)] by blast+
    then have "moves meta s ?v" "snd_una (m_tp ?v meta) = x" using moves_trans [OF m2(1)] m2(2) by (simp_all add: advances_moves)
    then show ?thesis using u(1) v(1) c(2) m2 by (simp add: r_def)
  qed
  then obtain s3 where s3: "r = Some s3" "xmit_inv a' meta s3" "moves meta s s3" "snd_una (m_tp s3 meta) = x" by blast
  define s4 where "s4 = (if ae_shrunk_nospace e then m_call Wake_Writers s3 else s3)"
  have q4: "quiet_step meta s3 s4" by (simp add: s4_def quiet_steps(1))
  have fin: "xmit_inv a' meta t \<and> moves meta s t \<and> snd_una (m_tp t meta) = x" if "quiet_step meta s4 t" for t
    using quiet_inv [OF quiet_trans [OF q4 that] s3(2)] quiet_advances [OF quiet_trans [OF q4 that]] moves_trans [OF s3(3)] s3(4)
    by (simp add: advances_moves)
  obtain b s5 where r5: "mptcp_rcv_state_process e k meta sk p y z s4 = (b, s5)" by fastforce
  have "quiet_step meta s4 s5"
    using rcv_state_quiet [OF ks(4,6) no_meta_conns [OF quiet_inv [OF q4 s3(2)]], of sk p y z] r5 by simp
  then have 5: "quiet_step meta s4 (mptcp_push_pending_frames meta s5)" "quiet_step meta s4 s5"
    using quiet_trans [OF _ push_pending_quiet] by blast+
  have "\<exists>t. ack_data n e k meta sk p x y z s = Some t \<and> quiet_step meta s4 t"
    unfolding ack_data_def Let_def s1_def [symmetric] c(1) bind.bind_lunit r_def [symmetric] s3(1) s4_def [symmetric] r5
    using 5 push_pending_quiet by (cases b) auto
  then show ?thesis using fin by blast
qed

text \<open>C12. A data acknowledgement, whatever it says and in whatever state the connection is, with any scheduler that has the contract
  of Meta_Sched, as the default one has, and segment sizes that are not zero: it is processed without
  a fault, also when it puts the connection out of loss and the whole queue is sent again (the fuel is
  more than the bytes and segments in flight).  \<open>snd_una\<close> stays or becomes the acknowledged number,
  and then moves only forward, never beyond \<open>snd_nxt\<close>; the queue stays one chain, the number of the next
  byte agrees with what was taken from the unsent part, and rMPTCP's register stays well formed.\<close>

theorem mptcp_data_ack_safe:
  assumes inv: "xmit_inv a meta s" and k: "ack_kernel e k meta" and sk: "sk \<noteq> meta"
    and win: "unat (snd_nxt (m_tp s meta) - snd_una (m_tp s meta)) < 2 ^ 31" and fuel: "left 0 s < n"
  shows "\<exists>s' a'. mptcp_data_ack n e k meta sk p s = Some s' \<and> xmit_inv a' meta s' \<and> moves meta s s' \<and>
    snd_una (m_tp s' meta) \<in> {snd_una (m_tp s meta), pk_data_ack p} \<and>
    unat (snd_una (m_tp s' meta) - snd_una (m_tp s meta)) \<le> unat (snd_nxt (m_tp s meta) - snd_una (m_tp s meta))"
proof -
  define s2 where "s2 = operational sk p s"
  define s3 where "s3 = (if \<not> fully_established (m_tp s2 sk) \<and> snt_isn (m_tp s2 sk) + 1 \<noteq> pk_ack_seq p then fully_estab sk s2 else s2)"
  have q2: "quiet_step meta s s2" unfolding s2_def by (rule operational_quiet [OF sk])
  have q3: "quiet_step meta s s3" using q2 quiet_trans [OF q2 fully_estab_quiet [OF sk]] by (simp add: s3_def)
  have ok: ?thesis if "mptcp_data_ack n e k meta sk p s = Some t" "quiet_step meta s t" for t
    using that quiet_inv [OF that(2) inv] quiet_advances [OF that(2)] by (auto simp: advances_moves)
  have push: "quiet_step meta s (mptcp_push_pending_frames meta t)" if "quiet_step meta s t" for t
    by (rule quiet_trans [OF that push_pending_quiet])
  show ?thesis
  proof (cases "\<not> pk_ack p \<and> \<not> infinite_mapping_snd (m_mpcb s2)")
    case True
    then show ?thesis using ok [OF _ push [OF q2]] by (simp add: mptcp_data_ack_def s2_def)
  next
    case ack: False
    have una: "snd_una (m_tp s3 meta) = snd_una (m_tp s meta)" "snd_nxt (m_tp s3 meta) = snd_nxt (m_tp s meta)"
      using q3 by (simp_all add: quiet_step_def keeps_numbers_def same_numbers_def)
    show ?thesis
    proof (cases "before (pk_data_ack p) (snd_una (m_tp s3 meta)) \<or> after (pk_data_ack p) (snd_nxt (m_tp s3 meta))")
      case True
      have "mptcp_data_ack n e k meta sk p s = Some (mptcp_push_pending_frames meta s3)"
        unfolding mptcp_data_ack_def Let_def s2_def [symmetric] s3_def [symmetric] if_not_P [OF ack] if_P [OF True] ..
      then show ?thesis using ok push [OF q3] by blast
    next
      case good: False
      let ?seq = "if pk_has_seq p then pk_data_seq p else m_wl1 s3" and ?len = "if pk_has_seq p then pk_data_len p else 0"
      let ?win = "if pk_syn p then ucast (pk_window p) else push_bit (pk_snd_wscale p) (ucast (pk_window p))"
      define s4 where "s4 = refresh_wnd_end meta (update_window e meta (pk_data_ack p) ?seq ?win s3)"
      define s5 where "s5 = (s4\<lparr>m_life := set_info sk (\<lambda>i. i\<lparr>sk_err_soft := 0\<rparr>) (m_life s4)\<rparr>)\<lparr>m_probes_out := 0, m_rcv_tstamp := mk_stamp k\<rparr>"
      have q4: "quiet_step meta s s4" unfolding s4_def by (rule quiet_trans [OF quiet_trans [OF q3 update_window_quiet] refresh_quiet])
      have "quiet_step meta s4 s5" using keeps_numbers_step(2) by (simp add: s5_def quiet_step_def)
      then have q5: "quiet_step meta s s5" using quiet_trans [OF q4] by blast
      have eq: "mptcp_data_ack n e k meta sk p s = (if packets_out (m_tp s5 meta) = 0
          then Some (mptcp_push_pending_frames meta (if has_head s5 then m_call Ack_Probe s5 else s5))
          else ack_data n e k meta sk p (pk_data_ack p) ?seq ?len s5)"
        unfolding mptcp_data_ack_def Let_def s2_def [symmetric] s3_def [symmetric] s4_def [symmetric] s5_def [symmetric]
          if_not_P [OF ack] if_not_P [OF good] ..
      show ?thesis
      proof (cases "packets_out (m_tp s5 meta) = 0")
        case True
        have "quiet_step meta s (if has_head s5 then m_call Ack_Probe s5 else s5)" using q5 quiet_trans [OF q5 quiet_steps(1)] by simp
        from push [OF this] show ?thesis using ok eq True by simp
      next
        case False
        have i5: "xmit_inv a meta s5" "left 0 s5 < n" using quiet_inv [OF q5 inv] fuel left_same [of s5 s 0] q5 by (simp_all add: quiet_step_def)
        obtain s' a' where d: "ack_data n e k meta sk p (pk_data_ack p) ?seq ?len s5 = Some s'" "xmit_inv a' meta s'" "moves meta s5 s'"
          "snd_una (m_tp s' meta) = pk_data_ack p"
          using ack_data_ok [OF i5(1) k i5(2)] by blast
        have "moves meta s s'" using moves_trans [OF _ d(3)] quiet_advances [OF q5] by (simp add: advances_moves)
        moreover have "unat (pk_data_ack p - snd_una (m_tp s meta)) \<le> unat (snd_nxt (m_tp s meta) - snd_una (m_tp s meta))"
          using ack_in_window [OF _ _ win] good una by auto
        ultimately show ?thesis using eq False d by auto
      qed
    qed
  qed
qed

text \<open>C13. What an acknowledgement does to the queue: the segments it leaves out are exactly the first sent ones that end
  at or before \<open>snd_una\<close>; the first of the others, if any, is not acknowledged to its end (its beginning may be
  cut off), the rest of the sent segments and the unsent ones are the same.\<close>

theorem mptcp_clean_rtx_queue_removes_acked:
  assumes "xmit_inv a meta s" and "ack_kernel e k meta"
  shows "\<exists>s' a'. mptcp_clean_rtx_queue e k meta prior s = Some s' \<and> xmit_inv a' meta s' \<and> cleaned meta (snd_una (m_tp s meta)) s s'"
  using clean_rtx_ok [OF assms(1)] assms(2) unfolding ack_kernel_def by blast

section \<open>A closed instance\<close>

definition sample_ack_env :: ack_env where
  "sample_ack_env = \<lparr>ae_may_update = (\<lambda>_ _ _ _. True), ae_update_wl = (\<lambda>x. x), ae_tso_acked = (\<lambda>_ b. (0, b)), ae_shrunk_nospace = False,
     ae_dst = True, ae_linger2_neg = False, ae_fin_time = 60, ae_timewait_len = 60, ae_owned = False, ae_time_wait = (\<lambda>_ _ s. s),
     ae_tcp_reset = (\<lambda>_ s. s)\<rparr>"

definition sample_ack :: ack_pkt where
  "sample_ack = \<lparr>pk_syn = False, pk_ack = True, pk_data_ack = 100, pk_has_seq = False, pk_data_seq = 0, pk_data_len = 0, pk_seq = 0,
     pk_end_seq = 0, pk_ack_seq = 1, pk_fin = False, pk_window = 2000, pk_snd_wscale = 2, pk_dfin2 = False\<rparr>"

lemma sample_ack_kernel: "ack_kernel sample_ack_env sample_meta_kernel 0"
  unfolding ack_kernel_def
proof (intro conjI)
  show "xmit_kernel sample_meta_kernel 0" "sizes sample_meta_kernel" by (rule sample_meta_kernel_ok)+
  show "closes sample_meta_kernel 0"
    by (simp add: closes_def sample_meta_kernel_def default_kernel_def) (simp add: sample_tcp_def sample_life_kernel_def)
  show "counts sample_meta_kernel" by (simp add: counts_def sample_meta_kernel_def default_kernel_def sample_tcp_def)
  show "finals sample_ack_env 0" by (simp add: finals_def sample_ack_env_def)
qed (simp add: trims_def sample_ack_env_def)

lemma sample_meta_left: "left 0 sample_meta = 101"
  by (simp add: left_def sample_meta_def sample_segs_def sample_skb_def)

theorem mptcp_data_ack_safe_witness:
  "\<exists>s' a'. mptcp_data_ack 102 sample_ack_env sample_meta_kernel 0 1 sample_ack sample_meta = Some s' \<and> xmit_inv a' 0 s' \<and>
     unat (snd_una (m_tp s' 0)) \<le> 100"
proof -
  have win: "snd_una (m_tp sample_meta 0) = 0" "snd_nxt (m_tp sample_meta 0) = 100"
    by (simp_all add: sample_meta_def sample_out_def l_tp_def sample_sock_def)
  show ?thesis
    using mptcp_data_ack_safe [OF sample_meta_inv(1) sample_ack_kernel, of 1 102 sample_ack] by (auto simp: win sample_meta_left)
qed

text \<open>The acknowledgement of the whole sent segment empties the sent part.\<close>

definition sample_acked :: meta_state where
  "sample_acked = m_set_tp 0 (\<lambda>tp. tp\<lparr>snd_una := 100\<rparr>) sample_meta"

theorem mptcp_clean_rtx_queue_removes_acked_witness:
  "\<exists>s' a'. mptcp_clean_rtx_queue sample_ack_env sample_meta_kernel 0 0 sample_acked = Some s' \<and> xmit_inv a' 0 s' \<and>
     cleaned 0 (snd_una (m_tp sample_acked 0)) sample_acked s'"
  unfolding sample_acked_def
  by (rule mptcp_clean_rtx_queue_removes_acked [OF set_una_inv(1) [OF sample_meta_inv(1)] sample_ack_kernel])

end
