(* ===== verification/Spec2Isabelle.thy ===== *)
theory Spec2Isabelle
  imports Red_Send Sched_RoundRobin Sched_Redundant Registry Cc_Lia Cc_Olia Cc_Balia Cc_Wvegas
    Options_RoundTrip Subflows Tokens Meta_Sched Data_Ack_Safe
begin

text \<open>
  A model of rMPTCP, redundant Multipath TCP: the multipath layer of a Linux kernel (\<open>net/mptcp\<close>) with a
  scheduler that sends every segment on several subflows (\<open>rmptcp.c\<close>, \<open>rmptcp_pathcheck.c\<close>).

  Parts of the program.  A connection has a meta socket, whose write and receive queue the application
  uses, and subflows, which are TCP sockets.  On the way out a scheduler takes a segment of the write or
  the reinject queue and a subflow (\<open>mptcp_sched.c\<close>, \<open>mptcp_rr.c\<close>, \<open>mptcp_redundant.c\<close>, \<open>rmptcp.c\<close>),
  \<open>mptcp_output.c\<close> copies the segment to the subflow with a mapping from subflow to data sequence
  numbers, and a coupled congestion control (\<open>mptcp_coupled.c\<close>, \<open>mptcp_olia.c\<close>, \<open>mptcp_balia.c\<close>,
  \<open>mptcp_wvegas.c\<close>) moves the windows of the subflows.  On the way in \<open>mptcp_input.c\<close> turns subflow
  segments into data segments and \<open>mptcp_ofo_queue.c\<close> brings them in order.  rMPTCP keeps a register of the
  subflows with their measured bandwidth, redundancy quota and failure state.

  Theories.
  \<^item> Prelude: C integer arithmetic (wrapping, division by zero as \<open>None\<close>), flag words, bounded searches.
  \<^item> Kernel_Env: sockets, segments, sequence number comparison, clock values.
  \<^item> Mpcb: the control block with the 64-bit data sequence numbers and the path indices
    (\<open>include/net/mptcp.h\<close>).
  \<^item> Data_Output: mapping, copy to a subflow, reinjection (\<open>mptcp_output.c\<close>).
  \<^item> Red_Register, Red_Bandwidth, Red_Quota, Red_Failure, Red_Avail, Red_Send: \<open>rmptcp.c\<close>, in the order
    of the code: register of subflows, measurements, quotas, failure detection, choice of the available
    subflows, transmission.  Path_Check: \<open>rmptcp_pathcheck.c\<close>.
  \<^item> Sched_State, Sched_Default, Sched_RoundRobin, Sched_Redundant: the schedulers behind one interface.
  \<^item> Registry: the lists of schedulers and path managers (\<open>mptcp_sched.c\<close>, \<open>mptcp_pm.c\<close>).
  \<^item> Cc_State, Cc_Lia, Cc_Olia, Cc_Balia, Cc_Wvegas: the congestion controls behind one interface, with Reno as
    reference.
  \<^item> Rx_State, Red_Lowpass, Ofo_Queue: received segments, the low-pass filter of the receiver
    (\<open>mptcp_input.c\<close>), and the out-of-order queue with the data-FIN (\<open>mptcp_ofo_queue.c\<close>).
  \<^item> Data_Input: the check of mappings and the move of data from a subflow to the connection (\<open>mptcp_input.c\<close>).
  \<^item> Options, Options_RoundTrip: which options a packet gets, their bytes and their parser; what the parser
    reads back, with the way of a mapping from Data_Output over its bytes to Data_Input.
  \<^item> Subflows: adding and removing the subflows of a connection (\<open>mptcp_ctrl.c\<close>), with their list, counters
    and path indices as one state.
  \<^item> Hmac, Join: the keys, nonces and message codes (\<open>mptcp_ctrl.c\<close>, \<open>mptcp_ipv4.c\<close>) and the handshake by
    which a subflow joins a connection (\<open>mptcp_input.c\<close>, \<open>mptcp_ctrl.c\<close>).
  \<^item> Tokens: the hash tables of tokens and requests, keys with a free token and the first data sequence
    numbers (\<open>mptcp_ctrl.c\<close>, \<open>mptcp_ipv4.c\<close>, \<open>mptcp_ipv6.c\<close>).

  \<^item> Mss: the announced window and the segment sizes (\<open>mptcp_output.c\<close>).
  \<^item> Meta_Output: sending at the level of the connection (\<open>mptcp_output.c\<close>): the transmission loop over the scheduler and
    \<open>rmptcp_send_next_segment\<close>, window probes, data-FIN, reset, retransmission and timers.  Red_Frame: what a call of rMPTCP
    leaves alone.  Meta_Sched: what these operations rely on when they call a scheduler, as a locale, interpreted with the
    default scheduler on the state of the connection.  Meta_Xmit, Meta_Steps: with any such scheduler the write queue stays one chain,
    the loop ends, and the same over all runs of these operations.
  \<^item> Data_Ack, Data_Ack_Safe: the data acknowledgement (\<open>mptcp_input.c\<close>): what it removes from the queues, and that
    \<open>snd_una\<close> only moves forward within the sent data.

  Correspondence.  C records are records with the fields the modelled functions use, pointers are
  numbers or list positions, the memory they point to is a function, a list of kernel objects is a list.
  A field that the code computes by a call into the kernel (\<open>tcp_packets_in_flight\<close>, \<open>tcp_wnd_end\<close>, ...) is an
  input; a kernel function that changes state is a field of a record of functions
  (\<open>kernel_ops\<close>, \<open>cc_kernel\<close>, \<open>rx_kernel\<close>), with what is used of it as a named hypothesis.  Machine integers
  have their width, and a division by zero, a null pointer or an access behind an array is \<open>None\<close>.

  Bounds.  Loops over lists and arrays are structural recursions or folds.  The loop of the round-robin
  scheduler has a fuel, which \<open>rr_search_terminates\<close> shows to be enough; the ring of the redundant
  scheduler, the loop that scales the rates of Balia and the delivery from the out-of-order queue are
  functions with a termination proof.  The transmission loop has a fuel; \<open>write_xmit_ends\<close> gives the number of
  turns that is enough: the waiting data and the segments that the scheduler repeats (\<open>default_repeats\<close> says when there are none).  Comparisons of sequence numbers assume a window of less than
  \<open>2^31\<close> numbers where a statement speaks of their order.

  Not modelled.  Memory management, locks and reference counts; building and hashing of sockets, requests
  and time-wait sockets (\<open>mptcp_ctrl.c\<close>, \<open>mptcp_ipv4.c\<close>, \<open>mptcp_ipv6.c\<close>), which consist of calls into the
  TCP stack; the netlink and proc interfaces.
\<close>

end
